(* ===== verification/Prelude.thy ===== *)
theory Prelude
  imports Main "HOL-Library.Char_ord" "HOL-Library.List_Lexorder" "HOL-Library.Monad_Syntax"
begin

section \<open>Prelude: how Go is read in this development\<close>

text \<open>
  Shared conventions of all component theories.

  \<^item> A Go function that can panic (nil dereference, slice index out of range, explicit
    \<^verbatim>\<open>panic\<close>) returns \<open>'a option\<close>; \<open>None\<close> is the panic. Errors that
    the Go code returns as values are values of a sum type, \<open>Inl\<close> the error.
  \<^item> Go's \<^verbatim>\<open>int\<close> is read as the unbounded \<open>int\<close> unless a theory says
    otherwise; where the width matters the component uses a \<open>word\<close>.
  \<^item> Go strings and byte slices are byte sequences: \<open>string\<close>, a list of 8-bit
    characters, compared lexicographically (\<open>List_Lexorder\<close> over \<open>Char_ord\<close>).
  \<^item> A Go slice is a list. Reads and writes go through \<open>slice_get\<close> and \<open>slice_set\<close>,
    which are \<open>None\<close> out of range, as the run-time check panics there.
  \<^item> Go's integer division truncates towards zero: \<open>go_div\<close> and \<open>go_mod\<close>.
\<close>

named_theorems slice_simps \<open>evaluation and length of slice reads and writes\<close>
named_theorems go_str \<open>the strings-package operations on literals and on appended strings\<close>

subsection \<open>Option as the panic monad\<close>

lemma bind_eq_Some_iff [simp]:
  "(Option.bind x f = Some y) = (\<exists>a. x = Some a \<and> f a = Some y)"
  by (cases x) auto

lemma bind_eq_None_iff:
  "(Option.bind x f = None) = (x = None \<or> (\<exists>a. x = Some a \<and> f a = None))"
  by (cases x) auto

subsection \<open>Slices\<close>

definition slice_get :: "'a list \<Rightarrow> int \<Rightarrow> 'a option" where
  "slice_get xs i = (if 0 \<le> i \<and> i < int (length xs) then Some (xs ! nat i) else None)"

definition slice_set :: "'a list \<Rightarrow> int \<Rightarrow> 'a \<Rightarrow> 'a list option" where
  "slice_set xs i x =
     (if 0 \<le> i \<and> i < int (length xs) then Some (xs[nat i := x]) else None)"

text \<open>The slice expression \<^verbatim>\<open>xs[lo:hi]\<close>, bounds checked against the length.\<close>

definition slice_sub :: "'a list \<Rightarrow> int \<Rightarrow> int \<Rightarrow> 'a list option" where
  "slice_sub xs lo hi =
     (if 0 \<le> lo \<and> lo \<le> hi \<and> hi \<le> int (length xs)
      then Some (take (nat (hi - lo)) (drop (nat lo) xs)) else None)"

text \<open>\<^verbatim>\<open>copy(xs[i:], src)\<close>: overwrites as many elements as both sides have.\<close>

definition slice_copy :: "'a list \<Rightarrow> nat \<Rightarrow> 'a list \<Rightarrow> 'a list" where
  "slice_copy xs i src = take i xs @ take (length xs - i) src @ drop (i + length src) xs"

lemma slice_copy_length [slice_simps]: "length (slice_copy xs i src) = length xs"
  by (auto simp: slice_copy_def)

lemma slice_get_of_nat [slice_simps, simp]:
  "slice_get xs (int n) = (if n < length xs then Some (xs ! n) else None)"
  by (simp add: slice_get_def)

lemma slice_get_Some [slice_simps]:
  "0 \<le> i \<Longrightarrow> i < int (length xs) \<Longrightarrow> slice_get xs i = Some (xs ! nat i)"
  by (simp add: slice_get_def)

lemma slice_get_None_iff [slice_simps]:
  "slice_get xs i = None \<longleftrightarrow> i < 0 \<or> int (length xs) \<le> i"
  by (auto simp: slice_get_def)

lemma slice_get_eq_SomeD:
  "slice_get xs i = Some x \<Longrightarrow> 0 \<le> i \<and> nat i < length xs \<and> xs ! nat i = x"
  by (auto simp: slice_get_def split: if_splits)

lemma slice_set_of_nat [slice_simps, simp]:
  "slice_set xs (int n) x = (if n < length xs then Some (xs[n := x]) else None)"
  by (simp add: slice_set_def)

lemma slice_set_length [slice_simps]:
  "slice_set xs i x = Some ys \<Longrightarrow> length ys = length xs"
  by (auto simp: slice_set_def split: if_splits)

subsection \<open>Strings\<close>

text \<open>\<^verbatim>\<open>strings.ToLower\<close> and \<^verbatim>\<open>ToUpper\<close> on ASCII strings; other bytes stay as they are.\<close>

definition lower_char :: "char \<Rightarrow> char" where
  "lower_char c = (if CHR ''A'' \<le> c \<and> c \<le> CHR ''Z'' then char_of (of_char c + 32 :: nat) else c)"

definition ToLower :: "string \<Rightarrow> string" where
  "ToLower s = map lower_char s"

lemma ToLower_simps [go_str]:
  "ToLower [] = []" "ToLower (c # s) = lower_char c # ToLower s"
  "ToLower (s @ t) = ToLower s @ ToLower t" "length (ToLower s) = length s"
  by (simp_all add: ToLower_def)

text \<open>\<^verbatim>\<open>strings.TrimSpace\<close> and the prefix and suffix operations; white space is ASCII.\<close>

definition is_space :: "char \<Rightarrow> bool" where
  "is_space c \<longleftrightarrow> c \<in> set [CHR '' '', CHR 0x09, CHR 0x0A, CHR 0x0B, CHR 0x0C, CHR 0x0D]"

definition TrimSpace :: "string \<Rightarrow> string" where
  "TrimSpace s = rev (dropWhile is_space (rev (dropWhile is_space s)))"

definition HasPrefix :: "string \<Rightarrow> string \<Rightarrow> bool" where
  "HasPrefix s p \<longleftrightarrow> take (length p) s = p"

definition HasSuffix :: "string \<Rightarrow> string \<Rightarrow> bool" where
  "HasSuffix s p \<longleftrightarrow> length p \<le> length s \<and> drop (length s - length p) s = p"

definition TrimSuffix :: "string \<Rightarrow> string \<Rightarrow> string" where
  "TrimSuffix s p = (if HasSuffix s p then take (length s - length p) s else s)"

lemma HasPrefix_append [simp, go_str]: "HasPrefix (p @ s) p"
  by (simp add: HasPrefix_def)

lemma HasPrefix_iff: "HasPrefix s p \<longleftrightarrow> (\<exists>t. s = p @ t)"
  unfolding HasPrefix_def by (metis append_eq_conv_conj append_take_drop_id)

lemma HasSuffix_append [simp, go_str]: "HasSuffix (s @ p) p"
  by (simp add: HasSuffix_def)

lemma HasSuffix_single [go_str]: "HasSuffix s [c] \<longleftrightarrow> s \<noteq> [] \<and> last s = c"
  by (cases s rule: rev_cases) (auto simp: HasSuffix_def)

lemma HasSuffix_iff: "HasSuffix s p \<longleftrightarrow> (\<exists>t. s = t @ p)"
proof
  assume "HasSuffix s p"
  then have "s = take (length s - length p) s @ p"
    by (metis HasSuffix_def append_take_drop_id)
  then show "\<exists>t. s = t @ p" by blast
qed (auto simp: HasSuffix_def)

lemma TrimSuffix_append [simp, go_str]: "TrimSuffix (s @ p) p = s"
  by (simp add: TrimSuffix_def)

lemma TrimSpace_id:
  "s = [] \<or> (\<not> is_space (hd s) \<and> \<not> is_space (last s)) \<Longrightarrow> TrimSpace s = s"
  by (cases s) (auto simp: TrimSpace_def dropWhile_append1 dropWhile_eq_self_iff hd_append hd_rev)

subsection \<open>Truncating division\<close>

definition go_div :: "int \<Rightarrow> int \<Rightarrow> int" where
  "go_div a b = sgn a * sgn b * (\<bar>a\<bar> div \<bar>b\<bar>)"

definition go_mod :: "int \<Rightarrow> int \<Rightarrow> int" where
  "go_mod a b = a - b * go_div a b"

lemma go_div_nonneg [simp]: "0 \<le> a \<Longrightarrow> 0 \<le> b \<Longrightarrow> go_div a b = a div b"
  by (cases "a = 0"; cases "b = 0") (auto simp: go_div_def)

lemma go_mod_nonneg [simp]: "0 \<le> a \<Longrightarrow> 0 \<le> b \<Longrightarrow> go_mod a b = a mod b"
  by (simp add: go_mod_def minus_mult_div_eq_mod)

subsection \<open>Decimal output\<close>

text \<open>\<^verbatim>\<open>fmt\<close>'s \<^verbatim>\<open>%v\<close> of an \<^verbatim>\<open>int\<close>, and the widths \<^verbatim>\<open>%2v\<close>
  (padded on the left) and \<^verbatim>\<open>%-2v\<close> (padded on the right).\<close>

fun digits :: "nat \<Rightarrow> string" where
  "digits n = (if n < 10 then [char_of (48 + n)] else digits (n div 10) @ [char_of (48 + n mod 10)])"

declare digits.simps [simp del]

definition fmt_int :: "int \<Rightarrow> string" where
  "fmt_int i = (if i < 0 then CHR ''-'' # digits (nat (- i)) else digits (nat i))"

definition pad_left :: "nat \<Rightarrow> string \<Rightarrow> string" where
  "pad_left w s = replicate (w - length s) CHR '' '' @ s"

definition pad_right :: "nat \<Rightarrow> string \<Rightarrow> string" where
  "pad_right w s = s @ replicate (w - length s) CHR '' ''"

end
