(* ===== verification/KeyOrder.thy ===== *)
theory KeyOrder
  imports Prelude
begin

section \<open>Key orders and the contract of an ordered map\<close>

text \<open>
  The tree maps of \<^verbatim>\<open>omap\<close>, \<^verbatim>\<open>osmap\<close> compare keys with a caller-supplied
  less-than function. Here is what they need of it (\<open>key_order\<close>, a strict weak order: two
  keys are the same key when neither is below the other), the specification of their
  operations on the sorted list of entries, and the contract \<open>ordered_map\<close> that a client
  may rely on; each implementation interprets it.
\<close>

definition same_key :: "('k \<Rightarrow> 'k \<Rightarrow> bool) \<Rightarrow> 'k \<Rightarrow> 'k \<Rightarrow> bool" where
  "same_key lt a b \<longleftrightarrow> \<not> lt a b \<and> \<not> lt b a"

fun find_entries :: "('k \<Rightarrow> 'k \<Rightarrow> bool) \<Rightarrow> ('k \<times> 'v) list \<Rightarrow> 'k \<Rightarrow> 'v option" where
  "find_entries lt [] key = None"
| "find_entries lt ((k, v) # ps) key =
     (if same_key lt k key then Some v else find_entries lt ps key)"

text \<open>An existing entry keeps its key and gets the new value.\<close>

fun upd_entries ::
  "('k \<Rightarrow> 'k \<Rightarrow> bool) \<Rightarrow> 'k \<Rightarrow> 'v \<Rightarrow> ('k \<times> 'v) list \<Rightarrow> ('k \<times> 'v) list" where
  "upd_entries lt key val [] = [(key, val)]"
| "upd_entries lt key val ((k, v) # ps) =
     (if lt key k then (key, val) # (k, v) # ps
      else if lt k key then (k, v) # upd_entries lt key val ps
      else (k, val) # ps)"

definition del_entries :: "('k \<Rightarrow> 'k \<Rightarrow> bool) \<Rightarrow> 'k \<Rightarrow> ('k \<times> 'v) list \<Rightarrow> ('k \<times> 'v) list" where
  "del_entries lt key ps = filter (\<lambda>p. \<not> same_key lt (fst p) key) ps"

definition asc :: "('k \<Rightarrow> 'k \<Rightarrow> bool) \<Rightarrow> ('k \<times> 'v) list \<Rightarrow> bool" where
  "asc lt ps \<longleftrightarrow> sorted_wrt lt (map fst ps)"

lemma asc_simps [simp]:
  "asc lt []"
  "asc lt (p # ps) \<longleftrightarrow> (\<forall>q\<in>set ps. lt (fst p) (fst q)) \<and> asc lt ps"
  "asc lt (ps @ qs) \<longleftrightarrow> asc lt ps \<and> asc lt qs \<and> (\<forall>p\<in>set ps. \<forall>q\<in>set qs. lt (fst p) (fst q))"
  by (auto simp: asc_def sorted_wrt_append)

lemma del_entries_simps [simp]:
  "del_entries lt key [] = []"
  "del_entries lt key (p # ps) =
     (if same_key lt (fst p) key then del_entries lt key ps else p # del_entries lt key ps)"
  "del_entries lt key (ps @ qs) = del_entries lt key ps @ del_entries lt key qs"
  by (auto simp: del_entries_def)

locale key_order =
  fixes lt :: "'k \<Rightarrow> 'k \<Rightarrow> bool"
  assumes irrefl: "\<not> lt a a"
    and trans: "lt a b \<Longrightarrow> lt b c \<Longrightarrow> lt a c"
    and neg_trans: "\<not> lt a b \<Longrightarrow> \<not> lt b c \<Longrightarrow> \<not> lt a c"
begin

lemma asym: "lt a b \<Longrightarrow> \<not> lt b a"
  using irrefl trans by blast

lemma lt_le_trans: "lt a b \<Longrightarrow> \<not> lt c b \<Longrightarrow> lt a c"
  using neg_trans by blast

lemma le_lt_trans: "\<not> lt b a \<Longrightarrow> lt b c \<Longrightarrow> lt a c"
  using neg_trans by blast

lemma same_refl [simp]: "same_key lt a a"
  by (simp add: same_key_def irrefl)

lemma same_sym: "same_key lt a b \<Longrightarrow> same_key lt b a"
  by (simp add: same_key_def)

lemma same_trans: "same_key lt a b \<Longrightarrow> same_key lt b c \<Longrightarrow> same_key lt a c"
  using neg_trans by (auto simp: same_key_def)

lemma same_cong: "same_key lt a b \<Longrightarrow> same_key lt a c \<longleftrightarrow> same_key lt b c"
  using same_trans same_sym by blast

lemma find_append: "find_entries lt (ps @ qs) key =
   (case find_entries lt ps key of None \<Rightarrow> find_entries lt qs key | Some v \<Rightarrow> Some v)"
  by (induction ps) auto

lemma find_None: "(\<forall>p\<in>set ps. \<not> same_key lt (fst p) key) \<Longrightarrow> find_entries lt ps key = None"
  by (induction ps) auto

lemma find_below: "(\<forall>p\<in>set ps. lt (fst p) a) \<Longrightarrow> \<not> lt key a \<Longrightarrow> find_entries lt ps key = None"
  by (rule find_None) (auto simp: same_key_def dest: lt_le_trans)

lemma find_above: "(\<forall>p\<in>set ps. lt a (fst p)) \<Longrightarrow> \<not> lt a key \<Longrightarrow> find_entries lt ps key = None"
  by (rule find_None) (auto simp: same_key_def dest: le_lt_trans)

lemma upd_below: "(\<forall>p\<in>set ps. lt (fst p) key) \<Longrightarrow>
   upd_entries lt key val (ps @ qs) = ps @ upd_entries lt key val qs"
  by (induction ps) (auto dest: asym)

lemma upd_left: "lt key a \<Longrightarrow>
   upd_entries lt key val (ps @ (a, b) # qs) = upd_entries lt key val ps @ (a, b) # qs"
  by (induction ps) (auto dest: asym)

lemma upd_set: "\<forall>p\<in>set ps. lt a (fst p) \<Longrightarrow> lt a key \<Longrightarrow>
   p \<in> set (upd_entries lt key val ps) \<Longrightarrow> lt a (fst p)"
  by (induction ps) (auto split: if_splits)

lemma asc_upd: "asc lt ps \<Longrightarrow> asc lt (upd_entries lt key val ps)"
proof (induction ps)
  case (Cons p ps)
  then show ?case
    by (cases p) (auto intro: trans dest: upd_set[rotated 2])
qed auto

lemma find_upd: "asc lt ps \<Longrightarrow> find_entries lt (upd_entries lt key val ps) k =
   (if same_key lt key k then Some val else find_entries lt ps k)"
proof (induction ps)
  case (Cons p ps)
  then show ?case
    by (cases p) (auto simp: same_key_def dest: neg_trans asym)
qed auto

lemma length_upd: "asc lt ps \<Longrightarrow> length (upd_entries lt key val ps) =
   (if find_entries lt ps key = None then Suc (length ps) else length ps)"
proof (induction ps)
  case (Cons p ps)
  show ?case
  proof (cases p)
    case (Pair k v)
    show ?thesis
    proof (cases "lt key k")
      case True
      with Cons.prems Pair have "find_entries lt ps key = None"
        by (intro find_above[of _ k]) (auto dest: asym)
      with True Pair show ?thesis by (auto simp: same_key_def)
    next
      case False
      with Cons Pair show ?thesis by (auto simp: same_key_def)
    qed
  qed
qed auto

lemma asc_del: "asc lt ps \<Longrightarrow> asc lt (del_entries lt key ps)"
  by (auto simp: asc_def del_entries_def sorted_wrt_map intro: sorted_wrt_filter)

lemma find_del: "find_entries lt (del_entries lt key ps) k =
   (if same_key lt key k then None else find_entries lt ps k)"
proof (induction ps)
  case (Cons p ps)
  then show ?case
    by (cases p; cases "same_key lt (fst p) key") (auto simp: same_cong dest: same_sym same_trans)
qed auto

lemma del_none: "(\<forall>p\<in>set ps. \<not> same_key lt (fst p) key) \<Longrightarrow> del_entries lt key ps = ps"
  by (auto simp: del_entries_def)

lemma del_below: "(\<forall>p\<in>set ps. lt (fst p) a) \<Longrightarrow> \<not> lt key a \<Longrightarrow> del_entries lt key ps = ps"
  by (rule del_none) (auto simp: same_key_def dest: lt_le_trans)

lemma del_above: "(\<forall>p\<in>set ps. lt a (fst p)) \<Longrightarrow> \<not> lt a key \<Longrightarrow> del_entries lt key ps = ps"
  by (rule del_none) (auto simp: same_key_def dest: le_lt_trans)

end

subsection \<open>The contract\<close>

text \<open>
  \<open>ins\<close> returns the map and whether the key was new; it never panics on a map that
  satisfies the invariant, and \<open>entries\<close> (what a traversal visits) changes as the sorted
  list does.
\<close>

locale ordered_map = key_order lt for lt :: "'k \<Rightarrow> 'k \<Rightarrow> bool" +
  fixes empty :: "'m"
    and ins :: "'m \<Rightarrow> 'k \<Rightarrow> 'v \<Rightarrow> ('m \<times> bool) option"
    and find :: "'m \<Rightarrow> 'k \<Rightarrow> 'v option"
    and entries :: "'m \<Rightarrow> ('k \<times> 'v) list"
    and len :: "'m \<Rightarrow> int"
    and inv :: "'m \<Rightarrow> bool"
  assumes inv_empty: "inv empty"
    and entries_empty: "entries empty = []"
    and entries_asc: "inv m \<Longrightarrow> asc lt (entries m)"
    and ins_spec: "inv m \<Longrightarrow> \<exists>m'. ins m k v = Some (m', find_entries lt (entries m) k = None) \<and>
          inv m' \<and> entries m' = upd_entries lt k v (entries m)"
    and find_spec: "inv m \<Longrightarrow> find m k = find_entries lt (entries m) k"
    and len_spec: "inv m \<Longrightarrow> len m = int (length (entries m))"
begin

lemma find_empty: "find empty k = None"
  by (simp add: find_spec inv_empty entries_empty)

lemma ins_inv: "inv m \<Longrightarrow> ins m k v = Some (m', b) \<Longrightarrow> inv m'"
  using ins_spec[of m k v] by auto

lemma ins_entries: "inv m \<Longrightarrow> ins m k v = Some (m', b) \<Longrightarrow>
    entries m' = upd_entries lt k v (entries m)"
  using ins_spec[of m k v] by auto

lemma find_ins: "inv m \<Longrightarrow> ins m k v = Some (m', b) \<Longrightarrow>
    find m' j = (if same_key lt k j then Some v else find m j)"
  using ins_inv[of m k v m' b] ins_entries[of m k v m' b] entries_asc[of m]
  by (simp add: find_spec find_upd)

lemma ins_new: "inv m \<Longrightarrow> ins m k v = Some (m', b) \<Longrightarrow> b \<longleftrightarrow> find m k = None"
  using ins_spec[of m k v] find_spec[of m k] by auto

lemma len_ins: "inv m \<Longrightarrow> ins m k v = Some (m', b) \<Longrightarrow>
    len m' = (if b then len m + 1 else len m)"
  using ins_inv[of m k v m' b] ins_entries[of m k v m' b] ins_new[of m k v m' b]
    entries_asc[of m] by (simp add: len_spec length_upd find_spec)

text \<open>A run of insertions, in order; later values win.\<close>

fun ins_all :: "'m \<Rightarrow> ('k \<times> 'v) list \<Rightarrow> 'm option" where
  "ins_all m [] = Some m"
| "ins_all m ((k, v) # ps) = do { (m', b) \<leftarrow> ins m k v; ins_all m' ps }"

lemma ins_all_spec: "inv m \<Longrightarrow> \<exists>m'. ins_all m ps = Some m' \<and> inv m' \<and>
    (\<forall>k. find m' k = (case find_entries lt (rev ps) k of None \<Rightarrow> find m k | Some v \<Rightarrow> Some v))"
proof (induction ps arbitrary: m)
  case (Cons p ps)
  obtain k v where p: "p = (k, v)" by (cases p)
  obtain m1 b where m1: "ins m k v = Some (m1, b)" using ins_spec[OF Cons.prems, of k v] by auto
  note inv1 = ins_inv[OF Cons.prems m1]
  obtain m' where m': "ins_all m1 ps = Some m'" "inv m'"
    "\<And>k. find m' k = (case find_entries lt (rev ps) k of None \<Rightarrow> find m1 k | Some v \<Rightarrow> Some v)"
    using Cons.IH[OF inv1] by blast
  then show ?case
    by (auto simp: p m1 find_append find_ins[OF Cons.prems m1] split: option.split)
qed auto

end

end
