(* ===== verification/OMap.thy ===== *)
theory OMap
  imports KeyOrder "HOL-Library.Sublist"
begin

section \<open>omap: the left-leaning red-black tree map\<close>

text \<open>
  Models \<^verbatim>\<open>omap/omap/omap.go\<close>. A \<^verbatim>\<open>*node\<close> is the datatype \<open>node\<close>, with
  \<open>Nil\<close> for the nil pointer: every node has one owner, so the in-place updates of the Go
  code are functional updates here. Dereferencing nil is \<open>None\<close> (a panic). The receiver
  \<^verbatim>\<open>*Map\<close> is the record \<open>omap\<close>.
\<close>

datatype ('k, 'v) node =
    is_Nil: Nil
  | Node (nkey: 'k) (nvalue: 'v) (nred: bool) (nleft: "('k, 'v) node") (nright: "('k, 'v) node")
  where
    "nleft Nil = Nil"
  | "nright Nil = Nil"

record ('k, 'v) omap =
  m_root :: "('k, 'v) node"
  m_less :: "'k \<Rightarrow> 'k \<Rightarrow> bool"
  m_length :: int

definition New :: "('k \<Rightarrow> 'k \<Rightarrow> bool) \<Rightarrow> ('k, 'v) omap" where
  "New f = \<lparr>m_root = Nil, m_less = f, m_length = 0\<rparr>"

definition NewStringKeyed :: "(string, 'v) omap" where
  "NewStringKeyed = \<lparr>m_root = Nil, m_less = (\<lambda>a b. a < b), m_length = 0\<rparr>"

definition NewCaseFoldedKeyed :: "(string, 'v) omap" where
  "NewCaseFoldedKeyed = \<lparr>m_root = Nil, m_less = (\<lambda>a b. ToLower a < ToLower b), m_length = 0\<rparr>"

definition NewIntKeyed :: "(int, 'v) omap" where
  "NewIntKeyed = \<lparr>m_root = Nil, m_less = (\<lambda>a b. a < b), m_length = 0\<rparr>"

subsection \<open>Colours and rotations\<close>

fun isRed :: "('k, 'v) node \<Rightarrow> bool" where
  "isRed Nil = False"
| "isRed (Node _ _ c _ _) = c"

fun flipChild :: "('k, 'v) node \<Rightarrow> ('k, 'v) node" where
  "flipChild Nil = Nil"
| "flipChild (Node k v c l r) = Node k v (\<not> c) l r"

fun colorFlip :: "('k, 'v) node \<Rightarrow> ('k, 'v) node option" where
  "colorFlip Nil = None"
| "colorFlip (Node k v c l r) = Some (Node k v (\<not> c) (flipChild l) (flipChild r))"

fun rotateLeft :: "('k, 'v) node \<Rightarrow> ('k, 'v) node option" where
  "rotateLeft (Node k v c l (Node xk xv xc xl xr)) = Some (Node xk xv c (Node k v True l xl) xr)"
| "rotateLeft _ = None"

fun rotateRight :: "('k, 'v) node \<Rightarrow> ('k, 'v) node option" where
  "rotateRight (Node k v c (Node xk xv xc xl xr) r) = Some (Node xk xv c xl (Node k v True xr r))"
| "rotateRight _ = None"

subsection \<open>Insert and Find\<close>

text \<open>The two rotations at the end of \<^verbatim>\<open>insert\<close>.\<close>

definition insertFix :: "('k, 'v) node \<Rightarrow> ('k, 'v) node option" where
  "insertFix t = do {
     t1 \<leftarrow> (if isRed (nright t) \<and> \<not> isRed (nleft t) then rotateLeft t else Some t);
     (if isRed (nleft t1) \<and> isRed (nleft (nleft t1)) then rotateRight t1 else Some t1)
   }"

function insertNode ::
  "('k \<Rightarrow> 'k \<Rightarrow> bool) \<Rightarrow> ('k, 'v) node \<Rightarrow> 'k \<Rightarrow> 'v \<Rightarrow> (('k, 'v) node \<times> bool) option" where
  "insertNode lt Nil key val = Some (Node key val True Nil Nil, True)"
| "insertNode lt (Node k0 v0 c0 l0 r0) key val = do {
     t0 \<leftarrow> (if isRed l0 \<and> isRed r0 then colorFlip (Node k0 v0 c0 l0 r0)
           else Some (Node k0 v0 c0 l0 r0));
     (case t0 of
        Nil \<Rightarrow> None
      | Node k v c l r \<Rightarrow> do {
          (t1, inserted) \<leftarrow>
            (if lt key k then do {
               (l', i) \<leftarrow> insertNode lt l key val;
               Some (Node k v c l' r, i) }
             else if lt k key then do {
               (r', i) \<leftarrow> insertNode lt r key val;
               Some (Node k v c l r', i) }
             else Some (Node k val c l r, False));
          t2 \<leftarrow> insertFix t1;
          Some (t2, inserted) })
   }"
  by pat_completeness auto

lemma size_flipChild [simp]: "size (flipChild t) = size t"
  by (cases t) auto

termination insertNode
  by (relation "measure (\<lambda>(lt, t, key, val). size t)") (auto split: if_splits)


definition Insert :: "('k, 'v) omap \<Rightarrow> 'k \<Rightarrow> 'v \<Rightarrow> (('k, 'v) omap \<times> bool) option" where
  "Insert m key val = do {
     (t, inserted) \<leftarrow> insertNode (m_less m) (m_root m) key val;
     (case t of
        Nil \<Rightarrow> None
      | Node k v c l r \<Rightarrow>
          Some (m\<lparr>m_root := Node k v False l r,
                  m_length := (if inserted then m_length m + 1 else m_length m)\<rparr>, inserted))
   }"

text \<open>\<^verbatim>\<open>Find\<close>'s loop. The pair \<^verbatim>\<open>(value, found)\<close> is an option.\<close>

fun findNode :: "('k \<Rightarrow> 'k \<Rightarrow> bool) \<Rightarrow> ('k, 'v) node \<Rightarrow> 'k \<Rightarrow> 'v option" where
  "findNode lt Nil key = None"
| "findNode lt (Node k v c l r) key =
     (if lt key k then findNode lt l key
      else if lt k key then findNode lt r key
      else Some v)"

text \<open>The same loop cut off after a number of rounds: \<open>None\<close> when it has not returned by then.\<close>

fun findLoop :: "nat \<Rightarrow> ('k \<Rightarrow> 'k \<Rightarrow> bool) \<Rightarrow> ('k, 'v) node \<Rightarrow> 'k \<Rightarrow> 'v option option" where
  "findLoop n lt Nil key = Some None"
| "findLoop 0 lt (Node k v c l r) key = None"
| "findLoop (Suc n) lt (Node k v c l r) key =
     (if lt key k then findLoop n lt l key
      else if lt k key then findLoop n lt r key
      else Some (Some v))"

definition Find :: "('k, 'v) omap \<Rightarrow> 'k \<Rightarrow> 'v option" where
  "Find m key = findNode (m_less m) (m_root m) key"

text \<open>\<^verbatim>\<open>Do\<close> calls a function on every pair; the state it changes is \<open>'s\<close>.\<close>

fun doNode :: "('k, 'v) node \<Rightarrow> ('k \<Rightarrow> 'v \<Rightarrow> 's \<Rightarrow> 's) \<Rightarrow> 's \<Rightarrow> 's" where
  "doNode Nil f s = s"
| "doNode (Node k v c l r) f s = doNode r f (f k v (doNode l f s))"

definition Do :: "('k, 'v) omap \<Rightarrow> ('k \<Rightarrow> 'v \<Rightarrow> 's \<Rightarrow> 's) \<Rightarrow> 's \<Rightarrow> 's" where
  "Do m f s = doNode (m_root m) f s"

definition Len :: "('k, 'v) omap \<Rightarrow> int" where
  "Len m = m_length m"

subsection \<open>Delete\<close>

definition fixUp :: "('k, 'v) node \<Rightarrow> ('k, 'v) node option" where
  "fixUp t = do {
     t1 \<leftarrow> (if isRed (nright t) then rotateLeft t else Some t);
     t2 \<leftarrow> (if isRed (nleft t1) \<and> isRed (nleft (nleft t1)) then rotateRight t1 else Some t1);
     (if isRed (nleft t2) \<and> isRed (nright t2) then colorFlip t2 else Some t2)
   }"

fun firstNode :: "('k, 'v) node \<Rightarrow> ('k, 'v) node option" where
  "firstNode Nil = None"
| "firstNode (Node k v c l r) = (if is_Nil l then Some (Node k v c l r) else firstNode l)"

definition moveRedLeft :: "('k, 'v) node \<Rightarrow> ('k, 'v) node option" where
  "moveRedLeft t = do {
     t0 \<leftarrow> colorFlip t;
     (case t0 of
        Nil \<Rightarrow> None
      | Node k v c l r \<Rightarrow>
          (if \<not> is_Nil r \<and> isRed (nleft r) then do {
             r' \<leftarrow> rotateRight r;
             t1 \<leftarrow> rotateLeft (Node k v c l r');
             colorFlip t1 }
           else Some t0))
   }"

definition moveRedRight :: "('k, 'v) node \<Rightarrow> ('k, 'v) node option" where
  "moveRedRight t = do {
     t0 \<leftarrow> colorFlip t;
     (if \<not> is_Nil (nleft t0) \<and> isRed (nleft (nleft t0)) then do {
        t1 \<leftarrow> rotateRight t0;
        colorFlip t1 }
      else Some t0)
   }"

lemma size_colorFlip: "colorFlip t = Some t' \<Longrightarrow> size t' = size t"
  by (cases t) auto

lemma size_rotateLeft: "rotateLeft t = Some t' \<Longrightarrow> size t' = size t"
  by (cases t rule: rotateLeft.cases) auto

lemma size_rotateRight: "rotateRight t = Some t' \<Longrightarrow> size t' = size t"
  by (cases t rule: rotateRight.cases) auto

lemma size_moveRedLeft: "moveRedLeft t = Some t' \<Longrightarrow> size t' = size t"
  by (cases t) (auto simp: moveRedLeft_def dest!: size_colorFlip size_rotateLeft size_rotateRight
      split: if_splits)

lemma size_moveRedRight: "moveRedRight t = Some t' \<Longrightarrow> size t' = size t"
  by (cases t) (auto simp: moveRedRight_def dest!: size_colorFlip size_rotateRight split: if_splits)

function deleteMinimum :: "('k, 'v) node \<Rightarrow> ('k, 'v) node option" where
  "deleteMinimum Nil = None"
| "deleteMinimum (Node k v c l r) =
     (if is_Nil l then Some Nil
      else do {
        t0 \<leftarrow> (if \<not> isRed l \<and> \<not> isRed (nleft l) then moveRedLeft (Node k v c l r)
              else Some (Node k v c l r));
        (case t0 of
           Nil \<Rightarrow> None
         | Node k1 v1 c1 l1 r1 \<Rightarrow> do {
             l' \<leftarrow> deleteMinimum l1;
             fixUp (Node k1 v1 c1 l' r1) })
      })"
  by pat_completeness auto

termination deleteMinimum
  by (relation "measure size") (auto dest!: size_moveRedLeft split: if_splits)

function removeNode ::
  "('k \<Rightarrow> 'k \<Rightarrow> bool) \<Rightarrow> ('k, 'v) node \<Rightarrow> 'k \<Rightarrow> (('k, 'v) node \<times> bool) option" where
  "removeNode lt Nil key = None"
| "removeNode lt (Node k v c l r) key =
     (if lt key k then do {
        (t1, deleted) \<leftarrow>
          (if \<not> is_Nil l then do {
             t0 \<leftarrow> (if \<not> isRed l \<and> \<not> isRed (nleft l) then moveRedLeft (Node k v c l r)
                   else Some (Node k v c l r));
             (case t0 of
                Nil \<Rightarrow> None
              | Node k1 v1 c1 l1 r1 \<Rightarrow> do {
                  (l', d) \<leftarrow> removeNode lt l1 key;
                  Some (Node k1 v1 c1 l' r1, d) }) }
           else Some (Node k v c l r, False));
        t2 \<leftarrow> fixUp t1;
        Some (t2, deleted) }
      else do {
        t0 \<leftarrow> (if isRed l then rotateRight (Node k v c l r) else Some (Node k v c l r));
        (case t0 of
           Nil \<Rightarrow> None
         | Node k0 v0 c0 l0 r0 \<Rightarrow>
             (if \<not> lt key k0 \<and> \<not> lt k0 key \<and> is_Nil r0 then Some (Nil, True)
              else do {
                (t1, deleted) \<leftarrow>
                  (if \<not> is_Nil r0 then do {
                     t' \<leftarrow> (if \<not> isRed r0 \<and> \<not> isRed (nleft r0) then moveRedRight t0
                           else Some t0);
                     (case t' of
                        Nil \<Rightarrow> None
                      | Node k1 v1 c1 l1 r1 \<Rightarrow>
                          (if \<not> lt key k1 \<and> \<not> lt k1 key then do {
                             smallest \<leftarrow> firstNode r1;
                             r' \<leftarrow> deleteMinimum r1;
                             Some (Node (nkey smallest) (nvalue smallest) c1 l1 r', True) }
                           else do {
                             (r', d) \<leftarrow> removeNode lt r1 key;
                             Some (Node k1 v1 c1 l1 r', d) })) }
                   else Some (t0, False));
                t2 \<leftarrow> fixUp t1;
                Some (t2, deleted) }))
      })"
  by pat_completeness auto

termination removeNode
  by (relation "measure (\<lambda>(lt, t, key). size t)")
     (auto dest!: size_moveRedLeft size_moveRedRight size_rotateRight split: if_splits)

definition Delete :: "('k, 'v) omap \<Rightarrow> 'k \<Rightarrow> (('k, 'v) omap \<times> bool) option" where
  "Delete m key = do {
     (t, deleted) \<leftarrow>
       (if \<not> is_Nil (m_root m) then do {
          (t, d) \<leftarrow> removeNode (m_less m) (m_root m) key;
          Some ((case t of Nil \<Rightarrow> Nil | Node k v c l r \<Rightarrow> Node k v False l r), d) }
        else Some (m_root m, False));
     Some (m\<lparr>m_root := t, m_length := (if deleted then m_length m - 1 else m_length m)\<rparr>, deleted)
   }"


subsection \<open>Entries in order\<close>

fun inorder :: "('k, 'v) node \<Rightarrow> ('k \<times> 'v) list" where
  "inorder Nil = []"
| "inorder (Node k v c l r) = inorder l @ (k, v) # inorder r"

definition entries :: "('k, 'v) omap \<Rightarrow> ('k \<times> 'v) list" where
  "entries m = inorder (m_root m)"

lemma inorder_flipChild [simp]: "inorder (flipChild t) = inorder t"
  by (cases t) auto

lemma inorder_colorFlip: "colorFlip t = Some t' \<Longrightarrow> inorder t' = inorder t"
  by (cases t) auto

lemma inorder_rotateLeft: "rotateLeft t = Some t' \<Longrightarrow> inorder t' = inorder t"
  by (cases t rule: rotateLeft.cases) auto

lemma inorder_rotateRight: "rotateRight t = Some t' \<Longrightarrow> inorder t' = inorder t"
  by (cases t rule: rotateRight.cases) auto

text \<open>The guards of the call sites: the rotations and flips are never reached with nil.\<close>

lemma rotateLeft_ex: "isRed (nright t) \<Longrightarrow> \<exists>t'. rotateLeft t = Some t' \<and> t' \<noteq> Nil"
  by (cases t rule: rotateLeft.cases) auto

lemma rotateRight_ex: "isRed (nleft t) \<Longrightarrow> \<exists>t'. rotateRight t = Some t' \<and> t' \<noteq> Nil"
  by (cases t rule: rotateRight.cases) auto

lemma colorFlip_ex: "t \<noteq> Nil \<Longrightarrow> \<exists>t'. colorFlip t = Some t' \<and> t' \<noteq> Nil"
  by (cases t) auto

lemma insertFix_ex: "\<exists>t'. insertFix t = Some t'"
  using rotateLeft_ex[of t] rotateRight_ex by (fastforce simp: insertFix_def)

lemma inorder_insertFix: "insertFix t = Some t' \<Longrightarrow> inorder t' = inorder t"
  by (auto simp: insertFix_def dest!: inorder_rotateLeft inorder_rotateRight split: if_splits)

lemma insertFix_inorder: "\<exists>t'. insertFix t = Some t' \<and> inorder t' = inorder t"
  using insertFix_ex inorder_insertFix by blast

lemma rotateLeft_non_nil: "rotateLeft t = Some t' \<Longrightarrow> t' \<noteq> Nil"
  by (cases t rule: rotateLeft.cases) auto

lemma rotateRight_non_nil: "rotateRight t = Some t' \<Longrightarrow> t' \<noteq> Nil"
  by (cases t rule: rotateRight.cases) auto

lemma insertFix_non_nil: "insertFix t = Some t' \<Longrightarrow> t \<noteq> Nil \<Longrightarrow> t' \<noteq> Nil"
  by (auto simp: insertFix_def dest!: rotateLeft_non_nil rotateRight_non_nil split: if_splits)

subsection \<open>Insert and Find on sorted trees\<close>

lemma split_4node:
  obtains c l r where
    "(if isRed l0 \<and> isRed r0 then colorFlip (Node k0 v0 c0 l0 r0)
      else Some (Node k0 v0 c0 l0 r0)) = Some (Node k0 v0 c l r)"
    "inorder l = inorder l0" "inorder r = inorder r0" "size l = size l0" "size r = size r0"
  by (cases "isRed l0 \<and> isRed r0") auto

text \<open>The three branches of \<^verbatim>\<open>insert\<close>, after the 4-node split.\<close>

lemma insertNode_branches:
  assumes "(if isRed l0 \<and> isRed r0 then colorFlip (Node k v c0 l0 r0)
            else Some (Node k v c0 l0 r0)) = Some (Node k v c l r)"
  shows insertNode_lt: "lt key k \<Longrightarrow> insertNode lt l key val = Some (l', b) \<Longrightarrow>
      insertFix (Node k v c l' r) = Some t' \<Longrightarrow>
      insertNode lt (Node k v c0 l0 r0) key val = Some (t', b)"
    and insertNode_gt: "\<not> lt key k \<Longrightarrow> lt k key \<Longrightarrow> insertNode lt r key val = Some (r', b) \<Longrightarrow>
      insertFix (Node k v c l r') = Some t' \<Longrightarrow>
      insertNode lt (Node k v c0 l0 r0) key val = Some (t', b)"
    and insertNode_eq: "\<not> lt key k \<Longrightarrow> \<not> lt k key \<Longrightarrow>
      insertFix (Node k val c l r) = Some t' \<Longrightarrow>
      insertNode lt (Node k v c0 l0 r0) key val = Some (t', False)"
  by (simp_all only: insertNode.simps assms bind.bind_lunit node.case prod.case if_True if_False simp_thms)

lemma insertNode_non_nil: "insertNode lt t key val = Some (t', b) \<Longrightarrow> t' \<noteq> Nil"
proof (cases t)
  case (Node k v c0 l0 r0)
  assume ins: "insertNode lt t key val = Some (t', b)"
  obtain c l r where t0: "(if isRed l0 \<and> isRed r0 then colorFlip (Node k v c0 l0 r0)
        else Some (Node k v c0 l0 r0)) = Some (Node k v c l r)"
    by (rule split_4node)
  from ins obtain t1 where "insertFix t1 = Some t'" "t1 \<noteq> Nil"
    unfolding Node insertNode.simps t0 by (auto split: if_splits)
  then show ?thesis by (rule insertFix_non_nil)
qed auto

lemma doNode_inorder: "doNode t f s = fold (\<lambda>(k, v). f k v) (inorder t) s"
  by (induction t arbitrary: s) auto

context key_order begin

lemma findNode_inorder: "asc lt (inorder t) \<Longrightarrow> findNode lt t key = find_entries lt (inorder t) key"
proof (induction t)
  case (Node k v c l r)
  show ?case
  proof (cases "lt key k")
    case True
    with Node.prems have "find_entries lt (inorder r) key = None"
      by (intro find_above[of _ k]) (auto dest: asym)
    with True Node show ?thesis by (auto simp: find_append same_key_def split: option.split)
  next
    case False
    with Node.prems have "find_entries lt (inorder l) key = None"
      by (intro find_below[of _ k]) auto
    with False Node show ?thesis by (auto simp: find_append same_key_def)
  qed
qed auto

lemma insertNode_spec: "asc lt (inorder t) \<Longrightarrow>
   \<exists>t'. insertNode lt t key val = Some (t', find_entries lt (inorder t) key = None) \<and>
        inorder t' = upd_entries lt key val (inorder t)"
proof (induction t rule: measure_induct_rule[where f = size])
  case (less t)
  show ?case
  proof (cases t)
    case (Node k v c0 l0 r0)
    obtain c l r where t0: "(if isRed l0 \<and> isRed r0 then colorFlip (Node k v c0 l0 r0)
        else Some (Node k v c0 l0 r0)) = Some (Node k v c l r)"
      and io: "inorder l = inorder l0" "inorder r = inorder r0"
      and sz: "size l = size l0" "size r = size r0"
      by (rule split_4node)
    note sorted = less.prems[unfolded Node, simplified]
    consider (lt) "lt key k" | (gt) "\<not> lt key k" "lt k key" | (eq) "\<not> lt key k" "\<not> lt k key" by blast
    then show ?thesis
    proof cases
      case lt
      have "find_entries lt (inorder r0) key = None"
        using sorted lt by (intro find_above[of _ k]) (auto dest: asym)
      with lt obtain l' where l': "insertNode lt l key val =
          Some (l', find_entries lt (inorder t) key = None)"
        "inorder l' = upd_entries lt key val (inorder l0)"
        using less.IH[of l] sorted
        by (auto simp: Node io sz find_append same_key_def split: option.splits)
      obtain t' where t': "insertFix (Node k v c l' r) = Some t'"
        "inorder t' = inorder (Node k v c l' r)"
        using insertFix_inorder by blast
      have "inorder t' = upd_entries lt key val (inorder t)"
        using l'(2) t'(2) lt by (simp add: Node io upd_left)
      with insertNode_lt[OF t0 lt l'(1) t'(1)] show ?thesis by (simp only: Node) blast
    next
      case gt
      have below: "\<forall>p\<in>set (inorder l0 @ [(k, v)]). lt (fst p) key"
        using sorted gt by (auto intro: trans)
      then have "find_entries lt (inorder l0 @ [(k, v)]) key = None"
        using irrefl by (intro find_below[of _ key]) auto
      with gt obtain r' where r': "insertNode lt r key val =
          Some (r', find_entries lt (inorder t) key = None)"
        "inorder r' = upd_entries lt key val (inorder r0)"
        using less.IH[of r] sorted
        by (auto simp: Node io sz find_append same_key_def split: option.splits if_splits)
      obtain t' where t': "insertFix (Node k v c l r') = Some t'"
        "inorder t' = inorder (Node k v c l r')"
        using insertFix_inorder by blast
      have "inorder t' = upd_entries lt key val (inorder t)"
        using upd_below[OF below, of val "inorder r0"] r'(2) t'(2) by (simp add: Node io)
      with insertNode_gt[OF t0 gt r'(1) t'(1)] show ?thesis by (simp only: Node) blast
    next
      case eq
      have "find_entries lt (inorder l0) key = None"
        using sorted eq by (intro find_below[of _ k]) auto
      with eq have found: "find_entries lt (inorder t) key \<noteq> None"
        by (simp add: Node find_append same_key_def)
      have below: "\<forall>p\<in>set (inorder l0). lt (fst p) key"
        using sorted lt_le_trans[OF _ eq(1)] by auto
      obtain t' where t': "insertFix (Node k val c l r) = Some t'"
        "inorder t' = inorder (Node k val c l r)"
        using insertFix_inorder by blast
      have "inorder t' = upd_entries lt key val (inorder t)"
        using upd_below[OF below, of val "(k, v) # inorder r0"] t'(2) eq by (simp add: Node io)
      moreover have "insertNode lt t key val = Some (t', find_entries lt (inorder t) key = None)"
        using insertNode_eq[OF t0 eq t'(1)] found by (simp only: Node simp_thms)
      ultimately show ?thesis by blast
    qed
  qed auto
qed

end

subsection \<open>The red-black invariant under insertion\<close>

text \<open>
  \<open>llrb\<close>: no red node has a red child, and a red right child only beside a red left one (the
  4-nodes that this variant splits on the way down). \<open>balanced\<close>: every path from the root
  to nil passes the same number of black nodes, \<open>bh\<close>.
\<close>

fun bh :: "('k, 'v) node \<Rightarrow> nat" where
  "bh Nil = 0"
| "bh (Node k v c l r) = bh l + (if c then 0 else 1)"

fun balanced :: "('k, 'v) node \<Rightarrow> bool" where
  "balanced Nil = True"
| "balanced (Node k v c l r) \<longleftrightarrow> bh l = bh r \<and> balanced l \<and> balanced r"

fun llrb :: "('k, 'v) node \<Rightarrow> bool" where
  "llrb Nil = True"
| "llrb (Node k v c l r) \<longleftrightarrow>
     llrb l \<and> llrb r \<and> (c \<longrightarrow> \<not> isRed l \<and> \<not> isRed r) \<and> (isRed r \<longrightarrow> isRed l)"

fun height :: "('k, 'v) node \<Rightarrow> nat" where
  "height Nil = 0"
| "height (Node k v c l r) = Suc (max (height l) (height r))"

text \<open>What a recursive call of \<^verbatim>\<open>insert\<close> promises its caller about the new subtree.\<close>

definition ins_step :: "('k, 'v) node \<Rightarrow> ('k, 'v) node \<Rightarrow> bool" where
  "ins_step t t' \<longleftrightarrow> balanced t' \<and> bh t' = bh t \<and> llrb (nleft t') \<and> llrb (nright t') \<and>
     (isRed (nright t') \<longrightarrow> isRed (nleft t')) \<and> \<not> (isRed t' \<and> isRed (nright t')) \<and>
     (isRed t' \<and> isRed (nleft t') \<longrightarrow> isRed t) \<and>
     (isRed t' \<longrightarrow> isRed t \<or> t = Nil \<or> isRed (nleft t) \<and> isRed (nright t))"

lemma ins_step_black: "ins_step t t' \<Longrightarrow> \<not> isRed t' \<Longrightarrow> llrb t'"
  by (cases t') (auto simp: ins_step_def)

lemma red_children: "llrb t \<Longrightarrow> isRed t \<Longrightarrow> \<not> isRed (nleft t) \<and> \<not> isRed (nright t)"
  by (cases t) auto

lemma fix_left:
  assumes "llrb (Node k v c l r)" "balanced (Node k v c l r)" "\<not> isRed r"
    "ins_step l l'" "insertFix (Node k v c l' r) = Some t'"
  shows "ins_step (Node k v c l r) t'"
  using assms ins_step_black[OF assms(4)]
  by (cases l'; cases "isRed l'"; cases "isRed (nleft l')"; cases c)
     (simp_all add: insertFix_def ins_step_def, auto)

lemma fix_right:
  assumes "llrb (Node k v c l r)" "balanced (Node k v c l r)" "\<not> isRed r"
    "ins_step r r'" "insertFix (Node k v c l r') = Some t'"
  shows "ins_step (Node k v c l r) t'"
  using assms ins_step_black[OF assms(4)] red_children[of l]
  by (cases r'; cases "isRed r'"; cases "isRed l"; cases c)
     (simp_all add: insertFix_def ins_step_def, auto)

lemma split_flip:
  assumes "llrb t" "isRed t" "balanced t"
  shows "flipChild t \<noteq> Nil \<and> llrb (flipChild t) \<and> balanced (flipChild t) \<and>
         bh (flipChild t) = Suc (bh t) \<and> \<not> isRed (flipChild t) \<and>
         \<not> isRed (nleft (flipChild t)) \<and> \<not> isRed (nright (flipChild t))"
  using assms by (cases t) auto

lemma split_fix:
  assumes "llrb (Node k v c0 l0 r0)" "balanced (Node k v c0 l0 r0)" "isRed l0" "isRed r0"
    and "ins_step (flipChild l0) l' \<and> r' = flipChild r0 \<or> l' = flipChild l0 \<and> ins_step (flipChild r0) r'"
    and "insertFix (Node k v' (\<not> c0) l' r') = Some t'"
  shows "ins_step (Node k v c0 l0 r0) t'"
proof -
  have l0: "llrb l0" "balanced l0" and r0: "llrb r0" "balanced r0" and bh0: "bh r0 = bh l0"
    and c0: "\<not> c0" using assms(1-4) by auto
  note fl = split_flip[OF l0(1) assms(3) l0(2)] and fr = split_flip[OF r0(1) assms(4) r0(2)]
  have "\<not> isRed l' \<and> llrb l' \<and> balanced l' \<and> bh l' = Suc (bh l0)"
    using assms(5) fl ins_step_black[of "flipChild l0" l'] by (auto simp: ins_step_def)
  moreover have "\<not> isRed r' \<and> llrb r' \<and> balanced r' \<and> bh r' = Suc (bh l0)"
    using assms(5) fr bh0 ins_step_black[of "flipChild r0" r'] by (auto simp: ins_step_def)
  ultimately show ?thesis using assms(3,4,6) c0 by (auto simp: insertFix_def ins_step_def)
qed

lemma nosplit_eq:
  assumes "llrb (Node k v c l r)" "balanced (Node k v c l r)" "\<not> isRed r"
    "insertFix (Node k v' c l r) = Some t'"
  shows "ins_step (Node k v c l r) t'"
  using assms red_children[of l] by (auto simp: insertFix_def ins_step_def split: if_splits)

lemma insertNode_step: "llrb t \<Longrightarrow> balanced t \<Longrightarrow> insertNode lt t key val = Some (t', b) \<Longrightarrow> ins_step t t'"
proof (induction t arbitrary: t' b rule: measure_induct_rule[where f = size])
  case (less t)
  show ?case
  proof (cases t)
    case Nil
    with less.prems show ?thesis by (auto simp: ins_step_def)
  next
    case (Node k v c0 l0 r0)
    note t = less.prems[unfolded Node]
    have IHl: "ins_step l0 l'" if "insertNode lt l0 key val = Some (l', b)" for l' b
      using less.IH[of l0 l' b] t(1,2) that by (auto simp: Node)
    have IHr: "ins_step r0 r'" if "insertNode lt r0 key val = Some (r', b)" for r' b
      using less.IH[of r0 r' b] t(1,2) that by (auto simp: Node)
    show ?thesis
    proof (cases "isRed l0 \<and> isRed r0")
      case True
      have "ins_step (flipChild l0) l'" if "insertNode lt (flipChild l0) key val = Some (l', b)" for l' b
        using less.IH[of "flipChild l0" l' b] t(1,2) split_flip[of l0] True that by (auto simp: Node)
      moreover have "ins_step (flipChild r0) r'" if "insertNode lt (flipChild r0) key val = Some (r', b)" for r' b
        using less.IH[of "flipChild r0" r' b] t(1,2) split_flip[of r0] True that by (auto simp: Node)
      moreover have "ins_step (flipChild l0) (flipChild l0)"
        using split_flip[of l0] True t(1,2) by (cases l0) (auto simp: ins_step_def)
      moreover note sf = split_fix[OF t(1,2) conjunct1[OF True] conjunct2[OF True]]
      ultimately show ?thesis
        using True t(3) sf[OF disjI1[OF conjI[OF _ refl]]] sf[OF disjI2[OF conjI[OF refl]]]
        unfolding Node by (fastforce split: if_splits)
    next
      case False
      then have "\<not> isRed r0" using t(1) by auto
      with False show ?thesis
        using t(3) IHl IHr fix_left[OF t(1,2)] fix_right[OF t(1,2)] nosplit_eq[OF t(1,2)]
        unfolding Node by (auto split: if_splits)
    qed
  qed
qed

subsection \<open>Delete on a red-black tree\<close>

lemma bh_0_black: "bh t = 0 \<Longrightarrow> \<not> isRed t \<Longrightarrow> t = Nil"
  by (cases t) (auto split: if_splits)

lemma fixUp_ex: "t \<noteq> Nil \<Longrightarrow> \<exists>t'. fixUp t = Some t'"
proof -
  assume "t \<noteq> Nil"
  then obtain t1 where t1: "(if isRed (nright t) then rotateLeft t else Some t) = Some t1" "t1 \<noteq> Nil"
    using rotateLeft_ex[of t] by (cases "isRed (nright t)") auto
  obtain t2 where t2: "(if isRed (nleft t1) \<and> isRed (nleft (nleft t1)) then rotateRight t1 else Some t1) = Some t2"
    "t2 \<noteq> Nil"
    using rotateRight_ex[of t1] t1(2) by (cases "isRed (nleft t1) \<and> isRed (nleft (nleft t1))") auto
  show ?thesis unfolding fixUp_def t1(1) bind.bind_lunit t2(1)
    using colorFlip_ex[OF t2(2)] by auto
qed

lemma inorder_fixUp: "fixUp t = Some t' \<Longrightarrow> inorder t' = inorder t"
  by (auto simp: fixUp_def dest!: inorder_rotateLeft inorder_rotateRight inorder_colorFlip
      split: if_splits)

lemma fixUp_inorder: "t \<noteq> Nil \<Longrightarrow> \<exists>t'. fixUp t = Some t' \<and> inorder t' = inorder t"
  using fixUp_ex inorder_fixUp by blast

lemma moveRedLeft_spec:
  assumes "llrb (Node k v c l r)" "balanced (Node k v c l r)" "l \<noteq> Nil" "\<not> isRed l" "\<not> isRed (nleft l)"
  shows "\<exists>k1 v1 c1 l1 r1. moveRedLeft (Node k v c l r) = Some (Node k1 v1 c1 l1 r1) \<and>
    l1 \<noteq> Nil \<and> llrb l1 \<and> balanced l1 \<and> (k1 = k \<or> (k1, v1) \<in> set (inorder r)) \<and>
    inorder l1 @ (k1, v1) # inorder r1 = inorder l @ (k, v) # inorder r"
proof -
  obtain lk lv ll lr where l: "l = Node lk lv False ll lr" using assms by (cases l) auto
  obtain rk rv rl rr where r: "r = Node rk rv False rl rr"
    using assms l by (cases r) (auto split: if_splits)
  show ?thesis
  proof (cases "isRed rl")
    case True
    then obtain xk xv xl xr where "rl = Node xk xv True xl xr" by (cases rl) auto
    with assms show ?thesis by (auto simp: moveRedLeft_def l r)
  next
    case False
    with assms show ?thesis by (auto simp: moveRedLeft_def l r)
  qed
qed

text \<open>
  The right subtree that \<^verbatim>\<open>remove\<close> descends into may be a right-leaning 3-node, when it was
  made by the rotation of its parent; the key is then not below its root.
\<close>

definition rightish :: "('k, 'v) node \<Rightarrow> bool" where
  "rightish t \<longleftrightarrow> balanced t \<and> llrb (nleft t) \<and> llrb (nright t) \<and>
     (llrb t \<or> isRed (nright t) \<and> \<not> isRed (nleft t))"

lemma rightish_llrb: "llrb t \<Longrightarrow> balanced t \<Longrightarrow> rightish t"
  by (cases t) (auto simp: rightish_def)

lemma moveRedRight_spec:
  assumes "llrb (Node k v c l r)" "balanced (Node k v c l r)" "r \<noteq> Nil" "\<not> isRed r" "\<not> isRed (nleft r)"
  shows "\<exists>k1 v1 c1 l1 r1. moveRedRight (Node k v c l r) = Some (Node k1 v1 c1 l1 r1) \<and>
    (k1 = k \<and> v1 = v \<and> r1 \<noteq> Nil \<and> llrb r1 \<and> balanced r1 \<or>
     (k1, v1) \<in> set (inorder l) \<and> r1 \<noteq> Nil \<and> rightish r1 \<and> nkey r1 = k) \<and>
    inorder l1 @ (k1, v1) # inorder r1 = inorder l @ (k, v) # inorder r"
proof (cases "isRed l")
  case True
  obtain rk rv rl rr where r: "r = Node rk rv False rl rr" using assms by (cases r) auto
  from True obtain lk lv ll lr where l: "l = Node lk lv True ll lr" by (cases l) auto
  with assms r have "llrb (flipChild r)" "balanced (flipChild r)" "flipChild r \<noteq> Nil" "\<not> isRed ll"
    by auto
  with l show ?thesis by (auto simp: moveRedRight_def)
next
  case False
  obtain rk rv rl rr where r: "r = Node rk rv False rl rr" using assms by (cases r) auto
  with False obtain lk lv ll lr where l: "l = Node lk lv False ll lr"
    using assms by (cases l) (auto split: if_splits)
  show ?thesis
  proof (cases "isRed ll")
    case True
    then obtain xk xv xl xr where "ll = Node xk xv True xl xr" by (cases ll) auto
    with assms show ?thesis by (auto simp: moveRedRight_def l r rightish_def)
  next
    case False
    with assms show ?thesis by (auto simp: moveRedRight_def l r)
  qed
qed

lemma firstNode_inorder: "t \<noteq> Nil \<Longrightarrow>
  \<exists>n. firstNode t = Some n \<and> (nkey n, nvalue n) = hd (inorder t)"
proof (induction t)
  case (Node k v c l r)
  show ?case
  proof (cases "l = Nil")
    case False
    then have "inorder l \<noteq> []" by (cases l) auto
    with False Node show ?thesis by (auto simp: is_Nil_def)
  qed auto
qed simp

lemma deleteMinimum_go:
  assumes "l \<noteq> Nil"
    and "(if \<not> isRed l \<and> \<not> isRed (nleft l) then moveRedLeft (Node k v c l r)
          else Some (Node k v c l r)) = Some (Node k1 v1 c1 l1 r1)"
    and "deleteMinimum l1 = Some l'" "fixUp (Node k1 v1 c1 l' r1) = Some t'"
  shows "deleteMinimum (Node k v c l r) = Some t'"
  unfolding deleteMinimum.simps assms(2)
  by (simp only: assms is_Nil_def if_False bind.bind_lunit node.case)

lemma deleteMinimum_spec: "t \<noteq> Nil \<Longrightarrow> llrb t \<Longrightarrow> balanced t \<Longrightarrow>
  \<exists>t'. deleteMinimum t = Some t' \<and> inorder t' = tl (inorder t)"
proof (induction t rule: measure_induct_rule[where f = size])
  case (less t)
  then obtain k v c l r where t: "t = Node k v c l r" by (cases t) auto
  show ?case
  proof (cases "l = Nil")
    case True
    with less.prems have "r = Nil" using bh_0_black[of r] by (auto simp: t)
    with True show ?thesis by (simp add: t)
  next
    case False
    define go where "go = (if \<not> isRed l \<and> \<not> isRed (nleft l) then moveRedLeft t else Some t)"
    obtain k1 v1 c1 l1 r1 where go1: "go = Some (Node k1 v1 c1 l1 r1)" and l1: "l1 \<noteq> Nil" "llrb l1" "balanced l1"
      and io: "inorder l1 @ (k1, v1) # inorder r1 = inorder t"
    proof (cases "\<not> isRed l \<and> \<not> isRed (nleft l)")
      case True
      with moveRedLeft_spec[OF less.prems(2,3)[unfolded t] False] that show ?thesis
        by (auto simp: go_def t)
    next
      case False
      with \<open>l \<noteq> Nil\<close> less.prems that[of k v c l r] show ?thesis by (auto simp: go_def t)
    qed
    have "size (Node k1 v1 c1 l1 r1) = size t"
      using go1 size_moveRedLeft[of t "Node k1 v1 c1 l1 r1"] by (auto simp: go_def split: if_splits)
    then obtain l' where l': "deleteMinimum l1 = Some l'" "inorder l' = tl (inorder l1)"
      using less.IH[of l1] l1 by auto
    obtain t' where t': "fixUp (Node k1 v1 c1 l' r1) = Some t'" "inorder t' = inorder l' @ (k1, v1) # inorder r1"
      using fixUp_inorder[of "Node k1 v1 c1 l' r1"] by auto
    have "inorder l1 \<noteq> []" using l1(1) by (cases l1) auto
    then have "inorder t' = tl (inorder t)" using t'(2) l'(2) io by (metis tl_append2)
    moreover have "deleteMinimum t = Some t'"
      using deleteMinimum_go[OF False go1[unfolded go_def t] l'(1) t'(1)] by (simp only: t)
    ultimately show ?thesis by blast
  qed
qed

text \<open>The branches of \<^verbatim>\<open>remove\<close>. \<open>rot\<close> and \<open>go\<close> name its two conditional moves.\<close>

definition go_left :: "('k, 'v) node \<Rightarrow> ('k, 'v) node option" where
  "go_left t = (if \<not> isRed (nleft t) \<and> \<not> isRed (nleft (nleft t)) then moveRedLeft t else Some t)"

definition rot :: "('k, 'v) node \<Rightarrow> ('k, 'v) node option" where
  "rot t = (if isRed (nleft t) then rotateRight t else Some t)"

definition go_right :: "('k, 'v) node \<Rightarrow> ('k, 'v) node option" where
  "go_right t = (if \<not> isRed (nright t) \<and> \<not> isRed (nleft (nright t)) then moveRedRight t else Some t)"

lemma removeNode_left:
  assumes "lt key k" "l \<noteq> Nil" "go_left (Node k v c l r) = Some (Node k1 v1 c1 l1 r1)"
    "removeNode lt l1 key = Some (l', d)" "fixUp (Node k1 v1 c1 l' r1) = Some t'"
  shows "removeNode lt (Node k v c l r) key = Some (t', d)"
  unfolding removeNode.simps assms(3)[unfolded go_left_def node.sel]
  by (simp only: assms is_Nil_def if_True bind.bind_lunit node.case prod.case not_False_eq_True)

lemma removeNode_left_nil:
  assumes "lt key k" "fixUp (Node k v c Nil r) = Some t'"
  shows "removeNode lt (Node k v c Nil r) key = Some (t', False)"
  by (simp only: removeNode.simps assms is_Nil_def if_True bind.bind_lunit prod.case simp_thms if_False)

lemma removeNode_right_nil:
  assumes "\<not> lt key k" "rot (Node k v c l r) = Some (Node k0 v0 c0 l0 Nil)"
    "fixUp (Node k0 v0 c0 l0 Nil) = Some t'"
  shows "removeNode lt (Node k v c l r) key =
    (if same_key lt k0 key then Some (Nil, True) else Some (t', False))"
  unfolding removeNode.simps assms(2)[unfolded rot_def node.sel]
  by (simp add: assms(1,3) same_key_def)

lemma removeNode_right_min:
  assumes "\<not> lt key k" "rot (Node k v c l r) = Some (Node k0 v0 c0 l0 r0)" "r0 \<noteq> Nil"
    "go_right (Node k0 v0 c0 l0 r0) = Some (Node k1 v1 c1 l1 r1)" "same_key lt k1 key"
    "firstNode r1 = Some n" "deleteMinimum r1 = Some r'"
    "fixUp (Node (nkey n) (nvalue n) c1 l1 r') = Some t'"
  shows "removeNode lt (Node k v c l r) key = Some (t', True)"
proof -
  from assms(5) have "(\<not> lt key k1 \<and> \<not> lt k1 key) = True" by (simp add: same_key_def)
  then show ?thesis
    unfolding removeNode.simps assms(2)[unfolded rot_def node.sel]
    by (simp only: assms(1,3,4,6-)[unfolded go_right_def node.sel] is_Nil_def if_True if_False
        bind.bind_lunit node.case prod.case simp_thms)
qed

lemma removeNode_right_rec:
  assumes "\<not> lt key k" "rot (Node k v c l r) = Some (Node k0 v0 c0 l0 r0)" "r0 \<noteq> Nil"
    "go_right (Node k0 v0 c0 l0 r0) = Some (Node k1 v1 c1 l1 r1)" "\<not> same_key lt k1 key"
    "removeNode lt r1 key = Some (r', d)" "fixUp (Node k1 v1 c1 l1 r') = Some t'"
  shows "removeNode lt (Node k v c l r) key = Some (t', d)"
proof -
  from assms(5) have "(\<not> lt key k1 \<and> \<not> lt k1 key) = False" by (auto simp: same_key_def)
  then show ?thesis
    unfolding removeNode.simps assms(2)[unfolded rot_def node.sel]
    by (simp only: assms(1,3,4,6-)[unfolded go_right_def node.sel] is_Nil_def if_True if_False
        bind.bind_lunit node.case prod.case simp_thms)
qed

declare removeNode.simps(2) [simp del] deleteMinimum.simps(2) [simp del] insertNode.simps(2) [simp del]

lemma right_go:
  assumes "rightish (Node k v c l r)"
  obtains
    (nil) "rot (Node k v c l r) = Some (Node k v c Nil Nil)" "l = Nil" "r = Nil"
  | (go) k0 v0 c0 l0 r0 k1 v1 c1 l1 r1 where
      "rot (Node k v c l r) = Some (Node k0 v0 c0 l0 r0)" "r0 \<noteq> Nil"
      "go_right (Node k0 v0 c0 l0 r0) = Some (Node k1 v1 c1 l1 r1)" "r1 \<noteq> Nil"
      "k1 = k \<and> v1 = v \<and> llrb r1 \<and> balanced r1 \<or>
       (k1, v1) \<in> set (inorder l) \<and> rightish r1 \<and> nkey r1 = k"
      "inorder l1 @ (k1, v1) # inorder r1 = inorder l @ (k, v) # inorder r"
      "size (Node k1 v1 c1 l1 r1) = size (Node k v c l r)"
proof (cases "isRed l")
  case True
  then obtain xk xv xl xr where l: "l = Node xk xv True xl xr" by (cases l) auto
  have "rightish (Node k v True xr r)" using assms by (auto simp: rightish_def l)
  then show ?thesis
    by (intro go[of xk xv c xl "Node k v True xr r" xk xv c xl "Node k v True xr r"])
       (auto simp: rot_def go_right_def l)
next
  case black: False
  then have rot: "rot (Node k v c l r) = Some (Node k v c l r)" by (simp add: rot_def)
  show ?thesis
  proof (cases "r = Nil")
    case True
    with assms black have "l = Nil" by (intro bh_0_black) (auto simp: rightish_def)
    with True rot nil show ?thesis by blast
  next
    case r: False
    show ?thesis
    proof (cases "\<not> isRed r \<and> \<not> isRed (nleft r)")
      case True
      with assms have llrb: "llrb (Node k v c l r)" "balanced (Node k v c l r)"
        by (auto simp: rightish_def)
      from moveRedRight_spec[OF this r] True obtain k1 v1 c1 l1 r1 where m:
        "moveRedRight (Node k v c l r) = Some (Node k1 v1 c1 l1 r1)" "r1 \<noteq> Nil"
        "k1 = k \<and> v1 = v \<and> llrb r1 \<and> balanced r1 \<or>
         (k1, v1) \<in> set (inorder l) \<and> rightish r1 \<and> nkey r1 = k"
        "inorder l1 @ (k1, v1) # inorder r1 = inorder l @ (k, v) # inorder r" by blast
      from go[OF rot r _ m(2-4) size_moveRedRight[OF m(1)]] m(1) True show ?thesis
        by (simp add: go_right_def)
    next
      case False
      with assms rot r show ?thesis
        by (intro go[of k v c l r k v c l r]) (auto simp: go_right_def rightish_def)
    qed
  qed
qed

lemma go_left_spec:
  assumes "llrb (Node k v c l r)" "balanced (Node k v c l r)" "l \<noteq> Nil"
  obtains k1 v1 c1 l1 r1 where "go_left (Node k v c l r) = Some (Node k1 v1 c1 l1 r1)"
    "l1 \<noteq> Nil" "llrb l1" "balanced l1" "k1 = k \<or> (k1, v1) \<in> set (inorder r)"
    "inorder l1 @ (k1, v1) # inorder r1 = inorder l @ (k, v) # inorder r"
    "size (Node k1 v1 c1 l1 r1) = size (Node k v c l r)"
proof (cases "\<not> isRed l \<and> \<not> isRed (nleft l)")
  case True
  with moveRedLeft_spec[OF assms] obtain k1 v1 c1 l1 r1 where m:
    "moveRedLeft (Node k v c l r) = Some (Node k1 v1 c1 l1 r1)" "l1 \<noteq> Nil" "llrb l1"
    "balanced l1" "k1 = k \<or> (k1, v1) \<in> set (inorder r)"
    "inorder l1 @ (k1, v1) # inorder r1 = inorder l @ (k, v) # inorder r" by blast
  from that[OF _ m(2-6) size_moveRedLeft[OF m(1)]] m(1) True show ?thesis
    by (simp add: go_left_def)
next
  case False
  with assms that[of k v c l r] show ?thesis by (auto simp: go_left_def)
qed

context key_order begin

lemma removeNode_spec:
  "rightish t \<Longrightarrow> t \<noteq> Nil \<Longrightarrow> llrb t \<or> \<not> lt key (nkey t) \<Longrightarrow> asc lt (inorder t) \<Longrightarrow>
   \<exists>t'. removeNode lt t key = Some (t', find_entries lt (inorder t) key \<noteq> None) \<and>
        inorder t' = del_entries lt key (inorder t)"
proof (induction t rule: measure_induct_rule[where f = size])
  case (less t)
  then obtain k v c l r where t: "t = Node k v c l r" by (cases t) auto
  note sorted = less.prems(4)
  show ?case
  proof (cases "lt key k")
    case lt: True
    with less.prems(1,3) have llrb: "llrb (Node k v c l r)" "balanced (Node k v c l r)"
      by (auto simp: t rightish_def)
    have above: "\<forall>p\<in>set (inorder r). lt key (fst p)" using sorted lt by (auto simp: t intro: trans)
    show ?thesis
    proof (cases "l = Nil")
      case True
      obtain t' where t': "fixUp (Node k v c Nil r) = Some t'" "inorder t' = (k, v) # inorder r"
        using fixUp_inorder[of "Node k v c Nil r"] by auto
      have none: "\<forall>p\<in>set (inorder t). \<not> same_key lt (fst p) key"
        using above lt True by (auto simp: t same_key_def)
      show ?thesis
        using removeNode_left_nil[where lt = lt and key = key, OF lt t'(1)] t'(2) True find_None[OF none] del_none[OF none] by (simp add: t)
    next
      case False
      with llrb obtain k1 v1 c1 l1 r1 where g: "go_left (Node k v c l r) = Some (Node k1 v1 c1 l1 r1)"
        "l1 \<noteq> Nil" "llrb l1" "balanced l1" "k1 = k \<or> (k1, v1) \<in> set (inorder r)"
        and io: "inorder l1 @ (k1, v1) # inorder r1 = inorder t"
        and sz: "size (Node k1 v1 c1 l1 r1) = size t"
        unfolding t inorder.simps by (rule go_left_spec)
      note sorted1 = sorted[folded io]
      have k1: "lt key k1" using g(5) above lt by auto
      have above1: "\<forall>p\<in>set ((k1, v1) # inorder r1). lt key (fst p)"
        using sorted1 k1 by (auto intro: trans)
      then have no: "\<forall>p\<in>set ((k1, v1) # inorder r1). \<not> same_key lt (fst p) key"
        by (auto simp: same_key_def)
      obtain l' where l': "removeNode lt l1 key = Some (l', find_entries lt (inorder l1) key \<noteq> None)"
        "inorder l' = del_entries lt key (inorder l1)"
        using less.IH[of l1] g sz sorted1 by (cases l1) (auto simp: rightish_def)
      obtain t' where t': "fixUp (Node k1 v1 c1 l' r1) = Some t'"
        "inorder t' = inorder l' @ (k1, v1) # inorder r1"
        using fixUp_inorder[of "Node k1 v1 c1 l' r1"] by auto
      have "find_entries lt (inorder t) key = find_entries lt (inorder l1) key"
        using find_None[OF no] unfolding io[symmetric] find_append by (auto split: option.split)
      moreover have "inorder t' = del_entries lt key (inorder t)"
        using del_none[OF no] l'(2) t'(2) unfolding io[symmetric] by (simp add: del_entries_def)
      ultimately show ?thesis using removeNode_left[where lt = lt and key = key, OF lt False g(1) l'(1) t'(1)] by (simp only: t) blast
    qed
  next
    case ge: False
    from less.prems(1)[unfolded t] show ?thesis
    proof (cases rule: right_go)
      case nil
      obtain t' where t': "fixUp (Node k v c Nil Nil) = Some t'" "inorder t' = [(k, v)]"
        using fixUp_inorder[of "Node k v c Nil Nil"] by auto
      with removeNode_right_nil[where lt = lt and key = key, OF ge nil(1) t'(1)] show ?thesis by (simp add: t nil(2,3))
    next
      case (go k0 v0 c0 l0 r0 k1 v1 c1 l1 r1)
      have io: "inorder l1 @ (k1, v1) # inorder r1 = inorder t" using go(6) by (simp add: t)
      note sorted1 = sorted[folded io]
      have pre: "rightish r1" "\<not> lt key k1" "llrb r1 \<or> \<not> lt key (nkey r1)" "(k1, v1) \<in> set (inorder l) \<longrightarrow> \<not> same_key lt k1 key"
      proof -
        have k1: "lt k1 key" if "(k1, v1) \<in> set (inorder l)"
          using that sorted lt_le_trans[of k1 k key] ge by (auto simp: t)
        with go(5) ge show "rightish r1" "\<not> lt key k1" "llrb r1 \<or> \<not> lt key (nkey r1)"
          by (auto intro: rightish_llrb dest: asym)
        from k1 show "(k1, v1) \<in> set (inorder l) \<longrightarrow> \<not> same_key lt k1 key"
          by (auto simp: same_key_def)
      qed
      have below: "\<forall>p\<in>set (inorder l1). \<not> same_key lt (fst p) key"
        using sorted1 lt_le_trans[OF _ pre(2)] by (auto simp: same_key_def)
      show ?thesis
      proof (cases "same_key lt k1 key")
        case same: True
        with pre(4) go(5) have "llrb r1" "balanced r1" by auto
        then obtain n r' where n: "firstNode r1 = Some n" "(nkey n, nvalue n) = hd (inorder r1)"
          and r': "deleteMinimum r1 = Some r'" "inorder r' = tl (inorder r1)"
          using firstNode_inorder[of r1] deleteMinimum_spec[of r1] go(4) by blast
        obtain t' where t': "fixUp (Node (nkey n) (nvalue n) c1 l1 r') = Some t'"
          "inorder t' = inorder l1 @ hd (inorder r1) # tl (inorder r1)"
          using fixUp_inorder[of "Node (nkey n) (nvalue n) c1 l1 r'"] n(2) r'(2) by auto
        have "inorder r1 \<noteq> []" using go(4) by (cases r1) auto
        then have "inorder t' = inorder l1 @ inorder r1" using t'(2) by simp
        moreover have above: "\<forall>p\<in>set (inorder r1). \<not> same_key lt (fst p) key"
          using sorted1 le_lt_trans[of k1 key] same by (auto simp: same_key_def dest: neg_trans)
        ultimately have "inorder t' = del_entries lt key (inorder t)"
          using same del_none[OF below] del_none[OF above] unfolding io[symmetric] by simp
        moreover have "find_entries lt (inorder t) key = Some v1"
          using same find_None[OF below] unfolding io[symmetric] by (simp add: find_append)
        ultimately show ?thesis
          using removeNode_right_min[where lt = lt and key = key, OF ge go(1,2,3) same n(1) r'(1) t'(1)] by (simp only: t) blast
      next
        case diff: False
        obtain r' where r': "removeNode lt r1 key = Some (r', find_entries lt (inorder r1) key \<noteq> None)"
          "inorder r' = del_entries lt key (inorder r1)"
          using less.IH[of r1] go(4,7) pre sorted1 by (auto simp: t)
        obtain t' where t': "fixUp (Node k1 v1 c1 l1 r') = Some t'"
          "inorder t' = inorder l1 @ (k1, v1) # inorder r'"
          using fixUp_inorder[of "Node k1 v1 c1 l1 r'"] by auto
        have "find_entries lt (inorder t) key = find_entries lt (inorder r1) key"
          using find_None[OF below] diff unfolding io[symmetric] by (simp add: find_append)
        moreover have "inorder t' = del_entries lt key (inorder t)"
          using del_none[OF below] diff r'(2) t'(2) unfolding io[symmetric] by simp
        ultimately show ?thesis
          using removeNode_right_rec[where lt = lt and key = key, OF ge go(1,2,3) diff r'(1) t'(1)] by (simp only: t) blast
      qed
    qed
  qed
qed

end

subsection \<open>Delete on any search tree\<close>

text \<open>
  Without the red-black invariant \<^verbatim>\<open>Delete\<close> still neither panics nor invents nor reorders
  entries, but entries may get lost: \<open>subseq\<close> instead of equality.
\<close>

lemma go_left_any:
  assumes "l \<noteq> Nil"
  obtains k1 v1 c1 l1 r1 where "go_left (Node k v c l r) = Some (Node k1 v1 c1 l1 r1)"
    "l1 \<noteq> Nil" "k1 = k \<or> (k1, v1) \<in> set (inorder r)"
    "inorder l1 @ (k1, v1) # inorder r1 = inorder l @ (k, v) # inorder r"
    "size (Node k1 v1 c1 l1 r1) = size (Node k v c l r)"
proof -
  have "\<exists>k1 v1 c1 l1 r1. moveRedLeft (Node k v c l r) = Some (Node k1 v1 c1 l1 r1) \<and> l1 \<noteq> Nil \<and>
      (k1 = k \<or> (k1, v1) \<in> set (inorder r)) \<and>
      inorder l1 @ (k1, v1) # inorder r1 = inorder l @ (k, v) # inorder r"
    using assms by (cases l; cases r; cases "nleft r") (auto simp: moveRedLeft_def split: if_splits)
  then obtain k1 v1 c1 l1 r1 where m: "moveRedLeft (Node k v c l r) = Some (Node k1 v1 c1 l1 r1)"
    "l1 \<noteq> Nil" "k1 = k \<or> (k1, v1) \<in> set (inorder r)"
    "inorder l1 @ (k1, v1) # inorder r1 = inorder l @ (k, v) # inorder r" by blast
  show ?thesis
  proof (cases "\<not> isRed l \<and> \<not> isRed (nleft l)")
    case True
    with that[OF _ m(2-4) size_moveRedLeft[OF m(1)]] m(1) show ?thesis by (simp add: go_left_def)
  next
    case False
    with assms that[of k v c l r] show ?thesis by (auto simp: go_left_def)
  qed
qed

lemma right_any:
  obtains
    (nil) "rot (Node k v c l r) = Some (Node k v c l Nil)" "r = Nil"
  | (go) k0 v0 c0 l0 r0 k1 v1 c1 l1 r1 where
      "rot (Node k v c l r) = Some (Node k0 v0 c0 l0 r0)" "r0 \<noteq> Nil"
      "go_right (Node k0 v0 c0 l0 r0) = Some (Node k1 v1 c1 l1 r1)" "r1 \<noteq> Nil"
      "k1 = k \<and> v1 = v \<or> (k1, v1) \<in> set (inorder l)"
      "inorder l1 @ (k1, v1) # inorder r1 = inorder l @ (k, v) # inorder r"
      "size (Node k1 v1 c1 l1 r1) = size (Node k v c l r)"
proof (cases "isRed l")
  case True
  then obtain xk xv xl xr where l: "l = Node xk xv True xl xr" by (cases l) auto
  show ?thesis
    by (rule go[of xk xv c xl "Node k v True xr r" xk xv c xl "Node k v True xr r"])
       (auto simp: rot_def go_right_def l)
next
  case black: False
  then have rot: "rot (Node k v c l r) = Some (Node k v c l r)" by (simp add: rot_def)
  show ?thesis
  proof (cases "r = Nil")
    case True
    with rot nil show ?thesis by blast
  next
    case r: False
    have "\<exists>k1 v1 c1 l1 r1. go_right (Node k v c l r) = Some (Node k1 v1 c1 l1 r1) \<and> r1 \<noteq> Nil \<and>
      (k1 = k \<and> v1 = v \<or> (k1, v1) \<in> set (inorder l)) \<and>
      inorder l1 @ (k1, v1) # inorder r1 = inorder l @ (k, v) # inorder r \<and>
      size (Node k1 v1 c1 l1 r1) = size (Node k v c l r)"
      using r by (cases l; cases r) (auto simp: go_right_def moveRedRight_def split: if_splits)
    then show ?thesis using go[OF rot r] by blast
  qed
qed

lemma subseq_tl_app: "subseq xs (tl ys) \<Longrightarrow> ys \<noteq> [] \<Longrightarrow> subseq (xs @ zs) (tl (ys @ zs))"
  by (simp add: list_emb_append_mono)

lemma deleteMinimum_subseq: "t \<noteq> Nil \<Longrightarrow>
  \<exists>t'. deleteMinimum t = Some t' \<and> subseq (inorder t') (tl (inorder t))"
proof (induction t rule: measure_induct_rule[where f = size])
  case (less t)
  then obtain k v c l r where t: "t = Node k v c l r" by (cases t) auto
  show ?case
  proof (cases "l = Nil")
    case True
    then show ?thesis by (simp add: t deleteMinimum.simps(2))
  next
    case False
    then obtain k1 v1 c1 l1 r1 where g: "go_left (Node k v c l r) = Some (Node k1 v1 c1 l1 r1)"
      "l1 \<noteq> Nil" "size (Node k1 v1 c1 l1 r1) = size t"
      and io: "inorder l1 @ (k1, v1) # inorder r1 = inorder t"
      unfolding t inorder.simps by (rule go_left_any)
    obtain l' where l': "deleteMinimum l1 = Some l'" "subseq (inorder l') (tl (inorder l1))"
      using less.IH[of l1] g by auto
    obtain t' where t': "fixUp (Node k1 v1 c1 l' r1) = Some t'" "inorder t' = inorder l' @ (k1, v1) # inorder r1"
      using fixUp_inorder[of "Node k1 v1 c1 l' r1"] by auto
    have "inorder l1 \<noteq> []" using g(2) by (cases l1) auto
    then have "subseq (inorder t') (tl (inorder t))"
      using subseq_tl_app[OF l'(2), of "(k1, v1) # inorder r1"] t'(2) by (simp add: io[symmetric])
    then show ?thesis
      using deleteMinimum_go[OF False g(1)[unfolded go_left_def node.sel] l'(1) t'(1)]
      by (simp only: t) blast
  qed
qed

context key_order begin

lemma removeNode_subseq:
  "t \<noteq> Nil \<Longrightarrow> asc lt (inorder t) \<Longrightarrow>
   \<exists>t'. removeNode lt t key = Some (t', find_entries lt (inorder t) key \<noteq> None) \<and>
        subseq (inorder t') (del_entries lt key (inorder t))"
proof (induction t rule: measure_induct_rule[where f = size])
  case (less t)
  then obtain k v c l r where t: "t = Node k v c l r" by (cases t) auto
  note sorted = less.prems(2)
  show ?case
  proof (cases "lt key k")
    case lt: True
    have above: "\<forall>p\<in>set (inorder r). lt key (fst p)" using sorted lt by (auto simp: t intro: trans)
    show ?thesis
    proof (cases "l = Nil")
      case True
      obtain t' where t': "fixUp (Node k v c Nil r) = Some t'" "inorder t' = (k, v) # inorder r"
        using fixUp_inorder[of "Node k v c Nil r"] by auto
      have none: "\<forall>p\<in>set (inorder t). \<not> same_key lt (fst p) key"
        using above lt True by (auto simp: t same_key_def)
      show ?thesis
        using removeNode_left_nil[where lt = lt and key = key, OF lt t'(1)] t'(2) True
          find_None[OF none] del_none[OF none] by (simp add: t)
    next
      case False
      then obtain k1 v1 c1 l1 r1 where g: "go_left (Node k v c l r) = Some (Node k1 v1 c1 l1 r1)"
        "l1 \<noteq> Nil" "k1 = k \<or> (k1, v1) \<in> set (inorder r)" "size (Node k1 v1 c1 l1 r1) = size t"
        and io: "inorder l1 @ (k1, v1) # inorder r1 = inorder t"
        unfolding t inorder.simps by (rule go_left_any)
      note sorted1 = sorted[folded io]
      have k1: "lt key k1" using g(3) above lt by auto
      have "\<forall>p\<in>set ((k1, v1) # inorder r1). lt key (fst p)"
        using sorted1 k1 by (auto intro: trans)
      then have no: "\<forall>p\<in>set ((k1, v1) # inorder r1). \<not> same_key lt (fst p) key"
        by (auto simp: same_key_def)
      obtain l' where l': "removeNode lt l1 key = Some (l', find_entries lt (inorder l1) key \<noteq> None)"
        "subseq (inorder l') (del_entries lt key (inorder l1))"
        using less.IH[of l1] g sorted1 by (cases l1) auto
      obtain t' where t': "fixUp (Node k1 v1 c1 l' r1) = Some t'"
        "inorder t' = inorder l' @ (k1, v1) # inorder r1"
        using fixUp_inorder[of "Node k1 v1 c1 l' r1"] by auto
      have "find_entries lt (inorder t) key = find_entries lt (inorder l1) key"
        using find_None[OF no] unfolding io[symmetric] find_append by (auto split: option.split)
      moreover have "subseq (inorder t') (del_entries lt key (inorder t))"
        using del_none[OF no] l'(2) t'(2) unfolding io[symmetric]
        by (simp only: del_entries_simps(3) list_emb_append_mono subseq_order.order_refl)
      ultimately show ?thesis
        using removeNode_left[where lt = lt and key = key, OF lt False g(1) l'(1) t'(1)]
        by (simp only: t) blast
    qed
  next
    case ge: False
    show ?thesis
    proof (cases rule: right_any[of k v c l r])
      case nil
      obtain t' where t': "fixUp (Node k v c l Nil) = Some t'" "inorder t' = inorder l @ [(k, v)]"
        using fixUp_inorder[of "Node k v c l Nil"] by auto
      have below: "\<forall>p\<in>set (inorder l). \<not> same_key lt (fst p) key"
        using sorted lt_le_trans[OF _ ge] by (auto simp: t same_key_def)
      from removeNode_right_nil[where lt = lt and key = key, OF ge nil(1) t'(1)] t'(2) nil(2)
      show ?thesis using find_None[OF below] del_none[OF below] by (auto simp: t find_append)
    next
      case (go k0 v0 c0 l0 r0 k1 v1 c1 l1 r1)
      have io: "inorder l1 @ (k1, v1) # inorder r1 = inorder t" using go(6) by (simp add: t)
      note sorted1 = sorted[folded io]
      have k1: "\<not> lt key k1"
        using go(5) sorted lt_le_trans[of k1 k key] ge asym by (auto simp: t)
      have below: "\<forall>p\<in>set (inorder l1). \<not> same_key lt (fst p) key"
        using sorted1 lt_le_trans[OF _ k1] by (auto simp: same_key_def)
      show ?thesis
      proof (cases "same_key lt k1 key")
        case same: True
        obtain n r' where n: "firstNode r1 = Some n" "(nkey n, nvalue n) = hd (inorder r1)"
          and r': "deleteMinimum r1 = Some r'" "subseq (inorder r') (tl (inorder r1))"
          using firstNode_inorder[of r1] deleteMinimum_subseq[of r1] go(4) by blast
        obtain t' where t': "fixUp (Node (nkey n) (nvalue n) c1 l1 r') = Some t'"
          "inorder t' = inorder l1 @ hd (inorder r1) # inorder r'"
          using fixUp_inorder[of "Node (nkey n) (nvalue n) c1 l1 r'"] n(2) by auto
        have "inorder r1 \<noteq> []" using go(4) by (cases r1) auto
        then have "subseq (hd (inorder r1) # inorder r') (inorder r1)"
          using r'(2) by (cases "inorder r1") auto
        moreover have above: "\<forall>p\<in>set (inorder r1). \<not> same_key lt (fst p) key"
          using sorted1 le_lt_trans[of k1 key] same by (auto simp: same_key_def dest: neg_trans)
        ultimately have "subseq (inorder t') (del_entries lt key (inorder t))"
          using same del_none[OF below] del_none[OF above] t'(2) unfolding io[symmetric]
          by (simp add: list_emb_append_mono)
        moreover have "find_entries lt (inorder t) key = Some v1"
          using same find_None[OF below] unfolding io[symmetric] by (simp add: find_append)
        ultimately show ?thesis
          using removeNode_right_min[where lt = lt and key = key, OF ge go(1,2,3) same n(1) r'(1) t'(1)]
          by (simp only: t) blast
      next
        case diff: False
        obtain r' where r': "removeNode lt r1 key = Some (r', find_entries lt (inorder r1) key \<noteq> None)"
          "subseq (inorder r') (del_entries lt key (inorder r1))"
          using less.IH[of r1] go(4,7) sorted1 by (auto simp: t)
        obtain t' where t': "fixUp (Node k1 v1 c1 l1 r') = Some t'"
          "inorder t' = inorder l1 @ (k1, v1) # inorder r'"
          using fixUp_inorder[of "Node k1 v1 c1 l1 r'"] by auto
        have "find_entries lt (inorder t) key = find_entries lt (inorder r1) key"
          using find_None[OF below] diff unfolding io[symmetric] by (simp add: find_append)
        moreover have "subseq (inorder t') (del_entries lt key (inorder t))"
          using del_none[OF below] diff r'(2) t'(2) unfolding io[symmetric]
          by (simp add: list_emb_append_mono)
        ultimately show ?thesis
          using removeNode_right_rec[where lt = lt and key = key, OF ge go(1,2,3) diff r'(1) t'(1)]
          by (simp only: t) blast
      qed
    qed
  qed
qed

end

subsection \<open>The map: invariant and contract\<close>

definition omap_ok :: "('k, 'v) omap \<Rightarrow> bool" where
  "omap_ok m \<longleftrightarrow> balanced (m_root m) \<and> llrb (m_root m) \<and> \<not> isRed (m_root m) \<and>
     asc (m_less m) (entries m) \<and> m_length m = int (length (entries m))"

lemma omap_ok_empty: "m_root m = Nil \<Longrightarrow> m_length m = 0 \<Longrightarrow> omap_ok m \<and> entries m = []"
  by (simp add: omap_ok_def entries_def)

context key_order begin

lemma Insert_spec:
  assumes "omap_ok m" "m_less m = lt"
  shows "\<exists>m'. Insert m k v = Some (m', find_entries lt (entries m) k = None) \<and>
     (omap_ok m' \<and> m_less m' = lt) \<and> entries m' = upd_entries lt k v (entries m)"
proof -
  let ?t = "m_root m"
  have t: "balanced ?t" "llrb ?t" "\<not> isRed ?t" "asc lt (inorder ?t)"
    and len: "m_length m = int (length (inorder ?t))"
    using assms by (auto simp: omap_ok_def entries_def)
  define b where "b = (find_entries lt (entries m) k = None)"
  obtain t' where t': "insertNode lt ?t k v = Some (t', b)"
    "inorder t' = upd_entries lt k v (inorder ?t)"
    using insertNode_spec[OF t(4)] by (auto simp: b_def entries_def)
  note step = insertNode_step[OF t(2,1) t'(1)]
  obtain k1 v1 c1 l1 r1 where n: "t' = Node k1 v1 c1 l1 r1"
    using insertNode_non_nil[OF t'(1)] by (cases t') auto
  let ?t' = "Node k1 v1 False l1 r1"
  let ?m' = "m\<lparr>m_root := ?t',
      m_length := (if b then m_length m + 1 else m_length m)\<rparr>"
  have "asc lt (inorder t')" using asc_upd[OF t(4)] t'(2) by simp
  moreover have "int (length (inorder t')) = (if b then m_length m + 1 else m_length m)"
    using length_upd[OF t(4)] t'(2) len by (simp add: b_def entries_def)
  moreover have "balanced ?t' \<and> llrb ?t' \<and> \<not> isRed ?t'" "inorder ?t' = inorder t'"
    using step by (auto simp: n ins_step_def)
  ultimately have ok: "omap_ok ?m'" "entries ?m' = upd_entries lt k v (entries m)" "m_less ?m' = lt"
    using t'(2) assms(2) by (simp_all add: omap_ok_def entries_def)
  have "Insert m k v = Some (?m', b)" using t'(1) by (simp add: Insert_def n assms(2))
  with ok show ?thesis unfolding b_def by blast
qed

lemma Find_spec: "omap_ok m \<Longrightarrow> m_less m = lt \<Longrightarrow> Find m k = find_entries lt (entries m) k"
  by (simp add: Find_def omap_ok_def entries_def findNode_inorder)

lemma contract:
  assumes "m_root m0 = Nil" "m_less m0 = lt" "m_length m0 = 0"
  shows "ordered_map lt m0 Insert Find entries Len (\<lambda>m. omap_ok m \<and> m_less m = lt)"
  by (unfold_locales; (rule Insert_spec Find_spec)?)
     (use omap_ok_empty[OF assms(1,3)] assms(2) in \<open>auto simp: omap_ok_def Len_def\<close>)

end

lemma Delete_removeNode:
  assumes "m_root m \<noteq> Nil" "removeNode (m_less m) (m_root m) key = Some (t, d)"
  shows "\<exists>m'. Delete m key = Some (m', d) \<and> entries m' = inorder t \<and> m_less m' = m_less m \<and>
    m_length m' = (if d then m_length m - 1 else m_length m)"
  using assms by (cases t) (auto simp: Delete_def entries_def is_Nil_def)

lemma Delete_Nil: "m_root m = Nil \<Longrightarrow> Delete m key = Some (m, False)"
  by (cases m) (simp add: Delete_def)

sublocale key_order \<subseteq> omap: ordered_map lt "New lt" Insert Find entries Len
    "\<lambda>m. omap_ok m \<and> m_less m = lt"
  by (rule contract) (simp_all add: New_def)

interpretation int_order: key_order "\<lambda>a b. a < (b :: int)"
  by unfold_locales auto

interpretation string_order: key_order "\<lambda>a b. a < (b :: string)"
  by unfold_locales auto

interpretation folded_order: key_order "\<lambda>a b. ToLower a < ToLower b"
  by unfold_locales auto

lemmas constructors = New_def NewStringKeyed_def NewCaseFoldedKeyed_def NewIntKeyed_def

interpretation int_map: ordered_map "\<lambda>a b. a < (b :: int)" NewIntKeyed Insert Find entries Len
    "\<lambda>m. omap_ok m \<and> m_less m = (\<lambda>a b. a < b)"
  by (rule int_order.contract) (simp_all add: NewIntKeyed_def)

interpretation string_map: ordered_map "\<lambda>a b. a < (b :: string)" NewStringKeyed Insert Find entries Len
    "\<lambda>m. omap_ok m \<and> m_less m = (\<lambda>a b. a < b)"
  by (rule string_order.contract) (simp_all add: NewStringKeyed_def)

interpretation folded_map: ordered_map "\<lambda>a b. ToLower a < ToLower b" NewCaseFoldedKeyed
    Insert Find entries Len "\<lambda>m. omap_ok m \<and> m_less m = (\<lambda>a b. ToLower a < ToLower b)"
  by (rule folded_order.contract) (simp_all add: NewCaseFoldedKeyed_def)

subsection \<open>Height\<close>

lemma pow_bh: "balanced t \<Longrightarrow> 2 ^ bh t \<le> length (inorder t) + 1"
  by (induction t) auto

lemma height_bh: "llrb t \<Longrightarrow> balanced t \<Longrightarrow> height t \<le> 2 * bh t + (if isRed t then 1 else 0)"
  by (induction t) (auto split: if_splits)

lemma findLoop_height: "height t \<le> n \<Longrightarrow> findLoop n lt t key = Some (findNode lt t key)"
proof (induction t arbitrary: n)
  case (Node k v c l r)
  then show ?case by (cases n) auto
qed simp

lemma height_entries: "omap_ok m \<Longrightarrow> 2 ^ height (m_root m) \<le> (length (entries m) + 1)\<^sup>2"
proof -
  assume ok: "omap_ok m"
  then have "height (m_root m) \<le> bh (m_root m) * 2"
    using height_bh[of "m_root m"] by (auto simp: omap_ok_def)
  then have "(2::nat) ^ height (m_root m) \<le> (2 ^ bh (m_root m))\<^sup>2"
    by (simp add: power_increasing flip: power_mult)
  also have "\<dots> \<le> (length (entries m) + 1)\<^sup>2"
    using pow_bh[of "m_root m"] ok by (intro power_mono) (auto simp: omap_ok_def entries_def)
  finally show ?thesis .
qed

subsection \<open>Properties\<close>

lemma subseq_sorted_wrt: "subseq xs ys \<Longrightarrow> sorted_wrt P ys \<Longrightarrow> sorted_wrt P xs"
  by (induction rule: list_emb.induct) (auto elim: list_emb_set)

lemma find_entries_map_of: "find_entries (\<lambda>a b. a < (b :: 'a :: linorder)) ps k = map_of ps k"
  by (induction ps) (auto simp: same_key_def)

text \<open>C1: Insert on a well-formed map never panics, keeps the map well-formed (search order,
  black balance, left-leaning colours, the length field), reports whether the key was new, changes
  the sorted entries as an insertion into a sorted list does, and afterwards Find sees exactly the
  new binding.\<close>

theorem omap_insert:
  assumes "key_order (m_less m)" "omap_ok m"
  shows "\<exists>m'. Insert m key val = Some (m', Find m key = None) \<and> omap_ok m' \<and> m_less m' = m_less m \<and>
     entries m' = upd_entries (m_less m) key val (entries m) \<and>
     (\<forall>j. Find m' j = (if same_key (m_less m) key j then Some val else Find m j)) \<and>
     Len m' = (if Find m key = None then Len m + 1 else Len m)"
proof -
  have om: "ordered_map (m_less m) (New (m_less m)) Insert Find entries Len
      (\<lambda>m'. omap_ok m' \<and> m_less m' = m_less m)"
    by (rule key_order.contract[OF assms(1)]) (simp_all add: New_def)
  have inv: "omap_ok m \<and> m_less m = m_less m" using assms(2) by simp
  obtain m' where m': "Insert m key val = Some (m', Find m key = None)" "omap_ok m'"
    "m_less m' = m_less m" "entries m' = upd_entries (m_less m) key val (entries m)"
    using ordered_map.ins_spec[OF om inv, of key val] ordered_map.find_spec[OF om inv] by auto
  then show ?thesis
    using ordered_map.find_ins[OF om inv m'(1)] ordered_map.len_ins[OF om inv m'(1)] by simp
qed

lemma omap_insert_witness:
  "\<exists>m'. Insert (NewIntKeyed :: (int, int) omap) 7 70 = Some (m', True) \<and> Find m' 7 = Some 70 \<and> Len m' = 1"
  using omap_insert[of "NewIntKeyed :: (int, int) omap" 7 70] int_order.key_order_axioms
  by (auto simp: NewIntKeyed_def omap_ok_def entries_def Find_def Len_def same_key_def)

lemma ins_all_entries:
  "\<exists>m. int_map.ins_all NewIntKeyed ps = Some m \<and> omap_ok m \<and> m_less m = (\<lambda>a b. a < b) \<and>
     (\<forall>k. Find m k = map_of (rev ps) k) \<and> length (entries m) = card (fst ` set ps)"
proof -
  obtain m where m: "int_map.ins_all NewIntKeyed ps = Some m" "omap_ok m" "m_less m = (\<lambda>a b. a < b)"
    "\<And>k. Find m k = (case find_entries (<) (rev ps) k of None \<Rightarrow> Find NewIntKeyed k | Some v \<Rightarrow> Some v)"
    using int_map.ins_all_spec[of NewIntKeyed ps] int_map.inv_empty by blast
  have asc: "asc (\<lambda>a b. a < b) (entries m)" using m(2,3) by (simp add: omap_ok_def)
  have find: "Find m k = map_of (rev ps) k" for k
    by (simp add: m(4) int_map.find_empty find_entries_map_of split: option.split)
  have "dom (\<lambda>k. map_of (entries m) k) = dom (map_of (rev ps))"
    using find int_map.find_spec[of m] m(2,3) by (simp add: find_entries_map_of dom_def)
  then have "fst ` set (entries m) = fst ` set ps" by (simp add: dom_map_of_conv_image_fst)
  moreover have "distinct (map fst (entries m))" using asc by (simp add: asc_def strict_sorted_iff)
  then have "card (fst ` set (entries m)) = length (entries m)"
    by (metis distinct_card length_map list.set_map)
  ultimately show ?thesis using m(1-3) find by auto
qed

text \<open>C3: Any sequence of insertions into NewIntKeyed() runs without panic; then Find returns the
  last value inserted for a key, Do visits the entries in increasing key order, and Len counts
  the distinct keys.\<close>

theorem omap_history:
  "\<exists>m. int_map.ins_all NewIntKeyed ps = Some m \<and> omap_ok m \<and>
     (\<forall>k. Find m k = map_of (rev ps) k) \<and> sorted_wrt (<) (map fst (entries m)) \<and>
     (\<forall>f s. Do m f s = fold (\<lambda>(k, v). f k v) (entries m) s) \<and>
     Len m = int (card (fst ` set ps))"
proof -
  obtain m where m: "int_map.ins_all NewIntKeyed ps = Some m" "omap_ok m" "m_less m = (\<lambda>a b. a < b)"
    "\<forall>k. Find m k = map_of (rev ps) k" "length (entries m) = card (fst ` set ps)"
    using ins_all_entries[of ps] by blast
  have "asc (\<lambda>a b. a < b) (entries m)" "Len m = int (length (entries m))" using m(2,3) by (simp_all add: omap_ok_def Len_def)
  then show ?thesis using m by (auto simp: asc_def Do_def doNode_inorder entries_def)
qed

text \<open>C4: After any sequence of insertions into NewIntKeyed() of n distinct keys, the loop of Find leaves by one of its
  returns, with the result of Find, on every key within a number of rounds that is at most 2 log2(n+1).\<close>

theorem omap_find_rounds:
  "\<exists>m rounds. int_map.ins_all NewIntKeyed ps = Some m \<and> 2 ^ rounds \<le> (card (fst ` set ps) + 1)\<^sup>2 \<and>
     (\<forall>key. findLoop rounds (m_less m) (m_root m) key = Some (Find m key))"
proof -
  obtain m where m: "int_map.ins_all NewIntKeyed ps = Some m" "omap_ok m" "length (entries m) = card (fst ` set ps)"
    using ins_all_entries[of ps] by blast
  have "\<forall>key. findLoop (height (m_root m)) (m_less m) (m_root m) key = Some (Find m key)"
    by (simp add: findLoop_height Find_def)
  then show ?thesis using m(1) height_entries[OF m(2)] unfolding m(3) by blast
qed

definition three_keys :: "(int, int) omap" where
  "three_keys = \<lparr>m_root = Node 2 20 False (Node 1 10 True Nil Nil) (Node 3 30 True Nil Nil),
     m_less = (\<lambda>a b. a < b), m_length = 3\<rparr>"

lemma three_keys_ok: "omap_ok three_keys" "m_less three_keys = (\<lambda>a b. a < b)"
  by (simp_all add: three_keys_def omap_ok_def entries_def)

text \<open>C2: Delete on a well-formed map removes exactly the entry of the key, reports whether there
  was one, keeps the order, and the length field stays the number of entries.\<close>

theorem omap_delete_ok:
  assumes "key_order (m_less m)" "omap_ok m"
  shows "\<exists>m'. Delete m key = Some (m', Find m key \<noteq> None) \<and>
     entries m' = del_entries (m_less m) key (entries m) \<and>
     asc (m_less m) (entries m') \<and> Len m' = Len m - (if Find m key \<noteq> None then 1 else 0) \<and>
     (\<forall>j. Find m' j = (if same_key (m_less m) key j then None else Find m j))"
proof (cases "m_root m = Nil")
  case True
  then show ?thesis by (auto simp: Delete_Nil entries_def Find_def)
next
  case False
  have asc: "asc (m_less m) (inorder (m_root m))" using assms(2) by (simp add: omap_ok_def entries_def)
  note find = key_order.findNode_inorder[OF assms(1)]
  obtain t where t: "removeNode (m_less m) (m_root m) key =
      Some (t, find_entries (m_less m) (inorder (m_root m)) key \<noteq> None)"
    "inorder t = del_entries (m_less m) key (inorder (m_root m))"
    using key_order.removeNode_spec[OF assms(1) _ False _ asc, of key] assms(2)
    by (auto simp: omap_ok_def rightish_llrb)
  obtain m' where m': "Delete m key = Some (m', Find m key \<noteq> None)" "entries m' = inorder t"
    "m_less m' = m_less m" "m_length m' = (if Find m key \<noteq> None then m_length m - 1 else m_length m)"
    using Delete_removeNode[OF False t(1)] find[OF asc] by (auto simp: Find_def)
  have asc': "asc (m_less m) (entries m')"
    using key_order.asc_del[OF assms(1) asc] m'(2) t(2) by simp
  have "Find m' j = (if same_key (m_less m) key j then None else Find m j)" for j
    using find[OF asc] find[OF asc'[unfolded entries_def]] m'(2) t(2)
      key_order.find_del[OF assms(1), of key "inorder (m_root m)" j]
    by (simp add: Find_def m'(3) entries_def)
  with m' t(2) asc' show ?thesis by (auto simp: entries_def Len_def)
qed

lemma omap_delete_ok_witness:
  "\<exists>m'. Delete three_keys 1 = Some (m', True) \<and> entries m' = [(2, 20), (3, 30)] \<and> Len m' = 2"
  using omap_delete_ok[OF _ three_keys_ok(1), of 1] int_order.key_order_axioms
  by (simp add: three_keys_ok(2), auto simp: three_keys_def Find_def entries_def same_key_def Len_def)

text \<open>C5: On any map whose entries are in order, whatever its colours and balance, Delete does not
  panic, reports correctly whether the key was there, and leaves a subsequence of the other
  entries: no entry is invented, reordered or rebound, and the key is gone.\<close>

theorem omap_delete_safe:
  assumes "key_order (m_less m)" "asc (m_less m) (entries m)"
  shows "\<exists>m'. Delete m key = Some (m', Find m key \<noteq> None) \<and> asc (m_less m) (entries m') \<and>
     subseq (entries m') (del_entries (m_less m) key (entries m)) \<and> Find m' key = None"
proof (cases "m_root m = Nil")
  case True
  then show ?thesis by (auto simp: Delete_Nil entries_def Find_def)
next
  case False
  note asc = assms(2)[unfolded entries_def]
  note find = key_order.findNode_inorder[OF assms(1)]
  obtain t where t: "removeNode (m_less m) (m_root m) key =
      Some (t, find_entries (m_less m) (inorder (m_root m)) key \<noteq> None)"
    "subseq (inorder t) (del_entries (m_less m) key (inorder (m_root m)))"
    using key_order.removeNode_subseq[OF assms(1) False asc, of key] by auto
  obtain m' where m': "Delete m key = Some (m', Find m key \<noteq> None)" "entries m' = inorder t"
    "m_less m' = m_less m"
    using Delete_removeNode[OF False t(1)] find[OF asc] by (auto simp: Find_def)
  have asc': "asc (m_less m) (inorder t)"
    using key_order.asc_del[OF assms(1) asc, of key] t(2) unfolding asc_def
    by (meson subseq_sorted_wrt subseq_map)
  have "\<forall>p\<in>set (inorder t). \<not> same_key (m_less m) (fst p) key"
    using t(2) by (auto simp: del_entries_def elim: list_emb_set)
  then have "Find m' key = None"
    using find[of "m_root m'"] asc' m' key_order.find_None[OF assms(1)]
    by (simp add: Find_def entries_def)
  with m' t(2) asc' show ?thesis by (auto simp: entries_def)
qed

definition five_keys :: "(int, int) omap" where
  "five_keys = \<lparr>m_root = Node 1 1 False (Node 0 0 False Nil Nil)
       (Node 3 3 False (Node 2 2 True Nil Nil) (Node 4 4 True Nil Nil)),
     m_less = (\<lambda>a b. a < b), m_length = 5\<rparr>"

lemma omap_delete_safe_witness:
  "\<exists>m'. Delete five_keys 3 = Some (m', True) \<and> Find m' 3 = None"
  using omap_delete_safe[of five_keys 3] int_order.key_order_axioms
  by (auto simp: five_keys_def entries_def Find_def)

text \<open>Delete does lose entries: after inserting 0 to 4 into NewIntKeyed(), deleting 0 and then 2
  leaves only two entries, key 4 is gone although it was never deleted, and Len still says 3.\<close>

theorem omap_delete_loses_entry:
  "do { m \<leftarrow> int_map.ins_all NewIntKeyed [(0, 0), (1, 1), (2, 2), (3, 3), (4, 4 :: int)];
        (m1, d1) \<leftarrow> Delete m 0; (m2, d2) \<leftarrow> Delete m1 2;
        Some (map fst (entries m), map fst (entries m1), map fst (entries m2), Len m2, Find m2 4) } =
   Some ([0, 1, 2, 3, 4], [1, 2, 3, 4], [1, 3], 3, None)"
  by (simp add: NewIntKeyed_def Insert_def Delete_def insertNode.simps removeNode.simps deleteMinimum.simps
      insertFix_def fixUp_def moveRedLeft_def moveRedRight_def entries_def Len_def Find_def)

end
