(* ===== verification/OSMap.thy ===== *)
theory OSMap
  imports OMap
begin

section \<open>osmap: the string-keyed ordered map\<close>

text \<open>
  Models \<^verbatim>\<open>omap/osmap/osmap.go\<close>, a copy of the tree map with string keys and values and
  a level counter in \<^verbatim>\<open>insert\<close>. Its node struct has the fields of \<open>node\<close> at type
  \<open>string\<close>; the functions are translated again from this file (suffix \<open>_os\<close>) and then proved
  equal to those of \<open>OMap\<close>, whose theorems carry over.
\<close>

type_synonym onode = "(string, string) node"

record osmap =
  os_root :: onode
  os_less :: "string \<Rightarrow> string \<Rightarrow> bool"
  os_length :: int

definition New_os :: osmap where
  "New_os = \<lparr>os_root = Nil, os_less = (\<lambda>a b. a < b), os_length = 0\<rparr>"

subsection \<open>Colours and rotations\<close>

fun isRed_os :: "onode \<Rightarrow> bool" where
  "isRed_os Nil = False"
| "isRed_os (Node _ _ c _ _) = c"

fun flipChild_os :: "onode \<Rightarrow> onode" where
  "flipChild_os Nil = Nil"
| "flipChild_os (Node k v c l r) = Node k v (\<not> c) l r"

fun colorFlip_os :: "onode \<Rightarrow> onode option" where
  "colorFlip_os Nil = None"
| "colorFlip_os (Node k v c l r) = Some (Node k v (\<not> c) (flipChild_os l) (flipChild_os r))"

fun rotateLeft_os :: "onode \<Rightarrow> onode option" where
  "rotateLeft_os (Node k v c l (Node xk xv xc xl xr)) = Some (Node xk xv c (Node k v True l xl) xr)"
| "rotateLeft_os _ = None"

fun rotateRight_os :: "onode \<Rightarrow> onode option" where
  "rotateRight_os (Node k v c (Node xk xv xc xl xr) r) = Some (Node xk xv c xl (Node k v True xr r))"
| "rotateRight_os _ = None"

lemma same_helpers [simp]:
  "isRed_os = isRed" "flipChild_os = flipChild" "colorFlip_os = colorFlip"
  "rotateLeft_os = rotateLeft" "rotateRight_os = rotateRight"
proof -
  show 1: "isRed_os = isRed" by (rule ext, case_tac x) auto
  show 2: "flipChild_os = flipChild" by (rule ext, case_tac x) auto
  show "colorFlip_os = colorFlip" by (rule ext, case_tac x) (auto simp: 2)
  show "rotateLeft_os = rotateLeft" by (rule ext, case_tac x rule: rotateLeft.cases) auto
  show "rotateRight_os = rotateRight" by (rule ext, case_tac x rule: rotateRight.cases) auto
qed

subsection \<open>Insert and Find\<close>

definition insertFix_os :: "onode \<Rightarrow> onode option" where
  "insertFix_os t = do {
     t1 \<leftarrow> (if isRed_os (nright t) \<and> \<not> isRed_os (nleft t) then rotateLeft_os t else Some t);
     (if isRed_os (nleft t1) \<and> isRed_os (nleft (nleft t1)) then rotateRight_os t1 else Some t1)
   }"

function insertNode_os ::
  "(string \<Rightarrow> string \<Rightarrow> bool) \<Rightarrow> onode \<Rightarrow> string \<Rightarrow> string \<Rightarrow> int \<Rightarrow> (onode \<times> bool) option" where
  "insertNode_os lt Nil key val lvl = Some (Node key val True Nil Nil, True)"
| "insertNode_os lt (Node k0 v0 c0 l0 r0) key val lvl = do {
     t0 \<leftarrow> (if isRed_os l0 \<and> isRed_os r0 then colorFlip_os (Node k0 v0 c0 l0 r0)
           else Some (Node k0 v0 c0 l0 r0));
     (case t0 of
        Nil \<Rightarrow> None
      | Node k v c l r \<Rightarrow> do {
          (t1, inserted) \<leftarrow>
            (if lt key k then do {
               (l', i) \<leftarrow> insertNode_os lt l key val (lvl + 1);
               Some (Node k v c l' r, i) }
             else if lt k key then do {
               (r', i) \<leftarrow> insertNode_os lt r key val (lvl + 1);
               Some (Node k v c l r', i) }
             else Some (Node k val c l r, False));
          t2 \<leftarrow> insertFix_os t1;
          Some (t2, inserted) })
   }"
  by pat_completeness auto


termination insertNode_os
  by (relation "measure (\<lambda>(lt, t, key, val, lvl). size t)") (auto split: if_splits)


definition Insert_os :: "osmap \<Rightarrow> string \<Rightarrow> string \<Rightarrow> (osmap \<times> bool) option" where
  "Insert_os m key val = do {
     (t, inserted) \<leftarrow> insertNode_os (os_less m) (os_root m) key val 0;
     (case t of
        Nil \<Rightarrow> None
      | Node k v c l r \<Rightarrow>
          Some (m\<lparr>os_root := Node k v False l r,
                  os_length := (if inserted then os_length m + 1 else os_length m)\<rparr>, inserted))
   }"

text \<open>\<^verbatim>\<open>Find\<close>'s loop. The pair \<^verbatim>\<open>(value, found)\<close> is an option.\<close>

fun findNode_os :: "(string \<Rightarrow> string \<Rightarrow> bool) \<Rightarrow> onode \<Rightarrow> string \<Rightarrow> string option" where
  "findNode_os lt Nil key = None"
| "findNode_os lt (Node k v c l r) key =
     (if lt key k then findNode_os lt l key
      else if lt k key then findNode_os lt r key
      else Some v)"

definition Find_os :: "osmap \<Rightarrow> string \<Rightarrow> string option" where
  "Find_os m key = findNode_os (os_less m) (os_root m) key"

text \<open>\<^verbatim>\<open>Do\<close> calls a function on every pair; the state it changes is \<open>'s\<close>.\<close>

fun doNode_os :: "onode \<Rightarrow> (string \<Rightarrow> string \<Rightarrow> 's \<Rightarrow> 's) \<Rightarrow> 's \<Rightarrow> 's" where
  "doNode_os Nil f s = s"
| "doNode_os (Node k v c l r) f s = doNode_os r f (f k v (doNode_os l f s))"

definition Do_os :: "osmap \<Rightarrow> (string \<Rightarrow> string \<Rightarrow> 's \<Rightarrow> 's) \<Rightarrow> 's \<Rightarrow> 's" where
  "Do_os m f s = doNode_os (os_root m) f s"

definition Len_os :: "osmap \<Rightarrow> int" where
  "Len_os m = os_length m"

text \<open>\<^verbatim>\<open>Set\<close> and \<^verbatim>\<open>Get\<close>, \<open>for compatibility\<close>.\<close>

definition Set_os :: "osmap \<Rightarrow> string \<Rightarrow> string \<Rightarrow> (osmap \<times> bool) option" where
  "Set_os m key val = Insert_os m key val"

definition Get_os :: "osmap \<Rightarrow> string \<Rightarrow> string option" where
  "Get_os m key = Find_os m key"

subsection \<open>Delete\<close>

definition fixUp_os :: "onode \<Rightarrow> onode option" where
  "fixUp_os t = do {
     t1 \<leftarrow> (if isRed_os (nright t) then rotateLeft_os t else Some t);
     t2 \<leftarrow> (if isRed_os (nleft t1) \<and> isRed_os (nleft (nleft t1)) then rotateRight_os t1 else Some t1);
     (if isRed_os (nleft t2) \<and> isRed_os (nright t2) then colorFlip_os t2 else Some t2)
   }"

fun firstNode_os :: "onode \<Rightarrow> onode option" where
  "firstNode_os Nil = None"
| "firstNode_os (Node k v c l r) = (if is_Nil l then Some (Node k v c l r) else firstNode_os l)"

definition moveRedLeft_os :: "onode \<Rightarrow> onode option" where
  "moveRedLeft_os t = do {
     t0 \<leftarrow> colorFlip_os t;
     (case t0 of
        Nil \<Rightarrow> None
      | Node k v c l r \<Rightarrow>
          (if \<not> is_Nil r \<and> isRed_os (nleft r) then do {
             r' \<leftarrow> rotateRight_os r;
             t1 \<leftarrow> rotateLeft_os (Node k v c l r');
             colorFlip_os t1 }
           else Some t0))
   }"

definition moveRedRight_os :: "onode \<Rightarrow> onode option" where
  "moveRedRight_os t = do {
     t0 \<leftarrow> colorFlip_os t;
     (if \<not> is_Nil (nleft t0) \<and> isRed_os (nleft (nleft t0)) then do {
        t1 \<leftarrow> rotateRight_os t0;
        colorFlip_os t1 }
      else Some t0)
   }"

lemma same_moves [simp]:
  "insertFix_os = insertFix" "fixUp_os = fixUp" "moveRedLeft_os = moveRedLeft" "moveRedRight_os = moveRedRight"
  unfolding insertFix_os_def[abs_def] insertFix_def[abs_def] fixUp_os_def[abs_def] fixUp_def[abs_def]
    moveRedLeft_os_def[abs_def] moveRedLeft_def[abs_def] moveRedRight_os_def[abs_def]
    moveRedRight_def[abs_def] same_helpers
  by (rule refl)+

function deleteMinimum_os :: "onode \<Rightarrow> onode option" where
  "deleteMinimum_os Nil = None"
| "deleteMinimum_os (Node k v c l r) =
     (if is_Nil l then Some Nil
      else do {
        t0 \<leftarrow> (if \<not> isRed_os l \<and> \<not> isRed_os (nleft l) then moveRedLeft_os (Node k v c l r)
              else Some (Node k v c l r));
        (case t0 of
           Nil \<Rightarrow> None
         | Node k1 v1 c1 l1 r1 \<Rightarrow> do {
             l' \<leftarrow> deleteMinimum_os l1;
             fixUp_os (Node k1 v1 c1 l' r1) })
      })"
  by pat_completeness auto

termination deleteMinimum_os
  by (relation "measure size") (auto dest!: size_moveRedLeft split: if_splits)

function removeNode_os ::
  "(string \<Rightarrow> string \<Rightarrow> bool) \<Rightarrow> onode \<Rightarrow> string \<Rightarrow> (onode \<times> bool) option" where
  "removeNode_os lt Nil key = None"
| "removeNode_os lt (Node k v c l r) key =
     (if lt key k then do {
        (t1, deleted) \<leftarrow>
          (if \<not> is_Nil l then do {
             t0 \<leftarrow> (if \<not> isRed_os l \<and> \<not> isRed_os (nleft l) then moveRedLeft_os (Node k v c l r)
                   else Some (Node k v c l r));
             (case t0 of
                Nil \<Rightarrow> None
              | Node k1 v1 c1 l1 r1 \<Rightarrow> do {
                  (l', d) \<leftarrow> removeNode_os lt l1 key;
                  Some (Node k1 v1 c1 l' r1, d) }) }
           else Some (Node k v c l r, False));
        t2 \<leftarrow> fixUp_os t1;
        Some (t2, deleted) }
      else do {
        t0 \<leftarrow> (if isRed_os l then rotateRight_os (Node k v c l r) else Some (Node k v c l r));
        (case t0 of
           Nil \<Rightarrow> None
         | Node k0 v0 c0 l0 r0 \<Rightarrow>
             (if \<not> lt key k0 \<and> \<not> lt k0 key \<and> is_Nil r0 then Some (Nil, True)
              else do {
                (t1, deleted) \<leftarrow>
                  (if \<not> is_Nil r0 then do {
                     t' \<leftarrow> (if \<not> isRed_os r0 \<and> \<not> isRed_os (nleft r0) then moveRedRight_os t0
                           else Some t0);
                     (case t' of
                        Nil \<Rightarrow> None
                      | Node k1 v1 c1 l1 r1 \<Rightarrow>
                          (if \<not> lt key k1 \<and> \<not> lt k1 key then do {
                             smallest \<leftarrow> firstNode_os r1;
                             r' \<leftarrow> deleteMinimum_os r1;
                             Some (Node (nkey smallest) (nvalue smallest) c1 l1 r', True) }
                           else do {
                             (r', d) \<leftarrow> removeNode_os lt r1 key;
                             Some (Node k1 v1 c1 l1 r', d) })) }
                   else Some (t0, False));
                t2 \<leftarrow> fixUp_os t1;
                Some (t2, deleted) }))
      })"
  by pat_completeness auto

termination removeNode_os
  by (relation "measure (\<lambda>(lt, t, key). size t)")
     (auto dest!: size_moveRedLeft size_moveRedRight size_rotateRight split: if_splits)

definition Delete_os :: "osmap \<Rightarrow> string \<Rightarrow> (osmap \<times> bool) option" where
  "Delete_os m key = do {
     (t, deleted) \<leftarrow>
       (if \<not> is_Nil (os_root m) then do {
          (t, d) \<leftarrow> removeNode_os (os_less m) (os_root m) key;
          Some ((case t of Nil \<Rightarrow> Nil | Node k v c l r \<Rightarrow> Node k v False l r), d) }
        else Some (os_root m, False));
     Some (m\<lparr>os_root := t, os_length := (if deleted then os_length m - 1 else os_length m)\<rparr>, deleted)
   }"

subsection \<open>The copy is the original\<close>

definition to_omap :: "osmap \<Rightarrow> (string, string) omap" where
  "to_omap m = \<lparr>m_root = os_root m, m_less = os_less m, m_length = os_length m\<rparr>"

lemmas bind_same = bind_option_cong[OF refl]

lemma insertNode_same: "insertNode_os lt t key val lvl = insertNode lt t key val"
proof (induction t arbitrary: lvl rule: measure_induct_rule[where f = size])
  case (less t)
  show ?case
  proof (cases t)
    case (Node k0 v0 c0 l0 r0)
    obtain c l r where t0: "(if isRed l0 \<and> isRed r0 then colorFlip (Node k0 v0 c0 l0 r0)
        else Some (Node k0 v0 c0 l0 r0)) = Some (Node k0 v0 c l r)"
      and "size l = size l0" "size r = size r0"
      by (rule split_4node)
    then have "insertNode_os lt l key val (lvl + 1) = insertNode lt l key val"
      "insertNode_os lt r key val (lvl + 1) = insertNode lt r key val"
      using less.IH by (auto simp: Node)
    then show ?thesis
      unfolding Node insertNode_os.simps insertNode.simps same_helpers same_moves t0 by simp
  qed simp
qed

lemma findNode_same: "findNode_os lt t key = findNode lt t key"
  by (induction t) auto

lemma doNode_same: "doNode_os t f s = doNode t f s"
  by (induction t arbitrary: s) auto

lemma firstNode_same: "firstNode_os t = firstNode t"
  by (induction t) auto

lemma deleteMinimum_same: "deleteMinimum_os t = deleteMinimum t"
proof (induction t rule: measure_induct_rule[where f = size])
  case (less t)
  show ?case
  proof (cases t)
    case (Node k v c l r)
    have "deleteMinimum_os l1 = deleteMinimum l1"
      if "(if \<not> isRed l \<and> \<not> isRed (nleft l) then moveRedLeft (Node k v c l r)
           else Some (Node k v c l r)) = Some (Node k1 v1 c1 l1 r1)" for k1 v1 c1 l1 r1
      using that less.IH by (auto simp: Node dest!: size_moveRedLeft split: if_splits)
    then show ?thesis
      unfolding Node deleteMinimum_os.simps deleteMinimum.simps same_helpers same_moves
      by (intro if_cong[OF refl refl] bind_same) (auto split: node.split)
  qed simp
qed

lemma removeNode_same: "removeNode_os lt t key = removeNode lt t key"
proof (induction t rule: measure_induct_rule[where f = size])
  case (less t)
  show ?case
  proof (cases t)
    case (Node k v c l r)
    have left: "removeNode_os lt l1 key = removeNode lt l1 key"
      if "(if \<not> isRed l \<and> \<not> isRed (nleft l) then moveRedLeft (Node k v c l r)
           else Some (Node k v c l r)) = Some (Node k1 v1 c1 l1 r1)" for k1 v1 c1 l1 r1
      using that less.IH by (auto simp: Node dest!: size_moveRedLeft split: if_splits)
    have right: "removeNode_os lt r1 key = removeNode lt r1 key"
      if "(if isRed l then rotateRight (Node k v c l r) else Some (Node k v c l r)) = Some t0"
        "(if \<not> isRed r0 \<and> \<not> isRed (nleft r0) then moveRedRight t0 else Some t0) =
           Some (Node k1 v1 c1 l1 r1)" for t0 r0 k1 v1 c1 l1 r1
      using that less.IH
      by (auto simp: Node dest!: size_moveRedRight size_rotateRight split: if_splits)
    show ?thesis
      unfolding Node removeNode_os.simps removeNode.simps same_helpers same_moves
        deleteMinimum_same firstNode_same
      by (rule refl left right if_cong[OF refl] bind_option_cong node.case_cong[OF refl]
          | assumption | simp only: elem_set[symmetric])+
  qed simp
qed

lemmas same_nodes = insertNode_same findNode_same doNode_same removeNode_same

lemma to_omap_simps [simp]:
  "m_root (to_omap m) = os_root m" "m_less (to_omap m) = os_less m" "m_length (to_omap m) = os_length m"
  by (simp_all add: to_omap_def)

lemma to_omap_inj: "to_omap a = to_omap b \<longleftrightarrow> a = b"
  by (cases a; cases b) (simp add: to_omap_def)

lemma Insert_same: "Insert (to_omap m) key val = map_option (map_prod to_omap id) (Insert_os m key val)"
proof (cases "insertNode (os_less m) (os_root m) key val")
  case (Some p)
  then show ?thesis
    by (cases p; cases "fst p") (auto simp: Insert_def Insert_os_def same_nodes to_omap_def)
qed (simp add: Insert_def Insert_os_def same_nodes)

lemma Delete_same: "Delete (to_omap m) key = map_option (map_prod to_omap id) (Delete_os m key)"
proof (cases "removeNode (os_less m) (os_root m) key")
  case (Some p)
  then show ?thesis
    by (cases p; cases "fst p") (auto simp: Delete_def Delete_os_def same_nodes to_omap_def)
qed (auto simp: Delete_def Delete_os_def same_nodes to_omap_def)

definition entries_os :: "osmap \<Rightarrow> (string \<times> string) list" where
  "entries_os m = entries (to_omap m)"

definition osmap_ok :: "osmap \<Rightarrow> bool" where
  "osmap_ok m \<longleftrightarrow> omap_ok (to_omap m) \<and> os_less m = (\<lambda>a b. a < b)"

interpretation os_map: ordered_map "\<lambda>a b. a < (b :: string)" New_os Insert_os Find_os entries_os Len_os osmap_ok
proof unfold_locales
  fix m :: osmap and k v
  assume ok: "osmap_ok m"
  then have inv: "omap_ok (to_omap m) \<and> m_less (to_omap m) = (\<lambda>a b. a < b)"
    by (simp add: osmap_ok_def)
  from string_map.ins_spec[OF inv, of k v] ok
  show "\<exists>m'. Insert_os m k v = Some (m', find_entries (\<lambda>a b. a < b) (entries_os m) k = None) \<and>
      osmap_ok m' \<and> entries_os m' = upd_entries (\<lambda>a b. a < b) k v (entries_os m)"
    by (auto simp: Insert_same entries_os_def osmap_ok_def)
  show "Find_os m k = find_entries (\<lambda>a b. a < b) (entries_os m) k"
    using string_map.find_spec[OF inv, of k] by (simp add: Find_os_def Find_def same_nodes entries_os_def)
  show "asc (\<lambda>a b. a < b) (entries_os m)"
    using string_map.entries_asc[OF inv] by (simp add: entries_os_def)
  show "Len_os m = int (length (entries_os m))"
    using string_map.len_spec[OF inv] by (simp add: entries_os_def Len_os_def Len_def)
qed (simp_all add: osmap_ok_def New_os_def to_omap_def omap_ok_def entries_os_def entries_def)

subsection \<open>Properties\<close>

text \<open>C6: The copy behaves as the original: on every map, whatever its less function, Insert, Set,
  Delete, Find, Get, Do and Len of osmap are those of omap, panics included.\<close>

theorem osmap_is_omap:
  "Insert (to_omap m) key val = map_option (map_prod to_omap id) (Insert_os m key val) \<and>
   Set_os m key val = Insert_os m key val \<and>
   Delete (to_omap m) key = map_option (map_prod to_omap id) (Delete_os m key) \<and>
   Find (to_omap m) key = Find_os m key \<and> Get_os m key = Find_os m key \<and>
   Do (to_omap m) f s = Do_os m f s \<and> Len (to_omap m) = Len_os m"
  by (simp add: Insert_same Delete_same Set_os_def Get_os_def Find_def Find_os_def Do_def Do_os_def
      Len_def Len_os_def same_nodes)

text \<open>Any sequence of insertions into New() runs without panic; Get then returns the last value
  set for the key and Do visits the keys in increasing string order.\<close>

theorem osmap_history:
  "\<exists>m. os_map.ins_all New_os ps = Some m \<and> (\<forall>k. Get_os m k = map_of (rev ps) k) \<and>
     sorted_wrt (<) (map fst (entries_os m)) \<and>
     Do_os m (\<lambda>k v ks. ks @ [(k, v)]) [] = entries_os m"
proof -
  have snoc: "fold (\<lambda>(k, v) ks. ks @ [(k, v)]) xs ys = ys @ xs" for xs ys :: "(string \<times> string) list"
    by (induction xs arbitrary: ys) auto
  obtain m where m: "os_map.ins_all New_os ps = Some m" "osmap_ok m"
    "\<And>k. Find_os m k = (case find_entries (\<lambda>a b. a < b) (rev ps) k of
        None \<Rightarrow> Find_os New_os k | Some v \<Rightarrow> Some v)"
    using os_map.ins_all_spec[OF os_map.inv_empty, of ps] by blast
  have "Get_os m k = map_of (rev ps) k" for k
    by (simp add: Get_os_def m(3) os_map.find_empty find_entries_map_of split: option.split)
  moreover have "asc (\<lambda>a b. a < b) (entries_os m)" by (rule os_map.entries_asc[OF m(2)])
  moreover have "Do_os m (\<lambda>k v ks. ks @ [(k, v)]) [] = entries_os m"
    by (simp add: Do_os_def same_nodes doNode_inorder entries_os_def entries_def snoc)
  ultimately show ?thesis using m(1) by (auto simp: asc_def)
qed

end
