(* ===== verification/OSMaps.thy ===== *)
theory OSMaps
  imports OMap "HOL-Library.Multiset"
begin

section \<open>osmaps: the ordered map with twelve entries per node\<close>

text \<open>
  Models \<^verbatim>\<open>omap/osmaps/osmaps.go\<close> and \<^verbatim>\<open>omap/osmaps/linked_list.go\<close>. A node holds a
  slice of key-value pairs in insertion order, threaded by successor indices into a linked list in
  key order. Printing is left out, except that the reads of \<^verbatim>\<open>report\<close> and
  \<^verbatim>\<open>sortedIter\<close> can go out of range and panic. Of the package variable \<^verbatim>\<open>ndStat\<close> only
  its length matters to the map: its counters are never read.
\<close>

definition cFanout :: int where "cFanout = 12"
definition cPrealloc :: nat where "cPrealloc = 1500"
definition noSuccessor :: int where "noSuccessor = -1"
definition ndStat_len :: int where "ndStat_len = 20"

record kvt =
  k_key :: string
  k_val :: string
  k_succ :: int

datatype fnode =
    FNil
  | FNode (f_min: string) (f_max: string) (f_minIdx: int) (f_kv: "kvt list") (f_red: bool)
      (f_left: fnode) (f_right: fnode)
  where
    "f_left FNil = FNil"
  | "f_right FNil = FNil"

record fmap =
  fm_root :: fnode
  fm_less :: "string \<Rightarrow> string \<Rightarrow> bool"
  fm_length :: int
  fm_reservoir :: "kvt list list"
  fm_allocCntr :: int

definition New_f :: fmap where
  "New_f = \<lparr>fm_root = FNil, fm_less = (\<lambda>a b. a < b), fm_length = 0,
     fm_reservoir = replicate cPrealloc [], fm_allocCntr = 0\<rparr>"

subsection \<open>The linked list of a node\<close>

text \<open>The loop of \<^verbatim>\<open>sortedIter\<close>: it stops at the end of the list or after
  \<^verbatim>\<open>cFanout + 1\<close> steps, and its reads may panic.\<close>

function sortedIter :: "kvt list \<Rightarrow> int \<Rightarrow> int \<Rightarrow> string list option" where
  "sortedIter kv ec i =
     (if ec + 1 > cFanout + 1 then Some []
      else do {
        e \<leftarrow> slice_get kv i;
        (if k_succ e = noSuccessor then Some [k_key e]
         else do { ks \<leftarrow> sortedIter kv (ec + 1) (k_succ e); Some (k_key e # ks) })
      })"
  by pat_completeness auto

termination sortedIter
  by (relation "measure (\<lambda>(kv, ec, i). nat (cFanout + 1 - ec))") (auto simp: cFanout_def)

declare sortedIter.simps [simp del]

definition report :: "kvt list \<Rightarrow> int \<Rightarrow> unit option" where
  "report kv minIdx = do { e \<leftarrow> slice_get kv minIdx; ks \<leftarrow> sortedIter kv 0 minIdx; Some () }"

text \<open>The search loop of \<^verbatim>\<open>insertLinkedList\<close> and the three ways it ends.\<close>

datatype search_end = Overflow | Between int | NewMax int

function search_list ::
  "(string \<Rightarrow> string \<Rightarrow> bool) \<Rightarrow> kvt list \<Rightarrow> string \<Rightarrow> int \<Rightarrow> int \<Rightarrow> int \<Rightarrow> search_end option" where
  "search_list lt kv key ec iPrev i =
     (if ec + 1 > cFanout + 1 then Some Overflow
      else do {
        p \<leftarrow> slice_get kv iPrev;
        e \<leftarrow> slice_get kv i;
        (if lt (k_key p) key \<and> lt key (k_key e) then Some (Between iPrev)
         else if k_succ e = noSuccessor then Some (NewMax i)
         else search_list lt kv key (ec + 1) i (k_succ e))
      })"
  by pat_completeness auto

termination search_list
  by (relation "measure (\<lambda>(lt, kv, key, ec, iPrev, i). nat (cFanout + 1 - ec))") (auto simp: cFanout_def)

declare search_list.simps [simp del]

definition set_succ :: "kvt list \<Rightarrow> int \<Rightarrow> int \<Rightarrow> kvt list option" where
  "set_succ kv i s = do { e \<leftarrow> slice_get kv i; slice_set kv i (e\<lparr>k_succ := s\<rparr>) }"

fun insertLinkedList ::
  "(string \<Rightarrow> string \<Rightarrow> bool) \<Rightarrow> fnode \<Rightarrow> string \<Rightarrow> string \<Rightarrow> (fnode \<times> bool) option" where
  "insertLinkedList lt FNil key val = None"
| "insertLinkedList lt (FNode mn mx mi kv0 c l r) key val = do {
     let kv = kv0 @ [\<lparr>k_key = key, k_val = val, k_succ = noSuccessor\<rparr>];
     let idxLastEl = int (length kv) - 1;
     (if length kv = 1 then do {
        u \<leftarrow> report kv 0;
        Some (FNode key key 0 kv c l r, True) }
      else if lt key mn then do {
        kv' \<leftarrow> set_succ kv idxLastEl mi;
        u \<leftarrow> report kv' idxLastEl;
        Some (FNode key mx idxLastEl kv' c l r, True) }
      else do {
        e \<leftarrow> search_list lt kv key 0 mi mi;
        (case e of
           Overflow \<Rightarrow> do { u \<leftarrow> report kv mi; Some (FNode mn mx mi kv c l r, False) }
         | Between iPrev \<Rightarrow> do {
             p \<leftarrow> slice_get kv iPrev;
             kv1 \<leftarrow> set_succ kv iPrev idxLastEl;
             kv2 \<leftarrow> set_succ kv1 idxLastEl (k_succ p);
             u \<leftarrow> report kv2 mi;
             Some (FNode mn mx mi kv2 c l r, True) }
         | NewMax i \<Rightarrow> do {
             kv1 \<leftarrow> set_succ kv i idxLastEl;
             u \<leftarrow> report kv1 mi;
             Some (FNode mn key mi kv1 c l r, True) }) })
   }"

text \<open>\<^verbatim>\<open>findInner\<close>: the first index with the key.\<close>

fun findInner_from :: "kvt list \<Rightarrow> string \<Rightarrow> int \<Rightarrow> int \<times> string \<times> bool" where
  "findInner_from [] key i = (noSuccessor, [], False)"
| "findInner_from (e # kv) key i =
     (if k_key e = key then (i, k_val e, True) else findInner_from kv key (i + 1))"

definition findInner :: "kvt list \<Rightarrow> string \<Rightarrow> int \<times> string \<times> bool" where
  "findInner kv key = findInner_from kv key 0"

subsection \<open>Colours, rotations, split\<close>

fun isRed_f :: "fnode \<Rightarrow> bool" where
  "isRed_f FNil = False"
| "isRed_f (FNode _ _ _ _ c _ _) = c"

fun flipChild_f :: "fnode \<Rightarrow> fnode" where
  "flipChild_f FNil = FNil"
| "flipChild_f (FNode mn mx mi kv c l r) = FNode mn mx mi kv (\<not> c) l r"

fun colorFlip_f :: "fnode \<Rightarrow> fnode option" where
  "colorFlip_f FNil = None"
| "colorFlip_f (FNode mn mx mi kv c l r) =
     Some (FNode mn mx mi kv (\<not> c) (flipChild_f l) (flipChild_f r))"

fun rotateLeft_f :: "fnode \<Rightarrow> fnode option" where
  "rotateLeft_f (FNode mn mx mi kv c l (FNode xmn xmx xmi xkv xc xl xr)) =
     Some (FNode xmn xmx xmi xkv c (FNode mn mx mi kv True l xl) xr)"
| "rotateLeft_f _ = None"

fun rotateRight_f :: "fnode \<Rightarrow> fnode option" where
  "rotateRight_f (FNode mn mx mi kv c (FNode xmn xmx xmi xkv xc xl xr) r) =
     Some (FNode xmn xmx xmi xkv c xl (FNode mn mx mi kv True xr r))"
| "rotateRight_f _ = None"

definition fixUp_f :: "fnode \<Rightarrow> fnode option" where
  "fixUp_f t = do {
     t1 \<leftarrow> (if isRed_f (f_right t) then rotateLeft_f t else Some t);
     t2 \<leftarrow> (if isRed_f (f_left t1) \<and> isRed_f (f_left (f_left t1)) then rotateRight_f t1 else Some t1);
     (if isRed_f (f_left t2) \<and> isRed_f (f_right t2) then colorFlip_f t2 else Some t2)
   }"

text \<open>
  \<^verbatim>\<open>split\<close> keeps the lower half in the node and returns a new red node with the upper half.
  It takes two slices from the reservoir and indexes \<^verbatim>\<open>ndStat\<close> by the level. Successor
  indices and \<^verbatim>\<open>minIdx\<close> are copied as they are.
\<close>

definition split_kv ::
  "fmap \<Rightarrow> kvt list \<Rightarrow> int \<Rightarrow> ((string \<times> string \<times> kvt list) \<times> fnode \<times> fmap) option" where
  "split_kv m kv lvl = do {
     let sortedK = sort (map k_key kv);
     let halfIdx = int (length kv) div 2;
     splitkey \<leftarrow> slice_get sortedK halfIdx;
     u \<leftarrow> (if 0 \<le> lvl \<and> lvl < ndStat_len then Some () else None);
     kv1 \<leftarrow> slice_get (fm_reservoir m) (fm_allocCntr m);
     kv2 \<leftarrow> slice_get (fm_reservoir m) (fm_allocCntr m + 1);
     let kv1 = kv1 @ filter (\<lambda>e. fm_less m (k_key e) splitkey) kv;
     let kv2 = kv2 @ filter (\<lambda>e. \<not> fm_less m (k_key e) splitkey) kv;
     mn \<leftarrow> slice_get sortedK 0;
     mx \<leftarrow> slice_get sortedK (halfIdx - 1);
     mx2 \<leftarrow> slice_get sortedK (int (length sortedK) - 1);
     Some ((mn, mx, kv1), FNode splitkey mx2 0 kv2 True FNil FNil,
           m\<lparr>fm_allocCntr := fm_allocCntr m + 2\<rparr>)
   }"

subsection \<open>Insert, Find, Do, Len, Delete\<close>

fun set_right :: "fnode \<Rightarrow> fnode \<Rightarrow> fnode option" where
  "set_right FNil x = None"
| "set_right (FNode mn mx mi kv c l r) x = Some (FNode mn mx mi kv c l x)"

text \<open>The end of \<^verbatim>\<open>insert\<close>: the split one step before the capacity, then the rotations.\<close>

definition insertEnd :: "fmap \<Rightarrow> fnode \<Rightarrow> int \<Rightarrow> (fmap \<times> fnode) option" where
  "insertEnd m nd lvl = (case nd of
     FNil \<Rightarrow> None
   | FNode mn mx mi kv c l r \<Rightarrow> do {
       (m1, nd1) \<leftarrow>
         (if int (length kv) > cFanout - 1 then do {
            ((mn', mx', kv'), new, m1) \<leftarrow> split_kv m kv lvl;
            new' \<leftarrow> set_right new r;
            Some (m1, FNode mn' mx' mi kv' c l new') }
          else Some (m, FNode mn mx mi kv c l r));
       nd2 \<leftarrow> (if isRed_f (f_right nd1) \<and> \<not> isRed_f (f_left nd1) then rotateLeft_f nd1 else Some nd1);
       nd3 \<leftarrow> (if isRed_f (f_left nd2) \<and> isRed_f (f_left (f_left nd2)) then rotateRight_f nd2 else Some nd2);
       Some (m1, nd3) })"

lemma size_flipChild_f [simp]: "size (flipChild_f t) = size t"
  by (cases t) auto

function insertNode_f ::
  "fmap \<Rightarrow> fnode \<Rightarrow> string \<Rightarrow> string \<Rightarrow> int \<Rightarrow> (fmap \<times> fnode \<times> bool) option" where
  "insertNode_f m FNil key val lvl = Some (m, FNode key key 0
     [\<lparr>k_key = key, k_val = val, k_succ = noSuccessor\<rparr>] True FNil FNil, True)"
| "insertNode_f m (FNode mn0 mx0 mi0 kv0 c0 l0 r0) key val lvl = do {
     t0 \<leftarrow> (if isRed_f l0 \<and> isRed_f r0 then colorFlip_f (FNode mn0 mx0 mi0 kv0 c0 l0 r0)
           else Some (FNode mn0 mx0 mi0 kv0 c0 l0 r0));
     (case t0 of
        FNil \<Rightarrow> None
      | FNode mn mx mi kv c l r \<Rightarrow> do {
          (m1, t1, inserted) \<leftarrow>
            (if fm_less m key mn \<and> l \<noteq> FNil then do {
               (m1, l', i) \<leftarrow> insertNode_f m l key val (lvl + 1);
               Some (m1, FNode mn mx mi kv c l' r, i) }
             else if fm_less m mx key \<and> r \<noteq> FNil then do {
               (m1, r', i) \<leftarrow> insertNode_f m r key val (lvl + 1);
               Some (m1, FNode mn mx mi kv c l r', i) }
             else (case findInner kv key of (idx, v, contains) \<Rightarrow>
               (if contains then do {
                  e \<leftarrow> slice_get kv idx;
                  kv' \<leftarrow> slice_set kv idx (e\<lparr>k_val := val\<rparr>);
                  Some (m, FNode mn mx mi kv' c l r, False) }
                else do {
                  (t', i) \<leftarrow> insertLinkedList (fm_less m) (FNode mn mx mi kv c l r) key val;
                  Some (m, t', i) })));
          (m2, t2) \<leftarrow> insertEnd m1 t1 lvl;
          Some (m2, t2, inserted) })
   }"
  by pat_completeness auto

termination insertNode_f
  by (relation "measure (\<lambda>(m, t, key, val, lvl). size t)") (auto split: if_splits)

declare insertNode_f.simps(2) [simp del]

definition Insert_f :: "fmap \<Rightarrow> string \<Rightarrow> string \<Rightarrow> (fmap \<times> bool) option" where
  "Insert_f m key val = do {
     (m1, t, inserted) \<leftarrow> insertNode_f m (fm_root m) key val 0;
     (case t of
        FNil \<Rightarrow> None
      | FNode mn mx mi kv c l r \<Rightarrow>
          Some (m1\<lparr>fm_root := FNode mn mx mi kv False l r,
                   fm_length := (if inserted then fm_length m1 + 1 else fm_length m1)\<rparr>, inserted))
   }"

definition Set_f :: "fmap \<Rightarrow> string \<Rightarrow> string \<Rightarrow> (fmap \<times> bool) option" where
  "Set_f m key val = Insert_f m key val"

fun findNode_f :: "(string \<Rightarrow> string \<Rightarrow> bool) \<Rightarrow> fnode \<Rightarrow> string \<Rightarrow> string \<times> bool" where
  "findNode_f lt FNil key = ([], False)"
| "findNode_f lt (FNode mn mx mi kv c l r) key =
     (if lt key mn \<and> l \<noteq> FNil then findNode_f lt l key
      else if lt mx key \<and> r \<noteq> FNil then findNode_f lt r key
      else (case findInner kv key of (idx, v, found) \<Rightarrow> (v, found)))"

definition Find_f :: "fmap \<Rightarrow> string \<Rightarrow> string \<times> bool" where
  "Find_f m key = findNode_f (fm_less m) (fm_root m) key"

definition Get_f :: "fmap \<Rightarrow> string \<Rightarrow> string \<times> bool" where
  "Get_f m key = Find_f m key"

fun doNode_f :: "fnode \<Rightarrow> (string \<Rightarrow> string \<Rightarrow> 's \<Rightarrow> 's) \<Rightarrow> 's \<Rightarrow> 's" where
  "doNode_f FNil f s = s"
| "doNode_f (FNode mn mx mi kv c l r) f s =
     doNode_f r f (fold (\<lambda>e. f (k_key e) (k_val e)) kv (doNode_f l f s))"

definition Do_f :: "fmap \<Rightarrow> (string \<Rightarrow> string \<Rightarrow> 's \<Rightarrow> 's) \<Rightarrow> 's \<Rightarrow> 's" where
  "Do_f m f s = doNode_f (fm_root m) f s"

definition Len_f :: "fmap \<Rightarrow> int" where
  "Len_f m = fm_length m"

text \<open>\<^verbatim>\<open>remove\<close>: its body is commented out, only \<^verbatim>\<open>fixUp\<close> runs.\<close>

definition removeNode_f :: "fnode \<Rightarrow> string \<Rightarrow> (fnode \<times> bool) option" where
  "removeNode_f t key = do { t' \<leftarrow> fixUp_f t; Some (t', False) }"

definition Delete_f :: "fmap \<Rightarrow> string \<Rightarrow> (fmap \<times> bool) option" where
  "Delete_f m key = do {
     (t, deleted) \<leftarrow>
       (if fm_root m \<noteq> FNil then do {
          (t, d) \<leftarrow> removeNode_f (fm_root m) key;
          Some ((case t of FNil \<Rightarrow> FNil | FNode mn mx mi kv c l r \<Rightarrow> FNode mn mx mi kv False l r), d) }
        else Some (fm_root m, False));
     Some (m\<lparr>fm_root := t, fm_length := (if deleted then fm_length m - 1 else fm_length m)\<rparr>, deleted)
   }"

subsection \<open>The linked list as a sequence of indices\<close>

text \<open>\<open>chain kv i is e\<close>: following the successor indices from \<open>i\<close> visits the entries \<open>is\<close> and
  ends at \<open>e\<close>.\<close>

fun chain :: "kvt list \<Rightarrow> int \<Rightarrow> nat list \<Rightarrow> int \<Rightarrow> bool" where
  "chain kv i [] e \<longleftrightarrow> i = e"
| "chain kv i (j # js) e \<longleftrightarrow> i = int j \<and> j < length kv \<and> chain kv (k_succ (kv ! j)) js e"

abbreviation key_at :: "kvt list \<Rightarrow> nat \<Rightarrow> string" where
  "key_at kv j \<equiv> k_key (kv ! j)"

definition wf_list :: "kvt list \<Rightarrow> string \<Rightarrow> string \<Rightarrow> int \<Rightarrow> nat list \<Rightarrow> bool" where
  "wf_list kv mn mx mi is \<longleftrightarrow> is \<noteq> [] \<and> chain kv mi is noSuccessor \<and> distinct is \<and>
     set is = {..<length kv} \<and> sorted_wrt (<) (map (key_at kv) is) \<and>
     mn = key_at kv (hd is) \<and> mx = key_at kv (last is)"

lemma chain_append: "chain kv i (xs @ ys) e \<longleftrightarrow> (\<exists>m. chain kv i xs m \<and> chain kv m ys e)"
  by (induction xs arbitrary: i) auto

lemma chain_cong: "(\<And>j. j \<in> set js \<Longrightarrow> j < length kv \<Longrightarrow> j < length kv' \<and> k_succ (kv' ! j) = k_succ (kv ! j)) \<Longrightarrow>
   chain kv i js e \<Longrightarrow> chain kv' i js e"
  by (induction js arbitrary: i) auto

lemma chain_less: "chain kv i js e \<Longrightarrow> j \<in> set js \<Longrightarrow> j < length kv"
  by (induction js arbitrary: i) auto

lemma sortedIter_chain:
  "chain kv i js noSuccessor \<Longrightarrow> js \<noteq> [] \<Longrightarrow> ec + int (length js) \<le> cFanout + 1 \<Longrightarrow>
   sortedIter kv ec i = Some (map (key_at kv) js)"
proof (induction js arbitrary: i ec)
  case (Cons j js)
  show ?case
  proof (cases js)
    case Nil
    with Cons.prems show ?thesis by (simp add: sortedIter.simps[of kv ec])
  next
    case (Cons j' js')
    with Cons.prems Cons.IH[of "k_succ (kv ! j)" "ec + 1"] show ?thesis
      by (auto simp: sortedIter.simps[of kv ec] noSuccessor_def)
  qed
qed simp

lemma report_chain: "chain kv i js noSuccessor \<Longrightarrow> js \<noteq> [] \<Longrightarrow> length js \<le> 13 \<Longrightarrow> report kv i = Some ()"
  using sortedIter_chain[of kv i js 0] by (cases js) (auto simp: report_def cFanout_def)

text \<open>The loop of \<^verbatim>\<open>insertLinkedList\<close> on a sorted chain finds the place of the key.\<close>

lemma search_chain:
  "chain kv i js noSuccessor \<Longrightarrow> js \<noteq> [] \<Longrightarrow> p < length kv \<Longrightarrow> key_at kv p < key \<Longrightarrow>
   \<forall>j\<in>set js. key_at kv j \<noteq> key \<Longrightarrow> ec + int (length js) \<le> cFanout + 1 \<Longrightarrow>
   search_list (\<lambda>a b. a < b) kv key ec (int p) i =
     Some (let bef = takeWhile (\<lambda>j. key_at kv j < key) js; aft = dropWhile (\<lambda>j. key_at kv j < key) js
           in if aft = [] then NewMax (int (last js)) else Between (int (last (p # bef))))"
proof (induction js arbitrary: i ec p)
  case (Cons j js)
  have ne: "key_at kv j < key \<or> key < key_at kv j" using Cons.prems(5) by auto
  show ?case
  proof (cases "js = []")
    case True
    with Cons.prems ne show ?thesis
      by (auto simp: search_list.simps[of _ kv key ec] noSuccessor_def Let_def)
  next
    case False
    then have "k_succ (kv ! j) \<noteq> noSuccessor"
      using Cons.prems(1) by (cases js) (auto simp: noSuccessor_def)
    with False Cons.prems ne Cons.IH[of "k_succ (kv ! j)" j "ec + 1"] show ?thesis
      by (auto simp: search_list.simps[of _ kv key ec] Let_def)
  qed
qed simp

lemma set_succ_Some [simp]: "set_succ kv (int i) s =
    (if i < length kv then Some (kv[i := (kv ! i)\<lparr>k_succ := s\<rparr>]) else None)"
  by (simp add: set_succ_def)

text \<open>Splicing a new last entry in after the entries \<open>bef\<close>.\<close>

lemma chain_splice:
  fixes key val :: string
  assumes "chain kv i (bef @ aft) e" "bef \<noteq> []" "distinct (bef @ aft)" "set (bef @ aft) = {..<length kv}"
  defines "p \<equiv> last bef"
  defines "kv' \<equiv> kv[p := (kv ! p)\<lparr>k_succ := int (length kv)\<rparr>] @
                   [\<lparr>k_key = key, k_val = val, k_succ = k_succ (kv ! p)\<rparr>]"
  shows "chain kv' i (bef @ length kv # aft) e"
proof -
  obtain b where b: "bef = b @ [p]" using assms(2) by (metis append_butlast_last_id p_def)
  have p: "p < length kv" using assms(4) b by auto
  have c: "chain kv i b (int p)" "chain kv (k_succ (kv ! p)) aft e"
    using assms(1) b by (auto simp: chain_append)
  have same: "chain kv' x js y" if "chain kv x js y" "p \<notin> set js" for x js y
  proof (rule chain_cong[OF _ that(1)])
    fix j assume "j \<in> set js" "j < length kv"
    moreover from this that(2) have "p \<noteq> j" by auto
    ultimately show "j < length kv' \<and> k_succ (kv' ! j) = k_succ (kv ! j)"
      by (simp add: kv'_def nth_append)
  qed
  have "chain kv' i b (int p)" "chain kv' (k_succ (kv ! p)) aft e"
    using same c assms(3) b by auto
  then show ?thesis using p by (simp add: b chain_append kv'_def nth_append)
qed

lemma key_at_splice: "j < length kv \<Longrightarrow> p < length kv \<Longrightarrow>
   key_at (kv[p := (kv ! p)\<lparr>k_succ := s\<rparr>] @ [e]) j = key_at kv j"
  by (cases "j = p") (auto simp: nth_append)

lemma wf_list_splice:
  fixes key val :: string
  assumes "wf_list kv mn mx mi (bef @ aft)" "bef \<noteq> []"
    "\<forall>j\<in>set bef. key_at kv j < key" "\<forall>j\<in>set aft. key < key_at kv j"
  defines "p \<equiv> last bef"
  defines "kv' \<equiv> kv[p := (kv ! p)\<lparr>k_succ := int (length kv)\<rparr>] @
                   [\<lparr>k_key = key, k_val = val, k_succ = k_succ (kv ! p)\<rparr>]"
  shows "wf_list kv' mn (if aft = [] then key else mx) mi (bef @ length kv # aft)"
proof -
  have w: "chain kv mi (bef @ aft) noSuccessor" "distinct (bef @ aft)" "set (bef @ aft) = {..<length kv}"
    "sorted_wrt (<) (map (key_at kv) (bef @ aft))" "mn = key_at kv (hd (bef @ aft))"
    "mx = key_at kv (last (bef @ aft))"
    using assms(1) by (simp_all add: wf_list_def)
  have "last bef \<in> set (bef @ aft)" using assms(2) by simp
  then have p: "p < length kv" unfolding w(3) p_def by simp
  have keys: "key_at kv' j = key_at kv j" if "j \<in> set (bef @ aft)" for j
    using key_at_splice[OF _ p] that w(3) by (auto simp: kv'_def)
  have new: "key_at kv' (length kv) = key" by (simp add: kv'_def nth_append)
  have len: "length kv' = Suc (length kv)" by (simp add: kv'_def)
  have m: "map (key_at kv') (bef @ length kv # aft) = map (key_at kv) bef @ key # map (key_at kv) aft"
    using keys new by simp
  have sorted: "sorted_wrt (<) (map (key_at kv') (bef @ length kv # aft))"
    unfolding m using w(4) assms(3,4) by (auto simp: sorted_wrt_append)
  have perm: "distinct (bef @ length kv # aft)" "set (bef @ length kv # aft) = {..<length kv'}"
    using w(2,3) len by auto
  have mn: "mn = key_at kv' (hd (bef @ length kv # aft))"
    using w(5) keys[of "hd bef"] assms(2) by simp
  have mx: "(if aft = [] then key else mx) = key_at kv' (last (bef @ length kv # aft))"
    using w(6) keys[of "last aft"] new by simp
  have chain: "chain kv' mi (bef @ length kv # aft) noSuccessor"
    using chain_splice[OF w(1) assms(2) w(2,3)] unfolding kv'_def p_def .
  show ?thesis
    unfolding wf_list_def
    by (intro conjI perm sorted mx chain mn) simp
qed

lemma wf_list_cons:
  fixes key val :: string
  assumes "wf_list kv mn mx mi is" "key < mn"
  shows "wf_list (kv @ [\<lparr>k_key = key, k_val = val, k_succ = mi\<rparr>]) key mx (int (length kv)) (length kv # is)"
proof -
  let ?kv = "kv @ [\<lparr>k_key = key, k_val = val, k_succ = mi\<rparr>]"
  have w: "is \<noteq> []" "chain kv mi is noSuccessor" "distinct is" "set is = {..<length kv}"
    "sorted_wrt (<) (map (key_at kv) is)" "mn = key_at kv (hd is)" "mx = key_at kv (last is)"
    using assms(1) by (simp_all add: wf_list_def)
  have keys: "key_at ?kv j = key_at kv j" if "j \<in> set is" for j
    using that w(4) by (auto simp: nth_append)
  have "chain ?kv mi is noSuccessor"
    by (rule chain_cong[OF _ w(2)]) (auto simp: nth_append)
  moreover have "sorted_wrt (<) (map (key_at ?kv) (length kv # is))"
  proof -
    have "\<forall>j\<in>set is. key < key_at kv j"
      using w(1,5,6) assms(2) by (cases "is") (auto intro: less_trans)
    moreover have m: "map (key_at ?kv) (length kv # is) = key # map (key_at kv) is"
      using keys by simp
    ultimately show ?thesis unfolding m using w(5) by simp
  qed
  moreover have "last is < length kv" using last_in_set[OF w(1)] unfolding w(4) by simp
  ultimately show ?thesis
    using w(1,3,4,7) by (auto simp: wf_list_def nth_append)
qed

lemma takeWhile_sorted_split:
  assumes "sorted_wrt (<) (map f xs)" "\<forall>x\<in>set xs. f x \<noteq> (k :: 'a :: linorder)"
  shows "\<forall>x\<in>set (takeWhile (\<lambda>x. f x < k) xs). f x < k" "\<forall>x\<in>set (dropWhile (\<lambda>x. f x < k) xs). k < f x"
proof -
  show "\<forall>x\<in>set (takeWhile (\<lambda>x. f x < k) xs). f x < k" by (auto dest: set_takeWhileD)
  show "\<forall>x\<in>set (dropWhile (\<lambda>x. f x < k) xs). k < f x"
    using assms by (induction xs) (auto simp: not_less order.strict_iff_order intro: order.strict_trans1)
qed

lemma insertLinkedList_wf:
  assumes wf: "wf_list kv mn mx mi is" and new: "key \<notin> k_key ` set kv" and len: "length kv \<le> 12"
  shows "\<exists>kv' mn' mx' mi' is'. insertLinkedList (\<lambda>a b. a < b) (FNode mn mx mi kv c l r) key val =
      Some (FNode mn' mx' mi' kv' c l r, True) \<and> wf_list kv' mn' mx' mi' is' \<and>
      map (\<lambda>e. (k_key e, k_val e)) kv' = map (\<lambda>e. (k_key e, k_val e)) kv @ [(key, val)]"
proof -
  have w: "is \<noteq> []" "chain kv mi is noSuccessor" "distinct is" "set is = {..<length kv}"
    "sorted_wrt (<) (map (key_at kv) is)" "mn = key_at kv (hd is)" "mx = key_at kv (last is)"
    using wf by (simp_all add: wf_list_def)
  have card: "length is = length kv" using w(3,4) distinct_card[OF w(3)] by simp
  have kv: "length kv > 0" using w(1) card by auto
  let ?kv = "kv @ [\<lparr>k_key = key, k_val = val, k_succ = noSuccessor\<rparr>]"
  have ne: "\<forall>j\<in>set is. key_at kv j \<noteq> key" using new w(4) by auto
  show ?thesis
  proof (cases "key < mn")
    case True
    note wf' = wf_list_cons[OF wf True, of val]
    have "report (kv @ [\<lparr>k_key = key, k_val = val, k_succ = mi\<rparr>]) (int (length kv)) = Some ()"
      using wf' card len by (intro report_chain[of _ _ "length kv # is"]) (auto simp: wf_list_def)
    then show ?thesis using True wf' kv
      by (intro exI conjI) (auto simp: Let_def)
  next
    case False
    define bef where "bef = takeWhile (\<lambda>j. key_at kv j < key) is"
    define aft where "aft = dropWhile (\<lambda>j. key_at kv j < key) is"
    have split: "is = bef @ aft" by (simp add: bef_def aft_def)
    have hd: "key_at kv (hd is) < key" using False w(6) ne w(1) by (metis hd_in_set linorder_neqE)
    then have bef: "bef \<noteq> []" using w(1) by (cases "is") (auto simp: bef_def)
    note sides = takeWhile_sorted_split[OF w(5) ne, folded bef_def aft_def]
    define p where "p = last bef"
    have "last bef \<in> set is" using bef split by simp
    then have p: "p < length kv" unfolding w(4) p_def by simp
    let ?kv' = "kv[p := (kv ! p)\<lparr>k_succ := int (length kv)\<rparr>] @
        [\<lparr>k_key = key, k_val = val, k_succ = k_succ (kv ! p)\<rparr>]"
    note wf' = wf_list_splice[OF wf[unfolded split] bef sides, of val, folded p_def]
    have rep: "report ?kv' mi = Some ()"
      using wf' card len split by (intro report_chain[of _ _ "bef @ length kv # aft"]) (auto simp: wf_list_def)
    have mi: "mi = int (hd is)" "hd is < length kv" using w(1,2) by (cases "is"; auto)+
    have keys: "key_at ?kv j = key_at kv j" if "j < length kv" for j using that by (simp add: nth_append)
    have "chain ?kv mi is noSuccessor" by (rule chain_cong[OF _ w(2)]) (auto simp: nth_append)
    then have s: "search_list (\<lambda>a b. a < b) ?kv key 0 (int (hd is)) mi =
       Some (let bef = takeWhile (\<lambda>j. key_at ?kv j < key) is; aft = dropWhile (\<lambda>j. key_at ?kv j < key) is
             in if aft = [] then NewMax (int (last is)) else Between (int (last (hd is # bef))))"
      using w(1) mi(2) hd ne keys w(4) card len by (intro search_chain) (auto simp: cFanout_def)
    have tw: "takeWhile (\<lambda>j. key_at ?kv j < key) is = bef" "dropWhile (\<lambda>j. key_at ?kv j < key) is = aft"
      unfolding bef_def aft_def using keys w(4) by (auto intro!: takeWhile_cong dropWhile_cong)
    have "last (hd is # bef) = p" "aft = [] \<longrightarrow> last is = p" using bef split by (auto simp: p_def)
    then have search: "search_list (\<lambda>a b. a < b) ?kv key 0 mi mi =
        Some (if aft = [] then NewMax (int p) else Between (int p))"
      using s unfolding Let_def tw mi(1)[symmetric] by auto
    have pairs: "map (\<lambda>e. (k_key e, k_val e)) ?kv' = map (\<lambda>e. (k_key e, k_val e)) kv @ [(key, val)]"
      using p by (simp add: map_update list_update_same_conv)
    have last: "k_succ (kv ! p) = noSuccessor" if "aft = []"
      using w(2) that bef unfolding split p_def by (cases bef rule: rev_cases) (auto simp: chain_append)
    have "insertLinkedList (\<lambda>a b. a < b) (FNode mn mx mi kv c l r) key val =
        Some (FNode mn (if aft = [] then key else mx) mi ?kv' c l r, True)"
      using search rep False kv p last
      by (cases "aft = []") (simp_all add: Let_def nth_append list_update_append)
    with wf' pairs show ?thesis by blast
  qed
qed

subsection \<open>Entries of a tree\<close>

definition pairs :: "kvt list \<Rightarrow> (string \<times> string) list" where
  "pairs kv = map (\<lambda>e. (k_key e, k_val e)) kv"

fun entries_f :: "fnode \<Rightarrow> (string \<times> string) list" where
  "entries_f FNil = []"
| "entries_f (FNode mn mx mi kv c l r) = entries_f l @ pairs kv @ entries_f r"

lemma pairs_simps [simp]: "pairs [] = []" "pairs (kv @ kv') = pairs kv @ pairs kv'"
  "pairs (e # kv) = (k_key e, k_val e) # pairs kv" "length (pairs kv) = length kv"
  by (simp_all add: pairs_def)

lemma doNode_f_entries: "doNode_f t f s = fold (\<lambda>(k, v). f k v) (entries_f t) s"
proof (induction t arbitrary: s)
  case (FNode mn mx mi kv c l r)
  have "fold (\<lambda>e. f (k_key e) (k_val e)) kv s = fold (\<lambda>(k, v). f k v) (pairs kv) s" for s
    by (induction kv arbitrary: s) auto
  with FNode show ?case by simp
qed simp

lemma findInner_from_spec:
  "case findInner_from kv key i of (idx, v, found) \<Rightarrow>
     (found \<longrightarrow> map_of (pairs kv) key = Some v \<and> i \<le> idx \<and> nat (idx - i) < length kv \<and>
        k_key (kv ! nat (idx - i)) = key) \<and>
     (\<not> found \<longrightarrow> key \<notin> k_key ` set kv \<and> v = [])"
proof (induction kv arbitrary: i)
  case (Cons e kv)
  obtain idx v found where f: "findInner_from kv key (i + 1) = (idx, v, found)" by (metis prod_cases3)
  have "nat (idx - i) = Suc (nat (idx - (i + 1)))" if "i + 1 \<le> idx" using that by simp
  with Cons[of "i + 1"] f show ?case by auto
qed simp

lemma findInner_found: "findInner kv key = (idx, v, True) \<Longrightarrow>
   map_of (pairs kv) key = Some v \<and> 0 \<le> idx \<and> nat idx < length kv \<and> k_key (kv ! nat idx) = key"
  using findInner_from_spec[of kv key 0] by (auto simp: findInner_def)

lemma findInner_absent: "findInner kv key = (idx, v, False) \<Longrightarrow> key \<notin> k_key ` set kv \<and> v = []"
  using findInner_from_spec[of kv key 0] by (auto simp: findInner_def)

lemma pairs_set_succ: "set_succ kv i x = Some kv' \<Longrightarrow> pairs kv' = pairs kv"
  by (auto simp: set_succ_def slice_set_def slice_get_def pairs_def map_update list_update_same_conv
      split: if_splits)

lemma pairs_set_val: "i < length kv \<Longrightarrow>
   pairs (kv[i := (kv ! i)\<lparr>k_val := val\<rparr>]) = (pairs kv)[i := (k_key (kv ! i), val)]"
  by (simp add: pairs_def map_update)

lemma insertLinkedList_pairs:
  assumes "insertLinkedList lt (FNode mn mx mi kv c l r) key val = Some (t', b)"
  shows "\<exists>mn' mx' mi' kv'. t' = FNode mn' mx' mi' kv' c l r \<and> pairs kv' = pairs kv @ [(key, val)]"
proof (cases "kv = [] \<or> lt key mn")
  case True
  with assms show ?thesis
    by (auto simp: Let_def simp del: set_succ_Some dest!: pairs_set_succ split: if_split_asm)
next
  case False
  let ?kv = "kv @ [\<lparr>k_key = key, k_val = val, k_succ = noSuccessor\<rparr>]"
  from False assms obtain e where "search_list lt ?kv key 0 mi mi = Some e" by (auto simp: Let_def)
  with False assms show ?thesis
    by (cases e) (auto simp: Let_def simp del: set_succ_Some dest!: pairs_set_succ)
qed

lemma rotate_f_entries:
  "rotateLeft_f t = Some t' \<Longrightarrow> entries_f t' = entries_f t"
  "rotateRight_f t = Some t' \<Longrightarrow> entries_f t' = entries_f t"
  "entries_f (flipChild_f t) = entries_f t"
  "colorFlip_f t = Some t' \<Longrightarrow> entries_f t' = entries_f t"
     apply (cases t rule: rotateLeft_f.cases; auto)
    apply (cases t rule: rotateRight_f.cases; auto)
proof -
  have flip: "entries_f (flipChild_f t) = entries_f t" for t by (cases t) auto
  then show "entries_f (flipChild_f t) = entries_f t" .
  show "colorFlip_f t = Some t' \<Longrightarrow> entries_f t' = entries_f t"
    by (cases t) (auto simp: flip)
qed

text \<open>The end of \<^verbatim>\<open>insert\<close> permutes the entries when it splits a node.\<close>

lemma insertEnd_mset:
  assumes "insertEnd m t lvl = Some (m', t')" "\<forall>x\<in>set (fm_reservoir m). x = []"
  shows "mset (entries_f t') = mset (entries_f t) \<and> fm_reservoir m' = fm_reservoir m \<and>
    fm_less m' = fm_less m \<and> fm_length m' = fm_length m"
proof -
  have empty: "kv = []" if "slice_get (fm_reservoir m) i = Some kv" for i kv
    using slice_get_eq_SomeD[OF that] assms(2) by auto
  have parts: "mset (pairs (filter P kv)) + mset (pairs (filter (\<lambda>e. \<not> P e) kv)) = mset (pairs kv)" for P kv
    by (induction kv) auto
  show ?thesis
    using assms(1)
    by (auto simp: insertEnd_def split_kv_def Let_def parts add.assoc[symmetric]
        dest!: rotate_f_entries(1,2) empty split: fnode.splits if_splits)
qed

text \<open>What one insertion does to the multiset of entries: a new entry, or one entry of the same
  key rebound.\<close>

definition stored :: "string \<Rightarrow> string \<Rightarrow> bool \<Rightarrow> (string \<times> string) multiset \<Rightarrow> (string \<times> string) multiset \<Rightarrow> bool" where
  "stored key val b E E' \<longleftrightarrow> E' = add_mset (key, val) E \<or>
     (\<exists>old. (key, old) \<in># E \<and> \<not> b \<and> E' = add_mset (key, val) (E - {#(key, old)#}))"

lemma stored_union: "stored key val b E E' \<Longrightarrow> stored key val b (E + F) (E' + F)"
  by (auto simp: stored_def)

lemma stored_update:
  assumes "i < length kv" "k_key (kv ! i) = key"
  shows "stored key val False (mset (pairs kv)) (mset (pairs (kv[i := (kv ! i)\<lparr>k_val := val\<rparr>])))"
proof -
  have "pairs kv ! i = (key, k_val (kv ! i))" using assms by (simp add: pairs_def)
  then show ?thesis
    using assms nth_mem[of i "pairs kv"]
    by (auto simp: stored_def pairs_set_val mset_update)
qed

lemma insertNode_f_cases:
  assumes ins: "insertNode_f m (FNode mn0 mx0 mi0 kv0 c0 l0 r0) key val lvl = Some (m', t', b)"
  obtains mn mx mi kv c l r m1 t1 where
    "entries_f (FNode mn mx mi kv c l r) = entries_f (FNode mn0 mx0 mi0 kv0 c0 l0 r0)"
    "size l = size l0" "size r = size r0" "insertEnd m1 t1 lvl = Some (m', t')"
    "(\<exists>l'. insertNode_f m l key val (lvl + 1) = Some (m1, l', b) \<and> t1 = FNode mn mx mi kv c l' r) \<or>
     (\<exists>r'. insertNode_f m r key val (lvl + 1) = Some (m1, r', b) \<and> t1 = FNode mn mx mi kv c l r') \<or>
     m1 = m \<and> (\<exists>idx v. findInner kv key = (idx, v, True) \<and> \<not> b \<and>
        t1 = FNode mn mx mi (kv[nat idx := (kv ! nat idx)\<lparr>k_val := val\<rparr>]) c l r) \<or>
     m1 = m \<and> insertLinkedList (fm_less m) (FNode mn mx mi kv c l r) key val = Some (t1, b)"
proof -
  define c where "c = (if isRed_f l0 \<and> isRed_f r0 then \<not> c0 else c0)"
  define l where "l = (if isRed_f l0 \<and> isRed_f r0 then flipChild_f l0 else l0)"
  define r where "r = (if isRed_f l0 \<and> isRed_f r0 then flipChild_f r0 else r0)"
  have t0: "(if isRed_f l0 \<and> isRed_f r0 then colorFlip_f (FNode mn0 mx0 mi0 kv0 c0 l0 r0)
      else Some (FNode mn0 mx0 mi0 kv0 c0 l0 r0)) = Some (FNode mn0 mx0 mi0 kv0 c l r)"
    by (simp add: c_def l_def r_def)
  obtain idx v found where f: "findInner kv0 key = (idx, v, found)" by (metis prod_cases3)
  obtain m1 t1 where fin: "insertEnd m1 t1 lvl = Some (m', t')" and br:
    "(if fm_less m key mn0 \<and> l \<noteq> FNil then do {
        (m1, l', i) \<leftarrow> insertNode_f m l key val (lvl + 1);
        Some (m1, FNode mn0 mx0 mi0 kv0 c l' r, i) }
      else if fm_less m mx0 key \<and> r \<noteq> FNil then do {
        (m1, r', i) \<leftarrow> insertNode_f m r key val (lvl + 1);
        Some (m1, FNode mn0 mx0 mi0 kv0 c l r', i) }
      else (if found then do {
           e \<leftarrow> slice_get kv0 idx;
           kv' \<leftarrow> slice_set kv0 idx (e\<lparr>k_val := val\<rparr>);
           Some (m, FNode mn0 mx0 mi0 kv' c l r, False) }
         else do {
           (t', i) \<leftarrow> insertLinkedList (fm_less m) (FNode mn0 mx0 mi0 kv0 c l r) key val;
           Some (m, t', i) })) = Some (m1, t1, b)"
    using ins unfolding insertNode_f.simps t0
    by (simp only: bind_eq_Some_iff fnode.case prod.case f option.inject ex_simps simp_thms
        prod.inject split_paired_Ex cong: if_cong) blast
  show ?thesis
  proof (rule that[OF _ _ _ fin])
    show "entries_f (FNode mn0 mx0 mi0 kv0 c l r) = entries_f (FNode mn0 mx0 mi0 kv0 c0 l0 r0)"
      "size l = size l0" "size r = size r0"
      by (simp_all add: l_def r_def rotate_f_entries)
    consider (left) "fm_less m key mn0 \<and> l \<noteq> FNil"
      | (right) "\<not> (fm_less m key mn0 \<and> l \<noteq> FNil)" "fm_less m mx0 key \<and> r \<noteq> FNil"
      | (here) "\<not> (fm_less m key mn0 \<and> l \<noteq> FNil)" "\<not> (fm_less m mx0 key \<and> r \<noteq> FNil)" by blast
    then show "(\<exists>l'. insertNode_f m l key val (lvl + 1) = Some (m1, l', b) \<and> t1 = FNode mn0 mx0 mi0 kv0 c l' r) \<or>
     (\<exists>r'. insertNode_f m r key val (lvl + 1) = Some (m1, r', b) \<and> t1 = FNode mn0 mx0 mi0 kv0 c l r') \<or>
     m1 = m \<and> (\<exists>idx v. findInner kv0 key = (idx, v, True) \<and> \<not> b \<and>
        t1 = FNode mn0 mx0 mi0 (kv0[nat idx := (kv0 ! nat idx)\<lparr>k_val := val\<rparr>]) c l r) \<or>
     m1 = m \<and> insertLinkedList (fm_less m) (FNode mn0 mx0 mi0 kv0 c l r) key val = Some (t1, b)"
    proof cases
      case left with br show ?thesis by auto
    next
      case right with br show ?thesis by (simp only: if_False if_True) auto
    next
      case here
      with br f show ?thesis
        by (cases found) (auto simp: slice_set_def slice_get_def simp del: insertLinkedList.simps split: if_split_asm)
    qed
  qed
qed

lemma insertNode_f_stored:
  "insertNode_f m t key val lvl = Some (m', t', b) \<Longrightarrow> \<forall>x\<in>set (fm_reservoir m). x = [] \<Longrightarrow>
   stored key val b (mset (entries_f t)) (mset (entries_f t')) \<and> fm_reservoir m' = fm_reservoir m \<and>
   fm_less m' = fm_less m \<and> fm_length m' = fm_length m"
proof (induction t arbitrary: m' t' b lvl rule: measure_induct_rule[where f = size])
  case (less t)
  show ?case
  proof (cases t)
    case FNil
    with less.prems show ?thesis by (auto simp: stored_def)
  next
    case (FNode mn0 mx0 mi0 kv0 c0 l0 r0)
    from less.prems(1)[unfolded FNode] show ?thesis
    proof (cases rule: insertNode_f_cases)
      case (1 mn mx mi kv c l r m1 t1)
      have "stored key val b (mset (entries_f (FNode mn mx mi kv c l r))) (mset (entries_f t1)) \<and>
          fm_reservoir m1 = fm_reservoir m \<and> fm_less m1 = fm_less m \<and> fm_length m1 = fm_length m"
        using 1(5)
      proof (elim disjE exE conjE)
        fix l' assume "insertNode_f m l key val (lvl + 1) = Some (m1, l', b)" "t1 = FNode mn mx mi kv c l' r"
        then show ?thesis
          using less.IH[of l "lvl + 1" m1 l' b] less.prems(2) 1(2) stored_union[of key val b "mset (entries_f l)" "mset (entries_f l')"]
          by (simp add: FNode)
      next
        fix r' assume "insertNode_f m r key val (lvl + 1) = Some (m1, r', b)" "t1 = FNode mn mx mi kv c l r'"
        then show ?thesis
          using less.IH[of r "lvl + 1" m1 r' b] less.prems(2) 1(3)
            stored_union[of key val b "mset (entries_f r)" "mset (entries_f r')" "mset (entries_f l) + mset (pairs kv)"]
          by (simp add: FNode ac_simps)
      next
        fix idx v assume *: "m1 = m" "findInner kv key = (idx, v, True)" "\<not> b"
          "t1 = FNode mn mx mi (kv[nat idx := (kv ! nat idx)\<lparr>k_val := val\<rparr>]) c l r"
        note f = findInner_found[OF *(2)]
        then have "stored key val b (mset (pairs kv)) (mset (pairs (kv[nat idx := (kv ! nat idx)\<lparr>k_val := val\<rparr>])))"
          using stored_update[of "nat idx" kv key val] *(3) by simp
        from stored_union[OF this, of "mset (entries_f l) + mset (entries_f r)"] show ?thesis
          by (simp add: * ac_simps)
      next
        assume *: "m1 = m" "insertLinkedList (fm_less m) (FNode mn mx mi kv c l r) key val = Some (t1, b)"
        from insertLinkedList_pairs[OF *(2)] show ?thesis by (auto simp: *(1) stored_def)
      qed
      moreover from this insertEnd_mset[OF 1(4)] less.prems(2)
      have "mset (entries_f t') = mset (entries_f t1) \<and> fm_reservoir m' = fm_reservoir m1 \<and>
          fm_less m' = fm_less m1 \<and> fm_length m' = fm_length m1" by simp
      ultimately show ?thesis unfolding FNode 1(1)[symmetric] by simp
    qed
  qed
qed

lemma rotate_f_ex:
  "isRed_f (f_right t) \<Longrightarrow> \<exists>t'. rotateLeft_f t = Some t' \<and> t' \<noteq> FNil"
  "isRed_f (f_left t) \<Longrightarrow> \<exists>t'. rotateRight_f t = Some t' \<and> t' \<noteq> FNil"
   apply (cases t rule: rotateLeft_f.cases; auto)
  apply (cases t rule: rotateRight_f.cases; auto)
  done

lemma fixUp_f_ex:
  assumes "t \<noteq> FNil"
  shows "\<exists>t'. fixUp_f t = Some t' \<and> t' \<noteq> FNil \<and> entries_f t' = entries_f t"
proof -
  obtain t1 where t1: "(if isRed_f (f_right t) then rotateLeft_f t else Some t) = Some t1" "t1 \<noteq> FNil"
      "entries_f t1 = entries_f t"
    using rotate_f_ex(1)[of t] rotate_f_entries(1)[of t] assms by (cases "isRed_f (f_right t)") auto
  obtain t2 where t2: "(if isRed_f (f_left t1) \<and> isRed_f (f_left (f_left t1)) then rotateRight_f t1
        else Some t1) = Some t2" "t2 \<noteq> FNil" "entries_f t2 = entries_f t1"
    using rotate_f_ex(2)[of t1] rotate_f_entries(2)[of t1] t1(2)
    by (cases "isRed_f (f_left t1) \<and> isRed_f (f_left (f_left t1))") auto
  show ?thesis
    unfolding fixUp_f_def t1(1) bind.bind_lunit t2(1)
    using t2 t1(3) rotate_f_entries(4)[of t2] by (cases t2) auto
qed

subsection \<open>Maps of one node\<close>

text \<open>Until the first split the map is one black node with a well-formed linked list.\<close>

definition one_node :: "fmap \<Rightarrow> bool" where
  "one_node m \<longleftrightarrow> fm_less m = (\<lambda>a b. a < b) \<and>
     (fm_root m = FNil \<and> fm_length m = 0 \<or>
      (\<exists>mn mx mi kv is. fm_root m = FNode mn mx mi kv False FNil FNil \<and> wf_list kv mn mx mi is \<and>
         distinct (map k_key kv) \<and> fm_length m = int (length kv) \<and> length kv \<le> 11))"

definition keys_f :: "fmap \<Rightarrow> string set" where
  "keys_f m = fst ` set (entries_f (fm_root m))"

lemma chain_update_val: "i < length kv \<Longrightarrow> chain (kv[i := (kv ! i)\<lparr>k_val := x\<rparr>]) a js e = chain kv a js e"
proof (induction js arbitrary: a)
  case (Cons j js)
  then show ?case by (cases "j = i") auto
qed simp

lemma wf_list_update_val:
  assumes "wf_list kv mn mx mi is" "i < length kv"
  shows "wf_list (kv[i := (kv ! i)\<lparr>k_val := x\<rparr>]) mn mx mi is"
proof -
  have "key_at (kv[i := (kv ! i)\<lparr>k_val := x\<rparr>]) j = key_at kv j" for j
    using assms(2) by (cases "j = i") auto
  with assms show ?thesis by (simp add: wf_list_def chain_update_val)
qed

lemma wf_list_single: "wf_list [\<lparr>k_key = key, k_val = val, k_succ = noSuccessor\<rparr>] key key 0 [0]"
  by (auto simp: wf_list_def)

lemma insertEnd_small: "length kv \<le> 11 \<Longrightarrow>
   insertEnd m (FNode mn mx mi kv c FNil FNil) lvl = Some (m, FNode mn mx mi kv c FNil FNil)"
  by (simp add: insertEnd_def cFanout_def)

lemma Insert_f_one_node:
  assumes m: "one_node m" and room: "key \<in> keys_f m \<or> Len_f m < 11"
  shows "\<exists>m'. Insert_f m key val = Some (m', key \<notin> keys_f m) \<and> one_node m' \<and>
     keys_f m' = insert key (keys_f m) \<and>
     (\<forall>j. Find_f m' j = (if j = key then (val, True) else Find_f m j))"
proof (cases "fm_root m")
  case FNil
  then show ?thesis
    using m wf_list_single[of key val]
    by (auto simp: one_node_def Insert_f_def keys_f_def Find_f_def findInner_def)
next
  case (FNode mn mx mi kv c l r)
  with m obtain js where m: "fm_less m = (\<lambda>a b. a < b)" "fm_root m = FNode mn mx mi kv False FNil FNil"
    "wf_list kv mn mx mi js" "distinct (map k_key kv)" "fm_length m = int (length kv)" "length kv \<le> 11"
    by (auto simp: one_node_def)
  have keys: "keys_f m = k_key ` set kv" by (simp add: keys_f_def m(2) pairs_def image_image)
  have find: "Find_f m j = snd (findInner kv j)" for j
    by (cases "findInner kv j") (simp add: Find_f_def m(2))
  obtain idx v found where f: "findInner kv key = (idx, v, found)" by (metis prod_cases3)
  show ?thesis
  proof (cases found)
    case True
    have f': "map_of (pairs kv) key = Some v" "0 \<le> idx" "nat idx < length kv" "k_key (kv ! nat idx) = key"
      using findInner_found[of kv key idx v] f True by simp_all
    let ?kv = "kv[nat idx := (kv ! nat idx)\<lparr>k_val := val\<rparr>]"
    let ?m = "m\<lparr>fm_root := FNode mn mx mi ?kv False FNil FNil\<rparr>"
    have "Insert_f m key val = Some (?m, False)"
      using f f' True m by (auto simp: Insert_f_def insertNode_f.simps slice_get_def slice_set_def
          insertEnd_small nat_less_iff)
    moreover have in_keys: "key \<in> k_key ` set kv" using f' by (metis imageI nth_mem)
    have mk: "map k_key ?kv = map k_key kv" using f' by (simp add: map_update list_update_same_conv)
    then have sk: "k_key ` set ?kv = k_key ` set kv" by (metis list.set_map)
    have "one_node ?m" using m mk wf_list_update_val[OF m(3)] f' by (auto simp: one_node_def)
    moreover have "keys_f ?m = k_key ` set ?kv" by (simp add: keys_f_def pairs_def image_image)
    moreover have "Find_f ?m j = (if j = key then (val, True) else Find_f m j)" for j
    proof -
      have "findInner_from kv2 j i = (if j = key then (fst (findInner_from kv1 j i), val, True) else findInner_from kv1 j i)"
        if "k < length kv1" "k_key (kv1 ! k) = key" "distinct (map k_key kv1)"
          "kv2 = kv1[k := (kv1 ! k)\<lparr>k_val := val\<rparr>]" for kv1 kv2 k i
        using that
      proof (induction kv1 arbitrary: kv2 k i)
        case (Cons e es)
        then show ?case by (cases k) auto
      qed simp
      moreover have "Find_f ?m j = snd (findInner ?kv j)"
        by (cases "findInner ?kv j") (simp add: Find_f_def)
      ultimately show ?thesis
        using f'(3,4) m(4) by (simp add: find findInner_def)
    qed
    ultimately show ?thesis using keys in_keys sk by (auto simp: insert_absorb)
  next
    case False
    have f': "key \<notin> k_key ` set kv" "v = []" using findInner_absent[of kv key idx v] f False by simp_all
    then have len: "length kv < 11" using room keys m(5) by (auto simp: Len_f_def)
    obtain kv' mn' mx' mi' is' where i:
      "insertLinkedList (\<lambda>a b. a < b) (FNode mn mx mi kv False FNil FNil) key val =
        Some (FNode mn' mx' mi' kv' False FNil FNil, True)" "wf_list kv' mn' mx' mi' is'"
      "map (\<lambda>e. (k_key e, k_val e)) kv' = map (\<lambda>e. (k_key e, k_val e)) kv @ [(key, val)]"
      using insertLinkedList_wf[OF m(3) _ _, of key False FNil FNil val] f' len by auto
    have p: "pairs kv' = pairs kv @ [(key, val)]" using i(3) by (simp add: pairs_def)
    have mk: "map k_key kv' = map k_key kv @ [key]" using arg_cong[OF i(3), of "map fst"] by (simp add: comp_def)
    then have sk: "k_key ` set kv' = insert key (k_key ` set kv)"
      by (metis Un_insert_right list.set_map list.simps(15) set_append sup_bot.right_neutral empty_set)
    have lk: "length kv' = Suc (length kv)" using arg_cong[OF mk, of length] by simp
    let ?m = "m\<lparr>fm_root := FNode mn' mx' mi' kv' False FNil FNil, fm_length := fm_length m + 1\<rparr>"
    have "Insert_f m key val = Some (?m, True)"
      using f False m i(1) lk len
      by (simp add: Insert_f_def insertNode_f.simps insertEnd_small del: insertLinkedList.simps)
    moreover have "one_node ?m" using m mk lk len i(2) f' by (auto simp: one_node_def)
    moreover have "keys_f ?m = k_key ` set kv'" by (simp add: keys_f_def pairs_def image_image)
    moreover have "Find_f ?m j = (if j = key then (val, True) else Find_f m j)" for j
    proof -
      have spec: "snd (findInner kvs j) = (case map_of (pairs kvs) j of None \<Rightarrow> ([], False) | Some v \<Rightarrow> (v, True))" for kvs
      proof -
        obtain a b d where r: "findInner kvs j = (a, b, d)" by (metis prod_cases3)
        have "map_of (pairs kvs) j = None" if "j \<notin> k_key ` set kvs"
          using that by (auto simp: map_of_eq_None_iff pairs_def image_image)
        then show ?thesis
          using findInner_found[of kvs j a b] findInner_absent[of kvs j a b] r by (cases d) auto
      qed
      have "map_of (pairs kv) key = None"
        using f' by (auto simp: map_of_eq_None_iff pairs_def image_image)
      then have "map_of (pairs kv') j = (if j = key then Some val else map_of (pairs kv) j)"
        by (auto simp: p map_add_def split: option.split)
      moreover have "Find_f ?m j = snd (findInner kv' j)"
        by (cases "findInner kv' j") (simp add: Find_f_def)
      ultimately show ?thesis by (simp add: find spec)
    qed
    ultimately show ?thesis using keys f' sk by simp
  qed
qed

fun Insert_all_f :: "fmap \<Rightarrow> (string \<times> string) list \<Rightarrow> fmap option" where
  "Insert_all_f m [] = Some m"
| "Insert_all_f m ((k, v) # ps) = do { (m', b) \<leftarrow> Insert_f m k v; Insert_all_f m' ps }"

lemma one_node_len: "one_node m \<Longrightarrow> finite (keys_f m) \<and> Len_f m = int (card (keys_f m))"
proof -
  assume m: "one_node m"
  then show ?thesis
    by (auto simp: one_node_def keys_f_def Len_f_def pairs_def image_image distinct_map card_image distinct_card)
qed

lemma Insert_all_one_node:
  "one_node m \<Longrightarrow> card (keys_f m \<union> fst ` set ps) \<le> 11 \<Longrightarrow>
   \<exists>m'. Insert_all_f m ps = Some m' \<and> one_node m' \<and> keys_f m' = keys_f m \<union> fst ` set ps \<and>
     (\<forall>j. Find_f m' j = (case map_of (rev ps) j of None \<Rightarrow> Find_f m j | Some v \<Rightarrow> (v, True)))"
proof (induction ps arbitrary: m)
  case (Cons p ps)
  obtain k v where p: "p = (k, v)" by (cases p)
  have fin: "finite (keys_f m \<union> fst ` set (p # ps))" using one_node_len[OF Cons.prems(1)] by simp
  have "k \<in> keys_f m \<or> Len_f m < 11"
  proof (rule disjCI)
    assume "\<not> Len_f m < 11"
    then have "card (keys_f m) \<ge> 11" using one_node_len[OF Cons.prems(1)] by simp
    then have "keys_f m = keys_f m \<union> fst ` set (p # ps)"
      using Cons.prems(2) fin by (intro card_seteq[OF fin]) auto
    then show "k \<in> keys_f m" using p by auto
  qed
  then obtain m1 where m1: "Insert_f m k v = Some (m1, k \<notin> keys_f m)" "one_node m1"
    "keys_f m1 = insert k (keys_f m)" "\<And>j. Find_f m1 j = (if j = k then (v, True) else Find_f m j)"
    using Insert_f_one_node[OF Cons.prems(1), of k v] by auto
  have "card (keys_f m1 \<union> fst ` set ps) \<le> 11" using Cons.prems(2) by (simp add: m1(3) p)
  from Cons.IH[OF m1(2) this] obtain m' where "Insert_all_f m1 ps = Some m'" "one_node m'"
    "keys_f m' = keys_f m1 \<union> fst ` set ps"
    "\<And>j. Find_f m' j = (case map_of (rev ps) j of None \<Rightarrow> Find_f m1 j | Some v \<Rightarrow> (v, True))" by blast
  then show ?case
    by (auto simp: p m1(1,3,4) map_add_def split: option.split)
qed simp

lemma one_node_New: "one_node New_f" "keys_f New_f = {}"
  by (simp_all add: one_node_def New_f_def keys_f_def)

subsection \<open>Properties\<close>

text \<open>C7: When a new key is inserted into a node whose list is a chain (wf_list: the successors lead
  through all entries in strictly increasing key order, with minIdx, min and max at its ends) and that has at
  most twelve entries, insertLinkedList appends the entry at the end of the slice and the list is
  such a chain again; neither the emergency counter nor a range check of a read triggers. Such lists are those
  of the maps with at most eleven distinct keys (Lemma osmaps_up_to_eleven). The first split leaves lists
  that are no chains, and on these insertLinkedList may panic or run into its counter
  (Lemma osmaps_thirteen_keys_panic).\<close>

theorem linked_list_insert:
  assumes "wf_list kv mn mx mi is" "key \<notin> k_key ` set kv" "length kv \<le> 12"
  shows "\<exists>kv' mn' mx' mi' is'. insertLinkedList (\<lambda>a b. a < b) (FNode mn mx mi kv c l r) key val =
      Some (FNode mn' mx' mi' kv' c l r, True) \<and> wf_list kv' mn' mx' mi' is' \<and>
      pairs kv' = pairs kv @ [(key, val)]"
  using insertLinkedList_wf[OF assms] by (simp add: pairs_def)

lemma linked_list_insert_witness:
  "\<exists>kv' mn' mx' mi' is'. insertLinkedList (\<lambda>a b. a < b)
      (FNode ''b'' ''b'' 0 [\<lparr>k_key = ''b'', k_val = ''1'', k_succ = noSuccessor\<rparr>] False FNil FNil) ''a'' ''2'' =
      Some (FNode mn' mx' mi' kv' False FNil FNil, True) \<and> wf_list kv' mn' mx' mi' is' \<and>
      pairs kv' = [(''b'', ''1''), (''a'', ''2'')]"
  using linked_list_insert[OF wf_list_single[of "''b''" "''1''"], of "''a''" False FNil FNil "''2''"] by simp

text \<open>As long as there are at most eleven distinct keys, a sequence of Inserts into New() runs
  without panic, Len counts the keys, and Find returns the last value set for a key.\<close>

theorem osmaps_up_to_eleven:
  assumes "card (fst ` set ps) \<le> 11"
  shows "\<exists>m. Insert_all_f New_f ps = Some m \<and> Len_f m = int (card (fst ` set ps)) \<and>
     (\<forall>k. Find_f m k = (case map_of (rev ps) k of None \<Rightarrow> ([], False) | Some v \<Rightarrow> (v, True)))"
proof -
  have empty: "Find_f New_f k = ([], False)" for k by (simp add: Find_f_def New_f_def)
  obtain m where "Insert_all_f New_f ps = Some m" "one_node m" "keys_f m = fst ` set ps"
    "\<And>k. Find_f m k = (case map_of (rev ps) k of None \<Rightarrow> Find_f New_f k | Some v \<Rightarrow> (v, True))"
    using Insert_all_one_node[OF one_node_New(1), of ps] assms by (auto simp: one_node_New(2))
  then show ?thesis using one_node_len[of m] by (auto simp: empty split: option.split)
qed

lemma osmaps_up_to_eleven_witness:
  "\<exists>m. Insert_all_f New_f [(''k'', ''1''), (''b'', ''2''), (''k'', ''3'')] = Some m \<and> Len_f m = 2 \<and>
     Find_f m ''k'' = (''3'', True)"
proof -
  have "card (fst ` set [(''k'', ''1''), (''b'', ''2''), (''k'', ''3'')]) = 2" by code_simp
  with osmaps_up_to_eleven[of "[(''k'', ''1''), (''b'', ''2''), (''k'', ''3'')]"] show ?thesis by fastforce
qed

text \<open>C8: However large the map, an Insert that does not panic loses no entry: the entries that Do
  visits afterwards are those before plus the new pair, or those before with one value of the key
  replaced, in which case Insert returns false.\<close>

theorem osmaps_insert_keeps_entries:
  assumes "\<forall>x\<in>set (fm_reservoir m). x = []" "Insert_f m key val = Some (m', b)"
  shows "stored key val b (mset (entries_f (fm_root m))) (mset (entries_f (fm_root m'))) \<and>
    fm_reservoir m' = fm_reservoir m \<and> Len_f m' = (if b then Len_f m + 1 else Len_f m)"
proof -
  obtain m1 t b1 where t: "insertNode_f m (fm_root m) key val 0 = Some (m1, t, b1)"
    using assms(2) by (auto simp: Insert_f_def)
  with assms(2) have "b1 = b" "t \<noteq> FNil" by (auto simp: Insert_f_def split: fnode.splits)
  with insertNode_f_stored[OF t assms(1)] assms(2) t show ?thesis
    by (cases t) (auto simp: Len_f_def Insert_f_def)
qed

lemma osmaps_insert_keeps_entries_witness:
  "stored ''a'' ''1'' True {#} (mset (entries_f (fm_root (fst (the (Insert_f New_f ''a'' ''1''))))))"
  using osmaps_insert_keeps_entries[of New_f "''a''" "''1''" "fst (the (Insert_f New_f ''a'' ''1''))" True]
  by (simp add: New_f_def Insert_f_def)

text \<open>Delete never deletes: on every map and for every key it returns false and leaves the
  entries and the length as they are.\<close>

theorem osmaps_delete_is_noop:
  "\<exists>m'. Delete_f m key = Some (m', False) \<and> entries_f (fm_root m') = entries_f (fm_root m) \<and>
     Len_f m' = Len_f m"
proof (cases "fm_root m = FNil")
  case True
  then show ?thesis by (auto simp: Delete_f_def Len_f_def)
next
  case False
  then obtain t where "fixUp_f (fm_root m) = Some t" "t \<noteq> FNil" "entries_f t = entries_f (fm_root m)"
    using fixUp_f_ex by blast
  then show ?thesis using False by (cases t) (auto simp: Delete_f_def removeNode_f_def Len_f_def)
qed

text \<open>Do does not visit the keys in order: within a node it follows the insertion order.\<close>

theorem osmaps_do_insertion_order:
  "map_option (\<lambda>m. Do_f m (\<lambda>k v ks. ks @ [k]) []) (Insert_all_f New_f [(''b'', ''1''), (''a'', ''2'')]) =
   Some [''b'', ''a'']"
  by code_simp

text \<open>The split leaves stale successor indices behind, and the next insertions run out of range:
  inserting the thirteen keys a to m in order panics, although the first twelve succeed.\<close>

theorem osmaps_thirteen_keys_panic:
  "Insert_all_f New_f (map (\<lambda>c. ([c], [])) ''abcdefghijkl'') \<noteq> None \<and>
   Insert_all_f New_f (map (\<lambda>c. ([c], [])) ''abcdefghijklm'') = None"
  by code_simp

end
