(* ===== verification/Queue.thy ===== *)
theory Queue
  imports Prelude
begin

section \<open>The FIFO queue and the stack of package util\<close>

text \<open>
  Models \<^verbatim>\<open>util/util-fifo-queue.go\<close> and \<^verbatim>\<open>util/util-lifo-stack.go\<close>. An
  \<^verbatim>\<open>interface{}\<close> value is an option, \<open>None\<close> for nil. The queue is a ring buffer
  that grows by its initial size; \<open>fifo\<close> is the contract its clients rely on.
\<close>

locale fifo =
  fixes empty :: "'q" and push :: "'q \<Rightarrow> 'a \<Rightarrow> 'q option" and pop :: "'q \<Rightarrow> ('a \<times> 'q) option"
    and nil :: 'a and items :: "'q \<Rightarrow> 'a list" and inv :: "'q \<Rightarrow> bool"
  assumes inv_empty: "inv empty"
    and items_empty: "items empty = []"
    and push_spec: "inv q \<Longrightarrow> \<exists>q'. push q x = Some q' \<and> inv q' \<and> items q' = items q @ [x]"
    and pop_nil: "inv q \<Longrightarrow> items q = [] \<Longrightarrow> pop q = Some (nil, q)"
    and pop_spec: "inv q \<Longrightarrow> items q = x # xs \<Longrightarrow> \<exists>q'. pop q = Some (x, q') \<and> inv q' \<and> items q' = xs"
begin

fun push_all :: "'q \<Rightarrow> 'a list \<Rightarrow> 'q option" where
  "push_all q [] = Some q"
| "push_all q (x # xs) = do { q' \<leftarrow> push q x; push_all q' xs }"

fun pop_n :: "'q \<Rightarrow> nat \<Rightarrow> ('a list \<times> 'q) option" where
  "pop_n q 0 = Some ([], q)"
| "pop_n q (Suc n) = do { (x, q') \<leftarrow> pop q; (xs, q'') \<leftarrow> pop_n q' n; Some (x # xs, q'') }"

lemma push_all_spec: "inv q \<Longrightarrow> \<exists>q'. push_all q xs = Some q' \<and> inv q' \<and> items q' = items q @ xs"
proof (induction xs arbitrary: q)
  case (Cons x xs)
  obtain q1 where "push q x = Some q1" "inv q1" "items q1 = items q @ [x]"
    using push_spec[OF Cons.prems, of x] by blast
  with Cons.IH[of q1] show ?case by auto
qed simp

lemma pop_n_spec: "inv q \<Longrightarrow> n \<le> length (items q) \<Longrightarrow>
  \<exists>q'. pop_n q n = Some (take n (items q), q') \<and> inv q' \<and> items q' = drop n (items q)"
proof (induction n arbitrary: q)
  case (Suc n)
  then obtain x xs where i: "items q = x # xs" by (cases "items q") auto
  obtain q1 where "pop q = Some (x, q1)" "inv q1" "items q1 = xs"
    using pop_spec[OF Suc.prems(1) i] by blast
  with Suc.IH[of q1] Suc.prems(2) i show ?case by auto
qed simp

text \<open>First in, first out.\<close>

lemma fifo_order: "inv q \<Longrightarrow> items q = [] \<Longrightarrow>
  \<exists>q' q''. push_all q xs = Some q' \<and> pop_n q' (length xs) = Some (xs, q'') \<and> items q'' = []"
proof -
  assume "inv q" "items q = []"
  then obtain q' where q': "push_all q xs = Some q'" "inv q'" "items q' = xs"
    using push_all_spec[of q xs] by auto
  then obtain q'' where "pop_n q' (length xs) = Some (xs, q'')" "items q'' = []"
    using pop_n_spec[of q' "length xs"] by auto
  with q'(1) show ?thesis by blast
qed

end

subsection \<open>The ring buffer\<close>

record 'a queue =
  itm :: "'a option list"
  q_size :: int
  q_head :: int
  q_tail :: int
  q_count :: int

definition NewQueue :: "int \<Rightarrow> 'a queue" where
  "NewQueue sz0 = (let sz = (if sz0 < 5 then 5 else sz0)
     in \<lparr>itm = replicate (nat sz) None, q_size = sz, q_head = 0, q_tail = 0, q_count = 0\<rparr>)"

text \<open>The reallocation: the two copies of \<^verbatim>\<open>Push\<close> put the ring in order at index 0.\<close>

definition queue_grow :: "'a queue \<Rightarrow> 'a queue option" where
  "queue_grow q = do {
     let n = int (length (itm q));
     u \<leftarrow> (if 0 \<le> n + q_size q then Some () else None);
     let new = replicate (nat (n + q_size q)) None;
     hi \<leftarrow> slice_sub (itm q) (q_head q) n;
     lo \<leftarrow> slice_sub (itm q) 0 (q_head q);
     u \<leftarrow> slice_sub new (n - q_head q) (int (length new));
     let new = slice_copy (slice_copy new 0 hi) (nat (n - q_head q)) lo;
     Some (q\<lparr>itm := new, q_head := 0, q_tail := n\<rparr>)
   }"

definition Push :: "'a queue \<Rightarrow> 'a option \<Rightarrow> 'a queue option" where
  "Push q val = do {
     q1 \<leftarrow> (if q_head q = q_tail q \<and> q_count q > 0 then queue_grow q else Some q);
     itm' \<leftarrow> slice_set (itm q1) (q_tail q1) val;
     let q2 = q1\<lparr>itm := itm'\<rparr>;
     Some (q2\<lparr>q_tail := go_mod (q_tail q2 + 1) (int (length (itm q2))), q_count := q_count q2 + 1\<rparr>)
   }"

definition EnQueue :: "'a queue \<Rightarrow> 'a option \<Rightarrow> 'a queue option" where
  "EnQueue q val = Push q val"

definition Pop :: "'a queue \<Rightarrow> ('a option \<times> 'a queue) option" where
  "Pop q =
     (if q_count q = 0 then Some (None, q)
      else do {
        val \<leftarrow> slice_get (itm q) (q_head q);
        Some (val, q\<lparr>q_head := go_mod (q_head q + 1) (int (length (itm q))), q_count := q_count q - 1\<rparr>)
      })"

definition DeQueue :: "'a queue \<Rightarrow> ('a option \<times> 'a queue) option" where
  "DeQueue q = Pop q"

text \<open>The invariant: indices in range, and the tail is \<open>count\<close> slots after the head.\<close>

definition queue_ok :: "'a queue \<Rightarrow> bool" where
  "queue_ok q \<longleftrightarrow> (let n = int (length (itm q)) in
     0 < q_size q \<and> 0 < n \<and> 0 \<le> q_head q \<and> q_head q < n \<and> 0 \<le> q_count q \<and> q_count q \<le> n \<and>
     q_tail q = (q_head q + q_count q) mod n)"

definition queue_items :: "'a queue \<Rightarrow> 'a option list" where
  "queue_items q = map (\<lambda>i. itm q ! nat ((q_head q + int i) mod int (length (itm q)))) [0..<nat (q_count q)]"

lemma slice_copy_0: "length src \<le> length s \<Longrightarrow> slice_copy s 0 src = src @ drop (length src) s"
  by (simp add: slice_copy_def)

lemma mod_distinct: "i < c \<Longrightarrow> c - i < n \<Longrightarrow> (a + i) mod n \<noteq> (a + c) mod (n :: int)"
proof
  assume lt: "i < c" "c - i < n" and eq: "(a + i) mod n = (a + c) mod n"
  have "n dvd (a + c) - (a + i)" using eq[symmetric] by (rule mod_eq_dvd_iff[THEN iffD1])
  also have "(a + c) - (a + i) = c - i" by linarith
  finally have d: "n dvd c - i" .
  have "n \<le> c - i" by (rule zdvd_imp_le[OF d]) (use lt(1) in linarith)
  then show False using lt(2) by linarith
qed

lemma queue_grow_spec:
  assumes "queue_ok q" "q_head q = q_tail q" "q_count q > 0"
  shows "\<exists>q'. queue_grow q = Some q' \<and> queue_ok q' \<and> queue_items q' = queue_items q \<and>
    q_count q' = q_count q \<and> q_count q' < int (length (itm q'))"
proof -
  define n where "n = int (length (itm q))"
  have q: "0 < q_size q" "0 < n" "0 \<le> q_head q" "q_head q < n" "q_count q \<le> n"
    "q_tail q = (q_head q + q_count q) mod n"
    using assms(1) by (auto simp: queue_ok_def n_def Let_def)
  have full: "q_count q = n"
  proof (rule ccontr)
    assume "q_count q \<noteq> n"
    then have lt: "q_count q < n" using q(5) by simp
    have "(q_head q + q_count q) mod n \<noteq> q_head q mod n"
      using mod_distinct[of 0 "q_count q" n "q_head q"] assms(3) lt by auto
    moreover have "q_head q mod n = q_head q" using q(3,4) by (simp add: mod_pos_pos_trivial)
    ultimately show False using q(6) assms(2) by metis
  qed
  define h where "h = nat (q_head q)"
  have h: "q_head q = int h" "h < length (itm q)" using q by (auto simp: h_def n_def)
  let ?rot = "drop h (itm q) @ take h (itm q)"
  let ?q' = "q\<lparr>itm := ?rot @ replicate (nat (q_size q)) None, q_head := 0, q_tail := n\<rparr>"
  have "queue_grow q = Some ?q'"
    using q h by (auto simp: queue_grow_def Let_def slice_sub_def slice_copy_def n_def nat_add_distrib
        replicate_add[symmetric] nat_diff_distrib)
  moreover have "queue_ok ?q'" using q full by (auto simp: queue_ok_def Let_def n_def)
  moreover have "queue_items ?q' = queue_items q"
  proof -
    have "(?rot @ replicate (nat (q_size q)) None) ! nat (int i mod (n + q_size q)) =
        itm q ! nat ((q_head q + int i) mod n)" if "i < length (itm q)" for i
    proof -
      have 1: "nat (int i mod (n + q_size q)) = i"
        using that q by (simp add: n_def)
      have 2: "nat ((q_head q + int i) mod n) = (h + i) mod length (itm q)"
        unfolding h(1) n_def by (metis nat_int of_nat_add zmod_int)
      have "(h + i) mod length (itm q) = (if h + i < length (itm q) then h + i else h + i - length (itm q))"
        using h(2) that by (simp add: mod_if)
      then show ?thesis unfolding 1 2 using h(2) that by (auto simp: nth_append add.commute)
    qed
    then show ?thesis using full q h by (simp add: queue_items_def n_def)
  qed
  ultimately show ?thesis using full q by (intro exI[of _ ?q']) (auto simp: n_def)
qed

lemma Push_spec:
  assumes "queue_ok q"
  shows "\<exists>q'. Push q x = Some q' \<and> queue_ok q' \<and> queue_items q' = queue_items q @ [x]"
proof -
  obtain q1 where q1: "(if q_head q = q_tail q \<and> q_count q > 0 then queue_grow q else Some q) = Some q1"
    "queue_ok q1" "queue_items q1 = queue_items q" "q_count q1 < int (length (itm q1))"
  proof (cases "q_head q = q_tail q \<and> q_count q > 0")
    case True
    with queue_grow_spec[OF assms] that show ?thesis by auto
  next
    case False
    have "q_count q \<noteq> int (length (itm q))"
      using False assms by (auto simp: queue_ok_def Let_def)
    then show ?thesis using False assms that[of q] by (auto simp: queue_ok_def Let_def)
  qed
  define n where "n = int (length (itm q1))"
  have q: "0 < q_size q1" "0 < n" "0 \<le> q_head q1" "q_head q1 < n" "0 \<le> q_count q1" "q_count q1 < n"
    "q_tail q1 = (q_head q1 + q_count q1) mod n"
    using q1(2,4) by (auto simp: queue_ok_def n_def Let_def)
  have tail: "0 \<le> q_tail q1" "q_tail q1 < n" using q by simp_all
  let ?itm = "(itm q1)[nat (q_tail q1) := x]"
  let ?q' = "q1\<lparr>itm := ?itm, q_tail := (q_tail q1 + 1) mod n, q_count := q_count q1 + 1\<rparr>"
  have "Push q x = Some ?q'"
    unfolding Push_def q1(1) using tail by (simp add: slice_set_def n_def)
  moreover have "queue_ok ?q'"
    using q by (auto simp: queue_ok_def Let_def n_def mod_simps add.assoc)
  moreover have "queue_items ?q' = queue_items q1 @ [x]"
  proof -
    have "(q_head q1 + int i) mod n \<noteq> q_tail q1" if "i < nat (q_count q1)" for i
      using that q(5,6) mod_distinct[of "int i" "q_count q1" n "q_head q1"] unfolding q(7) by simp
    then have "?itm ! nat ((q_head q1 + int i) mod n) = itm q1 ! nat ((q_head q1 + int i) mod n)"
      if "i < nat (q_count q1)" for i
      using that q tail by (subst nth_list_update_neq) (auto simp: nat_eq_iff2)
    then have "map (\<lambda>i. ?itm ! nat ((q_head q1 + int i) mod n)) [0..<nat (q_count q1)] = queue_items q1"
      by (simp add: queue_items_def n_def)
    moreover have "nat (q_count q1 + 1) = Suc (nat (q_count q1))" using q by simp
    moreover have "?itm ! nat ((q_head q1 + q_count q1) mod n) = x"
      using q tail by (simp add: n_def nat_less_iff)
    ultimately show ?thesis using q by (simp add: queue_items_def n_def)
  qed
  ultimately show ?thesis using q1(3) by auto
qed

lemma Pop_spec:
  assumes "queue_ok q" "queue_items q = x # xs"
  shows "\<exists>q'. Pop q = Some (x, q') \<and> queue_ok q' \<and> queue_items q' = xs"
proof -
  define n where "n = int (length (itm q))"
  have q: "0 < q_size q" "0 < n" "0 \<le> q_head q" "q_head q < n" "0 \<le> q_count q" "q_count q \<le> n"
    "q_tail q = (q_head q + q_count q) mod n"
    using assms(1) by (auto simp: queue_ok_def n_def Let_def)
  have pos: "0 < q_count q" using assms(2) by (auto simp: queue_items_def intro: ccontr)
  define c where "c = nat (q_count q - 1)"
  have c: "nat (q_count q) = Suc c" "q_count q = int c + 1" using pos by (auto simp: c_def)
  have items: "queue_items q = itm q ! nat (q_head q) #
      map (\<lambda>i. itm q ! nat ((q_head q + 1 + int i) mod n)) [0..<c]"
    using q unfolding queue_items_def c(1) n_def[symmetric]
    by (simp add: upt_conv_Cons map_Suc_upt[symmetric] comp_def add.assoc del: upt_Suc map_Suc_upt)
  let ?q' = "q\<lparr>q_head := (q_head q + 1) mod n, q_count := q_count q - 1\<rparr>"
  have "Pop q = Some (itm q ! nat (q_head q), ?q')"
    using pos q by (simp add: Pop_def slice_get_def n_def)
  moreover have "queue_ok ?q'" using q pos by (auto simp: queue_ok_def Let_def n_def mod_simps)
  moreover have "queue_items ?q' = map (\<lambda>i. itm q ! nat ((q_head q + 1 + int i) mod n)) [0..<c]"
    using c by (simp add: queue_items_def n_def mod_simps)
  ultimately show ?thesis using assms(2) items by auto
qed

lemma NewQueue_ok: "queue_ok (NewQueue sz)" "queue_items (NewQueue sz) = []"
  by (auto simp: queue_ok_def NewQueue_def queue_items_def Let_def)

interpretation ring: fifo "NewQueue sz" Push Pop None queue_items queue_ok
proof unfold_locales
  fix q :: "'a queue" assume "queue_ok q" "queue_items q = []"
  then show "Pop q = Some (None, q)" by (auto simp: Pop_def queue_items_def queue_ok_def Let_def)
qed (auto simp: NewQueue_ok Push_spec Pop_spec)

text \<open>C11: The queue is first in, first out, whatever the initial size and however often it grows:
  pushing any list onto a new queue succeeds, popping as many times returns the list in order
  and leaves the queue empty, and one more Pop returns nil.\<close>

theorem queue_fifo:
  "\<exists>q q'. ring.push_all (NewQueue sz) xs = Some q \<and> ring.pop_n q (length xs) = Some (xs, q') \<and>
     queue_items q' = [] \<and> queue_items q = xs"
proof -
  obtain q where q: "ring.push_all (NewQueue sz) xs = Some q" "queue_ok q" "queue_items q = xs"
    using ring.push_all_spec[of "NewQueue sz" xs] NewQueue_ok by (metis append_Nil)
  then show ?thesis using ring.pop_n_spec[of q "length xs"] by auto
qed

text \<open>Push and Pop on any reachable state of the ring buffer: Push appends to the contents and
  keeps the invariant, also when it reallocates in the middle of a wrapped ring; Pop takes the
  oldest element.\<close>

theorem queue_ops:
  assumes "queue_ok q"
  shows "(\<exists>q'. Push q x = Some q' \<and> queue_ok q' \<and> queue_items q' = queue_items q @ [x]) \<and>
     (\<exists>q'. Pop q = Some (case queue_items q of [] \<Rightarrow> None | y # ys \<Rightarrow> y, q') \<and> queue_ok q' \<and>
        queue_items q' = tl (queue_items q))"
proof
  show "\<exists>q'. Push q x = Some q' \<and> queue_ok q' \<and> queue_items q' = queue_items q @ [x]"
    by (rule Push_spec[OF assms])
  show "\<exists>q'. Pop q = Some (case queue_items q of [] \<Rightarrow> None | y # ys \<Rightarrow> y, q') \<and> queue_ok q' \<and>
      queue_items q' = tl (queue_items q)"
    using ring.pop_nil[OF assms] Pop_spec[OF assms] assms by (cases "queue_items q") auto
qed

definition full_ring :: "int queue" where
  "full_ring = \<lparr>itm = [Some 1, Some 2, Some 3], q_size = 3, q_head = 1, q_tail = 1, q_count = 3\<rparr>"

lemma full_ring_ok: "queue_ok full_ring" "queue_items full_ring = [Some 2, Some 3, Some 1]"
  by (simp_all add: full_ring_def queue_ok_def queue_items_def upt_rec)

lemma queue_ops_witness:
  "\<exists>q'. Push full_ring (Some 4) = Some q' \<and> queue_items q' = [Some 2, Some 3, Some 1, Some 4]"
  using queue_ops[OF full_ring_ok(1), of "Some 4"] by (auto simp: full_ring_ok(2))

subsection \<open>The stack\<close>

type_synonym stack = "string list"

definition Push_s :: "stack \<Rightarrow> string \<Rightarrow> stack" where
  "Push_s s v = s @ [v]"

definition Len_s :: "stack \<Rightarrow> int" where
  "Len_s s = int (length s)"

definition Pop_s :: "stack \<Rightarrow> (string \<times> stack) option" where
  "Pop_s s = do {
     ret \<leftarrow> slice_get s (int (length s) - 1);
     s' \<leftarrow> slice_sub s 0 (int (length s) - 1);
     Some (ret, s') }"

definition Last_s :: "stack \<Rightarrow> string option" where
  "Last_s s = slice_get s (int (length s) - 1)"

text \<open>The verb \<^verbatim>\<open>%-3v\<close>: padded on the right to width 3.\<close>

definition pad3 :: "string \<Rightarrow> string" where
  "pad3 s = s @ replicate (3 - length s) (CHR '' '')"

fun StringExt_from :: "bool \<Rightarrow> stack \<Rightarrow> string \<Rightarrow> string" where
  "StringExt_from leafOnly [] ret = ret"
| "StringExt_from leafOnly (x # xs) ret = StringExt_from leafOnly xs
     (if leafOnly then (if xs = [] then ret @ ''/'' @ pad3 x else ret @ '' '' @ pad3 [])
      else ret @ ''/'' @ pad3 x)"

definition StringExt :: "stack \<Rightarrow> bool \<Rightarrow> string" where
  "StringExt s leafOnly = StringExt_from leafOnly s []"

definition String_s :: "stack \<Rightarrow> string" where
  "String_s s = StringExt s False"

lemma StringExt_from_path: "StringExt_from False s ret = ret @ concat (map (\<lambda>x. ''/'' @ pad3 x) s)"
  by (induction s arbitrary: ret) auto

lemma StringExt_from_leaf: "s \<noteq> [] \<Longrightarrow>
   StringExt_from True s ret = ret @ replicate (4 * (length s - 1)) (CHR '' '') @ ''/'' @ pad3 (last s)"
proof (induction s arbitrary: ret)
  case (Cons x xs)
  then show ?case
    by (cases xs) (auto simp: pad3_def numeral_eq_Suc replicate_app_Cons_same)
qed simp

text \<open>The stack is last in, first out: Pop after Push returns the pushed value and the old
  stack, Last reads it without popping, Pop and Last of an empty stack panic; and the two string
  forms are the slash-separated path and the indented leaf.\<close>

theorem stack_lifo:
  "Pop_s (Push_s s v) = Some (v, s) \<and> Last_s (Push_s s v) = Some v \<and>
   Len_s (Push_s s v) = Len_s s + 1 \<and> (Pop_s s = None) = (Len_s s = 0) \<and> (Last_s s = None) = (Len_s s = 0) \<and>
   String_s s = concat (map (\<lambda>x. ''/'' @ pad3 x) s) \<and>
   StringExt (Push_s s v) True = replicate (4 * length s) (CHR '' '') @ ''/'' @ pad3 v"
proof -
  have "Pop_s (Push_s s v) = Some (v, s)" "Last_s (Push_s s v) = Some v" "Len_s (Push_s s v) = Len_s s + 1"
    by (simp_all add: Pop_s_def Last_s_def Push_s_def Len_s_def slice_get_def slice_sub_def)
  moreover have "(Pop_s s = None) = (Len_s s = 0)" "(Last_s s = None) = (Len_s s = 0)"
    by (auto simp: Pop_s_def Last_s_def Len_s_def slice_get_def slice_sub_def bind_eq_None_iff)
  moreover have "String_s s = concat (map (\<lambda>x. ''/'' @ pad3 x) s)"
    by (simp add: String_s_def StringExt_def StringExt_from_path)
  moreover have "StringExt (Push_s s v) True = replicate (4 * length s) (CHR '' '') @ ''/'' @ pad3 v"
    by (simp add: StringExt_def StringExt_from_leaf Push_s_def)
  ultimately show ?thesis by blast
qed

end
