(* ===== verification/Util.thy ===== *)
theory Util
  imports Prelude "HOL-Library.Word" "HOL-Library.Multiset"
begin

section \<open>Package util: slices, numbers, counters\<close>

text \<open>
  Models \<^verbatim>\<open>util/slice-modify.go\<close>, \<^verbatim>\<open>util/util-numbers.go\<close>,
  \<^verbatim>\<open>util/int-seq-closure.go\<close> and the counter of \<^verbatim>\<open>util/int-seq-channel.go\<close>.
  The number functions are on 64-bit words, where \<^verbatim>\<open>-a\<close> can overflow. The slice
  functions return the result slice; what they leave in the backing array of the argument is not
  modelled.
\<close>

subsection \<open>Slices\<close>

definition InsertAfter :: "int list \<Rightarrow> int \<Rightarrow> int \<Rightarrow> int list option" where
  "InsertAfter s idx newVal =
     (if idx > int (length s) - 1 then None
      else do {
        let s1 = s @ [0];
        dst \<leftarrow> slice_sub s1 (idx + 2) (int (length s1));
        src \<leftarrow> slice_sub s1 (idx + 1) (int (length s1));
        let s2 = slice_copy s1 (nat (idx + 2)) src;
        slice_set s2 (idx + 1) newVal })"

definition DeleteAt :: "int list \<Rightarrow> int \<Rightarrow> int list option" where
  "DeleteAt s idx =
     (if idx > int (length s) - 1 then None
      else do {
        dst \<leftarrow> slice_sub s idx (int (length s));
        src \<leftarrow> slice_sub s (idx + 1) (int (length s));
        let s2 = slice_copy s (nat idx) src;
        slice_sub s2 0 (int (length s2) - 1) })"

fun StringSliceToMapKeys_from :: "string list \<Rightarrow> (string \<rightharpoonup> bool) \<Rightarrow> (string \<rightharpoonup> bool)" where
  "StringSliceToMapKeys_from [] ret = ret"
| "StringSliceToMapKeys_from (v # s) ret = StringSliceToMapKeys_from s (ret(v \<mapsto> True))"

definition StringSliceToMapKeys :: "string list \<Rightarrow> (string \<rightharpoonup> bool)" where
  "StringSliceToMapKeys s = StringSliceToMapKeys_from s Map.empty"

text \<open>The loop of \<^verbatim>\<open>Intslice2Int\<close>; products and sums wrap at 64 bits.\<close>

fun Intslice2Int_loop :: "64 word list \<Rightarrow> 64 word \<Rightarrow> 64 word \<Rightarrow> 64 word" where
  "Intslice2Int_loop [] f rv = rv"
| "Intslice2Int_loop (x # xs) f rv = Intslice2Int_loop xs (f * 100) (rv + x * f)"

text \<open>\<^verbatim>\<open>sort.Ints\<close> compares signed.\<close>

definition Intslice2Int :: "64 word list \<Rightarrow> 64 word option" where
  "Intslice2Int arg =
     (if length arg > 10 then None
      else Some (Intslice2Int_loop (sort_key sint arg) 1 0))"

fun IntsEqual_loop :: "int list \<Rightarrow> int list \<Rightarrow> bool" where
  "IntsEqual_loop (x # xs) (y # ys) = (if x \<noteq> y then False else IntsEqual_loop xs ys)"
| "IntsEqual_loop _ _ = True"

definition IntsEqualsInts :: "int list \<Rightarrow> int list \<Rightarrow> bool" where
  "IntsEqualsInts x y = (if length x \<noteq> length y then False else IntsEqual_loop x y)"

subsection \<open>Numbers\<close>

definition Abs_i :: "64 word \<Rightarrow> 64 word" where
  "Abs_i a = (if a <s 0 then - a else a)"

definition Min_i :: "64 word \<Rightarrow> 64 word \<Rightarrow> 64 word" where
  "Min_i x y = (if y <s x then y else x)"

definition Max_i :: "64 word \<Rightarrow> 64 word \<Rightarrow> 64 word" where
  "Max_i x y = (if y <s x then x else y)"

definition MaxAbs :: "64 word \<Rightarrow> 64 word \<Rightarrow> 64 word" where
  "MaxAbs x bound0 = (let bound = Abs_i bound0 in
     if 0 <s x then (if bound <s x then bound else x)
     else (if x <s - bound then - bound else x))"

text \<open>\<^verbatim>\<open>PrecomputePrimes\<close>; \<open>ProbablyPrime\<close> of math/big is a parameter.\<close>

fun PrecomputePrimes_loop :: "(int \<Rightarrow> bool) \<Rightarrow> int \<Rightarrow> nat \<Rightarrow> bool list \<Rightarrow> bool list option" where
  "PrecomputePrimes_loop pp i 0 ret = Some ret"
| "PrecomputePrimes_loop pp i (Suc n) ret = do {
     ret' \<leftarrow> (if pp i then slice_set ret i True else Some ret);
     PrecomputePrimes_loop pp (i + 1) n ret' }"

definition PrecomputePrimes :: "(int \<Rightarrow> bool) \<Rightarrow> int \<Rightarrow> bool list option" where
  "PrecomputePrimes pp howMany = do {
     u \<leftarrow> (if howMany - 1 < 0 then None else Some ());
     ret \<leftarrow> PrecomputePrimes_loop pp 0 (nat howMany) (replicate (nat (howMany - 1)) False);
     (if howMany > 1 then do { r1 \<leftarrow> slice_set ret 0 True; slice_set r1 1 True }
      else Some ret) }"

text \<open>\<^verbatim>\<open>Sqrt\<close>: the first loop shrinks \<^verbatim>\<open>p\<close>, the second builds the root.\<close>

lemma unat_shift_less: "(p :: 64 word) \<noteq> 0 \<Longrightarrow> unat (drop_bit 2 p) < unat p"
proof -
  assume "p \<noteq> 0"
  then have "0 < unat p" by (simp add: unat_gt_0)
  moreover have "unat (drop_bit 2 p) = unat p div 4"
    by (simp add: drop_bit_eq_div unat_div)
  ultimately show ?thesis by simp
qed

function sqrt_start :: "64 word \<Rightarrow> 64 word \<Rightarrow> 64 word" where
  "sqrt_start p t = (if p > t then sqrt_start (drop_bit 2 p) t else p)"
  by pat_completeness auto
termination sqrt_start
proof (relation "measure (\<lambda>(p, t). unat p)")
  fix p t :: "64 word" assume "t < p"
  then have "p \<noteq> 0" by auto
  then show "((drop_bit 2 p, t), p, t) \<in> measure (\<lambda>(p, t). unat p)"
    using unat_shift_less by simp
qed simp

function sqrt_loop :: "64 word \<Rightarrow> 64 word \<Rightarrow> 64 word \<Rightarrow> 64 word" where
  "sqrt_loop p t r =
     (if p = 0 then r
      else (let b = or r p; r1 = drop_bit 1 r in
        (if t \<ge> b then sqrt_loop (drop_bit 2 p) (t - b) (or r1 p)
         else sqrt_loop (drop_bit 2 p) t r1)))"
  by pat_completeness auto
termination sqrt_loop
  by (relation "measure (\<lambda>(p, t, r). unat p)")
     (simp_all only: wf_measure in_measure prod.case unat_shift_less not_False_eq_True)

definition Sqrt :: "64 word \<Rightarrow> 64 word" where
  "Sqrt n = sqrt_loop (sqrt_start (push_bit 30 1) n) n 0"

declare sqrt_start.simps [simp del] sqrt_loop.simps [simp del]

subsection \<open>Counters\<close>

text \<open>\<^verbatim>\<open>intSeq\<close>: a closure over \<^verbatim>\<open>i\<close>; calling it returns the value and the new
  \<^verbatim>\<open>i\<close>.\<close>

definition intSeq :: int where "intSeq = 0"

definition intSeq_call :: "int \<Rightarrow> int \<times> int" where
  "intSeq_call i = (i + 1, i + 1)"

text \<open>The goroutine behind \<^verbatim>\<open>Counter\<close> increments \<^verbatim>\<open>cntr\<close>, evaluates it and blocks on
  the unbuffered channel with that value; the handlers change \<^verbatim>\<open>cntr\<close> meanwhile.\<close>

record counter =
  cntr :: int
  sending :: int

definition counter_start :: counter where
  "counter_start = \<lparr>cntr = 0, sending = 0\<rparr>"

datatype counter_event = Receive int | Reset | Decrement

inductive counter_step :: "counter \<Rightarrow> counter_event \<Rightarrow> counter \<Rightarrow> bool" where
  receive: "counter_step c (Receive (sending c)) (c\<lparr>cntr := cntr c + 1, sending := cntr c + 1\<rparr>)"
| reset: "counter_step c Reset (c\<lparr>cntr := 0\<rparr>)"
| decrement: "counter_step c Decrement (c\<lparr>cntr := cntr c - 1\<rparr>)"

inductive_cases counter_stepE: "counter_step c e c'"

definition CounterLast :: "counter \<Rightarrow> int" where
  "CounterLast c = (let ret = cntr c - 1 in if ret < 0 then 0 else ret)"

inductive counter_run :: "counter \<Rightarrow> counter_event list \<Rightarrow> counter \<Rightarrow> bool" where
  nil: "counter_run c [] c"
| cons: "counter_step c e c' \<Longrightarrow> counter_run c' es c'' \<Longrightarrow> counter_run c (e # es) c''"

subsection \<open>The integer square root\<close>

lemma and_shifted: "b < 2 ^ m \<Longrightarrow> and (a * 2 ^ m) b = (0 :: nat)"
proof -
  assume "b < 2 ^ m"
  then have "b = take_bit m b" by (simp add: take_bit_nat_eq_self)
  then have "and (a * 2 ^ m) b = and (push_bit m a) (take_bit m b)" by (simp add: push_bit_eq_mult)
  also have "\<dots> = 0" by (rule bit_eqI) (auto simp: bit_simps)
  finally show ?thesis .
qed

lemma unat_or_add:
  fixes r p :: "64 word"
  assumes "unat r = a * 2 ^ m" "unat p < 2 ^ m" "unat r + unat p < 2 ^ 64"
  shows "unat (or r p) = unat r + unat p"
proof -
  have "unat (and r p) = 0" using and_shifted[OF assms(2), of a] assms(1) by (simp add: unsigned_and_eq)
  then have "and r p = 0" by (simp add: unat_eq_zero)
  then have "or r p = r + p" using word_plus_and_or[of r p] by simp
  then show ?thesis using assms(3) by (simp add: unat_word_ariths)
qed

lemma unat_half: "unat (drop_bit 1 (r :: 64 word)) = unat r div 2"
  by (simp add: drop_bit_eq_div unat_div)

lemma unat_quarter: "unat (drop_bit 2 (r :: 64 word)) = unat r div 4"
  by (simp add: drop_bit_eq_div unat_div)

text \<open>The power of four that a stage of the loops works on; \<open>quad 0\<close> is the exit.\<close>

definition quad :: "nat \<Rightarrow> nat" where
  "quad j = (if j = 0 then 0 else 4 ^ (j - 1))"

lemma quad_div: "quad (Suc j) div 4 = quad j"
  by (cases j) (simp_all add: quad_def)

lemma sqrt_start_quad:
  "unat p = quad j \<Longrightarrow> \<exists>i \<le> j. unat (sqrt_start p t) = quad i \<and> quad i \<le> unat t \<and>
     (i = j \<or> unat t < quad (Suc i))"
proof (induction j arbitrary: p)
  case 0
  then have "p = 0" by (simp add: quad_def unat_eq_zero)
  then show ?case by (simp add: sqrt_start.simps[of 0 t] quad_def)
next
  case (Suc j)
  show ?case
  proof (cases "p > t")
    case True
    have "unat (drop_bit 2 p) = quad j" unfolding unat_quarter Suc.prems by (rule quad_div)
    from Suc.IH[OF this] obtain i where i: "i \<le> j" "unat (sqrt_start (drop_bit 2 p) t) = quad i"
      "quad i \<le> unat t" "i = j \<or> unat t < quad (Suc i)" by blast
    moreover have "unat t < quad (Suc j)" using True Suc.prems by (simp add: word_less_nat_alt)
    moreover have "sqrt_start p t = sqrt_start (drop_bit 2 p) t"
      using True by (simp only: sqrt_start.simps[of p t] if_True)
    ultimately show ?thesis using le_SucI[of i j] by (metis)
  next
    case False
    then have "sqrt_start p t = p" by (simp only: sqrt_start.simps[of p t] if_False)
    with False Suc.prems show ?thesis by (auto simp: word_less_nat_alt not_less)
  qed
qed

text \<open>\<open>s\<close> is the part of the root found so far, a multiple of \<open>2 ^ j\<close>.\<close>

lemma sqrt_loop_root:
  assumes "unat p = quad j" "unat r = s * 2 ^ j" "s = a * 2 ^ j" "unat t = n - s\<^sup>2" "s\<^sup>2 \<le> n" "j \<le> 16"
    "s + 2 ^ j \<le> 65536" "n < 2 ^ 32 \<longrightarrow> n < (s + 2 ^ j)\<^sup>2" "2 ^ 32 \<le> n \<longrightarrow> s + 2 ^ j = 65536"
  shows "\<exists>x. unat (sqrt_loop p t r) = x \<and> x\<^sup>2 \<le> n \<and> x \<le> 65535 \<and>
     (n < 2 ^ 32 \<longrightarrow> n < (x + 1)\<^sup>2) \<and> (2 ^ 32 \<le> n \<longrightarrow> x = 65535)"
  using assms
proof (induction j arbitrary: p r s a t)
  case 0
  then have "p = 0" by (simp add: quad_def unat_eq_zero)
  with 0 show ?case by (simp add: sqrt_loop.simps[of 0 t r])
next
  case (Suc j)
  note pre = Suc.prems
  have p: "unat p = 4 ^ j" "p \<noteq> 0" using pre(1) by (auto simp: quad_def)
  have four: "(4::nat) ^ j = 2 ^ j * 2 ^ j" by (simp add: power_mult_distrib[symmetric])
  have r: "unat r = a * 2 ^ (2 * j + 2)" unfolding pre(2,3) mult.assoc power_add[symmetric] by (simp add: mult_2)
  have j16: "(2::nat) ^ Suc j \<le> 2 ^ 16" using pre(6) by (intro power_increasing) auto
  have s16: "s \<le> 65536" using pre(7) by simp
  have "s * 2 ^ Suc j \<le> 65536 * 65536" using s16 j16 by (intro mult_mono) auto
  moreover have p16: "(4::nat) ^ j \<le> 65536 * 65536"
    unfolding four using j16 by (intro mult_mono) auto
  ultimately have small: "unat r + unat p < 2 ^ 64" using pre(2) p(1) by simp
  have b: "unat (or r p) = s * 2 ^ Suc j + 4 ^ j"
    using unat_or_add[OF r _ small] p(1) pre(2) four by (simp add: power_add mult_2)
  have half: "unat (drop_bit 1 r) = s * 2 ^ j" unfolding unat_half pre(2) by simp
  have quarter: "unat (drop_bit 2 p) = quad j" unfolding unat_quarter pre(1) by (rule quad_div)
  have sq: "(s + 2 ^ j)\<^sup>2 = s\<^sup>2 + (s * 2 ^ Suc j + 4 ^ j)"
    by (simp add: four power2_eq_square algebra_simps)
  show ?case
  proof (cases "or r p \<le> t")
    case True
    then have le: "s * 2 ^ Suc j + 4 ^ j \<le> n - s\<^sup>2" using b pre(4) by (simp add: word_le_nat_alt)
    define s' where "s' = s + 2 ^ j"
    have A: "unat (or (drop_bit 1 r) p) = s' * 2 ^ j"
    proof -
      have "unat (drop_bit 1 r) = a * 2 ^ (2 * j + 1)" unfolding half pre(3) mult.assoc power_add[symmetric] by (simp add: mult_2)
      moreover have "unat (drop_bit 1 r) + unat p < 2 ^ 64" using small half pre(2) by simp
      moreover have "unat p < 2 ^ (2 * j + 1)" unfolding p(1) by (simp add: power_mult)
      ultimately have "unat (or (drop_bit 1 r) p) = unat (drop_bit 1 r) + unat p"
        by (intro unat_or_add)
      then show ?thesis unfolding half p(1) four s'_def by (simp add: algebra_simps)
    qed
    have B: "s' = (2 * a + 1) * 2 ^ j" unfolding s'_def pre(3) by (simp add: algebra_simps)
    have C: "unat (t - or r p) = n - s'\<^sup>2"
      using True le b pre(4) unfolding s'_def sq by (simp add: unat_sub)
    have D: "s'\<^sup>2 \<le> n" unfolding s'_def sq using le pre(5) by simp
    have E: "s' + 2 ^ j = s + 2 ^ Suc j" by (simp add: s'_def)
    have "\<exists>x. unat (sqrt_loop (drop_bit 2 p) (t - or r p) (or (drop_bit 1 r) p)) = x \<and> x\<^sup>2 \<le> n \<and>
        x \<le> 65535 \<and> (n < 2 ^ 32 \<longrightarrow> n < (x + 1)\<^sup>2) \<and> (2 ^ 32 \<le> n \<longrightarrow> x = 65535)"
      by (rule Suc.IH[OF quarter A B C D]; (unfold E)?) (use pre(6-9) in simp_all)
    moreover have "sqrt_loop p t r = sqrt_loop (drop_bit 2 p) (t - or r p) (or (drop_bit 1 r) p)"
      unfolding sqrt_loop.simps[of p t r] Let_def using True p(2) by (simp only: if_True if_False)
    ultimately show ?thesis by simp
  next
    case False
    then have gt: "n < (s + 2 ^ j)\<^sup>2" using b pre(4,5) unfolding sq by (simp add: word_le_nat_alt)
    have n32: "n < 2 ^ 32"
    proof (rule ccontr)
      assume "\<not> n < 2 ^ 32"
      then have "s + 2 ^ j \<le> 65536" using pre(7) by simp
      then have "(s + 2 ^ j)\<^sup>2 \<le> 65536\<^sup>2" by (rule power_mono) simp
      with gt \<open>\<not> n < 2 ^ 32\<close> show False by simp
    qed
    have "\<exists>x. unat (sqrt_loop (drop_bit 2 p) t (drop_bit 1 r)) = x \<and> x\<^sup>2 \<le> n \<and>
        x \<le> 65535 \<and> (n < 2 ^ 32 \<longrightarrow> n < (x + 1)\<^sup>2) \<and> (2 ^ 32 \<le> n \<longrightarrow> x = 65535)"
      using pre(3-7) quarter half gt n32 by (intro Suc.IH[where s = s and a = "2 * a"]) auto
    moreover have "sqrt_loop p t r = sqrt_loop (drop_bit 2 p) t (drop_bit 1 r)"
      unfolding sqrt_loop.simps[of p t r] Let_def using False p(2) by (simp only: if_True if_False)
    ultimately show ?thesis by simp
  qed
qed

subsection \<open>Slices and the int key\<close>

lemma InsertAfter_spec: "InsertAfter s idx v =
   (if -1 \<le> idx \<and> idx < int (length s)
    then Some (take (nat (idx + 1)) s @ v # drop (nat (idx + 1)) s) else None)"
proof (cases "-1 \<le> idx \<and> idx < int (length s)")
  case True
  define n where "n = nat (idx + 1)"
  have n: "idx = int n - 1" "n \<le> length s" using True by (auto simp: n_def)
  have "nat (1 + int n) = Suc n" by simp
  then show ?thesis
    using True n by (auto simp: InsertAfter_def Let_def slice_sub_def slice_copy_def slice_set_def
        list_update_append take_Suc_conv_app_nth min_def upd_conv_take_nth_drop)
next
  case False
  then show ?thesis by (auto simp: InsertAfter_def slice_sub_def Let_def)
qed

lemma DeleteAt_spec: "DeleteAt s idx =
   (if 0 \<le> idx \<and> idx < int (length s) then Some (take (nat idx) s @ drop (nat idx + 1) s) else None)"
proof (cases "0 \<le> idx \<and> idx < int (length s)")
  case True
  define n where "n = nat idx"
  have "idx = int n" "n < length s" using True by (auto simp: n_def)
  then show ?thesis
    by (auto simp: DeleteAt_def Let_def slice_sub_def slice_copy_def nat_diff_distrib min_def nat_add_distrib)
next
  case False
  then show ?thesis by (auto simp: DeleteAt_def slice_sub_def Let_def)
qed

fun base100 :: "nat list \<Rightarrow> nat" where
  "base100 [] = 0"
| "base100 (x # xs) = x + 100 * base100 xs"

lemma base100_inj: "length xs = length ys \<Longrightarrow> \<forall>x\<in>set xs. x < 100 \<Longrightarrow> \<forall>y\<in>set ys. y < 100 \<Longrightarrow>
   base100 xs = base100 ys \<Longrightarrow> xs = ys"
proof (induction xs ys rule: list_induct2)
  case (Cons x xs y ys)
  have "(x + 100 * base100 xs) mod 100 = (y + 100 * base100 ys) mod 100" using Cons.prems(3) by simp
  then have "x = y" using Cons.prems(1,2) by simp
  with Cons show ?case by simp
qed simp

lemma Intslice2Int_loop_base100:
  "\<forall>x\<in>set xs. unat x < 100 \<Longrightarrow> unat f = 100 ^ k \<Longrightarrow> unat rv < 100 ^ k \<Longrightarrow> k + length xs \<le> 9 \<Longrightarrow>
   unat (Intslice2Int_loop xs f rv) = unat rv + 100 ^ k * base100 (map unat xs)"
proof (induction xs arbitrary: f rv k)
  case (Cons x xs)
  have "(100 :: nat) ^ Suc k \<le> 100 ^ 9" using Cons.prems(4) by (intro power_increasing) auto
  then have k: "(100 :: nat) ^ k * 100 < 2 ^ 64" by simp
  have "unat x * 100 ^ k \<le> 99 * 100 ^ k" using Cons.prems(1) by (intro mult_right_mono) auto
  then have x: "unat rv + unat x * 100 ^ k < 100 ^ k * 100" using Cons.prems(3) by linarith
  have f': "unat (f * 100) = 100 ^ Suc k"
    using k Cons.prems(2) by (simp add: unat_word_ariths)
  have rv': "unat (rv + x * f) = unat rv + unat x * 100 ^ k"
    using k x Cons.prems(2) by (simp add: unat_word_ariths)
  have "unat (Intslice2Int_loop xs (f * 100) (rv + x * f)) =
      unat (rv + x * f) + 100 ^ Suc k * base100 (map unat xs)"
    by (rule Cons.IH) (use Cons.prems(1,4) f' x rv' in auto)
  then show ?case unfolding rv' by (simp add: algebra_simps)
qed simp

lemma sort_key_sint_mset: "mset xs = mset ys \<Longrightarrow> sort_key sint xs = sort_key sint (ys :: 64 word list)"
proof -
  assume m: "mset xs = mset ys"
  have "sort (map sint xs) = map sint (sort_key sint xs)" for xs :: "64 word list"
    by (rule properties_for_sort) simp_all
  moreover have "sort (map sint xs) = sort (map sint ys)"
    using m by (intro properties_for_sort) simp_all
  ultimately have "map sint (sort_key sint xs) = map sint (sort_key sint ys)" by metis
  then show ?thesis by (rule map_injective) (auto intro: injI)
qed

lemma PrecomputePrimes_loop_spec:
  "0 \<le> i \<Longrightarrow> i + int n \<le> int (length ret) \<Longrightarrow> PrecomputePrimes_loop pp i n ret =
     Some (map (\<lambda>j. ret ! j \<or> (i \<le> int j \<and> int j < i + int n \<and> pp (int j))) [0..<length ret])"
proof (induction n arbitrary: i ret)
  case 0
  have "map (\<lambda>j. ret ! j \<or> (i \<le> int j \<and> int j < i + int 0 \<and> pp (int j))) [0..<length ret] =
      map (\<lambda>j. ret ! j) [0..<length ret]"
    by (intro map_cong) auto
  then show ?case by (simp only: map_nth PrecomputePrimes_loop.simps)
next
  case (Suc n)
  obtain k where k: "i = int k" using Suc.prems(1) nonneg_int_cases by blast
  let ?ret = "if pp i then ret[k := True] else ret"
  have "PrecomputePrimes_loop pp i (Suc n) ret = PrecomputePrimes_loop pp (i + 1) n ?ret"
    using Suc.prems k by simp
  also have "\<dots> = Some (map (\<lambda>j. ?ret ! j \<or> (i + 1 \<le> int j \<and> int j < i + 1 + int n \<and> pp (int j))) [0..<length ?ret])"
    using Suc.prems by (intro Suc.IH) auto
  also have "\<dots> = Some (map (\<lambda>j. ret ! j \<or> (i \<le> int j \<and> int j < i + int (Suc n) \<and> pp (int j))) [0..<length ret])"
  proof (intro arg_cong[where f = Some] nth_equalityI)
    fix j assume "j < length (map (\<lambda>j. ?ret ! j \<or> (i + 1 \<le> int j \<and> int j < i + 1 + int n \<and> pp (int j))) [0..<length ?ret])"
    then have "j < length ret" by (simp split: if_splits)
    moreover have "k < length ret" using Suc.prems k by simp
    ultimately show "map (\<lambda>j. ?ret ! j \<or> (i + 1 \<le> int j \<and> int j < i + 1 + int n \<and> pp (int j))) [0..<length ?ret] ! j =
        map (\<lambda>j. ret ! j \<or> (i \<le> int j \<and> int j < i + int (Suc n) \<and> pp (int j))) [0..<length ret] ! j"
      using k by (cases "j = k") auto
  qed simp
  finally show ?case .
qed

lemma PrecomputePrimes_loop_append:
  "PrecomputePrimes_loop pp i (n + m) ret =
     Option.bind (PrecomputePrimes_loop pp i n ret) (PrecomputePrimes_loop pp (i + int n) m)"
proof (induction n arbitrary: i ret)
  case (Suc n)
  show ?case by (cases "pp i"; cases "slice_set ret i True") (simp_all add: Suc add.assoc)
qed simp

lemma PrecomputePrimes_spec:
  assumes "2 < howMany"
  shows "PrecomputePrimes pp howMany =
    (if pp (howMany - 1) then None
     else Some (map (\<lambda>j. j < 2 \<or> pp (int j)) [0..<nat (howMany - 1)]))"
proof -
  define n where "n = nat (howMany - 1)"
  have n: "howMany = int n + 1" "2 \<le> n" using assms by (auto simp: n_def)
  have len: "length (replicate n False) = n" by simp
  have "PrecomputePrimes_loop pp 0 (n + 1) (replicate n False) =
      (if pp (int n) then None else Some (map (\<lambda>j. pp (int j)) [0..<n]))"
    unfolding PrecomputePrimes_loop_append
    by (subst PrecomputePrimes_loop_spec) (auto simp: slice_set_def)
  moreover have "nat howMany = n + 1" "howMany - 1 = int n" using n by auto
  moreover have "(map (\<lambda>j. pp (int j)) [0..<n])[0 := True, 1 := True] = map (\<lambda>j. j < 2 \<or> pp (int j)) [0..<n]"
    using n(2) by (intro nth_equalityI) (auto simp: nth_list_update less_2_cases_iff)
  ultimately show ?thesis
    using n(2) by (simp add: PrecomputePrimes_def slice_set_def)
qed

lemma counter_run_receives:
  "counter_run c es c' \<Longrightarrow> \<forall>e\<in>set es. \<exists>v. e = Receive v \<Longrightarrow> sending c = cntr c \<Longrightarrow>
   es = map (\<lambda>i. Receive (cntr c + int i)) [0..<length es] \<and> cntr c' = cntr c + int (length es) \<and>
   sending c' = cntr c'"
proof (induction rule: counter_run.induct)
  case (cons c e c' es c'')
  from cons.prems(1) obtain v where v: "e = Receive v" by auto
  with cons.hyps(1) have c': "v = cntr c" "cntr c' = cntr c + 1" "sending c' = cntr c'"
    using cons.prems(2) by (auto elim: counter_stepE)
  from cons.IH cons.prems(1) c'(3)
  have IH: "es = map (\<lambda>i. Receive (cntr c' + int i)) [0..<length es]" "cntr c'' = cntr c' + int (length es)"
    "sending c'' = cntr c''" by auto
  have "e # es = map (\<lambda>i. Receive (cntr c + int i)) (0 # map Suc [0..<length es])"
    using v c' by (subst IH(1)) (simp add: comp_def ac_simps)
  also have "0 # map Suc [0..<length es] = [0..<length (e # es)]"
    by (simp add: map_Suc_upt upt_conv_Cons del: upt_Suc)
  finally show ?case using IH(2,3) c' by simp
qed simp

subsection \<open>Properties\<close>

text \<open>Sqrt computes the integer square root of every n below 2^32, and returns 65535 for all
  larger arguments, negative ones (read as unsigned) included. All arithmetic on 64-bit words.\<close>

theorem sqrt_floor:
  "\<exists>x. unat (Sqrt n) = x \<and>
     (if unat n < 2 ^ 32 then x\<^sup>2 \<le> unat n \<and> unat n < (x + 1)\<^sup>2 else x = 65535)"
proof -
  have "unat (push_bit 30 (1 :: 64 word)) = quad 16" by (simp add: quad_def)
  from sqrt_start_quad[OF this, of n] obtain i where i: "i \<le> 16"
    "unat (sqrt_start (push_bit 30 1) n) = quad i" "quad i \<le> unat n" "i = 16 \<or> unat n < quad (Suc i)" by blast
  have four: "(2 ^ i)\<^sup>2 = (4 :: nat) ^ i" by (simp add: power_mult[symmetric] mult.commute[of i] power_mult)
  have two: "(2 :: nat) ^ i \<le> 2 ^ 16" using i(1) by (intro power_increasing) auto
  have lt: "unat n < 2 ^ 32 \<longrightarrow> unat n < (0 + 2 ^ i)\<^sup>2"
    using i(4) unfolding add_0 four by (auto simp: quad_def)
  have ge: "2 ^ 32 \<le> unat n \<longrightarrow> 0 + 2 ^ i = (65536 :: nat)"
  proof
    assume "2 ^ 32 \<le> unat n"
    moreover have "(4 :: nat) ^ i \<le> 4 ^ 16" using i(1) by (intro power_increasing) auto
    ultimately have "i = 16" using i(4) by (auto simp: quad_def)
    then show "0 + 2 ^ i = (65536 :: nat)" by simp
  qed
  have "\<exists>x. unat (sqrt_loop (sqrt_start (push_bit 30 1) n) n 0) = x \<and> x\<^sup>2 \<le> unat n \<and> x \<le> 65535 \<and>
      (unat n < 2 ^ 32 \<longrightarrow> unat n < (x + 1)\<^sup>2) \<and> (2 ^ 32 \<le> unat n \<longrightarrow> x = 65535)"
    using two by (intro sqrt_loop_root[OF i(2) _ _ _ _ i(1) _ lt ge, of 0 0]) auto
  then show ?thesis by (auto simp: Sqrt_def)
qed

text \<open>InsertAfter inserts behind position idx (-1 inserts in front) and panics for every other
  index; Delete removes exactly position idx and panics out of range; each undoes the other.\<close>

theorem slice_modify:
  "InsertAfter s idx v = (if -1 \<le> idx \<and> idx < int (length s)
     then Some (take (nat (idx + 1)) s @ v # drop (nat (idx + 1)) s) else None) \<and>
   DeleteAt s idx = (if 0 \<le> idx \<and> idx < int (length s)
     then Some (take (nat idx) s @ drop (nat idx + 1) s) else None) \<and>
   Option.bind (InsertAfter s idx v) (\<lambda>s'. DeleteAt s' (idx + 1)) =
     (if -1 \<le> idx \<and> idx < int (length s) then Some s else None)"
  by (auto simp: InsertAfter_spec DeleteAt_spec min_def nat_add_distrib)

text \<open>Intslice2Int is a key for multisets: two slices of the same length, at most nine numbers
  between 0 and 99, get the same int exactly if they are permutations of each other; no wrap-around
  happens there. More than ten numbers panic.\<close>

theorem intslice_key:
  assumes "length xs = length ys" "length xs \<le> 9" "\<forall>x\<in>set xs. unat x < 100" "\<forall>y\<in>set ys. unat y < 100"
  shows "Intslice2Int xs \<noteq> None \<and> (Intslice2Int xs = Intslice2Int ys \<longleftrightarrow> mset xs = mset ys)"
proof -
  let ?v = "\<lambda>xs. Intslice2Int_loop (sort_key sint xs) 1 0"
  have val: "unat (?v zs) = base100 (map unat (sort_key sint zs))"
    if "length zs \<le> 9" "\<forall>x\<in>set zs. unat x < 100" for zs
    using Intslice2Int_loop_base100[of "sort_key sint zs" 1 0 0] that by simp
  have "mset xs = mset ys" if "?v xs = ?v ys"
  proof -
    have "base100 (map unat (sort_key sint xs)) = base100 (map unat (sort_key sint ys))"
      using val[of xs] val[of ys] assms that by simp
    then have "map unat (sort_key sint xs) = map unat (sort_key sint ys)"
      using assms by (intro base100_inj) auto
    then have "sort_key sint xs = sort_key sint ys" by (rule map_injective) (auto intro: injI)
    then show ?thesis by (metis mset_sort)
  qed
  then show ?thesis using assms(1,2) sort_key_sint_mset[of xs ys] by (auto simp: Intslice2Int_def)
qed

lemma intslice_key_witness: "Intslice2Int [0, 3, 1] = Intslice2Int [1, 3, 0]"
  using intslice_key[of "[0, 3, 1]" "[1, 3, 0]"] by simp

text \<open>PrecomputePrimes(n) with n above 2 panics whenever n - 1 tests as prime, since its slice
  is one element short; otherwise it returns n - 1 flags, true at 0, 1 and the numbers that test
  as prime.\<close>

theorem precompute_primes:
  assumes "2 < howMany"
  shows "PrecomputePrimes pp howMany =
    (if pp (howMany - 1) then None
     else Some (map (\<lambda>j. j < 2 \<or> pp (int j)) [0..<nat (howMany - 1)]))"
  by (rule PrecomputePrimes_spec[OF assms])

lemma precompute_primes_witness:
  "PrecomputePrimes (\<lambda>i. i \<in> {2, 3, 5}) 6 = None \<and>
   PrecomputePrimes (\<lambda>i. i \<in> {2, 3, 5}) 5 = Some [True, True, True, True]"
  using precompute_primes[of 6 "\<lambda>i. i \<in> {2, 3, 5}"] precompute_primes[of 5 "\<lambda>i. i \<in> {2, 3, 5}"]
  by (simp add: upt_rec)

text \<open>MaxAbs clamps to the interval between minus and plus the absolute bound, Min and Max are
  the signed minimum and maximum, and Abs is the absolute value, all except where the negation of
  the smallest int overflows.\<close>

theorem clamp_bounds:
  assumes "sint bound \<noteq> - (2 ^ 63)"
  shows "sint (Abs_i bound) = \<bar>sint bound\<bar> \<and>
    sint (MaxAbs x bound) = max (- \<bar>sint bound\<bar>) (min (sint x) \<bar>sint bound\<bar>) \<and>
    sint (Min_i x y) = min (sint x) (sint y) \<and> sint (Max_i x y) = max (sint x) (sint y)"
proof -
  have neg: "sint (- w) = - sint w" if "sint w \<noteq> - (2 ^ 63)" for w :: "64 word"
  proof -
    have "- (2 ^ 63) < sint w" "sint w < 2 ^ 63" using that sint_range_size[of w] by (auto simp: word_size)
    then have "signed_take_bit 63 (- sint w) = - sint w" by (intro signed_take_bit_int_eq_self) auto
    then show ?thesis by (simp add: sint_word_ariths)
  qed
  have abs: "sint (Abs_i bound) = \<bar>sint bound\<bar>"
    using neg[OF assms] by (auto simp: Abs_i_def word_sless_alt)
  moreover have "sint (- Abs_i bound) = - \<bar>sint bound\<bar>"
    using neg[of "Abs_i bound"] abs by auto
  ultimately show ?thesis
    by (auto simp: MaxAbs_def Min_i_def Max_i_def word_sless_alt Let_def)
qed

lemma clamp_bounds_witness: "sint (MaxAbs (- 9) 4) = - 4"
  using clamp_bounds[of 4 "- 9"] by simp

text \<open>As long as no handler interferes, whoever receives from Counter gets 0, 1, 2, ... without
  gaps or repetitions. A reset takes effect only after the value the goroutine already offers.\<close>

theorem counter_sequence:
  assumes "counter_run counter_start es c" "\<forall>e\<in>set es. \<exists>v. e = Receive v"
  shows "es = map (\<lambda>i. Receive (int i)) [0..<length es] \<and>
    (\<exists>c'. counter_run c [Reset, Receive (int (length es)), Receive 1] c')"
proof -
  have r: "es = map (\<lambda>i. Receive (cntr counter_start + int i)) [0..<length es]"
    "cntr c = cntr counter_start + int (length es)" "sending c = cntr c"
    using counter_run_receives[OF assms(1,2)] by (auto simp: counter_start_def)
  have "counter_run c [Reset, Receive (sending c), Receive 1] (c\<lparr>cntr := 2, sending := 2\<rparr>)"
    using counter_step.receive[of "c\<lparr>cntr := 0\<rparr>"] counter_step.receive[of "c\<lparr>cntr := 1, sending := 1\<rparr>"]
    by (intro counter_run.cons[OF counter_step.reset] counter_run.cons[of "c\<lparr>cntr := 0\<rparr>" _ "c\<lparr>cntr := 1, sending := 1\<rparr>"]
        counter_run.cons[of _ _ "c\<lparr>cntr := 2, sending := 2\<rparr>"] counter_run.nil) auto
  then show ?thesis using r by (auto simp: counter_start_def)
qed

lemma counter_sequence_witness:
  "\<exists>c'. counter_run \<lparr>cntr = 1, sending = 1\<rparr> [Reset, Receive 1, Receive 1] c'"
proof -
  have "counter_run counter_start [Receive 0] \<lparr>cntr = 1, sending = 1\<rparr>"
    using counter_step.receive[of counter_start]
    by (intro counter_run.cons[OF _ counter_run.nil]) (simp add: counter_start_def)
  from counter_sequence[OF this] show ?thesis by simp
qed

end
