(* ===== verification/Levenshtein.thy ===== *)
theory Levenshtein
  imports Complex_Main Prelude
begin

section \<open>Edit distance and edit scripts\<close>

text \<open>
  Models \<^verbatim>\<open>text/levenshtein/levenshtein.go\<close>, \<^verbatim>\<open>type-edit-script.go\<close>,
  \<^verbatim>\<open>type-cost-match-options.go\<close> and the tokens of the subpackages \<^verbatim>\<open>rune\<close>,
  \<^verbatim>\<open>word\<close> and \<^verbatim>\<open>wordb\<close>. The interface \<^verbatim>\<open>Equaler\<close> is the locale
  \<open>equaler\<close>. A matrix is the list of its rows; \<^verbatim>\<open>New\<close> fills it row by row, from left
  to right. The relative distance, a float64, is read as an exact rational.
\<close>

record options =
  InsCost :: int
  DelCost :: int
  SubCost :: int

definition DefaultOptions :: options where
  "DefaultOptions = \<lparr>InsCost = 1, DelCost = 1, SubCost = 2\<rparr>"

datatype EditOp = Ins | Del | Sub | Match

fun EditOp_String :: "EditOp \<Rightarrow> string" where
  "EditOp_String Match = ''match''"
| "EditOp_String Ins = ''ins''"
| "EditOp_String Sub = ''sub''"
| "EditOp_String Del = ''del''"

record EditOpExt =
  e_op :: EditOp
  e_src :: int
  e_dst :: int

record 'a matrix =
  mx :: "int list list"
  mx_rows :: "'a list"
  mx_cols :: "'a list"
  mx_opt :: options

text \<open>\<^verbatim>\<open>append(s, nil)\<close> opens a slot that is always overwritten; it is filled with the new
  value here.\<close>

definition insertAfter :: "'a list \<Rightarrow> int \<Rightarrow> 'a \<Rightarrow> 'a list option" where
  "insertAfter s idx newVal =
     (if idx > int (length s) - 1 then None
      else do {
        let s1 = s @ [newVal];
        dst \<leftarrow> slice_sub s1 (idx + 2) (int (length s1));
        src \<leftarrow> slice_sub s1 (idx + 1) (int (length s1));
        let s2 = slice_copy s1 (nat (idx + 2)) src;
        slice_set s2 (idx + 1) newVal })"

definition deleteAt :: "'a list \<Rightarrow> int \<Rightarrow> 'a list option" where
  "deleteAt s idx =
     (if idx > int (length s) - 1 then None
      else do {
        dst \<leftarrow> slice_sub s idx (int (length s));
        src \<leftarrow> slice_sub s (idx + 1) (int (length s));
        let s2 = slice_copy s (nat idx) src;
        slice_sub s2 0 (int (length s2) - 1) })"

definition min_l :: "int \<Rightarrow> int \<Rightarrow> int" where
  "min_l a b = (if b < a then b else a)"

subsection \<open>The matrix\<close>

text \<open>The inner loop: \<open>d\<close> is the cell up left, \<open>up\<close> the cell above, \<open>left\<close> the cell before.\<close>

fun fill_row :: "('a \<Rightarrow> 'a \<Rightarrow> bool) \<Rightarrow> options \<Rightarrow> 'a \<Rightarrow> int list \<Rightarrow> int \<Rightarrow> 'a list \<Rightarrow> int list" where
  "fill_row eq opt r (d # up # prev) left (c # cs) =
     (let delCost = up + DelCost opt;
          matchSubCost = (if \<not> eq r c then d + SubCost opt else d);
          insCost = left + InsCost opt;
          x = min_l delCost (min_l matchSubCost insCost)
      in x # fill_row eq opt r (up # prev) x cs)"
| "fill_row eq opt r _ left _ = []"

fun fill_rows :: "('a \<Rightarrow> 'a \<Rightarrow> bool) \<Rightarrow> options \<Rightarrow> 'a list \<Rightarrow> int list \<Rightarrow> int \<Rightarrow> 'a list \<Rightarrow> int list list" where
  "fill_rows eq opt [] prev i cols = []"
| "fill_rows eq opt (r # rs) prev i cols =
     (let row = i # fill_row eq opt r prev i cols
      in row # fill_rows eq opt rs row (i + 1) cols)"

definition New_l :: "('a \<Rightarrow> 'a \<Rightarrow> bool) \<Rightarrow> 'a list \<Rightarrow> 'a list \<Rightarrow> options \<Rightarrow> 'a matrix" where
  "New_l eq argRows argCols opt =
     (let top = map int [0..<length argCols + 1]
      in \<lparr>mx = top # fill_rows eq opt argRows top 1 argCols,
          mx_rows = argRows, mx_cols = argCols, mx_opt = opt\<rparr>)"

definition cell :: "'a matrix \<Rightarrow> int \<Rightarrow> int \<Rightarrow> int option" where
  "cell m i j = do { row \<leftarrow> slice_get (mx m) i; slice_get row j }"

definition Distance :: "'a matrix \<Rightarrow> (int \<times> rat) option" where
  "Distance m = do {
     row0 \<leftarrow> slice_get (mx m) 0;
     dist \<leftarrow> cell m (int (length (mx m)) - 1) (int (length row0) - 1);
     let ls1 = int (length (mx m));
     let ls2 = int (length row0);
     let divisor = (if ls2 > ls1 then ls2 else ls1) - 1;
     let divisor = (if divisor = 0 then 1 else divisor);
     Some (dist, of_int dist / of_int divisor) }"

subsection \<open>Edit scripts\<close>

text \<open>A comparison of \<^verbatim>\<open>backtrace\<close>: the cell plus a cost against cell \<open>(i, j)\<close>.\<close>

definition costs :: "'a matrix \<Rightarrow> int \<Rightarrow> int \<Rightarrow> int \<Rightarrow> int \<Rightarrow> int \<Rightarrow> bool option" where
  "costs m i' j' c i j = do { a \<leftarrow> cell m i' j'; b \<leftarrow> cell m i j; Some (a + c = b) }"

function backtrace :: "'a matrix \<Rightarrow> int \<Rightarrow> int \<Rightarrow> EditOpExt list option" where
  "backtrace m i j = do {
     c1 \<leftarrow> (if i > 0 then costs m (i - 1) j (DelCost (mx_opt m)) i j else Some False);
     (if c1 \<and> i > 0 then do {
        es \<leftarrow> backtrace m (i - 1) j;
        Some (es @ [\<lparr>e_op = Del, e_src = i - 1, e_dst = j\<rparr>]) }
      else do {
        c2 \<leftarrow> (if j > 0 then costs m i (j - 1) (InsCost (mx_opt m)) i j else Some False);
        (if c2 \<and> j > 0 then do {
           es \<leftarrow> backtrace m i (j - 1);
           Some (es @ [\<lparr>e_op = Ins, e_src = i, e_dst = j - 1\<rparr>]) }
         else do {
           c3 \<leftarrow> (if i > 0 \<and> j > 0 then costs m (i - 1) (j - 1) (SubCost (mx_opt m)) i j else Some False);
           (if c3 \<and> i > 0 \<and> j > 0 then do {
              es \<leftarrow> backtrace m (i - 1) (j - 1);
              Some (es @ [\<lparr>e_op = Sub, e_src = i - 1, e_dst = j - 1\<rparr>]) }
            else do {
              c4 \<leftarrow> (if i > 0 \<and> j > 0 then costs m (i - 1) (j - 1) 0 i j else Some False);
              (if c4 \<and> i > 0 \<and> j > 0 then do {
                 es \<leftarrow> backtrace m (i - 1) (j - 1);
                 Some (es @ [\<lparr>e_op = Match, e_src = i - 1, e_dst = j - 1\<rparr>]) }
               else Some []) }) }) }) }"
  by pat_completeness auto
termination backtrace
  by (relation "measure (\<lambda>(m, i, j). nat i + nat j)") auto

declare backtrace.simps [simp del]

lemma backtrace_stop: "backtrace m 0 0 = Some []"
  by (simp add: backtrace.simps[of m 0 0])

lemma backtrace_steps:
  assumes "\<And>c. 0 < i \<Longrightarrow> costs m (i - 1) j c i j = Some (a + c = d)"
    and "\<And>c. 0 < j \<Longrightarrow> costs m i (j - 1) c i j = Some (b + c = d)"
    and "\<And>c. 0 < i \<Longrightarrow> 0 < j \<Longrightarrow> costs m (i - 1) (j - 1) c i j = Some (e + c = d)"
    and "mx_opt m = opt"
  shows backtrace_del: "0 < i \<Longrightarrow> a + DelCost opt = d \<Longrightarrow> backtrace m (i - 1) j = Some es \<Longrightarrow>
      backtrace m i j = Some (es @ [\<lparr>e_op = Del, e_src = i - 1, e_dst = j\<rparr>])"
    and backtrace_ins: "0 < j \<Longrightarrow> \<not> (0 < i \<and> a + DelCost opt = d) \<Longrightarrow> b + InsCost opt = d \<Longrightarrow>
      backtrace m i (j - 1) = Some es \<Longrightarrow>
      backtrace m i j = Some (es @ [\<lparr>e_op = Ins, e_src = i, e_dst = j - 1\<rparr>])"
    and backtrace_sub: "0 < i \<Longrightarrow> 0 < j \<Longrightarrow> a + DelCost opt \<noteq> d \<Longrightarrow> b + InsCost opt \<noteq> d \<Longrightarrow>
      e + SubCost opt = d \<Longrightarrow> backtrace m (i - 1) (j - 1) = Some es \<Longrightarrow>
      backtrace m i j = Some (es @ [\<lparr>e_op = Sub, e_src = i - 1, e_dst = j - 1\<rparr>])"
    and backtrace_match: "0 < i \<Longrightarrow> 0 < j \<Longrightarrow> a + DelCost opt \<noteq> d \<Longrightarrow> b + InsCost opt \<noteq> d \<Longrightarrow>
      e + SubCost opt \<noteq> d \<Longrightarrow> e = d \<Longrightarrow> backtrace m (i - 1) (j - 1) = Some es \<Longrightarrow>
      backtrace m i j = Some (es @ [\<lparr>e_op = Match, e_src = i - 1, e_dst = j - 1\<rparr>])"
  by (subst backtrace.simps; cases "0 < i"; cases "0 < j"; simp add: assms)+

definition EditScript :: "'a matrix \<Rightarrow> EditOpExt list option" where
  "EditScript m = do {
     row0 \<leftarrow> slice_get (mx m) 0;
     backtrace m (int (length (mx m)) - 1) (int (length row0) - 1) }"

text \<open>The loop of \<^verbatim>\<open>ApplyEditScript\<close>; \<open>shift\<close> is \<^verbatim>\<open>sumIns - sumDel\<close>.\<close>

fun apply_ops :: "'a list \<Rightarrow> EditOpExt list \<Rightarrow> int \<Rightarrow> int \<Rightarrow> 'a list \<Rightarrow> 'a list option" where
  "apply_ops cols [] sumIns sumDel rows2 = Some rows2"
| "apply_ops cols (v # es) sumIns sumDel rows2 = (let pos = e_src v + sumIns - sumDel in
     (case e_op v of
        Ins \<Rightarrow> do {
          x \<leftarrow> slice_get cols (e_dst v);
          rows2' \<leftarrow> insertAfter rows2 (pos - 1) x;
          apply_ops cols es (sumIns + 1) sumDel rows2' }
      | Del \<Rightarrow> do {
          rows2' \<leftarrow> deleteAt rows2 pos;
          apply_ops cols es sumIns (sumDel + 1) rows2' }
      | Sub \<Rightarrow> do {
          x \<leftarrow> slice_get cols (e_dst v);
          rows2' \<leftarrow> slice_set rows2 pos x;
          apply_ops cols es sumIns sumDel rows2' }
      | Match \<Rightarrow> apply_ops cols es sumIns sumDel rows2))"

definition ApplyEditScript :: "'a matrix \<Rightarrow> EditOpExt list \<Rightarrow> 'a list option" where
  "ApplyEditScript m es = apply_ops (mx_cols m) es 0 0 (mx_rows m)"

text \<open>\<^verbatim>\<open>CompareToCol\<close> reads \<^verbatim>\<open>col2\<close> at the indices of \<^verbatim>\<open>m.cols\<close>.\<close>

fun compare_from :: "'a list \<Rightarrow> 'a list \<Rightarrow> int \<Rightarrow> bool option" where
  "compare_from [] col2 idx = Some True"
| "compare_from (v # vs) col2 idx = do {
     x \<leftarrow> slice_get col2 idx;
     (if v \<noteq> x then Some False else compare_from vs col2 (idx + 1)) }"

definition CompareToCol :: "'a matrix \<Rightarrow> 'a list \<Rightarrow> bool option" where
  "CompareToCol m col2 = compare_from (mx_cols m) col2 0"

subsection \<open>Tokens\<close>

type_synonym rune_token = int
type_synonym word_token = string
type_synonym wordb_token = string

definition Equal_rune :: "rune_token \<Rightarrow> rune_token \<Rightarrow> bool" where
  "Equal_rune tk1 tk2 \<longleftrightarrow> tk1 = tk2"

definition WrapAsEqualer_rune :: "rune_token list \<Rightarrow> rune_token list" where
  "WrapAsEqualer_rune sl1 = foldl (\<lambda>ret v. ret @ [v]) [] sl1"

definition Equal_word :: "word_token \<Rightarrow> word_token \<Rightarrow> bool" where
  "Equal_word tk1 tk2 \<longleftrightarrow> tk1 = tk2"

text \<open>\<^verbatim>\<open>strings.Fields\<close> and \<^verbatim>\<open>bytes.Fields\<close> on ASCII.\<close>

fun Fields_from :: "string \<Rightarrow> string \<Rightarrow> string list" where
  "Fields_from [] w = (if w = [] then [] else [w])"
| "Fields_from (c # s) w =
     (if is_space c then (if w = [] then Fields_from s [] else w # Fields_from s [])
      else Fields_from s (w @ [c]))"

definition Fields :: "string \<Rightarrow> string list" where
  "Fields s = Fields_from s []"

text \<open>\<open>weed out doublettes\<close>: drops what equals the last one kept; \<open>prev\<close> starts empty.\<close>

fun weed :: "string list \<Rightarrow> string \<Rightarrow> string list" where
  "weed [] prev = []"
| "weed (v # vs) prev = (if v = prev then weed vs prev else v # weed vs v)"

definition WrapAsEqualer_word :: "string \<Rightarrow> bool \<Rightarrow> word_token list" where
  "WrapAsEqualer_word s srt = (let ss = Fields s in if srt then weed (sort ss) [] else ss)"

definition Equal_wordb :: "wordb_token \<Rightarrow> wordb_token \<Rightarrow> bool" where
  "Equal_wordb tk1 tk2 \<longleftrightarrow> tk1 = tk2"

text \<open>\<^verbatim>\<open>sortBoB.Less\<close> is \<^verbatim>\<open>bytes.Compare(...) > 0\<close>: descending.\<close>

definition sortBoB_Less :: "string \<Rightarrow> string \<Rightarrow> bool" where
  "sortBoB_Less a b \<longleftrightarrow> b < a"

definition sortBoB :: "string list \<Rightarrow> string list" where
  "sortBoB sb = rev (sort sb)"

definition WrapAsEqualer_wordb :: "string \<Rightarrow> bool \<Rightarrow> wordb_token list" where
  "WrapAsEqualer_wordb sb srt =
     (let sbf = Fields sb in if srt then weed (sortBoB sbf) [] else sbf)"

subsection \<open>The matrix against its recursion\<close>

fun D :: "('a \<Rightarrow> 'a \<Rightarrow> bool) \<Rightarrow> options \<Rightarrow> 'a list \<Rightarrow> 'a list \<Rightarrow> nat \<Rightarrow> nat \<Rightarrow> int" where
  "D eq opt xs ys 0 j = int j"
| "D eq opt xs ys (Suc i) 0 = int (Suc i)"
| "D eq opt xs ys (Suc i) (Suc j) =
     min (D eq opt xs ys i (Suc j) + DelCost opt)
      (min (D eq opt xs ys i j + (if eq (xs ! i) (ys ! j) then 0 else SubCost opt))
           (D eq opt xs ys (Suc i) j + InsCost opt))"

lemma D_0 [simp]: "D eq opt xs ys i 0 = int i"
  by (cases i) auto

lemma min_l_min [simp]: "min_l a b = min a b"
  by (simp add: min_l_def min_def)

lemma fill_row_D:
  assumes "w = length ys" "j \<le> w"
  shows "fill_row eq opt (xs ! i) (map (D eq opt xs ys i) [j..<Suc w]) (D eq opt xs ys (Suc i) j) (drop j ys) =
    map (D eq opt xs ys (Suc i)) [Suc j..<Suc w]"
  using assms(2)
proof (induction "w - j" arbitrary: j)
  case 0
  then show ?case using assms(1) by simp
next
  case (Suc k)
  then have j: "j < w" by simp
  have "[j..<Suc w] = j # Suc j # [Suc (Suc j)..<Suc w]" "[Suc j..<Suc w] = Suc j # [Suc (Suc j)..<Suc w]"
    using j by (simp_all add: upt_conv_Cons del: upt_Suc)
  moreover have "drop j ys = ys ! j # drop (Suc j) ys" using j assms(1) by (simp add: Cons_nth_drop_Suc)
  moreover have "D eq opt xs ys (Suc i) (Suc j) =
      min (D eq opt xs ys i (Suc j) + DelCost opt)
        (min (if \<not> eq (xs ! i) (ys ! j) then D eq opt xs ys i j + SubCost opt else D eq opt xs ys i j)
             (D eq opt xs ys (Suc i) j + InsCost opt))" by simp
  ultimately show ?case
    using Suc.hyps(1)[of "Suc j"] Suc.hyps(2) j
    by (simp only: list.map fill_row.simps Let_def min_l_min)
qed

lemma fill_rows_D:
  assumes "n = length xs" "i \<le> n"
  shows "fill_rows eq opt (drop i xs) (map (D eq opt xs ys i) [0..<Suc (length ys)]) (int i + 1) ys =
    map (\<lambda>k. map (D eq opt xs ys k) [0..<Suc (length ys)]) [Suc i..<Suc n]"
  using assms(2)
proof (induction "n - i" arbitrary: i)
  case 0
  then show ?case using assms(1) by simp
next
  case (Suc k)
  then have i: "i < n" by simp
  let ?w = "length ys"
  have "drop i xs = xs ! i # drop (Suc i) xs" using i assms(1) by (simp add: Cons_nth_drop_Suc)
  moreover have "[Suc i..<Suc n] = Suc i # [Suc (Suc i)..<Suc n]"
    using i by (simp add: upt_conv_Cons del: upt_Suc)
  moreover have "(int i + 1) # fill_row eq opt (xs ! i) (map (D eq opt xs ys i) [0..<Suc ?w]) (int i + 1) ys =
      map (D eq opt xs ys (Suc i)) [0..<Suc ?w]"
    using fill_row_D[of ?w ys 0 eq opt xs i] by (simp add: upt_conv_Cons add.commute del: upt_Suc)
  moreover have "int (Suc i) + 1 = int i + 1 + 1" by simp
  ultimately show ?case
    using Suc.hyps(1)[of "Suc i"] Suc.hyps(2) i
    by (simp only: list.map fill_rows.simps Let_def)
qed

lemma New_l_mx: "mx (New_l eq xs ys opt) =
   map (\<lambda>k. map (D eq opt xs ys k) [0..<Suc (length ys)]) [0..<Suc (length xs)]"
proof -
  let ?top = "map (D eq opt xs ys 0) [0..<Suc (length ys)]"
  have "map int [0..<length ys + 1] = ?top" by simp
  then have "mx (New_l eq xs ys opt) = ?top # fill_rows eq opt xs ?top 1 ys"
    by (simp only: New_l_def Let_def matrix.simps)
  moreover have "[0..<Suc (length xs)] = 0 # [Suc 0..<Suc (length xs)]" by (simp add: upt_conv_Cons del: upt_Suc)
  ultimately show ?thesis
    using fill_rows_D[of "length xs" xs 0 eq opt ys] by (simp only: list.map drop_0 of_nat_0 add_0)
qed

lemma New_l_simps [simp]:
  "mx_rows (New_l eq xs ys opt) = xs" "mx_cols (New_l eq xs ys opt) = ys" "mx_opt (New_l eq xs ys opt) = opt"
  by (simp_all add: New_l_def Let_def)

lemma cell_D: "i \<le> length xs \<Longrightarrow> j \<le> length ys \<Longrightarrow>
   cell (New_l eq xs ys opt) (int i) (int j) = Some (D eq opt xs ys i j)"
  by (simp add: cell_def New_l_mx del: upt_Suc)

lemma New_l_dims: "length (mx (New_l eq xs ys opt)) = Suc (length xs)"
  "slice_get (mx (New_l eq xs ys opt)) 0 = Some (map (D eq opt xs ys 0) [0..<Suc (length ys)])"
  by (simp_all add: New_l_mx slice_get_def del: upt_Suc)

lemma costs_D: "i \<le> length xs \<Longrightarrow> j \<le> length ys \<Longrightarrow> i' \<le> length xs \<Longrightarrow> j' \<le> length ys \<Longrightarrow>
   costs (New_l eq xs ys opt) (int i') (int j') c (int i) (int j) =
     Some (D eq opt xs ys i' j' + c = D eq opt xs ys i j)"
  by (simp add: costs_def cell_D)

lemma Distance_D: "map_option fst (Distance (New_l eq xs ys opt)) = Some (D eq opt xs ys (length xs) (length ys))"
  using cell_D[of "length xs" xs "length ys" ys eq opt]
  by (simp add: Distance_def New_l_dims Let_def del: upt_Suc)

subsection \<open>Applying a script\<close>

lemma insertAfter_spec: "-1 \<le> idx \<Longrightarrow> idx < int (length s) \<Longrightarrow>
   insertAfter s idx v = Some (take (nat (idx + 1)) s @ v # drop (nat (idx + 1)) s)"
proof -
  assume idx: "-1 \<le> idx" "idx < int (length s)"
  define n where "n = nat (idx + 1)"
  have n: "idx = int n - 1" "n \<le> length s" using idx by (auto simp: n_def)
  have "nat (1 + int n) = Suc n" by simp
  then show ?thesis
    using idx n by (auto simp: insertAfter_def Let_def slice_sub_def slice_copy_def slice_set_def
        list_update_append take_Suc_conv_app_nth min_def upd_conv_take_nth_drop)
qed

lemma deleteAt_spec: "0 \<le> idx \<Longrightarrow> idx < int (length s) \<Longrightarrow>
   deleteAt s idx = Some (take (nat idx) s @ drop (nat idx + 1) s)"
proof -
  assume idx: "0 \<le> idx" "idx < int (length s)"
  define n where "n = nat idx"
  have "idx = int n" "n < length s" using idx by (auto simp: n_def)
  then show ?thesis
    by (auto simp: deleteAt_def Let_def slice_sub_def slice_copy_def nat_diff_distrib min_def nat_add_distrib)
qed

fun op_cost :: "options \<Rightarrow> EditOp \<Rightarrow> int" where
  "op_cost opt Ins = InsCost opt"
| "op_cost opt Del = DelCost opt"
| "op_cost opt Sub = SubCost opt"
| "op_cost opt Match = 0"

definition script_cost :: "options \<Rightarrow> EditOpExt list \<Rightarrow> int" where
  "script_cost opt es = sum_list (map (\<lambda>e. op_cost opt (e_op e)) es)"

text \<open>\<open>turns es xs ys i j\<close>: the script rewrites the first \<open>i\<close> rows into the first \<open>j\<close> columns, so
  that a script that goes on from there finds the shifted positions right.\<close>

definition turns :: "EditOpExt list \<Rightarrow> 'a list \<Rightarrow> 'a list \<Rightarrow> nat \<Rightarrow> nat \<Rightarrow> bool" where
  "turns es xs ys i j \<longleftrightarrow> (\<forall>es'. \<exists>si sd. si - sd = int j - int i \<and>
     apply_ops ys (es @ es') 0 0 xs = apply_ops ys es' si sd (take j ys @ drop i xs))"

lemma turns_nil: "turns [] xs ys 0 0"
  by (auto simp: turns_def)

lemma turns_snoc:
  assumes "turns es xs ys i j"
    and "\<And>si sd es'. si - sd = int j - int i \<Longrightarrow> \<exists>si' sd'. si' - sd' = int j' - int i' \<and>
      apply_ops ys (e # es') si sd (take j ys @ drop i xs) = apply_ops ys es' si' sd' (take j' ys @ drop i' xs)"
  shows "turns (es @ [e]) xs ys i' j'"
  unfolding turns_def
proof
  fix es'
  obtain si sd where s: "si - sd = int j - int i"
    "apply_ops ys (es @ e # es') 0 0 xs = apply_ops ys (e # es') si sd (take j ys @ drop i xs)"
    using assms(1) unfolding turns_def by blast
  then show "\<exists>si sd. si - sd = int j' - int i' \<and>
      apply_ops ys ((es @ [e]) @ es') 0 0 xs = apply_ops ys es' si sd (take j' ys @ drop i' xs)"
    using assms(2)[OF s(1), of es'] by simp
qed

lemma turns_Del:
  assumes "turns es xs ys i j" "i < length xs" "j \<le> length ys"
  shows "turns (es @ [\<lparr>e_op = Del, e_src = int i, e_dst = d\<rparr>]) xs ys (Suc i) j"
proof (rule turns_snoc[OF assms(1)])
  fix si sd es' assume s: "si - sd = int j - int i"
  have "drop i xs = xs ! i # drop (Suc i) xs" using assms(2) by (simp add: Cons_nth_drop_Suc)
  moreover have sd: "sd = si + int i - int j" using s by simp
  ultimately show "\<exists>si' sd'. si' - sd' = int j - int (Suc i) \<and>
      apply_ops ys (\<lparr>e_op = Del, e_src = int i, e_dst = d\<rparr> # es') si sd (take j ys @ drop i xs) =
      apply_ops ys es' si' sd' (take j ys @ drop (Suc i) xs)"
    using assms(3) unfolding sd
    by (rule_tac exI[of _ si], rule_tac exI[of _ "si + int i - int j + 1"]) (simp add: Let_def deleteAt_spec nat_add_distrib)
qed

lemma turns_Ins:
  assumes "turns es xs ys i j" "i \<le> length xs" "j < length ys"
  shows "turns (es @ [\<lparr>e_op = Ins, e_src = int i, e_dst = int j\<rparr>]) xs ys i (Suc j)"
proof (rule turns_snoc[OF assms(1)])
  fix si sd es' assume s: "si - sd = int j - int i"
  have "take (Suc j) ys = take j ys @ [ys ! j]" using assms(3) by (simp add: take_Suc_conv_app_nth)
  moreover have sd: "sd = si + int i - int j" using s by simp
  ultimately show "\<exists>si' sd'. si' - sd' = int (Suc j) - int i \<and>
      apply_ops ys (\<lparr>e_op = Ins, e_src = int i, e_dst = int j\<rparr> # es') si sd (take j ys @ drop i xs) =
      apply_ops ys es' si' sd' (take (Suc j) ys @ drop i xs)"
    using assms(2,3) unfolding sd
    by (rule_tac exI[of _ "si + 1"], rule_tac exI[of _ "si + int i - int j"]) (simp add: Let_def insertAfter_spec)
qed

lemma turns_Sub:
  assumes "turns es xs ys i j" "i < length xs" "j < length ys"
  shows "turns (es @ [\<lparr>e_op = Sub, e_src = int i, e_dst = int j\<rparr>]) xs ys (Suc i) (Suc j)"
proof (rule turns_snoc[OF assms(1)])
  fix si sd es' assume s: "si - sd = int j - int i"
  have "take (Suc j) ys = take j ys @ [ys ! j]" "drop i xs = xs ! i # drop (Suc i) xs"
    using assms(2,3) by (simp_all add: take_Suc_conv_app_nth Cons_nth_drop_Suc)
  moreover have sd: "sd = si + int i - int j" using s by simp
  ultimately show "\<exists>si' sd'. si' - sd' = int (Suc j) - int (Suc i) \<and>
      apply_ops ys (\<lparr>e_op = Sub, e_src = int i, e_dst = int j\<rparr> # es') si sd (take j ys @ drop i xs) =
      apply_ops ys es' si' sd' (take (Suc j) ys @ drop (Suc i) xs)"
    using assms(2,3) unfolding sd
    by (rule_tac exI[of _ si], rule_tac exI[of _ "si + int i - int j"]) (simp add: Let_def slice_set_def list_update_append)
qed

lemma turns_Match:
  assumes "turns es xs ys i j" "i < length xs" "j < length ys" "xs ! i = ys ! j"
  shows "turns (es @ [\<lparr>e_op = Match, e_src = int i, e_dst = d\<rparr>]) xs ys (Suc i) (Suc j)"
proof (rule turns_snoc[OF assms(1)])
  fix si sd es' assume s: "si - sd = int j - int i"
  have "take (Suc j) ys = take j ys @ [ys ! j]" "drop i xs = xs ! i # drop (Suc i) xs"
    using assms(2,3) by (simp_all add: take_Suc_conv_app_nth Cons_nth_drop_Suc)
  then show "\<exists>si' sd'. si' - sd' = int (Suc j) - int (Suc i) \<and>
      apply_ops ys (\<lparr>e_op = Match, e_src = int i, e_dst = d\<rparr> # es') si sd (take j ys @ drop i xs) =
      apply_ops ys es' si' sd' (take (Suc j) ys @ drop (Suc i) xs)"
    using s assms(4) by (rule_tac exI[of _ si], rule_tac exI[of _ sd]) (simp add: Let_def)
qed

subsection \<open>The interface of tokens\<close>

text \<open>What the core needs of \<^verbatim>\<open>Equal\<close>: that it tells tokens apart.\<close>

locale equaler =
  fixes eq :: "'a \<Rightarrow> 'a \<Rightarrow> bool"
  assumes eq_iff: "eq a b \<longleftrightarrow> a = b"

interpretation rune_tok: equaler Equal_rune by unfold_locales (rule Equal_rune_def)
interpretation word_tok: equaler Equal_word by unfold_locales (rule Equal_word_def)
interpretation wordb_tok: equaler Equal_wordb by unfold_locales (rule Equal_wordb_def)

text \<open>Alignments of two sequences, one column at a time, with their cost.\<close>

inductive align :: "options \<Rightarrow> 'a list \<Rightarrow> 'a list \<Rightarrow> int \<Rightarrow> bool" for opt where
  align_nil: "align opt [] [] 0"
| align_del: "align opt xs ys c \<Longrightarrow> align opt (xs @ [x]) ys (c + DelCost opt)"
| align_ins: "align opt xs ys c \<Longrightarrow> align opt xs (ys @ [y]) (c + InsCost opt)"
| align_sub: "align opt xs ys c \<Longrightarrow> align opt (xs @ [x]) (ys @ [y]) (c + SubCost opt)"
| align_match: "align opt xs ys c \<Longrightarrow> align opt (xs @ [x]) (ys @ [x]) c"

lemma middle_min: "d = min a (min e b) \<Longrightarrow> a \<noteq> d \<Longrightarrow> b \<noteq> d \<Longrightarrow> d = (e :: int)"
  by (auto simp: min_def split: if_splits)

definition unit_costs :: "options \<Rightarrow> bool" where
  "unit_costs opt \<longleftrightarrow> InsCost opt = 1 \<and> DelCost opt = 1 \<and> 0 \<le> SubCost opt"

lemma D_append: "i \<le> length xs \<Longrightarrow> j \<le> length ys \<Longrightarrow>
   D eq opt (xs @ xs') (ys @ ys') i j = D eq opt xs ys i j"
  by (induction eq opt xs ys i j rule: D.induct) (simp_all add: nth_append)

lemma D_snoc:
  assumes "InsCost opt = 1" "DelCost opt = 1"
  shows "D eq opt (xs @ [x]) ys (Suc (length xs)) (length ys) \<le> D eq opt xs ys (length xs) (length ys) + 1"
    and "D eq opt xs (ys @ [y]) (length xs) (Suc (length ys)) \<le> D eq opt xs ys (length xs) (length ys) + 1"
proof -
  have 1: "D eq opt (xs @ [x]) ys (length xs) (length ys) = D eq opt xs ys (length xs) (length ys)"
    using D_append[of "length xs" xs "length ys" ys eq opt "[x]" "[]"] by simp
  have 2: "D eq opt xs (ys @ [y]) (length xs) (length ys) = D eq opt xs ys (length xs) (length ys)"
    using D_append[of "length xs" xs "length ys" ys eq opt "[]" "[y]"] by simp
  show "D eq opt (xs @ [x]) ys (Suc (length xs)) (length ys) \<le> D eq opt xs ys (length xs) (length ys) + 1"
    using assms 1 by (cases "length ys") auto
  show "D eq opt xs (ys @ [y]) (length xs) (Suc (length ys)) \<le> D eq opt xs ys (length xs) (length ys) + 1"
    using assms 2 by (cases "length xs") auto
qed

context equaler begin

lemma eq_eq: "eq = (=)"
  by (intro ext) (rule eq_iff)

lemma D_least: "align opt xs ys c \<Longrightarrow> unit_costs opt \<Longrightarrow> D eq opt xs ys (length xs) (length ys) \<le> c"
proof (induction rule: align.induct)
  case (align_del xs ys c x)
  then show ?case using D_snoc(1)[of opt eq xs x ys] by (auto simp: unit_costs_def)
next
  case (align_ins xs ys c y)
  then show ?case using D_snoc(2)[of opt eq xs ys y] by (auto simp: unit_costs_def)
next
  case (align_sub xs ys c x y)
  then show ?case
    using D_append[of "length xs" xs "length ys" ys eq opt "[x]" "[y]"] by (auto simp: unit_costs_def)
next
  case (align_match xs ys c x)
  then show ?case
    using D_append[of "length xs" xs "length ys" ys eq opt "[x]" "[x]"] by (simp add: eq_eq min.coboundedI1)
qed simp

lemma align_D: "unit_costs opt \<Longrightarrow> i \<le> length xs \<Longrightarrow> j \<le> length ys \<Longrightarrow>
   align opt (take i xs) (take j ys) (D eq opt xs ys i j)"
proof (induction "i + j" arbitrary: i j rule: less_induct)
  case less
  have opt: "InsCost opt = 1" "DelCost opt = 1" using less.prems(1) by (auto simp: unit_costs_def)
  have snoc: "take (Suc k) zs = take k zs @ [zs ! k]" if "k < length zs" for k and zs :: "'a list"
    using that by (rule take_Suc_conv_app_nth)
  show ?case
  proof (cases i)
    case 0
    show ?thesis
    proof (cases j)
      case (Suc j')
      with 0 have "align opt (take i xs) (take j' ys) (int j')" using less.hyps[of i j'] less.prems by simp
      from align_ins[OF this] Suc 0 opt less.prems show ?thesis by (simp add: snoc add.commute)
    qed (simp add: 0 align_nil)
  next
    case i: (Suc i')
    show ?thesis
    proof (cases j)
      case 0
      with i have "align opt (take i' xs) (take j ys) (int i')" using less.hyps[of i' j] less.prems by simp
      from align_del[OF this] 0 i opt less.prems show ?thesis by (simp add: snoc add.commute)
    next
      case j: (Suc j')
      let ?D = "D eq opt xs ys"
      have del: "align opt (take i xs) (take j ys) (?D i' j + DelCost opt)"
        using align_del[OF less.hyps[of i' j], of "xs ! i'"] less.prems i by (simp add: snoc)
      have ins: "align opt (take i xs) (take j ys) (?D i j' + InsCost opt)"
        using align_ins[OF less.hyps[of i j'], of "ys ! j'"] less.prems j by (simp add: snoc)
      have sub: "align opt (take i xs) (take j ys) (?D i' j' + (if eq (xs ! i') (ys ! j') then 0 else SubCost opt))"
      proof (cases "xs ! i' = ys ! j'")
        case True
        then show ?thesis
          using align_match[OF less.hyps[of i' j'], of "ys ! j'"] less.prems i j by (simp add: snoc eq_iff)
      next
        case False
        then show ?thesis
          using align_sub[OF less.hyps[of i' j'], of "xs ! i'" "ys ! j'"] less.prems i j by (simp add: snoc eq_iff)
      qed
      show ?thesis using del ins sub by (auto simp: i j min_def)
    qed
  qed
qed

lemma backtrace_spec: "unit_costs opt \<Longrightarrow> i \<le> length xs \<Longrightarrow> j \<le> length ys \<Longrightarrow>
   \<exists>es. backtrace (New_l eq xs ys opt) (int i) (int j) = Some es \<and> turns es xs ys i j \<and>
      script_cost opt es = D eq opt xs ys i j"
proof (induction "i + j" arbitrary: i j rule: less_induct)
  case less
  let ?D = "D eq opt xs ys" and ?m = "New_l eq xs ys opt"
  have opt: "InsCost opt = 1" "DelCost opt = 1" "0 \<le> SubCost opt" using less.prems(1) by (auto simp: unit_costs_def)
  have costs: "costs ?m (int i') (int j') c (int i) (int j) = Some (?D i' j' + c = ?D i j)"
    if "i' \<le> i" "j' \<le> j" for i' j' c using that less.prems by (intro costs_D) auto
  have snoc: "script_cost opt (es @ [e]) = script_cost opt es + op_cost opt (e_op e)" for es e
    by (simp add: script_cost_def)
  have up: "costs ?m (int i - 1) (int j) c (int i) (int j) = Some (?D (i - 1) j + c = ?D i j)"
    if "0 < int i" for c
    using costs[of "i - 1" j c] that by (simp add: of_nat_diff)
  have left: "costs ?m (int i) (int j - 1) c (int i) (int j) = Some (?D i (j - 1) + c = ?D i j)"
    if "0 < int j" for c
    using costs[of i "j - 1" c] that by (simp add: of_nat_diff)
  have diag: "costs ?m (int i - 1) (int j - 1) c (int i) (int j) = Some (?D (i - 1) (j - 1) + c = ?D i j)"
    if "0 < int i" "0 < int j" for c
    using costs[of "i - 1" "j - 1" c] that by (simp add: of_nat_diff)
  note steps = backtrace_steps[OF up left diag New_l_simps(3)]
  have pred: "int (Suc k) - 1 = int k" for k by simp
  consider (stop) "i = 0" "j = 0"
    | (del) i' where "i = Suc i'" "?D i' j + 1 = ?D i j"
    | (ins) j' where "j = Suc j'" "\<not> (0 < i \<and> ?D (i - 1) j + 1 = ?D i j)" "?D i j' + 1 = ?D i j"
    | (sub) i' j' where "i = Suc i'" "j = Suc j'" "?D i' j + 1 \<noteq> ?D i j" "?D i j' + 1 \<noteq> ?D i j"
        "?D i' j' + SubCost opt = ?D i j"
    | (match) i' j' where "i = Suc i'" "j = Suc j'" "?D i' j + 1 \<noteq> ?D i j" "?D i j' + 1 \<noteq> ?D i j"
        "?D i' j' + SubCost opt \<noteq> ?D i j" "?D i' j' = ?D i j" "xs ! i' = ys ! j'"
  proof (cases "0 < i \<and> ?D (i - 1) j + 1 = ?D i j")
    case True
    then show thesis using del[of "i - 1"] by simp
  next
    case nd: False
    show thesis
    proof (cases "0 < j \<and> ?D i (j - 1) + 1 = ?D i j")
      case True
      then show thesis using ins[of "j - 1"] nd by simp
    next
      case ni: False
      show thesis
      proof (cases "i = 0 \<or> j = 0")
        case True
        with nd ni show thesis by (intro stop) (auto simp: of_nat_diff)
      next
        case False
        then obtain i' j' where ij: "i = Suc i'" "j = Suc j'" by (meson not0_implies_Suc)
        have ne: "?D i' j + 1 \<noteq> ?D i j" "?D i j' + 1 \<noteq> ?D i j" using nd ni by (simp_all add: ij)
        have "?D i j = min (?D i' j + 1) (min (?D i' j' + (if xs ! i' = ys ! j' then 0 else SubCost opt)) (?D i j' + 1))"
          unfolding ij D.simps(3) opt eq_iff by (rule refl)
        from middle_min[OF this ne]
        have d: "?D i j = ?D i' j' + (if xs ! i' = ys ! j' then 0 else SubCost opt)" .
        show thesis
        proof (cases "?D i' j' + SubCost opt = ?D i j")
          case True
          show thesis by (rule sub[OF ij ne True])
        next
          case False
          then have m: "xs ! i' = ys ! j'" using d by metis
          have "?D i' j' = ?D i j" using d unfolding m by (simp only: if_True simp_thms add_0_right)
          then show thesis by (rule match[OF ij ne False _ m])
        qed
      qed
    qed
  qed
  then show ?case
  proof cases
    case stop
    then show ?thesis by (auto simp: backtrace_stop turns_nil script_cost_def)
  next
    case del
    obtain es where es: "backtrace ?m (int i') (int j) = Some es" "turns es xs ys i' j" "script_cost opt es = ?D i' j"
      using less.hyps[of i' j] less.prems del(1) by auto
    have "backtrace ?m (int i) (int j) = Some (es @ [\<lparr>e_op = Del, e_src = int i', e_dst = int j\<rparr>])"
      using steps(1)[of es] del(2) es(1) opt unfolding del(1) pred diff_Suc_1 by simp
    moreover have "i' < length xs" using less.prems(2) del(1) by simp
    ultimately show ?thesis
      using turns_Del[OF es(2) _ less.prems(3), of "int j"] es(3) del(2) opt
      unfolding del(1) by (intro exI conjI) (auto simp: snoc simp del: D.simps)
  next
    case ins
    obtain es where es: "backtrace ?m (int i) (int j') = Some es" "turns es xs ys i j'" "script_cost opt es = ?D i j'"
      using less.hyps[of i j'] less.prems ins(1) by auto
    have "backtrace ?m (int i) (int j) = Some (es @ [\<lparr>e_op = Ins, e_src = int i, e_dst = int j'\<rparr>])"
      using steps(2)[of es] ins(2,3) es(1) opt unfolding ins(1) pred diff_Suc_1 by simp
    moreover have "j' < length ys" using less.prems(3) ins(1) by simp
    ultimately show ?thesis
      using turns_Ins[OF es(2) less.prems(2)] es(3) ins(3) opt
      unfolding ins(1) by (intro exI conjI) (auto simp: snoc simp del: D.simps)
  next
    case sub
    obtain es where es: "backtrace ?m (int i') (int j') = Some es" "turns es xs ys i' j'" "script_cost opt es = ?D i' j'"
      using less.hyps[of i' j'] less.prems sub(1,2) by auto
    have "backtrace ?m (int i) (int j) = Some (es @ [\<lparr>e_op = Sub, e_src = int i', e_dst = int j'\<rparr>])"
      using steps(3)[of es] sub(3-5) es(1) opt unfolding sub(1,2) pred diff_Suc_1 by (simp del: D.simps)
    moreover have "i' < length xs" "j' < length ys" using less.prems(2,3) sub(1,2) by simp_all
    ultimately show ?thesis
      using turns_Sub[OF es(2)] es(3) sub(5) opt
      unfolding sub(1,2) by (intro exI conjI) (auto simp: snoc simp del: D.simps)
  next
    case match
    obtain es where es: "backtrace ?m (int i') (int j') = Some es" "turns es xs ys i' j'" "script_cost opt es = ?D i' j'"
      using less.hyps[of i' j'] less.prems match(1,2) by auto
    have "backtrace ?m (int i) (int j) = Some (es @ [\<lparr>e_op = Match, e_src = int i', e_dst = int j'\<rparr>])"
      using steps(4)[of es] match(3-6) es(1) opt unfolding match(1,2) pred diff_Suc_1 by (simp del: D.simps)
    moreover have "i' < length xs" "j' < length ys" using less.prems(2,3) match(1,2) by simp_all
    ultimately show ?thesis
      using turns_Match[OF es(2) _ _ match(7)] es(3) match(6) opt
      unfolding match(1,2)
      by (intro exI[of _ "es @ [\<lparr>e_op = Match, e_src = int i', e_dst = int j'\<rparr>]"] conjI) (auto simp: snoc simp del: D.simps)
  qed
qed

end

subsection \<open>Sorted words\<close>

lemma weed_set: "sorted vs \<Longrightarrow> \<forall>v\<in>set vs. prev \<le> v \<Longrightarrow>
   sorted_wrt (<) (weed vs prev) \<and> set (weed vs prev) = set vs - {prev} \<and> (\<forall>v\<in>set (weed vs prev). prev < v)"
proof (induction vs arbitrary: prev)
  case (Cons v vs)
  show ?case
  proof (cases "v = prev")
    case True
    with Cons show ?thesis by auto
  next
    case False
    with Cons.prems have lt: "prev < v" by auto
    have "sorted_wrt (<) (weed vs v) \<and> set (weed vs v) = set vs - {v} \<and> (\<forall>u\<in>set (weed vs v). v < u)"
      using Cons.IH[of v] Cons.prems(1) by simp
    then show ?thesis using False lt Cons.prems by (auto intro: less_trans)
  qed
qed simp

lemma weed_set_desc: "sorted_wrt (\<ge>) vs \<Longrightarrow> \<forall>v\<in>set vs. v \<le> prev \<Longrightarrow>
   sorted_wrt (>) (weed vs prev) \<and> set (weed vs prev) = set vs - {prev} \<and> (\<forall>v\<in>set (weed vs prev). v < prev)"
proof (induction vs arbitrary: prev)
  case (Cons v vs)
  show ?case
  proof (cases "v = prev")
    case True
    with Cons show ?thesis by auto
  next
    case False
    with Cons.prems have lt: "v < prev" by auto
    have "sorted_wrt (>) (weed vs v) \<and> set (weed vs v) = set vs - {v} \<and> (\<forall>u\<in>set (weed vs v). u < v)"
      using Cons.IH[of v] Cons.prems(1) by simp
    then show ?thesis using False lt Cons.prems by (auto intro: less_trans)
  qed
qed simp

lemma Fields_from_ne: "[] \<notin> set (Fields_from s w)"
  by (induction s w rule: Fields_from.induct) auto

lemma Fields_ne: "[] \<notin> set (Fields s)"
  by (simp add: Fields_def Fields_from_ne)

lemma weed_start: "[] \<notin> set vs \<Longrightarrow> weed vs [] = (case vs of [] \<Rightarrow> [] | v # us \<Rightarrow> v # weed us v)"
  by (cases vs) auto

subsection \<open>Properties\<close>

text \<open>C10: With insertion and deletion costs 1 and any non-negative substitution cost, Distance is the
  least cost of an alignment of the two token sequences, for every Equal that tells tokens apart.\<close>

theorem distance_optimal:
  assumes "equaler eq" "InsCost opt = 1" "DelCost opt = 1" "0 \<le> SubCost opt"
  shows "\<exists>d. map_option fst (Distance (New_l eq xs ys opt)) = Some d \<and> align opt xs ys d \<and>
    (\<forall>c. align opt xs ys c \<longrightarrow> d \<le> c)"
proof -
  have u: "unit_costs opt" using assms(2-4) by (simp add: unit_costs_def)
  have "align opt xs ys (D eq opt xs ys (length xs) (length ys))"
    using equaler.align_D[OF assms(1) u, of "length xs" xs "length ys" ys] by simp
  then show ?thesis using equaler.D_least[OF assms(1) _ u] Distance_D by blast
qed

lemma distance_optimal_witness:
  "\<exists>d. map_option fst (Distance (New_l Equal_rune [1, 2, 3] [2, 3, 4] DefaultOptions)) = Some d \<and>
     align DefaultOptions [1, 2, 3 :: rune_token] [2, 3, 4] d"
  using distance_optimal[OF rune_tok.equaler_axioms, of DefaultOptions "[1, 2, 3]" "[2, 3, 4]"]
  by (auto simp: DefaultOptions_def)

text \<open>C9: Under the same costs EditScript and ApplyEditScript do not panic, applying the script to the
  rows gives exactly the columns, and the cost of the script is the distance. Substitution may be
  cheaper than insertion.\<close>

theorem edit_script_roundtrip:
  assumes "equaler eq" "InsCost opt = 1" "DelCost opt = 1" "0 \<le> SubCost opt"
  shows "\<exists>es. EditScript (New_l eq xs ys opt) = Some es \<and>
    ApplyEditScript (New_l eq xs ys opt) es = Some ys \<and>
    map_option fst (Distance (New_l eq xs ys opt)) = Some (script_cost opt es)"
proof -
  have u: "unit_costs opt" using assms(2-4) by (simp add: unit_costs_def)
  obtain es where es: "backtrace (New_l eq xs ys opt) (int (length xs)) (int (length ys)) = Some es"
    "turns es xs ys (length xs) (length ys)" "script_cost opt es = D eq opt xs ys (length xs) (length ys)"
    using equaler.backtrace_spec[OF assms(1) u, of "length xs" xs "length ys" ys] by auto
  have "EditScript (New_l eq xs ys opt) = Some es"
    using es(1) by (simp add: EditScript_def New_l_dims del: upt_Suc)
  moreover have "apply_ops ys (es @ []) 0 0 xs = Some ys"
  proof -
    obtain si sd where "apply_ops ys (es @ []) 0 0 xs =
        apply_ops ys [] si sd (take (length ys) ys @ drop (length xs) xs)"
      using es(2) unfolding turns_def by blast
    then show ?thesis by simp
  qed
  ultimately show ?thesis using es(3) Distance_D[of eq xs ys opt] by (simp add: ApplyEditScript_def)
qed

lemma edit_script_roundtrip_witness:
  "\<exists>es. EditScript (New_l Equal_word [''ich'', ''du''] [''du'', ''er''] \<lparr>InsCost = 1, DelCost = 1, SubCost = 0\<rparr>) = Some es \<and>
     ApplyEditScript (New_l Equal_word [''ich'', ''du''] [''du'', ''er''] \<lparr>InsCost = 1, DelCost = 1, SubCost = 0\<rparr>) es =
       Some [''du'', ''er'']"
  using edit_script_roundtrip[OF word_tok.equaler_axioms,
      of "\<lparr>InsCost = 1, DelCost = 1, SubCost = 0\<rparr>" "[''ich'', ''du'']" "[''du'', ''er'']"] by auto

text \<open>With an insertion cost other than 1 the scripts are wrong: New fills the borders with the
  indices instead of multiples of the costs, so for a purely inserted token backtrace finds no step
  and returns the empty script, which rebuilds nothing.\<close>

theorem edit_script_needs_unit_costs:
  "c \<noteq> 1 \<Longrightarrow> InsCost opt = c \<Longrightarrow>
   EditScript (New_l eq [] [y] opt) = Some [] \<and> ApplyEditScript (New_l eq [] [y] opt) [] = Some []"
  by (simp add: EditScript_def New_l_def Let_def slice_get_def backtrace.simps costs_def cell_def
      ApplyEditScript_def)

lemma edit_script_needs_unit_costs_witness:
  "EditScript (New_l Equal_rune [] [7] \<lparr>InsCost = 2, DelCost = 2, SubCost = 3\<rparr>) = Some []"
  using edit_script_needs_unit_costs[of 2 "\<lparr>InsCost = 2, DelCost = 2, SubCost = 3\<rparr>" Equal_rune 7] by simp

text \<open>Sorted tokenization yields each word of the text once, in strictly increasing order at
  string level, but in strictly decreasing order at byte-slice level.\<close>

theorem sorted_tokens:
  "sorted_wrt (<) (WrapAsEqualer_word s True) \<and> set (WrapAsEqualer_word s True) = set (Fields s) \<and>
   sorted_wrt sortBoB_Less (WrapAsEqualer_wordb s True) \<and> WrapAsEqualer_wordb s True = rev (WrapAsEqualer_word s True)"
proof -
  have w: "sorted_wrt (<) (WrapAsEqualer_word s True)" "set (WrapAsEqualer_word s True) = set (Fields s)"
    using weed_set[of "sort (Fields s)" "[]"] Fields_ne[of s] by (auto simp: WrapAsEqualer_word_def)
  have b: "sorted_wrt (>) (WrapAsEqualer_wordb s True)" "set (WrapAsEqualer_wordb s True) = set (Fields s)"
  proof -
    have eq: "WrapAsEqualer_wordb s True = weed (rev (sort (Fields s))) []"
      by (simp add: WrapAsEqualer_wordb_def sortBoB_def)
    have "sorted_wrt (>) (WrapAsEqualer_wordb s True) \<and> set (WrapAsEqualer_wordb s True) = set (Fields s)"
    proof (cases "rev (sort (Fields s))")
      case Nil
      then have "set (Fields s) = {}" by (metis set_rev set_sort set_empty)
      with Nil show ?thesis unfolding eq by simp
    next
      case (Cons v us)
      have ne: "[] \<notin> set (v # us)" and mem: "set (v # us) = set (Fields s)"
        using Fields_ne[of s] unfolding Cons[symmetric] by simp_all
      have desc: "sorted_wrt (\<ge>) (v # us)" unfolding Cons[symmetric] by (simp add: sorted_wrt_rev)
      then show ?thesis
        using weed_set_desc[of us v] mem ne unfolding eq Cons weed_start[OF ne] by auto
    qed
    then show "sorted_wrt (>) (WrapAsEqualer_wordb s True)" "set (WrapAsEqualer_wordb s True) = set (Fields s)"
      by simp_all
  qed
  have "rev (WrapAsEqualer_wordb s True) = WrapAsEqualer_word s True"
    using w b by (intro strict_sorted_equal) (simp_all add: sorted_wrt_rev)
  then have "WrapAsEqualer_wordb s True = rev (WrapAsEqualer_word s True)" by (metis rev_rev_ident)
  with w b(1) show ?thesis by (simp add: sortBoB_Less_def[abs_def])
qed

end
