(* ===== verification/FsPath.thy ===== *)
theory FsPath
  imports Prelude
begin

section \<open>Paths and tree walks of the file-system layer\<close>

text \<open>
  \<^verbatim>\<open>os/fsi/common\<close>: the path normalisation all file systems share
  (\<^verbatim>\<open>canonical-paths.go\<close>) and \<^verbatim>\<open>Walk\<close> (\<^verbatim>\<open>walk.go\<close>).

  The part of the standard library's package \<^verbatim>\<open>path\<close> the code calls comes first:
  \<open>Clean\<close>, \<open>Join1\<close> and \<open>Join2\<close> (\<^verbatim>\<open>path.Join\<close> of one and of two elements),
  \<open>path_Split\<close>, \<open>Base\<close>. A path is cleaned component by component, as its documentation
  states: empty and dot components go away, a dotdot removes the component before it.

  \<open>Walk\<close> takes the file system as two operations on an arbitrary state (the interface
  \<^verbatim>\<open>fsi.FileSystem\<close>, of which it calls \<^verbatim>\<open>Lstat\<close> and \<^verbatim>\<open>ReadDir\<close>) and the call-back, which
  may change that state too. Nothing bounds the depth of a file system, so the recursion has
  fuel; a fuel above the height of the tree is enough, which \<open>walk_preorder\<close> shows.
\<close>

subsection \<open>The package path\<close>

fun split_on :: "char \<Rightarrow> string \<Rightarrow> string list" where
  "split_on c [] = [[]]"
| "split_on c (x # xs) =
     (if x = c then [] # split_on c xs else (x # hd (split_on c xs)) # tl (split_on c xs))"

fun join_slash :: "string list \<Rightarrow> string" where
  "join_slash [] = []"
| "join_slash [w] = w"
| "join_slash (w # v # ws) = w @ CHR ''/'' # join_slash (v # ws)"

text \<open>One component of the path against the components kept so far, the last one first.\<close>

fun clean_step :: "bool \<Rightarrow> string list \<Rightarrow> string \<Rightarrow> string list" where
  "clean_step rooted st c =
     (if c = [] \<or> c = ''.'' then st
      else if c = ''..'' then
        (case st of
           [] \<Rightarrow> if rooted then [] else [c]
         | d # st' \<Rightarrow> if d = ''..'' then c # st else st')
      else c # st)"

definition Clean :: "string \<Rightarrow> string" where
  "Clean p =
     (if p = [] then ''.''
      else let rooted = (hd p = CHR ''/'');
               s = join_slash (rev (foldl (clean_step rooted) [] (split_on (CHR ''/'') p)))
           in if rooted then CHR ''/'' # s else if s = [] then ''.'' else s)"

definition Join1 :: "string \<Rightarrow> string" where
  "Join1 p = (if p = [] then [] else Clean p)"

definition Join2 :: "string \<Rightarrow> string \<Rightarrow> string" where
  "Join2 a b =
     (if a = [] \<and> b = [] then [] else if a = [] then Clean b
      else if b = [] then Clean a else Clean (a @ CHR ''/'' # b))"

definition path_Split :: "string \<Rightarrow> string \<times> string" where
  "path_Split s =
     (rev (dropWhile (\<lambda>c. c \<noteq> CHR ''/'') (rev s)), rev (takeWhile (\<lambda>c. c \<noteq> CHR ''/'') (rev s)))"

definition Base :: "string \<Rightarrow> string" where
  "Base p =
     (if p = [] then ''.''
      else let q = rev (dropWhile (\<lambda>c. c = CHR ''/'') (rev p)); b = snd (path_Split q)
           in if b = [] then ''/'' else b)"

text \<open>\<^verbatim>\<open>strings.Replace(name, "//", "/", -1)\<close>: left to right, without overlaps.\<close>

fun undouble :: "string \<Rightarrow> string" where
  "undouble [] = []"
| "undouble [c] = [c]"
| "undouble (c # d # s) =
     (if c = CHR ''/'' \<and> d = CHR ''/'' then CHR ''/'' # undouble s else c # undouble (d # s))"

definition unbackslash :: "string \<Rightarrow> string" where
  "unbackslash s = map (\<lambda>c. if c = CHR 0x5C then CHR ''/'' else c) s"

subsection \<open>canonical-paths.go\<close>

definition cleanseLeadingAndDoublySlashes :: "string \<Rightarrow> string" where
  "cleanseLeadingAndDoublySlashes p =
     (let p1 = Join1 (TrimSpace p) in if HasPrefix p1 ''/'' then tl p1 else p1)"

definition UnixPather :: "string \<Rightarrow> string \<Rightarrow> string \<times> string" where
  "UnixPather name rootDir =
     (let rootName = (if length rootDir > 1 then butlast rootDir else rootDir);
          name1 = unbackslash name;
          isDirSuffix = (if length name1 > 1 \<and> HasSuffix name1 ''/'' then ''/'' else []);
          name2 = cleanseLeadingAndDoublySlashes name1;
          name3 = (if HasPrefix name2 ''.'' then undouble (rootDir @ tl name2) else name2);
          name4 = (if \<not> HasPrefix name3 rootName then rootDir @ name3 else name3);
          name5 = (if name4 = rootName then name4 @ ''/'' else name4);
          (dir, bname) = path_Split name5;
          dir1 = (if \<not> HasSuffix dir ''/'' then dir @ ''/'' else dir);
          bname1 = (if length bname > 1 then bname @ isDirSuffix else bname)
      in (dir1, bname1))"

definition Filify :: "string \<Rightarrow> string" where
  "Filify bname =
     (if length bname > 1 then TrimSuffix bname ''/''
      else if bname = ''/'' then [] else if bname = ''.'' then [] else if bname = [] then []
      else bname)"

definition Directorify :: "string \<Rightarrow> string" where
  "Directorify name =
     (if name = ''/'' \<or> name = [] \<or> name = ''.'' then name
      else if HasSuffix name ''/'' then name else name @ ''/'')"

subsection \<open>walk.go\<close>

datatype 'e walk_err = SkipDir | EmptyQueryResult | WErr 'e

text \<open>What \<^verbatim>\<open>walk\<close> calls of an \<^verbatim>\<open>os.FileInfo\<close>; nil is \<open>None\<close>, its methods panic.\<close>

record finfo =
  fi_Name :: string
  fi_IsDir :: bool

definition IsDir :: "finfo option \<Rightarrow> bool option" where
  "IsDir info = map_option fi_IsDir info"

type_synonym ('e, 's) walkFunc =
  "string \<Rightarrow> finfo option \<Rightarrow> 'e walk_err option \<Rightarrow> 's \<Rightarrow> 'e walk_err option \<times> 's"
type_synonym ('e, 's) lstatFunc = "string \<Rightarrow> 's \<Rightarrow> (finfo option \<times> 'e walk_err option) \<times> 's"
type_synonym ('e, 's) readdirFunc = "string \<Rightarrow> 's \<Rightarrow> (finfo list \<times> 'e walk_err option) \<times> 's"

fun walk :: "('e, 's) lstatFunc \<Rightarrow> ('e, 's) readdirFunc \<Rightarrow> ('e, 's) walkFunc \<Rightarrow>
             nat \<Rightarrow> string \<Rightarrow> finfo option \<Rightarrow> 's \<Rightarrow> ('e walk_err option \<times> 's) option"
  and walk_entries :: "('e, 's) lstatFunc \<Rightarrow> ('e, 's) readdirFunc \<Rightarrow> ('e, 's) walkFunc \<Rightarrow>
             nat \<Rightarrow> string \<Rightarrow> finfo list \<Rightarrow> 's \<Rightarrow> ('e walk_err option \<times> 's) option" where
  "walk lstat readDir walkFn 0 path info s = None"
| "walk lstat readDir walkFn (Suc fuel) path info s =
     (case walkFn path info None s of
        (Some err, s1) \<Rightarrow> do {
          d \<leftarrow> IsDir info;
          Some (if d \<and> err = SkipDir then None else Some err, s1)
        }
      | (None, s1) \<Rightarrow> do {
          d \<leftarrow> IsDir info;
          if \<not> d then Some (None, s1)
          else (case readDir path s1 of
                  ((fis, err), s2) \<Rightarrow>
                    if err \<noteq> None \<and> err \<noteq> Some EmptyQueryResult then Some (walkFn path info err s2)
                    else walk_entries lstat readDir walkFn fuel path fis s2)
        })"
| "walk_entries lstat readDir walkFn fuel path [] s = Some (None, s)"
| "walk_entries lstat readDir walkFn fuel path (fi # fis) s =
     (let filename = Join2 path (Base (fi_Name fi)) in
      case lstat filename s of
        ((fileInfo, Some err), s1) \<Rightarrow>
          (case walkFn filename fileInfo (Some err) s1 of
             (e, s2) \<Rightarrow> if e \<noteq> None \<and> e \<noteq> Some SkipDir then Some (e, s2)
                        else walk_entries lstat readDir walkFn fuel path fis s2)
      | ((fileInfo, None), s1) \<Rightarrow> do {
          (e, s2) \<leftarrow> walk lstat readDir walkFn fuel filename fileInfo s1;
          if e \<noteq> None then do {
            d \<leftarrow> IsDir fileInfo;
            if \<not> d \<or> e \<noteq> Some SkipDir then Some (e, s2)
            else walk_entries lstat readDir walkFn fuel path fis s2
          } else walk_entries lstat readDir walkFn fuel path fis s2
        })"

definition Walk :: "('e, 's) lstatFunc \<Rightarrow> ('e, 's) readdirFunc \<Rightarrow> ('e, 's) walkFunc \<Rightarrow>
             nat \<Rightarrow> string \<Rightarrow> 's \<Rightarrow> ('e walk_err option \<times> 's) option" where
  "Walk lstat readDir walkFn fuel root s =
     (case lstat root s of
        ((info, Some err), s1) \<Rightarrow> Some (walkFn root None (Some err) s1)
      | ((info, None), s1) \<Rightarrow> walk lstat readDir walkFn fuel root info s1)"

subsection \<open>Paths as lists of components\<close>

lemma split_on_ne [simp]: "split_on c s \<noteq> []"
  by (cases s) auto

lemma split_on_hd_tl [simp]: "hd (split_on c s) # tl (split_on c s) = split_on c s"
  by simp

lemma split_on_no_sep: "c \<notin> set w \<Longrightarrow> split_on c w = [w]"
  by (induction w) auto

lemma split_on_append: "c \<notin> set w \<Longrightarrow> split_on c (w @ c # s) = w # split_on c s"
  by (induction w) auto

lemma split_on_pieces: "w \<in> set (split_on c s) \<Longrightarrow> c \<notin> set w"
  by (induction s arbitrary: w) (auto split: if_splits dest: list.set_sel(2)[OF split_on_ne] intro: list.set_sel(1)[OF split_on_ne])

lemma split_on_first:
  "s \<noteq> [] \<Longrightarrow> hd s = c \<or> (hd (split_on c s) \<noteq> [] \<and> hd s = hd (hd (split_on c s)))"
  by (cases s) auto

lemma split_on_snoc:
  "split_on c (s @ [x]) =
     (if x = c then split_on c s @ [[]]
      else butlast (split_on c s) @ [last (split_on c s) @ [x]])"
proof (induction s)
  case (Cons a s)
  obtain w ws where "split_on c s = w # ws"
    by (cases "split_on c s") auto
  then show ?case using Cons.IH by (cases ws) auto
qed simp

lemma split_on_last:
  "s \<noteq> [] \<Longrightarrow> last s = c \<or> (last (split_on c s) \<noteq> [] \<and> last s = last (last (split_on c s)))"
  by (cases s rule: rev_cases) (auto simp: split_on_snoc)

lemma split_on_join:
  "ws \<noteq> [] \<Longrightarrow> \<forall>w\<in>set ws. CHR ''/'' \<notin> set w \<Longrightarrow> split_on (CHR ''/'') (join_slash ws) = ws"
  by (induction ws rule: join_slash.induct) (auto simp: split_on_no_sep split_on_append)

lemma join_slash_Cons: "ws \<noteq> [] \<Longrightarrow> join_slash (w # ws) = w @ CHR ''/'' # join_slash ws"
  by (cases ws) auto

lemma join_slash_snoc: "ws \<noteq> [] \<Longrightarrow> join_slash (ws @ [w]) = join_slash ws @ CHR ''/'' # w"
  by (induction ws rule: join_slash.induct) auto

lemma path_Split_slash: "CHR ''/'' \<notin> set w \<Longrightarrow> path_Split (p @ CHR ''/'' # w) = (p @ ''/'', w)"
proof -
  assume w: "CHR ''/'' \<notin> set w"
  then have "\<forall>c\<in>set (rev w). c \<noteq> CHR ''/''" by auto
  then show ?thesis
    by (simp add: path_Split_def dropWhile_append takeWhile_append)
qed

lemma path_Split_join:
  assumes "\<forall>w\<in>set ws. CHR ''/'' \<notin> set w" "length ws > 1"
  shows "path_Split (join_slash ws) = (join_slash (butlast ws) @ ''/'', last ws)"
proof -
  from assms(2) obtain us w where ws: "ws = us @ [w]" "us \<noteq> []"
    by (cases ws rule: rev_cases) auto
  then show ?thesis using assms(1) by (simp add: join_slash_snoc path_Split_slash)
qed

text \<open>A component that no step of the normalisation treats specially.\<close>

definition plain :: "string \<Rightarrow> bool" where
  "plain w \<longleftrightarrow> w \<noteq> [] \<and> CHR ''/'' \<notin> set w \<and> CHR 0x5C \<notin> set w \<and> hd w \<noteq> CHR ''.'' \<and>
     \<not> is_space (hd w) \<and> \<not> is_space (last w)"

lemma plainD [dest]:
  assumes "plain w"
  shows "w \<noteq> []" "CHR ''/'' \<notin> set w" "hd w \<noteq> CHR ''.''" "\<not> is_space (hd w)" "\<not> is_space (last w)"
    "w \<noteq> ''.''" "w \<noteq> ''..''"
  using assms by (auto simp: plain_def)

text \<open>The components of a spelling of a path: slashes may lead, trail and repeat.\<close>

definition comps :: "string \<Rightarrow> string list" where
  "comps s = filter (\<lambda>w. w \<noteq> []) (split_on (CHR ''/'') (unbackslash s))"

lemma clean_plain:
  "\<forall>w\<in>set ws. w \<noteq> [] \<longrightarrow> plain w \<Longrightarrow>
   foldl (clean_step rooted) st ws = rev (filter (\<lambda>w. w \<noteq> []) ws) @ st"
  by (induction ws arbitrary: st) (auto dest: plainD)

lemma not_space_slash [simp]: "\<not> is_space CHR ''/''"
  by (simp add: is_space_def)

lemma TrimSpace_spelling:
  assumes "\<forall>w\<in>set (split_on (CHR ''/'') s). w \<noteq> [] \<longrightarrow> plain w"
  shows "TrimSpace s = s"
proof (rule TrimSpace_id, cases "s = []")
  case False
  have "\<not> is_space (hd s)"
    using split_on_first[OF False, of "CHR ''/''"] assms list.set_sel(1)[OF split_on_ne]
    by (metis not_space_slash plainD(4))
  moreover have "\<not> is_space (last s)"
    using split_on_last[OF False, of "CHR ''/''"] assms last_in_set[OF split_on_ne]
    by (metis not_space_slash plainD(5))
  ultimately show "s = [] \<or> \<not> is_space (hd s) \<and> \<not> is_space (last s)" by simp
qed simp

lemma join_slash_hd: "ws \<noteq> [] \<Longrightarrow> hd ws \<noteq> [] \<Longrightarrow> hd (join_slash ws) = hd (hd ws)"
  by (cases ws rule: join_slash.cases) auto

lemma join_slash_Nil: "\<forall>w\<in>set ws. w \<noteq> [] \<Longrightarrow> join_slash ws = [] \<longleftrightarrow> ws = []"
  by (cases ws rule: join_slash.cases) auto

lemma cleanse_comps:
  assumes "\<forall>w\<in>set (comps s). plain w"
  shows "cleanseLeadingAndDoublySlashes (unbackslash s) = join_slash (comps s)"
proof -
  let ?s = "unbackslash s" and ?ws = "comps s"
  have pl: "\<forall>w\<in>set (split_on (CHR ''/'') ?s). w \<noteq> [] \<longrightarrow> plain w"
    using assms by (auto simp: comps_def)
  have tr: "TrimSpace ?s = ?s" by (rule TrimSpace_spelling[OF pl])
  have fo: "foldl (clean_step b) [] (split_on (CHR ''/'') ?s) = rev ?ws" for b
    using clean_plain[OF pl, of b "[]"] by (simp add: comps_def)
  have hd: "?ws \<noteq> [] \<Longrightarrow> hd (join_slash ?ws) \<noteq> CHR ''/''"
    using assms plainD(1,2)[of "hd ?ws"] by (metis hd_in_set join_slash_hd)
  have nil: "join_slash ?ws = [] \<longleftrightarrow> ?ws = []"
    using assms plainD(1) by (metis join_slash_Nil)
  show ?thesis
  proof (cases "?s = []")
    case True
    then have "?ws = []" by (simp add: comps_def)
    then show ?thesis
      by (simp add: cleanseLeadingAndDoublySlashes_def True TrimSpace_def Join1_def HasPrefix_def)
  next
    case False
    have rel: "hd ?s \<noteq> CHR ''/'' \<Longrightarrow> ?ws \<noteq> []"
      using split_on_first[OF False, of "CHR ''/''"] list.set_sel(1)[OF split_on_ne]
      by (fastforce simp: comps_def filter_empty_conv)
    show ?thesis
      using hd nil rel False
      by (cases "hd ?s = CHR ''/''"; cases "join_slash ?ws")
         (auto simp: cleanseLeadingAndDoublySlashes_def tr Join1_def Clean_def fo HasPrefix_def)
  qed
qed

lemma split_on_length: "w \<in> set (split_on c s) \<Longrightarrow> length w \<le> length s"
proof (induction s arbitrary: w)
  case (Cons a s)
  then show ?case
    by (cases "split_on c s") (fastforce split: if_splits)+
qed simp

lemma HasPrefix_join:
  assumes "CHR ''/'' \<notin> set r" "ws \<noteq> []"
  shows "HasPrefix (join_slash ws) r \<longleftrightarrow> HasPrefix (hd ws) r"
proof (cases "tl ws = []")
  case True
  with assms(2) show ?thesis by (cases ws) auto
next
  case False
  with assms(2) have "join_slash ws = hd ws @ CHR ''/'' # join_slash (tl ws)"
    by (cases ws) (auto simp: join_slash_Cons)
  then show ?thesis
    using assms(1) by (auto simp: HasPrefix_iff append_eq_append_conv2 Cons_eq_append_conv)
qed

lemma plain_join_hd:
  assumes "\<forall>w\<in>set ws. plain w"
  shows "\<not> HasPrefix (join_slash ws) ''.''"
proof (cases "ws = []")
  case True
  then show ?thesis by (simp add: HasPrefix_def)
next
  case False
  with assms have "plain (hd ws)" by simp
  then have "hd (join_slash ws) \<noteq> CHR ''.''"
    using join_slash_hd[OF False] plainD(1,3)[of "hd ws"] by metis
  then show ?thesis by (auto simp: HasPrefix_iff)
qed

text \<open>The components below the root: the root's name may lead or be left out.\<close>

definition below :: "string \<Rightarrow> string list \<Rightarrow> string list" where
  "below r ws = (if ws \<noteq> [] \<and> hd ws = r then tl ws else ws)"

lemma path_Split_comps:
  assumes "\<forall>w\<in>set (r # ws). plain w"
  shows "path_Split (if ws = [] then r @ ''/'' else join_slash (r # ws))
           = (join_slash (r # butlast ws) @ ''/'', if ws = [] then [] else last ws)"
proof (cases "ws = []")
  case True
  then show ?thesis using path_Split_slash[of "[]" r] by simp
next
  case False
  then have "length (r # ws) > 1" by simp
  from path_Split_join[OF _ this] assms False show ?thesis by (auto dest: plainD)
qed

lemma UnixPather_comps:
  assumes r: "plain r"
    and ws: "\<forall>w\<in>set (comps name). plain w"
    and root: "comps name = [] \<or> hd (comps name) = r \<or> \<not> HasPrefix (hd (comps name)) r"
  shows "UnixPather name (r @ ''/'') =
     (let ws = below r (comps name) in
      if ws = [] then (r @ ''/'', [])
      else (join_slash (r # butlast ws) @ ''/'',
            last ws @ (if length (last ws) > 1 \<and> HasSuffix (unbackslash name) ''/''
                       then ''/'' else [])))"
proof -
  let ?c = "comps name" and ?R = "r @ ''/''" and ?b = "below r (comps name)"
  let ?sfx = "if length (unbackslash name) > 1 \<and> HasSuffix (unbackslash name) ''/'' then ''/'' else []"
  have bp: "\<forall>w\<in>set (r # ?b). plain w"
    using r ws by (cases ?c) (auto simp: below_def)
  have n4: "(if \<not> HasPrefix (join_slash ?c) r then ?R @ join_slash ?c else join_slash ?c)
              = (if ?b = [] then (if ?c = [] then ?R else r) else join_slash (r # ?b))"
  proof (cases "?c = []")
    case True
    then show ?thesis using plainD(1)[OF r] by (simp add: below_def HasPrefix_def)
  next
    case False
    then have hp: "HasPrefix (join_slash ?c) r = HasPrefix (hd ?c) r"
      by (rule HasPrefix_join[OF plainD(2)[OF r]])
    show ?thesis
    proof (cases "hd ?c = r")
      case True
      then have "HasPrefix (hd ?c) r" by (simp add: HasPrefix_def)
      moreover have "join_slash ?c = (if ?b = [] then r else join_slash (r # ?b))"
        using True False by (cases ?c) (auto simp: below_def)
      ultimately show ?thesis using hp False by simp
    next
      case ne: False
      then have "\<not> HasPrefix (hd ?c) r" using root False by auto
      then show ?thesis using hp ne False by (simp add: below_def join_slash_Cons)
    qed
  qed
  have ne: "?b \<noteq> [] \<Longrightarrow> join_slash (r # ?b) \<noteq> r"
    by (simp add: join_slash_Cons)
  let ?n4 = "if \<not> HasPrefix (join_slash ?c) r then ?R @ join_slash ?c else join_slash ?c"
  have n5: "(if ?n4 = r then ?n4 @ ''/'' else ?n4) = (if ?b = [] then r @ ''/'' else join_slash (r # ?b))"
    unfolding n4 using ne by auto
  have len: "length (last ?b) > 1 \<Longrightarrow> ?b \<noteq> [] \<Longrightarrow> length (unbackslash name) > 1"
  proof -
    assume l: "length (last ?b) > 1" and n: "?b \<noteq> []"
    have "last ?b \<in> set ?c"
      using n by (cases ?c) (auto simp: below_def split: if_splits)
    then have "last ?b \<in> set (split_on (CHR ''/'') (unbackslash name))" by (simp add: comps_def)
    from split_on_length[OF this] l show ?thesis by simp
  qed
  have hd: "(if HasPrefix (join_slash ?c) ''.'' then undouble (?R @ tl (join_slash ?c)) else join_slash ?c)
              = join_slash ?c"
    using plain_join_hd[OF ws] by simp
  have rn: "(if length ?R > 1 then butlast ?R else ?R) = r"
    using plainD(1)[OF r] by simp
  let ?bn = "if ?b = [] then [] else last ?b"
  have "UnixPather name ?R =
      (join_slash (r # butlast ?b) @ ''/'', if length ?bn > 1 then ?bn @ ?sfx else ?bn)"
    unfolding UnixPather_def Let_def rn cleanse_comps[OF ws] hd n5 path_Split_comps[OF bp]
    by simp
  then show ?thesis using len by (auto simp: Let_def)
qed

text \<open>The components of the name with the mount point's in front, unless the first one begins with it.\<close>

definition mounted :: "string \<Rightarrow> string list \<Rightarrow> string list" where
  "mounted r cs = (if cs \<noteq> [] \<and> HasPrefix (hd cs) r then cs else r # cs)"

lemma hd_mounted: "hd (mounted r cs) = r \<longleftrightarrow> cs = [] \<or> hd cs = r \<or> \<not> HasPrefix (hd cs) r"
  by (auto simp: mounted_def HasPrefix_def)

lemma UnixPather_mounted:
  assumes r: "plain r" and ws: "\<forall>w\<in>set (comps name). plain w"
  shows "UnixPather name (r @ ''/'') =
     (let ws = mounted r (comps name) in
      if ws = [r] then (r @ ''/'', [])
      else ((if tl ws = [] then ''/'' else join_slash (butlast ws) @ ''/''),
            last ws @ (if length (last ws) > 1 \<and> HasSuffix (unbackslash name) ''/'' then ''/'' else [])))"
proof -
  let ?c = "comps name" and ?R = "r @ ''/''" and ?u = "mounted r (comps name)"
  let ?sfx = "if length (unbackslash name) > 1 \<and> HasSuffix (unbackslash name) ''/'' then ''/'' else []"
  have pu: "\<forall>w\<in>set ?u. plain w" "?u \<noteq> []" using r ws by (auto simp: mounted_def)
  have ns: "\<forall>w\<in>set ?u. CHR ''/'' \<notin> set w" using pu(1) by (auto dest: plainD)
  have n4: "(if \<not> HasPrefix (join_slash ?c) r then ?R @ join_slash ?c else join_slash ?c) = (if ?c = [] then ?R else join_slash ?u)"
    using HasPrefix_join[OF plainD(2)[OF r], of ?c] plainD(1)[OF r]
    by (cases "?c = []") (auto simp: mounted_def HasPrefix_def join_slash_Cons)
  let ?n4 = "if \<not> HasPrefix (join_slash ?c) r then ?R @ join_slash ?c else join_slash ?c"
  have jr: "join_slash ?u = r \<longleftrightarrow> ?u = [r]"
  proof
    assume j: "join_slash ?u = r"
    have "tl ?u = []"
    proof (rule ccontr)
      assume "tl ?u \<noteq> []"
      then have "CHR ''/'' \<in> set (join_slash ?u)" using join_slash_Cons[of "tl ?u" "hd ?u"] pu(2) by simp
      then show False unfolding j using plainD(2)[OF r] by blast
    qed
    then show "?u = [r]" using j pu(2) by (cases ?u) auto
  qed simp
  have nil: "?c = [] \<Longrightarrow> ?u = [r]" by (simp add: mounted_def)
  have n5: "(if ?n4 = r then ?n4 @ ''/'' else ?n4) = (if ?u = [r] then ?R else join_slash ?u)"
    unfolding n4 using jr nil by auto
  have sp: "path_Split (if ?u = [r] then ?R else join_slash ?u) =
      (if ?u = [r] then ?R else if tl ?u = [] then [] else join_slash (butlast ?u) @ ''/'', if ?u = [r] then [] else last ?u)"
  proof (cases "?u = [r]")
    case True
    then show ?thesis using path_Split_slash[of "[]" r] by simp
  next
    case False
    show ?thesis
    proof (cases "tl ?u = []")
      case True
      then obtain w where w: "?u = [w]" using pu(2) by (cases ?u) auto
      have "\<forall>c\<in>set (rev w). c \<noteq> CHR ''/''" using ns w by auto
      then have "path_Split w = ([], w)" unfolding path_Split_def by (simp add: takeWhile_eq_all_conv[THEN iffD2] dropWhile_eq_Nil_conv[THEN iffD2])
      then show ?thesis using False w by simp
    next
      case long: False
      then have "length ?u > 1" by (cases ?u) auto
      from path_Split_join[OF ns this] show ?thesis using False long by simp
    qed
  qed
  have len: "length (last ?u) > 1 \<Longrightarrow> ?u \<noteq> [r] \<Longrightarrow> length (unbackslash name) > 1"
  proof -
    assume l: "length (last ?u) > 1" and n: "?u \<noteq> [r]"
    then have "?c \<noteq> []" using nil by blast
    then have "last ?u \<in> set ?c" by (auto simp: mounted_def)
    then have "last ?u \<in> set (split_on (CHR ''/'') (unbackslash name))" by (simp add: comps_def)
    from split_on_length[OF this] l show ?thesis by simp
  qed
  have hd: "(if HasPrefix (join_slash ?c) ''.'' then undouble (?R @ tl (join_slash ?c)) else join_slash ?c) = join_slash ?c"
    using plain_join_hd[OF ws] by simp
  have rn: "(if length ?R > 1 then butlast ?R else ?R) = r" using plainD(1)[OF r] by simp
  have d: "HasSuffix (xs @ ''/'') ''/''" for xs by simp
  have e: "\<not> HasSuffix [] ''/''" by (simp add: HasSuffix_def)
  show ?thesis
    unfolding UnixPather_def Let_def rn cleanse_comps[OF ws] hd n5 sp
    using len by (auto simp: d e)
qed

text \<open>C12: The exact result of UnixPather on every spelling of a path whose components are plain (not empty, no slash or backslash
  in them, no leading dot, no space at either end): slashes may lead, trail and repeat, backslashes count as slashes. The directory
  and the base name are those of the components with the mount point in front, except that a first component of which the mount
  point is a prefix is not prefixed again: it leads below the mount point iff it is the mount point itself, and otherwise out of it.
  The trailing slash of a directory is kept, except where the last component has one letter.\<close>
theorem unixpather_canonical:
  assumes r: "plain r" and ws: "\<forall>w\<in>set (comps name). plain w"
  shows "UnixPather name (r @ ''/'') =
     (let ws = mounted r (comps name) in
      if ws = [r] then (r @ ''/'', [])
      else ((if tl ws = [] then ''/'' else join_slash (butlast ws) @ ''/''),
            last ws @ (if length (last ws) > 1 \<and> HasSuffix (unbackslash name) ''/'' then ''/'' else []))) \<and>
     (hd (mounted r (comps name)) = r \<longleftrightarrow> comps name = [] \<or> hd (comps name) = r \<or> \<not> HasPrefix (hd (comps name)) r)"
  by (rule conjI[OF UnixPather_mounted[OF assms] hd_mounted])

lemma unixpather_canonical_witness:
  "UnixPather [CHR ''/'', CHR ''d'', CHR ''c'', CHR 0x5C, CHR 0x5C, CHR ''h'', CHR ''i'', CHR ''/'']
     (''mnt00'' @ ''/'') = (''mnt00/dc/'', ''hi/'') \<and> UnixPather ''mnt001//x'' (''mnt00'' @ ''/'') = (''mnt001/'', ''x'')"
proof -
  let ?n = "[CHR ''/'', CHR ''d'', CHR ''c'', CHR 0x5C, CHR 0x5C, CHR ''h'', CHR ''i'', CHR ''/'']"
  let ?res = "\<lambda>name. let ws = mounted ''mnt00'' (comps name) in
      if ws = [''mnt00''] then (''mnt00'' @ ''/'', [])
      else ((if tl ws = [] then ''/'' else join_slash (butlast ws) @ ''/''),
            last ws @ (if length (last ws) > 1 \<and> HasSuffix (unbackslash name) ''/'' then ''/'' else []))"
  have 1: "plain ''mnt00''" by code_simp
  have 2: "\<forall>w\<in>set (comps ?n). plain w" "\<forall>w\<in>set (comps ''mnt001//x''). plain w" by code_simp+
  have 3: "?res ?n = (''mnt00/dc/'', ''hi/'')" "?res ''mnt001//x'' = (''mnt001/'', ''x'')" by code_simp+
  show ?thesis using unixpather_canonical[OF 1 2(1)] unixpather_canonical[OF 1 2(2)] unfolding 3 by blast
qed

text \<open>Filify and Directorify undo each other, except on the root, the current directory
  and repeated slashes.\<close>

lemma TrimSuffix_single: "TrimSuffix s [c] = (if s \<noteq> [] \<and> last s = c then butlast s else s)"
  by (cases s rule: rev_cases) (auto simp: TrimSuffix_def HasSuffix_single)

lemma Filify_Directorify:
  "\<not> HasSuffix n ''/'' \<Longrightarrow> n \<noteq> ''.'' \<Longrightarrow> Filify (Directorify n) = n"
  by (cases "n = []") (auto simp: Filify_def Directorify_def TrimSuffix_single HasSuffix_single)

lemma Directorify_Filify:
  assumes "HasSuffix n ''/''" "n \<noteq> ''/''" "n \<noteq> ''./''" "\<not> HasSuffix n ''//''"
  shows "Directorify (Filify n) = n"
proof -
  obtain m where n: "n = m @ ''/''" using assms(1) by (auto simp: HasSuffix_iff)
  have "m \<noteq> []" "m \<noteq> ''.''" using assms(2,3) n by auto
  moreover have "\<not> HasSuffix m ''/''"
    using assms(4) n by (auto simp: HasSuffix_iff)
  ultimately show ?thesis
    using n by (auto simp: Filify_def Directorify_def TrimSuffix_single HasSuffix_single)
qed

text \<open>A name that merely begins with the mount point's name is taken to be below it,
  so it ends up outside the root.\<close>
lemma unixpather_leaves_root:
  "UnixPather ''mnt001/secret.txt'' ''mnt00/'' = (''mnt001/'', ''secret.txt'')"
  by code_simp

text \<open>A leading dot is read as the current directory, so hidden files lose it.\<close>
lemma unixpather_hidden_file:
  "UnixPather ''.htaccess'' ''mnt00/'' = UnixPather ''htaccess'' ''mnt00/''"
  by code_simp

text \<open>The directory of a one-letter name loses its slash.\<close>
lemma unixpather_one_letter:
  "UnixPather ''docs/ab/'' ''mnt00/'' = (''mnt00/docs/'', ''ab/'')"
  "UnixPather ''docs/a/'' ''mnt00/'' = (''mnt00/docs/'', ''a'')"
  by code_simp+

subsection \<open>Walking a finite tree\<close>

text \<open>A finite tree of files and directories, each with its name, and when a file system's
  two operations show it below a path.\<close>

datatype ftree = File string | Dir string "ftree list"

fun tree_info :: "ftree \<Rightarrow> finfo" where
  "tree_info (File n) = \<lparr>fi_Name = n, fi_IsDir = False\<rparr>"
| "tree_info (Dir n ts) = \<lparr>fi_Name = n, fi_IsDir = True\<rparr>"

abbreviation child_path :: "string \<Rightarrow> ftree \<Rightarrow> string" where
  "child_path p t \<equiv> Join2 p (Base (fi_Name (tree_info t)))"

fun displays :: "(string \<Rightarrow> finfo option) \<Rightarrow> (string \<Rightarrow> finfo list) \<Rightarrow> string \<Rightarrow> ftree \<Rightarrow> bool" where
  "displays ls rd p (File n) = (ls p = Some (tree_info (File n)))"
| "displays ls rd p (Dir n ts) =
     (ls p = Some (tree_info (Dir n ts)) \<and> rd p = map tree_info ts \<and>
      (\<forall>t\<in>set ts. displays ls rd (child_path p t) t))"

fun tree_height :: "ftree \<Rightarrow> nat" where
  "tree_height (File n) = 1"
| "tree_height (Dir n ts) = Suc (fold max (map tree_height ts) 0)"

text \<open>The paths in the order of the crawl; \<open>skip\<close> tells the directories not to enter.\<close>

fun preorder :: "(string \<Rightarrow> bool) \<Rightarrow> string \<Rightarrow> ftree \<Rightarrow> string list" where
  "preorder skip p (File n) = [p]"
| "preorder skip p (Dir n ts) =
     p # (if skip p then [] else concat (map (\<lambda>t. preorder skip (child_path p t) t) ts))"

text \<open>The call-back that logs its path and skips the chosen directories.\<close>

definition logging :: "(string \<Rightarrow> bool) \<Rightarrow> (unit, string list) walkFunc" where
  "logging skip path info err log =
     (if skip path \<and> (\<exists>i. info = Some i \<and> fi_IsDir i) then Some SkipDir else None, log @ [path])"

definition still_lstat :: "(string \<Rightarrow> finfo option) \<Rightarrow> (unit, 's) lstatFunc" where
  "still_lstat ls p s = ((ls p, if ls p = None then Some (WErr ()) else None), s)"

definition still_readdir :: "(string \<Rightarrow> finfo list) \<Rightarrow> (unit, 's) readdirFunc" where
  "still_readdir rd p s = ((rd p, None), s)"

lemma fold_max_le: "fold max xs (a::nat) \<le> n \<longleftrightarrow> a \<le> n \<and> (\<forall>x\<in>set xs. x \<le> n)"
  by (induction xs arbitrary: a) auto

lemma displays_ls: "displays ls rd p t \<Longrightarrow> ls p = Some (tree_info t)"
  by (cases t) auto

lemma logging_Some:
  "logging skip p (Some i) e log =
     (if skip p \<and> fi_IsDir i then Some SkipDir else None, log @ [p])"
  by (simp add: logging_def)

lemma walk_tree:
  "displays ls rd p t \<Longrightarrow> tree_height t \<le> n \<Longrightarrow>
   walk (still_lstat ls) (still_readdir rd) (logging skip) n p (Some (tree_info t)) log
     = Some (None, log @ preorder skip p t)"
proof (induction n arbitrary: p t log)
  case 0
  then show ?case by (cases t) auto
next
  case (Suc n)
  show ?case
  proof (cases t)
    case (File nm)
    then show ?thesis by (simp add: logging_def IsDir_def)
  next
    case (Dir nm ts)
    have ent: "walk_entries (still_lstat ls) (still_readdir rd) (logging skip) n p (map tree_info us) l
            = Some (None, l @ concat (map (\<lambda>t. preorder skip (child_path p t) t) us))"
      if "set us \<subseteq> set ts" for us l
      using that
    proof (induction us arbitrary: l)
      case (Cons u us)
      then have u: "displays ls rd (child_path p u) u" "tree_height u \<le> n"
        using Suc.prems Dir by (auto simp: fold_max_le)
      show ?case
        using Suc.IH[OF u, of l] Cons displays_ls[OF u(1)]
        by (simp add: still_lstat_def Let_def)
    qed simp
    show ?thesis
      using Suc.prems Dir ent[of ts "log @ [p]"]
      by (auto simp: logging_Some IsDir_def still_readdir_def[of rd p "log @ [p]"])
  qed
qed

text \<open>C13: On a file system that shows a finite tree, Walk calls the call-back exactly once for
  the root and every file and directory below it, each directory before its contents and in
  the order of ReadDir, leaves out what lies below a directory answered with SkipDir, and
  returns no error; a fuel of the tree's height is enough.\<close>
theorem walk_preorder:
  assumes "displays ls rd root t" "tree_height t \<le> fuel"
  shows "Walk (still_lstat ls) (still_readdir rd) (logging skip) fuel root log
           = Some (None, log @ preorder skip root t)"
  using walk_tree[OF assms] displays_ls[OF assms(1)] by (simp add: Walk_def still_lstat_def)

definition example_tree :: ftree where
  "example_tree = Dir ''a'' [Dir ''b'' [File ''x''], Dir ''c'' [File ''y''], File ''z'']"

lemma walk_preorder_witness:
  "\<exists>ls rd. Walk (still_lstat ls) (still_readdir rd) (logging (\<lambda>p. p = ''a/b'')) 3 ''a'' []
     = Some (None, [''a'', ''a/b'', ''a/c'', ''a/c/y'', ''a/z''])"
proof -
  define ls where "ls p = map_of [(''a'', tree_info example_tree), (''a/b'', tree_info (Dir ''b'' [])),
     (''a/c'', tree_info (Dir ''c'' [])), (''a/b/x'', tree_info (File ''x'')),
     (''a/c/y'', tree_info (File ''y'')), (''a/z'', tree_info (File ''z''))] p" for p :: string
  define rd where "rd p = (if p = ''a'' then map tree_info [Dir ''b'' [], Dir ''c'' [], File ''z'']
     else if p = ''a/b'' then [tree_info (File ''x'')]
     else if p = ''a/c'' then [tree_info (File ''y'')] else [])" for p :: string
  have p: "Join2 ''a'' (Base ''b'') = ''a/b''" "Join2 ''a'' (Base ''c'') = ''a/c''"
    "Join2 ''a'' (Base ''z'') = ''a/z''" "Join2 ''a/b'' (Base ''x'') = ''a/b/x''"
    "Join2 ''a/c'' (Base ''y'') = ''a/c/y''" by code_simp+
  have "displays ls rd ''a'' example_tree" by (simp add: example_tree_def ls_def rd_def p)
  moreover have "tree_height example_tree \<le> 3" by (simp add: example_tree_def)
  ultimately have "Walk (still_lstat ls) (still_readdir rd) (logging (\<lambda>p. p = ''a/b'')) 3 ''a'' []
     = Some (None, [] @ preorder (\<lambda>p. p = ''a/b'') ''a'' example_tree)"
    by (rule walk_preorder)
  then show ?thesis by (auto simp: example_tree_def p)
qed

subsection \<open>Names that denote a path\<close>

text \<open>\<open>names r ws s\<close>: \<open>s\<close> is a spelling of the path \<open>ws\<close> below the root \<open>r\<close>;
  \<open>spelled r ws s\<close>: it is one of the two that the file system itself builds.\<close>

definition names :: "string \<Rightarrow> string list \<Rightarrow> string \<Rightarrow> bool" where
  "names r ws s \<longleftrightarrow> (\<forall>w\<in>set (r # ws). plain w) \<and> below r (comps s) = ws \<and>
     (comps s = [] \<or> hd (comps s) = r \<or> \<not> HasPrefix (hd (comps s)) r)"

definition spelled :: "string \<Rightarrow> string list \<Rightarrow> string \<Rightarrow> bool" where
  "spelled r ws s \<longleftrightarrow> (\<forall>w\<in>set (r # ws). plain w) \<and>
     (s = join_slash (r # ws) \<or> s = join_slash (r # ws) @ ''/'')"

abbreviation dirkey :: "string \<Rightarrow> string list \<Rightarrow> string" where
  "dirkey r ws \<equiv> join_slash (r # ws) @ ''/''"

lemma set_join_slash: "set (join_slash ws) \<subseteq> insert (CHR ''/'') (\<Union>w\<in>set ws. set w)"
  by (induction ws rule: join_slash.induct) auto

lemma unbackslash_id: "CHR 0x5C \<notin> set s \<Longrightarrow> unbackslash s = s"
  by (induction s) (auto simp: unbackslash_def)

lemma comps_plain:
  assumes "\<forall>w\<in>set ws. plain w" "ws \<noteq> []"
  shows "comps (join_slash ws) = ws" "comps (join_slash ws @ ''/'') = ws"
proof -
  have "CHR 0x5C \<notin> set (join_slash ws)"
    using set_join_slash[of ws] assms(1) by (auto simp: plain_def)
  then have u: "unbackslash (join_slash ws) = join_slash ws"
    "unbackslash (join_slash ws @ ''/'') = join_slash ws @ ''/''"
    by (auto intro!: unbackslash_id)
  have s: "split_on (CHR ''/'') (join_slash ws) = ws"
    using assms by (intro split_on_join) (auto dest: plainD)
  have f: "filter (\<lambda>w. w \<noteq> []) ws = ws" using assms(1) by (auto simp: filter_id_conv dest: plainD)
  show "comps (join_slash ws) = ws" "comps (join_slash ws @ ''/'') = ws"
    using s f by (simp_all add: comps_def u split_on_snoc)
qed

lemma spelled_comps: "spelled r ws s \<Longrightarrow> comps s = r # ws"
  using comps_plain[of "r # ws"] by (auto simp: spelled_def)

lemma spelled_names: "spelled r ws s \<Longrightarrow> names r ws s"
  using spelled_comps[of r ws s] by (auto simp: names_def spelled_def below_def)

lemma names_comps: "names r ws s \<Longrightarrow> \<forall>w\<in>set (comps s). plain w"
  by (cases "comps s = [] \<or> hd (comps s) \<noteq> r"; cases "comps s")
     (auto simp: names_def below_def)

lemma plain_no_slash:
  assumes "plain w"
  shows "\<not> HasSuffix w ''/''" "last w \<noteq> CHR ''/''"
proof -
  show l: "last w \<noteq> CHR ''/''" using plainD(1,2)[OF assms] last_in_set by metis
  show "\<not> HasSuffix w ''/''" using l by (simp add: HasSuffix_single)
qed

lemma names_Split:
  assumes "names r ws s"
  shows "UnixPather s (r @ ''/'') =
    (dirkey r (butlast ws),
     if ws = [] then []
     else last ws @ (if length (last ws) > 1 \<and> HasSuffix (unbackslash s) ''/'' then ''/'' else []))"
proof -
  have "plain r" using assms by (simp add: names_def)
  from UnixPather_comps[OF this names_comps[OF assms]] assms
  show ?thesis by (auto simp: names_def Let_def)
qed

lemma join_slash_last: "ws \<noteq> [] \<Longrightarrow> dirkey r (butlast ws) @ last ws = join_slash (r # ws)"
  using join_slash_snoc[of "r # butlast ws" "last ws"] by simp

lemma names_full:
  assumes "names r ws s" "UnixPather s (r @ ''/'') = (d, b)"
  shows "spelled r ws (d @ b)" "d @ b \<noteq> r"
    "d @ Directorify b = dirkey r ws" "spelled r (butlast ws) d" "d = dirkey r (butlast ws)"
proof -
  have pl: "\<forall>w\<in>set (r # ws). plain w" using assms(1) by (simp add: names_def)
  have r: "CHR ''/'' \<notin> set r" using pl by (auto dest: plainD)
  have d: "d = dirkey r (butlast ws)" using assms names_Split by auto
  then show "d = dirkey r (butlast ws)" .
  have "\<forall>w\<in>set (r # butlast ws). plain w" using pl by (auto dest: in_set_butlastD)
  then show "spelled r (butlast ws) d" using d by (simp add: spelled_def)
  have "CHR ''/'' \<in> set (d @ b)" using d by simp
  then show "d @ b \<noteq> r" using r by auto
  have *: "d @ b = dirkey r [] \<and> d @ Directorify b = dirkey r []" if "ws = []"
    using assms names_Split[OF assms(1)] that by (simp add: Directorify_def)
  have **: "(d @ b = join_slash (r # ws) \<or> d @ b = dirkey r ws) \<and> d @ Directorify b = dirkey r ws"
    if ne: "ws \<noteq> []"
  proof -
    have l: "plain (last ws)" using pl ne by simp
    have s: "\<not> HasSuffix (last ws) ''/''"
      by (rule plain_no_slash(1)[OF l])
    have bb: "b = last ws \<or> b = last ws @ ''/''"
      using assms names_Split[OF assms(1)] ne by (auto split: if_splits)
    have "Directorify b = last ws @ ''/''"
      using bb s plainD[OF l] by (auto simp: Directorify_def)
    then show ?thesis using bb d join_slash_last[OF ne, of r] by (auto simp flip: append_assoc)
  qed
  show "spelled r ws (d @ b)" "d @ Directorify b = dirkey r ws"
    using * ** pl by (cases "ws = []"; auto simp: spelled_def)+
qed

lemma spelled_alt:
  assumes "spelled r ws s"
  shows "spelled r ws (if HasSuffix s ''/'' then Filify s else Directorify s)"
    and "spelled r ws k \<Longrightarrow> k = s \<or> k = (if HasSuffix s ''/'' then Filify s else Directorify s)"
proof -
  have pl: "\<forall>w\<in>set (r # ws). plain w" using assms by (simp add: spelled_def)
  let ?j = "join_slash (r # ws)"
  have l: "\<not> HasSuffix ?j ''/''"
  proof (cases "ws = []")
    case True
    then show ?thesis using pl plain_no_slash(1)[of r] by simp
  next
    case False
    have "plain (last ws)" using pl False by simp
    then have "last (dirkey r (butlast ws) @ last ws) \<noteq> CHR ''/''"
      using plainD(1) plain_no_slash(2) by (metis last_appendR)
    then show ?thesis unfolding join_slash_last[OF False, of r] by (simp add: HasSuffix_single)
  qed
  have r: "plain r" using pl by simp
  have jh: "hd ?j \<noteq> CHR ''.''" "?j \<noteq> []"
    using plainD[OF r] join_slash_hd[of "r # ws"] join_slash_Nil[of "r # ws"] pl
    by (auto dest: plainD)
  have "Directorify ?j = ?j @ ''/''"
    using l jh by (auto simp: Directorify_def HasSuffix_single)
  moreover have "Filify (?j @ ''/'') = ?j"
    using jh by (auto simp: Filify_def)
  ultimately show "spelled r ws (if HasSuffix s ''/'' then Filify s else Directorify s)"
    and "spelled r ws k \<Longrightarrow> k = s \<or> k = (if HasSuffix s ''/'' then Filify s else Directorify s)"
    using assms l pl by (auto simp: spelled_def)
qed

lemma spelled_root: "spelled r ws s \<Longrightarrow> (s = r \<or> s = r @ ''/'') \<longleftrightarrow> ws = []"
  using spelled_comps[of r ws s] spelled_comps[of r "[]" s] by (auto simp: spelled_def)

end
