(* ===== verification/MemFile.thy ===== *)
theory MemFile
  imports Prelude
begin

section \<open>Files of the in-memory file system\<close>

text \<open>
  \<^verbatim>\<open>InMemoryFile\<close> of \<^verbatim>\<open>os/fsi/memfs/20_types.go\<close> and its operations in
  \<^verbatim>\<open>40_file_impl.go\<close>. A file is the record \<open>memfile\<close>; an operation returns its Go results
  and the file afterwards, \<open>None\<close> where a slice expression panics. The entries of a directory
  (\<open>f_memDir\<close>) are addresses of file objects; nil, which the code stores when it could not
  open the child, is \<open>None\<close>. The operations on the directory need the store and are in the theory
  \<^verbatim>\<open>MemFs\<close>. Locks are left out: an operation is one step, as the mutex makes it.
\<close>

type_synonym addr = nat

record memfile =
  f_at :: int
  f_closed :: bool
  f_data :: string
  f_dir :: bool
  f_mode :: int
  f_modtime :: int
  f_name :: string
  f_memDir :: "(string \<times> addr option) list"
  f_fetchPos :: int

datatype fserr = ErrFileClosed | EOF | ErrOutOfRange | ErrFileNotFound | ErrFileExists
  | PathError string string fserr | ErrOther string

definition Open_file :: "memfile \<Rightarrow> fserr option \<times> memfile" where
  "Open_file f = (None, f\<lparr>f_at := 0, f_closed := False\<rparr>)"

definition Close_file :: "memfile \<Rightarrow> fserr option \<times> memfile" where
  "Close_file f = (None, f\<lparr>f_at := 0, f_closed := True\<rparr>)"

text \<open>\<^verbatim>\<open>Read\<close>: the count, the error, the caller's buffer and the file afterwards.\<close>

definition Read :: "memfile \<Rightarrow> string \<Rightarrow> ((int \<times> fserr option) \<times> string \<times> memfile) option" where
  "Read f b =
     (if f_closed f then Some ((0, Some ErrFileClosed), b, f)
      else if length b > 0 \<and> f_at f = int (length (f_data f)) then Some ((0, Some EOF), b, f)
      else do {
        let n = (if int (length (f_data f)) - f_at f \<ge> int (length b) then int (length b)
                 else int (length (f_data f)) - f_at f);
        chunk \<leftarrow> slice_sub (f_data f) (f_at f) (f_at f + n);
        Some ((n, None), slice_copy b 0 chunk, f\<lparr>f_at := f_at f + n\<rparr>)
      })"

definition ReadAt :: "memfile \<Rightarrow> string \<Rightarrow> int \<Rightarrow> ((int \<times> fserr option) \<times> string \<times> memfile) option" where
  "ReadAt f b off = Read (f\<lparr>f_at := off\<rparr>) b"

definition Truncate :: "memfile \<Rightarrow> int \<Rightarrow> fserr option \<times> memfile" where
  "Truncate f sz =
     (if f_closed f then (Some ErrFileClosed, f)
      else if sz < 0 then (Some ErrOutOfRange, f)
      else if sz > int (length (f_data f))
      then (None, f\<lparr>f_data := f_data f @ replicate (nat (sz - int (length (f_data f)))) (CHR 0x00)\<rparr>)
      else (None, f\<lparr>f_data := take (nat sz) (f_data f)\<rparr>))"

fun seek_pos :: "memfile \<Rightarrow> int \<Rightarrow> int \<Rightarrow> int" where
  "seek_pos f offset whence =
     (if whence = 0 then offset
      else if whence = 1 then f_at f + offset
      else if whence = 2 then int (length (f_data f)) + offset
      else f_at f)"

definition Seek :: "memfile \<Rightarrow> int \<Rightarrow> int \<Rightarrow> (int \<times> fserr option) \<times> memfile" where
  "Seek f offset whence =
     (if f_closed f then ((0, Some ErrFileClosed), f)
      else let p = seek_pos f offset whence in ((p, None), f\<lparr>f_at := p\<rparr>))"

text \<open>\<^verbatim>\<open>Write\<close> does not look at \<open>f_closed\<close>.\<close>

definition Write :: "memfile \<Rightarrow> string \<Rightarrow> ((int \<times> fserr option) \<times> memfile) option" where
  "Write f b = do {
     let n = int (length b);
     let cur = f_at f;
     let diff = cur - int (length (f_data f));
     tail \<leftarrow> (if n + cur < int (length (f_data f))
              then slice_sub (f_data f) (n + cur) (int (length (f_data f))) else Some []);
     data \<leftarrow> (if diff > 0 then Some ((replicate (nat diff) (CHR 0x00) @ b) @ tail)
              else do {
                front \<leftarrow> slice_sub (f_data f) 0 cur;
                Some ((front @ b) @ tail)
              });
     Some ((n, None), f\<lparr>f_data := data, f_at := int (length data)\<rparr>)
   }"

definition WriteAt :: "memfile \<Rightarrow> string \<Rightarrow> int \<Rightarrow> ((int \<times> fserr option) \<times> memfile) option" where
  "WriteAt f b off = Write (f\<lparr>f_at := off\<rparr>) b"

definition WriteString :: "memfile \<Rightarrow> string \<Rightarrow> ((int \<times> fserr option) \<times> memfile) option" where
  "WriteString f s = Write f s"

text \<open>\<^verbatim>\<open>InMemoryFileInfo.Size\<close>.\<close>

definition Size :: "memfile \<Rightarrow> int" where
  "Size f = (if f_dir f then 42 else int (length (f_data f)))"

subsection \<open>What a write does to the data\<close>

lemma slice_sub_front: "0 \<le> n \<Longrightarrow> n \<le> int (length xs) \<Longrightarrow> slice_sub xs 0 n = Some (take (nat n) xs)"
  by (simp add: slice_sub_def)

lemma slice_sub_rest:
  "0 \<le> n \<Longrightarrow> n \<le> int (length xs) \<Longrightarrow> slice_sub xs n (int (length xs)) = Some (drop (nat n) xs)"
  by (simp add: slice_sub_def nat_diff_distrib)

lemma write_negative: "f_at f < 0 \<Longrightarrow> Write f b = None"
  by (auto simp: Write_def slice_sub_def Let_def)

lemma write_inside:
  assumes a: "0 \<le> f_at f" "f_at f \<le> int (length (f_data f))"
  shows "let d = take (nat (f_at f)) (f_data f) @ b @ drop (nat (f_at f) + length b) (f_data f)
        in Write f b = Some ((int (length b), None), f\<lparr>f_data := d, f_at := int (length d)\<rparr>)"
proof (cases "int (length b) + f_at f < int (length (f_data f))")
  case True
  then show ?thesis using a
    by (simp add: Write_def Let_def slice_sub_front slice_sub_rest nat_add_distrib add.commute)
next
  case False
  then have "drop (nat (f_at f) + length b) (f_data f) = []" using a by simp
  then show ?thesis using a False
    by (simp add: Write_def Let_def slice_sub_front)
qed

lemma write_behind:
  assumes a: "int (length (f_data f)) < f_at f"
  shows "let d = replicate (nat (f_at f) - length (f_data f)) (CHR 0x00) @ b
        in Write f b = Some ((int (length b), None), f\<lparr>f_data := d, f_at := int (length d)\<rparr>)"
proof -
  from a have "nat (f_at f - int (length (f_data f))) = nat (f_at f) - length (f_data f)" by simp
  with a show ?thesis by (simp add: Write_def Let_def)
qed

lemmas write_cases = write_negative write_inside write_behind

lemma write_at_start:
  "f_at f = 0 \<Longrightarrow> Write f b = Some ((int (length b), None),
     f\<lparr>f_data := b @ drop (length b) (f_data f),
       f_at := int (length (b @ drop (length b) (f_data f)))\<rparr>)"
  using write_inside[of f b] by (simp add: Let_def)

text \<open>Write at a position inside the data or at its end overwrites exactly the bytes from
  there on and keeps the rest; at a position behind the end it replaces the whole content by the
  gap's zeros and the new bytes; at a negative position it panics. In both other cases the position
  afterwards is the end of the data.\<close>
theorem memfile_write:
  "(f_at f < 0 \<longrightarrow> Write f b = None) \<and>
   (0 \<le> f_at f \<and> f_at f \<le> int (length (f_data f)) \<longrightarrow>
      (let d = take (nat (f_at f)) (f_data f) @ b @ drop (nat (f_at f) + length b) (f_data f)
       in Write f b = Some ((int (length b), None), f\<lparr>f_data := d, f_at := int (length d)\<rparr>))) \<and>
   (int (length (f_data f)) < f_at f \<longrightarrow>
      (let d = replicate (nat (f_at f) - length (f_data f)) (CHR 0x00) @ b
       in Write f b = Some ((int (length b), None), f\<lparr>f_data := d, f_at := int (length d)\<rparr>)))"
  using write_cases[of f] by blast

definition empty_file :: memfile where
  "empty_file = \<lparr>f_at = 0, f_closed = False, f_data = [], f_dir = False, f_mode = 0,
     f_modtime = 0, f_name = [], f_memDir = [], f_fetchPos = 0\<rparr>"

lemma memfile_write_witness:
  "Write (empty_file\<lparr>f_data := ''abcdef'', f_at := 2\<rparr>) ''XY''
     = Some ((2, None), empty_file\<lparr>f_data := ''abXYef'', f_at := 6\<rparr>) \<and>
   Write (empty_file\<lparr>f_data := ''abc'', f_at := 5\<rparr>) ''X''
     = Some ((1, None), empty_file\<lparr>f_data := [CHR 0x00, CHR 0x00, CHR ''X''], f_at := 3\<rparr>) \<and>
   Write (empty_file\<lparr>f_at := -1\<rparr>) ''X'' = None"
  using memfile_write[of "empty_file\<lparr>f_data := ''abcdef'', f_at := 2\<rparr>" "''XY''"]
    memfile_write[of "empty_file\<lparr>f_data := ''abc'', f_at := 5\<rparr>" "''X''"]
    memfile_write[of "empty_file\<lparr>f_at := -1\<rparr>" "''X''"]
  by (simp add: empty_file_def eval_nat_numeral)

subsection \<open>Reading back\<close>

lemma write_at_end:
  "f_at f = int (length (f_data f)) \<Longrightarrow>
   Write f b = Some ((int (length b), None),
     f\<lparr>f_data := f_data f @ b, f_at := int (length (f_data f @ b))\<rparr>)"
  by (simp add: Write_def Let_def slice_sub_front)

lemma read_inside:
  assumes "\<not> f_closed f" "0 \<le> f_at f" "f_at f \<le> int (length (f_data f))"
    "b = [] \<or> f_at f < int (length (f_data f))"
  shows "Read f b =
    (let m = min (length b) (length (f_data f) - nat (f_at f));
         c = take m (drop (nat (f_at f)) (f_data f))
     in Some ((int m, None), c @ drop m b, f\<lparr>f_at := f_at f + int m\<rparr>))"
proof -
  obtain p where p: "f_at f = int p" using assms(2) nonneg_int_cases by blast
  have "p \<le> length (f_data f)" using assms(3) p by simp
  then show ?thesis
    using assms(1,4) p
    by (auto simp: Read_def Let_def slice_sub_def slice_copy_def min_def nat_add_distrib of_nat_diff)
qed

text \<open>A client that reads with buffers of \<open>k\<close> bytes until it sees \<open>EOF\<close>.\<close>

fun read_loop :: "nat \<Rightarrow> nat \<Rightarrow> memfile \<Rightarrow> (string \<times> memfile) option" where
  "read_loop 0 k f = None"
| "read_loop (Suc fuel) k f =
     (case Read f (replicate k (CHR 0x00)) of
        None \<Rightarrow> None
      | Some ((n, err), b, f') \<Rightarrow>
          (if err = Some EOF then Some ([], f')
           else do { (rest, f'') \<leftarrow> read_loop fuel k f'; Some (take (nat n) b @ rest, f'') }))"

fun write_all :: "memfile \<Rightarrow> string list \<Rightarrow> memfile option" where
  "write_all f [] = Some f"
| "write_all f (b # bs) = do { (r, f') \<leftarrow> Write f b; write_all f' bs }"

lemma write_all_append:
  "f_at f = int (length (f_data f)) \<Longrightarrow>
   write_all f bs = Some (f\<lparr>f_data := f_data f @ concat bs, f_at := int (length (f_data f @ concat bs))\<rparr>)"
  by (induction bs arbitrary: f) (auto simp: write_at_end)

lemma read_loop_rest:
  "\<not> f_closed f \<Longrightarrow> f_at f = int p \<Longrightarrow> p \<le> length (f_data f) \<Longrightarrow> 0 < k \<Longrightarrow>
   length (f_data f) - p < fuel \<Longrightarrow>
   read_loop fuel k f = Some (drop p (f_data f), f\<lparr>f_at := int (length (f_data f))\<rparr>)"
proof (induction fuel arbitrary: f p)
  case (Suc fuel)
  show ?case
  proof (cases "p = length (f_data f)")
    case True
    then show ?thesis using Suc.prems by (simp add: Read_def)
  next
    case False
    let ?m = "min k (length (f_data f) - p)"
    have m: "0 < ?m" "p + ?m \<le> length (f_data f)" using False Suc.prems by auto
    have rd: "Read f (replicate k (CHR 0x00)) = Some ((int ?m, None),
        take ?m (drop p (f_data f)) @ drop ?m (replicate k (CHR 0x00)), f\<lparr>f_at := int (p + ?m)\<rparr>)"
      using Suc.prems False by (subst read_inside) (auto simp: Let_def)
    have "read_loop fuel k (f\<lparr>f_at := int (p + ?m)\<rparr>)
        = Some (drop (p + ?m) (f_data f), f\<lparr>f_at := int (length (f_data f))\<rparr>)"
      using Suc.IH[of "f\<lparr>f_at := int (p + ?m)\<rparr>" "p + ?m"] Suc.prems m by simp
    moreover have "take ?m (drop p (f_data f)) @ drop (p + ?m) (f_data f) = drop p (f_data f)"
      by (metis append_take_drop_id drop_drop add.commute)
    ultimately show ?thesis using rd m(2) by simp
  qed
qed simp

text \<open>Chunks written one after the other to a new file are read back as their
  concatenation, followed by EOF, after seeking to the start with any of the three origins and
  with buffers of any positive size; more rounds than bytes are enough.\<close>
theorem memfile_roundtrip:
  assumes "0 < k" "length (concat bs) < fuel"
    and "(off, whence) \<in> {(0, 0), (- int (length (concat bs)), 1), (- int (length (concat bs)), 2)}"
  shows "do { f \<leftarrow> write_all empty_file bs; read_loop fuel k (snd (Seek f off whence)) }
           = Some (concat bs, empty_file\<lparr>f_data := concat bs, f_at := int (length (concat bs))\<rparr>)"
proof -
  let ?f = "empty_file\<lparr>f_data := concat bs, f_at := int (length (concat bs))\<rparr>"
  have w: "write_all empty_file bs = Some ?f"
    using write_all_append[of empty_file bs] by (simp add: empty_file_def)
  have s: "snd (Seek ?f off whence) = empty_file\<lparr>f_data := concat bs, f_at := 0\<rparr>"
    using assms(3) by (auto simp: Seek_def empty_file_def)
  show ?thesis
    using read_loop_rest[of "empty_file\<lparr>f_data := concat bs, f_at := 0\<rparr>" 0 k fuel] assms(1,2)
    by (simp add: w s) (simp add: empty_file_def)
qed

lemma memfile_roundtrip_witness:
  "do { f \<leftarrow> write_all empty_file [''ab'', '''', ''cde'']; read_loop 6 2 (snd (Seek f (-5) 1)) }
     = Some (''abcde'', empty_file\<lparr>f_data := ''abcde'', f_at := 5\<rparr>)"
  using memfile_roundtrip[of 2 "[''ab'', '''', ''cde'']" 6 "-5" 1] by simp

text \<open>A closed file refuses Read, Seek and Truncate; Write changes it all the same.\<close>

lemma closed_file:
  assumes "f' = snd (Close_file f)"
  shows "Read f' b = Some ((0, Some ErrFileClosed), b, f')"
    and "Seek f' off whence = ((0, Some ErrFileClosed), f')"
    and "Truncate f' n = (Some ErrFileClosed, f')"
    and "\<exists>f''. Write f' b = Some ((int (length b), None), f'') \<and>
           f_data f'' = b @ drop (length b) (f_data f)"
  using assms write_at_start[of f' b]
  by (simp_all add: Close_file_def Read_def Seek_def Truncate_def)

end
