(* ===== verification/MemFs.thy ===== *)
theory MemFs
  imports FsPath MemFile "HOL-Library.AList"
begin

section \<open>The in-memory file system\<close>

text \<open>
  \<^verbatim>\<open>os/fsi/memfs\<close>: \<^verbatim>\<open>20_types.go\<close>, \<^verbatim>\<open>internal_fs.go\<close>, \<^verbatim>\<open>30_fs_impl.go\<close>, the directory
  operations of \<^verbatim>\<open>40_file_impl.go\<close>, and \<^verbatim>\<open>WriteFile\<close> of \<^verbatim>\<open>fsi/common/convenience.go\<close>.

  File objects are shared: the central map \<^verbatim>\<open>fos\<close> and the children maps \<^verbatim>\<open>memDir\<close> point to the
  same \<^verbatim>\<open>InMemoryFile\<close>. The state is therefore a store of file records by address
  (\<open>mf_heap\<close>, the next free address \<open>mf_next\<close>), and both maps hold addresses. A Go map is an
  association list; its order stands for the iteration order, which matters only where two
  entries of a directory compare equal in the sort.

  \<^verbatim>\<open>Open\<close> and \<^verbatim>\<open>Mkdir\<close> are mutually recursive: registering a new entry opens its parent and, where
  that is missing, creates it, and opening a missing file asks the shadowed file system and
  creates what it finds. \<open>fs_Open\<close> and \<open>fs_Mkdir\<close> carry fuel; the operations in between
  (\<open>findParent\<close>, \<open>registerWithParent\<close>, \<open>registerDirs\<close>, \<open>lookupUnderlyingFS\<close>) take the two as
  arguments. A result \<open>None\<close> is a panic or the end of the fuel; the theorems say where neither
  happens. The shadowed file system is a parameter in the state (\<open>mf_shadow\<close>): what its
  \<^verbatim>\<open>Open\<close>, \<^verbatim>\<open>Stat\<close> and reads answer. Locks and log lines are left out.
\<close>

subsection \<open>State\<close>

datatype dirsort = ByName | ByDateAsc | ByDateDesc

record shadow_file =
  sh_stat :: "fserr + bool"
  sh_bytes :: string
  sh_copyerr :: "fserr option"

record memfs =
  mf_fos :: "(string \<times> addr) list"
  mf_ident :: string
  mf_sorter :: dirsort
  mf_shadow :: "(string \<Rightarrow> fserr + shadow_file) option"
  mf_heap :: "addr \<Rightarrow> memfile"
  mf_next :: addr
  mf_now :: int

datatype fs_option = Ident string | ShadowFS "string \<Rightarrow> fserr + shadow_file" | DirSort string

fun apply_option :: "fs_option \<Rightarrow> memfs \<Rightarrow> memfs" where
  "apply_option (Ident mnt) m = m\<lparr>mf_ident := mnt\<rparr>"
| "apply_option (ShadowFS behindFS) m = m\<lparr>mf_shadow := Some behindFS\<rparr>"
| "apply_option (DirSort srt) m =
     (if srt = ''byDateAsc'' then m\<lparr>mf_sorter := ByDateAsc\<rparr>
      else if srt = ''byDateDesc'' then m\<lparr>mf_sorter := ByDateDesc\<rparr>
      else if srt = ''byName'' then m\<lparr>mf_sorter := ByName\<rparr> else m)"

definition SetOption :: "fs_option list \<Rightarrow> memfs \<Rightarrow> memfs" where
  "SetOption options m = fold apply_option options m"

definition New_fs :: "int \<Rightarrow> fs_option list \<Rightarrow> memfs" where
  "New_fs now options = SetOption options
     \<lparr>mf_fos = [], mf_ident = ''mnt00'', mf_sorter = ByName, mf_shadow = None,
      mf_heap = (\<lambda>_. empty_file), mf_next = 0, mf_now = now\<rparr>"

definition RootDir :: "memfs \<Rightarrow> string" where
  "RootDir m = mf_ident m @ ''/''"

definition RootName :: "memfs \<Rightarrow> string" where
  "RootName m = mf_ident m"

definition SplitX :: "memfs \<Rightarrow> string \<Rightarrow> string \<times> string" where
  "SplitX m name = UnixPather name (RootDir m)"

text \<open>The lines \<^verbatim>\<open>dir, bname := m.SplitX(name); name = dir + bname\<close> most operations begin with.\<close>

definition full_name :: "memfs \<Rightarrow> string \<Rightarrow> string" where
  "full_name m name = (let (dir, bname) = SplitX m name in dir @ bname)"

definition fos_get :: "memfs \<Rightarrow> string \<Rightarrow> addr option" where
  "fos_get m k = map_of (mf_fos m) k"

definition set_file :: "memfs \<Rightarrow> addr \<Rightarrow> memfile \<Rightarrow> memfs" where
  "set_file m a f = m\<lparr>mf_heap := (mf_heap m)(a := f)\<rparr>"

definition createHelper :: "memfs \<Rightarrow> string \<Rightarrow> memfile" where
  "createHelper m name = \<lparr>f_at = 0, f_closed = False, f_data = [], f_dir = False,
     f_mode = 2 ^ 28, f_modtime = mf_now m, f_name = name, f_memDir = [], f_fetchPos = 0\<rparr>"

text \<open>\<^verbatim>\<open>m.fos[name] = fo\<close> for a new object \<^verbatim>\<open>fo\<close>.\<close>

definition put_new :: "memfs \<Rightarrow> string \<Rightarrow> memfile \<Rightarrow> memfs" where
  "put_new m name fo =
     m\<lparr>mf_fos := AList.update name (mf_next m) (mf_fos m),
       mf_heap := (mf_heap m)(mf_next m := fo), mf_next := Suc (mf_next m)\<rparr>"

subsection \<open>internal_fs.go\<close>

type_synonym 'a step = "memfs \<Rightarrow> ('a \<times> memfs) option"

definition findParent :: "(string \<Rightarrow> (fserr + addr) step) \<Rightarrow> string \<Rightarrow> (fserr + addr option) step" where
  "findParent opn name m =
     (if name = RootName m \<or> name = RootDir m then Some (Inr None, m)
      else let (parent, _) = SplitX m name in
           if length parent > 0 then do {
             (r, m1) \<leftarrow> opn parent m;
             Some (case r of Inl e \<Rightarrow> Inl e | Inr a \<Rightarrow> Inr (Some a), m1)
           } else Some (Inr None, m))"

definition registerWithParent ::
    "(string \<Rightarrow> (fserr option) step) \<Rightarrow> (string \<Rightarrow> (fserr + addr) step) \<Rightarrow> string \<Rightarrow> string step" where
  "registerWithParent mkdirAll opn name m =
     (if name = [] then Some ([], m)
      else do {
        (pDir, m1) \<leftarrow> findParent opn name m;
        m2 \<leftarrow> (case pDir of
                Inr (Some _) \<Rightarrow> Some m1
              | _ \<Rightarrow> (let (newPar, _) = SplitX m1 name in
                     if length newPar > 0 then do { (e, m') \<leftarrow> mkdirAll newPar m1; Some m' }
                     else Some m1));
        (pDir2, m3) \<leftarrow> findParent opn name m2;
        (case pDir2 of
           Inr (Some d) \<Rightarrow> do {
             (f, m4) \<leftarrow> opn name m3;
             let v = (case f of Inl _ \<Rightarrow> None | Inr a \<Rightarrow> Some a);
             let pd = mf_heap m4 d;
             Some (f_name pd, set_file m4 d (pd\<lparr>f_memDir := AList.update name v (f_memDir pd)\<rparr>))
           }
         | _ \<Rightarrow> Some ([], m3))
      })"

text \<open>The loop of \<^verbatim>\<open>registerDirs\<close>; the counter ends it after ten rounds.\<close>

fun registerDirs_loop ::
    "(string \<Rightarrow> (fserr option) step) \<Rightarrow> (string \<Rightarrow> (fserr + addr) step) \<Rightarrow> nat \<Rightarrow> string \<Rightarrow> memfs \<Rightarrow> memfs option" where
  "registerDirs_loop mkdirAll opn 0 name m = Some m"
| "registerDirs_loop mkdirAll opn (Suc rounds) name m = do {
     (par, m1) \<leftarrow> registerWithParent mkdirAll opn name m;
     if par = [] \<or> par = RootDir m1 \<or> par = RootName m1 then Some m1
     else registerDirs_loop mkdirAll opn rounds par m1
   }"

definition registerDirs ::
    "(string \<Rightarrow> (fserr option) step) \<Rightarrow> (string \<Rightarrow> (fserr + addr) step) \<Rightarrow> string \<Rightarrow> memfs \<Rightarrow> memfs option" where
  "registerDirs mkdirAll opn name m = registerDirs_loop mkdirAll opn 10 (full_name m name) m"

definition unRegisterWithParent :: "(string \<Rightarrow> (fserr + addr) step) \<Rightarrow> string \<Rightarrow> (fserr option) step" where
  "unRegisterWithParent opn name m = do {
     let name = full_name m name;
     (pDir, m1) \<leftarrow> findParent opn name m;
     (case pDir of
        Inl e \<Rightarrow> Some (Some e, m1)
      | Inr None \<Rightarrow> None
      | Inr (Some d) \<Rightarrow>
          (let pd = mf_heap m1 d in
           Some (None, set_file m1 d
             (pd\<lparr>f_memDir := AList.delete (Filify name) (AList.delete (Directorify name) (f_memDir pd))\<rparr>))))
   }"

subsection \<open>Create, Mkdir, Open\<close>

definition Create_with ::
    "(string \<Rightarrow> (fserr option) step) \<Rightarrow> (string \<Rightarrow> (fserr + addr) step) \<Rightarrow> string \<Rightarrow> (addr option) step" where
  "Create_with mkdirAll opn name m = do {
     let name = full_name m name;
     m1 \<leftarrow> registerDirs mkdirAll opn name (put_new m name (createHelper m name));
     Some (fos_get m1 name, m1)
   }"

definition Mkdir_with ::
    "(string \<Rightarrow> (fserr option) step) \<Rightarrow> (string \<Rightarrow> (fserr + addr) step) \<Rightarrow> string \<Rightarrow> (fserr option) step" where
  "Mkdir_with mkdirAll opn name m =
     (let (dir, bname) = SplitX m name; name = dir @ Directorify bname in
      if fos_get m name \<noteq> None then Some (Some ErrFileExists, m)
      else do {
        m1 \<leftarrow> registerDirs mkdirAll opn name (put_new m name ((createHelper m name)\<lparr>f_dir := True\<rparr>));
        Some (None, m1)
      })"

definition path_Dir :: "string \<Rightarrow> string" where
  "path_Dir p = Clean (fst (path_Split p))"

definition lookupUnderlyingFS ::
    "(string \<Rightarrow> (fserr option) step) \<Rightarrow> (string \<Rightarrow> (fserr + addr) step) \<Rightarrow> string \<Rightarrow> string \<Rightarrow> (fserr + addr) step" where
  "lookupUnderlyingFS mkdirAll opn nameMemFS origName m =
     (case mf_shadow m of
        None \<Rightarrow> Some (Inl ErrFileNotFound, m)
      | Some shadow \<Rightarrow>
     (case shadow origName of
        Inl e \<Rightarrow> Some (Inl ErrFileNotFound, m)
      | Inr fshad \<Rightarrow>
     (case sh_stat fshad of
        Inl e \<Rightarrow> Some (Inl (ErrOther ''fileinfo from shadow failed''), m)
      | Inr True \<Rightarrow> do {
          (err, m1) \<leftarrow> mkdirAll origName m;
          if err \<noteq> None \<and> err \<noteq> Some ErrFileExists then Some (Inl (the err), m1)
          else (case fos_get m1 (Directorify (path_Dir nameMemFS)) of
                  None \<Rightarrow> Some (Inl (ErrOther ''dir created with MkDir, but not in fos map''), m1)
                | Some dir \<Rightarrow> Some (Inr dir, m1))
        }
      | Inr False \<Rightarrow> do {
          (err, m1) \<leftarrow> mkdirAll (path_Dir origName) m;
          if err \<noteq> None \<and> err \<noteq> Some ErrFileExists then Some (Inl (the err), m1)
          else do {
            (dst, m2) \<leftarrow> Create_with mkdirAll opn origName m1;
            d \<leftarrow> dst;
            (r, f) \<leftarrow> Write (mf_heap m2 d) (sh_bytes fshad);
            let m3 = set_file m2 d f;
            (case sh_copyerr fshad of
               Some e \<Rightarrow> Some (Inl e, m3)
             | None \<Rightarrow>
                 (let (_, f1) = Close_file (mf_heap m3 d); (_, f2) = Open_file f1 in
                  Some (Inr d, set_file m3 d f2)))
          }
        })))"

definition Open_with ::
    "(string \<Rightarrow> (fserr option) step) \<Rightarrow> (string \<Rightarrow> (fserr + addr) step) \<Rightarrow> string \<Rightarrow> (fserr + addr) step" where
  "Open_with mkdirAll opn origName m =
     (let name = full_name m origName;
          name1 = name;
          name2 = (if HasSuffix name ''/'' then Filify name else Directorify name);
          f = (case fos_get m name1 of Some a \<Rightarrow> Some a | None \<Rightarrow> fos_get m name2)
      in case f of
           Some a \<Rightarrow> Some (Inr a, set_file m a (snd (Open_file (mf_heap m a))))
         | None \<Rightarrow> lookupUnderlyingFS mkdirAll opn name origName m)"

fun fs_Open :: "nat \<Rightarrow> string \<Rightarrow> (fserr + addr) step"
  and fs_Mkdir :: "nat \<Rightarrow> string \<Rightarrow> (fserr option) step" where
  "fs_Open 0 name m = None"
| "fs_Open (Suc fuel) name m = Open_with (fs_Mkdir fuel) (fs_Open fuel) name m"
| "fs_Mkdir 0 name m = None"
| "fs_Mkdir (Suc fuel) name m = Mkdir_with (fs_Mkdir fuel) (fs_Open fuel) name m"

definition fs_MkdirAll :: "nat \<Rightarrow> string \<Rightarrow> (fserr option) step" where
  "fs_MkdirAll fuel name m = fs_Mkdir fuel name m"

definition fs_Create :: "nat \<Rightarrow> string \<Rightarrow> (addr option) step" where
  "fs_Create fuel name m = Create_with (fs_Mkdir fuel) (fs_Open fuel) name m"

definition fs_OpenFile :: "nat \<Rightarrow> string \<Rightarrow> (fserr + addr) step" where
  "fs_OpenFile fuel name m = fs_Open fuel name m"

subsection \<open>The other operations of the file system\<close>

definition Chmod :: "string \<Rightarrow> int \<Rightarrow> memfs \<Rightarrow> fserr option \<times> memfs" where
  "Chmod name mode m =
     (let name = full_name m name in
      case fos_get m name of
        None \<Rightarrow> (Some (PathError ''chmod'' name ErrFileNotFound), m)
      | Some a \<Rightarrow> (None, set_file m a ((mf_heap m a)\<lparr>f_mode := mode\<rparr>)))"

definition Chtimes :: "string \<Rightarrow> int \<Rightarrow> int \<Rightarrow> memfs \<Rightarrow> fserr option \<times> memfs" where
  "Chtimes name atime mtime m =
     (let name = full_name m name in
      case fos_get m name of
        None \<Rightarrow> (Some (PathError ''chtimes'' name ErrFileNotFound), m)
      | Some a \<Rightarrow> (None, set_file m a ((mf_heap m a)\<lparr>f_modtime := mtime\<rparr>)))"

definition file_Name :: "memfs \<Rightarrow> addr \<Rightarrow> string" where
  "file_Name m a = snd (SplitX m (f_name (mf_heap m a)))"

text \<open>The three sort orders of \<^verbatim>\<open>DirSort\<close> on the addresses behind the file infos.\<close>

definition readdirsorter :: "memfs \<Rightarrow> addr list \<Rightarrow> addr list" where
  "readdirsorter m fis =
     (case mf_sorter m of
        ByName \<Rightarrow> sort_key (file_Name m) fis
      | ByDateAsc \<Rightarrow> sort_key (\<lambda>a. f_modtime (mf_heap m a)) fis
      | ByDateDesc \<Rightarrow> sort_key (\<lambda>a. - f_modtime (mf_heap m a)) fis)"

text \<open>A nil child makes the type assertion panic.\<close>

fun child_infos :: "(string \<times> addr option) list \<Rightarrow> addr list option" where
  "child_infos [] = Some []"
| "child_infos ((k, v) # es) = do { a \<leftarrow> v; as \<leftarrow> child_infos es; Some (a # as) }"

definition Readdir :: "addr \<Rightarrow> int \<Rightarrow> (addr list \<times> fserr option) step" where
  "Readdir a n m = do {
     let f = mf_heap m a;
     infos \<leftarrow> child_infos (f_memDir f);
     let fis = readdirsorter m infos;
     if n \<le> 0 then Some ((fis, None), m)
     else if f_fetchPos f = 0
     then Some ((fis, None), set_file m a (f\<lparr>f_fetchPos := int (length fis)\<rparr>))
     else Some (([], Some EOF), set_file m a (f\<lparr>f_fetchPos := 0\<rparr>))
   }"

definition Readdirnames :: "addr \<Rightarrow> int \<Rightarrow> (string list \<times> fserr option) step" where
  "Readdirnames a n m = do {
     ((fi, err), m1) \<leftarrow> Readdir a n m;
     Some ((map (file_Name m1) fi, err), m1)
   }"

definition fs_ReadDir :: "nat \<Rightarrow> string \<Rightarrow> (addr list \<times> fserr option) step" where
  "fs_ReadDir fuel name m = do {
     (r, m1) \<leftarrow> fs_Open fuel name m;
     (case r of
        Inl e \<Rightarrow> Some (([], Some e), m1)
      | Inr f \<Rightarrow> do {
          ((list, err), m2) \<leftarrow> Readdir f (-1) m1;
          let m3 = set_file m2 f (snd (Close_file (mf_heap m2 f)));
          if err \<noteq> None then Some (([], err), m3) else Some ((list, None), m3)
        })
   }"

text \<open>\<^verbatim>\<open>Remove\<close> looks up the literal string \<^verbatim>\<open>"name"\<close>. Were it found, the function would wait for
  the write lock while it holds the read lock; that dead end is a result \<open>None\<close>.\<close>

definition Remove :: "string \<Rightarrow> (fserr option) step" where
  "Remove name m =
     (let name = full_name m name in
      if fos_get m ''name'' \<noteq> None then None else Some (None, m))"

fun removeAll_loop :: "(string \<Rightarrow> (fserr + addr) step) \<Rightarrow> string \<Rightarrow> string list \<Rightarrow> memfs \<Rightarrow> memfs option" where
  "removeAll_loop opn name [] m = Some m"
| "removeAll_loop opn name (p # ps) m =
     (if HasPrefix p name then do {
        (e, m1) \<leftarrow> unRegisterWithParent opn name (m\<lparr>mf_fos := AList.delete p (mf_fos m)\<rparr>);
        removeAll_loop opn name ps m1
      } else removeAll_loop opn name ps m)"

definition RemoveAll :: "nat \<Rightarrow> string \<Rightarrow> (fserr option) step" where
  "RemoveAll fuel name m = do {
     let name = full_name m name;
     m1 \<leftarrow> removeAll_loop (fs_Open fuel) name (map fst (mf_fos m)) m;
     Some (None, m1)
   }"

definition Rename :: "string \<Rightarrow> string \<Rightarrow> memfs \<Rightarrow> fserr option \<times> memfs" where
  "Rename name newname m =
     (let name = full_name m name; newname = full_name m newname in
      case fos_get m name of
        None \<Rightarrow> (Some ErrFileNotFound, m)
      | Some a \<Rightarrow>
          (if fos_get m newname = None
           then (None, m\<lparr>mf_fos := AList.delete name (AList.update newname a (mf_fos m))\<rparr>)
           else (Some ErrFileExists, m)))"

definition Stat :: "nat \<Rightarrow> string \<Rightarrow> (fserr + addr) step" where
  "Stat fuel name m = fs_Open fuel name m"

definition Lstat :: "nat \<Rightarrow> string \<Rightarrow> (fserr + addr) step" where
  "Lstat fuel path m = Stat fuel path m"

definition ReadFile :: "nat \<Rightarrow> string \<Rightarrow> (string \<times> fserr option) step" where
  "ReadFile fuel name m = do {
     (r, m1) \<leftarrow> fs_Open fuel name m;
     Some (case r of Inl e \<Rightarrow> ([], Some e) | Inr f \<Rightarrow> (f_data (mf_heap m1 f), None), m1)
   }"

definition WriteFile :: "nat \<Rightarrow> string \<Rightarrow> string \<Rightarrow> (fserr option) step" where
  "WriteFile fuel name data m = do {
     (f, m1) \<leftarrow> fs_Create fuel name m;
     a \<leftarrow> f;
     ((n, err), f') \<leftarrow> Write (mf_heap m1 a) data;
     Some (err, set_file m1 a f')
   }"

text \<open>\<^verbatim>\<open>common.WriteFile\<close> on this file system.\<close>

definition common_WriteFile :: "nat \<Rightarrow> string \<Rightarrow> string \<Rightarrow> (fserr option) step" where
  "common_WriteFile fuel fn b m = do {
     let (dir, _) = SplitX m fn;
     (err, m1) \<leftarrow> fs_MkdirAll fuel dir m;
     if err \<noteq> None \<and> err \<noteq> Some ErrFileExists then Some (err, m1)
     else do {
       (err2, m2) \<leftarrow> WriteFile fuel fn b m1;
       Some (err2, m2)
     }
   }"

subsection \<open>The invariant, and what an operation leaves as it is\<close>

text \<open>Every entry of the central map is a live object that carries its key as its name, a name
  the file system itself builds; the children maps refer to live objects. \<open>Rename\<close> breaks it,
  every other operation keeps it.\<close>

definition fs_inv :: "memfs \<Rightarrow> bool" where
  "fs_inv m \<longleftrightarrow>
     mf_shadow m = None \<and> plain (mf_ident m) \<and>
     (\<forall>(k, a)\<in>set (mf_fos m). a < mf_next m \<and> f_name (mf_heap m a) = k \<and>
        (\<exists>ws. spelled (mf_ident m) ws k) \<and> k \<noteq> mf_ident m) \<and>
     (\<forall>a<mf_next m. \<forall>(k, v)\<in>set (f_memDir (mf_heap m a)). \<exists>b<mf_next m. v = Some b)"

text \<open>\<open>keeps m m'\<close>: entries, data, kinds, names and children stay; new entries are empty
  directories.\<close>

definition keeps :: "memfs \<Rightarrow> memfs \<Rightarrow> bool" where
  "keeps m m' \<longleftrightarrow>
     fs_inv m' \<and> mf_ident m' = mf_ident m \<and> mf_sorter m' = mf_sorter m \<and> mf_next m \<le> mf_next m' \<and>
     (\<forall>k a. fos_get m k = Some a \<longrightarrow> fos_get m' k = Some a) \<and>
     (\<forall>k a. fos_get m k = None \<longrightarrow> fos_get m' k = Some a \<longrightarrow>
        f_dir (mf_heap m' a) \<and> f_data (mf_heap m' a) = [] \<and> mf_next m \<le> a) \<and>
     (\<forall>a<mf_next m. f_data (mf_heap m' a) = f_data (mf_heap m a) \<and>
        f_dir (mf_heap m' a) = f_dir (mf_heap m a) \<and>
        f_name (mf_heap m' a) = f_name (mf_heap m a) \<and>
        (f_at (mf_heap m' a) = f_at (mf_heap m a) \<or> f_at (mf_heap m' a) = 0) \<and>
        fst ` set (f_memDir (mf_heap m a)) \<subseteq> fst ` set (f_memDir (mf_heap m' a)))"

lemma fos_get_Some: "fos_get m k = Some a \<Longrightarrow> (k, a) \<in> set (mf_fos m)"
  by (simp add: fos_get_def map_of_SomeD)

lemma fs_invD:
  assumes "fs_inv m"
  shows "mf_shadow m = None" "plain (mf_ident m)"
    "fos_get m k = Some a \<Longrightarrow> a < mf_next m"
    "fos_get m k = Some a \<Longrightarrow> f_name (mf_heap m a) = k"
    "fos_get m k = Some a \<Longrightarrow> \<exists>ws. spelled (mf_ident m) ws k"
    "fos_get m k = Some a \<Longrightarrow> k \<noteq> mf_ident m"
  using assms fos_get_Some[of m k a] by (fastforce simp: fs_inv_def)+

lemma keeps_refl: "fs_inv m \<Longrightarrow> keeps m m"
  by (simp add: keeps_def)

lemma keeps_inv: "keeps m m' \<Longrightarrow> fs_inv m'"
  by (simp add: keeps_def)

lemma keepsD:
  assumes "keeps m m'"
  shows "fs_inv m'" "mf_ident m' = mf_ident m" "mf_sorter m' = mf_sorter m"
    "mf_next m \<le> mf_next m'"
    "fos_get m k = Some a \<Longrightarrow> fos_get m' k = Some a"
    "fos_get m k = None \<Longrightarrow> fos_get m' k = Some a \<Longrightarrow>
       f_dir (mf_heap m' a) \<and> f_data (mf_heap m' a) = [] \<and> mf_next m \<le> a"
    "a < mf_next m \<Longrightarrow> f_data (mf_heap m' a) = f_data (mf_heap m a) \<and>
        f_dir (mf_heap m' a) = f_dir (mf_heap m a) \<and> f_name (mf_heap m' a) = f_name (mf_heap m a) \<and>
        (f_at (mf_heap m' a) = f_at (mf_heap m a) \<or> f_at (mf_heap m' a) = 0)"
    "a < mf_next m \<Longrightarrow> fst ` set (f_memDir (mf_heap m a)) \<subseteq> fst ` set (f_memDir (mf_heap m' a))"
  using assms unfolding keeps_def by blast+

lemma keeps_trans:
  assumes a: "keeps m1 m2" and b: "keeps m2 m3"
  shows "keeps m1 m3"
proof -
  have new: "f_dir (mf_heap m3 a) \<and> f_data (mf_heap m3 a) = [] \<and> mf_next m1 \<le> a"
    if "fos_get m1 k = None" "fos_get m3 k = Some a" for k a
  proof (cases "fos_get m2 k")
    case None
    from keepsD(6)[OF b None that(2)] keepsD(4)[OF a] show ?thesis by simp
  next
    case (Some c)
    with keepsD(5)[OF b Some] that(2) have "c = a" by simp
    with keepsD(6)[OF a that(1), of c] Some fs_invD(3)[OF keepsD(1)[OF a] Some]
      keepsD(7)[OF b, of a] show ?thesis by simp
  qed
  have old: "f_data (mf_heap m3 a) = f_data (mf_heap m1 a) \<and>
        f_dir (mf_heap m3 a) = f_dir (mf_heap m1 a) \<and>
        f_name (mf_heap m3 a) = f_name (mf_heap m1 a) \<and>
        (f_at (mf_heap m3 a) = f_at (mf_heap m1 a) \<or> f_at (mf_heap m3 a) = 0) \<and>
        fst ` set (f_memDir (mf_heap m1 a)) \<subseteq> fst ` set (f_memDir (mf_heap m3 a))"
    if l: "a < mf_next m1" for a
  proof -
    have l2: "a < mf_next m2" using l keepsD(4)[OF a] by simp
    show ?thesis
      using keepsD(7,8)[OF a l] keepsD(7,8)[OF b l2] by auto
  qed
  show ?thesis
    unfolding keeps_def
    using new old keepsD(1-4)[OF b] keepsD(2-4)[OF a] keepsD(5)[OF b keepsD(5)[OF a]] by auto
qed

lemma set_file_sel [simp]:
  "mf_fos (set_file m a f) = mf_fos m" "mf_ident (set_file m a f) = mf_ident m"
  "mf_sorter (set_file m a f) = mf_sorter m" "mf_shadow (set_file m a f) = mf_shadow m"
  "mf_next (set_file m a f) = mf_next m" "mf_heap (set_file m a f) = (mf_heap m)(a := f)"
  "fos_get (set_file m a f) k = fos_get m k" "RootDir (set_file m a f) = RootDir m"
  "RootName (set_file m a f) = RootName m" "SplitX (set_file m a f) = SplitX m"
  "full_name (set_file m a f) = full_name m"
  by (simp_all add: set_file_def fos_get_def RootDir_def RootName_def SplitX_def full_name_def fun_eq_iff)

text \<open>Writing back an object with the same data, kind and name, and no fewer children.\<close>

lemma keeps_set_file:
  assumes "fs_inv m" "f_data f = f_data (mf_heap m a)" "f_dir f = f_dir (mf_heap m a)"
    "f_name f = f_name (mf_heap m a)" "f_at f = f_at (mf_heap m a) \<or> f_at f = 0"
    "fst ` set (f_memDir (mf_heap m a)) \<subseteq> fst ` set (f_memDir f)"
    "\<forall>(k, v)\<in>set (f_memDir f). \<exists>b<mf_next m. v = Some b"
  shows "keeps m (set_file m a f)"
  using assms unfolding keeps_def fs_inv_def by (auto simp: fos_get_def) 

lemma keeps_open_file:
  assumes "fs_inv m" "a < mf_next m"
  shows "keeps m (set_file m a (snd (Open_file (mf_heap m a))))"
  using assms by (intro keeps_set_file) (auto simp: Open_file_def fs_inv_def)

lemma keeps_ident: "keeps m m' \<Longrightarrow> mf_ident m' = mf_ident m"
  by (simp add: keeps_def)

lemma keeps_names:
  assumes "keeps m m'"
  shows "SplitX m' = SplitX m" "full_name m' = full_name m" "RootDir m' = RootDir m"
    "RootName m' = RootName m"
  using keeps_ident[OF assms]
  by (simp_all add: SplitX_def full_name_def RootDir_def RootName_def fun_eq_iff)

lemma keeps_get: "keeps m m' \<Longrightarrow> fos_get m k = Some a \<Longrightarrow> fos_get m' k = Some a"
  by (simp add: keeps_def)

subsection \<open>Opening and registering\<close>

text \<open>The entry \<open>Open\<close> finds without a shadowed file system.\<close>

definition found :: "memfs \<Rightarrow> string \<Rightarrow> addr option" where
  "found m s =
     (let name = full_name m s in
      case fos_get m name of
        Some a \<Rightarrow> Some a
      | None \<Rightarrow> fos_get m (if HasSuffix name ''/'' then Filify name else Directorify name))"

lemma Open_eq:
  assumes "mf_shadow m = None" "0 < fuel"
  shows "fs_Open fuel s m = Some (case found m s of
      None \<Rightarrow> (Inl ErrFileNotFound, m)
    | Some a \<Rightarrow> (Inr a, set_file m a (snd (Open_file (mf_heap m a)))))"
proof -
  obtain n where "fuel = Suc n" using assms(2) by (cases fuel) auto
  then show ?thesis
    using assms(1)
    by (auto simp: Open_with_def found_def lookupUnderlyingFS_def Let_def split: option.splits)
qed

lemma found_get: "found m s = Some a \<Longrightarrow> \<exists>k. fos_get m k = Some a"
  by (auto simp: found_def Let_def split: option.splits)

lemma found_keeps: "keeps m m' \<Longrightarrow> fs_inv m \<Longrightarrow> found m s \<noteq> None \<Longrightarrow> found m' s \<noteq> None"
  by (auto simp: found_def Let_def keeps_names dest: keeps_get split: option.splits)

lemma Open_keeps:
  assumes "fs_inv m" "0 < fuel"
  shows "\<exists>m'. fs_Open fuel s m =
    Some (case found m s of None \<Rightarrow> Inl ErrFileNotFound | Some a \<Rightarrow> Inr a, m') \<and> keeps m m'"
proof (cases "found m s")
  case None
  then show ?thesis using Open_eq[OF fs_invD(1)[OF assms(1)] assms(2)] keeps_refl[OF assms(1)] by simp
next
  case (Some a)
  then obtain k where "fos_get m k = Some a" using found_get by blast
  then have "a < mf_next m" by (rule fs_invD(3)[OF assms(1)])
  then show ?thesis
    using Some Open_eq[OF fs_invD(1)[OF assms(1)] assms(2)] keeps_open_file[OF assms(1)] by simp
qed

lemma full_name_spelled:
  assumes "names (mf_ident m) ws s"
  shows "spelled (mf_ident m) ws (full_name m s)" "full_name m s \<noteq> mf_ident m"
  using names_full(1,2)[OF assms] by (auto simp: full_name_def SplitX_def RootDir_def split: prod.splits)

lemma found_spelled:
  assumes "names (mf_ident m) ws s" "found m s = Some a"
  shows "\<exists>k. fos_get m k = Some a \<and> spelled (mf_ident m) ws k"
  using full_name_spelled(1)[OF assms(1)] spelled_alt[OF full_name_spelled(1)[OF assms(1)]] assms(2)
  by (auto simp: found_def Let_def split: option.splits if_splits)

lemma found_key:
  assumes "fos_get m k = Some a" "spelled (mf_ident m) ws k"
  shows "found m k \<noteq> None"
  using assms full_name_spelled(1)[OF spelled_names[OF assms(2)]]
    spelled_alt(2)[OF full_name_spelled(1)[OF spelled_names[OF assms(2)]] assms(2)]
  by (auto simp: found_def Let_def split: option.splits if_splits)

lemma SplitX_spelled:
  assumes "spelled (mf_ident m) ws name" "SplitX m name = (d, b)"
  shows "d = dirkey (mf_ident m) (butlast ws)" "d \<noteq> []"
  using names_full(5)[OF spelled_names[OF assms(1)]] assms(2) by (auto simp: SplitX_def RootDir_def)

text \<open>\<open>listed m ws name\<close>: an entry for the parent of \<open>ws\<close> has the child \<open>name\<close>.\<close>

definition listed :: "memfs \<Rightarrow> string list \<Rightarrow> string \<Rightarrow> bool" where
  "listed m ws name \<longleftrightarrow> (\<exists>k d. fos_get m k = Some d \<and> spelled (mf_ident m) (butlast ws) k \<and>
     name \<in> fst ` set (f_memDir (mf_heap m d)))"

lemma listed_keeps: "listed m ws name \<Longrightarrow> fs_inv m \<Longrightarrow> keeps m m' \<Longrightarrow> listed m' ws name"
proof -
  assume l: "listed m ws name" and i: "fs_inv m" and k: "keeps m m'"
  from l obtain e d where e: "fos_get m e = Some d" "spelled (mf_ident m) (butlast ws) e"
    "name \<in> fst ` set (f_memDir (mf_heap m d))"
    by (auto simp: listed_def)
  have "d < mf_next m" by (rule fs_invD(3)[OF i e(1)])
  from keepsD(8)[OF k this] e(3) have "name \<in> fst ` set (f_memDir (mf_heap m' d))" by blast
  then show ?thesis
    unfolding listed_def using keepsD(5)[OF k e(1)] e(2) keepsD(2)[OF k] by auto
qed

lemma findParent_keeps:
  assumes "fs_inv m" "0 < fuel" "spelled (mf_ident m) ws name" "ws \<noteq> []"
  shows "\<exists>m'. findParent (fs_Open fuel) name m =
    Some (case found m (dirkey (mf_ident m) (butlast ws)) of
            None \<Rightarrow> Inl ErrFileNotFound | Some a \<Rightarrow> Inr (Some a), m') \<and> keeps m m'"
proof -
  obtain d b where s: "SplitX m name = (d, b)" by fastforce
  have nr: "name \<noteq> RootName m \<and> name \<noteq> RootDir m"
    using spelled_root[OF assms(3)] assms(4) by (auto simp: RootName_def RootDir_def)
  show ?thesis
    using SplitX_spelled[OF assms(3) s] nr Open_keeps[OF assms(1,2), of d]
    by (auto simp: findParent_def s split: option.splits)
qed

lemma findParent_root:
  "spelled (mf_ident m) [] name \<Longrightarrow> findParent opn name m = Some (Inr None, m)"
  by (auto simp: findParent_def spelled_def RootName_def RootDir_def)

lemma set_AList_update: "set (AList.update k v xs) \<subseteq> insert (k, v) (set xs)"
  by (induction xs) auto

lemma keys_AList_update: "fst ` set (AList.update k v xs) = insert k (fst ` set xs)"
  by (induction xs) auto

lemma rev_subset_ball: "Ball A P \<Longrightarrow> B \<subseteq> A \<Longrightarrow> Ball B P"
  by blast

lemma keeps_add_child:
  assumes "fs_inv m" "b < mf_next m" "d < mf_next m" "pd = mf_heap m d"
  shows "keeps m (set_file m d (pd\<lparr>f_memDir := AList.update name (Some b) (f_memDir pd)\<rparr>))"
proof (rule keeps_set_file[OF assms(1)])
  let ?ok = "\<lambda>(k, v). \<exists>b<mf_next m. v = Some b"
  have "Ball (set (f_memDir pd)) ?ok" using assms(1,3,4) by (simp add: fs_inv_def)
  then have "Ball (insert (name, Some b) (set (f_memDir pd))) ?ok" using assms(2) by simp
  then have "Ball (set (AList.update name (Some b) (f_memDir pd))) ?ok"
    using set_AList_update by (rule rev_subset_ball)
  then show "Ball (set (f_memDir (pd\<lparr>f_memDir := AList.update name (Some b) (f_memDir pd)\<rparr>))) ?ok"
    by simp
qed (auto simp: keys_AList_update assms(4))

lemma registerWithParent_root:
  assumes "fs_inv m" "spelled (mf_ident m) [] name"
    and "\<exists>e m2. mk (RootDir m) m = Some (e, m2) \<and> keeps m m2"
  shows "\<exists>m'. registerWithParent mk opn name m = Some ([], m') \<and> keeps m m'"
proof -
  obtain e m2 where mk: "mk (RootDir m) m = Some (e, m2)" "keeps m m2" using assms(3) by blast
  obtain d b where s: "SplitX m name = (d, b)" by fastforce
  have "d = RootDir m" using SplitX_spelled[OF assms(2) s] by (simp add: RootDir_def)
  moreover have "name \<noteq> []" using assms(2) by (auto simp: spelled_def)
  moreover have "findParent opn name m2 = Some (Inr None, m2)"
    using findParent_root assms(2) keeps_ident[OF mk(2)] by simp
  ultimately show ?thesis
    using mk s findParent_root[OF assms(2)] by (simp add: registerWithParent_def RootDir_def)
qed

lemma registerWithParent_keeps:
  assumes inv: "fs_inv m" and fuel: "0 < fuel" and sp: "spelled (mf_ident m) ws name"
    and ne: "ws \<noteq> []" and here: "found m name \<noteq> None"
    and mk: "\<And>m1. keeps m m1 \<Longrightarrow> \<exists>e m2. mk (dirkey (mf_ident m) (butlast ws)) m1 = Some (e, m2) \<and>
        keeps m1 m2 \<and> found m2 (dirkey (mf_ident m) (butlast ws)) \<noteq> None"
  shows "\<exists>par m'. registerWithParent mk (fs_Open fuel) name m = Some (par, m') \<and> keeps m m' \<and>
      spelled (mf_ident m) (butlast ws) par \<and> found m' par \<noteq> None \<and> listed m' ws name"
proof -
  let ?p = "dirkey (mf_ident m) (butlast ws)"
  have spp: "spelled (mf_ident m) (butlast ws) ?p"
    using sp by (auto simp: spelled_def dest: in_set_butlastD)
  obtain d0 b0 where s: "SplitX m name = (d0, b0)" by fastforce
  have d0: "d0 = ?p" "d0 \<noteq> []" using SplitX_spelled[OF sp s] .
  have nn: "name \<noteq> []" using sp ne by (cases ws) (auto simp: spelled_def)
  obtain m1 where f1: "findParent (fs_Open fuel) name m =
      Some (case found m ?p of None \<Rightarrow> Inl ErrFileNotFound | Some a \<Rightarrow> Inr (Some a), m1)" "keeps m m1"
    using findParent_keeps[OF inv fuel sp ne] by blast
  have s1: "SplitX m1 name = (?p, b0)" using s d0 keeps_names(1)[OF f1(2)] by simp
  obtain m2 where m2: "(case (case found m ?p of None \<Rightarrow> Inl ErrFileNotFound | Some a \<Rightarrow> Inr (Some a)) of
                Inr (Some _) \<Rightarrow> Some m1
              | _ \<Rightarrow> (let (newPar, _) = SplitX m1 name in
                     if length newPar > 0 then do { (e, m') \<leftarrow> mk newPar m1; Some m' }
                     else Some m1)) = Some m2" "keeps m1 m2" "found m2 ?p \<noteq> None"
  proof (cases "found m ?p")
    case None
    then show ?thesis using that mk[OF f1(2)] s1 by auto
  next
    case (Some a)
    then show ?thesis using that[of m1] keeps_refl[OF keeps_inv[OF f1(2)]] found_keeps[OF f1(2) inv] by auto
  qed
  have k2: "keeps m m2" using keeps_trans[OF f1(2) m2(2)] .
  have i2: "fs_inv m2" using keeps_inv[OF k2] .
  have id2: "mf_ident m2 = mf_ident m" using keeps_ident[OF k2] .
  obtain a where a: "found m2 ?p = Some a" using m2(3) by blast
  obtain m3 where f3: "findParent (fs_Open fuel) name m2 = Some (Inr (Some a), m3)" "keeps m2 m3"
    using findParent_keeps[OF i2 fuel, of ws name] sp ne a id2 by auto
  have k3: "keeps m m3" and i3: "fs_inv m3"
    using keeps_trans[OF k2 f3(2)] keeps_inv[OF f3(2)] by auto
  obtain b where b: "found m3 name = Some b" using found_keeps[OF k3 inv here] by blast
  obtain m4 where f4: "fs_Open fuel name m3 = Some (Inr b, m4)" "keeps m3 m4"
    using Open_keeps[OF i3 fuel, of name] b by auto
  have k4: "keeps m m4" and i4: "fs_inv m4" using keeps_trans[OF k3 f4(2)] keeps_inv[OF f4(2)] by auto
  obtain k where k: "fos_get m2 k = Some a" "spelled (mf_ident m) (butlast ws) k"
    using found_spelled[OF _ a] spelled_names[OF spp] id2 by metis
  have ka: "fos_get m4 k = Some a" using keeps_get[OF keeps_trans[OF f3(2) f4(2)] k(1)] .
  obtain kb where "fos_get m3 kb = Some b" using found_get[OF b] by blast
  then have bl: "b < mf_next m4" using fs_invD(3)[OF i4] keeps_get[OF f4(2)] by blast
  define pd where "pd = mf_heap m4 a"
  define m5 where "m5 = set_file m4 a (pd\<lparr>f_memDir := AList.update name (Some b) (f_memDir pd)\<rparr>)"
  have k5: "keeps m4 m5"
    unfolding m5_def by (rule keeps_add_child[OF i4 bl fs_invD(3)[OF i4 ka] pd_def])
  have "registerWithParent mk (fs_Open fuel) name m = Some (f_name pd, m5)"
    using nn f1(1) m2(1) f3(1) f4(1) by (simp add: registerWithParent_def pd_def m5_def Let_def)
  moreover have "f_name pd = k" using fs_invD(4)[OF i4 ka] by (simp add: pd_def)
  moreover have id5: "mf_ident m5 = mf_ident m" using keeps_ident[OF keeps_trans[OF k4 k5]] .
  moreover have "fos_get m5 k = Some a" using keeps_get[OF k5 ka] .
  moreover from this have "listed m5 ws name"
    unfolding listed_def using k(2) id5 by (auto simp: m5_def keys_AList_update intro!: exI[of _ k])
  ultimately show ?thesis
    using keeps_trans[OF k4 k5] k(2) found_key[of m5 k a "butlast ws"] by auto
qed

lemma found_any:
  assumes "fos_get m k = Some a" "spelled (mf_ident m) ws k" "names (mf_ident m) ws s"
  shows "found m s \<noteq> None"
  using assms(1) full_name_spelled(1)[OF assms(3)]
    spelled_alt(2)[OF full_name_spelled(1)[OF assms(3)] assms(2)]
  by (auto simp: found_def Let_def split: option.splits if_splits)

lemma registerDirs_loop_keeps:
  assumes "fs_inv m" "0 < fuel" "spelled (mf_ident m) ws name" "found m name \<noteq> None"
    and "ws = [] \<Longrightarrow> found m (RootDir m) \<noteq> None"
    and mk: "\<And>us m1. fs_inv m1 \<Longrightarrow> mf_ident m1 = mf_ident m \<Longrightarrow> length us < length ws \<Longrightarrow>
        spelled (mf_ident m) us (dirkey (mf_ident m) us) \<Longrightarrow>
        \<exists>e m2. mk (dirkey (mf_ident m) us) m1 = Some (e, m2) \<and>
          keeps m1 m2 \<and> found m2 (dirkey (mf_ident m) us) \<noteq> None"
    and root: "ws = [] \<Longrightarrow> \<exists>e m2. mk (RootDir m) m = Some (e, m2) \<and> keeps m m2"
  shows "\<exists>m'. registerDirs_loop mk (fs_Open fuel) rounds name m = Some m' \<and> keeps m m' \<and>
      (0 < rounds \<longrightarrow> ws \<noteq> [] \<longrightarrow> listed m' ws name) \<and>
      (length ws \<le> rounds \<longrightarrow> (\<forall>n<length ws. found m' (dirkey (mf_ident m) (take n ws)) \<noteq> None))"
  using assms
proof (induction rounds arbitrary: m ws name)
  case 0
  then show ?case by (simp add: keeps_refl)
next
  case (Suc n)
  show ?case
  proof (cases "ws = []")
    case True
    then obtain m' where "registerWithParent mk (fs_Open fuel) name m = Some ([], m')" "keeps m m'"
      using registerWithParent_root[of m name mk "fs_Open fuel"] Suc.prems(1,3,7) by blast
    then show ?thesis using True by simp
  next
    case False
    have spp: "spelled (mf_ident m) (butlast ws) (dirkey (mf_ident m) (butlast ws))"
      using Suc.prems(3) by (auto simp: spelled_def dest: in_set_butlastD)
    have len: "length (butlast ws) < length ws" using False by (cases ws) auto
    have up: "\<exists>e m2. mk (dirkey (mf_ident m) (butlast ws)) m1 = Some (e, m2) \<and>
        keeps m1 m2 \<and> found m2 (dirkey (mf_ident m) (butlast ws)) \<noteq> None" if "keeps m m1" for m1
      using Suc.prems(6)[OF keepsD(1)[OF that] keepsD(2)[OF that] len spp] .
    obtain par m1 where r: "registerWithParent mk (fs_Open fuel) name m = Some (par, m1)" "keeps m m1"
      "spelled (mf_ident m) (butlast ws) par" "found m1 par \<noteq> None" "listed m1 ws name"
      using registerWithParent_keeps[where mk = mk, OF Suc.prems(1-3) False Suc.prems(4) up] by blast
    have i1: "fs_inv m1" and id1: "mf_ident m1 = mf_ident m" using keepsD(1,2)[OF r(2)] by auto
    have up1: "found m1 (dirkey (mf_ident m) (butlast ws)) \<noteq> None"
      using found_spelled[of m1 "butlast ws" par] found_any[of m1 _ _ "butlast ws" "dirkey (mf_ident m) (butlast ws)"]
        spelled_names[OF r(3)] spelled_names[OF spp] r(4) id1 by fastforce
    show ?thesis
    proof (cases "par = [] \<or> par = RootDir m1 \<or> par = RootName m1")
      case True
      then have "butlast ws = []"
        using r(3) spelled_root[OF r(3)] id1 by (cases "butlast ws = []") (auto simp: RootDir_def RootName_def spelled_def join_slash_Cons)
      then have "length ws = 1" using False by (cases ws rule: rev_cases) auto
      then show ?thesis using r up1 True by (auto simp: butlast_conv_take)
    next
      case np: False
      then have bn: "butlast ws \<noteq> []"
        using spelled_root[OF r(3)] id1 by (auto simp: RootDir_def RootName_def)
      have mk': "\<exists>e m2'. mk (dirkey (mf_ident m1) us) m2 = Some (e, m2') \<and> keeps m2 m2' \<and>
            found m2' (dirkey (mf_ident m1) us) \<noteq> None"
        if "fs_inv m2" "mf_ident m2 = mf_ident m1" "length us < length (butlast ws)"
          "spelled (mf_ident m1) us (dirkey (mf_ident m1) us)" for us m2
        using Suc.prems(6)[of m2 us] that id1 len by simp
      obtain m' where l: "registerDirs_loop mk (fs_Open fuel) n par m1 = Some m'" "keeps m1 m'"
        "length (butlast ws) \<le> n \<Longrightarrow> \<forall>i<length (butlast ws). found m' (dirkey (mf_ident m) (take i (butlast ws))) \<noteq> None"
        using Suc.IH[of m1 "butlast ws" par, OF i1 Suc.prems(2) _ r(4) _ mk'] r(3) id1 bn by auto
      have "found m' (dirkey (mf_ident m) (take i ws)) \<noteq> None" if "length ws \<le> Suc n" "i < length ws" for i
      proof (cases "i = length ws - 1")
        case True
        then show ?thesis using found_keeps[OF l(2) i1 up1] by (simp add: butlast_conv_take)
      next
        case ne: False
        then have "i < length (butlast ws)" "take i ws = take i (butlast ws)" using that by (simp_all add: take_butlast)
        then show ?thesis using l(3) that(1) by simp
      qed
      then show ?thesis
        using r np l(1) keeps_trans[OF r(2) l(2)] listed_keeps[OF r(5) i1 l(2)] by auto
    qed
  qed
qed

lemma put_new_sel [simp]:
  "mf_ident (put_new m k fo) = mf_ident m" "mf_shadow (put_new m k fo) = mf_shadow m"
  "mf_sorter (put_new m k fo) = mf_sorter m" "mf_next (put_new m k fo) = Suc (mf_next m)"
  "mf_heap (put_new m k fo) = (mf_heap m)(mf_next m := fo)"
  "fos_get (put_new m k fo) = (fos_get m)(k \<mapsto> mf_next m)"
  "RootDir (put_new m k fo) = RootDir m"
  "RootName (put_new m k fo) = RootName m" "SplitX (put_new m k fo) = SplitX m"
  "full_name (put_new m k fo) = full_name m"
  by (simp_all add: put_new_def fos_get_def RootDir_def RootName_def SplitX_def full_name_def
      fun_eq_iff update_conv')

lemma fs_inv_put_new:
  assumes "fs_inv m" "spelled (mf_ident m) ws k" "k \<noteq> mf_ident m" "f_name fo = k" "f_memDir fo = []"
  shows "fs_inv (put_new m k fo)"
proof -
  let ?m = "put_new m k fo"
  define ok where "ok = (\<lambda>(k, a). a < mf_next ?m \<and> f_name (mf_heap ?m a) = k \<and>
        (\<exists>ws. spelled (mf_ident m) ws k) \<and> k \<noteq> mf_ident m)"
  have "ok e" if e: "e \<in> set (mf_fos m)" for e
  proof -
    obtain j a where ja: "e = (j, a)" by fastforce
    have "a < mf_next m \<and> f_name (mf_heap m a) = j \<and> (\<exists>ws. spelled (mf_ident m) ws j) \<and> j \<noteq> mf_ident m"
      using assms(1) e unfolding ja fs_inv_def by blast
    then show ?thesis unfolding ja ok_def by simp
  qed
  moreover have "ok (k, mf_next m)"
    using assms(2-4) unfolding ok_def by (simp, blast)
  ultimately have "\<forall>e\<in>set (mf_fos ?m). ok e"
    using set_AList_update[of k "mf_next m" "mf_fos m"] by (auto simp: put_new_def)
  then have "\<forall>(k, a)\<in>set (mf_fos ?m). a < mf_next ?m \<and> f_name (mf_heap ?m a) = k \<and>
        (\<exists>ws. spelled (mf_ident m) ws k) \<and> k \<noteq> mf_ident m"
    unfolding ok_def .
  moreover have "\<forall>a<mf_next ?m. \<forall>(k, v)\<in>set (f_memDir (mf_heap ?m a)). \<exists>b<mf_next ?m. v = Some b"
  proof (intro allI impI)
    fix a assume "a < mf_next ?m"
    then consider "a = mf_next m" | "a < mf_next m" by fastforce
    then show "\<forall>(k, v)\<in>set (f_memDir (mf_heap ?m a)). \<exists>b<mf_next ?m. v = Some b"
    proof cases
      case 2
      then have "\<forall>(k, v)\<in>set (f_memDir (mf_heap m a)). \<exists>b<mf_next m. v = Some b"
        using assms(1) by (simp add: fs_inv_def)
      then show ?thesis using 2 by (auto intro: less_SucI)
    qed (simp add: assms(5))
  qed
  ultimately show ?thesis
    using assms(1) by (simp add: fs_inv_def)
qed

lemma keeps_put_new:
  assumes "fs_inv m" "spelled (mf_ident m) ws k" "k \<noteq> mf_ident m" "f_name fo = k" "f_memDir fo = []"
    "fos_get m k = None" "f_dir fo" "f_data fo = []"
  shows "keeps m (put_new m k fo)"
  using fs_inv_put_new[OF assms(1-5)] assms(6-8) unfolding keeps_def by auto

lemma Mkdir_exists:
  assumes "names (mf_ident m) ws s" "fos_get m (dirkey (mf_ident m) ws) \<noteq> None" "0 < fuel"
  shows "fs_Mkdir fuel s m = Some (Some ErrFileExists, m)"
proof -
  obtain f where "fuel = Suc f" using assms(3) by (cases fuel) auto
  moreover obtain d b where s: "SplitX m s = (d, b)" by fastforce
  moreover have "d @ Directorify b = dirkey (mf_ident m) ws"
    using names_full(3)[OF assms(1)] s by (simp add: SplitX_def RootDir_def)
  ultimately show ?thesis using assms(2) by (simp add: Mkdir_with_def Let_def)
qed

lemma Mkdir_keeps:
  assumes "fs_inv m" "names (mf_ident m) ws s" "length ws + 2 \<le> fuel"
  shows "\<exists>e m'. fs_Mkdir fuel s m = Some (e, m') \<and> keeps m m' \<and>
      fos_get m' (dirkey (mf_ident m) ws) \<noteq> None \<and>
      e = (if fos_get m (dirkey (mf_ident m) ws) = None then None else Some ErrFileExists) \<and>
      (e = None \<longrightarrow> ws \<noteq> [] \<longrightarrow> listed m' ws (full_name m (dirkey (mf_ident m) ws)))"
  using assms
proof (induction fuel arbitrary: m ws s)
  case 0
  then show ?case by simp
next
  case (Suc f)
  let ?r = "mf_ident m"
  let ?k = "dirkey ?r ws"
  obtain d b where s: "SplitX m s = (d, b)" by fastforce
  have db: "d @ Directorify b = ?k"
    using names_full(3)[OF Suc.prems(2)] s by (simp add: SplitX_def RootDir_def)
  have f0: "0 < f" using Suc.prems(3) by simp
  have sk: "spelled ?r ws ?k" using Suc.prems(2) by (auto simp: spelled_def names_def)
  have kr: "?k \<noteq> ?r"
  proof -
    have "CHR ''/'' \<notin> set ?r" using Suc.prems(2) by (auto simp: names_def dest: plainD)
    moreover have "CHR ''/'' \<in> set ?k" by simp
    ultimately show ?thesis by metis
  qed
  show ?case
  proof (cases "fos_get m ?k")
    case (Some a)
    then show ?thesis
      using s db keeps_refl[OF Suc.prems(1)] by (simp add: Mkdir_with_def Let_def)
  next
    case None
    let ?fo = "(createHelper m ?k)\<lparr>f_dir := True\<rparr>"
    let ?m1 = "put_new m ?k ?fo"
    have k1: "keeps m ?m1"
      using keeps_put_new[OF Suc.prems(1) sk kr, of ?fo] None by (simp add: createHelper_def)
    have i1: "fs_inv ?m1" using keeps_inv[OF k1] .
    have n1: "names ?r ws ?k" using spelled_names[OF sk] .
    have sf: "spelled (mf_ident ?m1) ws (full_name m ?k)"
      using full_name_spelled(1)[OF n1] by simp
    have fnd: "found ?m1 x \<noteq> None" if "names ?r ws x" for x
      using found_any[of ?m1 ?k "mf_next m" ws x] sk that by simp
    have rootf: "found ?m1 (RootDir ?m1) \<noteq> None" if "ws = []"
      using fnd[of "RootDir m"] n1 that by (simp add: RootDir_def)
    have mk: "\<exists>e m2. fs_Mkdir f (dirkey (mf_ident ?m1) us) m1 = Some (e, m2) \<and>
          keeps m1 m2 \<and> found m2 (dirkey (mf_ident ?m1) us) \<noteq> None"
      if "fs_inv m1" "mf_ident m1 = mf_ident ?m1" "length us < length ws"
        "spelled (mf_ident ?m1) us (dirkey (mf_ident ?m1) us)" for us m1
    proof -
      have nu: "names (mf_ident m1) us (dirkey (mf_ident m1) us)"
        using spelled_names that by metis
      note us = that
      obtain e m2 where "fs_Mkdir f (dirkey (mf_ident m1) us) m1 = Some (e, m2)" "keeps m1 m2"
        "fos_get m2 (dirkey (mf_ident m1) us) \<noteq> None"
        using Suc.IH[OF us(1) nu] us(3) Suc.prems(3) by auto
      moreover from this have "found m2 (dirkey (mf_ident m1) us) \<noteq> None"
        using found_key[of m2 "dirkey (mf_ident m1) us" _ us] keepsD(2)[of m1 m2] that by auto
      ultimately show ?thesis using that(2) by auto
    qed
    have root: "\<exists>e m2. fs_Mkdir f (RootDir ?m1) ?m1 = Some (e, m2) \<and> keeps ?m1 m2"
      if "ws = []"
    proof -
      have "names (mf_ident ?m1) [] (RootDir ?m1)"
        using n1 that by (simp add: RootDir_def)
      moreover have "fos_get ?m1 (dirkey (mf_ident ?m1) []) \<noteq> None" using that by simp
      ultimately have "fs_Mkdir f (RootDir ?m1) ?m1 = Some (Some ErrFileExists, ?m1)"
        using Mkdir_exists f0 by blast
      then show ?thesis using keeps_refl[OF i1] by blast
    qed
    have "\<exists>m'. registerDirs_loop (fs_Mkdir f) (fs_Open f) 10 (full_name m ?k) ?m1 = Some m' \<and>
        keeps ?m1 m' \<and> (ws \<noteq> [] \<longrightarrow> listed m' ws (full_name m ?k))"
      using registerDirs_loop_keeps[where mk = "fs_Mkdir f" and rounds = 10, OF i1 f0 sf
          fnd[OF spelled_names[OF sf[simplified]]] rootf mk root] by simp blast
    then obtain m' where l: "registerDirs_loop (fs_Mkdir f) (fs_Open f) 10 (full_name m ?k) ?m1 = Some m'"
      "keeps ?m1 m'" "ws \<noteq> [] \<longrightarrow> listed m' ws (full_name m ?k)" by blast
    have "fs_Mkdir (Suc f) s m = Some (None, m')"
      using s db None l(1) by (simp add: Mkdir_with_def Let_def registerDirs_def)
    moreover have "fos_get m' ?k = Some (mf_next m)"
      using keepsD(5)[OF l(2), of ?k] by simp
    ultimately show ?thesis using keeps_trans[OF k1 l(2)] l(3) None by simp
  qed
qed

subsection \<open>The contents as a map\<close>

text \<open>What the file system promises of its files: a map from full names to contents.\<close>

definition content :: "memfs \<Rightarrow> string \<Rightarrow> string option" where
  "content m k = (case fos_get m k of
     None \<Rightarrow> None
   | Some a \<Rightarrow> if f_dir (mf_heap m a) then None else Some (f_data (mf_heap m a)))"

lemma content_keeps:
  assumes "fs_inv m" "keeps m m'"
  shows "content m' = content m"
proof
  fix k
  show "content m' k = content m k"
  proof (cases "fos_get m k")
    case None
    then show ?thesis
      using keepsD(6)[OF assms(2) None] by (auto simp: content_def split: option.split)
  next
    case (Some a)
    then show ?thesis
      using keepsD(5)[OF assms(2) Some] keepsD(7)[OF assms(2) fs_invD(3)[OF assms(1) Some]]
      by (simp add: content_def)
  qed
qed

lemma content_put_new:
  assumes "fs_inv m" "\<not> f_dir fo"
  shows "content (put_new m k fo) = (content m)(k \<mapsto> f_data fo)"
  using assms(2) fs_invD(3)[OF assms(1)] by (fastforce simp: content_def split: option.split)

lemma content_set_file:
  assumes "fs_inv m" "fos_get m k = Some a" "f_name f = k" "\<not> f_dir f"
  shows "content (set_file m a f) = (content m)(k \<mapsto> f_data f)"
proof
  fix j
  show "content (set_file m a f) j = ((content m)(k \<mapsto> f_data f)) j"
  proof (cases "j = k")
    case False
    have "b \<noteq> a" if "fos_get m j = Some b" for b
      using fs_invD(4)[OF assms(1) that] fs_invD(4)[OF assms(1,2)] False by metis
    then show ?thesis using False by (simp add: content_def split: option.split)
  qed (use assms(2,4) in \<open>simp add: content_def\<close>)
qed

lemma Create_keeps:
  assumes "fs_inv m" "names (mf_ident m) ws s" "length ws + 1 \<le> fuel"
  defines "k \<equiv> full_name m s"
  shows "\<exists>m'. fs_Create fuel s m = Some (Some (mf_next m), m') \<and> keeps (put_new m k (createHelper m k)) m' \<and>
      (ws \<noteq> [] \<longrightarrow> listed m' ws (full_name m k)) \<and>
      (length ws \<le> 10 \<longrightarrow> (\<forall>n<length ws. found m' (dirkey (mf_ident m) (take n ws)) \<noteq> None))"
proof -
  let ?r = "mf_ident m"
  let ?m1 = "put_new m k (createHelper m k)"
  have sk: "spelled ?r ws k" and kr: "k \<noteq> ?r"
    using full_name_spelled[OF assms(2)] by (simp_all add: k_def)
  have i1: "fs_inv ?m1"
    using fs_inv_put_new[OF assms(1) sk kr] by (simp add: createHelper_def)
  have f0: "0 < fuel" using assms(3) by simp
  have n1: "names ?r ws k" using spelled_names[OF sk] .
  have sf: "spelled (mf_ident ?m1) ws (full_name m k)"
    using full_name_spelled(1)[OF n1] by simp
  have fnd: "found ?m1 x \<noteq> None" if "names ?r ws x" for x
    using found_any[of ?m1 k "mf_next m" ws x] sk that by simp
  have rootn: "names ?r ws (RootDir m)" if "ws = []"
    using that sk by (intro spelled_names) (auto simp: spelled_def RootDir_def)
  have rootf: "found ?m1 (RootDir ?m1) \<noteq> None" if "ws = []"
    using fnd[OF rootn] that by simp
  have mk: "\<exists>e m2. fs_Mkdir fuel (dirkey (mf_ident ?m1) us) m1 = Some (e, m2) \<and>
        keeps m1 m2 \<and> found m2 (dirkey (mf_ident ?m1) us) \<noteq> None"
    if "fs_inv m1" "mf_ident m1 = mf_ident ?m1" "length us < length ws"
      "spelled (mf_ident ?m1) us (dirkey (mf_ident ?m1) us)" for us m1
  proof -
    have nu: "names (mf_ident m1) us (dirkey (mf_ident m1) us)"
      using spelled_names that by metis
    note us = that
    obtain e m2 where "fs_Mkdir fuel (dirkey (mf_ident m1) us) m1 = Some (e, m2)" "keeps m1 m2"
      "fos_get m2 (dirkey (mf_ident m1) us) \<noteq> None"
      using Mkdir_keeps[OF us(1) nu, of fuel] us(3) assms(3) by auto
    moreover from this have "found m2 (dirkey (mf_ident m1) us) \<noteq> None"
      using found_key[of m2 "dirkey (mf_ident m1) us" _ us] keepsD(2)[of m1 m2] that by auto
    ultimately show ?thesis using that(2) by auto
  qed
  have root: "\<exists>e m2. fs_Mkdir fuel (RootDir ?m1) ?m1 = Some (e, m2) \<and> keeps ?m1 m2"
    if "ws = []"
  proof -
    have "full_name m s = RootDir m"
      using full_name_spelled[OF assms(2)] that by (auto simp: spelled_def RootDir_def)
    then have "fos_get ?m1 (dirkey (mf_ident ?m1) []) \<noteq> None"
      by (simp add: k_def RootDir_def)
    moreover have "names (mf_ident ?m1) [] (RootDir ?m1)" using rootn that by simp
    ultimately have "fs_Mkdir fuel (RootDir ?m1) ?m1 = Some (Some ErrFileExists, ?m1)"
      using Mkdir_exists f0 by blast
    then show ?thesis using keeps_refl[OF i1] by blast
  qed
  have "\<exists>m'. registerDirs_loop (fs_Mkdir fuel) (fs_Open fuel) 10 (full_name m k) ?m1 = Some m' \<and>
      keeps ?m1 m' \<and> (ws \<noteq> [] \<longrightarrow> listed m' ws (full_name m k)) \<and>
      (length ws \<le> 10 \<longrightarrow> (\<forall>n<length ws. found m' (dirkey ?r (take n ws)) \<noteq> None))"
    using registerDirs_loop_keeps[where mk = "fs_Mkdir fuel" and rounds = 10, OF i1 f0 sf
        fnd[OF spelled_names[OF sf[simplified]]] rootf mk root] by simp
  then obtain m' where l: "registerDirs_loop (fs_Mkdir fuel) (fs_Open fuel) 10 (full_name m k) ?m1 = Some m'"
    "keeps ?m1 m'" "ws \<noteq> [] \<longrightarrow> listed m' ws (full_name m k)"
    "length ws \<le> 10 \<longrightarrow> (\<forall>n<length ws. found m' (dirkey ?r (take n ws)) \<noteq> None)" by blast
  have "fos_get m' k = Some (mf_next m)" using keepsD(5)[OF l(2), of k] by simp
  then show ?thesis
    using l by (simp add: fs_Create_def Create_with_def registerDirs_def k_def Let_def)
qed

lemma WriteFile_content:
  assumes "fs_inv m" "names (mf_ident m) ws s" "length ws + 1 \<le> fuel"
  shows "\<exists>m'. WriteFile fuel s data m = Some (None, m') \<and> fs_inv m' \<and> mf_ident m' = mf_ident m \<and>
      content m' = (content m)(full_name m s \<mapsto> data) \<and>
      (ws \<noteq> [] \<longrightarrow> listed m' ws (full_name m (full_name m s))) \<and>
      (length ws \<le> 10 \<longrightarrow> (\<forall>n<length ws. found m' (dirkey (mf_ident m) (take n ws)) \<noteq> None)) \<and>
      (\<forall>j a. j \<noteq> full_name m s \<and> fos_get m j = None \<and> fos_get m' j = Some a \<longrightarrow> f_dir (mf_heap m' a) \<and> f_data (mf_heap m' a) = [])"
proof -
  define k where "k = full_name m s"
  define fo where "fo = createHelper m k"
  let ?m1 = "put_new m k fo" and ?a = "mf_next m"
  obtain m2 where c: "fs_Create fuel s m = Some (Some ?a, m2)" "keeps ?m1 m2"
    "ws \<noteq> [] \<longrightarrow> listed m2 ws (full_name m k)"
    "length ws \<le> 10 \<longrightarrow> (\<forall>n<length ws. found m2 (dirkey (mf_ident m) (take n ws)) \<noteq> None)"
    using Create_keeps[OF assms] unfolding k_def fo_def by blast
  have i1: "fs_inv ?m1"
    using fs_inv_put_new[OF assms(1) full_name_spelled[OF assms(2)]]
    by (simp add: k_def fo_def createHelper_def)
  have i2: "fs_inv m2" using keeps_inv[OF c(2)] .
  have o: "f_data (mf_heap m2 ?a) = [] \<and> \<not> f_dir (mf_heap m2 ?a) \<and> f_name (mf_heap m2 ?a) = k \<and>
      f_at (mf_heap m2 ?a) = 0"
    using keepsD(7)[OF c(2), of ?a] by (auto simp: fo_def createHelper_def)
  define f where "f = (mf_heap m2 ?a)\<lparr>f_data := data, f_at := int (length data)\<rparr>"
  have w: "Write (mf_heap m2 ?a) data = Some ((int (length data), None), f)"
    using write_at_start[of "mf_heap m2 ?a" data] o by (simp add: f_def)
  let ?m3 = "set_file m2 ?a f"
  have g: "fos_get m2 k = Some ?a" using keepsD(5)[OF c(2), of k] by simp
  have "content ?m3 = (content m2)(k \<mapsto> data)"
    using content_set_file[OF i2 g, of f] o by (simp add: f_def)
  also have "content m2 = (content m)(k \<mapsto> [])"
    using content_keeps[OF i1 c(2)] content_put_new[OF assms(1), of fo k]
    by (simp add: fo_def createHelper_def)
  finally have ct: "content ?m3 = (content m)(k \<mapsto> data)"
    unfolding fun_upd_upd .
  have i3: "fs_inv ?m3"
    using i2 unfolding fs_inv_def by (auto simp: f_def)
  have l3: "listed ?m3 ws x" if li: "listed m2 ws x" for x
  proof -
    obtain e d where "fos_get m2 e = Some d" "spelled (mf_ident m2) (butlast ws) e"
      "x \<in> fst ` set (f_memDir (mf_heap m2 d))"
      using li unfolding listed_def by blast
    then show ?thesis unfolding listed_def by (intro exI[of _ e] exI[of _ d]) (auto simp: f_def)
  qed
  have f3: "found ?m3 x = found m2 x" for x by (auto simp: found_def Let_def split: option.split)
  have new: "f_dir (mf_heap ?m3 a) \<and> f_data (mf_heap ?m3 a) = []" if "j \<noteq> k" "fos_get m j = None" "fos_get ?m3 j = Some a" for j a
  proof -
    have "fos_get ?m1 j = None" "fos_get m2 j = Some a" using that by simp_all
    from keepsD(6)[OF c(2) this] show ?thesis by auto
  qed
  have wf: "WriteFile fuel s data m = Some (None, ?m3)" using c(1) w by (simp add: WriteFile_def)
  have "\<forall>j a. j \<noteq> full_name m s \<and> fos_get m j = None \<and> fos_get ?m3 j = Some a \<longrightarrow> f_dir (mf_heap ?m3 a) \<and> f_data (mf_heap ?m3 a) = []"
    using new unfolding k_def by blast
  moreover have "ws \<noteq> [] \<longrightarrow> listed ?m3 ws (full_name m (full_name m s))" using c(3) l3 unfolding k_def by blast
  moreover have "length ws \<le> 10 \<longrightarrow> (\<forall>n<length ws. found ?m3 (dirkey (mf_ident m) (take n ws)) \<noteq> None)"
    using c(4) unfolding f3 .
  moreover have "mf_ident ?m3 = mf_ident m" using keepsD(2)[OF c(2)] by simp
  ultimately show ?thesis using wf i3 ct unfolding k_def by blast
qed

lemma ReadFile_content:
  assumes "fs_inv m" "0 < fuel"
  shows "\<exists>r m'. ReadFile fuel s m = Some (r, m') \<and> keeps m m' \<and>
    (\<forall>d. content m (full_name m s) = Some d \<longrightarrow> r = (d, None)) \<and>
    (found m s = None \<longrightarrow> r = ([], Some ErrFileNotFound))"
proof -
  obtain m' where o: "fs_Open fuel s m =
    Some (case found m s of None \<Rightarrow> Inl ErrFileNotFound | Some a \<Rightarrow> Inr a, m')" "keeps m m'"
    using Open_keeps[OF assms] by blast
  let ?r = "case found m s of None \<Rightarrow> ([], Some ErrFileNotFound) | Some a \<Rightarrow> (f_data (mf_heap m' a), None)"
  have rd: "ReadFile fuel s m = Some (?r, m')"
    using o(1) by (auto simp: ReadFile_def split: option.split)
  have "?r = (d, None)" if ct: "content m (full_name m s) = Some d" for d
  proof -
    obtain a where a: "fos_get m (full_name m s) = Some a" "f_data (mf_heap m a) = d"
      using ct by (cases "fos_get m (full_name m s)") (auto simp: content_def split: if_splits)
    then have "found m s = Some a" by (simp add: found_def)
    then show ?thesis using a keepsD(7)[OF o(2) fs_invD(3)[OF assms(1) a(1)]] by simp
  qed
  then show ?thesis using rd o(2) by auto
qed

subsection \<open>Removing, renaming, listing\<close>

lemma join_slash_has: "ws \<noteq> [] \<Longrightarrow> CHR ''/'' \<in> set (join_slash (r # ws))"
  by (simp add: join_slash_Cons)

lemma key_has_slash:
  assumes "fs_inv m" "fos_get m k = Some a"
  shows "CHR ''/'' \<in> set k"
proof -
  obtain ws where "spelled (mf_ident m) ws k" using fs_invD(5)[OF assms] by blast
  then show ?thesis
    using fs_invD(6)[OF assms] join_slash_has[of ws "mf_ident m"]
    by (cases "ws = []") (auto simp: spelled_def)
qed

lemma fs_inv_set_file:
  assumes "fs_inv m" "f_name f = f_name (mf_heap m a)"
    "\<forall>(k, v)\<in>set (f_memDir f). \<exists>b<mf_next m. v = Some b"
  shows "fs_inv (set_file m a f)"
  using assms unfolding fs_inv_def by auto

lemma Remove_keeps_all:
  assumes "fs_inv m"
  shows "Remove s m = Some (None, m)"
proof (cases "fos_get m ''name''")
  case (Some a)
  then show ?thesis using key_has_slash[OF assms Some] by simp
qed (simp add: Remove_def Let_def)

lemma fos_get_delete:
  "fos_get (m\<lparr>mf_fos := AList.delete k (mf_fos m)\<rparr>) j = (if j = k then None else fos_get m j)"
  by (simp add: fos_get_def delete_conv')

lemma set_AList_delete: "set (AList.delete k xs) \<subseteq> set xs"
  by (auto simp: AList.delete_eq)

lemma fs_inv_delete:
  assumes "fs_inv m"
  shows "fs_inv (m\<lparr>mf_fos := AList.delete k (mf_fos m)\<rparr>)"
proof -
  let ?ok = "\<lambda>(k, a). a < mf_next m \<and> f_name (mf_heap m a) = k \<and>
        (\<exists>ws. spelled (mf_ident m) ws k) \<and> k \<noteq> mf_ident m"
  have "Ball (set (mf_fos m)) ?ok" using assms unfolding fs_inv_def by blast
  then have "Ball (set (AList.delete k (mf_fos m))) ?ok"
    using set_AList_delete by (rule rev_subset_ball)
  then show ?thesis using assms unfolding fs_inv_def by simp
qed

lemma fs_inv_drop_child:
  assumes "fs_inv m" "d < mf_next m"
  shows "fs_inv (set_file m d ((mf_heap m d)\<lparr>f_memDir := AList.delete x (AList.delete y (f_memDir (mf_heap m d)))\<rparr>))"
proof -
  let ?ok = "\<lambda>(k, v). \<exists>b<mf_next m. v = Some b"
  have "Ball (set (f_memDir (mf_heap m d))) ?ok" using assms by (simp add: fs_inv_def)
  then have "Ball (set (AList.delete x (AList.delete y (f_memDir (mf_heap m d))))) ?ok"
    by (rule rev_subset_ball) (rule subset_trans[OF set_AList_delete set_AList_delete])
  then show ?thesis by (intro fs_inv_set_file[OF assms(1)]) simp_all
qed

lemma content_drop_child:
  "content (set_file m d ((mf_heap m d)\<lparr>f_memDir := xs\<rparr>)) = content m"
  by (rule ext) (simp add: content_def split: option.split)

lemma unRegister_content:
  assumes "fs_inv m" "0 < fuel" "names (mf_ident m) ws s" "ws \<noteq> []"
  shows "\<exists>e m'. unRegisterWithParent (fs_Open fuel) s m = Some (e, m') \<and> fs_inv m' \<and>
    content m' = content m \<and> mf_ident m' = mf_ident m"
proof -
  have sp: "spelled (mf_ident m) ws (full_name m s)"
    by (rule full_name_spelled(1)[OF assms(3)])
  let ?p = "dirkey (mf_ident m) (butlast ws)"
  obtain m1 where f: "findParent (fs_Open fuel) (full_name m s) m =
      Some (case found m ?p of None \<Rightarrow> Inl ErrFileNotFound | Some a \<Rightarrow> Inr (Some a), m1)" "keeps m m1"
    using findParent_keeps[OF assms(1,2) sp assms(4)] by blast
  show ?thesis
  proof (cases "found m ?p")
    case None
    then show ?thesis
      using f content_keeps[OF assms(1) f(2)] keepsD(1,2)[OF f(2)]
      by (simp add: unRegisterWithParent_def Let_def)
  next
    case (Some d)
    then obtain k where "fos_get m k = Some d" using found_get by blast
    then have "d < mf_next m1"
      using fs_invD(3)[OF keepsD(1)[OF f(2)] keepsD(5)[OF f(2)]] by blast
    then show ?thesis
      using Some f content_keeps[OF assms(1) f(2)] keepsD(2)[OF f(2)]
        fs_inv_drop_child[OF keepsD(1)[OF f(2)], of d] content_drop_child
      by (simp add: unRegisterWithParent_def Let_def)
  qed
qed

lemma content_delete:
  "content (m\<lparr>mf_fos := AList.delete p (mf_fos m)\<rparr>) = (\<lambda>k. if k = p then None else content m k)"
  by (rule ext) (auto simp: content_def fos_get_delete split: option.split)

lemma full_name_again:
  assumes "names (mf_ident m) ws s"
  shows "names (mf_ident m) ws (full_name m s)"
  using full_name_spelled(1)[OF assms] by (rule spelled_names)

lemma removeAll_loop_content:
  assumes "fs_inv m" "0 < fuel" "names (mf_ident m) ws name" "ws \<noteq> []"
  shows "\<exists>m'. removeAll_loop (fs_Open fuel) name ps m = Some m' \<and> fs_inv m' \<and>
    mf_ident m' = mf_ident m \<and>
    content m' = (\<lambda>k. if k \<in> set ps \<and> HasPrefix k name then None else content m k)"
  using assms
proof (induction ps arbitrary: m)
  case (Cons p ps)
  show ?case
  proof (cases "HasPrefix p name")
    case True
    let ?m = "m\<lparr>mf_fos := AList.delete p (mf_fos m)\<rparr>"
    have "names (mf_ident ?m) ws name" using Cons.prems(3) by simp
    from unRegister_content[OF fs_inv_delete[OF Cons.prems(1), of p] Cons.prems(2) this Cons.prems(4)]
    obtain e m1 where u: "unRegisterWithParent (fs_Open fuel) name ?m = Some (e, m1)" "fs_inv m1"
      "content m1 = content ?m" "mf_ident m1 = mf_ident m" by auto
    obtain m' where "removeAll_loop (fs_Open fuel) name ps m1 = Some m'" "fs_inv m'"
      "mf_ident m' = mf_ident m1"
      "content m' = (\<lambda>k. if k \<in> set ps \<and> HasPrefix k name then None else content m1 k)"
      using Cons.IH[OF u(2) Cons.prems(2) _ Cons.prems(4)] Cons.prems(3) u(4) by auto
    then show ?thesis
      using True u by (auto simp: content_delete)
  next
    case False
    obtain m' where "removeAll_loop (fs_Open fuel) name ps m = Some m'" "fs_inv m'"
      "mf_ident m' = mf_ident m"
      "content m' = (\<lambda>k. if k \<in> set ps \<and> HasPrefix k name then None else content m k)"
      using Cons.IH[OF Cons.prems] by auto
    then show ?thesis using False by (auto simp: fun_eq_iff)
  qed
qed simp

lemma content_dom: "content m k \<noteq> None \<Longrightarrow> k \<in> set (map fst (mf_fos m))"
  by (auto simp: content_def fos_get_def split: option.splits dest: map_of_SomeD intro: rev_image_eqI)

lemma RemoveAll_content:
  assumes "fs_inv m" "0 < fuel" "names (mf_ident m) ws s" "ws \<noteq> []"
  shows "\<exists>m'. RemoveAll fuel s m = Some (None, m') \<and> fs_inv m' \<and> mf_ident m' = mf_ident m \<and>
    content m' = (\<lambda>k. if HasPrefix k (full_name m s) then None else content m k)"
proof -
  obtain m' where r: "removeAll_loop (fs_Open fuel) (full_name m s) (map fst (mf_fos m)) m = Some m'"
    "fs_inv m'" "mf_ident m' = mf_ident m"
    "content m' = (\<lambda>k. if k \<in> set (map fst (mf_fos m)) \<and> HasPrefix k (full_name m s) then None else content m k)"
    using removeAll_loop_content[OF assms(1,2) full_name_again[OF assms(3)] assms(4)] by blast
  have "content m' = (\<lambda>k. if HasPrefix k (full_name m s) then None else content m k)"
  proof
    fix k
    show "content m' k = (if HasPrefix k (full_name m s) then None else content m k)"
      using content_dom[of m k] unfolding r(4) by (cases "content m k") auto
  qed
  then show ?thesis using r by (simp add: RemoveAll_def Let_def)
qed

lemma fs_inv_key_root:
  assumes "fs_inv m" "(k, a) \<in> set (mf_fos m)"
  shows "HasPrefix k (RootDir m)"
proof -
  obtain ws where "spelled (mf_ident m) ws k" "k \<noteq> mf_ident m"
    using assms unfolding fs_inv_def by blast
  then show ?thesis
    by (cases "ws = []") (auto simp: spelled_def RootDir_def HasPrefix_iff join_slash_Cons)
qed

lemma RemoveAll_root_panics:
  assumes "fs_inv m" "mf_fos m \<noteq> []" "names (mf_ident m) [] s"
    "\<forall>k\<in>set (map fst (mf_fos m)). HasPrefix k (RootDir m)"
  shows "RemoveAll fuel s m = None"
proof -
  have f: "full_name m s = RootDir m"
    using full_name_spelled[OF assms(3)] by (auto simp: spelled_def RootDir_def)
  have ff: "full_name m' (RootDir m) = RootDir m" if "mf_ident m' = mf_ident m" for m'
    using full_name_again[OF assms(3)] full_name_spelled[of m' "[]" "RootDir m"] f that
    by (auto simp: spelled_def RootDir_def)
  obtain p ps where p: "map fst (mf_fos m) = p # ps" using assms(2) by (cases "mf_fos m") auto
  then have "HasPrefix p (RootDir m)" using assms(4) by simp
  moreover have "unRegisterWithParent (fs_Open fuel) (RootDir m) (m\<lparr>mf_fos := AList.delete p (mf_fos m)\<rparr>) = None"
  proof -
    have "RootDir (m\<lparr>mf_fos := AList.delete p (mf_fos m)\<rparr>) = RootDir m" by (simp add: RootDir_def)
    then show ?thesis by (simp add: unRegisterWithParent_def ff findParent_def)
  qed
  ultimately show ?thesis
    by (simp add: RemoveAll_def f p Let_def)
qed

lemma Rename_content:
  "content (snd (Rename old new m)) =
     (let x = full_name m old; y = full_name m new in
      if fos_get m x = None \<or> fos_get m y \<noteq> None then content m
      else (content m)(y := content m x, x := None))"
proof (cases "fos_get m (full_name m old)")
  case None
  then show ?thesis by (simp add: Rename_def Let_def)
next
  case (Some a)
  then show ?thesis
    by (cases "fos_get m (full_name m new)")
       (auto simp: Rename_def Let_def content_def fos_get_def delete_conv' update_conv' fun_eq_iff split: option.split)
qed

lemma child_infos_total:
  "\<forall>(k, v)\<in>set es. \<exists>b. v = Some b \<Longrightarrow> child_infos es = Some (map (the \<circ> snd) es)"
  by (induction es) auto

lemma Readdir_total:
  assumes "fs_inv m" "a < mf_next m"
  shows "Readdir a (-1) m = Some ((readdirsorter m (map (the \<circ> snd) (f_memDir (mf_heap m a))), None), m)"
proof -
  have "\<forall>(k, v)\<in>set (f_memDir (mf_heap m a)). \<exists>b. v = Some b"
    using assms by (fastforce simp: fs_inv_def)
  from child_infos_total[OF this] show ?thesis by (simp add: Readdir_def Let_def)
qed

subsection \<open>The contract of a store of named contents\<close>

text \<open>A client that writes and reads files by name needs only this: a view of the state as a
  map from keys, a write that updates it at one key, a read that returns what is there.\<close>

locale named_store =
  fixes inv :: "'s \<Rightarrow> bool" and view :: "'s \<Rightarrow> 'k \<Rightarrow> 'd option" and key :: "'n \<Rightarrow> 'k"
    and ok :: "'n \<Rightarrow> bool"
    and put :: "'n \<Rightarrow> 'd \<Rightarrow> 's \<Rightarrow> 's option" and get :: "'n \<Rightarrow> 's \<Rightarrow> ('d \<times> 's) option"
  assumes put_view: "inv s \<Longrightarrow> ok n \<Longrightarrow>
      \<exists>s'. put n d s = Some s' \<and> inv s' \<and> view s' = (view s)(key n \<mapsto> d)"
    and get_view: "inv s \<Longrightarrow> ok n \<Longrightarrow> view s (key n) = Some d \<Longrightarrow>
      \<exists>s'. get n s = Some (d, s') \<and> inv s' \<and> view s' = view s"
begin

primrec put_all :: "('n \<times> 'd) list \<Rightarrow> 's \<Rightarrow> 's option" where
  "put_all [] s = Some s"
| "put_all (x # xs) s = Option.bind (put (fst x) (snd x) s) (put_all xs)"

definition last_puts :: "('n \<times> 'd) list \<Rightarrow> 'k \<Rightarrow> 'd option" where
  "last_puts xs = map_of (rev (map (\<lambda>(n, d). (key n, d)) xs))"

lemma put_all_view:
  assumes "inv s" "\<forall>x\<in>set xs. ok (fst x)"
  shows "\<exists>s'. put_all xs s = Some s' \<and> inv s' \<and> view s' = view s ++ last_puts xs"
  using assms
proof (induction xs arbitrary: s)
  case Nil
  then show ?case by (simp add: last_puts_def)
next
  case (Cons x xs)
  obtain n d where x: "x = (n, d)" by fastforce
  have nok: "ok n" using Cons.prems(2) x by simp
  obtain s1 where s1: "put n d s = Some s1" "inv s1" "view s1 = (view s)(key n \<mapsto> d)"
    using put_view[OF Cons.prems(1) nok] by blast
  obtain s' where "put_all xs s1 = Some s'" "inv s'" "view s' = view s1 ++ last_puts xs"
    using Cons.IH[OF s1(2)] Cons.prems(2) by auto
  moreover have "(view s)(key n \<mapsto> d) ++ last_puts xs = view s ++ last_puts (x # xs)"
    by (simp add: last_puts_def x map_add_def fun_eq_iff split: option.split)
  ultimately show ?case using s1 x by simp
qed

lemma read_back:
  assumes "inv s" "\<forall>x\<in>set xs. ok (fst x)" "ok n" "last_puts xs (key n) = Some d"
  shows "\<exists>s' s''. put_all xs s = Some s' \<and> get n s' = Some (d, s'')"
proof -
  obtain s' where "put_all xs s = Some s'" "inv s'" "view s' = view s ++ last_puts xs"
    using put_all_view[OF assms(1,2)] by blast
  moreover from this have "view s' (key n) = Some d" using assms(4) by simp
  ultimately show ?thesis using get_view assms(3) by blast
qed

end

definition mem_key :: "string \<Rightarrow> string \<Rightarrow> string" where
  "mem_key r s = (let (dir, bname) = UnixPather s (r @ ''/'') in dir @ bname)"

definition mem_ok :: "string \<Rightarrow> nat \<Rightarrow> string \<Rightarrow> bool" where
  "mem_ok r fuel s \<longleftrightarrow> (let ws = below r (comps s) in names r ws s \<and> length ws < fuel)"

definition mem_put :: "nat \<Rightarrow> string \<Rightarrow> string \<Rightarrow> memfs \<Rightarrow> memfs option" where
  "mem_put fuel s d m = (case WriteFile fuel s d m of Some (None, m') \<Rightarrow> Some m' | _ \<Rightarrow> None)"

definition mem_get :: "nat \<Rightarrow> string \<Rightarrow> memfs \<Rightarrow> (string \<times> memfs) option" where
  "mem_get fuel s m = (case ReadFile fuel s m of Some ((d, None), m') \<Rightarrow> Some (d, m') | _ \<Rightarrow> None)"

lemma mem_key_full: "mf_ident m = r \<Longrightarrow> full_name m s = mem_key r s"
  by (simp add: full_name_def SplitX_def RootDir_def mem_key_def)

interpretation mem: named_store "\<lambda>m. fs_inv m \<and> mf_ident m = r" content "mem_key r"
    "mem_ok r fuel" "mem_put fuel" "mem_get fuel" for r fuel
proof (unfold_locales, goal_cases)
  case (1 m s d)
  then obtain m' where "WriteFile fuel s d m = Some (None, m')" "fs_inv m'"
    "mf_ident m' = r" "content m' = (content m)(full_name m s \<mapsto> d)"
    using WriteFile_content[of m "below r (comps s)" s fuel d] by (auto simp: mem_ok_def Let_def)
  then show ?case using mem_key_full[of m r s] 1 by (auto simp: mem_put_def)
next
  case (2 m s d)
  then have f: "0 < fuel" by (auto simp: mem_ok_def Let_def)
  obtain m' where "ReadFile fuel s m = Some ((d, None), m')" "keeps m m'"
    using ReadFile_content[of m fuel s] 2 f mem_key_full[of m r s] by fastforce
  then show ?case
    using 2 content_keeps[of m m'] keepsD(1,2)[of m m'] by (auto simp: mem_get_def)
qed

subsection \<open>Properties\<close>

lemma fs_inv_New: "plain r \<Longrightarrow> fs_inv (New_fs now [Ident r])"
  by (simp add: fs_inv_def New_fs_def SetOption_def)



text \<open>A name that is a file is taken for a directory as well: no directory is made, the second file is a child of the first.\<close>

lemma memfs_file_for_directory:
  "map_option (\<lambda>(e, m). (e, map fst (mf_fos m)))
     (Option.bind (WriteFile 4 ''ab'' ''one'' (New_fs 0 [Ident ''mnt00''])) (\<lambda>(e, m). WriteFile 4 ''ab/cd'' ''two'' m)) =
   Some (None, [''mnt00/ab'', ''mnt00/'', ''mnt00/ab/cd''])"
  by code_simp

text \<open>C15: After any sequence of WriteFile calls on a new file system, whatever names and
  spellings they use, every file reads back as the content written last under its key. The names are those of
  mem_ok: their components do not begin with a dot, the first one begins with the name of the mount point only if it
  is that name (Lemma unixpather_leaves_root), and there are fewer components than fuel.\<close>
theorem memfs_history:
  assumes "plain r" "\<forall>(n, d)\<in>set ws. mem_ok r fuel n" "mem_ok r fuel n"
    and "map_of (rev (map (\<lambda>(n, d). (mem_key r n, d)) ws)) (mem_key r n) = Some d"
  shows "\<exists>m m'. fold (\<lambda>(n, d) m. Option.bind m (mem_put fuel n d)) ws (Some (New_fs now [Ident r])) = Some m \<and>
      mem_get fuel n m = Some (d, m')"
proof -
  let ?m = "New_fs now [Ident r]"
  have fold_none: "fold (\<lambda>(n, d) m. Option.bind m (mem_put fuel n d)) xs None = None" for xs
    by (induction xs) auto
  have run: "fold (\<lambda>(n, d) m. Option.bind m (mem_put fuel n d)) xs (Some s) = mem.put_all fuel xs s" for xs s
  proof (induction xs arbitrary: s)
    case (Cons x xs)
    then show ?case by (cases x; cases "mem_put fuel (fst x) (snd x) s") (auto simp: fold_none)
  qed simp
  have "fs_inv ?m \<and> mf_ident ?m = r"
    using fs_inv_New[OF assms(1)] by (simp add: New_fs_def SetOption_def)
  moreover have "\<forall>x\<in>set ws. mem_ok r fuel (fst x)" using assms(2) by auto
  ultimately show ?thesis
    using mem.read_back[of ?m r ws fuel n d] assms(3,4) by (simp add: run mem.last_puts_def)
qed

lemma memfs_history_witness:
  "\<exists>m m'. fold (\<lambda>(n, d) m. Option.bind m (mem_put 3 n d))
       [(''ab/x1'', ''one''), (''/cd'', ''two''), (''/ab//x1'', ''three'')]
       (Some (New_fs 0 [Ident ''mm''])) = Some m \<and>
     mem_get 3 ''mm/ab/x1'' m = Some (''three'', m')"
proof -
  have p: "plain ''mm''" by code_simp
  have o: "mem_ok ''mm'' 3 ''ab/x1''" "mem_ok ''mm'' 3 ''/cd''" "mem_ok ''mm'' 3 ''/ab//x1''"
    "mem_ok ''mm'' 3 ''mm/ab/x1''" by code_simp+
  have k: "mem_key ''mm'' ''ab/x1'' = ''mm/ab/x1''" "mem_key ''mm'' ''/cd'' = ''mm/cd''"
    "mem_key ''mm'' ''/ab//x1'' = ''mm/ab/x1''" "mem_key ''mm'' ''mm/ab/x1'' = ''mm/ab/x1''"
    by code_simp+
  show ?thesis
    using memfs_history[of "''mm''" "[(''ab/x1'', ''one''), (''/cd'', ''two''), (''/ab//x1'', ''three'')]"
        3 "''mm/ab/x1''" "''three''" 0] p o k by simp
qed

text \<open>Mkdir and MkdirAll end, for any path of plain components and however much of it is
  missing, with fuel two above the number of components: the directory exists afterwards,
  ErrFileExists is returned exactly if it did before, no content changes, and the directory can
  be listed without panic.\<close>
theorem memfs_mkdir:
  assumes "fs_inv m" "names (mf_ident m) ws s" "length ws + 2 \<le> fuel"
  shows "\<exists>m' a. fs_MkdirAll fuel s m =
      Some (if fos_get m (dirkey (mf_ident m) ws) = None then None else Some ErrFileExists, m') \<and>
      fs_inv m' \<and> content m' = content m \<and> fos_get m' (dirkey (mf_ident m) ws) = Some a \<and>
      (\<exists>infos m''. fs_ReadDir fuel (dirkey (mf_ident m) ws) m' = Some ((infos, None), m''))"
proof -
  let ?k = "dirkey (mf_ident m) ws"
  obtain m' a where m': "fs_Mkdir fuel s m =
      Some (if fos_get m ?k = None then None else Some ErrFileExists, m')" "keeps m m'"
      "fos_get m' ?k = Some a"
    using Mkdir_keeps[OF assms] by auto
  have sk: "spelled (mf_ident m') ws ?k"
    using assms(2) keepsD(2)[OF m'(2)] by (auto simp: spelled_def names_def)
  obtain b where b: "found m' ?k = Some b"
    using found_key[OF m'(3) sk] by blast
  obtain m1 where o: "fs_Open fuel ?k m' = Some (Inr b, m1)" "keeps m' m1"
    using Open_keeps[OF keepsD(1)[OF m'(2)], of fuel ?k] assms(3) b by auto
  obtain kb where "fos_get m' kb = Some b" using found_get[OF b] by blast
  then have "b < mf_next m1"
    using fs_invD(3)[OF keepsD(1)[OF o(2)] keepsD(5)[OF o(2)]] by blast
  from Readdir_total[OF keepsD(1)[OF o(2)] this] show ?thesis
    using m' o(1) content_keeps[OF assms(1) m'(2)] keepsD(1)[OF m'(2)]
    by (auto simp: fs_MkdirAll_def fs_ReadDir_def Let_def)
qed

lemma memfs_mkdir_witness:
  "\<exists>m' a infos m''. fs_MkdirAll 4 ''ab/cd/'' (New_fs 0 [Ident ''mm'']) = Some (None, m') \<and>
     fos_get m' ''mm/ab/cd/'' = Some a \<and> fs_ReadDir 4 ''mm/ab/cd/'' m' = Some ((infos, None), m'')"
proof -
  have i: "mf_ident (New_fs 0 [Ident ''mm'']) = ''mm''" "fos_get (New_fs 0 [Ident ''mm'']) k = None" for k
    by (simp_all add: New_fs_def SetOption_def fos_get_def)
  have "plain ''mm''" by code_simp
  then have inv: "fs_inv (New_fs 0 [Ident ''mm''])" by (rule fs_inv_New)
  have "names ''mm'' [''ab'', ''cd''] ''ab/cd/''" by code_simp
  then show ?thesis
    using memfs_mkdir[OF inv, of "[''ab'', ''cd'']" "''ab/cd/''" 4] i by auto
qed

text \<open>Remove returns nil and removes nothing; RemoveAll removes exactly the files whose
  full name begins with the given one as a string, siblings with a longer name included; on the
  root of a file system that is not empty RemoveAll panics.\<close>
theorem memfs_remove:
  assumes "fs_inv m" "0 < fuel" "names (mf_ident m) ws s"
  shows "Remove s m = Some (None, m) \<and>
    (ws \<noteq> [] \<longrightarrow> (\<exists>m'. RemoveAll fuel s m = Some (None, m') \<and> fs_inv m' \<and>
        content m' = (\<lambda>k. if HasPrefix k (full_name m s) then None else content m k))) \<and>
    (ws = [] \<longrightarrow> mf_fos m \<noteq> [] \<longrightarrow> RemoveAll fuel s m = None)"
proof (intro conjI impI)
  show "Remove s m = Some (None, m)" by (rule Remove_keeps_all[OF assms(1)])
  show "ws \<noteq> [] \<Longrightarrow> \<exists>m'. RemoveAll fuel s m = Some (None, m') \<and> fs_inv m' \<and>
        content m' = (\<lambda>k. if HasPrefix k (full_name m s) then None else content m k)"
    using RemoveAll_content[OF assms] by blast
  show "RemoveAll fuel s m = None" if w: "ws = []" and ne: "mf_fos m \<noteq> []"
  proof (rule RemoveAll_root_panics[OF assms(1) ne])
    show "names (mf_ident m) [] s" using assms(3) w by simp
    show "\<forall>k\<in>set (map fst (mf_fos m)). HasPrefix k (RootDir m)"
      using fs_inv_key_root[OF assms(1)] by auto
  qed
qed

lemma memfs_remove_witness:
  "Remove ''ab'' (New_fs 0 [Ident ''mm'']) = Some (None, New_fs 0 [Ident ''mm'']) \<and>
   (\<exists>m'. RemoveAll 1 ''ab'' (New_fs 0 [Ident ''mm'']) = Some (None, m'))"
proof -
  have i: "mf_ident (New_fs 0 [Ident ''mm'']) = ''mm''"
    by (simp_all add: New_fs_def SetOption_def)
  have "plain ''mm''" by code_simp
  then have inv: "fs_inv (New_fs 0 [Ident ''mm''])" by (rule fs_inv_New)
  have "names ''mm'' [''ab''] ''ab''" by code_simp
  then show ?thesis using memfs_remove[OF inv, of 1 "[''ab'']" "''ab''"] i by auto
qed

text \<open>Evaluation of the operations on concrete names: the paths once, then the definitions.\<close>

lemma UnixPather_m:
  "UnixPather ''ab/'' ''m/'' = (''m/'', ''ab/'')" "UnixPather ''m/ab/'' ''m/'' = (''m/'', ''ab/'')"
  "UnixPather ''m/'' ''m/'' = (''m/'', '''')" "UnixPather ''/'' ''m/'' = (''m/'', '''')"
  "UnixPather ''cd/'' ''m/'' = (''m/'', ''cd/'')" "UnixPather ''cd/xy'' ''m/'' = (''m/cd/'', ''xy'')"
  "UnixPather ''m/cd/xy'' ''m/'' = (''m/cd/'', ''xy'')" "UnixPather ''m/cd/'' ''m/'' = (''m/'', ''cd/'')"
  "UnixPather ''ab'' ''m/'' = (''m/'', ''ab'')"
  by code_simp+

lemmas run_simps = UnixPather_m SplitX_def RootDir_def RootName_def full_name_def put_new_def
  set_file_def fos_get_def createHelper_def Mkdir_with_def Create_with_def Open_with_def
  registerWithParent_def registerDirs_def findParent_def lookupUnderlyingFS_def Open_file_def
  New_fs_def SetOption_def fs_Create_def Directorify_def Filify_def HasSuffix_def TrimSuffix_def
  Let_def eval_nat_numeral

text \<open>After a directory was renamed and a file was written in it, listing the root
  panics: the directory object keeps its old name, and registering it again under that name stores
  a nil entry among the root's children.\<close>
theorem memfs_rename_breaks_listing:
  "do { (e1, m1) \<leftarrow> fs_Mkdir (Suc (Suc (Suc 0))) ''ab/'' (New_fs 0 [Ident ''m'']);
        let (e2, m2) = Rename ''ab/'' ''cd/'' m1;
        (e3, m3) \<leftarrow> WriteFile (Suc (Suc (Suc 0))) ''cd/xy'' [] m2;
        Some (e1, e2, e3) } = Some (None, None, None) \<and>
   do { (e1, m1) \<leftarrow> fs_Mkdir (Suc (Suc (Suc 0))) ''ab/'' (New_fs 0 [Ident ''m'']);
        let (e2, m2) = Rename ''ab/'' ''cd/'' m1;
        (e3, m3) \<leftarrow> WriteFile (Suc (Suc (Suc 0))) ''cd/xy'' [] m2;
        fs_ReadDir (Suc (Suc (Suc 0))) ''/'' m3 } = None"
  by (simp add: run_simps Rename_def WriteFile_def Write_def slice_sub_def fs_ReadDir_def Readdir_def)

text \<open>Opening a directory that only the shadowed file system has, by its name without a
  trailing slash, returns the directory's parent.\<close>
lemma memfs_shadow_dir_opens_parent:
  "\<exists>m a. fs_Open (Suc (Suc (Suc (Suc 0)))) ''ab'' (New_fs 0 [Ident ''m'',
       ShadowFS (\<lambda>s. if s = ''ab'' then Inr \<lparr>sh_stat = Inr True, sh_bytes = [], sh_copyerr = None\<rparr>
                     else Inl ErrFileNotFound)]) = Some (Inr a, m) \<and>
     f_name (mf_heap m a) = ''m/''"
proof -
  have "path_Dir ''m/ab'' = ''m''" by code_simp
  then show ?thesis by (simp add: run_simps)
qed

end
