(* ===== verification/Strings.thy ===== *)
theory Strings
  imports Prelude
begin

section \<open>String helpers\<close>

text \<open>
  \<^verbatim>\<open>stringspb/strings.go\<close>: padding and chopping, ellipsis, splitting, reversal, the
  normalisations of white space and file names, and the increment of the last character that
  turns a prefix search into a range search.

  Strings are byte sequences, and the code mixes bytes and code points, so the part of
  \<^verbatim>\<open>unicode/utf8\<close> it uses is modelled: \<open>DecodeRune\<close> (what \<^verbatim>\<open>range\<close> over a string and the
  conversion to runes do), \<open>EncodeRune\<close> (the conversion back), \<open>DecodeLastRune\<close>. A code point is
  a natural number. The two regular expressions of the file match runs of bytes of a class and
  are replaced by \<open>squeeze\<close>; the printing and JSON functions are left out.
\<close>

subsection \<open>The package utf8\<close>

abbreviation byte_at :: "nat \<Rightarrow> char" where
  "byte_at n \<equiv> char_of n"

definition RuneError :: nat where
  "RuneError = 0xFFFD"

definition EncodeRune :: "nat \<Rightarrow> string" where
  "EncodeRune r =
     (if r \<le> 0x7F then [byte_at r]
      else if r \<le> 0x7FF then [byte_at (0xC0 + r div 64), byte_at (0x80 + r mod 64)]
      else if r > 0x10FFFF \<or> (0xD800 \<le> r \<and> r \<le> 0xDFFF) then [byte_at 0xEF, byte_at 0xBF, byte_at 0xBD]
      else if r \<le> 0xFFFF then
        [byte_at (0xE0 + r div 4096), byte_at (0x80 + r div 64 mod 64), byte_at (0x80 + r mod 64)]
      else [byte_at (0xF0 + r div 262144), byte_at (0x80 + r div 4096 mod 64),
            byte_at (0x80 + r div 64 mod 64), byte_at (0x80 + r mod 64)])"

text \<open>The code point at the start and its width; an invalid encoding is \<open>RuneError\<close> of width one.\<close>

definition DecodeRune :: "string \<Rightarrow> nat \<times> nat" where
  "DecodeRune s =
     (case s of
        [] \<Rightarrow> (RuneError, 0)
      | c0 # s1 \<Rightarrow>
     (let b0 = (of_char c0 :: nat) in
      if b0 < 0x80 then (b0, 1)
      else if b0 < 0xC2 \<or> b0 > 0xF4 then (RuneError, 1)
      else case s1 of
        [] \<Rightarrow> (RuneError, 1)
      | c1 # s2 \<Rightarrow>
     (let b1 = (of_char c1 :: nat);
          lo = (if b0 = 0xE0 then 0xA0 else if b0 = 0xF0 then 0x90 else 0x80);
          hi = (if b0 = 0xED then 0x9F else if b0 = 0xF4 then 0x8F else 0xBF) in
      if b1 < lo \<or> hi < b1 then (RuneError, 1)
      else if b0 < 0xE0 then (b0 mod 32 * 64 + b1 mod 64, 2)
      else case s2 of
        [] \<Rightarrow> (RuneError, 1)
      | c2 # s3 \<Rightarrow>
     (let b2 = (of_char c2 :: nat) in
      if b2 < 0x80 \<or> 0xBF < b2 then (RuneError, 1)
      else if b0 < 0xF0 then (b0 mod 16 * 4096 + b1 mod 64 * 64 + b2 mod 64, 3)
      else case s3 of
        [] \<Rightarrow> (RuneError, 1)
      | c3 # _ \<Rightarrow>
     (let b3 = (of_char c3 :: nat) in
      if b3 < 0x80 \<or> 0xBF < b3 then (RuneError, 1)
      else (b0 mod 8 * 262144 + b1 mod 64 * 4096 + b2 mod 64 * 64 + b3 mod 64, 4))))))"

lemma DecodeRune_width: "s \<noteq> [] \<Longrightarrow> 0 < snd (DecodeRune s)"
  by (cases s) (auto simp: DecodeRune_def Let_def split: list.splits)

text \<open>\<^verbatim>\<open>for idx, cp := range s\<close>: the code points with their byte offsets.\<close>

function range_runes :: "nat \<Rightarrow> string \<Rightarrow> (nat \<times> nat) list" where
  "range_runes idx s =
     (if s = [] then []
      else let (r, w) = DecodeRune s in (idx, r) # range_runes (idx + w) (drop w s))"
  by pat_completeness auto
termination
proof (relation "measure (\<lambda>(idx, s). length s)")
  fix idx :: nat and s :: string and x r w
  assume "s \<noteq> []" "x = DecodeRune s" "(r, w) = x"
  then show "((idx + w, drop w s), (idx, s)) \<in> measure (\<lambda>(idx, s). length s)"
    using DecodeRune_width[of s] by (cases "DecodeRune s") auto
qed simp

declare range_runes.simps [simp del]

definition runes :: "string \<Rightarrow> nat list" where
  "runes s = map snd (range_runes 0 s)"

definition string_of_runes :: "nat list \<Rightarrow> string" where
  "string_of_runes rs = concat (map EncodeRune rs)"

definition RuneStart :: "char \<Rightarrow> bool" where
  "RuneStart c \<longleftrightarrow> \<not> (0x80 \<le> (of_char c :: nat) \<and> of_char c < (0xC0 :: nat))"

fun back_start :: "string \<Rightarrow> nat \<Rightarrow> nat \<Rightarrow> nat" where
  "back_start s lim 0 = 0"
| "back_start s lim (Suc n) =
     (if Suc n < lim then Suc n else if RuneStart (s ! Suc n) then Suc n else back_start s lim n)"

definition DecodeLastRune :: "string \<Rightarrow> nat \<times> nat" where
  "DecodeLastRune s =
     (if s = [] then (RuneError, 0)
      else if (of_char (last s) :: nat) < 0x80 then (of_char (last s), 1)
      else let e = length s;
               start = (if e = 1 then 0 else back_start s (e - 4) (e - 2));
               (r, w) = DecodeRune (drop start s)
           in if start + w \<noteq> e then (RuneError, 1) else (r, w))"

subsection \<open>strings.go\<close>

text \<open>\<open>squeeze p t\<close>: \<^verbatim>\<open>ReplaceAllString\<close> of the expression \<^verbatim>\<open>[class]+\<close>, each run by \<open>t\<close>.\<close>

fun squeeze_from :: "(char \<Rightarrow> bool) \<Rightarrow> string \<Rightarrow> bool \<Rightarrow> string \<Rightarrow> string" where
  "squeeze_from p t inrun [] = []"
| "squeeze_from p t inrun (c # s) =
     (if p c then (if inrun then squeeze_from p t True s else t @ squeeze_from p t True s)
      else c # squeeze_from p t False s)"

definition squeeze :: "(char \<Rightarrow> bool) \<Rightarrow> string \<Rightarrow> string \<Rightarrow> string" where
  "squeeze p t s = squeeze_from p t False s"

fun replNewLines :: "string \<Rightarrow> string" where
  "replNewLines [] = []"
| "replNewLines (c # s) =
     (if c = CHR 0x0D then
        (case s of
           d # s' \<Rightarrow> if d = CHR 0x0A then CHR '' '' # replNewLines s' else CHR '' '' # replNewLines s
         | [] \<Rightarrow> '' '')
      else if c = CHR 0x0A then CHR '' '' # replNewLines s
      else c # replNewLines s)"

definition replTabs :: "string \<Rightarrow> string" where
  "replTabs s = map (\<lambda>c. if c = CHR 0x09 then CHR '' '' else c) s"

definition NormalizeInnerWhitespace :: "string \<Rightarrow> string" where
  "NormalizeInnerWhitespace s = squeeze (\<lambda>c. c = CHR '' '') '' '' (replTabs (replNewLines s))"

text \<open>The replacer of the German vowels, on their two-byte encodings.\<close>

fun mutatedVowels :: "string \<Rightarrow> string" where
  "mutatedVowels [] = []"
| "mutatedVowels [c] = [c]"
| "mutatedVowels (c # d # s) =
     (if c = CHR 0xC3 \<and> (d = CHR 0xA4 \<or> d = CHR 0x84) then ''ae'' @ mutatedVowels s
      else if c = CHR 0xC3 \<and> (d = CHR 0xB6 \<or> d = CHR 0x96) then ''oe'' @ mutatedVowels s
      else if c = CHR 0xC3 \<and> (d = CHR 0xBC \<or> d = CHR 0x9C) then ''ue'' @ mutatedVowels s
      else c # mutatedVowels (d # s))"

definition Trim :: "string \<Rightarrow> string \<Rightarrow> string" where
  "Trim cutset s = rev (dropWhile (\<lambda>c. c \<in> set cutset) (rev (dropWhile (\<lambda>c. c \<in> set cutset) s)))"

fun replace2 :: "char \<Rightarrow> char \<Rightarrow> char \<Rightarrow> string \<Rightarrow> string" where
  "replace2 a b r [] = []"
| "replace2 a b r [c] = [c]"
| "replace2 a b r (c # d # s) =
     (if c = a \<and> d = b then r # replace2 a b r s else c # replace2 a b r (d # s))"

definition in_class :: "char \<Rightarrow> bool" where
  "in_class c \<longleftrightarrow> (CHR ''a'' \<le> c \<and> c \<le> CHR ''z'') \<or> (CHR ''A'' \<le> c \<and> c \<le> CHR ''Z'') \<or>
     (CHR ''0'' \<le> c \<and> c \<le> CHR ''9'') \<or> c = CHR ''.'' \<or> c = CHR ''_''"

definition LowerCasedUnderscored :: "string \<Rightarrow> string" where
  "LowerCasedUnderscored s =
     (let s1 = mutatedVowels s;
          s2 = TrimSpace s1;
          s3 = Trim [CHR 0x22, CHR 0x27, CHR '' ''] s2;
          r1 = squeeze (\<lambda>c. \<not> in_class c) ''_'' s3;
          r2 = Trim ''_'' r1;
          r3 = ToLower r2;
          r4 = replace2 (CHR ''_'') (CHR ''.'') (CHR ''.'') r3
      in replace2 (CHR ''.'') (CHR ''_'') (CHR ''.'') r4)"

definition StringNormalize :: "string \<Rightarrow> string" where
  "StringNormalize s = LowerCasedUnderscored s"

text \<open>\<^verbatim>\<open>rev[pos] = cp\<close> with \<^verbatim>\<open>pos := len(rn) - idx - 1\<close> over all indices.\<close>

definition Reverse :: "string \<Rightarrow> string" where
  "Reverse s =
     (let rn = runes s in
      string_of_runes (foldl (\<lambda>rv idx. rv[length rn - idx - 1 := rn ! idx])
        (replicate (length rn) 0) [0..<length rn]))"

fun tolen_loop :: "int \<Rightarrow> (nat \<times> nat) list \<Rightarrow> nat list" where
  "tolen_loop nx [] = []"
| "tolen_loop nx ((idx, cp) # rs) = cp # (if int idx > nx - 2 then [] else tolen_loop nx rs)"

definition ToLen :: "string \<Rightarrow> int \<Rightarrow> string option" where
  "ToLen s nx =
     (if nx < 0 then None
      else let ret = tolen_loop nx (range_runes 0 s)
           in Some (string_of_runes (ret @ replicate (nat nx - length ret) 0x20)))"

definition ToLenR :: "string \<Rightarrow> int \<Rightarrow> string option" where
  "ToLenR s nx = do { t \<leftarrow> ToLen (Reverse s) nx; Some (Reverse t) }"

definition Ellipsoider :: "string \<Rightarrow> int \<Rightarrow> string option" where
  "Ellipsoider s nx =
     (if length s = 0 then Some []
      else if int (length s) \<le> 2 * nx then Some s
      else do {
        front \<leftarrow> ToLen s (nx - 1);
        back \<leftarrow> slice_sub s (int (length s) - nx + 1) (int (length s));
        Some (front @ ''...'' @ back)
      })"

function breaker_loop :: "string \<Rightarrow> int \<Rightarrow> int \<Rightarrow> int \<Rightarrow> string list option" where
  "breaker_loop s nx rows i =
     (if i < rows then do {
        row \<leftarrow> (if i < rows - 1 then slice_sub s (i * nx) ((i + 1) * nx)
                 else slice_sub s (i * nx) (int (length s)));
        rest \<leftarrow> breaker_loop s nx rows (i + 1);
        Some (row # rest)
      } else Some [])"
  by pat_completeness auto
termination
  by (relation "measure (\<lambda>(s, nx, rows, i). nat (rows - i))") auto

declare breaker_loop.simps [simp del]

definition Breaker :: "string \<Rightarrow> int \<Rightarrow> string list option" where
  "Breaker s nx =
     (if length s = 0 then Some []
      else if nx = 0 then None
      else let rows = go_div (int (length s)) nx;
               rows1 = (if go_mod (int (length s)) nx \<noteq> 0 then rows + 1 else rows)
           in if rows1 < 0 then None else breaker_loop s nx rows1 0)"

definition IncrementString :: "string \<Rightarrow> string option" where
  "IncrementString s =
     (if s = [] then None
      else let (lastChar, itsSize) = DecodeLastRune s in
        if lastChar = RuneError then None
        else do {
          sReduced \<leftarrow> slice_sub s 0 (int (length s) - int itsSize);
          Some (sReduced @ EncodeRune (lastChar + 1))
        })"

subsection \<open>Decoding what was encoded\<close>

definition valid_rune :: "nat \<Rightarrow> bool" where
  "valid_rune r \<longleftrightarrow> r \<le> 0x10FFFF \<and> \<not> (0xD800 \<le> r \<and> r \<le> 0xDFFF)"

lemma of_byte [simp]: "n < 256 \<Longrightarrow> (of_char (byte_at n) :: nat) = n"
  by simp

lemma mod_prefix: "k mod m = 0 \<Longrightarrow> q < m \<Longrightarrow> (k + q) mod m = (q::nat)"
  by (metis mod_add_left_eq add_0 mod_less)

lemma mod_facts:
  "(q::nat) < 32 \<Longrightarrow> (192 + q) mod 32 = q" "(q::nat) < 16 \<Longrightarrow> (224 + q) mod 16 = q"
  "(q::nat) < 8 \<Longrightarrow> (240 + q) mod 8 = q" "(q::nat) < 64 \<Longrightarrow> (128 + q) mod 64 = q"
  by (rule mod_prefix; simp)+

lemma split3: "(r::nat) = r div 4096 * 4096 + r div 64 mod 64 * 64 + r mod 64"
proof -
  have "r div 64 = r div 64 div 64 * 64 + r div 64 mod 64" by simp
  moreover have "r div 64 div 64 = r div 4096" by (simp add: div_mult2_eq[symmetric])
  ultimately have "r div 64 * 64 = r div 4096 * 4096 + r div 64 mod 64 * 64" by linarith
  then show ?thesis using div_mult_mod_eq[of r 64] by linarith
qed
lemma split4: "(r::nat) = r div 262144 * 262144 + r div 4096 mod 64 * 4096 + r div 64 mod 64 * 64 + r mod 64"
proof -
  have "r div 4096 = r div 4096 div 64 * 64 + r div 4096 mod 64" by simp
  moreover have "r div 4096 div 64 = r div 262144" by (simp add: div_mult2_eq[symmetric])
  ultimately have "r div 4096 * 4096 = r div 262144 * 262144 + r div 4096 mod 64 * 4096" by linarith
  then show ?thesis using split3[of r] by linarith
qed
lemma DecodeRune_Encode:
  assumes "valid_rune r"
  shows "DecodeRune (EncodeRune r @ s) = (r, length (EncodeRune r))"
proof -
  consider "r \<le> 0x7F" | "0x7F < r" "r \<le> 0x7FF" | "0x7FF < r" "r \<le> 0xFFFF" | "0xFFFF < r"
    by linarith
  then show ?thesis
  proof cases
    case 1
    then show ?thesis by (simp add: EncodeRune_def DecodeRune_def Let_def)
  next
    case 2
    define a b where "a = r div 64" and "b = r mod 64"
    have r: "r = a * 64 + b" "b < 64" "2 \<le> a" "a < 32" using 2 by (auto simp: a_def b_def)
    have e: "EncodeRune r = [byte_at (192 + a), byte_at (128 + b)]"
      using 2 by (simp add: EncodeRune_def a_def b_def)
    show ?thesis unfolding e using r by (simp add: DecodeRune_def Let_def mod_facts)
  next
    case 3
    define a b c where "a = r div 4096" and "b = r div 64 mod 64" and "c = r mod 64"
    have r: "r = a * 4096 + b * 64 + c" "b < 64" "c < 64" "a < 16"
      using 3 split3[of r] by (auto simp: a_def b_def c_def)
    have lo: "a = 0 \<longrightarrow> 32 \<le> b" using 3 r by auto
    have hi: "a = 13 \<longrightarrow> b < 32" using assms r by (auto simp: valid_rune_def)
    have e: "EncodeRune r = [byte_at (224 + a), byte_at (128 + b), byte_at (128 + c)]"
      using 3 assms by (auto simp: EncodeRune_def a_def b_def c_def valid_rune_def)
    show ?thesis unfolding e using r lo hi by (auto simp: DecodeRune_def Let_def mod_facts)
  next
    case 4
    define a b c d where "a = r div 262144" and "b = r div 4096 mod 64" and "c = r div 64 mod 64" and "d = r mod 64"
    have r: "r = a * 262144 + b * 4096 + c * 64 + d" "b < 64" "c < 64" "d < 64"
      using split4[of r] by (auto simp: a_def b_def c_def d_def)
    have m: "r \<le> 0x10FFFF" using assms by (simp add: valid_rune_def)
    have a: "a \<le> 4" "a = 0 \<longrightarrow> 16 \<le> b" "a = 4 \<longrightarrow> b < 16" using 4 m r by auto
    have e: "EncodeRune r = [byte_at (240 + a), byte_at (128 + b), byte_at (128 + c), byte_at (128 + d)]"
      using 4 m by (simp add: EncodeRune_def a_def b_def c_def d_def)
    show ?thesis unfolding e using r a by (auto simp: DecodeRune_def Let_def mod_facts)
  qed
qed

lemma EncodeRune_ne [simp]: "EncodeRune r \<noteq> []" "0 < length (EncodeRune r)"
  by (simp_all add: EncodeRune_def)

lemma string_of_runes_simps [simp]:
  "string_of_runes [] = []" "string_of_runes (r # rs) = EncodeRune r @ string_of_runes rs"
  "string_of_runes (rs @ rs') = string_of_runes rs @ string_of_runes rs'"
  by (simp_all add: string_of_runes_def)

lemma range_runes_encoded:
  "\<forall>r\<in>set rs. valid_rune r \<Longrightarrow> map snd (range_runes idx (string_of_runes rs)) = rs"
proof (induction rs arbitrary: idx)
  case Nil
  then show ?case by (simp add: range_runes.simps)
next
  case (Cons r rs)
  then show ?case
    by (subst range_runes.simps) (simp add: DecodeRune_Encode)
qed

lemma runes_encoded: "\<forall>r\<in>set rs. valid_rune r \<Longrightarrow> runes (string_of_runes rs) = rs"
  unfolding runes_def by (rule range_runes_encoded)

lemma reverse_loop:
  "k \<le> length rn \<Longrightarrow> length acc = length rn \<Longrightarrow>
   foldl (\<lambda>rv idx. rv[length rn - idx - 1 := rn ! idx]) acc [0..<k]
     = take (length rn - k) acc @ rev (take k rn)"
proof (induction k)
  case (Suc k)
  let ?n = "length rn"
  have "(take (?n - k) acc @ rev (take k rn))[?n - k - 1 := rn ! k]
      = take (?n - Suc k) acc @ rn ! k # rev (take k rn)"
  proof -
    have "take (?n - k) acc = take (?n - Suc k) acc @ [acc ! (?n - Suc k)]"
      using Suc.prems by (metis Suc_diff_Suc diff_less le_imp_less_or_eq less_Suc_eq_le lessI take_Suc_conv_app_nth zero_less_diff Suc_le_lessD diff_is_0_eq linorder_not_less zero_less_Suc order_less_le_trans)
    then show ?thesis using Suc.prems by (simp add: list_update_append)
  qed
  then show ?case using Suc by (simp add: take_Suc_conv_app_nth)
qed simp

lemma Reverse_encoded:
  assumes "\<forall>r\<in>set rs. valid_rune r"
  shows "Reverse (string_of_runes rs) = string_of_runes (rev rs)"
  using reverse_loop[of "length rs" rs "replicate (length rs) 0"]
  by (simp add: Reverse_def Let_def runes_encoded[OF assms])

subsection \<open>The last character\<close>

lemma char_less: "c < d \<longleftrightarrow> (of_char c :: nat) < of_char d"
  by (simp add: less_char_def)

lemma list_less_Cons: "a < b \<Longrightarrow> (a # x) @ t < (b :: char) # y"
  by simp

text \<open>The encoding of the next code point is greater, in the first byte that differs.\<close>

lemma EncodeRune_less:
  assumes "valid_rune r" "valid_rune (r + 1)"
  shows "EncodeRune r @ t < EncodeRune (r + 1)"
proof -
  consider "r < 0x7F" | "r = 0x7F" | "0x7F < r" "r < 0x7FF" | "r = 0x7FF" | "0x7FF < r" "r < 0xFFFF"
    | "r = 0xFFFF" | "0xFFFF < r"
    by linarith
  then show ?thesis
  proof cases
    case 3
    define a b a' b' where "a = r div 64" and "b = r mod 64" and "a' = (r + 1) div 64" and "b' = (r + 1) mod 64"
    have e: "EncodeRune r = [byte_at (192 + a), byte_at (128 + b)]"
      "EncodeRune (r + 1) = [byte_at (192 + a'), byte_at (128 + b')]"
      using 3 by (simp_all add: EncodeRune_def a_def b_def a'_def b'_def)
    have "a * 64 + b + 1 = a' * 64 + b'" "b < 64" "b' < 64" "a < 32" "a' < 32"
      using 3 by (simp_all add: a_def b_def a'_def b'_def)
    then have "a < a' \<or> (a = a' \<and> b < b')" "a < 32" "a' < 32" "b < 64" "b' < 64" by linarith+
    then show ?thesis unfolding e by (auto simp: char_less)
  next
    case 5
    define a b c a' b' c' where "a = r div 4096" and "b = r div 64 mod 64" and "c = r mod 64"
      and "a' = (r + 1) div 4096" and "b' = (r + 1) div 64 mod 64" and "c' = (r + 1) mod 64"
    have e: "EncodeRune r = [byte_at (224 + a), byte_at (128 + b), byte_at (128 + c)]"
      "EncodeRune (r + 1) = [byte_at (224 + a'), byte_at (128 + b'), byte_at (128 + c')]"
      using 5 assms by (auto simp: EncodeRune_def valid_rune_def a_def b_def c_def a'_def b'_def c'_def)
    have "a * 4096 + b * 64 + c + 1 = a' * 4096 + b' * 64 + c'"
      using split3[of r] split3[of "r + 1"] unfolding a_def b_def c_def a'_def b'_def c'_def by linarith
    moreover have l: "b < 64" "c < 64" "b' < 64" "c' < 64" "a < 16" "a' < 16"
      using 5 by (simp_all add: a_def b_def c_def a'_def b'_def c'_def)
    ultimately have "a < a' \<or> (a = a' \<and> (b < b' \<or> (b = b' \<and> c < c')))" by linarith
    then show ?thesis unfolding e using l by (auto simp: char_less)
  next
    case 7
    define a b c d a' b' c' d' where "a = r div 262144" and "b = r div 4096 mod 64" and "c = r div 64 mod 64"
      and "d = r mod 64" and "a' = (r + 1) div 262144" and "b' = (r + 1) div 4096 mod 64"
      and "c' = (r + 1) div 64 mod 64" and "d' = (r + 1) mod 64"
    have e: "EncodeRune r = [byte_at (240 + a), byte_at (128 + b), byte_at (128 + c), byte_at (128 + d)]"
      "EncodeRune (r + 1) = [byte_at (240 + a'), byte_at (128 + b'), byte_at (128 + c'), byte_at (128 + d')]"
      using 7 assms by (auto simp: EncodeRune_def valid_rune_def a_def b_def c_def d_def a'_def b'_def c'_def d'_def)
    have "a * 262144 + b * 4096 + c * 64 + d + 1 = a' * 262144 + b' * 4096 + c' * 64 + d'"
      using split4[of r] split4[of "r + 1"]
      unfolding a_def b_def c_def d_def a'_def b'_def c'_def d'_def by linarith
    moreover have l: "b < 64" "c < 64" "d < 64" "b' < 64" "c' < 64" "d' < 64" "a < 8" "a' < 8"
      using 7 assms by (simp_all add: valid_rune_def a_def b_def c_def d_def a'_def b'_def c'_def d'_def)
    ultimately have "a < a' \<or> (a = a' \<and> (b < b' \<or> (b = b' \<and> (c < c' \<or> (c = c' \<and> d < d')))))" by linarith
    then show ?thesis unfolding e using l by (auto simp: char_less)
  qed (simp_all add: EncodeRune_def char_less)
qed

lemma RuneStart_cont: "n < 64 \<Longrightarrow> \<not> RuneStart (byte_at (128 + n))"
  by (simp add: RuneStart_def)

lemma EncodeRune_forms:
  assumes "valid_rune r"
  obtains "r \<le> 0x7F" "EncodeRune r = [byte_at r]"
  | a b where "EncodeRune r = [byte_at (192 + a), byte_at (128 + b)]" "a < 32" "b < 64"
  | a b c where "EncodeRune r = [byte_at (224 + a), byte_at (128 + b), byte_at (128 + c)]"
      "a < 16" "b < 64" "c < 64"
  | a b c d where "EncodeRune r = [byte_at (240 + a), byte_at (128 + b), byte_at (128 + c), byte_at (128 + d)]"
      "a < 8" "b < 64" "c < 64" "d < 64"
proof -
  consider "r \<le> 0x7F" | "0x7F < r" "r \<le> 0x7FF" | "0x7FF < r" "r \<le> 0xFFFF" | "0xFFFF < r"
    by linarith
  then show ?thesis
  proof cases
    case 1
    then show ?thesis by (intro that(1)) (auto simp: EncodeRune_def)
  next
    case 2
    then show ?thesis
      by (intro that(2)[of "r div 64" "r mod 64"]) (auto simp: EncodeRune_def)
  next
    case 3
    then show ?thesis using assms
      by (intro that(3)[of "r div 4096" "r div 64 mod 64" "r mod 64"]) (auto simp: EncodeRune_def valid_rune_def)
  next
    case 4
    then show ?thesis using assms
      by (intro that(4)[of "r div 262144" "r div 4096 mod 64" "r div 64 mod 64" "r mod 64"])
         (auto simp: EncodeRune_def valid_rune_def)
  qed
qed

lemma back_start_last:
  assumes "s = p @ c # cs" "cs \<noteq> []" "RuneStart c" "\<forall>x\<in>set cs. \<not> RuneStart x" "length cs \<le> 3"
  shows "(if length s = 1 then 0 else back_start s (length s - 4) (length s - 2)) = length p"
proof -
  have *: "back_start s (length s - 4) n = length p"
    if "length p \<le> n" "n < length p + length cs" for n
    using that
  proof (induction n)
    case 0
    then show ?case by simp
  next
    case (Suc n)
    show ?case
    proof (cases "Suc n = length p")
      case True
      then have "s ! Suc n = c" using assms(1) by (metis nth_append_length)
      with assms(3) have "back_start s (length s - 4) (Suc n) = Suc n" by simp
      then show ?thesis using True by metis
    next
      case False
      then have "length p < Suc n" using Suc.prems by simp
      then have "s ! Suc n = cs ! (Suc n - length p - 1)" using assms(1) by (simp add: nth_append nth_Cons')
      moreover have "Suc n - length p - 1 < length cs" using Suc.prems \<open>length p < Suc n\<close> by simp
      ultimately have "\<not> RuneStart (s ! Suc n)" using assms(4) nth_mem by metis
      moreover have "\<not> Suc n < length s - 4" using \<open>length p < Suc n\<close> assms(1,5) by simp
      ultimately show ?thesis using Suc False by simp
    qed
  qed
  show ?thesis
    using *[of "length s - 2"] assms(1,2) by (cases cs) auto
qed

lemma DecodeLastRune_Encode:
  assumes "valid_rune r"
  shows "DecodeLastRune (p @ EncodeRune r) = (r, length (EncodeRune r))"
proof -
  have multi: ?thesis
    if e: "EncodeRune r = c # cs" and ne: "cs \<noteq> []" and c: "RuneStart c"
      and cs: "\<forall>x\<in>set cs. \<not> RuneStart x" and l: "length cs \<le> 3" for c cs
  proof -
    let ?s = "p @ EncodeRune r"
    have "\<not> (of_char (last ?s) :: nat) < 0x80"
    proof -
      have "\<not> RuneStart (last cs)" using cs last_in_set[OF ne] by blast
      then show ?thesis using ne unfolding e by (simp add: RuneStart_def)
    qed
    moreover have st: "(if length ?s = 1 then 0 else back_start ?s (length ?s - 4) (length ?s - 2)) = length p"
      by (rule back_start_last[OF _ ne c cs l]) (simp add: e)
    moreover have "DecodeRune (EncodeRune r) = (r, length (EncodeRune r))"
      using DecodeRune_Encode[OF assms, of "[]"] by simp
    ultimately show ?thesis unfolding DecodeLastRune_def Let_def st by simp
  qed
  show ?thesis
  proof (rule EncodeRune_forms[OF assms])
    assume "r \<le> 0x7F" "EncodeRune r = [byte_at r]"
    then show ?thesis by (simp add: DecodeLastRune_def)
  next
    fix a b assume e: "EncodeRune r = [byte_at (192 + a), byte_at (128 + b)]" "a < 32" "b < 64"
    show ?thesis using e(2-) by (intro multi[OF e(1)]) (simp_all add: RuneStart_def)
  next
    fix a b c assume e: "EncodeRune r = [byte_at (224 + a), byte_at (128 + b), byte_at (128 + c)]"
      "a < 16" "b < 64" "c < 64"
    show ?thesis using e(2-) by (intro multi[OF e(1)]) (simp_all add: RuneStart_def)
  next
    fix a b c d
    assume e: "EncodeRune r = [byte_at (240 + a), byte_at (128 + b), byte_at (128 + c), byte_at (128 + d)]"
      "a < 8" "b < 64" "c < 64" "d < 64"
    show ?thesis using e(2-) by (intro multi[OF e(1)]) (simp_all add: RuneStart_def)
  qed
qed

text \<open>IncrementString yields the upper bound of a prefix search: for a string that ends in an
  encoded character whose successor is a character too, it replaces that character by its
  successor, and every string that begins with the original lies below the result and not below
  the original, byte by byte. The empty string panics.\<close>
theorem increment_string_bound:
  assumes "valid_rune r" "valid_rune (r + 1)" "r \<noteq> RuneError"
  shows "IncrementString (p @ EncodeRune r) = Some (p @ EncodeRune (r + 1)) \<and>
    (\<forall>t. p @ EncodeRune r \<le> (p @ EncodeRune r) @ t \<and> (p @ EncodeRune r) @ t < p @ EncodeRune (r + 1)) \<and>
    IncrementString [] = None"
proof -
  have app: "q @ x < q @ y \<longleftrightarrow> x < y" "q @ x \<le> q @ y \<longleftrightarrow> x \<le> y" for q x y :: string
    by (induction q) auto
  have "x \<le> x @ t" for x t :: string by (induction x) auto
  then have "\<forall>t. p @ EncodeRune r \<le> (p @ EncodeRune r) @ t \<and> (p @ EncodeRune r) @ t < p @ EncodeRune (r + 1)"
    using EncodeRune_less[OF assms(1,2)] by (simp only: append_assoc app) simp
  moreover have "IncrementString (p @ EncodeRune r) = Some (p @ EncodeRune (r + 1))"
    using DecodeLastRune_Encode[OF assms(1), of p] assms(3)
    by (simp add: IncrementString_def slice_sub_def)
  ultimately show ?thesis by (simp add: IncrementString_def)
qed

lemma increment_string_bound_witness:
  "IncrementString ''cowgirls'' = Some ''cowgirlt'' \<and> ''cowgirls and boys'' < ''cowgirlt''"
proof -
  have e: "EncodeRune 115 = ''s''" "EncodeRune (115 + 1) = ''t''"
    by (simp_all add: EncodeRune_def char_of_def bit_numeral_rec bit_0)
  have "valid_rune 115" "valid_rune (115 + 1)" "115 \<noteq> RuneError"
    by (simp_all add: valid_rune_def RuneError_def)
  from increment_string_bound[OF this, of "''cowgirl''"]
  have "IncrementString (''cowgirl'' @ ''s'') = Some (''cowgirl'' @ ''t'') \<and>
    (''cowgirl'' @ ''s'') @ '' and boys'' < ''cowgirl'' @ ''t''"
    unfolding e by blast
  then show ?thesis by simp
qed

subsection \<open>Cutting, padding and reversing\<close>

lemma breaker_loop_rows:
  assumes "0 < nx" "0 \<le> i" "i < rows" "(rows - 1) * nx < int (length s)" "int (length s) \<le> rows * nx"
  shows "\<exists>ps. breaker_loop s nx rows i = Some ps \<and> concat ps = drop (nat (i * nx)) s \<and>
    int (length ps) = rows - i \<and> (\<forall>p\<in>set (butlast ps). int (length p) = nx) \<and>
    0 < length (last ps) \<and> int (length (last ps)) \<le> nx"
  using assms
proof (induction "nat (rows - i)" arbitrary: i)
  case (Suc n)
  have b: "0 \<le> i * nx" using Suc.prems by simp
  show ?case
  proof (cases "i < rows - 1")
    case True
    have le: "(i + 1) * nx \<le> (rows - 1) * nx"
      using True Suc.prems by (intro mult_right_mono) auto
    have d: "(i + 1) * nx - i * nx = nx" by (simp add: algebra_simps)
    have sl: "slice_sub s (i * nx) ((i + 1) * nx) = Some (take (nat nx) (drop (nat (i * nx)) s))"
      using b le Suc.prems by (simp add: slice_sub_def d algebra_simps)
    have "\<exists>ps. breaker_loop s nx rows (i + 1) = Some ps \<and> concat ps = drop (nat ((i + 1) * nx)) s \<and>
      int (length ps) = rows - (i + 1) \<and> (\<forall>p\<in>set (butlast ps). int (length p) = nx) \<and>
      0 < length (last ps) \<and> int (length (last ps)) \<le> nx"
      using Suc.hyps Suc.prems True by (intro Suc.hyps(1)) auto
    then obtain ps where ps: "breaker_loop s nx rows (i + 1) = Some ps"
      "concat ps = drop (nat ((i + 1) * nx)) s" "int (length ps) = rows - (i + 1)"
      "\<forall>p\<in>set (butlast ps). int (length p) = nx" "0 < length (last ps)" "int (length (last ps)) \<le> nx"
      by blast
    have ne: "ps \<noteq> []" using ps(3) True by auto
    have n: "nat ((i + 1) * nx) = nat (i * nx) + nat nx"
      using b Suc.prems(1) by (simp add: nat_add_distrib distrib_right)
    have len: "int (length (take (nat nx) (drop (nat (i * nx)) s))) = nx"
    proof -
      have "nat (i * nx) + nat nx \<le> length s" using le Suc.prems(4) b n by (simp add: algebra_simps)
      then show ?thesis using Suc.prems(1) by simp
    qed
    have "concat (take (nat nx) (drop (nat (i * nx)) s) # ps) = drop (nat (i * nx)) s"
      using ps(2) n by (simp add: drop_drop add.commute flip: drop_drop)
    moreover have "breaker_loop s nx rows i = Some (take (nat nx) (drop (nat (i * nx)) s) # ps)"
      using Suc.prems True ps(1) sl by (subst breaker_loop.simps) (simp add: add.commute)
    ultimately show ?thesis using ps ne len by (auto simp: Suc.prems)
  next
    case False
    then have i: "i = rows - 1" using Suc.prems by simp
    have le: "i * nx < int (length s)" using Suc.prems(4) i by simp
    have sl: "slice_sub s (i * nx) (int (length s)) = Some (drop (nat (i * nx)) s)"
      using b le by (simp add: slice_sub_def nat_diff_distrib)
    have "breaker_loop s nx rows i = Some [drop (nat (i * nx)) s]"
      using Suc.prems i sl by (subst breaker_loop.simps) (simp add: breaker_loop.simps)
    moreover have "int (length (drop (nat (i * nx)) s)) \<le> nx"
    proof -
      have "rows = i + 1" using i by simp
      then have "int (length s) - i * nx \<le> nx" using Suc.prems(5) by (simp add: algebra_simps)
      then show ?thesis using b le by (simp add: of_nat_diff)
    qed
    ultimately show ?thesis using b le i by auto
  qed
qed simp

lemma Breaker_rows:
  assumes "0 < nx" "s \<noteq> []"
  shows "\<exists>ps. Breaker s nx = Some ps \<and> concat ps = s \<and>
    (\<forall>p\<in>set (butlast ps). int (length p) = nx) \<and> 0 < length (last ps) \<and> int (length (last ps)) \<le> nx"
proof -
  let ?n = "int (length s)"
  define rows where "rows = (if go_mod ?n nx \<noteq> 0 then go_div ?n nx + 1 else go_div ?n nx)"
  have n: "0 < ?n" using assms(2) by simp
  define q m where "q = ?n div nx" and "m = ?n mod nx"
  have r: "rows = (if m \<noteq> 0 then q + 1 else q)"
    using assms(1) by (simp add: rows_def q_def m_def)
  have dm: "?n = q * nx + m" by (simp add: q_def m_def)
  have m: "0 \<le> m" "m < nx" using assms(1) by (auto simp: m_def)
  have up: "?n \<le> rows * nx" and lo: "(rows - 1) * nx < ?n"
    using m assms(1) unfolding r dm by (auto simp: algebra_simps)
  have "0 < rows"
  proof (rule ccontr)
    assume "\<not> 0 < rows"
    then have "rows * nx \<le> 0" using assms(1) by (simp add: mult_nonpos_nonneg)
    then show False using up n by simp
  qed
  from breaker_loop_rows[OF assms(1) order_refl this lo up] show ?thesis
    using assms \<open>0 < rows\<close> by (auto simp: Breaker_def Let_def rows_def)
qed

definition ascii :: "string \<Rightarrow> bool" where
  "ascii s \<longleftrightarrow> (\<forall>c\<in>set s. (of_char c :: nat) < 128)"

lemma upt_from: "[i..<i + Suc n] = i # [Suc i..<Suc i + n]"
  by (simp add: upt_conv_Cons del: upt_Suc)

lemma range_runes_ascii:
  "ascii s \<Longrightarrow> range_runes idx s = zip [idx..<idx + length s] (map of_char s)"
proof (induction s arbitrary: idx)
  case Nil
  then show ?case by (simp add: range_runes.simps)
next
  case (Cons c s)
  then have "DecodeRune (c # s) = (of_char c, 1)" "ascii s"
    by (auto simp: DecodeRune_def ascii_def)
  then show ?case
    using Cons.IH[of "Suc idx"] upt_from[of idx "length s"]
    by (subst range_runes.simps) (simp del: upt_Suc)
qed

lemma EncodeRune_ascii: "(of_char c :: nat) < 128 \<Longrightarrow> EncodeRune (of_char c) = [c]"
  by (simp add: EncodeRune_def)

lemma string_of_ascii: "ascii s \<Longrightarrow> string_of_runes (map of_char s) = s"
  by (induction s) (auto simp: ascii_def EncodeRune_ascii)

lemma tolen_loop_take:
  "tolen_loop nx (zip [i..<i + length xs] xs) = take (max 1 (nat (nx - int i))) xs"
proof (induction xs arbitrary: i)
  case (Cons x xs)
  have u: "[i..<i + length (x # xs)] = i # [Suc i..<Suc i + length xs]" using upt_from by simp
  show ?case
  proof (cases "int i > nx - 2")
    case True
    then have "max 1 (nat (nx - int i)) = 1" by auto
    then show ?thesis using True unfolding u by simp
  next
    case False
    then have "max 1 (nat (nx - int i)) = Suc (max 1 (nat (nx - int (Suc i))))" by auto
    then show ?thesis using False Cons.IH[of "Suc i"] unfolding u by simp
  qed
qed simp

lemma ToLen_ascii:
  assumes "ascii s" "1 \<le> nx"
  shows "ToLen s nx = Some (take (nat nx) s @ replicate (nat nx - length s) CHR '' '')"
proof -
  have t: "tolen_loop nx (range_runes 0 s) = map of_char (take (nat nx) s)"
    using tolen_loop_take[of nx 0 "map of_char s :: nat list"] assms
    by (simp add: range_runes_ascii take_map)
  have sp: "string_of_runes (replicate k 32) = replicate k CHR '' ''" for k
    using EncodeRune_ascii[of "CHR '' ''"] by (induction k) auto
  have "ascii (take (nat nx) s)" using assms(1) by (auto simp: ascii_def dest: in_set_takeD)
  then show ?thesis
    using assms(2) by (simp add: ToLen_def Let_def t string_of_ascii sp min_def)
qed

text \<open>Breaker cuts a string into pieces of nx bytes, the last one shorter but not empty, whose
  concatenation is the string, and panics on nx = 0; ToLen turns an ASCII string into exactly nx
  characters, chopped or padded with spaces, for positive nx, and panics on negative nx; Reverse
  reverses the characters of every validly encoded string, so that reversing twice gives it back.\<close>
theorem strings_cut_pad_reverse:
  shows "(0 < nx \<longrightarrow> s \<noteq> [] \<longrightarrow>
      (\<exists>ps. Breaker s nx = Some ps \<and> concat ps = s \<and>
        (\<forall>p\<in>set (butlast ps). int (length p) = nx) \<and> 0 < length (last ps) \<and> int (length (last ps)) \<le> nx)) \<and>
    (s \<noteq> [] \<longrightarrow> Breaker s 0 = None) \<and>
    (ascii s \<longrightarrow> 0 < nx \<longrightarrow> ToLen s nx = Some (take (nat nx) s @ replicate (nat nx - length s) CHR '' '')) \<and>
    (nx < 0 \<longrightarrow> ToLen s nx = None) \<and>
    ((\<forall>r\<in>set rs. valid_rune r) \<longrightarrow>
      Reverse (string_of_runes rs) = string_of_runes (rev rs) \<and>
      Reverse (Reverse (string_of_runes rs)) = string_of_runes rs)"
  using Breaker_rows[of nx s] ToLen_ascii[of s nx] Reverse_encoded[of rs] Reverse_encoded[of "rev rs"]
  by (auto simp: Breaker_def ToLen_def)

lemma strings_cut_pad_reverse_witness:
  "(\<exists>ps. Breaker ''abcdefgh'' 3 = Some ps \<and> concat ps = ''abcdefgh'' \<and> (\<forall>p\<in>set (butlast ps). length p = 3)) \<and>
   ToLen ''abcdefgh'' 3 = Some ''abc'' \<and>
   Reverse (string_of_runes [0x20AC, 0x61]) = string_of_runes [0x61, 0x20AC]"
proof -
  have "ascii ''abcdefgh''" by (simp add: ascii_def)
  moreover have "\<forall>r\<in>set [0x20AC, 0x61]. valid_rune r" by (simp add: valid_rune_def)
  ultimately show ?thesis
    using strings_cut_pad_reverse[of 3 "''abcdefgh''" "[0x20AC, 0x61]"]
    by (auto simp: eval_nat_numeral)
qed

text \<open>The break test of ToLen compares a byte offset with a number of characters, so it stops
  early on other than ASCII strings; and a length of zero keeps one character.\<close>

lemma ToLen_zero: "ascii s \<Longrightarrow> s \<noteq> [] \<Longrightarrow> ToLen s 0 = Some [hd s]"
  using tolen_loop_take[of 0 0 "map of_char s :: nat list"]
  by (cases s) (auto simp: ToLen_def Let_def range_runes_ascii ascii_def EncodeRune_ascii)

lemma ToLen_umlauts:
  "ToLen (string_of_runes [0xE4, 0xF6, 0xFC]) 3 = Some (string_of_runes [0xE4, 0xF6, 0x20])"
proof -
  have v: "valid_rune 0xE4" "valid_rune 0xF6" "valid_rune 0xFC" by (simp_all add: valid_rune_def)
  have l: "length (EncodeRune 0xE4) = 2" "length (EncodeRune 0xF6) = 2" "length (EncodeRune 0xFC) = 2"
    by (simp_all add: EncodeRune_def)
  have "range_runes 0 (string_of_runes [0xE4, 0xF6, 0xFC]) = [(0, 0xE4), (2, 0xF6), (4, 0xFC)]"
    using v l by (simp add: range_runes.simps DecodeRune_Encode
        DecodeRune_Encode[of _ "[]", simplified])
  then show ?thesis by (simp add: ToLen_def Let_def del: string_of_runes_simps)
qed

subsection \<open>Normal forms\<close>

lemma squeeze_set: "set (squeeze_from p t b s) \<subseteq> set t \<union> {c \<in> set s. \<not> p c}"
  by (induction s arbitrary: b) auto

lemma squeeze_run: "squeeze_from p t True s = [] \<or> \<not> p (hd (squeeze_from p t True s))"
  by (induction s) auto

lemma squeeze_spaces:
  "successively (\<lambda>a b. \<not> (a = c \<and> b = c)) (squeeze_from (\<lambda>x. x = c) [c] b s)"
proof (induction s arbitrary: b)
  case (Cons x s)
  then show ?case
    using squeeze_run[of "\<lambda>x. x = c" "[c]" s] by (auto simp: successively_Cons)
qed simp

lemma squeeze_spaces_id:
  "successively (\<lambda>a b. \<not> (a = c \<and> b = c)) s \<Longrightarrow> (b \<longrightarrow> s = [] \<or> hd s \<noteq> c) \<Longrightarrow>
   squeeze_from (\<lambda>x. x = c) [c] b s = s"
proof (induction s arbitrary: b)
  case (Cons x s)
  then show ?case by (auto simp: successively_Cons)
qed simp

lemma replNewLines_set: "set (replNewLines s) \<subseteq> insert (CHR '' '') (set s - {CHR 0x0D, CHR 0x0A})"
proof (induction s rule: replNewLines.induct)
  case (2 c s)
  show ?case
  proof (cases "c = CHR 0x0D")
    case True
    then show ?thesis using 2(1-2)[OF True] by (cases s) auto
  next
    case False
    then show ?thesis using 2(3-4)[OF False] by (cases "c = CHR 0x0A") auto
  qed
qed simp

lemma replNewLines_id: "CHR 0x0D \<notin> set s \<Longrightarrow> CHR 0x0A \<notin> set s \<Longrightarrow> replNewLines s = s"
  by (induction s rule: replNewLines.induct) auto

lemma replTabs_id: "CHR 0x09 \<notin> set s \<Longrightarrow> replTabs s = s"
  by (induction s) (auto simp: replTabs_def)

lemma NormalizeInnerWhitespace_set:
  "set (NormalizeInnerWhitespace s) \<inter> {CHR 0x0D, CHR 0x0A, CHR 0x09} = {}"
proof -
  have "set (NormalizeInnerWhitespace s) \<subseteq> insert (CHR '' '') (set (replTabs (replNewLines s)))"
    using squeeze_set[of "\<lambda>c. c = CHR '' ''" "'' ''" False "replTabs (replNewLines s)"]
    unfolding NormalizeInnerWhitespace_def squeeze_def by auto
  moreover have "set (replTabs t) \<inter> {CHR 0x0D, CHR 0x0A, CHR 0x09} = {}"
    if "set t \<inter> {CHR 0x0D, CHR 0x0A} = {}" for t
    using that by (auto simp: replTabs_def)
  moreover have "set (replNewLines s) \<inter> {CHR 0x0D, CHR 0x0A} = {}"
    using replNewLines_set[of s] by auto
  ultimately show ?thesis by fastforce
qed

lemma squeeze_class:
  "\<forall>c\<in>set t. p c = False \<Longrightarrow> \<forall>c\<in>set (squeeze_from p t b s). \<not> p c"
  by (induction s arbitrary: b) auto

lemma Trim_ends:
  "Trim [x] s = [] \<or> (hd (Trim [x] s) \<noteq> x \<and> last (Trim [x] s) \<noteq> x)" "set (Trim [x] s) \<subseteq> set s"
proof -
  let ?d = "dropWhile (\<lambda>c. c \<in> set [x]) s"
  show "set (Trim [x] s) \<subseteq> set s"
    using set_dropWhileD[of _ _ s] set_dropWhileD[of _ _ "rev ?d"] by (auto simp: Trim_def)
  show "Trim [x] s = [] \<or> (hd (Trim [x] s) \<noteq> x \<and> last (Trim [x] s) \<noteq> x)"
  proof (cases "Trim [x] s = []")
    case False
    have t: "Trim [x] s = rev (dropWhile (\<lambda>c. c \<in> set [x]) (rev ?d))" by (simp add: Trim_def)
    then have ne: "dropWhile (\<lambda>c. c \<in> set [x]) (rev ?d) \<noteq> []" using False by auto
    have l: "last (Trim [x] s) \<noteq> x"
      using hd_dropWhile[OF ne] unfolding t by (simp add: last_rev)
    obtain u where "?d = Trim [x] s @ u"
      using t by (metis rev_append rev_rev_ident takeWhile_dropWhile_id)
    then have "hd ?d = hd (Trim [x] s)" "?d \<noteq> []" using False by auto
    then show ?thesis using l hd_dropWhile[of "\<lambda>c. c \<in> set [x]" s] by auto
  qed simp
qed

lemma replace2_ends:
  "replace2 a b r s = [] \<longleftrightarrow> s = []"
  "s \<noteq> [] \<Longrightarrow> hd (replace2 a b r s) \<in> {r, hd s}"
  "s \<noteq> [] \<Longrightarrow> last (replace2 a b r s) \<in> {r, last s}"
  "set (replace2 a b r s) \<subseteq> insert r (set s)"
  by (induction a b r s rule: replace2.induct) auto

definition underscored_class :: "char \<Rightarrow> bool" where
  "underscored_class c \<longleftrightarrow> (CHR ''a'' \<le> c \<and> c \<le> CHR ''z'') \<or> (CHR ''0'' \<le> c \<and> c \<le> CHR ''9'') \<or>
     c = CHR ''.'' \<or> c = CHR ''_''"

lemma lower_in_class: "in_class c \<Longrightarrow> underscored_class (lower_char c) \<and> (lower_char c = CHR ''_'' \<longrightarrow> c = CHR ''_'')"
proof -
  assume i: "in_class c"
  show ?thesis
  proof (cases "CHR ''A'' \<le> c \<and> c \<le> CHR ''Z''")
    case True
    then have n: "65 \<le> (of_char c :: nat)" "(of_char c :: nat) \<le> 90" by (simp_all add: less_eq_char_def)
    then have o: "(of_char (char_of (of_char c + 32 :: nat) :: char) :: nat) = of_char c + 32" by simp
    have l: "lower_char c = char_of (of_char c + 32 :: nat)" using True by (simp add: lower_char_def)
    have "lower_char c \<noteq> CHR ''_''"
    proof
      assume "lower_char c = CHR ''_''"
      then have "(of_char (lower_char c) :: nat) = 95" by simp
      then show False using o n unfolding l by simp
    qed
    moreover have "underscored_class (lower_char c)"
      unfolding l underscored_class_def less_eq_char_def o using n by simp
    ultimately show ?thesis by simp
  next
    case False
    then show ?thesis using i by (auto simp: lower_char_def underscored_class_def in_class_def)
  qed
qed

lemma LowerCasedUnderscored_class:
  "(\<forall>c\<in>set (LowerCasedUnderscored s). underscored_class c) \<and>
   (LowerCasedUnderscored s \<noteq> [] \<longrightarrow>
      hd (LowerCasedUnderscored s) \<noteq> CHR ''_'' \<and> last (LowerCasedUnderscored s) \<noteq> CHR ''_'')"
proof -
  define r1 where "r1 = squeeze (\<lambda>c. \<not> in_class c) ''_'' (Trim [CHR 0x22, CHR 0x27, CHR '' ''] (TrimSpace (mutatedVowels s)))"
  define r2 where "r2 = Trim ''_'' r1"
  define r3 where "r3 = ToLower r2"
  define r4 where "r4 = replace2 (CHR ''_'') (CHR ''.'') (CHR ''.'') r3"
  have l: "LowerCasedUnderscored s = replace2 (CHR ''.'') (CHR ''_'') (CHR ''.'') r4"
    by (simp add: LowerCasedUnderscored_def r1_def r2_def r3_def r4_def Let_def)
  have "in_class (CHR ''_'')" by (simp add: in_class_def)
  then have c1: "\<forall>c\<in>set r1. in_class c"
    using squeeze_set[of "\<lambda>c. \<not> in_class c" "''_''"] unfolding r1_def squeeze_def by fastforce
  then have c2: "\<forall>c\<in>set r2. in_class c"
    using Trim_ends(2)[of "CHR ''_''" r1] unfolding r2_def by blast
  have c3: "\<forall>c\<in>set r3. underscored_class c"
    using c2 lower_in_class unfolding r3_def ToLower_def by auto
  have e2: "r2 = [] \<or> (hd r2 \<noteq> CHR ''_'' \<and> last r2 \<noteq> CHR ''_'')"
    unfolding r2_def by (rule Trim_ends(1))
  have e3: "r3 = [] \<or> (hd r3 \<noteq> CHR ''_'' \<and> last r3 \<noteq> CHR ''_'')"
  proof (cases "r2 = []")
    case False
    then have "hd r3 = lower_char (hd r2)" "last r3 = lower_char (last r2)"
      by (simp_all add: r3_def ToLower_def hd_map last_map)
    moreover have "in_class (hd r2)" "in_class (last r2)" using c2 False by simp_all
    ultimately show ?thesis using e2 False lower_in_class by metis
  qed (simp add: r3_def ToLower_def)
  have dot: "underscored_class (CHR ''.'')" by (simp add: underscored_class_def)
  have c4: "\<forall>c\<in>set r4. underscored_class c" using c3 dot replace2_ends(4)[where s = r3] unfolding r4_def by blast
  have e4: "r4 = [] \<or> (hd r4 \<noteq> CHR ''_'' \<and> last r4 \<noteq> CHR ''_'')"
    using e3 replace2_ends(1-3)[where a = "CHR ''_''" and b = "CHR ''.''" and r = "CHR ''.''" and s = r3] unfolding r4_def by auto
  show ?thesis
    unfolding l
    using c4 e4 dot replace2_ends[where a = "CHR ''.''" and b = "CHR ''_''" and r = "CHR ''.''" and s = r4] by auto
qed

lemma NormalizeInnerWhitespace_spaces:
  "successively (\<lambda>a b. \<not> (a = CHR '' '' \<and> b = CHR '' '')) (NormalizeInnerWhitespace s)"
  unfolding NormalizeInnerWhitespace_def squeeze_def by (rule squeeze_spaces)

lemma NormalizeInnerWhitespace_again:
  "NormalizeInnerWhitespace (NormalizeInnerWhitespace s) = NormalizeInnerWhitespace s"
proof -
  let ?n = "NormalizeInnerWhitespace s"
  have "replNewLines ?n = ?n" "replTabs ?n = ?n"
    using NormalizeInnerWhitespace_set[of s] by (auto intro!: replNewLines_id replTabs_id)
  moreover have "squeeze (\<lambda>c. c = CHR '' '') '' '' ?n = ?n"
    unfolding squeeze_def
    by (rule squeeze_spaces_id[OF NormalizeInnerWhitespace_spaces]) simp
  ultimately show ?thesis by (simp add: NormalizeInnerWhitespace_def[of "NormalizeInnerWhitespace s"])
qed

text \<open>NormalizeInnerWhitespace leaves no line break, no tab and no two spaces in a row and
  changes nothing when applied again; LowerCasedUnderscored yields only lower case letters,
  digits, dots and underscores, and neither begins nor ends with an underscore.\<close>
theorem strings_normal_forms:
  "set (NormalizeInnerWhitespace s) \<inter> {CHR 0x0D, CHR 0x0A, CHR 0x09} = {} \<and>
   successively (\<lambda>a b. \<not> (a = CHR '' '' \<and> b = CHR '' '')) (NormalizeInnerWhitespace s) \<and>
   NormalizeInnerWhitespace (NormalizeInnerWhitespace s) = NormalizeInnerWhitespace s \<and>
   set (LowerCasedUnderscored s) \<subseteq> Collect underscored_class \<and>
   LowerCasedUnderscored s \<notin> Collect (\<lambda>r. r \<noteq> [] \<and> (hd r = CHR ''_'' \<or> last r = CHR ''_''))"
  using NormalizeInnerWhitespace_set[of s] NormalizeInnerWhitespace_again[of s]
    LowerCasedUnderscored_class[of s] NormalizeInnerWhitespace_spaces[of s]
  by blast

end
