(* ===== verification/DsFs.thy ===== *)
theory DsFs
  imports FsPath MemFile MemFs Strings
begin

section \<open>The file system on the datastore\<close>

text \<open>
  \<^verbatim>\<open>os/fsi/dsfs\<close> keeps directories and files as entities of the datastore and copies of directories in memcache.
  The key of a directory is its path; the key of a file is its name below the key of its directory. An entity has the
  exported fields that are not tagged with a dash: the records \<open>dirprops\<close> and \<open>fileprops\<close>; a \<^verbatim>\<open>DsDir\<close> or
  \<^verbatim>\<open>DsFile\<close> extends them by the fields that live in memory only.

  Datastore, memcache and the clock are services outside the repository: the record \<open>services\<close> of their operations,
  on a state of any type, is an argument of every definition that calls them. Any call may fail. What their documentation
  promises is stated in the theory \<^verbatim>\<open>DsStore\<close>.

  A result \<open>None\<close> is a panic, the end of the process by \<^verbatim>\<open>log.Fatalf\<close> or a recursion that does not end.
  Log lines are left out. Rounding of times by the datastore is left out as well: a time is an integer, 0 the zero time.
\<close>

subsection \<open>20_types.go\<close>

record dirprops =
  d_Dir :: string
  d_BName :: string
  d_MModTime :: int

record dsdir = dirprops +
  d_Key :: string
  d_isDir :: bool
  d_MMode :: int
  d_fetchPos :: int

record fileprops =
  p_Dir :: string
  p_BName :: string
  p_MModTime :: int
  p_Data :: string

record dsfile = fileprops +
  p_Key :: "string \<times> string"
  p_isDir :: bool
  p_MMode :: int
  p_at :: int
  p_closed :: bool
  p_locked :: bool
  p_fetchPos :: int

definition zero_dir :: dsdir where
  "zero_dir = \<lparr>d_Dir = [], d_BName = [], d_MModTime = 0, d_Key = [], d_isDir = False, d_MMode = 0, d_fetchPos = 0\<rparr>"

definition zero_file :: dsfile where
  "zero_file = \<lparr>p_Dir = [], p_BName = [], p_MModTime = 0, p_Data = [], p_Key = ([], []), p_isDir = False,
     p_MMode = 0, p_at = 0, p_closed = False, p_locked = False, p_fetchPos = 0\<rparr>"

text \<open>The file system without its context; the two sorters are always set together.\<close>

record dsfs =
  s_ctx :: bool
  s_mount :: string
  s_sorter :: dirsort

subsection \<open>The services\<close>

datatype dserr = ErrNoSuchEntity | ErrCacheMiss | ErrRootDirNoFile | ErrEmptyQuery | NotImplemented
  | ErrFile fserr | ErrWrapped string dserr | Fault string

datatype query = DirEquals string | DirFrom string string

type_synonym ('s, 'a) call = "'s \<Rightarrow> 'a \<times> 's"

record 's services =
  GetDir :: "string \<Rightarrow> ('s, dserr + dirprops) call"
  PutDir :: "string \<Rightarrow> dirprops \<Rightarrow> ('s, dserr option) call"
  DeleteDir :: "string \<Rightarrow> ('s, dserr option) call"
  QueryDirs :: "query \<Rightarrow> ('s, (string \<times> dirprops) list \<times> dserr option) call"
  GetFile :: "string \<times> string \<Rightarrow> ('s, dserr + fileprops) call"
  PutFile :: "string \<times> string \<Rightarrow> fileprops \<Rightarrow> ('s, dserr option) call"
  DeleteFile :: "string \<times> string \<Rightarrow> ('s, dserr option) call"
  QueryFiles :: "string \<Rightarrow> ('s, ((string \<times> string) \<times> fileprops) list \<times> dserr option) call"
  FileKeys :: "('s, (string \<times> string) list \<times> dserr option) call"
  DeleteFiles :: "(string \<times> string) list \<Rightarrow> ('s, dserr option) call"
  DirKeys :: "('s, string list \<times> dserr option) call"
  DeleteDirs :: "string list \<Rightarrow> ('s, dserr option) call"
  CacheGet :: "string \<Rightarrow> ('s, dserr + dirprops) call"
  CacheSet :: "string \<Rightarrow> dirprops \<Rightarrow> ('s, dserr option) call"
  CacheDelete :: "string \<Rightarrow> ('s, dserr option) call"
  CacheFlush :: "('s, dserr option) call"
  Now :: "('s, int) call"

subsection \<open>21_fs_new.go, pathing.go\<close>

definition ds_RootDir :: "dsfs \<Rightarrow> string" where
  "ds_RootDir fs = s_mount fs @ ''/''"

definition ds_RootName :: "dsfs \<Rightarrow> string" where
  "ds_RootName fs = s_mount fs"

definition ds_SplitX :: "dsfs \<Rightarrow> string \<Rightarrow> string \<times> string" where
  "ds_SplitX fs name = UnixPather name (ds_RootDir fs)"

subsection \<open>mcache.go\<close>

text \<open>What is unmarshalled or loaded replaces the stored fields and leaves the others.\<close>

definition load_dir :: "dirprops \<Rightarrow> dsdir \<Rightarrow> dsdir" where
  "load_dir p d = dirprops.extend p (dirprops.more d)"

definition load_file :: "fileprops \<Rightarrow> dsfile \<Rightarrow> dsfile" where
  "load_file p f = fileprops.extend p (fileprops.more f)"

definition MemCacheSet :: "'s services \<Rightarrow> dsdir \<Rightarrow> 's \<Rightarrow> 's" where
  "MemCacheSet svc d s = snd (CacheSet svc (d_Dir d @ d_BName d) (dirprops.truncate d) s)"

definition MemCacheDelete :: "'s services \<Rightarrow> dsdir \<Rightarrow> 's \<Rightarrow> 's" where
  "MemCacheDelete svc d s = snd (CacheDelete svc (d_Dir d @ d_BName d) s)"

text \<open>Every error but a miss is logged and swallowed.\<close>

definition MemCacheGet :: "'s services \<Rightarrow> dsdir \<Rightarrow> string \<Rightarrow> 's \<Rightarrow> (dserr option \<times> dsdir) \<times> 's" where
  "MemCacheGet svc d name s =
     (case CacheGet svc name s of
        (Inr p, s1) \<Rightarrow> ((None, load_dir p d), s1)
      | (Inl e, s1) \<Rightarrow> ((if e = ErrCacheMiss then Some e else None, d), s1))"

subsection \<open>low_level_dirs.go\<close>

definition dirByPath :: "'s services \<Rightarrow> dsfs \<Rightarrow> string \<Rightarrow> 's \<Rightarrow> (dsdir \<times> dserr option) \<times> 's" where
  "dirByPath svc fs name s =
     (let (dir, bname) = ds_SplitX fs name;
          preciseK = dir @ Filify bname;
          fo = zero_dir\<lparr>d_Key := preciseK\<rparr> in
      case MemCacheGet svc fo preciseK s of
        ((None, fo1), s1) \<Rightarrow> ((fo1\<lparr>d_Key := preciseK\<rparr>, None), s1)
      | ((Some miss, fo1), s1) \<Rightarrow>
          (case GetDir svc preciseK s1 of
             (Inl e, s2) \<Rightarrow>
               if e = ErrNoSuchEntity then ((fo1, Some e), s2)
               else ((fo1, Some e), MemCacheSet svc fo1 s2)
           | (Inr p, s2) \<Rightarrow>
               let fo2 = load_dir p fo1 in ((fo2, None), MemCacheSet svc fo2 s2)))"

text \<open>\<^verbatim>\<open>saveDirByPathExt\<close> up to the recursion: the directory as it is saved.\<close>

definition dir_to_save :: "'s services \<Rightarrow> dsfs \<Rightarrow> dsdir \<Rightarrow> string \<Rightarrow> 's \<Rightarrow> dsdir \<times> 's" where
  "dir_to_save svc fs dirObj name s =
     (let mode = (if d_MMode dirObj = 0 then 493 else d_MMode dirObj);
          (mtime, s1) = (if d_MModTime dirObj = 0 then Now svc s else (d_MModTime dirObj, s));
          (dir, bname) = ds_SplitX fs name
      in (\<lparr>d_Dir = dir, d_BName = Filify bname, d_MModTime = mtime, d_Key = dir @ Filify bname,
           d_isDir = True, d_MMode = mode, d_fetchPos = 0\<rparr>, s1))"

partial_function (option) saveDirByPathExt ::
    "'s services \<Rightarrow> dsfs \<Rightarrow> dsdir \<Rightarrow> string \<Rightarrow> 's \<Rightarrow> ((dsdir \<times> dserr option) \<times> 's) option" where
  "saveDirByPathExt svc fs dirObj name s =
     (case dir_to_save svc fs dirObj name s of (fo, s1) \<Rightarrow>
      case PutDir svc (d_Key fo) (dirprops.truncate fo) s1 of
        (Some e, s2) \<Rightarrow> Some ((fo, Some e), s2)
      | (None, s2) \<Rightarrow>
          (case dirByPath svc fs (d_Dir fo) (MemCacheSet svc fo s2) of
             ((parent, err), s4) \<Rightarrow>
               if err = Some ErrNoSuchEntity then do {
                 ((above, err2), s5) \<leftarrow> saveDirByPathExt svc fs zero_dir (d_Dir fo) s4;
                 Some ((fo, err2), s5)
               } else Some ((fo, None), s4)))"

definition saveDirByPath :: "'s services \<Rightarrow> dsfs \<Rightarrow> string \<Rightarrow> 's \<Rightarrow> ((dsdir \<times> dserr option) \<times> 's) option" where
  "saveDirByPath svc fs name s = saveDirByPathExt svc fs zero_dir name s"

subsection \<open>Infos and their order: 41_file_impl_fileinfo.go, 41_file_impl_fileinfo_sort.go\<close>

datatype dsinfo = InfoDir dsdir | InfoFile dsfile

fun info_Name :: "dsinfo \<Rightarrow> string" where
  "info_Name (InfoDir d) = d_BName d"
| "info_Name (InfoFile f) = p_BName f"

fun info_Size :: "dsinfo \<Rightarrow> int" where
  "info_Size (InfoDir d) = int (length (d_BName d))"
| "info_Size (InfoFile f) = int (length (p_Data f))"

text \<open>\<^verbatim>\<open>os.ModePerm\<close> is 0777.\<close>

fun info_Mode :: "dsinfo \<Rightarrow> int" where
  "info_Mode (InfoDir d) = 511"
| "info_Mode (InfoFile f) = p_MMode f"

fun info_ModTime :: "dsinfo \<Rightarrow> int" where
  "info_ModTime (InfoDir d) = d_MModTime d"
| "info_ModTime (InfoFile f) = p_MModTime f"

fun info_IsDir :: "dsinfo \<Rightarrow> bool" where
  "info_IsDir (InfoDir d) = True"
| "info_IsDir (InfoFile f) = False"

text \<open>\<^verbatim>\<open>sort.Sort\<close> by one of the three orders; entries that compare equal stay in their order.\<close>

definition dirsorter :: "dsfs \<Rightarrow> dsinfo list \<Rightarrow> dsinfo list" where
  "dirsorter fs fis =
     (case s_sorter fs of
        ByName \<Rightarrow> sort_key info_Name fis
      | ByDateAsc \<Rightarrow> sort_key info_ModTime fis
      | ByDateDesc \<Rightarrow> sort_key (\<lambda>i. - info_ModTime i) fis)"

definition filesorter :: "dsfs \<Rightarrow> dsfile list \<Rightarrow> dsfile list" where
  "filesorter fs fis =
     (case s_sorter fs of
        ByName \<Rightarrow> sort_key p_BName fis
      | ByDateAsc \<Rightarrow> sort_key p_MModTime fis
      | ByDateDesc \<Rightarrow> sort_key (\<lambda>f. - p_MModTime f) fis)"

subsection \<open>low_level_dirs_query.go, dirsByPath\<close>

definition last_index :: "string \<Rightarrow> dsdir list \<Rightarrow> nat option" where
  "last_index k children = fold (\<lambda>i idx. if d_Key (children ! i) = k then Some i else idx) [0..<length children] None"

definition drop_root :: "string \<Rightarrow> dsdir list \<Rightarrow> dsdir list" where
  "drop_root k children =
     (case last_index k children of None \<Rightarrow> children | Some i \<Rightarrow> take i children @ drop (Suc i) children)"

definition subtree_query :: "string \<Rightarrow> bool \<Rightarrow> query option" where
  "subtree_query name onlyDirectChildren =
     (if onlyDirectChildren then Some (DirEquals name) else map_option (DirFrom name) (IncrementString name))"

definition SubtreeByPath ::
    "'s services \<Rightarrow> dsfs \<Rightarrow> string \<Rightarrow> bool \<Rightarrow> 's \<Rightarrow> ((dsdir list \<times> dserr option) \<times> 's) option" where
  "SubtreeByPath svc fs name onlyDirectChildren s =
     (let (dir, bname) = ds_SplitX fs name;
          name1 = dir @ Filify bname;
          name2 = (if HasSuffix name1 ''/'' then name1 else name1 @ ''/'')
      in do {
        q \<leftarrow> subtree_query name2 onlyDirectChildren;
        Some (case QueryDirs svc q s of
            ((hits, Some e), s1) \<Rightarrow> ((map (\<lambda>(k, p). load_dir p zero_dir) hits, Some e), s1)
          | ((hits, None), s1) \<Rightarrow>
              if hits = [] then (([], Some ErrEmptyQuery), s1)
              else ((drop_root (ds_RootDir fs) (map (\<lambda>(k, p). (load_dir p zero_dir)\<lparr>d_Key := k\<rparr>) hits), None), s1))
      })"

definition dirsByPath :: "'s services \<Rightarrow> dsfs \<Rightarrow> string \<Rightarrow> 's \<Rightarrow> ((dsinfo list \<times> dserr option) \<times> 's) option" where
  "dirsByPath svc fs name s =
     (let (dir, bname) = ds_SplitX fs name in do {
        ((dirs, err), s1) \<leftarrow> SubtreeByPath svc fs (dir @ bname) True s;
        Some ((dirsorter fs (map InfoDir dirs), err), s1)
      })"

subsection \<open>low_level_files.go\<close>

definition fileByPath :: "'s services \<Rightarrow> dsfs \<Rightarrow> string \<Rightarrow> 's \<Rightarrow> (dsfile \<times> dserr option) \<times> 's" where
  "fileByPath svc fs name s =
     (let (dir, bname) = ds_SplitX fs name in
      if dir = ds_RootDir fs \<and> bname = [] then ((zero_file, Some ErrRootDirNoFile), s)
      else (case dirByPath svc fs dir s of
              ((foDir, Some e), s1) \<Rightarrow> ((zero_file, Some e), s1)
            | ((foDir, None), s1) \<Rightarrow>
                let fo = zero_file\<lparr>p_Key := (d_Key foDir, bname)\<rparr> in
                (case GetFile svc (d_Key foDir, bname) s1 of
                   (Inl e, s2) \<Rightarrow> ((fo, Some e), s2)
                 | (Inr p, s2) \<Rightarrow> ((load_file p fo, None), s2))))"

definition filesByPath :: "'s services \<Rightarrow> dsfs \<Rightarrow> string \<Rightarrow> 's \<Rightarrow> (dsfile list \<times> dserr option) \<times> 's" where
  "filesByPath svc fs name s =
     (let (dir, bname) = ds_SplitX fs name in
      case dirByPath svc fs (dir @ Filify bname) s of
        ((foDir, Some e), s1) \<Rightarrow> (([], Some e), s1)
      | ((foDir, None), s1) \<Rightarrow>
          (case QueryFiles svc (d_Key foDir) s1 of
             ((hits, Some e), s2) \<Rightarrow> ((map (\<lambda>(k, p). load_file p zero_file) hits, Some e), s2)
           | ((hits, None), s2) \<Rightarrow>
               ((filesorter fs (map (\<lambda>(k, p). (load_file p zero_file)\<lparr>p_Key := k\<rparr>) hits), None), s2)))"

text \<open>Where the name does not end in the base name of the file, it is a directory.\<close>

definition file_place :: "dsfs \<Rightarrow> dsfile \<Rightarrow> string \<Rightarrow> string \<times> string" where
  "file_place fs f name =
     (let (dir, bname) = ds_SplitX fs name in
      if p_BName f \<noteq> [] \<and> p_BName f \<noteq> bname
      then let dir1 = dir @ bname in ((if HasSuffix dir1 ''/'' then dir1 else dir1 @ ''/''), p_BName f)
      else (dir, bname))"

definition saveFileByPath :: "'s services \<Rightarrow> dsfs \<Rightarrow> dsfile \<Rightarrow> string \<Rightarrow> 's \<Rightarrow> (dserr option \<times> dsfile) \<times> 's" where
  "saveFileByPath svc fs f name s =
     (let (dir, bname) = file_place fs f name;
          f1 = f\<lparr>p_Dir := dir, p_BName := Filify bname\<rparr> in
      case dirByPath svc fs dir s of
        ((foDir, Some e), s1) \<Rightarrow> ((Some e, f1), s1)
      | ((foDir, None), s1) \<Rightarrow>
          let f2 = f1\<lparr>p_Key := (d_Key foDir, Filify bname)\<rparr> in
          (case PutFile svc (p_Key f2) (fileprops.truncate f2) s1 of
             (err, s2) \<Rightarrow> ((err, f2), s2)))"

subsection \<open>40_file_impl.go: an open file\<close>

definition ds_Sync :: "'s services \<Rightarrow> dsfs \<Rightarrow> dsfile \<Rightarrow> 's \<Rightarrow> (dserr option \<times> dsfile) \<times> 's" where
  "ds_Sync svc fs f s = saveFileByPath svc fs f (p_Dir f @ p_BName f) s"

text \<open>A \<^verbatim>\<open>Close\<close> that cannot save leaves the mutex locked; every later operation that locks it waits for ever
  (\<open>None\<close>).\<close>

definition ds_Close :: "'s services \<Rightarrow> dsfs \<Rightarrow> dsfile \<Rightarrow> 's \<Rightarrow> ((dserr option \<times> dsfile) \<times> 's) option" where
  "ds_Close svc fs f s =
     (if p_locked f then None
      else case ds_Sync svc fs (f\<lparr>p_at := 0, p_closed := True\<rparr>) s of
             ((err, f1), s1) \<Rightarrow> Some ((err, f1\<lparr>p_locked := (err \<noteq> None)\<rparr>), s1))"

definition ds_Read :: "dsfile \<Rightarrow> string \<Rightarrow> ((int \<times> fserr option) \<times> string \<times> dsfile) option" where
  "ds_Read f b =
     (if p_locked f then None
      else if p_closed f then Some ((0, Some ErrFileClosed), b, f)
      else if length b > 0 \<and> p_at f = int (length (p_Data f)) then Some ((0, Some EOF), b, f)
      else do {
        let n = (if int (length (p_Data f)) - p_at f \<ge> int (length b) then int (length b)
                 else int (length (p_Data f)) - p_at f);
        chunk \<leftarrow> slice_sub (p_Data f) (p_at f) (p_at f + n);
        Some ((n, None), slice_copy b 0 chunk, f\<lparr>p_at := p_at f + n\<rparr>)
      })"

definition ds_ReadAt :: "dsfile \<Rightarrow> string \<Rightarrow> int \<Rightarrow> ((int \<times> fserr option) \<times> string \<times> dsfile) option" where
  "ds_ReadAt f b off = ds_Read (f\<lparr>p_at := off\<rparr>) b"

definition ds_Seek :: "dsfile \<Rightarrow> int \<Rightarrow> int \<Rightarrow> (int \<times> fserr option) \<times> dsfile" where
  "ds_Seek f offset whence =
     (if p_closed f then ((0, Some ErrFileClosed), f)
      else let p = (if whence = 0 then offset
                    else if whence = 1 then p_at f + offset
                    else if whence = 2 then int (length (p_Data f)) + offset
                    else p_at f)
           in ((p, None), f\<lparr>p_at := p\<rparr>))"

definition ds_Truncate :: "'s services \<Rightarrow> dsfile \<Rightarrow> int \<Rightarrow> 's \<Rightarrow> (fserr option \<times> dsfile) \<times> 's" where
  "ds_Truncate svc f sz s =
     (if p_closed f then ((Some ErrFileClosed, f), s)
      else if sz < 0 then ((Some ErrOutOfRange, f), s)
      else let f1 = (if sz > int (length (p_Data f))
             then f\<lparr>p_Data := p_Data f @ replicate (nat (sz - int (length (p_Data f)))) (CHR 0x00)\<rparr>
             else f\<lparr>p_Data := take (nat sz) (p_Data f)\<rparr>)
           in case Now svc s of (t, s1) \<Rightarrow> ((None, f1\<lparr>p_MModTime := t\<rparr>), s1))"

definition ds_Write :: "'s services \<Rightarrow> dsfile \<Rightarrow> string \<Rightarrow> 's \<Rightarrow> (((int \<times> fserr option) \<times> dsfile) \<times> 's) option" where
  "ds_Write svc f b s =
     (if p_locked f then None
      else do {
        let n = int (length b);
        let cur = p_at f;
        let diff = cur - int (length (p_Data f));
        tail \<leftarrow> (if n + cur < int (length (p_Data f))
                 then slice_sub (p_Data f) (n + cur) (int (length (p_Data f))) else Some []);
        data \<leftarrow> (if diff > 0 then Some ((replicate (nat diff) (CHR 0x00) @ b) @ tail)
                 else do {
                   front \<leftarrow> slice_sub (p_Data f) 0 cur;
                   Some ((front @ b) @ tail)
                 });
        (case Now svc s of (t, s1) \<Rightarrow>
           Some (((n, None), f\<lparr>p_Data := data, p_at := int (length data), p_MModTime := t\<rparr>), s1))
      })"

definition ds_WriteAt :: "'s services \<Rightarrow> dsfile \<Rightarrow> string \<Rightarrow> int \<Rightarrow> 's \<Rightarrow> (((int \<times> fserr option) \<times> dsfile) \<times> 's) option" where
  "ds_WriteAt svc f b off s = ds_Write svc (f\<lparr>p_at := off\<rparr>) b s"

definition ds_WriteString :: "'s services \<Rightarrow> dsfile \<Rightarrow> string \<Rightarrow> 's \<Rightarrow> (((int \<times> fserr option) \<times> dsfile) \<times> 's) option" where
  "ds_WriteString svc f str s = ds_Write svc f str s"

subsection \<open>30_fs_impl.go\<close>

datatype handle = OpenFile_h dsfile | OpenDir_h dsdir

definition ds_Chmod :: "'s services \<Rightarrow> dsfs \<Rightarrow> string \<Rightarrow> int \<Rightarrow> 's \<Rightarrow> (dserr option \<times> 's) option" where
  "ds_Chmod svc fs name mode s =
     (case fileByPath svc fs name s of
        ((f, None), s1) \<Rightarrow>
          (case ds_Sync svc fs (f\<lparr>p_MMode := mode\<rparr>) s1 of ((err, f1), s2) \<Rightarrow> Some (err, s2))
      | ((f, Some e), s1) \<Rightarrow>
          (case dirByPath svc fs name s1 of
             ((dir, Some e2), s2) \<Rightarrow> Some (Some e2, s2)
           | ((dir, None), s2) \<Rightarrow> do {
               ((d, err), s3) \<leftarrow> saveDirByPathExt svc fs (dir\<lparr>d_MMode := mode\<rparr>) (d_Dir dir @ d_BName dir) s2;
               Some (err, s3)
             }))"

definition ds_Chtimes :: "'s services \<Rightarrow> dsfs \<Rightarrow> string \<Rightarrow> int \<Rightarrow> int \<Rightarrow> 's \<Rightarrow> (dserr option \<times> 's) option" where
  "ds_Chtimes svc fs name atime mtime s =
     (case fileByPath svc fs name s of
        ((f, None), s1) \<Rightarrow>
          (case ds_Sync svc fs (f\<lparr>p_MModTime := atime\<rparr>) s1 of ((err, f1), s2) \<Rightarrow> Some (err, s2))
      | ((f, Some e), s1) \<Rightarrow>
          (case dirByPath svc fs name s1 of
             ((dir, Some e2), s2) \<Rightarrow> Some (Some e2, s2)
           | ((dir, None), s2) \<Rightarrow> do {
               ((d, err), s3) \<leftarrow> saveDirByPathExt svc fs (dir\<lparr>d_MModTime := atime\<rparr>) (d_Dir dir @ d_BName dir) s2;
               Some (err, s3)
             }))"

definition ds_Create :: "'s services \<Rightarrow> dsfs \<Rightarrow> string \<Rightarrow> 's \<Rightarrow> (dserr + dsfile) \<times> 's" where
  "ds_Create svc fs name s =
     (let (dir, bname) = ds_SplitX fs name in
      case Now svc s of (t, s1) \<Rightarrow>
      case ds_Sync svc fs (zero_file\<lparr>p_BName := Filify bname, p_Dir := dir, p_MModTime := t, p_MMode := 420\<rparr>) s1 of
        ((Some e, f), s2) \<Rightarrow> (Inl e, s2)
      | ((None, f), s2) \<Rightarrow> (Inr f, s2))"

definition ds_Mkdir :: "'s services \<Rightarrow> dsfs \<Rightarrow> string \<Rightarrow> 's \<Rightarrow> (dserr option \<times> 's) option" where
  "ds_Mkdir svc fs name s = do { ((d, err), s1) \<leftarrow> saveDirByPath svc fs name s; Some (err, s1) }"

definition ds_MkdirAll :: "'s services \<Rightarrow> dsfs \<Rightarrow> string \<Rightarrow> 's \<Rightarrow> (dserr option \<times> 's) option" where
  "ds_MkdirAll svc fs path s = do { ((d, err), s1) \<leftarrow> saveDirByPath svc fs path s; Some (err, s1) }"

text \<open>\<^verbatim>\<open>Open\<close> from the attempt at a file on.\<close>

definition open_file_or_dir :: "'s services \<Rightarrow> dsfs \<Rightarrow> string \<Rightarrow> 's \<Rightarrow> (dserr + handle) \<times> 's" where
  "open_file_or_dir svc fs name s =
     (case fileByPath svc fs name s of
        ((f, None), s1) \<Rightarrow> (Inr (OpenFile_h (f\<lparr>p_at := 0, p_closed := False\<rparr>)), s1)
      | ((f, Some e), s1) \<Rightarrow>
          if e \<noteq> ErrNoSuchEntity \<and> e \<noteq> ErrRootDirNoFile then (Inl e, s1)
          else (case dirByPath svc fs name s1 of
                  ((dir, Some e2), s2) \<Rightarrow> (Inl e, s2)
                | ((dir, None), s2) \<Rightarrow> (Inr (OpenDir_h dir), s2)))"

definition ds_Open :: "'s services \<Rightarrow> dsfs \<Rightarrow> string \<Rightarrow> 's \<Rightarrow> (dserr + handle) \<times> 's" where
  "ds_Open svc fs name s =
     (let (dir, bname) = ds_SplitX fs name in
      if HasSuffix bname ''/''
      then (case dirByPath svc fs name s of
              ((d, None), s1) \<Rightarrow> (Inr (OpenDir_h d), s1)
            | ((d, Some e), s1) \<Rightarrow> open_file_or_dir svc fs name s1)
      else open_file_or_dir svc fs name s)"

definition ds_OpenFile :: "'s services \<Rightarrow> dsfs \<Rightarrow> string \<Rightarrow> int \<Rightarrow> int \<Rightarrow> 's \<Rightarrow> (dserr + handle) \<times> 's" where
  "ds_OpenFile svc fs name flag perm s = ds_Open svc fs name s"

definition ds_ReadDir :: "'s services \<Rightarrow> dsfs \<Rightarrow> string \<Rightarrow> 's \<Rightarrow> ((dsinfo list \<times> dserr option) \<times> 's) option" where
  "ds_ReadDir svc fs name s = do {
     ((dirs, err), s1) \<leftarrow> dirsByPath svc fs name s;
     (if err \<noteq> None \<and> err \<noteq> Some ErrEmptyQuery then Some (([], err), s1)
      else (case filesByPath svc fs name s1 of
              ((files, Some e), s2) \<Rightarrow> Some (([], Some e), s2)
            | ((files, None), s2) \<Rightarrow>
                Some ((dirsorter fs dirs @ map InfoFile (filesorter fs files), None), s2)))
   }"

definition ds_Remove :: "'s services \<Rightarrow> dsfs \<Rightarrow> string \<Rightarrow> 's \<Rightarrow> dserr option \<times> 's" where
  "ds_Remove svc fs name s =
     (let (err, s2) =
        (case fileByPath svc fs name s of
           ((f, None), s1) \<Rightarrow> DeleteFile svc (p_Key f) s1
         | ((f, Some e), s1) \<Rightarrow> (None, s1)) in
      case err of
        Some e \<Rightarrow> (Some (ErrWrapped ''error removing file '' e), s2)
      | None \<Rightarrow>
          (case dirByPath svc fs name s2 of
             ((d, Some e), s3) \<Rightarrow> (None, s3)
           | ((d, None), s3) \<Rightarrow>
               (case DeleteDir svc (d_Key d) s3 of
                  (err2, s4) \<Rightarrow> (map_option (ErrWrapped ''error removing dir '') err2, MemCacheDelete svc d s4))))"

definition ds_Rename :: "string \<Rightarrow> string \<Rightarrow> 's \<Rightarrow> dserr option \<times> 's" where
  "ds_Rename oldname newname s = (Some NotImplemented, s)"

definition ds_Stat :: "'s services \<Rightarrow> dsfs \<Rightarrow> string \<Rightarrow> 's \<Rightarrow> ((dserr + dsinfo) \<times> 's) option" where
  "ds_Stat svc fs path s =
     (case fileByPath svc fs path s of
        ((f, None), s1) \<Rightarrow> Some (Inr (InfoFile f), s1)
      | ((f, Some e), s1) \<Rightarrow>
          if e \<noteq> ErrNoSuchEntity \<and> e \<noteq> ErrRootDirNoFile then None
          else (case dirByPath svc fs path s1 of
                  ((dir, Some e2), s2) \<Rightarrow> Some (Inl e2, s2)
                | ((dir, None), s2) \<Rightarrow> Some (Inr (InfoDir dir), s2)))"

definition ds_Lstat :: "'s services \<Rightarrow> dsfs \<Rightarrow> string \<Rightarrow> 's \<Rightarrow> ((dserr + dsinfo) \<times> 's) option" where
  "ds_Lstat svc fs path s = ds_Stat svc fs path s"

definition ds_ReadFile :: "'s services \<Rightarrow> dsfs \<Rightarrow> string \<Rightarrow> 's \<Rightarrow> (string \<times> dserr option) \<times> 's" where
  "ds_ReadFile svc fs path s =
     (case fileByPath svc fs path s of
        ((f, Some e), s1) \<Rightarrow> (([], Some e), s1)
      | ((f, None), s1) \<Rightarrow> ((p_Data f, None), s1))"

definition ds_WriteFile :: "'s services \<Rightarrow> dsfs \<Rightarrow> string \<Rightarrow> string \<Rightarrow> 's \<Rightarrow> (dserr option \<times> 's) option" where
  "ds_WriteFile svc fs name data s =
     (let (dir, bname) = ds_SplitX fs name in
      case Now svc s of (t, s1) \<Rightarrow> do {
        ((r, f), s2) \<leftarrow> ds_Write svc (zero_file\<lparr>p_Dir := dir, p_BName := Filify bname, p_MModTime := t\<rparr>) data s1;
        (case snd r of
           Some e \<Rightarrow> Some (Some (ErrFile e), s2)
         | None \<Rightarrow> (case ds_Sync svc fs f s2 of ((err, f1), s3) \<Rightarrow> Some (err, s3)))
      })"

text \<open>\<^verbatim>\<open>RemoveAll\<close>: the walk collects the paths, the loop removes them from the last to the first. The state of the walk is
  \<open>None\<close> once the process has ended.\<close>

definition to_walk_err :: "dserr \<Rightarrow> dserr walk_err" where
  "to_walk_err e = (if e = ErrEmptyQuery then EmptyQueryResult else WErr e)"

definition walk_lstat :: "'s services \<Rightarrow> dsfs \<Rightarrow> (dserr, 's option \<times> string list) lstatFunc" where
  "walk_lstat svc fs path st =
     (case Option.bind (fst st) (ds_Lstat svc fs path) of
        None \<Rightarrow> ((None, Some (WErr NotImplemented)), (None, snd st))
      | Some (Inl e, s1) \<Rightarrow> ((None, Some (to_walk_err e)), (Some s1, snd st))
      | Some (Inr i, s1) \<Rightarrow> ((Some \<lparr>fi_Name = info_Name i, fi_IsDir = info_IsDir i\<rparr>, None), (Some s1, snd st)))"

definition walk_readdir :: "'s services \<Rightarrow> dsfs \<Rightarrow> (dserr, 's option \<times> string list) readdirFunc" where
  "walk_readdir svc fs path st =
     (case Option.bind (fst st) (ds_ReadDir svc fs path) of
        None \<Rightarrow> (([], None), (None, snd st))
      | Some ((fis, err), s1) \<Rightarrow>
          ((map (\<lambda>i. \<lparr>fi_Name = info_Name i, fi_IsDir = info_IsDir i\<rparr>) fis, map_option to_walk_err err), (Some s1, snd st)))"

definition walkRemove :: "(dserr, 's option \<times> string list) walkFunc" where
  "walkRemove path f err st = (None, (fst st, if err = None \<and> f \<noteq> None then snd st @ [path] else snd st))"

primrec remove_paths :: "'s services \<Rightarrow> dsfs \<Rightarrow> string list \<Rightarrow> 's \<Rightarrow> dserr option \<times> 's" where
  "remove_paths svc fs [] s = (None, s)"
| "remove_paths svc fs (p # ps) s =
     (case ds_Remove svc fs p s of
        (Some e, s1) \<Rightarrow> (Some e, s1)
      | (None, s1) \<Rightarrow> remove_paths svc fs ps s1)"

definition ds_RemoveAll :: "nat \<Rightarrow> 's services \<Rightarrow> dsfs \<Rightarrow> string \<Rightarrow> 's \<Rightarrow> (dserr option \<times> 's) option" where
  "ds_RemoveAll fuel svc fs path s = do {
     (err, (alive, paths)) \<leftarrow> Walk (walk_lstat svc fs) (walk_readdir svc fs) walkRemove fuel path (Some s, []);
     s1 \<leftarrow> alive;
     Some (remove_paths svc fs (rev paths) s1)
   }"

subsection \<open>The directory operations of open files: 40_file_impl.go, 42_dir_impl.go\<close>

text \<open>An error of \<^verbatim>\<open>ReadDir\<close> is dropped on every way out.\<close>

definition file_Readdir ::
    "'s services \<Rightarrow> dsfs \<Rightarrow> dsfile \<Rightarrow> int \<Rightarrow> 's \<Rightarrow> (((dsinfo list \<times> fserr option) \<times> dsfile) \<times> 's) option" where
  "file_Readdir svc fs f n s = do {
     ((fis, err), s1) \<leftarrow> ds_ReadDir svc fs (p_Dir f) s;
     Some (if n \<le> 0 then (((fis, None), f), s1)
           else if p_fetchPos f = 0 then (((fis, None), f\<lparr>p_fetchPos := int (length fis)\<rparr>), s1)
           else ((([], Some EOF), f\<lparr>p_fetchPos := 0\<rparr>), s1))
   }"

definition dir_Readdir ::
    "'s services \<Rightarrow> dsfs \<Rightarrow> dsdir \<Rightarrow> int \<Rightarrow> 's \<Rightarrow> (((dsinfo list \<times> fserr option) \<times> dsdir) \<times> 's) option" where
  "dir_Readdir svc fs d n s = do {
     ((fis, err), s1) \<leftarrow> ds_ReadDir svc fs (d_Dir d @ d_BName d) s;
     Some (if n \<le> 0 then (((fis, None), d), s1)
           else if d_fetchPos d = 0 then (((fis, None), d\<lparr>d_fetchPos := int (length fis)\<rparr>), s1)
           else ((([], Some EOF), d\<lparr>d_fetchPos := 0\<rparr>), s1))
   }"

definition file_Readdirnames ::
    "'s services \<Rightarrow> dsfs \<Rightarrow> dsfile \<Rightarrow> int \<Rightarrow> 's \<Rightarrow> (((string list \<times> fserr option) \<times> dsfile) \<times> 's) option" where
  "file_Readdirnames svc fs f n s = do {
     (((fis, err), f1), s1) \<leftarrow> file_Readdir svc fs f n s;
     Some (((map info_Name fis, err), f1), s1)
   }"

definition dir_Readdirnames ::
    "'s services \<Rightarrow> dsfs \<Rightarrow> dsdir \<Rightarrow> int \<Rightarrow> 's \<Rightarrow> (((string list \<times> fserr option) \<times> dsdir) \<times> 's) option" where
  "dir_Readdirnames svc fs d n s = do {
     (((fis, err), d1), s1) \<leftarrow> dir_Readdir svc fs d n s;
     Some (((map info_Name fis, err), d1), s1)
   }"

subsection \<open>New and the mount points: 21_fs_new.go, mount_counter.go\<close>

text \<open>\<^verbatim>\<open>%02v\<close> of the counter.\<close>

definition mount_name :: "nat \<Rightarrow> string" where
  "mount_name n = ''mnt'' @ replicate (2 - length (digits n)) (CHR ''0'') @ digits n"

definition MountPointLast :: "nat \<Rightarrow> string" where
  "MountPointLast cntr = mount_name (cntr - 1)"

definition MountPointIncr :: "nat \<Rightarrow> string \<times> nat" where
  "MountPointIncr cntr = (mount_name cntr, cntr + 1)"

definition MountPointReset :: "nat \<Rightarrow> string \<times> nat" where
  "MountPointReset cntr = (mount_name 0, 0)"

definition MountPointDecr :: "nat \<Rightarrow> string \<times> nat" where
  "MountPointDecr cntr = (mount_name (cntr - 1), cntr - 1)"

datatype ds_option = AeContext | MountName string | DirSort_ds string

fun apply_ds_option :: "ds_option \<Rightarrow> dsfs \<Rightarrow> dsfs" where
  "apply_ds_option AeContext fs = fs\<lparr>s_ctx := True\<rparr>"
| "apply_ds_option (MountName mnt) fs = fs\<lparr>s_mount := mnt\<rparr>"
| "apply_ds_option (DirSort_ds srt) fs =
     (if srt = ''byDateAsc'' then fs\<lparr>s_sorter := ByDateAsc\<rparr>
      else if srt = ''byDateDesc'' then fs\<lparr>s_sorter := ByDateDesc\<rparr>
      else if srt = ''byName'' then fs\<lparr>s_sorter := ByName\<rparr> else fs)"

definition configured :: "nat \<Rightarrow> ds_option list \<Rightarrow> dsfs" where
  "configured cntr options =
     (let fs = fold apply_ds_option options \<lparr>s_ctx = False, s_mount = [], s_sorter = ByName\<rparr> in
      if s_mount fs = [] then fs\<lparr>s_mount := MountPointLast cntr\<rparr> else fs)"

definition ds_New :: "'s services \<Rightarrow> nat \<Rightarrow> ds_option list \<Rightarrow> 's \<Rightarrow> (dsfs \<times> 's) option" where
  "ds_New svc cntr options s =
     (let fs = configured cntr options in
      if \<not> s_ctx fs then None
      else (case dirByPath svc fs (s_mount fs) s of
              ((rt, err), s1) \<Rightarrow>
                if err = Some ErrNoSuchEntity then do {
                  (r, s2) \<leftarrow> saveDirByPath svc fs (s_mount fs) s1;
                  Some (fs, s2)
                } else Some (fs, s1)))"

subsection \<open>31_fs_impl_other.go\<close>

definition DeleteAll_files :: "'s services \<Rightarrow> 's \<Rightarrow> (string \<times> dserr option) \<times> 's" where
  "DeleteAll_files svc s =
     (case FileKeys svc s of
        ((keys, Some e), s1) \<Rightarrow> ((''could not get file keys'' @ [CHR 0x0A], Some e), s1)
      | ((keys, None), s1) \<Rightarrow>
          let (msg, keys1) = (if length keys \<ge> 500
                then (''limited to 500 files. REPEAT operation.'' @ [CHR 0x0A], take 500 keys) else ([], keys)) in
          (case DeleteFiles svc keys1 s1 of
             (Some e, s2) \<Rightarrow> ((msg @ ''error deleting files'' @ [CHR 0x0A], Some e), s2)
           | (None, s2) \<Rightarrow> ((msg @ digits (length keys1) @ '' files deleted'' @ [CHR 0x0A], None), s2)))"

definition DeleteAll_dirs :: "'s services \<Rightarrow> string \<Rightarrow> 's \<Rightarrow> (string \<times> dserr option) \<times> 's" where
  "DeleteAll_dirs svc msg s =
     (case DirKeys svc s of
        ((keys, Some e), s1) \<Rightarrow> ((msg @ ''could not get dir keys'' @ [CHR 0x0A], Some e), s1)
      | ((keys, None), s1) \<Rightarrow>
          let (msg1, keys1) = (if length keys \<ge> 500
                then (msg @ ''limited to 500 directories. REPEAT operation.'' @ [CHR 0x0A], take 500 keys) else (msg, keys)) in
          (case DeleteDirs svc keys1 s1 of
             (Some e, s2) \<Rightarrow> ((msg1 @ ''error deleting directories'' @ [CHR 0x0A], Some e), s2)
           | (None, s2) \<Rightarrow> ((msg1 @ digits (length keys1) @ '' directories deleted'' @ [CHR 0x0A], None), s2)))"

definition DeleteAll :: "'s services \<Rightarrow> 's \<Rightarrow> (string \<times> dserr option) \<times> 's" where
  "DeleteAll svc s =
     (case DeleteAll_files svc s of
        ((msg, Some e), s1) \<Rightarrow> ((msg, Some e), s1)
      | ((msg, None), s1) \<Rightarrow>
          (case DeleteAll_dirs svc msg s1 of
             ((msg1, Some e), s2) \<Rightarrow> ((msg1, Some e), s2)
           | ((msg1, None), s2) \<Rightarrow>
               (case CacheFlush svc s2 of
                  (Some e, s3) \<Rightarrow> ((msg1 @ ''error flushing memcache'' @ [CHR 0x0A], Some e), s3)
                | (None, s3) \<Rightarrow> ((msg1 @ ''memcache flushed '' @ [CHR 0x0A], None), s3))))"

end
