(* ===== verification/DsStore.thy ===== *)
theory DsStore
  imports DsFs
begin

section \<open>Directories and files in the datastore\<close>

text \<open>
  What the file system of \<^verbatim>\<open>DsFs\<close> makes of its services. \<open>service_laws\<close> says what their documentation promises, seen through
  a view of their state: a get, put, delete or ancestor query by key is consistent, memcache may forget at any time, a
  read changes no entity, and a write that fails has been carried out or has changed nothing. \<open>healthy\<close> adds that calls do not fail. The query over all directories goes to an index that
  may lag behind; nothing is promised of its answer unless \<open>fresh_index\<close> is assumed. The invariant \<open>ds_inv\<close> says that entities
  are where their fields say and that memcache knows only what the datastore has; every lookup, save and creation of
  directories keeps it. The services \<open>reliable\<close> at the end are an instance on lists.
\<close>

subsection \<open>What the services promise\<close>

text \<open>The view of the state of the services: the entities, and what memcache may answer.\<close>

record dsview =
  v_dirs :: "string \<Rightarrow> dirprops option"
  v_files :: "string \<times> string \<Rightarrow> fileprops option"
  v_cache :: "string \<Rightarrow> dirprops option"

text \<open>A call that changes no entity: memcache may have forgotten something meanwhile.\<close>

definition quiet :: "dsview \<Rightarrow> dsview \<Rightarrow> bool" where
  "quiet v v' \<longleftrightarrow> v_dirs v' = v_dirs v \<and> v_files v' = v_files v \<and> v_cache v' \<subseteq>\<^sub>m v_cache v"

definition reads :: "('s \<Rightarrow> dsview) \<Rightarrow> ('s, 'a) call \<Rightarrow> bool" where
  "reads view call \<longleftrightarrow> (\<forall>s r s'. call s = (r, s') \<longrightarrow> quiet (view s) (view s'))"

definition finds :: "('s \<Rightarrow> dsview) \<Rightarrow> (dsview \<Rightarrow> 'p option) \<Rightarrow> ('s, dserr + 'p) call \<Rightarrow> bool" where
  "finds view entity call \<longleftrightarrow>
     reads view call \<and>
     (\<forall>s s'. (\<forall>p. call s = (Inr p, s') \<longrightarrow> entity (view s) = Some p) \<and>
             (call s = (Inl ErrNoSuchEntity, s') \<longrightarrow> entity (view s) = None))"

text \<open>A write that answers without an error has been carried out. After an error, a timeout for one, it may have been carried out all
  the same, but nothing else has changed.\<close>

definition writes :: "('s \<Rightarrow> dsview) \<Rightarrow> (dsview \<Rightarrow> dsview) \<Rightarrow> ('s, dserr option) call \<Rightarrow> bool" where
  "writes view change call \<longleftrightarrow>
     (\<forall>s s'. (call s = (None, s') \<longrightarrow> quiet (change (view s)) (view s')) \<and>
             (\<forall>e. call s = (Some e, s') \<longrightarrow> quiet (view s) (view s') \<or> quiet (change (view s)) (view s')))"

definition set_dir :: "string \<Rightarrow> dirprops option \<Rightarrow> dsview \<Rightarrow> dsview" where
  "set_dir k p v = v\<lparr>v_dirs := (v_dirs v)(k := p)\<rparr>"

definition set_file_ds :: "string \<times> string \<Rightarrow> fileprops option \<Rightarrow> dsview \<Rightarrow> dsview" where
  "set_file_ds k p v = v\<lparr>v_files := (v_files v)(k := p)\<rparr>"

definition set_cache :: "string \<Rightarrow> dirprops option \<Rightarrow> dsview \<Rightarrow> dsview" where
  "set_cache k p v = v\<lparr>v_cache := (v_cache v)(k := p)\<rparr>"

definition service_laws :: "'s services \<Rightarrow> ('s \<Rightarrow> dsview) \<Rightarrow> bool" where
  "service_laws svc view \<longleftrightarrow>
     (\<forall>k. finds view (\<lambda>v. v_dirs v k) (GetDir svc k)) \<and>
     (\<forall>k p. writes view (set_dir k (Some p)) (PutDir svc k p)) \<and>
     (\<forall>k. writes view (set_dir k None) (DeleteDir svc k)) \<and>
     (\<forall>q. reads view (QueryDirs svc q)) \<and>
     (\<forall>k. finds view (\<lambda>v. v_files v k) (GetFile svc k)) \<and>
     (\<forall>k p. snd k \<noteq> [] \<longrightarrow> writes view (set_file_ds k (Some p)) (PutFile svc k p)) \<and>
     (\<forall>k. writes view (set_file_ds k None) (DeleteFile svc k)) \<and>
     (\<forall>k. reads view (QueryFiles svc k)) \<and>
     (\<forall>s k hits s'. QueryFiles svc k s = ((hits, None), s') \<longrightarrow>
        distinct (map fst hits) \<and> set hits = {((k, b), p) |b p. v_files (view s) (k, b) = Some p}) \<and>
     (\<forall>k. reads view (CacheGet svc k)) \<and>
     (\<forall>s k p s'. CacheGet svc k s = (Inr p, s') \<longrightarrow> v_cache (view s) k = Some p) \<and>
     (\<forall>k p. writes view (set_cache k (Some p)) (CacheSet svc k p)) \<and>
     (\<forall>k. writes view (set_cache k None) (CacheDelete svc k)) \<and>
     (\<forall>s k s'. CacheDelete svc k s = (Some ErrCacheMiss, s') \<longrightarrow> v_cache (view s') k = None) \<and>
     reads view (Now svc)"

text \<open>Calls do not fail; keys that are not there are an answer, not a failure.\<close>

definition healthy :: "'s services \<Rightarrow> bool" where
  "healthy svc \<longleftrightarrow>
     (\<forall>s k e. fst (GetDir svc k s) = Inl e \<longrightarrow> e = ErrNoSuchEntity) \<and>
     (\<forall>s k p. fst (PutDir svc k p s) = None) \<and> (\<forall>s k. fst (DeleteDir svc k s) = None) \<and>
     (\<forall>s q. snd (fst (QueryDirs svc q s)) = None) \<and>
     (\<forall>s k e. fst (GetFile svc k s) = Inl e \<longrightarrow> e = ErrNoSuchEntity) \<and>
     (\<forall>s k p. fst (PutFile svc k p s) = None) \<and> (\<forall>s k. fst (DeleteFile svc k s) = None) \<and>
     (\<forall>s k. snd (fst (QueryFiles svc k s)) = None) \<and>
     (\<forall>s k e. fst (CacheGet svc k s) = Inl e \<longrightarrow> e = ErrCacheMiss) \<and>
     (\<forall>s k p. fst (CacheSet svc k p s) = None) \<and>
     (\<forall>s k. fst (CacheDelete svc k s) = None \<or> fst (CacheDelete svc k s) = Some ErrCacheMiss)"

text \<open>The index of directories is up to date.\<close>

fun answers :: "query \<Rightarrow> string \<Rightarrow> bool" where
  "answers (DirEquals d) dir = (dir = d)"
| "answers (DirFrom a b) dir = (a \<le> dir \<and> dir < b)"

definition fresh_index :: "'s services \<Rightarrow> ('s \<Rightarrow> dsview) \<Rightarrow> bool" where
  "fresh_index svc view \<longleftrightarrow>
     (\<forall>s q. distinct (map fst (fst (fst (QueryDirs svc q s)))) \<and>
        set (fst (fst (QueryDirs svc q s))) = {(k, p) |k p. v_dirs (view s) k = Some p \<and> answers q (d_Dir p)})"

lemma quiet_refl [simp]: "quiet v v"
  by (simp add: quiet_def)

lemma quiet_trans: "quiet u v \<Longrightarrow> quiet v w \<Longrightarrow> quiet u w"
  by (auto simp: quiet_def intro: map_le_trans)

lemma quietD:
  assumes "quiet v v'"
  shows "v_dirs v' = v_dirs v" "v_files v' = v_files v" "v_cache v' k = Some p \<Longrightarrow> v_cache v k = Some p"
  using assms by (auto simp: quiet_def map_le_def dom_def)

lemma readsD: "reads view call \<Longrightarrow> call s = (r, s') \<Longrightarrow> quiet (view s) (view s')"
  by (auto simp: reads_def)

lemma findsD:
  assumes "finds view entity call"
  shows "call s = (r, s') \<Longrightarrow> quiet (view s) (view s')" "call s = (Inr p, s') \<Longrightarrow> entity (view s) = Some p"
    "call s = (Inl ErrNoSuchEntity, s') \<Longrightarrow> entity (view s) = None"
  using assms by (auto simp: finds_def reads_def)

lemma writesD:
  assumes "writes view change call"
  shows "call s = (None, s') \<Longrightarrow> quiet (change (view s)) (view s')" "call s = (Some e, s') \<Longrightarrow> quiet (view s) (view s') \<or> quiet (change (view s)) (view s')"
  using assms by (auto simp: writes_def)

lemma service_lawsD:
  assumes "service_laws svc view"
  shows "finds view (\<lambda>v. v_dirs v k) (GetDir svc k)" "writes view (set_dir k (Some p)) (PutDir svc k p)"
    "writes view (set_dir k None) (DeleteDir svc k)" "reads view (QueryDirs svc q)"
    "finds view (\<lambda>v. v_files v fk) (GetFile svc fk)"
    "snd fk \<noteq> [] \<Longrightarrow> writes view (set_file_ds fk (Some fp)) (PutFile svc fk fp)"
    "writes view (set_file_ds fk None) (DeleteFile svc fk)" "reads view (QueryFiles svc k)"
    "reads view (CacheGet svc k)" "writes view (set_cache k (Some p)) (CacheSet svc k p)"
    "writes view (set_cache k None) (CacheDelete svc k)" "reads view (Now svc)"
  using assms by (simp_all add: service_laws_def del: split_paired_All)

lemma CacheGet_hit: "service_laws svc view \<Longrightarrow> CacheGet svc k s = (Inr p, s') \<Longrightarrow> v_cache (view s) k = Some p"
  unfolding service_laws_def by blast

lemma CacheDelete_miss: "service_laws svc view \<Longrightarrow> CacheDelete svc k s = (Some ErrCacheMiss, s') \<Longrightarrow> v_cache (view s') k = None"
  unfolding service_laws_def by blast

lemma QueryFiles_hits:
  assumes "service_laws svc view" "QueryFiles svc k s = ((hits, None), s')"
  shows "distinct (map fst hits)" "set hits = {((k, b), p) |b p. v_files (view s) (k, b) = Some p}"
  using assms unfolding service_laws_def by blast+

lemma healthyD:
  assumes "healthy svc"
  shows "GetDir svc k s = (Inl e, s') \<Longrightarrow> e = ErrNoSuchEntity"
    "PutDir svc k p s = (r, s') \<Longrightarrow> r = None" "DeleteDir svc k s = (r, s') \<Longrightarrow> r = None"
    "QueryDirs svc q s = ((l, r), s') \<Longrightarrow> r = None"
    "GetFile svc fk s = (Inl e, s') \<Longrightarrow> e = ErrNoSuchEntity"
    "PutFile svc fk fp s = (r, s') \<Longrightarrow> r = None" "DeleteFile svc fk s = (r, s') \<Longrightarrow> r = None"
    "QueryFiles svc k s = ((fl, r), s') \<Longrightarrow> r = None"
    "CacheGet svc k s = (Inl e, s') \<Longrightarrow> e = ErrCacheMiss"
    "CacheSet svc k p s = (r, s') \<Longrightarrow> r = None"
    "CacheDelete svc k s = (r, s') \<Longrightarrow> r = None \<or> r = Some ErrCacheMiss"
  using assms unfolding healthy_def by (metis fst_conv snd_conv)+

subsection \<open>Reads change no entity, whatever fails\<close>

definition same_entities :: "dsview \<Rightarrow> dsview \<Rightarrow> bool" where
  "same_entities v v' \<longleftrightarrow> v_dirs v' = v_dirs v \<and> v_files v' = v_files v"

lemma same_entities_refl [simp]: "same_entities v v"
  by (simp add: same_entities_def)

lemma same_entities_trans: "same_entities u v \<Longrightarrow> same_entities v w \<Longrightarrow> same_entities u w"
  by (simp add: same_entities_def)

lemma quiet_same: "quiet v v' \<Longrightarrow> same_entities v v'"
  by (simp add: quiet_def same_entities_def)

lemma reads_same: "reads view call \<Longrightarrow> call s = (r, s') \<Longrightarrow> same_entities (view s) (view s')"
  by (blast dest: readsD quiet_same)

lemma finds_same: "finds view entity call \<Longrightarrow> call s = (r, s') \<Longrightarrow> same_entities (view s) (view s')"
  by (blast dest: findsD(1) quiet_same)

lemma MemCacheSet_same: "service_laws svc view \<Longrightarrow> same_entities (view s) (view (MemCacheSet svc d s))"
proof -
  assume L: "service_laws svc view"
  let ?k = "d_Dir d @ d_BName d" and ?p = "dirprops.truncate d"
  obtain r s' where c: "CacheSet svc ?k ?p s = (r, s')" by fastforce
  note w = writesD[OF service_lawsD(10)[OF L, of ?k ?p]]
  have "quiet (view s) (view s') \<or> quiet (set_cache ?k (Some ?p) (view s)) (view s')"
    using w c by (cases r) auto
  then show ?thesis by (auto simp: MemCacheSet_def c quiet_def same_entities_def set_cache_def)
qed

lemma MemCacheGet_same:
  "service_laws svc view \<Longrightarrow> MemCacheGet svc d k s = (r, s') \<Longrightarrow> same_entities (view s) (view s')"
  by (auto simp: MemCacheGet_def split: prod.splits sum.splits dest!: reads_same[OF service_lawsD(9)])

lemma dirByPath_same:
  assumes "service_laws svc view" "dirByPath svc fs name s = (r, s')"
  shows "same_entities (view s) (view s')"
proof -
  obtain dir bname where sp: "ds_SplitX fs name = (dir, bname)" by fastforce
  let ?k = "dir @ Filify bname"
  obtain e fo1 s1 where g: "MemCacheGet svc (zero_dir\<lparr>d_Key := ?k\<rparr>) ?k s = ((e, fo1), s1)" by (metis surj_pair)
  have 1: "same_entities (view s) (view s1)" by (rule MemCacheGet_same[OF assms(1) g])
  obtain r2 s2 where d: "GetDir svc ?k s1 = (r2, s2)" by fastforce
  have 2: "same_entities (view s) (view s2)"
    by (rule same_entities_trans[OF 1 finds_same[OF service_lawsD(1)[OF assms(1)] d]])
  have 3: "same_entities (view s) (view (MemCacheSet svc x s2))" for x
    by (rule same_entities_trans[OF 2 MemCacheSet_same[OF assms(1)]])
  show ?thesis using assms(2) 1 2 3 sp g d
    by (auto simp: dirByPath_def Let_def split: option.splits sum.splits if_splits)
qed

lemma fileByPath_same:
  assumes "service_laws svc view" "fileByPath svc fs name s = (r, s')"
  shows "same_entities (view s) (view s')"
proof -
  obtain dir bname where sp: "ds_SplitX fs name = (dir, bname)" by fastforce
  obtain fo e s1 where d: "dirByPath svc fs dir s = ((fo, e), s1)" by (metis surj_pair)
  obtain r2 s2 where g: "GetFile svc (d_Key fo, bname) s1 = (r2, s2)" by fastforce
  have 1: "same_entities (view s) (view s1)" by (rule dirByPath_same[OF assms(1) d])
  have 2: "same_entities (view s) (view s2)"
    by (rule same_entities_trans[OF 1 finds_same[OF service_lawsD(5)[OF assms(1)] g]])
  show ?thesis using assms(2) 1 2 sp d g
    by (auto simp: fileByPath_def Let_def split: option.splits sum.splits if_splits)
qed

subsection \<open>Where entities are, and coherence of memcache\<close>

text \<open>\<open>dpath r ws\<close> is the key of the directory \<open>ws\<close> below the mount point \<open>r\<close>. Entities are where their own fields
  say; what memcache knows is what the datastore has.\<close>

definition dpath :: "string \<Rightarrow> string list \<Rightarrow> string" where
  "dpath r ws = (if ws = [] then r @ ''/'' else join_slash (r # ws))"

definition last_name :: "string list \<Rightarrow> string" where
  "last_name ws = (if ws = [] then [] else last ws)"

definition dir_placed :: "string \<Rightarrow> dirprops \<Rightarrow> bool" where
  "dir_placed k p \<longleftrightarrow> (\<exists>r ws. (\<forall>w\<in>set (r # ws). plain w) \<and> k = dpath r ws \<and>
     d_Dir p = dirkey r (butlast ws) \<and> d_BName p = last_name ws)"

definition file_placed :: "string \<times> string \<Rightarrow> fileprops \<Rightarrow> bool" where
  "file_placed k p \<longleftrightarrow> (\<exists>r ws. (\<forall>w\<in>set (r # ws). plain w) \<and> plain (snd k) \<and> fst k = dpath r ws \<and>
     p_Dir p = dirkey r ws \<and> p_BName p = snd k)"

definition ds_inv :: "dsview \<Rightarrow> bool" where
  "ds_inv v \<longleftrightarrow> (\<forall>k p. v_dirs v k = Some p \<longrightarrow> dir_placed k p) \<and>
     (\<forall>k p. v_files v k = Some p \<longrightarrow> file_placed k p) \<and> v_cache v \<subseteq>\<^sub>m v_dirs v"

lemma dpath_split: "dirkey r (butlast ws) @ last_name ws = dpath r ws"
  using join_slash_last[of ws r] by (simp add: dpath_def last_name_def)

lemma dir_placed_key: "dir_placed k p \<Longrightarrow> d_Dir p @ d_BName p = k"
  by (auto simp: dir_placed_def dpath_split[simplified])

lemma Filify_plain: "plain w \<Longrightarrow> Filify w = w" "plain w \<Longrightarrow> length w > 1 \<Longrightarrow> Filify (w @ ''/'') = w"
  using plain_no_slash[of w] by (auto simp: Filify_def TrimSuffix_single dest: plainD)

lemma names_SplitX:
  assumes "names (s_mount fs) ws name"
  shows "\<exists>b. ds_SplitX fs name = (dirkey (s_mount fs) (butlast ws), b) \<and> Filify b = last_name ws \<and>
     (b = last_name ws \<or> ws \<noteq> [] \<and> b = last_name ws @ ''/'')"
proof (cases "ws = []")
  case True
  then show ?thesis using names_Split[OF assms] by (simp add: ds_SplitX_def ds_RootDir_def last_name_def Filify_def)
next
  case False
  then have "plain (last ws)" using assms by (simp add: names_def)
  then show ?thesis using names_Split[OF assms] False Filify_plain[of "last ws"]
    by (auto simp: ds_SplitX_def ds_RootDir_def last_name_def)
qed

lemma names_dirkey:
  assumes "\<forall>w\<in>set (r # ws). plain w"
  shows "names r ws (dirkey r ws)" "names r ws (join_slash (r # ws))" "names r ws (dpath r ws)"
  using assms by (auto intro!: spelled_names simp: spelled_def dpath_def)

subsection \<open>Looking up with services that do not fail\<close>

definition good_services :: "'s services \<Rightarrow> ('s \<Rightarrow> dsview) \<Rightarrow> bool" where
  "good_services svc view \<longleftrightarrow> service_laws svc view \<and> healthy svc"

definition still :: "dsview \<Rightarrow> dsview \<Rightarrow> bool" where
  "still v v' \<longleftrightarrow> same_entities v v' \<and> ds_inv v'"

lemma stillD:
  assumes "still v v'"
  shows "v_dirs v' = v_dirs v" "v_files v' = v_files v" "ds_inv v'"
  using assms by (auto simp: still_def same_entities_def)

lemma still_refl: "ds_inv v \<Longrightarrow> still v v"
  by (simp add: still_def)

lemma still_trans: "still u v \<Longrightarrow> still v w \<Longrightarrow> still u w"
  by (auto simp: still_def same_entities_def)

lemma quiet_still: "quiet v v' \<Longrightarrow> ds_inv v \<Longrightarrow> still v v'"
  by (auto simp: quiet_def still_def same_entities_def ds_inv_def intro: map_le_trans)

lemma reads_still: "reads view call \<Longrightarrow> call s = (r, s') \<Longrightarrow> ds_inv (view s) \<Longrightarrow> still (view s) (view s')"
  by (blast dest: readsD quiet_still)

lemma CacheSet_entity:
  assumes g: "good_services svc view" and i: "ds_inv (view s)" and e: "v_dirs (view s) k = Some p"
  shows "still (view s) (view (snd (CacheSet svc k p s)))"
proof -
  obtain r s' where c: "CacheSet svc k p s = (r, s')" by fastforce
  have L: "service_laws svc view" "healthy svc" using g by (simp_all add: good_services_def)
  have "r = None" by (rule healthyD(10)[OF L(2) c])
  then have q: "quiet (set_cache k (Some p) (view s)) (view s')"
    using writesD(1)[OF service_lawsD(10)[OF L(1), of k p]] c by simp
  have "(v_cache (view s))(k \<mapsto> p) \<subseteq>\<^sub>m v_dirs (view s)"
    using i e by (auto simp: ds_inv_def map_le_def)
  then have "ds_inv (set_cache k (Some p) (view s))" using i by (simp add: ds_inv_def set_cache_def)
  from quiet_still[OF q this] show ?thesis using c by (simp add: still_def same_entities_def set_cache_def)
qed

definition dir_found :: "dsview \<Rightarrow> string \<Rightarrow> dsdir \<times> dserr option \<Rightarrow> bool" where
  "dir_found v k r \<longleftrightarrow> d_Key (fst r) = k \<and>
     (case v_dirs v k of None \<Rightarrow> snd r = Some ErrNoSuchEntity
      | Some p \<Rightarrow> snd r = None \<and> dirprops.truncate (fst r) = p \<and> d_MMode (fst r) = 0 \<and> d_fetchPos (fst r) = 0)"

lemma load_dir_sel [simp]:
  "dirprops.truncate (load_dir p d) = p" "d_Key (load_dir p d) = d_Key d" "d_MMode (load_dir p d) = d_MMode d"
  "d_fetchPos (load_dir p d) = d_fetchPos d" "d_Dir (load_dir p d) = d_Dir p" "d_BName (load_dir p d) = d_BName p"
  "d_MModTime (load_dir p d) = d_MModTime p"
  by (cases p; cases d; simp add: load_dir_def dirprops.defs)+

lemma load_file_sel [simp]:
  "fileprops.truncate (load_file p f) = p" "p_Key (load_file p f) = p_Key f" "p_MMode (load_file p f) = p_MMode f"
  "p_at (load_file p f) = p_at f" "p_closed (load_file p f) = p_closed f" "p_locked (load_file p f) = p_locked f"
  "p_fetchPos (load_file p f) = p_fetchPos f" "p_Dir (load_file p f) = p_Dir p" "p_BName (load_file p f) = p_BName p"
  "p_MModTime (load_file p f) = p_MModTime p" "p_Data (load_file p f) = p_Data p"
  by (cases p; cases f; simp add: load_file_def fileprops.defs)+

lemma truncate_dir_sel [simp]:
  "dirprops.truncate (d\<lparr>d_Key := k\<rparr>) = dirprops.truncate d"
  "d_Dir (dirprops.truncate d) = d_Dir d" "d_BName (dirprops.truncate d) = d_BName d"
  "d_MModTime (dirprops.truncate d) = d_MModTime d" for d :: dsdir
  by (cases d; simp add: dirprops.defs)+

lemma truncate_file_sel [simp]:
  "p_Dir (fileprops.truncate f) = p_Dir f" "p_BName (fileprops.truncate f) = p_BName f"
  "p_MModTime (fileprops.truncate f) = p_MModTime f" "p_Data (fileprops.truncate f) = p_Data f" for f :: dsfile
  by (cases f; simp add: fileprops.defs)+

lemma dirByPath_key:
  assumes g: "good_services svc view" and i: "ds_inv (view s)"
    and sp: "ds_SplitX fs name = (dir, bname)" and d: "dirByPath svc fs name s = (r, s')"
  shows "still (view s) (view s')" "dir_found (view s) (dir @ Filify bname) r"
proof -
  let ?k = "dir @ Filify bname"
  have L: "service_laws svc view" "healthy svc" using g by (simp_all add: good_services_def)
  obtain c s1 where c: "CacheGet svc ?k s = (c, s1)" by fastforce
  have s1: "still (view s) (view s1)" by (rule reads_still[OF service_lawsD(9)[OF L(1)] c i])
  obtain h s2 where h: "GetDir svc ?k s1 = (h, s2)" by fastforce
  have s12: "still (view s1) (view s2)"
    by (rule quiet_still[OF findsD(1)[OF service_lawsD(1)[OF L(1)] h] stillD(3)[OF s1]])
  have s2: "still (view s) (view s2)" by (rule still_trans[OF s1 s12])
  have "still (view s) (view s') \<and> dir_found (view s) ?k r"
  proof (cases c)
    case (Inr p)
    have "v_dirs (view s) ?k = Some p"
      using CacheGet_hit[OF L(1) c[unfolded Inr]] i by (auto simp: ds_inv_def map_le_def dom_def)
    then show ?thesis using d sp c Inr s1
      by (auto simp: dirByPath_def Let_def MemCacheGet_def dir_found_def zero_dir_def)
  next
    case (Inl e)
    then have e: "c = Inl ErrCacheMiss" using healthyD(9)[OF L(2)] c by blast
    show ?thesis
    proof (cases h)
      case h': (Inl e2)
      then have "e2 = ErrNoSuchEntity" using healthyD(1)[OF L(2)] h by blast
      then have n: "h = Inl ErrNoSuchEntity" using h' by simp
      then have "v_dirs (view s1) ?k = None" using findsD(3)[OF service_lawsD(1)[OF L(1)]] h by blast
      then show ?thesis using d sp c h e n s2 stillD(1)[OF s1]
        by (auto simp: dirByPath_def Let_def MemCacheGet_def dir_found_def)
    next
      case h': (Inr p)
      have p1: "v_dirs (view s1) ?k = Some p" using findsD(2)[OF service_lawsD(1)[OF L(1)]] h h' by blast
      then have p2: "v_dirs (view s2) ?k = Some p" "v_dirs (view s) ?k = Some p"
        using stillD(1)[OF s12] stillD(1)[OF s1] by simp_all
      have k: "d_Dir p @ d_BName p = ?k" using p1 stillD(3)[OF s1] by (auto simp: ds_inv_def dest: dir_placed_key)
      have "still (view s2) (view (snd (CacheSet svc ?k p s2)))"
        by (rule CacheSet_entity[OF g stillD(3)[OF s2] p2(1)])
      then show ?thesis using d sp c h e h' k p2(2) still_trans[OF s2]
        by (auto simp: dirByPath_def Let_def MemCacheGet_def MemCacheSet_def dir_found_def zero_dir_def)
    qed
  qed
  then show "still (view s) (view s')" "dir_found (view s) ?k r" by blast+
qed

lemma dirByPath_names:
  assumes g: "good_services svc view" and i: "ds_inv (view s)"
    and nm: "names (s_mount fs) ws name" and d: "dirByPath svc fs name s = (r, s')"
  shows "still (view s) (view s')" "dir_found (view s) (dpath (s_mount fs) ws) r"
proof -
  obtain b where b: "ds_SplitX fs name = (dirkey (s_mount fs) (butlast ws), b)" "Filify b = last_name ws"
    using names_SplitX[OF nm] by blast
  show "still (view s) (view s')" by (rule dirByPath_key(1)[OF g i b(1) d])
  show "dir_found (view s) (dpath (s_mount fs) ws) r"
    using dirByPath_key(2)[OF g i b(1) d] unfolding b(2) dpath_split .
qed

subsection \<open>Making directories\<close>

lemma dpath_comps:
  assumes "\<forall>w\<in>set (r # ws). plain w"
  shows "comps (dpath r ws) = r # ws"
  using assms by (intro spelled_comps) (auto simp: spelled_def dpath_def)

lemma dpath_inj:
  assumes "\<forall>w\<in>set (r # ws). plain w" "\<forall>w\<in>set (r' # ws'). plain w" "dpath r ws = dpath r' ws'"
  shows "r = r'" "ws = ws'"
proof -
  have "r # ws = comps (dpath r' ws')" using dpath_comps[OF assms(1)] unfolding assms(3) by (rule sym)
  also have "\<dots> = r' # ws'" by (rule dpath_comps[OF assms(2)])
  finally have "r # ws = r' # ws'" .
  then show "r = r'" "ws = ws'" by blast+
qed

definition saved_dir :: "string \<Rightarrow> string list \<Rightarrow> dsdir \<Rightarrow> bool" where
  "saved_dir r ws fo \<longleftrightarrow> d_Key fo = dpath r ws \<and> d_Dir fo = dirkey r (butlast ws) \<and> d_BName fo = last_name ws"

lemma dir_to_save_names:
  assumes g: "good_services svc view" and i: "ds_inv (view s)" and nm: "names (s_mount fs) ws name"
    and d: "dir_to_save svc fs d0 name s = (fo, s')"
  shows "still (view s) (view s')" "saved_dir (s_mount fs) ws fo" "d_MModTime d0 \<noteq> 0 \<Longrightarrow> d_MModTime fo = d_MModTime d0"
proof -
  define D where "D = dirkey (s_mount fs) (butlast ws)"
  obtain b where b: "ds_SplitX fs name = (D, b)" "Filify b = last_name ws"
    using names_SplitX[OF nm] unfolding D_def by blast
  have k: "D @ last_name ws = dpath (s_mount fs) ws" unfolding D_def by (rule dpath_split)
  obtain t s1 where t: "Now svc s = (t, s1)" by fastforce
  have L: "service_laws svc view" using g by (simp add: good_services_def)
  have s1: "still (view s) (view s1)" by (rule reads_still[OF service_lawsD(12)[OF L] t i])
  show "still (view s) (view s')" "saved_dir (s_mount fs) ws fo" "d_MModTime d0 \<noteq> 0 \<Longrightarrow> d_MModTime fo = d_MModTime d0"
  proof -
    have fo: "d_Key fo = dpath (s_mount fs) ws \<and> d_Dir fo = D \<and> d_BName fo = last_name ws \<and>
        (d_MModTime d0 \<noteq> 0 \<longrightarrow> d_MModTime fo = d_MModTime d0) \<and> (s' = s \<or> s' = s1)"
      using d unfolding dir_to_save_def b(1) t Let_def prod.case b(2) k by (cases "d_MModTime d0 = 0") auto
    then show "saved_dir (s_mount fs) ws fo" "d_MModTime d0 \<noteq> 0 \<Longrightarrow> d_MModTime fo = d_MModTime d0"
      unfolding saved_dir_def D_def by blast+
    show "still (view s) (view s')" using fo s1 still_refl[OF i] by auto
  qed
qed

lemma PutDir_saved:
  assumes g: "good_services svc view" and i: "ds_inv (view s)" and pl: "\<forall>w\<in>set (r # ws). plain w"
    and fo: "saved_dir r ws fo" and p: "PutDir svc (d_Key fo) (dirprops.truncate fo) s = (e, s1)"
  shows "e = None" "v_dirs (view (MemCacheSet svc fo s1)) = (v_dirs (view s))(dpath r ws \<mapsto> dirprops.truncate fo)"
    "v_files (view (MemCacheSet svc fo s1)) = v_files (view s)" "ds_inv (view (MemCacheSet svc fo s1))"
proof -
  let ?k = "dpath r ws" and ?p = "dirprops.truncate fo"
  have L: "service_laws svc view" "healthy svc" using g by (simp_all add: good_services_def)
  have k: "d_Key fo = ?k" "d_Dir fo @ d_BName fo = ?k" using fo dpath_split[of r ws] by (simp_all add: saved_dir_def)
  show e: "e = None" by (rule healthyD(2)[OF L(2) p])
  have q: "quiet (set_dir ?k (Some ?p) (view s)) (view s1)"
    using writesD(1)[OF service_lawsD(2)[OF L(1), of ?k ?p]] p k e by simp
  obtain r2 s2 where c: "CacheSet svc ?k ?p s1 = (r2, s2)" by fastforce
  have "r2 = None" by (rule healthyD(10)[OF L(2) c])
  then have q2: "quiet (set_cache ?k (Some ?p) (view s1)) (view s2)"
    using writesD(1)[OF service_lawsD(10)[OF L(1), of ?k ?p]] c by simp
  have s2: "MemCacheSet svc fo s1 = s2" using c k by (simp add: MemCacheSet_def)
  show d: "v_dirs (view (MemCacheSet svc fo s1)) = (v_dirs (view s))(?k \<mapsto> ?p)"
    and f: "v_files (view (MemCacheSet svc fo s1)) = v_files (view s)"
    using q q2 by (simp_all add: s2 quiet_def set_dir_def set_cache_def)
  have "v_cache (view s1) \<subseteq>\<^sub>m v_cache (view s)" using q by (simp add: quiet_def set_dir_def)
  then have c1: "v_cache (view s1) \<subseteq>\<^sub>m v_dirs (view s)" using i map_le_trans by (auto simp: ds_inv_def)
  have "v_cache (view s2) \<subseteq>\<^sub>m (v_cache (view s1))(?k \<mapsto> ?p)" using q2 by (simp add: quiet_def set_cache_def)
  then have c2: "v_cache (view s2) \<subseteq>\<^sub>m (v_dirs (view s))(?k \<mapsto> ?p)" using map_le_upd[OF c1] map_le_trans by blast
  have "dir_placed ?k ?p" using fo pl unfolding dir_placed_def saved_dir_def by auto
  then show "ds_inv (view (MemCacheSet svc fo s1))"
    using i c2 d f by (auto simp: ds_inv_def s2)
qed

text \<open>Of the path \<open>ws\<close> the directories that exist are an initial part.\<close>

definition chain :: "(string \<Rightarrow> dirprops option) \<Rightarrow> string \<Rightarrow> string list \<Rightarrow> bool" where
  "chain dirs r ws \<longleftrightarrow> (\<forall>n<length ws. dirs (dpath r (take (Suc n) ws)) \<noteq> None \<longrightarrow> dirs (dpath r (take n ws)) \<noteq> None)"

definition on_path :: "string \<Rightarrow> string list \<Rightarrow> string \<Rightarrow> bool" where
  "on_path r ws k \<longleftrightarrow> (\<exists>n\<le>length ws. k = dpath r (take n ws))"

definition made :: "dsview \<Rightarrow> dsview \<Rightarrow> string \<Rightarrow> string list \<Rightarrow> bool" where
  "made v v' r ws \<longleftrightarrow> ds_inv v' \<and> v_files v' = v_files v \<and>
     (\<forall>k. k \<noteq> dpath r ws \<and> v_dirs v k \<noteq> None \<longrightarrow> v_dirs v' k = v_dirs v k) \<and>
     (\<forall>k. v_dirs v' k \<noteq> None \<longleftrightarrow> v_dirs v k \<noteq> None \<or> on_path r ws k)"

lemma chain_all:
  assumes "chain dirs r ws" "dirs (dpath r ws) \<noteq> None" "n \<le> length ws"
  shows "dirs (dpath r (take n ws)) \<noteq> None"
proof -
  have "m \<le> length ws \<Longrightarrow> dirs (dpath r (take (length ws - m) ws)) \<noteq> None" for m
  proof (induction m)
    case (Suc m)
    then have s: "Suc (length ws - Suc m) = length ws - m" "length ws - Suc m < length ws" by simp_all
    show ?case using assms(1)[unfolded chain_def, rule_format, OF s(2)] Suc unfolding s(1) by simp
  qed (use assms in simp)
  from this[of "length ws - n"] assms(3) show ?thesis by simp
qed

lemma chain_butlast: "chain dirs r (ws @ [w]) \<Longrightarrow> chain dirs r ws"
  unfolding chain_def by (auto simp: less_Suc_eq)

lemma on_path_snoc: "on_path r (ws @ [w]) k \<longleftrightarrow> k = dpath r (ws @ [w]) \<or> on_path r ws k"
  by (auto simp: on_path_def le_Suc_eq)

lemma on_path_Nil: "on_path r [] k \<longleftrightarrow> k = dpath r []"
  by (simp add: on_path_def)

lemma on_path_plain:
  assumes "on_path r us (dpath r (us @ [w]))" "\<forall>x\<in>set (r # us @ [w]). plain x"
  shows False
proof -
  obtain n where n: "n \<le> length us" "dpath r (us @ [w]) = dpath r (take n us)" using assms(1) by (auto simp: on_path_def)
  have "us @ [w] = take n us"
    by (rule dpath_inj(2)[OF _ _ n(2)]) (use assms(2) in \<open>auto dest: in_set_takeD\<close>)
  then have "length (us @ [w]) = length (take n us)" by (rule arg_cong)
  then show False by simp
qed

lemma PutDir_path:
  assumes g: "good_services svc view" and i: "ds_inv (view s)" and nm: "names (s_mount fs) ws name"
    and d: "dir_to_save svc fs d0 name s = (fo, s1)"
  shows "\<exists>s2. PutDir svc (d_Key fo) (dirprops.truncate fo) s1 = (None, s2) \<and>
      v_dirs (view (MemCacheSet svc fo s2)) = (v_dirs (view s))(dpath (s_mount fs) ws \<mapsto> dirprops.truncate fo) \<and>
      v_files (view (MemCacheSet svc fo s2)) = v_files (view s) \<and> ds_inv (view (MemCacheSet svc fo s2))"
proof -
  have pl: "\<forall>w\<in>set (s_mount fs # ws). plain w" using nm by (simp add: names_def)
  note t = dir_to_save_names[OF g i nm d]
  obtain e s2 where p: "PutDir svc (d_Key fo) (dirprops.truncate fo) s1 = (e, s2)" by fastforce
  note P = PutDir_saved[OF g stillD(3)[OF t(1)] pl t(2) p]
  show ?thesis using p P unfolding stillD(1,2)[OF t(1)] by blast
qed

lemma saveDirByPathExt_step:
  assumes "dir_to_save svc fs d0 name s = (fo, s1)" "PutDir svc (d_Key fo) (dirprops.truncate fo) s1 = (None, s2)"
    "dirByPath svc fs (d_Dir fo) (MemCacheSet svc fo s2) = ((pr, err), s4)"
  shows "saveDirByPathExt svc fs d0 name s =
    (if err = Some ErrNoSuchEntity then do {
       ((above, err2), s5) \<leftarrow> saveDirByPathExt svc fs zero_dir (d_Dir fo) s4;
       Some ((fo, err2), s5)
     } else Some ((fo, None), s4))"
  by (subst saveDirByPathExt.simps) (simp add: assms)

lemma saveDirByPathExt_made:
  "good_services svc view \<Longrightarrow> ds_inv (view s) \<Longrightarrow> names (s_mount fs) ws name \<Longrightarrow>
   chain (v_dirs (view s)) (s_mount fs) (butlast ws) \<Longrightarrow>
   \<exists>fo s'. saveDirByPathExt svc fs d0 name s = Some ((fo, None), s') \<and> made (view s) (view s') (s_mount fs) ws \<and>
      saved_dir (s_mount fs) ws fo \<and> (d_MModTime d0 \<noteq> 0 \<longrightarrow> d_MModTime fo = d_MModTime d0) \<and>
      v_dirs (view s') (dpath (s_mount fs) ws) = Some (dirprops.truncate fo)"
proof (induction ws arbitrary: d0 name s rule: rev_induct)
  case Nil
  let ?r = "s_mount fs"
  note g = Nil(1) and i = Nil(2) and nm = Nil(3)
  obtain fo s1 where d: "dir_to_save svc fs d0 name s = (fo, s1)" by fastforce
  note t = dir_to_save_names[OF g i nm d]
  obtain s2 where p: "PutDir svc (d_Key fo) (dirprops.truncate fo) s1 = (None, s2)"
    and v: "v_dirs (view (MemCacheSet svc fo s2)) = (v_dirs (view s))(dpath ?r [] \<mapsto> dirprops.truncate fo)"
      "v_files (view (MemCacheSet svc fo s2)) = v_files (view s)" "ds_inv (view (MemCacheSet svc fo s2))"
    using PutDir_path[OF g i nm d] by blast
  have pl: "\<forall>w\<in>set (?r # []). plain w" using nm by (simp add: names_def)
  have dir: "d_Dir fo = dirkey ?r []" using t(2) by (simp add: saved_dir_def)
  obtain rr s4 where q: "dirByPath svc fs (d_Dir fo) (MemCacheSet svc fo s2) = (rr, s4)" by fastforce
  note D = dirByPath_names[OF g v(3) names_dirkey(1)[OF pl, folded dir] q]
  have "snd rr = None" using D(2) unfolding dir_found_def v(1) by simp
  then obtain pr where rr: "rr = (pr, None)" by (cases rr) auto
  have run: "saveDirByPathExt svc fs d0 name s = Some ((fo, None), s4)"
    using saveDirByPathExt_step[OF d p q[unfolded rr]] by simp
  have "v_dirs (view s4) = (v_dirs (view s))(dpath ?r [] \<mapsto> dirprops.truncate fo)" "v_files (view s4) = v_files (view s)"
    "ds_inv (view s4)" using stillD[OF D(1)] v by simp_all
  then show ?case using run t(2,3) by (auto simp: made_def on_path_Nil)
next
  case (snoc w us)
  let ?r = "s_mount fs" and ?ws = "us @ [w]"
  note g = snoc(2) and i = snoc(3) and nm = snoc(4)
  obtain fo s1 where d: "dir_to_save svc fs d0 name s = (fo, s1)" by fastforce
  note t = dir_to_save_names[OF g i nm d]
  obtain s2 where p: "PutDir svc (d_Key fo) (dirprops.truncate fo) s1 = (None, s2)"
    and v: "v_dirs (view (MemCacheSet svc fo s2)) = (v_dirs (view s))(dpath ?r ?ws \<mapsto> dirprops.truncate fo)"
      "v_files (view (MemCacheSet svc fo s2)) = v_files (view s)" "ds_inv (view (MemCacheSet svc fo s2))"
    using PutDir_path[OF g i nm d] by blast
  have plw: "\<forall>x\<in>set (?r # ?ws). plain x" using nm by (simp add: names_def)
  then have pl: "\<forall>w\<in>set (?r # us). plain w" by simp
  have off: "\<not> on_path ?r us (dpath ?r ?ws)" using on_path_plain plw by blast
  then have other: "n \<le> length us \<Longrightarrow> dpath ?r (take n us) \<noteq> dpath ?r ?ws" for n by (metis on_path_def)
  have dir: "d_Dir fo = dirkey ?r us" using t(2) by (simp add: saved_dir_def)
  obtain rr s4 where q: "dirByPath svc fs (d_Dir fo) (MemCacheSet svc fo s2) = (rr, s4)" by fastforce
  note D = dirByPath_names[OF g v(3) names_dirkey(1)[OF pl, folded dir] q]
  have v4: "v_dirs (view s4) = (v_dirs (view s))(dpath ?r ?ws \<mapsto> dirprops.truncate fo)" "v_files (view s4) = v_files (view s)"
    "ds_inv (view s4)" using stillD[OF D(1)] v by simp_all
  have ch: "chain (v_dirs (view s)) ?r us" using snoc(5) by simp
  have up: "v_dirs (view (MemCacheSet svc fo s2)) (dpath ?r us) = v_dirs (view s) (dpath ?r us)"
    using other[of "length us"] by (simp add: v(1))
  show ?case
  proof (cases "v_dirs (view s) (dpath ?r us)")
    case (Some pp)
    then have "snd rr = None" using D(2) unfolding dir_found_def up by simp
    then obtain pr where rr: "rr = (pr, None)" by (cases rr) auto
    have run: "saveDirByPathExt svc fs d0 name s = Some ((fo, None), s4)"
      using saveDirByPathExt_step[OF d p q[unfolded rr]] by simp
    have "on_path ?r us k \<Longrightarrow> v_dirs (view s) k \<noteq> None" for k
      using chain_all[OF ch] Some by (auto simp: on_path_def)
    then show ?thesis using run t(2,3) v4 by (auto simp: made_def on_path_snoc)
  next
    case None
    then have "snd rr = Some ErrNoSuchEntity" using D(2) unfolding dir_found_def up by simp
    then obtain pr where rr: "rr = (pr, Some ErrNoSuchEntity)" by (cases rr) auto
    have "chain (v_dirs (view s4)) ?r us" using ch other by (simp add: chain_def v4(1))
    then have "chain (v_dirs (view s4)) ?r (butlast us)"
      using chain_butlast[of "v_dirs (view s4)" ?r "butlast us" "last us"] by (cases "us = []") auto
    from snoc.IH[OF g v4(3) names_dirkey(1)[OF pl] this, of zero_dir] obtain above s5 where
      a: "saveDirByPathExt svc fs zero_dir (dirkey ?r us) s4 = Some ((above, None), s5)"
        "made (view s4) (view s5) ?r us" by blast
    have run: "saveDirByPathExt svc fs d0 name s = Some ((fo, None), s5)"
      using saveDirByPathExt_step[OF d p q[unfolded rr]] a(1) unfolding dir by simp
    have "v_dirs (view s4) (dpath ?r ?ws) = Some (dirprops.truncate fo)" by (simp add: v4(1))
    then have e: "v_dirs (view s5) (dpath ?r ?ws) = Some (dirprops.truncate fo)"
      using a(2) other[of "length us"] unfolding made_def by (metis option.distinct(1) order_refl take_all)
    have "made (view s) (view s5) ?r ?ws"
      unfolding made_def
    proof (intro conjI allI impI)
      show "ds_inv (view s5)" "v_files (view s5) = v_files (view s)" using a(2) v4 by (simp_all add: made_def)
      fix k
      show "v_dirs (view s5) k = v_dirs (view s) k" if k: "k \<noteq> dpath ?r ?ws \<and> v_dirs (view s) k \<noteq> None"
      proof -
        have k1: "k \<noteq> dpath ?r us" using k None by auto
        have "v_dirs (view s4) k = v_dirs (view s) k" using k by (simp add: v4(1))
        then show ?thesis using a(2) k k1 unfolding made_def by metis
      qed
      have "v_dirs (view s5) k \<noteq> None \<longleftrightarrow> v_dirs (view s4) k \<noteq> None \<or> on_path ?r us k"
        using a(2) unfolding made_def by blast
      then show "v_dirs (view s5) k \<noteq> None \<longleftrightarrow> v_dirs (view s) k \<noteq> None \<or> on_path ?r ?ws k"
        by (auto simp: v4(1) on_path_snoc)
    qed
    then show ?thesis using run t(2,3) e by blast
  qed
qed

subsection \<open>Saving and finding files\<close>

definition file_name :: "string \<Rightarrow> string list \<Rightarrow> string \<Rightarrow> bool" where
  "file_name r ws s \<longleftrightarrow> names r ws s \<and> ws \<noteq> [] \<and> \<not> HasSuffix (unbackslash s) ''/''"

definition fkey :: "string \<Rightarrow> string list \<Rightarrow> string \<times> string" where
  "fkey r ws = (dpath r (butlast ws), last ws)"

lemma file_name_SplitX:
  "file_name (s_mount fs) ws s \<Longrightarrow> ds_SplitX fs s = (dirkey (s_mount fs) (butlast ws), last ws)"
  using names_Split[of "s_mount fs" ws s] by (simp add: file_name_def ds_SplitX_def ds_RootDir_def)

lemma file_name_full:
  assumes pl: "\<forall>w\<in>set (r # ws). plain w" and ws: "ws \<noteq> []"
  shows "file_name r ws (dirkey r (butlast ws) @ last ws)"
proof -
  have s: "dirkey r (butlast ws) @ last ws = join_slash (r # ws)" by (rule join_slash_last[OF ws])
  have "CHR 0x5C \<notin> set (join_slash (r # ws))" using set_join_slash[of "r # ws"] pl by (auto simp: plain_def)
  then have u: "unbackslash (join_slash (r # ws)) = join_slash (r # ws)" by (rule unbackslash_id)
  have "plain (last ws)" using pl ws by simp
  then have "last (dirkey r (butlast ws) @ last ws) \<noteq> CHR ''/''"
    using plain_no_slash(2) plainD(1) by (metis last_appendR)
  then have "\<not> HasSuffix (join_slash (r # ws)) ''/''" unfolding s HasSuffix_single by blast
  then show ?thesis using names_dirkey(2)[OF pl] ws u unfolding file_name_def s by simp
qed

text \<open>A file that is open at its place.\<close>

definition at_place :: "string \<Rightarrow> string list \<Rightarrow> dsfile \<Rightarrow> bool" where
  "at_place r ws f \<longleftrightarrow> (\<forall>w\<in>set (r # ws). plain w) \<and> ws \<noteq> [] \<and> p_Dir f = dirkey r (butlast ws) \<and> p_BName f = last ws"

lemma at_place_splits:
  assumes "at_place (s_mount fs) ws f"
  shows "ds_SplitX fs (p_Dir f @ p_BName f) = (p_Dir f, p_BName f)" "Filify (p_BName f) = p_BName f" "p_BName f \<noteq> []"
    "\<exists>b. ds_SplitX fs (p_Dir f) = (dirkey (s_mount fs) (butlast (butlast ws)), b) \<and> Filify b = last_name (butlast ws)"
proof -
  have pl: "\<forall>w\<in>set (s_mount fs # ws). plain w" "ws \<noteq> []" "p_Dir f = dirkey (s_mount fs) (butlast ws)" "p_BName f = last ws"
    using assms by (auto simp: at_place_def)
  have w: "plain (last ws)" using pl by simp
  show "ds_SplitX fs (p_Dir f @ p_BName f) = (p_Dir f, p_BName f)"
    using file_name_SplitX[OF file_name_full[OF pl(1,2)]] pl by simp
  show "Filify (p_BName f) = p_BName f" "p_BName f \<noteq> []" using Filify_plain(1)[OF w] plainD(1)[OF w] pl(4) by simp_all
  have "\<forall>w\<in>set (s_mount fs # butlast ws). plain w" using pl by (auto dest: in_set_butlastD)
  from names_SplitX[OF names_dirkey(1)[OF this]]
  show "\<exists>b. ds_SplitX fs (p_Dir f) = (dirkey (s_mount fs) (butlast (butlast ws)), b) \<and> Filify b = last_name (butlast ws)"
    unfolding pl(3) by blast
qed

lemma dirByPath_key_any:
  assumes "ds_SplitX fs name = (dir, b)" "dirByPath svc fs name s = ((fo, None), s')"
  shows "d_Key fo = dir @ Filify b"
  using assms by (auto simp: dirByPath_def MemCacheGet_def Let_def split: prod.splits sum.splits if_splits option.splits)

lemma ds_Sync_any:
  assumes L: "service_laws svc view" and f: "at_place (s_mount fs) ws f" and y: "ds_Sync svc fs f s = ((err, f'), s')"
  shows "v_dirs (view s') = v_dirs (view s)"
    "err = None \<Longrightarrow> v_files (view s') = (v_files (view s))(fkey (s_mount fs) ws \<mapsto> fileprops.truncate f)"
    "err \<noteq> None \<Longrightarrow> v_files (view s') = v_files (view s) \<or>
       v_files (view s') = (v_files (view s))(fkey (s_mount fs) ws \<mapsto> fileprops.truncate f) \<and>
         (\<exists>s1. PutFile svc (fkey (s_mount fs) ws) (fileprops.truncate f) s1 = (err, s'))"
    "f' = f \<or> f' = f\<lparr>p_Key := fkey (s_mount fs) ws\<rparr>"
proof -
  let ?r = "s_mount fs"
  let ?put = "v_files (view s') = (v_files (view s))(fkey ?r ws \<mapsto> fileprops.truncate f)"
  let ?done = "\<exists>s1. PutFile svc (fkey ?r ws) (fileprops.truncate f) s1 = (err, s')"
  note sp = at_place_splits[OF f]
  obtain b where b: "ds_SplitX fs (p_Dir f) = (dirkey ?r (butlast (butlast ws)), b)" "Filify b = last_name (butlast ws)"
    using sp(4) by blast
  obtain fo e s1 where d: "dirByPath svc fs (p_Dir f) s = ((fo, e), s1)" by (metis surj_pair)
  note same = dirByPath_same[OF L d]
  have pl: "file_place fs f (p_Dir f @ p_BName f) = (p_Dir f, p_BName f)" by (simp add: file_place_def sp(1))
  have up: "f\<lparr>p_Dir := p_Dir f, p_BName := p_BName f\<rparr> = f" by (cases f) simp
  have "v_dirs (view s') = v_dirs (view s) \<and>
    (if err = None then ?put else v_files (view s') = v_files (view s) \<or> ?put \<and> ?done) \<and>
    (f' = f \<or> f' = f\<lparr>p_Key := fkey ?r ws\<rparr>)"
  proof (cases e)
    case (Some e')
    have "((err, f'), s') = ((Some e', f), s1)"
      using y unfolding ds_Sync_def saveFileByPath_def pl Let_def prod.case sp(2) up d Some option.case by simp
    then show ?thesis using same by (simp add: same_entities_def)
  next
    case None
    have "d_Key fo = dpath ?r (butlast ws)"
      using dirByPath_key_any[OF b(1) d[unfolded None]] unfolding b(2) dpath_split .
    then have k: "(d_Key fo, p_BName f) = fkey ?r ws" using f by (simp add: fkey_def at_place_def)
    have tr: "fileprops.truncate (f\<lparr>p_Key := fkey ?r ws\<rparr>) = fileprops.truncate f"
      by (cases f) (simp add: fileprops.defs)
    obtain e2 s2 where p: "PutFile svc (fkey ?r ws) (fileprops.truncate f) s1 = (e2, s2)" by fastforce
    have "((err, f'), s') = ((e2, f\<lparr>p_Key := fkey ?r ws\<rparr>), s2)"
      using y p unfolding ds_Sync_def saveFileByPath_def pl Let_def prod.case sp(2) up d None option.case k by (simp add: tr)
    moreover have ne: "snd (fkey ?r ws) \<noteq> []" using sp(3) f by (simp add: fkey_def at_place_def)
    note W = writesD[OF service_lawsD(6)[OF L ne, of "fileprops.truncate f"]]
    have "quiet (set_file_ds (fkey ?r ws) (Some (fileprops.truncate f)) (view s1)) (view s2)" if "e2 = None"
      by (rule W(1)[OF p[unfolded that]])
    moreover have "quiet (view s1) (view s2) \<or> quiet (set_file_ds (fkey ?r ws) (Some (fileprops.truncate f)) (view s1)) (view s2)"
      if "e2 = Some x" for x by (rule W(2)[OF p[unfolded that]])
    ultimately show ?thesis using same p by (cases e2) (auto simp: quiet_def same_entities_def set_file_ds_def)
  qed
  then show "v_dirs (view s') = v_dirs (view s)" "f' = f \<or> f' = f\<lparr>p_Key := fkey ?r ws\<rparr>"
    "err = None \<Longrightarrow> ?put" "err \<noteq> None \<Longrightarrow> v_files (view s') = v_files (view s) \<or> ?put \<and> ?done"
    by (simp_all split: if_splits)
qed

lemma ds_Sync_files:
  assumes g: "good_services svc view" and f: "at_place (s_mount fs) ws f" and y: "ds_Sync svc fs f s = ((err, f'), s')"
  shows "v_files (view s') = (if err = None then (v_files (view s))(fkey (s_mount fs) ws \<mapsto> fileprops.truncate f) else v_files (view s))"
proof -
  have L: "service_laws svc view" "healthy svc" using g by (simp_all add: good_services_def)
  show ?thesis
  proof (cases "err = None")
    case False
    from ds_Sync_any(3)[OF L(1) f y this] healthyD(6)[OF L(2)] False show ?thesis by (metis (no_types))
  qed (simp add: ds_Sync_any(2)[OF L(1) f y])
qed

lemma ds_Sync_good:
  assumes g: "good_services svc view" and i: "ds_inv (view s)" and f: "at_place (s_mount fs) ws f"
    and y: "ds_Sync svc fs f s = ((err, f'), s')"
  shows "ds_inv (view s')" "err = (if v_dirs (view s) (dpath (s_mount fs) (butlast ws)) = None then Some ErrNoSuchEntity else None)"
    "err = None \<Longrightarrow> f' = f\<lparr>p_Key := fkey (s_mount fs) ws\<rparr>"
proof -
  let ?r = "s_mount fs"
  have L: "service_laws svc view" "healthy svc" using g by (simp_all add: good_services_def)
  note sp = at_place_splits[OF f]
  have pw: "\<forall>w\<in>set (?r # ws). plain w" "p_Dir f = dirkey ?r (butlast ws)" "p_BName f = last ws" "ws \<noteq> []"
    using f by (auto simp: at_place_def)
  then have pb: "\<forall>w\<in>set (?r # butlast ws). plain w" by (auto dest: in_set_butlastD)
  obtain fo e s1 where d: "dirByPath svc fs (p_Dir f) s = ((fo, e), s1)" by (metis surj_pair)
  note D = dirByPath_names[OF g i names_dirkey(1)[OF pb, folded pw(2)] d]
  have pl: "file_place fs f (p_Dir f @ p_BName f) = (p_Dir f, p_BName f)" by (simp add: file_place_def sp(1))
  have up: "f\<lparr>p_Dir := p_Dir f, p_BName := p_BName f\<rparr> = f" by (cases f) simp
  have "ds_inv (view s') \<and> err = (if v_dirs (view s) (dpath ?r (butlast ws)) = None then Some ErrNoSuchEntity else None) \<and>
    (err = None \<longrightarrow> f' = f\<lparr>p_Key := fkey ?r ws\<rparr>)"
  proof (cases e)
    case (Some e')
    then have "v_dirs (view s) (dpath ?r (butlast ws)) = None \<and> e' = ErrNoSuchEntity"
      using D(2) by (auto simp: dir_found_def split: option.splits)
    moreover have "((err, f'), s') = ((Some e', f), s1)"
      using y unfolding ds_Sync_def saveFileByPath_def pl Let_def prod.case sp(2) up d Some option.case by simp
    ultimately show ?thesis using stillD(3)[OF D(1)] by simp
  next
    case None
    have k: "(d_Key fo, p_BName f) = fkey ?r ws" using D(2) pw by (simp add: fkey_def dir_found_def)
    have tr: "fileprops.truncate (f\<lparr>p_Key := fkey ?r ws\<rparr>) = fileprops.truncate f"
      by (cases f) (simp add: fileprops.defs)
    obtain e2 s2 where p: "PutFile svc (fkey ?r ws) (fileprops.truncate f) s1 = (e2, s2)" by fastforce
    have y2: "((err, f'), s') = ((e2, f\<lparr>p_Key := fkey ?r ws\<rparr>), s2)"
      using y p unfolding ds_Sync_def saveFileByPath_def pl Let_def prod.case sp(2) up d None option.case k by (simp add: tr)
    have n: "e2 = None" by (rule healthyD(6)[OF L(2) p])
    have "snd (fkey ?r ws) \<noteq> []" using sp(3) pw by (simp add: fkey_def)
    from writesD(1)[OF service_lawsD(6)[OF L(1) this] p[unfolded n]]
    have q: "quiet (set_file_ds (fkey ?r ws) (Some (fileprops.truncate f)) (view s1)) (view s2)" .
    have "file_placed (fkey ?r ws) (fileprops.truncate f)"
      using pw pb unfolding file_placed_def fkey_def by auto
    then have "ds_inv (set_file_ds (fkey ?r ws) (Some (fileprops.truncate f)) (view s1))"
      using stillD(3)[OF D(1)] by (auto simp: ds_inv_def set_file_ds_def)
    from stillD(3)[OF quiet_still[OF q this]] show ?thesis
      using y2 n D(2) None by (auto simp: dir_found_def split: option.splits)
  qed
  then show "ds_inv (view s')" "err = (if v_dirs (view s) (dpath ?r (butlast ws)) = None then Some ErrNoSuchEntity else None)"
    "err = None \<Longrightarrow> f' = f\<lparr>p_Key := fkey ?r ws\<rparr>" by auto
qed

lemma file_name_D:
  assumes "file_name r ws name"
  shows "\<forall>w\<in>set (r # ws). plain w" "ws \<noteq> []" "\<forall>w\<in>set (r # butlast ws). plain w" "plain (last ws)" "names r ws name"
  using assms by (auto simp: file_name_def names_def dest: in_set_butlastD)

definition file_found :: "dsview \<Rightarrow> string \<Rightarrow> string list \<Rightarrow> dsfile \<times> dserr option \<Rightarrow> bool" where
  "file_found v r ws res \<longleftrightarrow>
     (if v_dirs v (dpath r (butlast ws)) = None then snd res = Some ErrNoSuchEntity
      else case v_files v (fkey r ws) of
             None \<Rightarrow> snd res = Some ErrNoSuchEntity
           | Some p \<Rightarrow> snd res = None \<and> fst res = load_file p (zero_file\<lparr>p_Key := fkey r ws\<rparr>))"

lemma fileByPath_good:
  assumes g: "good_services svc view" and i: "ds_inv (view s)" and nm: "file_name (s_mount fs) ws name"
    and e: "fileByPath svc fs name s = (res, s')"
  shows "still (view s) (view s')" "file_found (view s) (s_mount fs) ws res"
proof -
  let ?r = "s_mount fs"
  have L: "service_laws svc view" "healthy svc" using g by (simp_all add: good_services_def)
  note n = file_name_D[OF nm] and sp = file_name_SplitX[OF nm]
  define D where "D = dirkey ?r (butlast ws)"
  obtain fo e1 s1 where d: "dirByPath svc fs D s = ((fo, e1), s1)" by (metis surj_pair)
  note F = dirByPath_names[OF g i names_dirkey(1)[OF n(3), folded D_def] d]
  have ne: "last ws \<noteq> []" using plainD(1)[OF n(4)] .
  have "still (view s) (view s') \<and> file_found (view s) ?r ws res"
  proof (cases e1)
    case (Some e')
    then have "v_dirs (view s) (dpath ?r (butlast ws)) = None \<and> e' = ErrNoSuchEntity"
      using F(2) by (auto simp: dir_found_def split: option.splits)
    then show ?thesis using e F(1) d Some ne unfolding fileByPath_def sp D_def[symmetric]
      by (auto simp: file_found_def)
  next
    case None
    then have x: "v_dirs (view s) (dpath ?r (butlast ws)) \<noteq> None" "(d_Key fo, last ws) = fkey ?r ws"
      using F(2) by (auto simp: dir_found_def fkey_def split: option.splits)
    obtain h s2 where h: "GetFile svc (fkey ?r ws) s1 = (h, s2)" by fastforce
    note G = findsD[OF service_lawsD(5)[OF L(1), of "fkey ?r ws"]]
    have s2: "still (view s) (view s2)"
      by (rule still_trans[OF F(1) quiet_still[OF G(1)[OF h] stillD(3)[OF F(1)]]])
    have r: "(res, s') = (case h of Inl e \<Rightarrow> ((zero_file\<lparr>p_Key := fkey ?r ws\<rparr>, Some e), s2)
        | Inr p \<Rightarrow> ((load_file p (zero_file\<lparr>p_Key := fkey ?r ws\<rparr>), None), s2))"
      using e h unfolding fileByPath_def sp D_def[symmetric] Let_def prod.case d None option.case x(2) by (simp add: ne split: sum.splits)
    show ?thesis
    proof (cases h)
      case (Inl e2)
      then have hn: "h = Inl ErrNoSuchEntity" using healthyD(5)[OF L(2)] h by blast
      have "v_files (view s) (fkey ?r ws) = None" "res = (zero_file\<lparr>p_Key := fkey ?r ws\<rparr>, Some ErrNoSuchEntity)" "s' = s2"
        using G(3)[OF h[unfolded hn]] r hn stillD(2)[OF F(1)] by auto
      then show ?thesis using s2 by (simp add: file_found_def)
    next
      case (Inr p)
      then have "v_files (view s) (fkey ?r ws) = Some p" "res = (load_file p (zero_file\<lparr>p_Key := fkey ?r ws\<rparr>), None)" "s' = s2"
        using G(2)[OF h[unfolded Inr]] r Inr stillD(2)[OF F(1)] by auto
      then show ?thesis using s2 x by (simp add: file_found_def)
    qed
  qed
  then show "still (view s) (view s')" "file_found (view s) ?r ws res" by blast+
qed

lemma ds_ReadFile_good:
  assumes g: "good_services svc view" and i: "ds_inv (view s)" and nm: "file_name (s_mount fs) ws name"
    and d: "v_dirs (view s) (dpath (s_mount fs) (butlast ws)) \<noteq> None" "v_files (view s) (fkey (s_mount fs) ws) = Some p"
  shows "\<exists>s'. ds_ReadFile svc fs name s = ((p_Data p, None), s') \<and> still (view s) (view s')"
proof -
  obtain f e s' where r: "fileByPath svc fs name s = ((f, e), s')" by (metis surj_pair)
  note F = fileByPath_good[OF g i nm r]
  have "e = None" "p_Data f = p_Data p" using F(2) d by (auto simp: file_found_def)
  then show ?thesis using r F(1) by (simp add: ds_ReadFile_def)
qed

lemma ds_Write_new:
  assumes "p_at f = 0" "p_Data f = []" "\<not> p_locked f" "Now svc s = (t, s')"
  shows "ds_Write svc f b s = Some (((int (length b), None), f\<lparr>p_Data := b, p_at := int (length b), p_MModTime := t\<rparr>), s')"
  using assms by (simp add: ds_Write_def Let_def slice_sub_def)

text \<open>What \<^verbatim>\<open>WriteFile\<close> saves.\<close>

lemma ds_WriteFile_Sync:
  assumes L: "service_laws svc view" and nm: "names (s_mount fs) ws name" and ws: "ws \<noteq> []"
  shows "\<exists>f s0 err f' s'. ds_WriteFile svc fs name data s = Some (err, s') \<and> ds_Sync svc fs f s0 = ((err, f'), s') \<and>
     at_place (s_mount fs) ws f \<and> p_Data f = data \<and> quiet (view s) (view s0)"
proof -
  obtain b where b: "ds_SplitX fs name = (dirkey (s_mount fs) (butlast ws), b)" "Filify b = last ws"
    using names_SplitX[OF nm] ws by (auto simp: last_name_def)
  obtain t s1 where t: "Now svc s = (t, s1)" by fastforce
  let ?f = "zero_file\<lparr>p_Dir := dirkey (s_mount fs) (butlast ws), p_BName := last ws, p_MModTime := t\<rparr>"
  obtain t2 s2 where t2: "Now svc s1 = (t2, s2)" by fastforce
  let ?g = "?f\<lparr>p_Data := data, p_at := int (length data), p_MModTime := t2\<rparr>"
  have w: "ds_Write svc ?f data s1 = Some (((int (length data), None), ?g), s2)"
    by (rule ds_Write_new[OF _ _ _ t2]) (simp_all add: zero_file_def)
  obtain err f' s' where y: "ds_Sync svc fs ?g s2 = ((err, f'), s')" by (metis surj_pair)
  have "ds_WriteFile svc fs name data s = Some (err, s')"
    using y unfolding ds_WriteFile_def b(1) Let_def prod.case t b(2) w by simp
  moreover have "at_place (s_mount fs) ws ?g" using nm ws by (simp add: at_place_def names_def)
  moreover have "quiet (view s) (view s2)"
    using readsD[OF service_lawsD(12)[OF L] t] readsD[OF service_lawsD(12)[OF L] t2] by (rule quiet_trans)
  ultimately show ?thesis using y by fastforce
qed

lemma ds_WriteFile_any:
  assumes L: "service_laws svc view" and nm: "names (s_mount fs) ws name" and ws: "ws \<noteq> []"
  shows "\<exists>err s'. ds_WriteFile svc fs name data s = Some (err, s') \<and> v_dirs (view s') = v_dirs (view s) \<and>
     (err \<noteq> None \<and> v_files (view s') = v_files (view s) \<or>
      (\<exists>p. p_Data p = data \<and> v_files (view s') = (v_files (view s))(fkey (s_mount fs) ws \<mapsto> p) \<and>
         (err = None \<or> (\<exists>s1. PutFile svc (fkey (s_mount fs) ws) p s1 = (err, s')))))"
proof -
  obtain f s0 err f' s' where w: "ds_WriteFile svc fs name data s = Some (err, s')" "ds_Sync svc fs f s0 = ((err, f'), s')"
    "at_place (s_mount fs) ws f" "p_Data f = data" "quiet (view s) (view s0)"
    using ds_WriteFile_Sync[OF L nm ws] by blast
  note A = ds_Sync_any(1-3)[OF L w(3,2)]
  have "p_Data (fileprops.truncate f) = data" using w(4) by simp
  then show ?thesis using w(1) A quietD(1,2)[OF w(5)]
    by (cases "err = None") (auto intro!: exI[of _ "fileprops.truncate f"])
qed

lemma ds_WriteFile_good:
  assumes g: "good_services svc view" and i: "ds_inv (view s)" and nm: "names (s_mount fs) ws name" and ws: "ws \<noteq> []"
  shows "\<exists>s'. ds_WriteFile svc fs name data s =
       Some (if v_dirs (view s) (dpath (s_mount fs) (butlast ws)) = None then Some ErrNoSuchEntity else None, s') \<and>
     ds_inv (view s') \<and> v_dirs (view s') = v_dirs (view s) \<and>
     (if v_dirs (view s) (dpath (s_mount fs) (butlast ws)) = None then v_files (view s') = v_files (view s)
      else \<exists>p. p_Data p = data \<and> v_files (view s') = (v_files (view s))(fkey (s_mount fs) ws \<mapsto> p))"
proof -
  have L: "service_laws svc view" using g by (simp add: good_services_def)
  obtain f s0 err f' s' where w: "ds_WriteFile svc fs name data s = Some (err, s')" "ds_Sync svc fs f s0 = ((err, f'), s')"
    "at_place (s_mount fs) ws f" "p_Data f = data" "quiet (view s) (view s0)"
    using ds_WriteFile_Sync[OF L nm ws] by blast
  note Q = quiet_still[OF w(5) i]
  note A = ds_Sync_any(1)[OF L w(3,2)] ds_Sync_files[OF g w(3,2)] and G = ds_Sync_good(1,2)[OF g stillD(3)[OF Q] w(3,2)]
  have "p_Data (fileprops.truncate f) = data" using w(4) by simp
  then show ?thesis using w(1) A G stillD(1,2)[OF Q]
    by (cases "v_dirs (view s) (dpath (s_mount fs) (butlast ws)) = None") (auto intro!: exI[of _ "fileprops.truncate f"])
qed

subsection \<open>Services that keep everything in lists\<close>

text \<open>An instance of the services: a store that never fails and whose memcache never forgets.\<close>

record store =
  st_dirs :: "(string \<times> dirprops) list"
  st_files :: "((string \<times> string) \<times> fileprops) list"
  st_cache :: "(string \<times> dirprops) list"
  st_now :: int

definition lookup :: "dserr \<Rightarrow> ('k \<times> 'p) list \<Rightarrow> 'k \<Rightarrow> dserr + 'p" where
  "lookup missing xs k = (case map_of xs k of None \<Rightarrow> Inl missing | Some p \<Rightarrow> Inr p)"

definition reliable :: "store services" where
  "reliable = \<lparr>
     GetDir = (\<lambda>k s. (lookup ErrNoSuchEntity (st_dirs s) k, s)),
     PutDir = (\<lambda>k p s. (None, s\<lparr>st_dirs := AList.update k p (st_dirs s)\<rparr>)),
     DeleteDir = (\<lambda>k s. (None, s\<lparr>st_dirs := AList.delete k (st_dirs s)\<rparr>)),
     QueryDirs = (\<lambda>q s. ((filter (\<lambda>e. answers q (d_Dir (snd e))) (AList.clearjunk (st_dirs s)), None), s)),
     GetFile = (\<lambda>k s. (lookup ErrNoSuchEntity (st_files s) k, s)),
     PutFile = (\<lambda>k p s. (None, s\<lparr>st_files := AList.update k p (st_files s)\<rparr>)),
     DeleteFile = (\<lambda>k s. (None, s\<lparr>st_files := AList.delete k (st_files s)\<rparr>)),
     QueryFiles = (\<lambda>k s. ((filter (\<lambda>e. fst (fst e) = k) (AList.clearjunk (st_files s)), None), s)),
     FileKeys = (\<lambda>s. ((map fst (AList.clearjunk (st_files s)), None), s)),
     DeleteFiles = (\<lambda>ks s. (None, s\<lparr>st_files := fold AList.delete ks (st_files s)\<rparr>)),
     DirKeys = (\<lambda>s. ((map fst (AList.clearjunk (st_dirs s)), None), s)),
     DeleteDirs = (\<lambda>ks s. (None, s\<lparr>st_dirs := fold AList.delete ks (st_dirs s)\<rparr>)),
     CacheGet = (\<lambda>k s. (lookup ErrCacheMiss (st_cache s) k, s)),
     CacheSet = (\<lambda>k p s. (None, s\<lparr>st_cache := AList.update k p (st_cache s)\<rparr>)),
     CacheDelete = (\<lambda>k s. (None, s\<lparr>st_cache := AList.delete k (st_cache s)\<rparr>)),
     CacheFlush = (\<lambda>s. (None, s\<lparr>st_cache := []\<rparr>)),
     Now = (\<lambda>s. (st_now s, s\<lparr>st_now := st_now s + 1\<rparr>))\<rparr>"

definition store_view :: "store \<Rightarrow> dsview" where
  "store_view s = \<lparr>v_dirs = map_of (st_dirs s), v_files = map_of (st_files s), v_cache = map_of (st_cache s)\<rparr>"

definition empty_store :: store where
  "empty_store = \<lparr>st_dirs = [], st_files = [], st_cache = [], st_now = 1\<rparr>"

lemma clearjunk_set: "set (AList.clearjunk xs) = {(k, p) |k p. map_of xs k = Some p}"
proof -
  have "x \<in> set (AList.clearjunk xs) \<longleftrightarrow> map_of xs (fst x) = Some (snd x)" for x
    using map_of_eq_Some_iff[OF distinct_clearjunk[of xs], of "fst x" "snd x"] by (simp add: map_of_clearjunk)
  then show ?thesis by fastforce
qed

lemma distinct_filter_keys: "distinct (map fst xs) \<Longrightarrow> distinct (map fst (filter P xs))"
  by (rule distinct_map_filter)

lemma lookup_cases: "lookup e xs k = Inr p \<longleftrightarrow> map_of xs k = Some p" "lookup e xs k = Inl e' \<longleftrightarrow> map_of xs k = None \<and> e' = e"
  by (auto simp: lookup_def split: option.splits)

lemma reliable_laws: "service_laws reliable store_view"
  unfolding service_laws_def
proof (intro conjI allI impI, goal_cases)
  case (9 s k hits s')
  then show ?case by (auto simp: reliable_def clearjunk_set store_view_def intro: distinct_filter_keys)
qed (auto simp: reliable_def finds_def reads_def writes_def store_view_def lookup_cases update_conv' delete_conv'
       set_dir_def set_file_ds_def set_cache_def clearjunk_set intro!: distinct_filter_keys)

lemma reliable_healthy: "healthy reliable"
  by (simp add: healthy_def reliable_def lookup_cases)

lemma reliable_good: "good_services reliable store_view"
  by (simp add: good_services_def reliable_laws reliable_healthy)

lemma reliable_fresh: "fresh_index reliable store_view"
  unfolding fresh_index_def
  by (auto simp: reliable_def clearjunk_set store_view_def intro: distinct_filter_keys)

lemma empty_store_inv: "ds_inv (store_view empty_store)"
  by (simp add: ds_inv_def store_view_def empty_store_def)

lemma sample_store_inv:
  "ds_inv (store_view (empty_store\<lparr>st_dirs := [(''mm/'', \<lparr>d_Dir = ''mm/'', d_BName = [], d_MModTime = 1\<rparr>)]\<rparr>))"
proof -
  have "plain ''mm''" by code_simp
  then have "dir_placed ''mm/'' \<lparr>d_Dir = ''mm/'', d_BName = [], d_MModTime = 1\<rparr>"
    unfolding dir_placed_def by (intro exI[of _ "''mm''"] exI[of _ "[]"]) (simp add: dpath_def last_name_def)
  then show ?thesis by (simp add: ds_inv_def store_view_def empty_store_def)
qed

end
