(* ===== verification/DsProps.thy ===== *)
theory DsProps
  imports DsStore
begin

section \<open>What the file system on the datastore does\<close>

text \<open>
  The properties of \<^verbatim>\<open>DsFs\<close> over the lemmas of \<^verbatim>\<open>DsStore\<close>: making directories, writing and reading whole files, with and without
  failing services, the contract of a store of named contents, open files against those of \<^verbatim>\<open>MemFile\<close>, the way from
  Create to the end of a file, listing, and the runs that show where the code falls short.
\<close>

subsection \<open>The directories stay a tree\<close>

text \<open>Every directory but the root has a parent: \<^verbatim>\<open>0_doc.go\<close> asks for it, "otherwise traversal is impossible".\<close>

definition is_tree :: "dsview \<Rightarrow> string \<Rightarrow> bool" where
  "is_tree v r \<longleftrightarrow> (\<forall>us. (\<forall>w\<in>set (r # us). plain w) \<longrightarrow> chain (v_dirs v) r us)"




subsection \<open>Properties\<close>


definition sample_fs :: dsfs where
  "sample_fs = \<lparr>s_ctx = True, s_mount = ''mm'', s_sorter = ByName\<rparr>"

lemma sample_names: "names ''mm'' [''a'', ''bc''] ''/a//bc/''" "file_name ''mm'' [''a'', ''bc'', ''f1''] ''/a//bc/f1''"
  "names ''mm'' [''a'', ''bc'', ''f1''] ''/a//bc/f1''"
  by code_simp+

lemma empty_store_tree: "is_tree (store_view empty_store) r"
  by (simp add: is_tree_def chain_def store_view_def empty_store_def)


text \<open>C17: In a file system whose services do not fail, WriteFile with any spelling of a path of plain components below the
  root saves exactly the data under exactly one key if the directory exists, and otherwise returns ErrNoSuchEntity and changes
  nothing; ReadFile with any spelling that does not end in a slash then returns the data.\<close>

theorem dsfs_write_read:
  assumes "good_services svc view" "ds_inv (view s)" "names (s_mount fs) ws name" "ws \<noteq> []"
    and "file_name (s_mount fs) ws name2"
  shows "if v_dirs (view s) (dpath (s_mount fs) (butlast ws)) = None
    then \<exists>s1. ds_WriteFile svc fs name data s = Some (Some ErrNoSuchEntity, s1) \<and> ds_inv (view s1) \<and> same_entities (view s) (view s1)
    else \<exists>s1 s2 p. ds_WriteFile svc fs name data s = Some (None, s1) \<and> ds_inv (view s1) \<and> v_dirs (view s1) = v_dirs (view s) \<and>
      p_Data p = data \<and> v_files (view s1) = (v_files (view s))(fkey (s_mount fs) ws \<mapsto> p) \<and>
      ds_ReadFile svc fs name2 s1 = ((data, None), s2) \<and> same_entities (view s1) (view s2)"
proof (cases "v_dirs (view s) (dpath (s_mount fs) (butlast ws)) = None")
  case True
  then show ?thesis using ds_WriteFile_good[OF assms(1-4), of data] by (auto simp: same_entities_def)
next
  case False
  then obtain s1 p where w: "ds_WriteFile svc fs name data s = Some (None, s1)" "ds_inv (view s1)" "v_dirs (view s1) = v_dirs (view s)"
    "p_Data p = data" "v_files (view s1) = (v_files (view s))(fkey (s_mount fs) ws \<mapsto> p)"
    using ds_WriteFile_good[OF assms(1-4), of data] by auto
  have "v_dirs (view s1) (dpath (s_mount fs) (butlast ws)) \<noteq> None" "v_files (view s1) (fkey (s_mount fs) ws) = Some p"
    using False w(3,5) by simp_all
  from ds_ReadFile_good[OF assms(1) w(2) assms(5) this] show ?thesis
    using w False by (auto simp: still_def)
qed

lemma dsfs_write_read_witness:
  "\<exists>s0 s1 s2. ds_MkdirAll reliable sample_fs ''/a//bc/'' empty_store = Some (None, s0) \<and>
     ds_WriteFile reliable sample_fs ''/a//bc/f1'' ''hello'' s0 = Some (None, s1) \<and>
     ds_ReadFile reliable sample_fs ''/a//bc/f1'' s1 = ((''hello'', None), s2)"
proof -
  have m: "s_mount sample_fs = ''mm''" by (simp add: sample_fs_def)
  have n: "names (s_mount sample_fs) [''a'', ''bc''] ''/a//bc/''" "names (s_mount sample_fs) [''a'', ''bc'', ''f1''] ''/a//bc/f1''"
    "file_name (s_mount sample_fs) [''a'', ''bc'', ''f1''] ''/a//bc/f1''" unfolding m by (rule sample_names)+
  obtain fo s0 where s0: "saveDirByPathExt reliable sample_fs zero_dir ''/a//bc/'' empty_store = Some ((fo, None), s0)"
    "made (store_view empty_store) (store_view s0) ''mm'' [''a'', ''bc'']"
    using saveDirByPathExt_made[OF reliable_good empty_store_inv n(1), of zero_dir] empty_store_tree[of "''mm''"] unfolding m
    by (auto simp: is_tree_def chain_def store_view_def empty_store_def)
  have "v_dirs (store_view s0) (dpath ''mm'' [''a'', ''bc'']) \<noteq> None"
    using s0(2) unfolding made_def on_path_def by (metis le_refl take_all)
  then have "v_dirs (store_view s0) (dpath (s_mount sample_fs) (butlast [''a'', ''bc'', ''f1''])) \<noteq> None" unfolding m by simp
  moreover have "ds_inv (store_view s0)" using s0(2) by (simp add: made_def)
  ultimately obtain s1 s2 where "ds_WriteFile reliable sample_fs ''/a//bc/f1'' ''hello'' s0 = Some (None, s1)"
    "ds_ReadFile reliable sample_fs ''/a//bc/f1'' s1 = ((''hello'', None), s2)"
    using dsfs_write_read[OF reliable_good _ n(2) _ n(3), of s0 "''hello''"] by auto
  then show ?thesis using s0(1) by (auto simp: ds_MkdirAll_def saveDirByPath_def)
qed

text \<open>C18: Whatever calls of the services fail, and in whatever they leave undone, WriteFile of a name whose first component does not
  begin with the mount point's name (or is that name) returns and changes no directory. It either changes no file and returns an
  error, or saves exactly the one file with the data; then it returns no error, or the error of the datastore's own put, which the
  store has carried out all the same. Reading changes no entity.\<close>

theorem dsfs_faults:
  assumes "service_laws svc view" "names (s_mount fs) ws name" "ws \<noteq> []"
  shows "\<exists>err s'. ds_WriteFile svc fs name data s = Some (err, s') \<and> v_dirs (view s') = v_dirs (view s) \<and>
     (err \<noteq> None \<and> v_files (view s') = v_files (view s) \<or>
      (\<exists>p. p_Data p = data \<and> v_files (view s') = (v_files (view s))(fkey (s_mount fs) ws \<mapsto> p) \<and>
         (err = None \<or> (\<exists>s1. PutFile svc (fkey (s_mount fs) ws) p s1 = (err, s'))))) \<and>
     same_entities (view s) (view (snd (ds_ReadFile svc fs name s)))"
proof -
  obtain f e s1 where r: "fileByPath svc fs name s = ((f, e), s1)" by (metis surj_pair)
  have "snd (ds_ReadFile svc fs name s) = s1" by (cases e) (simp_all add: ds_ReadFile_def r)
  then have "same_entities (view s) (view (snd (ds_ReadFile svc fs name s)))" using fileByPath_same[OF assms(1) r] by simp
  then show ?thesis using ds_WriteFile_any[OF assms, of data s] by blast
qed

text \<open>A datastore that accepts no files.\<close>

definition read_only :: "store services" where
  "read_only = reliable\<lparr>PutFile := (\<lambda>k p s. (Some (Fault ''read-only''), s))\<rparr>"

lemma read_only_laws: "service_laws read_only store_view"
  using reliable_laws unfolding service_laws_def by (simp add: read_only_def writes_def)

subsection \<open>A store of named contents\<close>

definition ds_content :: "dsview \<Rightarrow> string \<times> string \<Rightarrow> string option" where
  "ds_content v k = map_option p_Data (v_files v k)"

definition ds_name_ok :: "string \<Rightarrow> string list set \<Rightarrow> string \<Rightarrow> bool" where
  "ds_name_ok r ds name \<longleftrightarrow> (let ws = below r (comps name) in file_name r ws name \<and> butlast ws \<in> ds)"

definition ds_name_key :: "string \<Rightarrow> string \<Rightarrow> string \<times> string" where
  "ds_name_key r name = fkey r (below r (comps name))"

definition ds_put :: "'s services \<Rightarrow> dsfs \<Rightarrow> string \<Rightarrow> string \<Rightarrow> 's \<Rightarrow> 's option" where
  "ds_put svc fs name data s = (case ds_WriteFile svc fs name data s of Some (None, s') \<Rightarrow> Some s' | _ \<Rightarrow> None)"

definition ds_get :: "'s services \<Rightarrow> dsfs \<Rightarrow> string \<Rightarrow> 's \<Rightarrow> (string \<times> 's) option" where
  "ds_get svc fs name s = (case ds_ReadFile svc fs name s of ((data, None), s') \<Rightarrow> Some (data, s') | _ \<Rightarrow> None)"

definition ds_ready :: "dsview \<Rightarrow> string \<Rightarrow> string list set \<Rightarrow> bool" where
  "ds_ready v r ds \<longleftrightarrow> ds_inv v \<and> (\<forall>us\<in>ds. v_dirs v (dpath r us) \<noteq> None)"

lemma ds_named_store:
  assumes g: "good_services svc view"
  shows "named_store (\<lambda>s. ds_ready (view s) (s_mount fs) ds) (\<lambda>s. ds_content (view s)) (ds_name_key (s_mount fs))
    (ds_name_ok (s_mount fs) ds) (ds_put svc fs) (ds_get svc fs)"
proof (unfold_locales, goal_cases)
  case (1 s n d)
  let ?ws = "below (s_mount fs) (comps n)"
  have f: "file_name (s_mount fs) ?ws n" "v_dirs (view s) (dpath (s_mount fs) (butlast ?ws)) \<noteq> None" "ds_inv (view s)"
    using 1 by (auto simp: ds_name_ok_def Let_def ds_ready_def)
  obtain s' p where w: "ds_WriteFile svc fs n d s = Some (None, s')" "ds_inv (view s')" "v_dirs (view s') = v_dirs (view s)"
    "p_Data p = d" "v_files (view s') = (v_files (view s))(fkey (s_mount fs) ?ws \<mapsto> p)"
    using ds_WriteFile_good[OF g f(3) file_name_D(5,2)[OF f(1)], of d] f(2) by auto
  have "ds_ready (view s') (s_mount fs) ds" using 1 w(2,3) by (simp add: ds_ready_def)
  moreover have "ds_content (view s') = (ds_content (view s))(ds_name_key (s_mount fs) n \<mapsto> d)"
    using w(4,5) by (auto simp: ds_content_def ds_name_key_def)
  ultimately show ?case using w(1) by (auto simp: ds_put_def)
next
  case (2 s n d)
  let ?ws = "below (s_mount fs) (comps n)"
  have f: "file_name (s_mount fs) ?ws n" "v_dirs (view s) (dpath (s_mount fs) (butlast ?ws)) \<noteq> None" "ds_inv (view s)"
    using 2 by (auto simp: ds_name_ok_def Let_def ds_ready_def)
  obtain p where p: "v_files (view s) (fkey (s_mount fs) ?ws) = Some p" "p_Data p = d"
    using 2(3) by (auto simp: ds_content_def ds_name_key_def)
  obtain s' where s': "ds_ReadFile svc fs n s = ((p_Data p, None), s')" "still (view s) (view s')"
    using ds_ReadFile_good[OF g f(3,1,2) p(1)] by blast
  have "ds_ready (view s') (s_mount fs) ds" "ds_content (view s') = ds_content (view s)"
    using 2(1) stillD[OF s'(2)] by (simp_all add: ds_ready_def ds_content_def fun_eq_iff)
  then show ?case using s'(1) p(2) by (simp add: ds_get_def)
qed

text \<open>C19: After any sequence of WriteFile calls to names in directories that exist, whatever spellings they use and whatever
  memcache forgets meanwhile, every file reads back as the content written last under its key: the file system refines a
  map from keys to contents.\<close>

theorem dsfs_history:
  assumes "good_services svc view" "ds_ready (view s) (s_mount fs) ds"
    and "\<forall>(n, d)\<in>set ws. ds_name_ok (s_mount fs) ds n" "ds_name_ok (s_mount fs) ds n"
    and "map_of (rev (map (\<lambda>(n, d). (ds_name_key (s_mount fs) n, d)) ws)) (ds_name_key (s_mount fs) n) = Some d"
  shows "\<exists>s1 s2. fold (\<lambda>(n, d) st. Option.bind st (ds_put svc fs n d)) ws (Some s) = Some s1 \<and> ds_get svc fs n s1 = Some (d, s2)"
proof -
  note N = ds_named_store[OF assms(1), of fs ds]
  have none: "fold (\<lambda>(n, d) st. Option.bind st (ds_put svc fs n d)) xs None = None" for xs by (induction xs) auto
  have run: "fold (\<lambda>(n, d) st. Option.bind st (ds_put svc fs n d)) xs (Some s) = named_store.put_all (ds_put svc fs) xs s" for xs s
  proof (induction xs arbitrary: s)
    case Nil
    show ?case by (simp add: named_store.put_all.simps(1)[OF N])
  next
    case (Cons x xs)
    then show ?case
      by (cases x; cases "ds_put svc fs (fst x) (snd x) s") (auto simp: none named_store.put_all.simps(2)[OF N])
  qed
  have "\<forall>x\<in>set ws. ds_name_ok (s_mount fs) ds (fst x)" using assms(3) by auto
  from named_store.read_back[OF N assms(2) this assms(4)] show ?thesis
    using assms(5) by (simp add: run named_store.last_puts_def[OF N])
qed

lemma dsfs_history_witness:
  "\<exists>s1 s2. fold (\<lambda>(n, d) st. Option.bind st (ds_put reliable sample_fs n d))
       [(''ab'', ''one''), (''/cd'', ''two''), (''//ab'', ''three'')]
       (Some (empty_store\<lparr>st_dirs := [(''mm/'', \<lparr>d_Dir = ''mm/'', d_BName = [], d_MModTime = 1\<rparr>)]\<rparr>)) = Some s1 \<and>
     ds_get reliable sample_fs ''mm/ab'' s1 = Some (''three'', s2)"
proof -
  let ?s = "empty_store\<lparr>st_dirs := [(''mm/'', \<lparr>d_Dir = ''mm/'', d_BName = [], d_MModTime = 1\<rparr>)]\<rparr>"
  have m: "s_mount sample_fs = ''mm''" by (simp add: sample_fs_def)
  have r: "ds_ready (store_view ?s) (s_mount sample_fs) {[]}"
    using sample_store_inv by (simp add: ds_ready_def store_view_def dpath_def m)
  have o: "ds_name_ok (s_mount sample_fs) {[]} ''ab''" "ds_name_ok (s_mount sample_fs) {[]} ''/cd''"
    "ds_name_ok (s_mount sample_fs) {[]} ''//ab''" "ds_name_ok (s_mount sample_fs) {[]} ''mm/ab''" unfolding m by code_simp+
  have k: "ds_name_key (s_mount sample_fs) ''ab'' = (''mm/'', ''ab'')" "ds_name_key (s_mount sample_fs) ''/cd'' = (''mm/'', ''cd'')"
    "ds_name_key (s_mount sample_fs) ''//ab'' = (''mm/'', ''ab'')" "ds_name_key (s_mount sample_fs) ''mm/ab'' = (''mm/'', ''ab'')"
    unfolding m by code_simp+
  have w: "\<forall>(n, d)\<in>set [(''ab'', ''one''), (''/cd'', ''two''), (''//ab'', ''three'')]. ds_name_ok (s_mount sample_fs) {[]} n"
    using o by simp
  have l: "map_of (rev (map (\<lambda>(n, d). (ds_name_key (s_mount sample_fs) n, d)) [(''ab'', ''one''), (''/cd'', ''two''), (''//ab'', ''three'')]))
      (ds_name_key (s_mount sample_fs) ''mm/ab'') = Some ''three''"
    by (simp add: k)
  from dsfs_history[where svc = reliable and view = store_view and fs = sample_fs and s = ?s, OF reliable_good r w o(4) l] show ?thesis .
qed

subsection \<open>Open files\<close>

text \<open>What an open file has in common with a file of the file system in memory.\<close>

definition as_mem :: "dsfile \<Rightarrow> memfile" where
  "as_mem f = empty_file\<lparr>f_at := p_at f, f_closed := p_closed f, f_data := p_Data f\<rparr>"

definition from_mem :: "dsfile \<Rightarrow> memfile \<Rightarrow> dsfile" where
  "from_mem f m = f\<lparr>p_at := f_at m, p_closed := f_closed m, p_Data := f_data m\<rparr>"

lemma as_mem_sel [simp]: "f_at (as_mem f) = p_at f" "f_closed (as_mem f) = p_closed f" "f_data (as_mem f) = p_Data f"
  "(as_mem f)\<lparr>f_at := p_at f\<rparr> = as_mem f"
  by (simp_all add: as_mem_def)

lemma from_as_mem [simp]: "from_mem f (as_mem f) = f" "from_mem f ((as_mem f)\<lparr>f_at := a\<rparr>) = f\<lparr>p_at := a\<rparr>"
  "from_mem f ((as_mem f)\<lparr>f_data := d\<rparr>) = f\<lparr>p_Data := d\<rparr>"
  "from_mem f ((as_mem f)\<lparr>f_data := d, f_at := a\<rparr>) = f\<lparr>p_Data := d, p_at := a\<rparr>"
  by (cases f; simp add: from_mem_def as_mem_def)+

lemma ds_Read_mem:
  assumes "\<not> p_locked f" "g = f\<lparr>p_at := p_at g\<rparr>"
  shows "ds_Read g c = map_option (\<lambda>(r, b1, m). (r, b1, from_mem f m)) (Read ((as_mem f)\<lparr>f_at := p_at g\<rparr>) c)"
proof -
  have g: "p_locked g = p_locked f" "p_closed g = p_closed f" "p_Data g = p_Data f" "g\<lparr>p_at := a\<rparr> = f\<lparr>p_at := a\<rparr>" for a
    using arg_cong[OF assms(2), of p_locked] arg_cong[OF assms(2), of p_closed] arg_cong[OF assms(2), of p_Data]
      arg_cong[OF assms(2), of "\<lambda>h. h\<lparr>p_at := a\<rparr>"] by simp_all
  have "from_mem f ((as_mem f)\<lparr>f_at := p_at g\<rparr>) = g" using assms(2) by simp
  then show ?thesis using assms(1) g by (auto simp: ds_Read_def Read_def Let_def split: Option.bind_splits)
qed

lemma ds_Write_mem:
  assumes "\<not> p_locked f" "g = f\<lparr>p_at := p_at g\<rparr>"
  shows "ds_Write svc g c s = Option.bind (Write ((as_mem f)\<lparr>f_at := p_at g\<rparr>) c) (\<lambda>(r, m).
      case Now svc s of (t, s1) \<Rightarrow> Some ((r, (from_mem f m)\<lparr>p_MModTime := t\<rparr>), s1))"
proof -
  have g: "p_locked g = p_locked f" "p_Data g = p_Data f"
    "g\<lparr>p_Data := d, p_at := a, p_MModTime := t\<rparr> = f\<lparr>p_Data := d, p_at := a, p_MModTime := t\<rparr>" for a d t
    using arg_cong[OF assms(2), of p_locked] arg_cong[OF assms(2), of p_Data]
      arg_cong[OF assms(2), of "\<lambda>h. h\<lparr>p_Data := d, p_at := a, p_MModTime := t\<rparr>"] by simp_all
  show ?thesis using assms(1) by (cases "Now svc s") (simp add: ds_Write_def Write_def Let_def g)
qed

lemma close_mem: "from_mem f (snd (Close_file (as_mem f))) = f\<lparr>p_at := 0, p_closed := True\<rparr>"
  by (cases f) (simp add: from_mem_def Close_file_def as_mem_def)

text \<open>C20: An open file of dsfs that is not locked behaves like one of memfs under Read, ReadAt, Seek, Truncate, Write, WriteAt and
  WriteString: they return the same results and do the same to position and content, panics included; besides, the last four
  record the time. Close does to position and flag what it does in memfs, but then saves the file, returns the error of that
  and leaves the file locked if there was one.\<close>

theorem dsfs_file_is_memfile:
  assumes "\<not> p_locked f"
  shows "ds_Read f b = map_option (\<lambda>(r, b1, m). (r, b1, from_mem f m)) (Read (as_mem f) b) \<and>
    ds_ReadAt f b off = map_option (\<lambda>(r, b1, m). (r, b1, from_mem f m)) (ReadAt (as_mem f) b off) \<and>
    ds_Seek f off whence = (case Seek (as_mem f) off whence of (r, m) \<Rightarrow> (r, from_mem f m)) \<and>
    ds_Truncate svc f off s = (case Truncate (as_mem f) off of (e, m) \<Rightarrow>
      (if e = None then case Now svc s of (t, s1) \<Rightarrow> ((None, (from_mem f m)\<lparr>p_MModTime := t\<rparr>), s1) else ((e, f), s))) \<and>
    ds_Write svc f b s = Option.bind (Write (as_mem f) b) (\<lambda>(r, m).
      case Now svc s of (t, s1) \<Rightarrow> Some ((r, (from_mem f m)\<lparr>p_MModTime := t\<rparr>), s1)) \<and>
    ds_WriteAt svc f b off s = Option.bind (WriteAt (as_mem f) b off) (\<lambda>(r, m).
      case Now svc s of (t, s1) \<Rightarrow> Some ((r, (from_mem f m)\<lparr>p_MModTime := t\<rparr>), s1)) \<and>
    ds_WriteString svc f b s = Option.bind (WriteString (as_mem f) b) (\<lambda>(r, m).
      case Now svc s of (t, s1) \<Rightarrow> Some ((r, (from_mem f m)\<lparr>p_MModTime := t\<rparr>), s1)) \<and>
    ds_Close svc fs f s = (case ds_Sync svc fs (from_mem f (snd (Close_file (as_mem f)))) s of ((err, g), s1) \<Rightarrow>
      Some ((err, g\<lparr>p_locked := (err \<noteq> None)\<rparr>), s1))"
  unfolding close_mem
  using assms ds_Read_mem[OF assms, of f b] ds_Read_mem[OF assms, of "f\<lparr>p_at := off\<rparr>" b]
    ds_Write_mem[OF assms, of f svc b s] ds_Write_mem[OF assms, of "f\<lparr>p_at := off\<rparr>" svc b s]
  by (auto simp: ds_ReadAt_def ReadAt_def ds_WriteAt_def WriteAt_def ds_Seek_def Seek_def Let_def ds_WriteString_def WriteString_def
      ds_Truncate_def Truncate_def ds_Close_def split: prod.splits)

lemma dsfs_file_is_memfile_witness:
  "ds_Read (zero_file\<lparr>p_Data := ''abcde''\<rparr>) ''__'' = Some ((2, None), ''ab'', zero_file\<lparr>p_Data := ''abcde'', p_at := 2\<rparr>)"
proof -
  have "\<not> p_locked (zero_file\<lparr>p_Data := ''abcde''\<rparr>)" by (simp add: zero_file_def)
  moreover have "map_option (\<lambda>(r, b1, m). (r, b1, from_mem (zero_file\<lparr>p_Data := ''abcde''\<rparr>) m)) (Read (as_mem (zero_file\<lparr>p_Data := ''abcde''\<rparr>)) ''__'')
     = Some ((2, None), ''ab'', zero_file\<lparr>p_Data := ''abcde'', p_at := 2\<rparr>)" by code_simp
  ultimately show ?thesis using dsfs_file_is_memfile[of "zero_file\<lparr>p_Data := ''abcde''\<rparr>" "''__''"] by metis
qed

subsection \<open>From Create to the end of the file\<close>

fun ds_write_all :: "'s services \<Rightarrow> dsfile \<Rightarrow> string list \<Rightarrow> 's \<Rightarrow> (dsfile \<times> 's) option" where
  "ds_write_all svc f [] s = Some (f, s)"
| "ds_write_all svc f (b # bs) s = do { ((r, f1), s1) \<leftarrow> ds_Write svc f b s; ds_write_all svc f1 bs s1 }"

fun ds_read_loop :: "nat \<Rightarrow> nat \<Rightarrow> dsfile \<Rightarrow> (string \<times> dsfile) option" where
  "ds_read_loop 0 k f = None"
| "ds_read_loop (Suc fuel) k f =
     (case ds_Read f (replicate k (CHR 0x00)) of
        None \<Rightarrow> None
      | Some ((n, err), b, f') \<Rightarrow>
          (if err = Some EOF then Some ([], f')
           else do { (rest, f'') \<leftarrow> ds_read_loop fuel k f'; Some (take (nat n) b @ rest, f'') }))"

definition appendable :: "dsfile \<Rightarrow> bool" where
  "appendable f \<longleftrightarrow> \<not> p_locked f \<and> p_at f = int (length (p_Data f))"

lemma ds_write_end:
  assumes "appendable f" "Now svc s = (t, s1)"
  shows "ds_Write svc f b s = Some (((int (length b), None),
     f\<lparr>p_Data := p_Data f @ b, p_at := int (length (p_Data f @ b)), p_MModTime := t\<rparr>), s1)"
proof -
  have "f_at (as_mem f) = int (length (f_data (as_mem f)))" "\<not> p_locked f" using assms(1) by (simp_all add: appendable_def)
  from write_at_end[OF this(1), of b] ds_Write_mem[OF this(2), of f svc b s] show ?thesis by (simp add: assms(2))
qed

lemma ds_write_all_end:
  assumes L: "service_laws svc view"
  shows "appendable f \<Longrightarrow> \<exists>t f1 s1. ds_write_all svc f bs s = Some (f1, s1) \<and>
     f1 = f\<lparr>p_Data := p_Data f @ concat bs, p_at := int (length (p_Data f @ concat bs)), p_MModTime := t\<rparr> \<and> quiet (view s) (view s1)"
proof (induction bs arbitrary: f s)
  case Nil
  have "f\<lparr>p_Data := p_Data f @ concat [], p_at := int (length (p_Data f @ concat [])), p_MModTime := p_MModTime f\<rparr> = f"
    using Nil by (cases f) (simp add: appendable_def)
  then show ?case by (metis ds_write_all.simps(1) quiet_refl)
next
  case (Cons b bs)
  obtain t s1 where t: "Now svc s = (t, s1)" by fastforce
  let ?g = "f\<lparr>p_Data := p_Data f @ b, p_at := int (length (p_Data f @ b)), p_MModTime := t\<rparr>"
  have "appendable ?g" using Cons.prems by (simp add: appendable_def)
  from Cons.IH[OF this, of s1] obtain u f1 s2 where "ds_write_all svc ?g bs s1 = Some (f1, s2)"
    "f1 = ?g\<lparr>p_Data := p_Data ?g @ concat bs, p_at := int (length (p_Data ?g @ concat bs)), p_MModTime := u\<rparr>" "quiet (view s1) (view s2)"
    by blast
  then show ?case using ds_write_end[OF Cons.prems t, of b] quiet_trans[OF readsD[OF service_lawsD(12)[OF L] t]] by auto
qed

lemma ds_read_inside:
  assumes f: "\<not> p_locked f" "\<not> p_closed f" "p_at f = int p" "p < length (p_Data f)"
  shows "let m = min (length b) (length (p_Data f) - p)
         in ds_Read f b = Some ((int m, None), take m (drop p (p_Data f)) @ drop m b, f\<lparr>p_at := int (p + m)\<rparr>)"
proof -
  have e: "(as_mem f)\<lparr>f_at := int p\<rparr> = as_mem f" using as_mem_sel(4)[of f] f(3) by simp
  show ?thesis using read_inside[of "as_mem f" b] ds_Read_mem[OF f(1), of f b] f by (simp add: Let_def e)
qed

lemma ds_read_loop_rest:
  "\<not> p_locked f \<Longrightarrow> \<not> p_closed f \<Longrightarrow> p_at f = int p \<Longrightarrow> p \<le> length (p_Data f) \<Longrightarrow> 0 < k \<Longrightarrow> length (p_Data f) - p < fuel \<Longrightarrow>
   ds_read_loop fuel k f = Some (drop p (p_Data f), f\<lparr>p_at := int (length (p_Data f))\<rparr>)"
proof (induction fuel arbitrary: f p)
  case (Suc fuel)
  show ?case
  proof (cases "p = length (p_Data f)")
    case True
    then show ?thesis using Suc.prems by (simp add: ds_Read_def)
  next
    case False
    let ?m = "min k (length (p_Data f) - p)"
    have m: "0 < ?m" "p + ?m \<le> length (p_Data f)" "p < length (p_Data f)" using False Suc.prems by auto
    have rd: "ds_Read f (replicate k (CHR 0x00)) = Some ((int ?m, None),
        take ?m (drop p (p_Data f)) @ drop ?m (replicate k (CHR 0x00)), f\<lparr>p_at := int (p + ?m)\<rparr>)"
      using ds_read_inside[OF Suc.prems(1-3) m(3), of "replicate k (CHR 0x00)"] by (simp add: Let_def)
    have "ds_read_loop fuel k (f\<lparr>p_at := int (p + ?m)\<rparr>) = Some (drop (p + ?m) (p_Data f), f\<lparr>p_at := int (length (p_Data f))\<rparr>)"
      using Suc.IH[of "f\<lparr>p_at := int (p + ?m)\<rparr>" "p + ?m"] Suc.prems m by simp
    moreover have "take ?m (drop p (p_Data f)) @ drop (p + ?m) (p_Data f) = drop p (p_Data f)"
      by (metis append_take_drop_id drop_drop add.commute)
    ultimately show ?thesis using rd m(2) by simp
  qed
qed simp

lemma ds_Create_good:
  assumes g: "good_services svc view" and i: "ds_inv (view s)" and nm: "names (s_mount fs) ws name" "ws \<noteq> []"
    and d: "v_dirs (view s) (dpath (s_mount fs) (butlast ws)) \<noteq> None"
  shows "\<exists>f s1. ds_Create svc fs name s = (Inr f, s1) \<and> at_place (s_mount fs) ws f \<and> appendable f \<and> p_Data f = [] \<and>
     ds_inv (view s1) \<and> v_dirs (view s1) = v_dirs (view s)"
proof -
  have L: "service_laws svc view" using g by (simp add: good_services_def)
  obtain b where b: "ds_SplitX fs name = (dirkey (s_mount fs) (butlast ws), b)" "Filify b = last ws"
    using names_SplitX[OF nm(1)] nm(2) by (auto simp: last_name_def)
  obtain t s1 where t: "Now svc s = (t, s1)" by fastforce
  have s1: "still (view s) (view s1)" by (rule reads_still[OF service_lawsD(12)[OF L] t i])
  let ?f = "zero_file\<lparr>p_BName := last ws, p_Dir := dirkey (s_mount fs) (butlast ws), p_MModTime := t, p_MMode := 420\<rparr>"
  have at: "at_place (s_mount fs) ws ?f" using nm by (simp add: at_place_def names_def)
  obtain err f' s2 where y: "ds_Sync svc fs ?f s1 = ((err, f'), s2)" by (metis surj_pair)
  note G = ds_Sync_good[OF g stillD(3)[OF s1] at y] and A = ds_Sync_any(1)[OF L at y]
  have e: "err = None" using G(2) d stillD(1)[OF s1] by simp
  have "ds_Create svc fs name s = (Inr f', s2)"
    unfolding ds_Create_def b(1) Let_def prod.case t b(2) y e by simp
  moreover have "f' = ?f\<lparr>p_Key := fkey (s_mount fs) ws\<rparr>" by (rule G(3)[OF e])
  then have "at_place (s_mount fs) ws f'" "appendable f'" "p_Data f' = []"
    using at by (simp_all add: at_place_def appendable_def zero_file_def)
  ultimately show ?thesis using G(1) A stillD(1)[OF s1] by auto
qed

lemma ds_Open_file:
  assumes g: "good_services svc view" and i: "ds_inv (view s)" and nm: "file_name (s_mount fs) ws name"
    and d: "v_dirs (view s) (dpath (s_mount fs) (butlast ws)) \<noteq> None" "v_files (view s) (fkey (s_mount fs) ws) = Some p"
  shows "\<exists>f s1. ds_Open svc fs name s = (Inr (OpenFile_h f), s1) \<and> \<not> p_locked f \<and> \<not> p_closed f \<and> p_at f = 0 \<and> p_Data f = p_Data p \<and>
     still (view s) (view s1)"
proof -
  obtain f e s1 where r: "fileByPath svc fs name s = ((f, e), s1)" by (metis surj_pair)
  note F = fileByPath_good[OF g i nm r]
  have e: "e = None" "f = load_file p (zero_file\<lparr>p_Key := fkey (s_mount fs) ws\<rparr>)" using F(2) d by (auto simp: file_found_def)
  have "\<not> HasSuffix (last ws) ''/''" by (rule plain_no_slash(1)[OF file_name_D(4)[OF nm]])
  then have "ds_Open svc fs name s = (Inr (OpenFile_h (f\<lparr>p_at := 0, p_closed := False\<rparr>)), s1)"
    unfolding ds_Open_def file_name_SplitX[OF nm] by (simp add: open_file_or_dir_def r e(1))
  then show ?thesis using F(1) e(2) by (auto simp: zero_file_def)
qed

text \<open>C21: Create a file under any spelling of its path in a directory that exists, write chunks, close it: opened again under
  any spelling that does not end in a slash, it reads back as the concatenation of the chunks, followed by EOF, with buffers of
  any positive size; no step returns an error, and more rounds than bytes are enough.\<close>

theorem dsfs_roundtrip:
  assumes "good_services svc view" "ds_inv (view s)" "names (s_mount fs) ws name" "ws \<noteq> []"
    and "v_dirs (view s) (dpath (s_mount fs) (butlast ws)) \<noteq> None" "file_name (s_mount fs) ws name2"
    and "0 < k" "length (concat bs) < fuel"
  shows "\<exists>f0 s0 f1 s1 f2 s2 f3 s3 f4. ds_Create svc fs name s = (Inr f0, s0) \<and> ds_write_all svc f0 bs s0 = Some (f1, s1) \<and>
    ds_Close svc fs f1 s1 = Some ((None, f2), s2) \<and> ds_Open svc fs name2 s2 = (Inr (OpenFile_h f3), s3) \<and>
    ds_read_loop fuel k f3 = Some (concat bs, f4)"
proof -
  let ?r = "s_mount fs"
  have L: "service_laws svc view" using assms(1) by (simp add: good_services_def)
  obtain f0 s0 where c: "ds_Create svc fs name s = (Inr f0, s0)" "at_place ?r ws f0" "appendable f0" "p_Data f0 = []"
    "ds_inv (view s0)" "v_dirs (view s0) = v_dirs (view s)" using ds_Create_good[OF assms(1-5)] by blast
  obtain t f1 s1 where w: "ds_write_all svc f0 bs s0 = Some (f1, s1)" "quiet (view s0) (view s1)"
    "f1 = f0\<lparr>p_Data := p_Data f0 @ concat bs, p_at := int (length (p_Data f0 @ concat bs)), p_MModTime := t\<rparr>"
    using ds_write_all_end[OF L c(3)] by blast
  let ?f = "f1\<lparr>p_at := 0, p_closed := True\<rparr>"
  have f: "at_place ?r ws ?f" "p_Data ?f = concat bs" "\<not> p_locked f1" using c(2-4) w(3) by (simp_all add: at_place_def appendable_def)
  have s1: "still (view s0) (view s1)" by (rule quiet_still[OF w(2) c(5)])
  obtain err f2 s2 where y: "ds_Sync svc fs ?f s1 = ((err, f2), s2)" by (metis surj_pair)
  note G = ds_Sync_good[OF assms(1) stillD(3)[OF s1] f(1) y] and A = ds_Sync_any(1)[OF L f(1) y] ds_Sync_files[OF assms(1) f(1) y]
  have dirs: "v_dirs (view s1) = v_dirs (view s)" using c(6) stillD(1)[OF s1] by simp
  have e: "err = None" using G(2) assms(5) dirs by simp
  have cl: "ds_Close svc fs f1 s1 = Some ((None, f2\<lparr>p_locked := False\<rparr>), s2)" using f(3) y e by (simp add: ds_Close_def)
  have "v_dirs (view s2) (dpath ?r (butlast ws)) \<noteq> None" "v_files (view s2) (fkey ?r ws) = Some (fileprops.truncate ?f)"
    using A e assms(5) dirs by simp_all
  from ds_Open_file[OF assms(1) G(1) assms(6) this] obtain f3 s3 where o: "ds_Open svc fs name2 s2 = (Inr (OpenFile_h f3), s3)"
    "\<not> p_locked f3" "\<not> p_closed f3" "p_at f3 = 0" "p_Data f3 = concat bs" using f(2) by auto
  have "ds_read_loop fuel k f3 = Some (drop 0 (p_Data f3), f3\<lparr>p_at := int (length (p_Data f3))\<rparr>)"
    by (rule ds_read_loop_rest) (use o assms(7,8) in simp_all)
  then show ?thesis using c(1) w(1) cl o(1,5) by auto
qed

lemma dsfs_roundtrip_witness:
  "\<exists>f0 s0 f1 s1 f2 s2 f3 s3 f4. ds_Create reliable sample_fs ''/ab'' (empty_store\<lparr>st_dirs := [(''mm/'', \<lparr>d_Dir = ''mm/'', d_BName = [], d_MModTime = 1\<rparr>)]\<rparr>)
       = (Inr f0, s0) \<and>
    ds_write_all reliable f0 [''ab'', [], ''cde''] s0 = Some (f1, s1) \<and> ds_Close reliable sample_fs f1 s1 = Some ((None, f2), s2) \<and>
    ds_Open reliable sample_fs ''mm//ab'' s2 = (Inr (OpenFile_h f3), s3) \<and> ds_read_loop 6 2 f3 = Some (''abcde'', f4)"
proof -
  let ?s = "empty_store\<lparr>st_dirs := [(''mm/'', \<lparr>d_Dir = ''mm/'', d_BName = [], d_MModTime = 1\<rparr>)]\<rparr>"
  have m: "s_mount sample_fs = ''mm''" by (simp add: sample_fs_def)
  have n: "names (s_mount sample_fs) [''ab''] ''/ab''" "file_name (s_mount sample_fs) [''ab''] ''mm//ab''" unfolding m by code_simp+
  have "v_dirs (store_view ?s) (dpath (s_mount sample_fs) (butlast [''ab''])) \<noteq> None" unfolding m by (simp add: store_view_def dpath_def)
  from dsfs_roundtrip[where svc = reliable and view = store_view and fs = sample_fs and s = ?s and k = 2 and fuel = 6 and bs = "[''ab'', [], ''cde'']",
      OF reliable_good sample_store_inv n(1) _ this n(2)]
  show ?thesis by (simp only: list.distinct concat.simps append.simps list.size) simp
qed

subsection \<open>Listing a directory\<close>

lemma last_index_None: "last_index k xs = None \<longleftrightarrow> k \<notin> d_Key ` set xs"
  and last_index_Some: "last_index k xs = Some i \<Longrightarrow> i < length xs \<and> d_Key (xs ! i) = k"
proof -
  have "n \<le> length xs \<Longrightarrow>
      (fold (\<lambda>i idx. if d_Key (xs ! i) = k then Some i else idx) [0..<n] None = None \<longleftrightarrow> (\<forall>i<n. d_Key (xs ! i) \<noteq> k)) \<and>
      (\<forall>i. fold (\<lambda>i idx. if d_Key (xs ! i) = k then Some i else idx) [0..<n] None = Some i \<longrightarrow> i < n \<and> d_Key (xs ! i) = k)" for n
    by (induction n) (auto simp: less_Suc_eq)
  note F = this[of "length xs"]
  have "k \<notin> d_Key ` set xs \<longleftrightarrow> (\<forall>i<length xs. d_Key (xs ! i) \<noteq> k)" by (force simp: in_set_conv_nth)
  with F show "last_index k xs = None \<longleftrightarrow> k \<notin> d_Key ` set xs"
    "last_index k xs = Some i \<Longrightarrow> i < length xs \<and> d_Key (xs ! i) = k"
    unfolding last_index_def by blast+
qed

lemma drop_root_filter:
  assumes "distinct (map d_Key xs)"
  shows "drop_root k xs = filter (\<lambda>d. d_Key d \<noteq> k) xs"
proof (cases "last_index k xs")
  case None
  then have "k \<notin> d_Key ` set xs" using last_index_None by blast
  then have "filter (\<lambda>d. d_Key d \<noteq> k) xs = xs" by (auto simp: filter_id_conv)
  then show ?thesis by (simp add: drop_root_def None)
next
  case (Some i)
  note i = last_index_Some[OF Some]
  have x: "xs = take i xs @ xs ! i # drop (Suc i) xs" using i id_take_nth_drop by blast
  have d: "distinct (map d_Key (take i xs @ xs ! i # drop (Suc i) xs))" using assms unfolding x[symmetric] .
  then have "d_Key (xs ! i) \<notin> d_Key ` set (take i xs)" "d_Key (xs ! i) \<notin> d_Key ` set (drop (Suc i) xs)" by simp_all
  then have "\<forall>y\<in>set (take i xs) \<union> set (drop (Suc i) xs). d_Key y \<noteq> k" using i by (metis UnE image_eqI)
  then have "filter (\<lambda>d. d_Key d \<noteq> k) (take i xs) = take i xs" "filter (\<lambda>d. d_Key d \<noteq> k) (drop (Suc i) xs) = drop (Suc i) xs"
    by (auto simp: filter_id_conv)
  then have "filter (\<lambda>d. d_Key d \<noteq> k) (take i xs @ xs ! i # drop (Suc i) xs) = take i xs @ drop (Suc i) xs" using i by simp
  then show ?thesis using x Some by (simp add: drop_root_def)
qed

lemma dirkey_inj:
  assumes "\<forall>w\<in>set (r # ws). plain w" "\<forall>w\<in>set (r' # ws'). plain w" "dirkey r ws = dirkey r' ws'"
  shows "r = r'" "ws = ws'"
proof -
  have 1: "comps (dirkey r ws) = r # ws" by (rule spelled_comps) (use assms(1) in \<open>simp add: spelled_def\<close>)
  have 2: "comps (dirkey r' ws') = r' # ws'" by (rule spelled_comps) (use assms(2) in \<open>simp add: spelled_def\<close>)
  have "r # ws = comps (dirkey r' ws')" using 1 unfolding assms(3) by (rule sym)
  also have "\<dots> = r' # ws'" by (rule 2)
  finally have "r # ws = r' # ws'" .
  then show "r = r'" "ws = ws'" by blast+
qed

text \<open>The entities whose directory is \<open>ws\<close>: its subdirectories and, for the root, the root itself.\<close>

lemma children_of:
  assumes i: "ds_inv v" and pl: "\<forall>w\<in>set (r # ws). plain w" and e: "v_dirs v k = Some p" "d_Dir p = dirkey r ws"
  shows "k = dpath r [] \<and> ws = [] \<or> (\<exists>w. plain w \<and> k = dpath r (ws @ [w]) \<and> d_BName p = w)"
proof -
  obtain r' us where u: "\<forall>w\<in>set (r' # us). plain w" "k = dpath r' us" "d_Dir p = dirkey r' (butlast us)" "d_BName p = last_name us"
    using i e(1) unfolding ds_inv_def dir_placed_def by blast
  have "\<forall>w\<in>set (r' # butlast us). plain w" using u(1) by (auto dest: in_set_butlastD)
  from dirkey_inj[OF this pl] have "r' = r" "butlast us = ws" using u(3) e(2) by simp_all
  then show ?thesis using u by (cases us rule: rev_cases) (auto simp: last_name_def)
qed

lemma child_entity:
  assumes i: "ds_inv v" and pl: "\<forall>w\<in>set (r # ws). plain w" "plain w" and e: "v_dirs v (dpath r (ws @ [w])) = Some p"
  shows "d_Dir p = dirkey r ws" "d_BName p = w" "dpath r (ws @ [w]) \<noteq> dpath r []"
proof -
  obtain r' us where u: "\<forall>w\<in>set (r' # us). plain w" "dpath r (ws @ [w]) = dpath r' us" "d_Dir p = dirkey r' (butlast us)" "d_BName p = last_name us"
    using i e unfolding ds_inv_def dir_placed_def by blast
  have pw: "\<forall>x\<in>set (r # ws @ [w]). plain x" using pl by simp
  note j = dpath_inj[OF pw u(1,2)]
  show "d_Dir p = dirkey r ws" "d_BName p = w" using u(3,4) unfolding j[symmetric] by (simp_all add: last_name_def)
  have "\<forall>x\<in>set (r # []). plain x" using pl by simp
  from dpath_inj(2)[OF pw this] show "dpath r (ws @ [w]) \<noteq> dpath r []" by blast
qed

lemma names_again: "names (s_mount fs) ws name \<Longrightarrow> ds_SplitX fs name = (d, b) \<Longrightarrow> names (s_mount fs) ws (d @ b)"
  by (rule spelled_names) (rule names_full(1), auto simp: ds_SplitX_def ds_RootDir_def)

lemma query_name:
  assumes "\<forall>w\<in>set (r # ws). plain w"
  shows "(if HasSuffix (dpath r ws) ''/'' then dpath r ws else dpath r ws @ ''/'') = dirkey r ws"
proof (cases "ws = []")
  case False
  have "last (dirkey r (butlast ws) @ last ws) \<noteq> CHR ''/''"
    using plain_no_slash(2)[of "last ws"] plainD(1)[of "last ws"] assms False by (metis last_appendR last_in_set list.set_intros(2))
  then have "\<not> HasSuffix (join_slash (r # ws)) ''/''" unfolding join_slash_last[OF False, of r] HasSuffix_single by blast
  then show ?thesis using False by (simp add: dpath_def)
qed (simp add: dpath_def)

lemma SubtreeByPath_children:
  assumes g: "good_services svc view" and fr: "fresh_index svc view" and i: "ds_inv (view s)" and nm: "names (s_mount fs) ws name"
  shows "\<exists>ds err s'. SubtreeByPath svc fs name True s = Some ((ds, err), s') \<and> (err = None \<or> err = Some ErrEmptyQuery) \<and>
     still (view s) (view s') \<and> distinct (map d_BName ds) \<and>
     set (map d_BName ds) = {w. plain w \<and> v_dirs (view s) (dpath (s_mount fs) (ws @ [w])) \<noteq> None}"
proof -
  let ?r = "s_mount fs"
  have L: "service_laws svc view" "healthy svc" using g by (simp_all add: good_services_def)
  have pl: "\<forall>w\<in>set (?r # ws). plain w" using nm by (simp add: names_def)
  define D where "D = dirkey ?r (butlast ws)"
  obtain b where b: "ds_SplitX fs name = (D, b)" "Filify b = last_name ws" using names_SplitX[OF nm] unfolding D_def by blast
  have k: "D @ Filify b = dpath ?r ws" unfolding D_def b(2) by (rule dpath_split)
  obtain hits e s' where q: "QueryDirs svc (DirEquals (dirkey ?r ws)) s = ((hits, e), s')" by (metis surj_pair)
  have e: "e = None" by (rule healthyD(4)[OF L(2) q])
  have s': "still (view s) (view s')" by (rule reads_still[OF service_lawsD(4)[OF L(1)] q i])
  have dist: "distinct (map fst hits)"
    and set: "set hits = {(k, p) |k p. v_dirs (view s) k = Some p \<and> d_Dir p = dirkey ?r ws}"
    using fr[unfolded fresh_index_def, rule_format, of "DirEquals (dirkey ?r ws)" s] unfolding q fst_conv answers.simps by blast+
  let ?xs = "map (\<lambda>(k, p). (load_dir p zero_dir)\<lparr>d_Key := k\<rparr>) hits"
  have root: "ds_RootDir fs = dpath ?r []" by (simp add: ds_RootDir_def dpath_def)
  have keys: "map d_Key ?xs = map fst hits" by (simp add: case_prod_beta)
  have run: "SubtreeByPath svc fs name True s =
      Some (if hits = [] then (([], Some ErrEmptyQuery), s') else ((drop_root (dpath ?r []) ?xs, None), s'))"
    unfolding SubtreeByPath_def b(1) Let_def prod.case k query_name[OF pl] subtree_query_def if_True
    by (simp add: q e root)
  let ?ys = "filter (\<lambda>d. d_Key d \<noteq> dpath ?r []) ?xs"
  have ys: "drop_root (dpath ?r []) ?xs = ?ys" by (rule drop_root_filter) (simp only: keys dist)
  have sub: "\<exists>w. plain w \<and> d_Key y = dpath ?r (ws @ [w]) \<and> d_BName y = w \<and> v_dirs (view s) (d_Key y) \<noteq> None" if y_in: "y \<in> set ?ys" for y
  proof -
    obtain k p where y: "(k, p) \<in> set hits" "y = (load_dir p zero_dir)\<lparr>d_Key := k\<rparr>" "k \<noteq> dpath ?r []" using y_in by auto
    have "v_dirs (view s) k = Some p" "d_Dir p = dirkey ?r ws" using y(1) set by auto
    from children_of[OF i pl this] y show ?thesis using \<open>v_dirs (view s) k = Some p\<close> by auto
  qed
  have sup: "w \<in> set (map d_BName ?ys)" if w: "plain w" "v_dirs (view s) (dpath ?r (ws @ [w])) \<noteq> None" for w
  proof -
    obtain p where p: "v_dirs (view s) (dpath ?r (ws @ [w])) = Some p" using w(2) by blast
    note c = child_entity[OF i pl w(1) p]
    let ?y = "(load_dir p zero_dir)\<lparr>d_Key := dpath ?r (ws @ [w])\<rparr>"
    have "(dpath ?r (ws @ [w]), p) \<in> set hits" using set p c(1) by blast
    then have "(\<lambda>(k, p). (load_dir p zero_dir)\<lparr>d_Key := k\<rparr>) (dpath ?r (ws @ [w]), p) \<in> set ?xs"
      unfolding list.set_map by (rule imageI)
    then have "?y \<in> set ?xs" by simp
    moreover have "d_Key ?y \<noteq> dpath ?r []" using c(3) by simp
    ultimately have "?y \<in> set ?ys" unfolding set_filter by blast
    then have "d_BName ?y \<in> set (map d_BName ?ys)" unfolding list.set_map by (rule imageI)
    then show ?thesis using c(2) by simp
  qed
  have "inj_on d_BName (set ?ys)"
  proof (rule inj_onI)
    fix x y assume x: "x \<in> set ?ys" "y \<in> set ?ys" "d_BName x = d_BName y"
    then have "d_Key x = d_Key y" using sub[OF x(1)] sub[OF x(2)] by auto
    moreover have "inj_on d_Key (set ?xs)" using dist unfolding keys[symmetric] distinct_map by blast
    ultimately show "x = y" using x(1,2) by (auto dest!: inj_onD)
  qed
  moreover have "distinct ?xs" using dist unfolding keys[symmetric] distinct_map by blast
  then have "distinct ?ys" by (rule distinct_filter)
  ultimately have dn: "distinct (map d_BName ?ys)" by (simp only: distinct_map)
  have sn: "set (map d_BName ?ys) = {w. plain w \<and> v_dirs (view s) (dpath ?r (ws @ [w])) \<noteq> None}"
  proof (intro subset_antisym subsetI CollectI)
    fix w assume "w \<in> set (map d_BName ?ys)"
    then obtain y where y: "y \<in> set ?ys" "w = d_BName y" unfolding list.set_map by (rule imageE)
    from sub[OF y(1)] y(2) show "plain w \<and> v_dirs (view s) (dpath ?r (ws @ [w])) \<noteq> None" by metis
  next
    fix w assume "w \<in> {w. plain w \<and> v_dirs (view s) (dpath ?r (ws @ [w])) \<noteq> None}"
    then show "w \<in> set (map d_BName ?ys)" using sup unfolding mem_Collect_eq by blast
  qed
  show ?thesis
  proof (cases "hits = []")
    case True
    then show ?thesis using run s' sn by (intro exI[of _ "[]"] exI[of _ "Some ErrEmptyQuery"] exI[of _ s']) simp
  next
    case False
    then show ?thesis using run s' sn dn unfolding ys by (intro exI[of _ ?ys] exI[of _ None] exI[of _ s']) simp
  qed
qed

lemma filesByPath_files:
  assumes g: "good_services svc view" and i: "ds_inv (view s)" and nm: "names (s_mount fs) ws name"
    and d: "v_dirs (view s) (dpath (s_mount fs) ws) \<noteq> None"
  shows "\<exists>fl s'. filesByPath svc fs name s = ((filesorter fs fl, None), s') \<and> still (view s) (view s') \<and>
     distinct (map p_BName fl) \<and> set (map p_BName fl) = {b. v_files (view s) (dpath (s_mount fs) ws, b) \<noteq> None}"
proof -
  let ?r = "s_mount fs"
  have L: "service_laws svc view" "healthy svc" using g by (simp_all add: good_services_def)
  have pl: "\<forall>w\<in>set (?r # ws). plain w" using nm by (simp add: names_def)
  define D where "D = dirkey ?r (butlast ws)"
  obtain b where b: "ds_SplitX fs name = (D, b)" "Filify b = last_name ws" using names_SplitX[OF nm] unfolding D_def by blast
  have k: "D @ Filify b = dpath ?r ws" unfolding D_def b(2) by (rule dpath_split)
  obtain fo e s1 where r: "dirByPath svc fs (dpath ?r ws) s = ((fo, e), s1)" by (metis surj_pair)
  note F = dirByPath_names[OF g i names_dirkey(3)[OF pl] r]
  have e: "e = None" "d_Key fo = dpath ?r ws" using F(2) d by (auto simp: dir_found_def)
  obtain hits e2 s2 where q: "QueryFiles svc (dpath ?r ws) s1 = ((hits, e2), s2)" by (metis surj_pair)
  have e2: "e2 = None" by (rule healthyD(8)[OF L(2) q])
  note H = QueryFiles_hits[OF L(1) q[unfolded e2]]
  have s2: "still (view s) (view s2)"
    by (rule still_trans[OF F(1) reads_still[OF service_lawsD(8)[OF L(1)] q stillD(3)[OF F(1)]]])
  let ?fl = "map (\<lambda>(k, p). (load_file p zero_file)\<lparr>p_Key := k\<rparr>) hits"
  have run: "filesByPath svc fs name s = ((filesorter fs ?fl, None), s2)"
    unfolding filesByPath_def b(1) Let_def prod.case k r e(1) by (simp add: e(2) q e2)
  have at: "p_BName p = snd k \<and> fst k = dpath ?r ws \<and> v_files (view s) k = Some p" if kp: "(k, p) \<in> set hits" for k p
  proof -
    have "fst k = dpath ?r ws" "v_files (view s) k = Some p" using kp H(2) stillD(2)[OF F(1)] by auto
    then show ?thesis using i unfolding ds_inv_def file_placed_def by blast
  qed
  have nms: "map p_BName ?fl = map (snd \<circ> fst) hits" using at by auto
  have "inj_on (snd \<circ> fst) (set hits)"
  proof (rule inj_onI)
    fix x y assume x: "x \<in> set hits" "y \<in> set hits" "(snd \<circ> fst) x = (snd \<circ> fst) y"
    have "fst x = fst y" using at[of "fst x" "snd x"] at[of "fst y" "snd y"] x by (simp add: prod_eq_iff)
    then show "x = y" using H(1) x(1,2) by (metis eq_key_imp_eq_value prod.collapse)
  qed
  moreover have "distinct hits" using H(1) by (simp add: distinct_map)
  ultimately have "distinct (map p_BName ?fl)" unfolding nms by (simp add: distinct_map)
  moreover have "set (map p_BName ?fl) = {b. v_files (view s) (dpath ?r ws, b) \<noteq> None}"
    unfolding nms using H(2) stillD(2)[OF F(1)] by force
  ultimately show ?thesis using run s2 by blast
qed

lemma sort_key_sorted: "sorted (map f ys) \<Longrightarrow> sort_key f ys = ys"
  by (induction ys) (simp_all add: insort_is_Cons)

lemma sort_key_again: "sort_key f (sort_key f ys) = sort_key f ys"
  by (rule sort_key_sorted[OF sorted_sort_key])

lemma map_insort: "map f (insort_key f y ys) = insort (f y) (map f ys)"
  by (induction ys) auto

lemma map_sort: "map f (sort_key f ys) = sort (map f ys)"
  by (induction ys) (simp_all add: map_insort)

lemma sorter_names:
  assumes "s_sorter fs = ByName"
  shows "map d_BName ds = map info_Name (map InfoDir ds)" "map info_Name (dirsorter fs xs) = sort (map info_Name xs)"
    "map p_BName (filesorter fs fl) = sort (map p_BName fl)" "filesorter fs (filesorter fs fl) = filesorter fs fl"
    "dirsorter fs (dirsorter fs xs) = dirsorter fs xs" "set (dirsorter fs xs) = set xs"
  using assms by (simp_all add: dirsorter_def filesorter_def map_sort sort_key_again)

text \<open>C22: With services that do not fail and an index that is up to date, ReadDir of a directory returns no error and
  changes nothing: first its subdirectories, then its files, each exactly once and in the order of their names; the mount point
  is not listed as an entry of itself.\<close>

theorem dsfs_read_dir:
  assumes "good_services svc view" "fresh_index svc view" "ds_inv (view s)" "names (s_mount fs) ws name" "s_sorter fs = ByName"
    and "v_dirs (view s) (dpath (s_mount fs) ws) \<noteq> None"
  shows "\<exists>dirs files s'. ds_ReadDir svc fs name s = Some ((dirs @ files, None), s') \<and> still (view s) (view s') \<and>
    list_all info_IsDir dirs \<and> \<not> list_ex info_IsDir files \<and>
    map info_Name dirs = sorted_list_of_set {w. plain w \<and> v_dirs (view s) (dpath (s_mount fs) (ws @ [w])) \<noteq> None} \<and>
    map info_Name files = sorted_list_of_set {b. v_files (view s) (dpath (s_mount fs) ws, b) \<noteq> None}"
proof -
  let ?r = "s_mount fs"
  obtain b where b: "ds_SplitX fs name = (dirkey ?r (butlast ws), b)" using names_SplitX[OF assms(4)] by blast
  from SubtreeByPath_children[OF assms(1-3) names_again[OF assms(4) b]] obtain ds err s1 where
    D: "SubtreeByPath svc fs (dirkey ?r (butlast ws) @ b) True s = Some ((ds, err), s1)" "err = None \<or> err = Some ErrEmptyQuery"
      "still (view s) (view s1)" "distinct (map d_BName ds)"
      "set (map d_BName ds) = {w. plain w \<and> v_dirs (view s) (dpath ?r (ws @ [w])) \<noteq> None}" by blast
  have "v_dirs (view s1) (dpath ?r ws) \<noteq> None" using assms(6) stillD(1)[OF D(3)] by simp
  from filesByPath_files[OF assms(1) stillD(3)[OF D(3)] assms(4) this] obtain fl s2 where
    F: "filesByPath svc fs name s1 = ((filesorter fs fl, None), s2)" "still (view s1) (view s2)" "distinct (map p_BName fl)"
      "set (map p_BName fl) = {b. v_files (view s) (dpath ?r ws, b) \<noteq> None}"
    unfolding stillD(2)[OF D(3)] by blast
  note sn = sorter_names[OF assms(5)]
  let ?dirs = "dirsorter fs (map InfoDir ds)" and ?files = "map InfoFile (filesorter fs fl)"
  have "dirsByPath svc fs name s = Some ((?dirs, err), s1)" unfolding dirsByPath_def b Let_def prod.case D(1) by simp
  then have run: "ds_ReadDir svc fs name s = Some ((?dirs @ ?files, None), s2)"
    using D(2) F(1) by (auto simp: ds_ReadDir_def sn(4,5))
  have "list_all info_IsDir ?dirs" "\<not> list_ex info_IsDir ?files" by (auto simp: list_all_iff list_ex_iff sn(6))
  moreover have "map info_Name ?dirs = sorted_list_of_set (set (map d_BName ds))"
    unfolding sn(2) sn(1)[symmetric] using D(4) by (simp only: sorted_list_of_set_sort_remdups distinct_remdups_id)
  moreover have "map info_Name ?files = sorted_list_of_set (set (map p_BName fl))"
    using F(3) sn(3)[of fl] by (simp only: sorted_list_of_set_sort_remdups distinct_remdups_id map_map comp_def info_Name.simps)
  ultimately show ?thesis using run still_trans[OF D(3) F(2)] unfolding D(5) F(4) by blast
qed

definition sample_dir :: "string \<Rightarrow> string \<Rightarrow> string \<times> dirprops" where
  "sample_dir dir b = (dir @ b, \<lparr>d_Dir = dir, d_BName = b, d_MModTime = 1\<rparr>)"

definition sample_file :: "string \<Rightarrow> string \<Rightarrow> string \<Rightarrow> (string \<times> string) \<times> fileprops" where
  "sample_file key b data = ((key, b), \<lparr>p_Dir = (if last key = CHR ''/'' then key else key @ ''/''), p_BName = b, p_MModTime = 1, p_Data = data\<rparr>)"

definition sample_store :: store where
  "sample_store = empty_store\<lparr>
     st_dirs := [sample_dir ''mm/'' [], sample_dir ''mm/'' ''cd'', sample_dir ''mm/'' ''ab'', sample_dir ''mm/ab/'' ''ef''],
     st_files := [sample_file ''mm/'' ''b.txt'' ''two'', sample_file ''mm/'' ''a.txt'' ''one'', sample_file ''mm/ab'' ''c.txt'' ''three'']\<rparr>"

lemma sample_placed:
  assumes "\<forall>w\<in>set (''mm'' # ws). plain w" "snd x = \<lparr>d_Dir = dirkey ''mm'' (butlast ws), d_BName = last_name ws, d_MModTime = 1\<rparr>"
    "fst x = dpath ''mm'' ws"
  shows "dir_placed (fst x) (snd x)"
  using assms unfolding dir_placed_def by (metis dirprops.select_convs(1,2))

lemma sample_dirs_placed: "list_all (\<lambda>(k, p). dir_placed k p) (st_dirs sample_store)"
proof -
  have "dir_placed (fst (sample_dir ''mm/'' [])) (snd (sample_dir ''mm/'' []))"
    "dir_placed (fst (sample_dir ''mm/'' ''cd'')) (snd (sample_dir ''mm/'' ''cd''))"
    "dir_placed (fst (sample_dir ''mm/'' ''ab'')) (snd (sample_dir ''mm/'' ''ab''))"
    "dir_placed (fst (sample_dir ''mm/ab/'' ''ef'')) (snd (sample_dir ''mm/ab/'' ''ef''))"
    by (rule sample_placed[of "[]"] sample_placed[of "[''cd'']"] sample_placed[of "[''ab'']"] sample_placed[of "[''ab'', ''ef'']"]; code_simp)+
  then show ?thesis by (simp add: sample_store_def case_prod_beta)
qed

lemma sample_files_placed: "list_all (\<lambda>(k, p). file_placed k p) (st_files sample_store)"
proof -
  have p: "\<forall>w\<in>set [''mm'']. plain w" "\<forall>w\<in>set [''mm'', ''ab'']. plain w" "plain ''a.txt''" "plain ''b.txt''" "plain ''c.txt''" by code_simp+
  have "file_placed (''mm/'', b) \<lparr>p_Dir = ''mm/'', p_BName = b, p_MModTime = 1, p_Data = data\<rparr>" if "plain b" for b data
    using p(1) that unfolding file_placed_def by (intro exI[of _ "''mm''"] exI[of _ "[]"]) (simp add: dpath_def)
  moreover have "file_placed (''mm/ab'', ''c.txt'') \<lparr>p_Dir = ''mm/ab/'', p_BName = ''c.txt'', p_MModTime = 1, p_Data = ''three''\<rparr>"
    using p(2,5) unfolding file_placed_def by (intro exI[of _ "''mm''"] exI[of _ "[''ab'']"]) (simp add: dpath_def)
  ultimately show ?thesis using p by (simp add: sample_store_def sample_file_def)
qed

lemma list_all_map_of: "list_all (\<lambda>(k, p). Q k p) xs \<Longrightarrow> map_of xs k = Some p \<Longrightarrow> Q k p"
  by (auto simp: list_all_iff dest: map_of_SomeD)

lemma sample_inv: "ds_inv (store_view sample_store)"
proof -
  have "v_cache (store_view sample_store) = Map.empty" by (simp add: store_view_def sample_store_def empty_store_def)
  moreover have "v_dirs (store_view sample_store) = map_of (st_dirs sample_store)"
    "v_files (store_view sample_store) = map_of (st_files sample_store)" by (simp_all add: store_view_def)
  ultimately show ?thesis
    unfolding ds_inv_def using list_all_map_of[OF sample_dirs_placed] list_all_map_of[OF sample_files_placed] by (simp only: map_le_empty) blast
qed

lemma dsfs_read_dir_witness:
  "\<exists>infos s'. ds_ReadDir reliable sample_fs ''/'' sample_store = Some ((infos, None), s') \<and>
     map info_Name infos = [''ab'', ''cd'', ''a.txt'', ''b.txt'']"
proof -
  have m: "s_mount sample_fs = ''mm''" "s_sorter sample_fs = ByName" by (simp_all add: sample_fs_def)
  have n: "names (s_mount sample_fs) [] ''/''" unfolding m by code_simp
  have d: "v_dirs (store_view sample_store) (dpath (s_mount sample_fs) []) \<noteq> None" unfolding m by code_simp
  have v: "v_dirs (store_view sample_store) k \<noteq> None \<longleftrightarrow> k \<in> {''mm/'', ''mm/cd'', ''mm/ab'', ''mm/ab/ef''}"
    "v_files (store_view sample_store) q \<noteq> None \<longleftrightarrow> q \<in> {(''mm/'', ''b.txt''), (''mm/'', ''a.txt''), (''mm/ab'', ''c.txt'')}" for k q
    by (auto simp: sample_store_def store_view_def sample_dir_def sample_file_def)
  have "plain ''cd''" "plain ''ab''" "\<not> plain []" "\<not> plain ''ab/ef''" by code_simp+
  then have ds: "{w. plain w \<and> v_dirs (store_view sample_store) (dpath ''mm'' ([] @ [w])) \<noteq> None} = {''ab'', ''cd''}"
    unfolding v by (auto simp: dpath_def)
  have fs: "{b. v_files (store_view sample_store) (dpath ''mm'' [], b) \<noteq> None} = {''a.txt'', ''b.txt''}"
    unfolding v by (auto simp: dpath_def)
  have "sorted_list_of_set {''ab'', ''cd''} = [''ab'', ''cd'']" "sorted_list_of_set {''a.txt'', ''b.txt''} = [''a.txt'', ''b.txt'']" by code_simp+
  then show ?thesis
    using dsfs_read_dir[OF reliable_good reliable_fresh sample_inv n m(2) d] unfolding m(1) ds fs by fastforce
qed

subsection \<open>Where the code falls short\<close>

text \<open>The findings are runs on the sample store; these are the values its operations need.\<close>

lemma reliable_sel [simp]:
  "GetDir reliable k s = (lookup ErrNoSuchEntity (st_dirs s) k, s)"
  "PutDir reliable k p s = (None, s\<lparr>st_dirs := AList.update k p (st_dirs s)\<rparr>)"
  "DeleteDir reliable k s = (None, s\<lparr>st_dirs := AList.delete k (st_dirs s)\<rparr>)"
  "GetFile reliable fk s = (lookup ErrNoSuchEntity (st_files s) fk, s)"
  "PutFile reliable fk fp s = (None, s\<lparr>st_files := AList.update fk fp (st_files s)\<rparr>)"
  "DeleteFile reliable fk s = (None, s\<lparr>st_files := AList.delete fk (st_files s)\<rparr>)"
  "CacheGet reliable k s = (lookup ErrCacheMiss (st_cache s) k, s)"
  "CacheSet reliable k p s = (None, s\<lparr>st_cache := AList.update k p (st_cache s)\<rparr>)"
  "CacheDelete reliable k s = (None, s\<lparr>st_cache := AList.delete k (st_cache s)\<rparr>)"
  "Now reliable s = (st_now s, s\<lparr>st_now := st_now s + 1\<rparr>)"
  by (simp_all add: reliable_def)

definition mute_cache :: "store services" where
  "mute_cache = reliable\<lparr>CacheGet := (\<lambda>k s. (Inl (Fault ''timeout''), s))\<rparr>"

lemma s_mount_sample: "s_mount sample_fs = ''mm''"
  by (simp add: sample_fs_def)

lemma mute_cache_sel [simp]: "CacheGet mute_cache k s = (Inl (Fault ''timeout''), s)" "PutFile mute_cache = PutFile reliable"
  "GetFile mute_cache = GetFile reliable" "Now mute_cache = Now reliable"
  by (simp_all add: mute_cache_def)

lemma read_only_sel [simp]: "PutFile read_only fk fp s = (Some (Fault ''read-only''), s)" "CacheGet read_only = CacheGet reliable"
  "CacheSet read_only = CacheSet reliable" "GetDir read_only = GetDir reliable"
  by (simp_all add: read_only_def)

text \<open>A datastore that saves every file and answers that the time is up.\<close>

definition late_store :: "store services" where
  "late_store = reliable\<lparr>PutFile := (\<lambda>k p s. (Some (Fault ''timeout''), s\<lparr>st_files := AList.update k p (st_files s)\<rparr>))\<rparr>"

lemma late_store_sel [simp]: "PutFile late_store fk fp s = (Some (Fault ''timeout''), s\<lparr>st_files := AList.update fk fp (st_files s)\<rparr>)"
  "CacheGet late_store = CacheGet reliable" "CacheSet late_store = CacheSet reliable" "GetDir late_store = GetDir reliable"
  "Now late_store = Now reliable"
  by (simp_all add: late_store_def)

lemma late_store_laws: "service_laws late_store store_view"
  using reliable_laws unfolding service_laws_def
  by (simp add: late_store_def writes_def store_view_def set_file_ds_def update_conv')

lemma sample_splits:
  "ds_SplitX sample_fs ''nowhere/at/all'' = (''mm/nowhere/at/'', ''all'')" "ds_SplitX sample_fs ''mm/nowhere/at/'' = (''mm/nowhere/'', ''at/'')"
  "ds_SplitX sample_fs ''mm/nowhere/at/all'' = (''mm/nowhere/at/'', ''all'')"
  "ds_SplitX sample_fs ''a.txt'' = (''mm/'', ''a.txt'')" "ds_SplitX sample_fs ''mm/'' = (''mm/'', [])" "ds_SplitX sample_fs ''mm/a.txt'' = (''mm/'', ''a.txt'')"
  "ds_SplitX sample_fs ''ab'' = (''mm/'', ''ab'')" "ds_SplitX sample_fs ''ab/c.txt'' = (''mm/ab/'', ''c.txt'')" "ds_SplitX sample_fs ''mm/ab/'' = (''mm/'', ''ab/'')"
  "ds_SplitX sample_fs ''new/'' = (''mm/'', ''new/'')" "ds_SplitX sample_fs ''mm/new'' = (''mm/'', ''new'')" "ds_SplitX sample_fs ''new'' = (''mm/'', ''new'')"
  by code_simp+

lemma outside_splits:
  "ds_SplitX sample_fs ''mm1/x'' = (''mm1/'', ''x'')" "ds_SplitX sample_fs ''mm1/'' = (''/'', ''mm1/'')" "ds_SplitX sample_fs ''/'' = (''mm/'', [])"
  "Filify ''x'' = ''x''" "Filify ''mm1/'' = ''mm1''"
  by code_simp+

lemma sample_filify: "Filify ''all'' = ''all''" "Filify ''at/'' = ''at''" "Filify [] = []" "Filify ''a.txt'' = ''a.txt''" "Filify ''ab'' = ''ab''"
  "Filify ''ab/'' = ''ab''" "Filify ''new/'' = ''new''" "Filify ''new'' = ''new''"
  by code_simp+

lemmas run_ds = sample_splits sample_filify dirByPath_def MemCacheGet_def MemCacheSet_def MemCacheDelete_def fileByPath_def file_place_def
  saveFileByPath_def ds_Sync_def ds_Write_def ds_WriteFile_def ds_ReadFile_def Let_def lookup_def zero_file_def zero_dir_def slice_sub_def
  ds_RootDir_def load_dir_def load_file_def dirprops.defs fileprops.defs
  sample_store_def sample_dir_def sample_file_def empty_store_def

lemma dsfs_faults_witness:
  "\<exists>s1 s2 p. ds_WriteFile read_only sample_fs ''a.txt'' ''new'' sample_store = Some (Some (Fault ''read-only''), s1) \<and>
     v_files (store_view s1) = v_files (store_view sample_store) \<and>
     ds_WriteFile late_store sample_fs ''a.txt'' ''new'' sample_store = Some (Some (Fault ''timeout''), s2) \<and>
     p_Data p = ''new'' \<and> v_files (store_view s2) = (v_files (store_view sample_store))((''mm/'', ''a.txt'') \<mapsto> p)"
proof -
  have n: "names (s_mount sample_fs) [''a.txt''] ''a.txt''" "fkey (s_mount sample_fs) [''a.txt''] = (''mm/'', ''a.txt'')"
    unfolding s_mount_sample by code_simp+
  obtain s1 where 1: "ds_WriteFile read_only sample_fs ''a.txt'' ''new'' sample_store = Some (Some (Fault ''read-only''), s1)"
    "map_option p_Data (v_files (store_view s1) (''mm/'', ''a.txt'')) \<noteq> Some ''new''"
    by (simp add: run_ds read_only_def store_view_def)
  obtain s2 where 2: "ds_WriteFile late_store sample_fs ''a.txt'' ''new'' sample_store = Some (Some (Fault ''timeout''), s2)"
    "map_option p_Data (v_files (store_view s2) (''mm/'', ''a.txt'')) = Some ''new''"
    by (simp add: run_ds store_view_def)
  have 3: "map_option p_Data (v_files (store_view sample_store) (''mm/'', ''a.txt'')) \<noteq> Some ''new''"
    by (simp add: store_view_def sample_store_def sample_file_def)
  have a: "v_files (store_view s1) = v_files (store_view sample_store)"
    using dsfs_faults[OF read_only_laws n(1), of "''new''" sample_store] 1 unfolding n(2) by auto
  obtain p where "p_Data p = ''new''" "v_files (store_view s2) = (v_files (store_view sample_store))((''mm/'', ''a.txt'') \<mapsto> p)"
    using dsfs_faults[OF late_store_laws n(1), of "''new''" sample_store] 2 3 unfolding n(2) by auto
  with 1(1) 2(1) a show ?thesis by blast
qed

text \<open>\<^verbatim>\<open>MemCacheGet\<close> swallows every error but a miss. When memcache does not answer, every directory exists, and files are
  saved below directories nobody made.\<close>

lemma mute_cache_finds_all:
  "map_option fst (ds_WriteFile mute_cache sample_fs ''nowhere/at/all'' ''data'' empty_store) = Some None"
  "map_option fst (ds_WriteFile reliable sample_fs ''nowhere/at/all'' ''data'' empty_store) = Some (Some ErrNoSuchEntity)"
  by (simp_all add: run_ds)

text \<open>A first component that begins with the mount point's name is not taken below it: three directories come into being, none of
  them below the mount point.\<close>

lemma dsfs_mkdir_outside:
  "map_option (\<lambda>(e, s). (e, map fst (st_dirs s))) (ds_MkdirAll reliable sample_fs ''mm1/x'' empty_store) =
   Some (None, [''mm1/x'', ''/mm1'', ''mm/''])"
  by (simp add: run_ds outside_splits ds_MkdirAll_def saveDirByPath_def saveDirByPathExt.simps dir_to_save_def s_mount_sample)

text \<open>The mode of a file is not stored: \<^verbatim>\<open>Create\<close> sets 0644, \<^verbatim>\<open>Chmod\<close> what it is told, \<^verbatim>\<open>Stat\<close> finds 0. \<^verbatim>\<open>Chtimes\<close> stores the
  access time as the time of modification.\<close>

lemma chmod_is_lost:
  "do { (e, s1) \<leftarrow> ds_Chmod reliable sample_fs ''a.txt'' 384 sample_store;
        (i, s2) \<leftarrow> ds_Stat reliable sample_fs ''a.txt'' s1;
        Some (e, case i of Inr (InfoFile f) \<Rightarrow> Some (p_MMode f, p_MModTime f) | _ \<Rightarrow> None) } = Some (None, Some (0, 1))"
  by (simp add: run_ds ds_Chmod_def ds_Stat_def s_mount_sample)

lemma chtimes_takes_atime:
  "do { (e, s1) \<leftarrow> ds_Chtimes reliable sample_fs ''a.txt'' 7 8 sample_store;
        (i, s2) \<leftarrow> ds_Stat reliable sample_fs ''a.txt'' s1;
        Some (e, case i of Inr (InfoFile f) \<Rightarrow> Some (p_MModTime f) | _ \<Rightarrow> None) } = Some (None, Some 7)"
  by (simp add: run_ds ds_Chtimes_def ds_Stat_def s_mount_sample)

text \<open>Remove takes a directory that is not empty; its files stay in the datastore, out of reach, and are back when the directory
  is made again.\<close>

lemma removed_files_return:
  "(case ds_Remove reliable sample_fs ''ab'' sample_store of (e1, s1) \<Rightarrow>
    (case ds_ReadFile reliable sample_fs ''ab/c.txt'' s1 of (r1, s2) \<Rightarrow>
      do { (e2, s3) \<leftarrow> ds_Mkdir reliable sample_fs ''ab'' s2;
           Some (e1, r1, e2, fst (ds_ReadFile reliable sample_fs ''ab/c.txt'' s3)) }))
   = Some (None, ([], Some ErrNoSuchEntity), None, (''three'', None))"
  by (simp add: run_ds ds_Remove_def ds_Mkdir_def saveDirByPath_def saveDirByPathExt.simps dir_to_save_def s_mount_sample)

text \<open>\<^verbatim>\<open>WriteFile\<close> cuts a trailing slash from the name of the file, \<^verbatim>\<open>ReadFile\<close> does not.\<close>

lemma read_file_slash:
  "do { (e, s1) \<leftarrow> ds_WriteFile reliable sample_fs ''new/'' ''data'' sample_store;
        Some (e, fst (ds_ReadFile reliable sample_fs ''new/'' s1), fst (ds_ReadFile reliable sample_fs ''new'' s1)) }
   = Some (None, ([], Some ErrNoSuchEntity), (''data'', None))"
  by (simp add: run_ds s_mount_sample)

text \<open>Reading an empty directory in parts never comes to an end: the position that says so is the number of entries.\<close>

lemma empty_dir_never_ends:
  assumes "ds_ReadDir svc fs (d_Dir d @ d_BName d) s = Some (([], err), s1)" "0 < n" "d_fetchPos d = 0"
  shows "dir_Readdir svc fs d n s = Some ((([], None), d), s1)"
  using assms by (cases d) (simp add: dir_Readdir_def)

text \<open>A Close that cannot save returns with the lock held: the next Read waits for ever.\<close>

lemma failed_close_locks:
  "do { ((e, f), s1) \<leftarrow> ds_Close read_only sample_fs (zero_file\<lparr>p_Dir := ''mm/'', p_BName := ''a.txt''\<rparr>) sample_store;
        Some (e, ds_Read f ''_'') } = Some (Some (Fault ''read-only''), None)"
  by (simp add: run_ds ds_Close_def ds_Read_def s_mount_sample)

end
