(* ===== verification/Sorts.thy ===== *)
theory Sorts
  imports Prelude "HOL-Library.AList" "HOL-Library.Multiset"
begin

section \<open>Sorted copies of slices and maps\<close>

text \<open>
  \<^verbatim>\<open>sort/subsort\<close> (indices of a slice sorted by a field), \<^verbatim>\<open>sort/sortmap\<close> (keys and counts of
  a map) and \<^verbatim>\<open>sort/sortmapx\<close> (a map of integers with its sorted keys and the partial sums over
  the whole range of keys).

  \<^verbatim>\<open>sort.Sort\<close> promises a permutation in which no element is less than one before it; where
  elements compare equal it promises no order. It is a parameter of the definitions that
  call it, and the locale \<open>go_sort\<close> states the promise. \<^verbatim>\<open>sort.Ints\<close> and \<^verbatim>\<open>sort.Strings\<close> have one
  possible result, the sorted list. A Go map is an association list with distinct keys in the
  order of the iteration.
\<close>

subsection \<open>The contract of sort.Sort\<close>

definition strict_weak :: "('a \<Rightarrow> 'a \<Rightarrow> bool) \<Rightarrow> bool" where
  "strict_weak lt \<longleftrightarrow> (\<forall>a. \<not> lt a a) \<and> (\<forall>a b c. lt a b \<longrightarrow> lt b c \<longrightarrow> lt a c) \<and>
     (\<forall>a b c. \<not> lt a b \<longrightarrow> \<not> lt b c \<longrightarrow> \<not> lt a c)"

lemma strict_weak_key: "strict_weak (\<lambda>a b. f a < (f b :: 'b::linorder))"
  "strict_weak (\<lambda>a b. f a > (f b :: 'b::linorder))"
  by (auto simp: strict_weak_def)

locale go_sort =
  fixes srt :: "('a \<Rightarrow> 'a \<Rightarrow> bool) \<Rightarrow> 'a list \<Rightarrow> 'a list"
  assumes sort_mset: "mset (srt lt xs) = mset xs"
    and sort_sorted: "strict_weak lt \<Longrightarrow> sorted_wrt (\<lambda>a b. \<not> lt b a) (srt lt xs)"
begin

lemma sort_set [simp]: "set (srt lt xs) = set xs"
  using sort_mset[of lt xs] by (rule mset_eq_setD)

lemma sort_length [simp]: "length (srt lt xs) = length xs"
  using sort_mset[of lt xs] by (rule mset_eq_length)

lemma sort_asc: "sorted (map f (srt (\<lambda>a b. f a < (f b :: 'b::linorder)) xs))"
  using sort_sorted[OF strict_weak_key(1)[of f], of xs] by (simp add: sorted_wrt_map not_less)

lemma sort_desc: "sorted (rev (map f (srt (\<lambda>a b. f a > (f b :: 'b::linorder)) xs)))"
  using sort_sorted[OF strict_weak_key(2)[of f], of xs]
  by (simp add: sorted_wrt_rev sorted_wrt_map not_less flip: rev_map)

lemma sort_map_mset: "mset (map f (srt lt xs)) = mset (map f xs)"
  by (simp add: sort_mset)

end

text \<open>Insertion sort fulfils the contract; it is what the library runs on short slices.\<close>

fun insert_by :: "('a \<Rightarrow> 'a \<Rightarrow> bool) \<Rightarrow> 'a \<Rightarrow> 'a list \<Rightarrow> 'a list" where
  "insert_by lt x [] = [x]"
| "insert_by lt x (y # ys) = (if lt y x then y # insert_by lt x ys else x # y # ys)"

fun insertionSort :: "('a \<Rightarrow> 'a \<Rightarrow> bool) \<Rightarrow> 'a list \<Rightarrow> 'a list" where
  "insertionSort lt [] = []"
| "insertionSort lt (x # xs) = insert_by lt x (insertionSort lt xs)"

lemma mset_insert_by [simp]: "mset (insert_by lt x xs) = add_mset x (mset xs)"
  by (induction xs) auto

lemma set_insert_by [simp]: "set (insert_by lt x xs) = insert x (set xs)"
  by (induction xs) auto

lemma sorted_insert_by:
  assumes "strict_weak lt"
  shows "sorted_wrt (\<lambda>a b. \<not> lt b a) xs \<Longrightarrow> sorted_wrt (\<lambda>a b. \<not> lt b a) (insert_by lt x xs)"
proof (induction xs)
  case (Cons y ys)
  show ?case
  proof (cases "lt y x")
    case True
    then have "\<not> lt x y" using assms unfolding strict_weak_def by blast
    then show ?thesis using Cons True by simp
  next
    case False
    have "\<forall>z\<in>set ys. \<not> lt z y" using Cons.prems by simp
    then have "\<forall>z\<in>set ys. \<not> lt z x" using False assms unfolding strict_weak_def by blast
    then show ?thesis using Cons.prems False by simp
  qed
qed simp

interpretation insertion: go_sort insertionSort
proof unfold_locales
  fix lt and xs :: "'a list"
  show "mset (insertionSort lt xs) = mset xs" by (induction xs) auto
  show "strict_weak lt \<Longrightarrow> sorted_wrt (\<lambda>a b. \<not> lt b a) (insertionSort lt xs)"
    by (induction xs) (auto simp: sorted_insert_by)
qed

subsection \<open>subsort: 02-int.go and 03-string.go\<close>

record 'v sortedByVal =
  IdxOrig :: int
  Val :: 'v

type_synonym sortedByIntVal = "int sortedByVal"
type_synonym sortedByStringVal = "string sortedByVal"

definition lessIntAsc :: "sortedByIntVal \<Rightarrow> sortedByIntVal \<Rightarrow> bool" where
  "lessIntAsc a b = (if Val a < Val b then True else False)"

definition lessIntDesc :: "sortedByIntVal \<Rightarrow> sortedByIntVal \<Rightarrow> bool" where
  "lessIntDesc a b = (if Val a > Val b then True else False)"

definition lessStringAsc :: "sortedByStringVal \<Rightarrow> sortedByStringVal \<Rightarrow> bool" where
  "lessStringAsc a b = (if Val a < Val b then True else False)"

definition lessStringDesc :: "sortedByStringVal \<Rightarrow> sortedByStringVal \<Rightarrow> bool" where
  "lessStringDesc a b = (if Val a > Val b then True else False)"

text \<open>The loop that fills \<^verbatim>\<open>copyOfSubset\<close>; \<^verbatim>\<open>make\<close> panics on a negative size.\<close>

definition copyOfSubset :: "int \<Rightarrow> (int \<Rightarrow> 'v) \<Rightarrow> 'v sortedByVal list option" where
  "copyOfSubset sz f =
     (if sz < 0 then None else Some (map (\<lambda>i. \<lparr>IdxOrig = int i, Val = f (int i)\<rparr>) [0..<nat sz]))"

definition SortByIntValAsc ::
    "((sortedByIntVal \<Rightarrow> sortedByIntVal \<Rightarrow> bool) \<Rightarrow> sortedByIntVal list \<Rightarrow> sortedByIntVal list) \<Rightarrow>
     int \<Rightarrow> (int \<Rightarrow> int) \<Rightarrow> sortedByIntVal list option" where
  "SortByIntValAsc srt sz f = do { c \<leftarrow> copyOfSubset sz f; Some (srt lessIntAsc c) }"

definition SortByIntValDesc ::
    "((sortedByIntVal \<Rightarrow> sortedByIntVal \<Rightarrow> bool) \<Rightarrow> sortedByIntVal list \<Rightarrow> sortedByIntVal list) \<Rightarrow>
     int \<Rightarrow> (int \<Rightarrow> int) \<Rightarrow> sortedByIntVal list option" where
  "SortByIntValDesc srt sz f = do { c \<leftarrow> copyOfSubset sz f; Some (srt lessIntDesc c) }"

definition SortByStringValAsc ::
    "((sortedByStringVal \<Rightarrow> sortedByStringVal \<Rightarrow> bool) \<Rightarrow> sortedByStringVal list \<Rightarrow> sortedByStringVal list) \<Rightarrow>
     int \<Rightarrow> (int \<Rightarrow> string) \<Rightarrow> sortedByStringVal list option" where
  "SortByStringValAsc srt sz f = do { c \<leftarrow> copyOfSubset sz f; Some (srt lessStringAsc c) }"

definition SortByStringValDesc ::
    "((sortedByStringVal \<Rightarrow> sortedByStringVal \<Rightarrow> bool) \<Rightarrow> sortedByStringVal list \<Rightarrow> sortedByStringVal list) \<Rightarrow>
     int \<Rightarrow> (int \<Rightarrow> string) \<Rightarrow> sortedByStringVal list option" where
  "SortByStringValDesc srt sz f = do { c \<leftarrow> copyOfSubset sz f; Some (srt lessStringDesc c) }"

subsection \<open>sortmap\<close>

record sel1 =
  Key :: string
  Cnt :: int

definition sortByCnt_Less :: "sel1 \<Rightarrow> sel1 \<Rightarrow> bool" where
  "sortByCnt_Less a b = (if Cnt a > Cnt b then True else False)"

definition SortMapByCount :: "((sel1 \<Rightarrow> sel1 \<Rightarrow> bool) \<Rightarrow> sel1 list \<Rightarrow> sel1 list) \<Rightarrow>
    (string \<times> int) list \<Rightarrow> sel1 list" where
  "SortMapByCount srt m = srt sortByCnt_Less (map (\<lambda>(key, cnt). \<lparr>Key = key, Cnt = cnt\<rparr>) m)"

definition StringKeysToSortedArray :: "(string \<times> 'v) list \<Rightarrow> string list" where
  "StringKeysToSortedArray m = sort (map fst m)"

definition IntKeysToSortedArray :: "(int \<times> 'v) list \<Rightarrow> int list" where
  "IntKeysToSortedArray m = sort (map fst m)"

subsection \<open>sortmapx\<close>

record sortedKV =
  K :: int
  V :: int

record sortedMap =
  sm_m :: "(int \<times> int) list"
  sm_dirty :: bool
  sm_sortedKeys :: "int list"
  sm_sKV :: "sortedKV list"

definition updateSort :: "sortedMap \<Rightarrow> sortedMap" where
  "updateSort m = m\<lparr>sm_sortedKeys := sort (map fst (sm_m m))\<rparr>"

definition NewSortedMapInt2Int :: sortedMap where
  "NewSortedMapInt2Int = \<lparr>sm_m = [], sm_dirty = False, sm_sortedKeys = [], sm_sKV = []\<rparr>"

definition Set_sm :: "int \<Rightarrow> int \<Rightarrow> sortedMap \<Rightarrow> sortedMap" where
  "Set_sm k v m = m\<lparr>sm_m := AList.update k v (sm_m m), sm_dirty := True\<rparr>"

definition Get_sm :: "int \<Rightarrow> sortedMap \<Rightarrow> int \<times> bool" where
  "Get_sm k m = (case map_of (sm_m m) k of None \<Rightarrow> (0, False) | Some v \<Rightarrow> (v, True))"

definition Inc_sm :: "int \<Rightarrow> sortedMap \<Rightarrow> sortedMap" where
  "Inc_sm k m = m\<lparr>sm_m := AList.update k (fst (Get_sm k m) + 1) (sm_m m), sm_dirty := True\<rparr>"

definition refresh :: "sortedMap \<Rightarrow> sortedMap" where
  "refresh m = (if sm_dirty m then (updateSort m)\<lparr>sm_dirty := False\<rparr> else m)"

text \<open>\<^verbatim>\<open>MaxKey\<close> and \<^verbatim>\<open>MinKey\<close> have value receivers: what they refresh is a copy.\<close>

definition MaxKey :: "sortedMap \<Rightarrow> int option" where
  "MaxKey m =
     (if length (sm_m m) = 0 then None
      else let m1 = refresh m; lastIdx = int (length (sm_sortedKeys m1)) - 1
           in slice_get (sm_sortedKeys m1) lastIdx)"

definition MinKey :: "sortedMap \<Rightarrow> int option" where
  "MinKey m =
     (if length (sm_m m) = 0 then None else slice_get (sm_sortedKeys (refresh m)) 0)"

definition SortedKeys :: "sortedMap \<Rightarrow> int list \<times> sortedMap" where
  "SortedKeys m = (let m1 = refresh m in (sm_sortedKeys m1, m1))"

fun fillKV :: "(int \<times> int) list \<Rightarrow> int \<Rightarrow> int list \<Rightarrow> sortedKV list \<Rightarrow> sortedKV list option" where
  "fillKV mp k [] skv = Some skv"
| "fillKV mp k (v # vs) skv = do {
     skv1 \<leftarrow> slice_set skv k \<lparr>K = v, V = (case map_of mp v of None \<Rightarrow> 0 | Some x \<Rightarrow> x)\<rparr>;
     fillKV mp (k + 1) vs skv1
   }"

definition SortedKV :: "sortedMap \<Rightarrow> (sortedKV list \<times> sortedMap) option" where
  "SortedKV m = do {
     let m1 = refresh m;
     skv \<leftarrow> fillKV (sm_m m1) 0 (sm_sortedKeys m1) (replicate (length (sm_m m1)) \<lparr>K = 0, V = 0\<rparr>);
     Some (skv, m1\<lparr>sm_sKV := skv\<rparr>)
   }"

function partialSums_loop :: "sortedMap \<Rightarrow> int \<Rightarrow> int \<Rightarrow> int \<Rightarrow> int \<Rightarrow> sortedKV list \<Rightarrow> int list \<Rightarrow>
    (sortedKV list \<times> int list) option" where
  "partialSums_loop m i mx cnt j skv flattened =
     (if i < mx + 1 then do {
        let (v2, ok) = Get_sm i m;
        let cnt1 = (if ok then cnt + v2 else cnt);
        skv1 \<leftarrow> slice_set skv j \<lparr>K = i, V = cnt1\<rparr>;
        flat1 \<leftarrow> slice_set flattened j cnt1;
        partialSums_loop m (i + 1) mx cnt1 (j + 1) skv1 flat1
      } else Some (skv, flattened))"
  by pat_completeness auto
termination
  by (relation "measure (\<lambda>(m, i, mx, _). nat (mx + 1 - i))") auto

declare partialSums_loop.simps [simp del]

definition SortedPartialSums :: "sortedMap \<Rightarrow> (sortedKV list \<times> int list) option" where
  "SortedPartialSums m = do {
     mn \<leftarrow> MinKey m;
     let groundedMin = (if mn > 0 then 0 else mn);
     mx \<leftarrow> MaxKey m;
     let skv = replicate (nat (mx - groundedMin + 1)) \<lparr>K = 0, V = 0\<rparr>;
     let flattened = replicate (length skv) 0;
     partialSums_loop m groundedMin mx 0 0 skv flattened
   }"

subsection \<open>What the sorted copies are\<close>

text \<open>\<open>indexes f n c\<close>: \<open>c\<close> refers to each index below \<open>n\<close> once and has its field.\<close>

definition indexes :: "(int \<Rightarrow> 'v) \<Rightarrow> nat \<Rightarrow> 'v sortedByVal list \<Rightarrow> bool" where
  "indexes f n c \<longleftrightarrow> mset (map IdxOrig c) = mset (map int [0..<n]) \<and> (\<forall>e\<in>set c. Val e = f (IdxOrig e))"

lemma copyOfSubset_eq:
  "copyOfSubset (int n) f = Some (map (\<lambda>i. \<lparr>IdxOrig = int i, Val = f (int i)\<rparr>) [0..<n])"
  by (simp add: copyOfSubset_def)

lemma indexes_perm:
  assumes "mset c = mset (map (\<lambda>i. \<lparr>IdxOrig = int i, Val = f (int i)\<rparr>) [0..<n])"
  shows "indexes f n c"
proof -
  have "mset (map IdxOrig c) = mset (map IdxOrig (map (\<lambda>i. \<lparr>IdxOrig = int i, Val = f (int i)\<rparr>) [0..<n]))"
    using assms by (metis mset_map)
  moreover have "set c = set (map (\<lambda>i. \<lparr>IdxOrig = int i, Val = f (int i)\<rparr>) [0..<n])"
    using assms by (rule mset_eq_setD)
  ultimately show ?thesis by (auto simp: indexes_def comp_def)
qed

lemma less_eqs:
  "lessIntAsc = (\<lambda>a b. Val a < Val b)" "lessIntDesc = (\<lambda>a b. Val a > Val b)"
  "lessStringAsc = (\<lambda>a b. Val a < Val b)" "lessStringDesc = (\<lambda>a b. Val a > Val b)"
  "sortByCnt_Less = (\<lambda>a b. Cnt a > Cnt b)"
  by (simp_all add: fun_eq_iff lessIntAsc_def lessIntDesc_def lessStringAsc_def lessStringDesc_def
      sortByCnt_Less_def)

text \<open>For any sort that keeps the promise of sort.Sort, the four functions of subsort return
  each index of the original slice once with its field, in ascending or descending order of the
  field; a negative size panics.\<close>
theorem subsort_sorts:
  assumes I: "go_sort srtI" and S: "go_sort srtS"
  shows "(\<exists>c. SortByIntValAsc srtI (int n) f = Some c \<and> indexes f n c \<and> sorted (map Val c)) \<and>
    (\<exists>c. SortByIntValDesc srtI (int n) f = Some c \<and> indexes f n c \<and> sorted (rev (map Val c))) \<and>
    (\<exists>c. SortByStringValAsc srtS (int n) g = Some c \<and> indexes g n c \<and> sorted (map Val c)) \<and>
    (\<exists>c. SortByStringValDesc srtS (int n) g = Some c \<and> indexes g n c \<and> sorted (rev (map Val c))) \<and>
    (\<forall>k<0. SortByIntValAsc srtI k f = None \<and> SortByStringValAsc srtS k g = None \<and>
           SortByIntValDesc srtI k f = None \<and> SortByStringValDesc srtS k g = None)"
  by (auto simp: SortByIntValAsc_def SortByIntValDesc_def SortByStringValAsc_def
      SortByStringValDesc_def copyOfSubset_eq less_eqs copyOfSubset_def
      intro!: indexes_perm go_sort.sort_mset[OF I] go_sort.sort_mset[OF S] go_sort.sort_asc[OF I]
        go_sort.sort_asc[OF S] go_sort.sort_desc[OF I] go_sort.sort_desc[OF S])

lemma subsort_sorts_witness:
  "go_sort (insertionSort :: (sortedByIntVal \<Rightarrow> _) \<Rightarrow> _) \<and>
   (\<exists>c. SortByIntValAsc insertionSort 3 (\<lambda>i. 5 - i) = Some c \<and> sorted (map Val c)) \<and>
   SortByIntValAsc insertionSort 3 (\<lambda>i. 5 - i) =
     Some [\<lparr>IdxOrig = 2, Val = 3\<rparr>, \<lparr>IdxOrig = 1, Val = 4\<rparr>, \<lparr>IdxOrig = 0, Val = 5\<rparr>]"
  using subsort_sorts[OF insertion.go_sort_axioms insertion.go_sort_axioms, of 3 "\<lambda>i. 5 - i"]
    insertion.go_sort_axioms
  by (auto simp: SortByIntValAsc_def copyOfSubset_def lessIntAsc_def upt_rec)

text \<open>SortMapByCount returns every entry of the map once with the counts descending;
  the key functions return the keys once each, ascending.\<close>
theorem sortmap_sorts:
  assumes "go_sort srt" "distinct (map fst m)" "distinct (map fst mi)"
  shows "mset (map (\<lambda>e. (Key e, Cnt e)) (SortMapByCount srt m)) = mset m \<and>
    sorted (rev (map Cnt (SortMapByCount srt m))) \<and>
    sorted_wrt (<) (StringKeysToSortedArray m) \<and> set (StringKeysToSortedArray m) = fst ` set m \<and>
    sorted_wrt (<) (IntKeysToSortedArray mi) \<and> set (IntKeysToSortedArray mi) = fst ` set mi"
proof -
  have "mset (map (\<lambda>e. (Key e, Cnt e)) (SortMapByCount srt m))
      = mset (map (\<lambda>e. (Key e, Cnt e)) (map (\<lambda>(key, cnt). \<lparr>Key = key, Cnt = cnt\<rparr>) m))"
    unfolding SortMapByCount_def by (rule go_sort.sort_map_mset[OF assms(1)])
  also have "\<dots> = mset m" by (simp add: comp_def case_prod_unfold)
  finally show ?thesis
    using assms(2,3) go_sort.sort_desc[OF assms(1)]
    by (simp add: SortMapByCount_def less_eqs StringKeysToSortedArray_def IntKeysToSortedArray_def
        strict_sorted_iff)
qed

lemma sortmap_sorts_witness:
  "map Key (SortMapByCount insertionSort [(''a'', 1), (''b'', 3), (''c'', 2)]) = [''b'', ''c'', ''a''] \<and>
   StringKeysToSortedArray [(''b'', 3::int), (''a'', 1)] = [''a'', ''b''] \<and>
   sorted (rev (map Cnt (SortMapByCount insertionSort [(''a'', 1), (''b'', 3), (''c'', 2)])))"
  using sortmap_sorts[OF insertion.go_sort_axioms, of "[(''a'', 1), (''b'', 3), (''c'', 2)]" "[(1::int, ())]"]
  by (simp add: SortMapByCount_def sortByCnt_Less_def StringKeysToSortedArray_def)

subsection \<open>The sorted map\<close>

definition sm_ok :: "sortedMap \<Rightarrow> bool" where
  "sm_ok m \<longleftrightarrow> distinct (map fst (sm_m m)) \<and> (\<not> sm_dirty m \<longrightarrow> sm_sortedKeys m = sort (map fst (sm_m m)))"

text \<open>The sum of the values with keys up to \<open>i\<close>.\<close>

definition sumUpTo :: "sortedMap \<Rightarrow> int \<Rightarrow> int" where
  "sumUpTo m i = sum_list (map snd (filter (\<lambda>(k, v). k \<le> i) (sm_m m)))"

lemma refresh_keys: "sm_ok m \<Longrightarrow> sm_sortedKeys (refresh m) = sort (map fst (sm_m m))"
  by (auto simp: sm_ok_def refresh_def updateSort_def)

lemma refresh_ok: "sm_ok m \<Longrightarrow> sm_ok (refresh m)" "sm_m (refresh m) = sm_m m"
  by (auto simp: sm_ok_def refresh_def updateSort_def)

lemma sort_ends:
  assumes "xs \<noteq> []"
  shows "sort xs ! 0 = Min (set (xs :: int list))" "sort xs ! (length xs - 1) = Max (set xs)"
proof -
  have l: "0 < length xs" using assms by simp
  have *: "sort xs ! 0 \<le> y \<and> y \<le> sort xs ! (length xs - 1)" if y: "y \<in> set xs" for y
  proof -
    obtain i where "i < length xs" "y = sort xs ! i"
      using y by (metis in_set_conv_nth length_sort set_sort)
    then show ?thesis using sorted_nth_mono[of "sort xs"] by simp
  qed
  have m: "sort xs ! 0 \<in> set xs" "sort xs ! (length xs - 1) \<in> set xs"
    using l nth_mem[of _ "sort xs"] by auto
  show "sort xs ! 0 = Min (set xs)" using * m(1) by (intro Min_eqI[symmetric]) auto
  show "sort xs ! (length xs - 1) = Max (set xs)" using * m(2) by (intro Max_eqI[symmetric]) auto
qed

lemma MinMaxKey:
  assumes "sm_ok m"
  shows "MinKey m = (if sm_m m = [] then None else Some (Min (fst ` set (sm_m m))))"
    "MaxKey m = (if sm_m m = [] then None else Some (Max (fst ` set (sm_m m))))"
proof -
  have "MinKey m = (if sm_m m = [] then None else Some (Min (fst ` set (sm_m m)))) \<and>
    MaxKey m = (if sm_m m = [] then None else Some (Max (fst ` set (sm_m m))))"
  proof (cases "sm_m m = []")
    case False
    then have l: "0 < length (sm_m m)" by simp
    then have n: "int (length (sm_m m)) - 1 = int (length (sm_m m) - 1)"
      by (cases "sm_m m") auto
    have g: "slice_get (sort (map fst (sm_m m))) 0 = Some (sort (map fst (sm_m m)) ! 0)"
      using l by (simp add: slice_get_def)
    show ?thesis
      using False l sort_ends[of "map fst (sm_m m)"]
      by (simp add: MinKey_def MaxKey_def Let_def refresh_keys[OF assms] n g del: of_nat_diff)
  qed (simp add: MinKey_def MaxKey_def)
  then show "MinKey m = (if sm_m m = [] then None else Some (Min (fst ` set (sm_m m))))"
    "MaxKey m = (if sm_m m = [] then None else Some (Max (fst ` set (sm_m m))))" by auto
qed

lemma Get_eq: "Get_sm i m = (case map_of (sm_m m) i of None \<Rightarrow> (0, False) | Some v \<Rightarrow> (v, True))"
  by (simp add: Get_sm_def)

lemma sumUpTo_list:
  "distinct (map fst xs) \<Longrightarrow>
   sum_list (map snd (filter (\<lambda>(k, v). k \<le> i) xs)) =
   sum_list (map snd (filter (\<lambda>(k, v). k \<le> i - (1::int)) xs)) + (case map_of xs i of None \<Rightarrow> 0 | Some (v::int) \<Rightarrow> v)"
proof (induction xs)
  case (Cons x xs)
  obtain k v where x: "x = (k, v)" by fastforce
  show ?case
  proof (cases "k = i")
    case True
    then have "map_of xs i = None" using Cons.prems x by (simp add: map_of_eq_None_iff)
    then show ?thesis using Cons x True by simp
  next
    case False
    then have "k \<le> i \<longleftrightarrow> k \<le> i - 1" by auto
    then show ?thesis using Cons x False by auto
  qed
qed simp

lemma sumUpTo_step:
  "sm_ok m \<Longrightarrow> sumUpTo m i = sumUpTo m (i - 1) + fst (Get_sm i m)"
  using sumUpTo_list[of "sm_m m" i] by (auto simp: sm_ok_def sumUpTo_def Get_eq split: option.splits)

lemma sumUpTo_below: "\<forall>k\<in>fst ` set (sm_m m). i < k \<Longrightarrow> sumUpTo m i = 0"
  by (auto simp: sumUpTo_def filter_empty_conv intro: arg_cong[of _ _ "\<lambda>xs. sum_list (map snd xs)"])
     (subst filter_False, auto)

lemma partialSums_loop_eq:
  assumes "sm_ok m" "length skv = length pre + nat (mx + 1 - i)" "length fl = length skv"
    "take (length pre) skv = pre" "take (length pre) fl = pre'" "length pre' = length pre"
  shows "partialSums_loop m i mx (sumUpTo m (i - 1)) (int (length pre)) skv fl
    = Some (pre @ map (\<lambda>x. \<lparr>K = x, V = sumUpTo m x\<rparr>) [i..mx], pre' @ map (sumUpTo m) [i..mx])"
  using assms
proof (induction "nat (mx + 1 - i)" arbitrary: i skv fl pre pre')
  case 0
  then show ?case by (subst partialSums_loop.simps) simp
next
  case (Suc n)
  then have i: "i < mx + 1" and n: "n = nat (mx + 1 - (i + 1))" by auto
  let ?j = "length pre"
  let ?e = "\<lparr>K = i, V = sumUpTo m i\<rparr>"
  have l: "?j < length skv" "?j < length fl" using Suc.prems Suc.hyps(2) by auto
  have c: "(if snd (Get_sm i m) then sumUpTo m (i - 1) + fst (Get_sm i m) else sumUpTo m (i - 1)) = sumUpTo m i"
    using sumUpTo_step[OF Suc.prems(1), of i] by (auto simp: Get_eq split: option.splits)
  have ih: "partialSums_loop m (i + 1) mx (sumUpTo m (i + 1 - 1)) (int (length (pre @ [?e])))
      (skv[?j := ?e]) (fl[?j := sumUpTo m i])
    = Some ((pre @ [?e]) @ map (\<lambda>x. \<lparr>K = x, V = sumUpTo m x\<rparr>) [i + 1..mx],
            (pre' @ [sumUpTo m i]) @ map (sumUpTo m) [i + 1..mx])"
  proof (rule Suc.hyps(1)[OF n Suc.prems(1)])
    show "take (length (pre @ [?e])) (skv[?j := ?e]) = pre @ [?e]"
      using l Suc.prems(4) by (simp add: take_Suc_conv_app_nth take_update_cancel)
    show "take (length (pre @ [?e])) (fl[?j := sumUpTo m i]) = pre' @ [sumUpTo m i]"
      using l Suc.prems(5) by (simp add: take_Suc_conv_app_nth take_update_cancel)
  qed (use Suc.prems i in auto)
  have r: "[i..mx] = i # [i + 1..mx]" using i by (simp add: upto_rec1)
  show ?case
    using ih i l c unfolding r
    by (subst partialSums_loop.simps) (simp add: case_prod_unfold Let_def add.commute)
qed

lemma MinKey_New: "MinKey NewSortedMapInt2Int = None"
  by (simp add: MinKey_def NewSortedMapInt2Int_def)

text \<open>In a sorted map that keeps its invariant MinKey and MaxKey are the least and greatest
  key and panic exactly on the empty map, and SortedPartialSums returns, for every integer from the
  smaller of zero and the least key up to the greatest key, the sum of the values of all keys up to
  there, without an index out of range.\<close>
theorem sortmapx_partial_sums:
  assumes "sm_ok m" "sm_m m \<noteq> []"
  defines "mn \<equiv> Min (fst ` set (sm_m m))" and "mx \<equiv> Max (fst ` set (sm_m m))"
  shows "MinKey m = Some mn \<and> MaxKey m = Some mx \<and> MinKey NewSortedMapInt2Int = None \<and>
    SortedPartialSums m = Some (map (\<lambda>i. \<lparr>K = i, V = sumUpTo m i\<rparr>) [min 0 mn..mx],
                                map (sumUpTo m) [min 0 mn..mx])"
proof -
  let ?g = "min 0 mn"
  have ks: "MinKey m = Some mn" "MaxKey m = Some mx"
    using MinMaxKey[OF assms(1)] assms(2) by (simp_all add: mn_def mx_def)
  have "\<forall>k\<in>fst ` set (sm_m m). ?g - 1 < k"
  proof
    fix k assume "k \<in> fst ` set (sm_m m)"
    then have "mn \<le> k" by (simp add: mn_def)
    then show "?g - 1 < k" by linarith
  qed
  then have z: "sumUpTo m (?g - 1) = 0" by (rule sumUpTo_below)
  have "(if mn > 0 then 0 else mn) = ?g" by auto
  moreover have "nat (mx - ?g + 1) = nat (mx + 1 - ?g)" by (simp add: algebra_simps)
  ultimately show ?thesis
    using partialSums_loop_eq[OF assms(1), of "replicate (nat (mx - ?g + 1)) \<lparr>K = 0, V = 0\<rparr>" "[]" mx ?g
        "replicate (nat (mx - ?g + 1)) 0" "[]"] ks z
      MinKey_New
    by (simp add: SortedPartialSums_def Let_def)
qed

definition example_sm :: sortedMap where
  "example_sm = Inc_sm 2 (Set_sm 4 7 (Set_sm 2 5 NewSortedMapInt2Int))"

lemma sm_ok_New: "sm_ok NewSortedMapInt2Int"
  by (simp add: sm_ok_def NewSortedMapInt2Int_def)

lemma sm_ok_Set: "sm_ok m \<Longrightarrow> sm_ok (Set_sm k v m)"
  by (simp add: sm_ok_def Set_sm_def distinct_update)

lemma sm_ok_Inc: "sm_ok m \<Longrightarrow> sm_ok (Inc_sm k m)"
  by (simp add: sm_ok_def Inc_sm_def distinct_update)

lemma sortmapx_partial_sums_witness:
  "SortedPartialSums example_sm =
     Some (map (\<lambda>i. \<lparr>K = i, V = sumUpTo example_sm i\<rparr>) [0..4], [0, 0, 6, 6, 13])"
proof -
  have m: "sm_m example_sm = [(2, 6), (4, 7)]"
    by (simp add: example_sm_def Inc_sm_def Set_sm_def Get_sm_def NewSortedMapInt2Int_def)
  have "sm_ok example_sm"
    unfolding example_sm_def by (intro sm_ok_Inc sm_ok_Set sm_ok_New)
  from sortmapx_partial_sums[OF this] show ?thesis
    by (simp add: m sumUpTo_def upto_rec1)
qed

lemma fillKV_eq:
  "length skv = length pre + length vs \<Longrightarrow> take (length pre) skv = pre \<Longrightarrow>
   fillKV mp (int (length pre)) vs skv =
     Some (pre @ map (\<lambda>v. \<lparr>K = v, V = (case map_of mp v of None \<Rightarrow> 0 | Some x \<Rightarrow> x)\<rparr>) vs)"
proof (induction vs arbitrary: skv pre)
  case (Cons v vs)
  let ?e = "\<lparr>K = v, V = (case map_of mp v of None \<Rightarrow> 0 | Some x \<Rightarrow> x)\<rparr>"
  have "take (length (pre @ [?e])) (skv[length pre := ?e]) = pre @ [?e]"
    using Cons.prems by (simp add: take_Suc_conv_app_nth take_update_cancel)
  then show ?case
    using Cons.IH[of "skv[length pre := ?e]" "pre @ [?e]"] Cons.prems by (simp add: add.commute)
qed simp

text \<open>The sorted map refines the map of its entries: Set and Inc update it at one key, Get
  reads it, SortedKeys and SortedKV return its keys and entries in ascending order and never
  panic, and every operation keeps the invariant, which holds of the new map.\<close>
theorem sortmapx_refines_map:
  assumes "sm_ok m"
  shows "sm_ok NewSortedMapInt2Int \<and>
    sm_ok (Set_sm k v m) \<and> map_of (sm_m (Set_sm k v m)) = (map_of (sm_m m))(k \<mapsto> v) \<and>
    sm_ok (Inc_sm k m) \<and>
    map_of (sm_m (Inc_sm k m)) = (map_of (sm_m m))(k \<mapsto> (case map_of (sm_m m) k of None \<Rightarrow> 1 | Some n \<Rightarrow> n + 1)) \<and>
    Get_sm k m = (case map_of (sm_m m) k of None \<Rightarrow> (0, False) | Some n \<Rightarrow> (n, True)) \<and>
    (\<exists>m'. SortedKeys m = (sorted_list_of_set (dom (map_of (sm_m m))), m') \<and> sm_ok m' \<and> sm_m m' = sm_m m) \<and>
    (\<exists>kv m'. SortedKV m = Some (kv, m') \<and> sm_ok m' \<and> sm_m m' = sm_m m \<and>
       map (\<lambda>e. (K e, V e)) kv = map (\<lambda>k. (k, the (map_of (sm_m m) k))) (sorted_list_of_set (dom (map_of (sm_m m)))))"
proof (intro conjI)
  have d: "distinct (map fst (sm_m m))" using assms by (simp add: sm_ok_def)
  have keys: "sorted_list_of_set (dom (map_of (sm_m m))) = sort (map fst (sm_m m))"
  proof -
    have "dom (map_of (sm_m m)) = set (map fst (sm_m m))" by (simp add: dom_map_of_conv_image_fst)
    then show ?thesis using d by (simp only: sorted_list_of_set_sort_remdups distinct_remdups_id)
  qed
  show "sm_ok NewSortedMapInt2Int" "sm_ok (Set_sm k v m)" "sm_ok (Inc_sm k m)"
    using assms by (simp_all add: sm_ok_New sm_ok_Set sm_ok_Inc)
  show "map_of (sm_m (Set_sm k v m)) = (map_of (sm_m m))(k \<mapsto> v)"
    by (simp add: Set_sm_def update_conv')
  show "map_of (sm_m (Inc_sm k m)) =
      (map_of (sm_m m))(k \<mapsto> (case map_of (sm_m m) k of None \<Rightarrow> 1 | Some n \<Rightarrow> n + 1))"
    by (simp add: Inc_sm_def Get_eq update_conv' split: option.split)
  show "Get_sm k m = (case map_of (sm_m m) k of None \<Rightarrow> (0, False) | Some n \<Rightarrow> (n, True))"
    by (rule Get_eq)
  show "\<exists>m'. SortedKeys m = (sorted_list_of_set (dom (map_of (sm_m m))), m') \<and> sm_ok m' \<and> sm_m m' = sm_m m"
    using refresh_keys[OF assms] refresh_ok(1)[OF assms] refresh_ok(2) by (simp add: SortedKeys_def Let_def keys)
  let ?r = "refresh m"
  have f: "fillKV (sm_m ?r) 0 (sm_sortedKeys ?r) (replicate (length (sm_m ?r)) \<lparr>K = 0, V = 0\<rparr>) =
      Some (map (\<lambda>v. \<lparr>K = v, V = (case map_of (sm_m m) v of None \<Rightarrow> 0 | Some x \<Rightarrow> x)\<rparr>) (sort (map fst (sm_m m))))"
    using fillKV_eq[of "replicate (length (sm_m m)) \<lparr>K = 0, V = 0\<rparr>" "[]" "sort (map fst (sm_m m))" "sm_m m"]
      refresh_keys[OF assms] refresh_ok(2) by simp
  have v: "(case map_of (sm_m m) k of None \<Rightarrow> 0 | Some x \<Rightarrow> x) = the (map_of (sm_m m) k)"
    if "k \<in> fst ` set (sm_m m)" for k
    using that by (auto simp: dom_map_of_conv_image_fst[symmetric])
  show "\<exists>kv m'. SortedKV m = Some (kv, m') \<and> sm_ok m' \<and> sm_m m' = sm_m m \<and>
       map (\<lambda>e. (K e, V e)) kv = map (\<lambda>k. (k, the (map_of (sm_m m) k))) (sorted_list_of_set (dom (map_of (sm_m m))))"
    using f refresh_ok(1)[OF assms] refresh_ok(2) v unfolding keys
    by (auto simp: SortedKV_def Let_def sm_ok_def)
qed

lemma sortmapx_refines_map_witness:
  "sm_ok (Set_sm 3 9 NewSortedMapInt2Int) \<and> map_of (sm_m (Set_sm 3 9 NewSortedMapInt2Int)) 3 = Some 9 \<and>
   (\<exists>kv m'. SortedKV NewSortedMapInt2Int = Some (kv, m'))"
  using sortmapx_refines_map[OF sm_ok_New, of 3 9] by auto

end
