(* ===== verification/Amorph.thy ===== *)
theory Amorph
  imports Prelude Util
begin

section \<open>Amorphs and their shapes (transposablematrix/20-amorph.go, 22-edges-permutated.go)\<close>

text \<open>
  An amorph is an area of a given number of elements that may be laid out as any rectangle,
  with a bite (the slack) taken out of a corner. The reservoir keeps the amorphs and four
  indexes from shapes to the articles that can take them: \<open>MElements\<close> by area,
  \<open>EdgesSlackless\<close> by the sides of a full rectangle, \<open>Edge3\<close> by the three lengths of an
  edge with one step, and \<open>EdgeCond\<close> by those lengths made coarse.

  \<^item> \<open>RootCeiling\<close> is the exact ceiling of the root; it agrees with the float computation
    of the code for areas below 2^52. \<open>AestheticValue_of\<close> divides exactly instead of in
    float32 (the same below 2^24 / 100), and the averages are fractions of integers.
    Standard deviations, which nothing reads, are left out.
  \<^item> \<open>map[int]map[int]bool\<close> holds only \<^verbatim>\<open>true\<close>, so its inner map is a set.
  \<^item> \<open>RemoveSpentEdges\<close> starts a watchdog goroutine that only prints; its effect on the
    reservoir is modelled.
\<close>

subsection \<open>Data\<close>

record amorph =
  IdxArticle :: int
  NElements :: int
  Cols :: int
  Rows :: int
  Slack :: int
  Edge :: "int list"
  AestheticValue :: int
  Padded :: int

definition amorph0 :: amorph where
  "amorph0 = \<lparr>IdxArticle = 0, NElements = 0, Cols = 0, Rows = 0, Slack = 0, Edge = [],
     AestheticValue = 0, Padded = 0\<rparr>"

type_synonym index = "int \<rightharpoonup> int set"
type_synonym plug = "int \<times> int \<times> int"

record reservoir =
  Amorphs :: "amorph list"
  AvgWidth :: "int \<times> int"
  AvgHeight :: "int \<times> int"
  SmallestDesirableWidth :: int
  SmallestDesirableHeight :: int
  HistoWidths :: "int list"
  SumSqWidths :: int
  HistoHeights :: "int list"
  SumSqHeights :: int
  MElements :: index
  Edge3 :: index
  EdgeCond :: index
  EdgesSlackless :: index

definition initSize :: nat where "initSize = 100"

definition NewReservoir :: reservoir where
  "NewReservoir = \<lparr>Amorphs = [], AvgWidth = (0, 1), AvgHeight = (0, 1),
     SmallestDesirableWidth = 0, SmallestDesirableHeight = 0,
     HistoWidths = replicate initSize 0, SumSqWidths = 0,
     HistoHeights = replicate initSize 0, SumSqHeights = 0,
     MElements = Map.empty, Edge3 = Map.empty, EdgeCond = Map.empty,
     EdgesSlackless = Map.empty\<rparr>"

subsection \<open>Sides of a rectangle\<close>

function root_from :: "int \<Rightarrow> int \<Rightarrow> int" where
  "root_from r n = (if r < 0 \<or> n \<le> r * r then r else root_from (r + 1) n)"
  by auto
termination
proof (relation "measure (\<lambda>(r, n). nat (n - r))", simp)
  fix r n :: int
  assume "\<not> (r < 0 \<or> n \<le> r * r)"
  then have "0 \<le> r" "r * r < n" by auto
  moreover have "r \<le> r * r" using \<open>0 \<le> r\<close> by (cases "r = 0") simp_all
  ultimately show "((r + 1, n), (r, n)) \<in> measure (\<lambda>(r, n). nat (n - r))" by simp
qed

declare root_from.simps [simp del]

definition RootCeiling :: "int \<Rightarrow> int" where
  "RootCeiling nElements = root_from 0 nElements"

definition OtherSide :: "int \<Rightarrow> int \<Rightarrow> (int \<times> int) option" where
  "OtherSide nElements cols =
     (if cols = 0 then None
      else let rows = (if go_mod nElements cols = 0 then go_div nElements cols
                       else go_div nElements cols + 1)
           in Some (rows, cols * rows - nElements))"

definition goodRatioApex :: int where "goodRatioApex = 301"

definition AestheticValue_of :: "int \<Rightarrow> int \<Rightarrow> int" where
  "AestheticValue_of width height =
     (let ratio = (if height < width then go_div (100 * width) height
                   else go_div (100 * height) width);
          ret = - (ratio - goodRatioApex);
          ret' = (if ret < -50 then -50 + go_div ret 10 else ret)
      in if ret' < -99 then -99 else ret')"

definition amorph_transpose :: "amorph \<Rightarrow> int \<Rightarrow> int \<Rightarrow> int \<Rightarrow> int \<times> int" where
  "amorph_transpose a xm ym perspective =
     (if perspective = 0 then (xm, ym)
      else if perspective = 1 then (ym, Cols a - xm - 1)
      else if perspective = 2 then (Cols a - xm - 1, Rows a - ym - 1)
      else if perspective = 3 then (Rows a - ym - 1, xm)
      else (0, 0))"

definition ReverseEdge :: "amorph \<Rightarrow> amorph" where
  "ReverseEdge f =
     (if 2 < length (Edge f)
      then f\<lparr>Edge := (Edge f)[0 := Edge f ! 2, 2 := Edge f ! 0, 1 := - (Edge f ! 1)]\<rparr>
      else f)"

subsection \<open>Edges\<close>

definition maxFactor :: int where "maxFactor = 100"

function Factorize_from :: "int \<Rightarrow> int \<Rightarrow> int list \<Rightarrow> int list" where
  "Factorize_from p i1 ret =
     (if i1 < maxFactor
      then if p < i1 * i1 then ret
           else let i2 = go_div p i1;
                    ret' = (if i2 * i1 = p
                            then if i2 = i1 then ret @ [i1] else ret @ [i1, i2]
                            else ret)
                in Factorize_from p (i1 + 1) ret'
      else ret)"
  by auto
termination by (relation "measure (\<lambda>(p, i1, r). nat (maxFactor - i1))") auto

declare Factorize_from.simps [simp del]

definition Factorize :: "int \<Rightarrow> int list option" where
  "Factorize p =
     (if maxFactor * maxFactor < p then None
      else let ret = Factorize_from p 2 []
           in Some (if 2 < length ret then sort ret else ret))"

definition multiSortFactor :: int where "multiSortFactor = 100"

definition Enc :: "int \<Rightarrow> int \<Rightarrow> int \<Rightarrow> int" where
  "Enc i1 i2 i3 =
     (let (i1, i2, i3) = (if i2 < 0 then (i3, - i2, i1) else (i1, i2, i3))
      in i1 * (multiSortFactor * multiSortFactor) + i2 * multiSortFactor + i3)"

definition Dec :: "int \<Rightarrow> int \<times> int \<times> int \<times> string" where
  "Dec enc =
     (let sq = multiSortFactor * multiSortFactor;
          i1 = go_div enc sq; enc = enc - i1 * sq;
          i2 = go_div enc multiSortFactor; i3 = enc - i2 * multiSortFactor
      in (i1, i2, i3, fmt_int i1 @ ''-'' @ fmt_int i2 @ ''-'' @ fmt_int i3))"

definition Granularize :: "int \<Rightarrow> int" where
  "Granularize t1 = (if 9 < t1 then 9 else if 4 < t1 then 4 else t1)"

definition SubmapAddRemove :: "bool \<Rightarrow> index \<Rightarrow> int \<Rightarrow> int \<Rightarrow> index" where
  "SubmapAddRemove doRemoval mp k1 k2 =
     (if doRemoval
      then case mp k1 of
             None \<Rightarrow> mp(k1 := None)
           | Some s \<Rightarrow> if s - {k2} = {} then mp(k1 := None) else mp(k1 \<mapsto> s - {k2})
      else case mp k1 of
             None \<Rightarrow> mp(k1 \<mapsto> {k2})
           | Some s \<Rightarrow> mp(k1 \<mapsto> insert k2 s))"

text \<open>The block \<^verbatim>\<open>PermutateEdges\<close> has twice: a bar of \<open>x\<close> by \<open>y\<close> cut from a corner.\<close>

definition bars :: "int \<Rightarrow> int \<Rightarrow> int \<Rightarrow> int \<Rightarrow> plug list" where
  "bars cols rows x y =
     (if x < rows \<and> y < cols then [(rows - x, y, x), (cols - y, x, y)] else []) @
     (if y < rows \<and> x < cols then [(rows - y, x, y), (cols - x, y, x)] else [])"

fun factor_loop :: "int \<Rightarrow> int \<Rightarrow> int \<Rightarrow> int list \<Rightarrow> plug list \<Rightarrow> plug list" where
  "factor_loop cols rows slack [] plugs = plugs"
| "factor_loop cols rows slack (x # factors) plugs =
     factor_loop cols rows slack factors (plugs @ bars cols rows x (go_div slack x))"

definition PermutateEdges :: "bool list \<Rightarrow> int \<Rightarrow> int \<Rightarrow> int \<Rightarrow> plug list \<Rightarrow> plug list option" where
  "PermutateEdges primes cols rows slack plugs =
     (if 0 < slack
      then do {
        let plugs = plugs @ bars cols rows 1 slack;
        pr \<leftarrow> slice_get primes slack;
        if \<not> pr then do {
          factors \<leftarrow> Factorize slack;
          Some (factor_loop cols rows slack factors plugs) }
        else Some plugs }
      else Some plugs)"

subsection \<open>All shapes of an amorph\<close>

fun shapeshifts :: "bool list \<Rightarrow> bool \<Rightarrow> int \<Rightarrow> int \<Rightarrow> int list \<Rightarrow> index \<Rightarrow> plug list \<Rightarrow>
    (index \<times> plug list) option" where
  "shapeshifts primes doRemoval nElements idx [] slackless plugs = Some (slackless, plugs)"
| "shapeshifts primes doRemoval nElements idx (cols # cs) slackless plugs = do {
     (rows, slack) \<leftarrow> OtherSide nElements cols;
     let slackless' =
       (if slack = 0
        then SubmapAddRemove doRemoval
               (SubmapAddRemove doRemoval slackless (Enc cols rows 0) idx) (Enc rows cols 0) idx
        else slackless);
     plugs' \<leftarrow> PermutateEdges primes cols rows slack plugs;
     shapeshifts primes doRemoval nElements idx cs slackless' plugs' }"

fun super_rows :: "bool list \<Rightarrow> int \<Rightarrow> int \<Rightarrow> int list \<Rightarrow> plug list \<Rightarrow> plug list option" where
  "super_rows primes nElements cols [] plugs = Some plugs"
| "super_rows primes nElements cols (rows # rs) plugs = do {
     plugs' \<leftarrow> PermutateEdges primes cols rows (cols * rows - nElements) plugs;
     super_rows primes nElements cols rs plugs' }"

fun super_cols :: "bool list \<Rightarrow> int \<Rightarrow> int \<Rightarrow> int list \<Rightarrow> plug list \<Rightarrow> plug list option" where
  "super_cols primes nElements superEdge1 [] plugs = Some plugs"
| "super_cols primes nElements superEdge1 (cols # cs) plugs = do {
     plugs' \<leftarrow> super_rows primes nElements cols [cols..superEdge1] plugs;
     super_cols primes nElements superEdge1 cs plugs' }"

fun attach :: "bool \<Rightarrow> int \<Rightarrow> plug list \<Rightarrow> index \<Rightarrow> index \<Rightarrow> index \<times> index" where
  "attach doRemoval idx [] e3 ec = (e3, ec)"
| "attach doRemoval idx ((k0, k1, k2) # plugs) e3 ec =
     attach doRemoval idx plugs
       (SubmapAddRemove doRemoval e3 (Enc k0 k1 k2) idx)
       (SubmapAddRemove doRemoval ec (Enc (Granularize k0) (Granularize k1) (Granularize k2)) idx)"

definition PermutateShapes :: "bool list \<Rightarrow> reservoir \<Rightarrow> amorph \<Rightarrow> bool \<Rightarrow> reservoir option" where
  "PermutateShapes primes ar amArg doRemoval = do {
     let nElements = NElements amArg - Padded amArg;
     let rootCeil = RootCeiling nElements;
     (slackless, plugs) \<leftarrow> shapeshifts primes doRemoval nElements (IdxArticle amArg)
       [rootCeil..nElements] (EdgesSlackless ar) [];
     let superEdge1 = go_div nElements 2 + 1;
     let superEdge2 = (if go_mod nElements 2 = 0 then go_div nElements 2 else superEdge1);
     plugs \<leftarrow> super_cols primes nElements superEdge1 [rootCeil..superEdge2] plugs;
     let (e3, ec) = attach doRemoval (IdxArticle amArg) plugs (Edge3 ar) (EdgeCond ar);
     Some (ar\<lparr>EdgesSlackless := slackless, Edge3 := e3, EdgeCond := ec\<rparr>) }"

definition RemoveSpentEdges :: "bool list \<Rightarrow> reservoir \<Rightarrow> amorph \<Rightarrow> reservoir option" where
  "RemoveSpentEdges primes ar am =
     PermutateShapes primes
       (ar\<lparr>MElements := SubmapAddRemove True (MElements ar) (NElements am - Padded am) (IdxArticle am)\<rparr>)
       am True"

subsection \<open>Adding amorphs\<close>

text \<open>The average of a histogram, as sum and count, and the gap derived from it:
  \<^verbatim>\<open>int(avg * 0.9)\<close> is 0 iff 9/10 of the average is below 1.\<close>

fun avgSdv_loop :: "int \<Rightarrow> int list \<Rightarrow> int \<Rightarrow> int \<Rightarrow> int \<times> int" where
  "avgSdv_loop i [] cnt sumV = (sumV, cnt)"
| "avgSdv_loop i (h # histo) cnt sumV = avgSdv_loop (i + 1) histo (cnt + h) (sumV + i * h)"

definition avgSdvExplicit :: "int list \<Rightarrow> int \<times> int" where
  "avgSdvExplicit histo = avgSdv_loop 0 histo 0 0"

definition updateDesirableGap :: "reservoir \<Rightarrow> int \<Rightarrow> int" where
  "updateDesirableGap ar perspective =
     (let (s, n) = (if go_mod perspective 2 = 1 then AvgHeight ar else AvgWidth ar)
      in if 9 * s < 10 * n then 1 else 2)"

definition incr_at :: "int list \<Rightarrow> int \<Rightarrow> int list option" where
  "incr_at h i = do { c \<leftarrow> slice_get h i; slice_set h i (c + 1) }"

definition add_one :: "bool list \<Rightarrow> reservoir \<Rightarrow> nat \<Rightarrow> reservoir option" where
  "add_one primes ar i = do {
     am \<leftarrow> slice_get (Amorphs ar) (int i);
     let am = (if IdxArticle am = 0 then am\<lparr>IdxArticle := int i\<rparr> else am);
     let am = (if AestheticValue am = 0
               then am\<lparr>AestheticValue := AestheticValue_of (Cols am) (Rows am)\<rparr> else am);
     let am = (if NElements am = 0 then am\<lparr>NElements := Cols am * Rows am - Slack am\<rparr> else am);
     ams \<leftarrow> slice_set (Amorphs ar) (int i) am;
     hw \<leftarrow> incr_at (HistoWidths ar) (Cols am);
     hh \<leftarrow> incr_at (HistoHeights ar) (Rows am);
     let ar = ar\<lparr>Amorphs := ams, HistoWidths := hw, HistoHeights := hh,
       SumSqWidths := SumSqWidths ar + Cols am * Cols am,
       SumSqHeights := SumSqHeights ar + Rows am * Rows am\<rparr>;
     ar \<leftarrow> PermutateShapes primes ar am False;
     Some (ar\<lparr>MElements := SubmapAddRemove False (MElements ar) (NElements am) (IdxArticle am)\<rparr>) }"

fun add_loop :: "bool list \<Rightarrow> nat list \<Rightarrow> reservoir \<Rightarrow> reservoir option" where
  "add_loop primes [] ar = Some ar"
| "add_loop primes (i # is') ar = do { ar' \<leftarrow> add_one primes ar i; add_loop primes is' ar' }"

definition update_gaps :: "reservoir \<Rightarrow> reservoir" where
  "update_gaps ar =
     (let ar = ar\<lparr>AvgWidth := avgSdvExplicit (HistoWidths ar),
                  AvgHeight := avgSdvExplicit (HistoHeights ar)\<rparr>
      in ar\<lparr>SmallestDesirableWidth := updateDesirableGap ar 0,
            SmallestDesirableHeight := updateDesirableGap ar 1\<rparr>)"

definition AddAmorphs :: "bool list \<Rightarrow> reservoir \<Rightarrow> amorph list \<Rightarrow> reservoir option" where
  "AddAmorphs primes ar newA = do {
     let lenPrev = length (Amorphs ar);
     let ar = ar\<lparr>Amorphs := Amorphs ar @ newA\<rparr>;
     ar \<leftarrow> add_loop primes [lenPrev..<length (Amorphs ar)] ar;
     Some (update_gaps ar) }"

fun specific_amorphs :: "int list \<Rightarrow> amorph list option" where
  "specific_amorphs [] = Some []"
| "specific_amorphs (n # nums) = do {
     let cols = RootCeiling n;
     (rows, slack) \<leftarrow> OtherSide n cols;
     ams \<leftarrow> specific_amorphs nums;
     Some (amorph0\<lparr>NElements := n, Cols := cols, Rows := rows, Slack := slack\<rparr> # ams) }"

definition GenerateSpecificAmorphs :: "bool list \<Rightarrow> reservoir \<Rightarrow> int list \<Rightarrow> reservoir option" where
  "GenerateSpecificAmorphs primes ar nums = do {
     newAmorphs \<leftarrow> specific_amorphs nums;
     AddAmorphs primes ar newAmorphs }"

subsection \<open>Factors and edges\<close>

lemma divisor_pair:
  assumes "0 < (i :: int)"
  shows "{d. \<exists>e. d * e = p \<and> min d e = i} = (if i dvd p \<and> i \<le> p div i then {i, p div i} else {})"
proof -
  have e: "i * e = p \<longleftrightarrow> i dvd p \<and> e = p div i" for e
    using assms by (metis dvd_triv_left less_irrefl nonzero_mult_div_cancel_left dvd_mult_div_cancel)
  then have "e * i = p \<longleftrightarrow> i dvd p \<and> e = p div i" for e
    by (simp add: mult.commute)
  moreover have "min d e = i \<longleftrightarrow> d = i \<and> i \<le> e \<or> e = i \<and> i \<le> d" for d e
    by (simp add: min_def) linarith
  ultimately show ?thesis using assms by (auto simp: e)
qed

lemma Factorize_from_set:
  assumes "0 < p" "0 < i1" "i1 \<le> maxFactor"
  shows "set (Factorize_from p i1 ret) = set ret \<union>
    {d. \<exists>e. d * e = p \<and> i1 \<le> min d e \<and> min d e < maxFactor}"
  using assms
proof (induction p i1 ret rule: Factorize_from.induct)
  case (1 p i1 ret)
  let ?S = "\<lambda>i. {d. \<exists>e. d * e = p \<and> i \<le> min d e \<and> min d e < maxFactor}"
  consider "i1 = maxFactor" | "i1 < maxFactor" "p < i1 * i1" | "i1 < maxFactor" "\<not> p < i1 * i1"
    using 1(4) by linarith
  then show ?case
  proof cases
    case 1
    then show ?thesis by (subst Factorize_from.simps) auto
  next
    case 2
    have "i1 \<le> min d e \<Longrightarrow> i1 * i1 \<le> d * e" for d e
      using mult_mono[of i1 d i1 e] \<open>0 < i1\<close> by simp
    then have "?S i1 = {}" using 2(2) by fastforce
    with 2 show ?thesis by (subst Factorize_from.simps) auto
  next
    case 3
    define ret' where "ret' = (if go_div p i1 * i1 = p
      then if go_div p i1 = i1 then ret @ [i1] else ret @ [i1, go_div p i1] else ret)"
    have step: "Factorize_from p i1 ret = Factorize_from p (i1 + 1) ret'"
      using 3 by (subst Factorize_from.simps) (simp add: ret'_def Let_def)
    have "set (Factorize_from p (i1 + 1) ret') = set ret' \<union> ?S (i1 + 1)"
      unfolding ret'_def using "1.IH"[OF 3 refl refl] "1.prems" 3 by simp
    moreover have "set ret' = set ret \<union> {d. \<exists>e. d * e = p \<and> min d e = i1}"
    proof -
      have "i1 dvd p \<Longrightarrow> i1 \<le> p div i1"
        using 3(2) "1.prems"(2) by (auto simp: dvd_def)
      moreover have "p div i1 * i1 = p \<longleftrightarrow> i1 dvd p" by (metis dvd_div_mult_self dvd_triv_right)
      ultimately show ?thesis
        using "1.prems" unfolding ret'_def divisor_pair[OF "1.prems"(2)] by simp
    qed
    moreover have "?S i1 = ?S (i1 + 1) \<union> {d. \<exists>e. d * e = p \<and> min d e = i1}"
    proof -
      have "i1 \<le> k \<and> k < maxFactor \<longleftrightarrow> i1 + 1 \<le> k \<and> k < maxFactor \<or> k = i1" for k
        using 3(1) by linarith
      then show ?thesis by (simp only: conj_disj_distribL ex_disj_distrib Collect_disj_eq)
    qed
    ultimately show ?thesis unfolding step by (simp only: Un_ac)
  qed
qed

lemma Factorize_divisors:
  assumes "0 < p" "p < maxFactor * maxFactor"
  shows "\<exists>fs. Factorize p = Some fs \<and> set fs = {d. d dvd p \<and> 1 < d \<and> d < p}"
proof -
  have "(\<exists>e. d * e = p \<and> 2 \<le> min d e \<and> min d e < maxFactor) \<longleftrightarrow> d dvd p \<and> 1 < d \<and> d < p" for d
  proof
    assume "\<exists>e. d * e = p \<and> 2 \<le> min d e \<and> min d e < maxFactor"
    then obtain e where e: "d * e = p" "2 \<le> d" "2 \<le> e" by auto
    then have "d * 2 \<le> p" using mult_left_mono[of 2 e d] by simp
    with e show "d dvd p \<and> 1 < d \<and> d < p" by auto
  next
    assume d: "d dvd p \<and> 1 < d \<and> d < p"
    then obtain e where e: "p = d * e" by (auto simp: dvd_def)
    with d have "0 < e" using assms(1) by (simp add: zero_less_mult_iff)
    moreover have "e \<noteq> 1" using d e by auto
    moreover have "min d e < maxFactor"
    proof (rule ccontr)
      assume "\<not> min d e < maxFactor"
      then have "maxFactor * maxFactor \<le> d * e" using mult_mono[of maxFactor d maxFactor e] \<open>0 < e\<close>
        by (simp add: maxFactor_def)
      with assms(2) e show False by simp
    qed
    ultimately show "\<exists>e. d * e = p \<and> 2 \<le> min d e \<and> min d e < maxFactor"
      using d e by (intro exI[of _ e]) auto
  qed
  then have "set (Factorize_from p 2 []) = {d. d dvd p \<and> 1 < d \<and> d < p}"
    using assms(1) by (subst Factorize_from_set) (simp_all add: maxFactor_def)
  then show ?thesis
    using assms(2) by (auto simp: Factorize_def Let_def)
qed

text \<open>The plugs that inscribe a slack: a step of height \<open>h\<close> and width \<open>b\<close> with area
  \<open>slack\<close>, in the rectangle or in the rectangle turned by 90 degrees.\<close>

definition inscribed :: "int \<Rightarrow> int \<Rightarrow> int \<Rightarrow> plug set" where
  "inscribed cols rows slack =
     {(a, h, b). 0 < a \<and> 0 < h \<and> 0 < b \<and> h * b = slack \<and>
        (a + b = cols \<and> h < rows \<or> a + b = rows \<and> h < cols)}"

lemma factor_loop_set:
  "factor_loop cols rows slack fs plugs = plugs @ concat (map (\<lambda>x. bars cols rows x (go_div slack x)) fs)"
  by (induction fs arbitrary: plugs) simp_all

lemma bars_set:
  "set (bars cols rows x y) =
    {(a, h, b). 0 < a \<and> (b = x \<and> h = y \<or> b = y \<and> h = x) \<and>
      (a + b = cols \<and> h < rows \<or> a + b = rows \<and> h < cols)}"
  by (auto simp: bars_def)

lemma inscribed_bars:
  assumes "0 < slack"
  shows "inscribed cols rows slack = (\<Union>x\<in>{x. 0 < x \<and> x dvd slack}. set (bars cols rows x (slack div x)))"
proof -
  have pos: "0 < h \<and> 0 < b \<and> h * b = slack \<longleftrightarrow> (\<exists>x. 0 < x \<and> x dvd slack \<and> b = x \<and> h = slack div x)" for h b
    using assms by (auto simp: pos_imp_zdiv_pos_iff zdvd_imp_le)
  have sym: "0 < x \<and> x dvd slack \<and> b = slack div x \<and> h = x \<Longrightarrow>
      \<exists>x. 0 < x \<and> x dvd slack \<and> b = x \<and> h = slack div x" for x b h
    using assms by (intro exI[of _ b]) (auto simp: zero_less_mult_iff elim!: dvdE)
  show ?thesis
    unfolding inscribed_def bars_set using pos sym by (auto 0 3)
qed

definition prime_table :: "bool list \<Rightarrow> bool" where
  "prime_table primes \<longleftrightarrow>
     (\<forall>i<length primes. primes ! i \<longleftrightarrow> i < 2 \<or> (\<forall>d. 1 < d \<and> d < int i \<longrightarrow> \<not> d dvd int i))"

lemma PermutateEdges_set:
  assumes "prime_table primes" "slack < int (length primes)" "slack < maxFactor * maxFactor"
  shows "\<exists>new. PermutateEdges primes cols rows slack plugs = Some (plugs @ new) \<and>
    set new = inscribed cols rows slack"
proof (cases "0 < slack")
  case False
  then have "inscribed cols rows slack = {}"
    unfolding inscribed_def by (auto simp: zero_less_mult_iff)
  with False show ?thesis by (simp add: PermutateEdges_def)
next
  case True
  obtain n where n: "slack = int n" using True by (metis nonneg_int_cases less_imp_le)
  define proper where "proper = {d. d dvd slack \<and> 1 < d \<and> d < slack}"
  have divs: "{x. 0 < x \<and> x dvd slack} = insert 1 (insert slack proper)"
    using True unfolding proper_def by (auto dest: zdvd_imp_le)
  have "set (bars cols rows slack 1) = set (bars cols rows 1 slack)"
    unfolding bars_set by auto
  then have ins: "inscribed cols rows slack =
      set (bars cols rows 1 slack) \<union> (\<Union>x\<in>proper. set (bars cols rows x (slack div x)))"
    using True by (simp add: inscribed_bars divs)
  obtain fs where fs: "Factorize slack = Some fs" "set fs = proper"
    using Factorize_divisors[OF True assms(3)] unfolding proper_def by blast
  have fl: "set (concat (map (\<lambda>x. bars cols rows x (go_div slack x)) fs)) =
      (\<Union>x\<in>proper. set (bars cols rows x (slack div x)))"
    using fs(2) True by (auto simp: proper_def)
  have nl: "n < length primes" using assms(2) n by simp
  have pr: "primes ! n \<Longrightarrow> proper = {}"
    using assms(1) nl n True unfolding prime_table_def proper_def by fastforce
  show ?thesis
    using True fs(1) nl ins fl pr n
    by (cases "primes ! n") (auto simp: PermutateEdges_def Let_def factor_loop_set)
qed

text \<open>The edges PermutateEdges appends for a rectangle and a slack are exactly
  the ways to inscribe the slack. Every appended triple a, h, b is a step of height h and
  width b with area h * b = slack, in the rectangle or in the rectangle turned by 90 degrees,
  and every such step is appended. The table of primes is the one the package computes at
  start-up from the primality test of the library, and no slack below its length panics.\<close>

theorem permutate_edges_complete:
  assumes "\<forall>n. 2 \<le> n \<and> n < 2560 \<longrightarrow> (ProbablyPrime n \<longleftrightarrow> (\<forall>d. 1 < d \<and> d < n \<longrightarrow> \<not> d dvd n))"
    and "slack < 2559"
  shows "\<exists>primes new. PrecomputePrimes ProbablyPrime 2560 = Some primes \<and>
    PermutateEdges primes cols rows slack plugs = Some (plugs @ new) \<and>
    set new = {(a, h, b). 0 < a \<and> 0 < h \<and> 0 < b \<and> h * b = slack \<and>
      (a + b = cols \<and> h < rows \<or> a + b = rows \<and> h < cols)}"
proof -
  have "(3 :: int) dvd 2559" by simp
  then have "\<not> ProbablyPrime 2559"
    using assms(1)[rule_format, of 2559] by (auto intro: exI[of _ 3])
  then have pc: "PrecomputePrimes ProbablyPrime 2560 = Some (map (\<lambda>j. j < 2 \<or> ProbablyPrime (int j)) [0..<2559])"
    by (simp add: PrecomputePrimes_spec)
  have "prime_table (map (\<lambda>j. j < 2 \<or> ProbablyPrime (int j)) [0..<2559])"
    unfolding prime_table_def
  proof (intro allI impI)
    fix i assume "i < length (map (\<lambda>j. j < 2 \<or> ProbablyPrime (int j)) [0..<2559])"
    then show "map (\<lambda>j. j < 2 \<or> ProbablyPrime (int j)) [0..<2559] ! i \<longleftrightarrow>
        i < 2 \<or> (\<forall>d. 1 < d \<and> d < int i \<longrightarrow> \<not> d dvd int i)"
      using assms(1)[rule_format, of "int i"] by (cases "i < 2") (auto simp: nth_append)
  qed
  from PermutateEdges_set[OF this, of slack cols rows plugs] assms(2) pc show ?thesis
    by (auto simp: inscribed_def maxFactor_def)
qed

theorem permutate_edges_complete_witness:
  "\<exists>primes new. PrecomputePrimes (\<lambda>n. \<forall>d. 1 < d \<and> d < n \<longrightarrow> \<not> d dvd n) 2560 = Some primes \<and>
    PermutateEdges primes 4 3 4 [] = Some new \<and> (2, 2, 2) \<in> set new"
  using permutate_edges_complete[of "\<lambda>n. \<forall>d. 1 < d \<and> d < n \<longrightarrow> \<not> d dvd n" 4 4 3 "[]"]
  by fastforce

lemma Factorize_misses_100: "Factorize 10000 = Some fs \<Longrightarrow> 100 dvd (10000 :: int) \<and> 100 \<notin> set fs"
proof -
  assume "Factorize 10000 = Some fs"
  then have "set fs = set (Factorize_from 10000 2 [])"
    by (auto simp: Factorize_def maxFactor_def Let_def split: if_splits)
  moreover have "d * e = 10000 \<Longrightarrow> d = 100 \<Longrightarrow> e = 100" for d e :: int by simp
  ultimately show ?thesis by (auto simp: Factorize_from_set maxFactor_def)
qed

subsection \<open>The indexes\<close>

definition taken_out :: "int \<Rightarrow> int set option \<Rightarrow> int set option" where
  "taken_out idx os = (case os of None \<Rightarrow> None | Some s \<Rightarrow> if s - {idx} = {} then None else Some (s - {idx}))"

definition put_in :: "int \<Rightarrow> int set option \<Rightarrow> int set option" where
  "put_in idx os = (case os of None \<Rightarrow> Some {idx} | Some s \<Rightarrow> Some (insert idx s))"

lemma taken_put [simp]:
  "taken_out idx (taken_out idx os) = taken_out idx os" "put_in idx (put_in idx os) = put_in idx os"
  by (auto simp: taken_out_def put_in_def split: option.splits)

lemma SubmapAddRemove_upd:
  "SubmapAddRemove r mp k1 idx = mp(k1 := if r then taken_out idx (mp k1) else put_in idx (mp k1))"
  by (auto simp: SubmapAddRemove_def taken_out_def put_in_def split: option.splits)

abbreviation index_all :: "bool \<Rightarrow> int \<Rightarrow> int list \<Rightarrow> index \<Rightarrow> index" where
  "index_all doRemoval idx ks mp \<equiv> foldl (\<lambda>mp k. SubmapAddRemove doRemoval mp k idx) mp ks"

lemma index_all_apply:
  "index_all r idx ks mp k =
     (if k \<in> set ks then if r then taken_out idx (mp k) else put_in idx (mp k) else mp k)"
  by (induction ks arbitrary: mp) (simp_all add: SubmapAddRemove_upd)

text \<open>The keys under which a shape is filed do not depend on the direction.\<close>

fun slackless_keys :: "int \<Rightarrow> int list \<Rightarrow> int list" where
  "slackless_keys n [] = []"
| "slackless_keys n (cols # cs) =
     (case OtherSide n cols of
        Some (rows, slack) \<Rightarrow> if slack = 0 then [Enc cols rows 0, Enc rows cols 0] else []
      | None \<Rightarrow> []) @ slackless_keys n cs"

lemma shapeshifts_keys:
  "shapeshifts primes r n idx cs mp plugs =
     map_option (\<lambda>(_, ps). (index_all r idx (slackless_keys n cs) mp, ps))
       (shapeshifts primes False n 0 cs Map.empty plugs)"
proof -
  have "shapeshifts primes r n idx cs mp plugs =
     map_option (\<lambda>(_, ps). (index_all r idx (slackless_keys n cs) mp, ps))
       (shapeshifts primes r' n idx' cs mp' plugs)" for r' idx' mp'
    by (induction primes r n idx cs mp plugs arbitrary: mp' rule: shapeshifts.induct)
      (auto simp: Let_def split: option.split bind_splits)
  then show ?thesis .
qed

definition shape_plugs :: "bool list \<Rightarrow> int \<Rightarrow> plug list option" where
  "shape_plugs primes n = do {
     (sl, plugs) \<leftarrow> shapeshifts primes False n 0 [RootCeiling n..n] Map.empty [];
     super_cols primes n (go_div n 2 + 1)
       [RootCeiling n..if go_mod n 2 = 0 then go_div n 2 else go_div n 2 + 1] plugs }"

definition all_slackless :: "int \<Rightarrow> int list" where
  "all_slackless n = slackless_keys n [RootCeiling n..n]"

definition edge_keys :: "bool list \<Rightarrow> int \<Rightarrow> int list" where
  "edge_keys primes n = map (\<lambda>(a, h, b). Enc a h b) (the (shape_plugs primes n))"

definition cond_keys :: "bool list \<Rightarrow> int \<Rightarrow> int list" where
  "cond_keys primes n =
     map (\<lambda>(a, h, b). Enc (Granularize a) (Granularize h) (Granularize b)) (the (shape_plugs primes n))"

lemma attach_index_all:
  "attach r idx plugs e3 ec =
     (index_all r idx (map (\<lambda>(a, h, b). Enc a h b) plugs) e3,
      index_all r idx (map (\<lambda>(a, h, b). Enc (Granularize a) (Granularize h) (Granularize b)) plugs) ec)"
  by (induction plugs arbitrary: e3 ec) auto

lemma PermutateShapes_eq:
  assumes "n = NElements am - Padded am"
  shows "PermutateShapes primes ar am r =
     map_option (\<lambda>ps. ar\<lparr>
       EdgesSlackless := index_all r (IdxArticle am) (all_slackless n) (EdgesSlackless ar),
       Edge3 := index_all r (IdxArticle am) (edge_keys primes n) (Edge3 ar),
       EdgeCond := index_all r (IdxArticle am) (cond_keys primes n) (EdgeCond ar)\<rparr>)
      (shape_plugs primes n)"
  unfolding PermutateShapes_def assms[symmetric] shape_plugs_def all_slackless_def edge_keys_def cond_keys_def
  by (subst shapeshifts_keys)
    (auto simp: Let_def attach_index_all split: option.split bind_splits)

text \<open>The index of a set of live articles: each key with the articles filed under it.\<close>

definition index_of :: "(int \<Rightarrow> int list) \<Rightarrow> (int \<rightharpoonup> int) \<Rightarrow> index" where
  "index_of keys live k =
     (let ids = {i. \<exists>n. live i = Some n \<and> k \<in> set (keys n)} in if ids = {} then None else Some ids)"

lemma index_of_add:
  assumes "live i = None"
  shows "index_all False i (keys n) (index_of keys live) = index_of keys (live(i \<mapsto> n))"
proof
  fix k
  have "{j. \<exists>m. (live(i \<mapsto> n)) j = Some m \<and> k \<in> set (keys m)} =
      (if k \<in> set (keys n) then {i} else {}) \<union> {j. \<exists>m. live j = Some m \<and> k \<in> set (keys m)}"
    using assms by auto
  then show "index_all False i (keys n) (index_of keys live) k = index_of keys (live(i \<mapsto> n)) k"
    unfolding index_all_apply index_of_def Let_def by (auto simp: put_in_def)
qed

lemma index_of_remove:
  assumes "live i = Some n \<or> live i = None"
  shows "index_all True i (keys n) (index_of keys live) = index_of keys (live(i := None))"
proof
  fix k
  have ids: "{j. \<exists>m. (live(i := None)) j = Some m \<and> k \<in> set (keys m)} =
      {j. \<exists>m. live j = Some m \<and> k \<in> set (keys m)} - {i}"
    by auto
  have "k \<notin> set (keys n) \<Longrightarrow> i \<notin> {j. \<exists>m. live j = Some m \<and> k \<in> set (keys m)}"
    using assms by auto
  then show "index_all True i (keys n) (index_of keys live) k = index_of keys (live(i := None)) k"
    unfolding index_all_apply index_of_def Let_def ids by (auto simp: taken_out_def)
qed

definition reps :: "bool list \<Rightarrow> (int \<rightharpoonup> int) \<Rightarrow> reservoir \<Rightarrow> bool" where
  "reps primes live ar \<longleftrightarrow>
     MElements ar = index_of (\<lambda>n. [n]) live \<and> Edge3 ar = index_of (edge_keys primes) live \<and>
     EdgeCond ar = index_of (cond_keys primes) live \<and> EdgesSlackless ar = index_of all_slackless live"

lemma reps_New: "reps primes Map.empty NewReservoir"
  by (auto simp: reps_def NewReservoir_def index_of_def)

lemma RemoveSpentEdges_reps:
  assumes "reps primes live ar" "n = NElements am - Padded am"
    and "live (IdxArticle am) = Some n \<or> live (IdxArticle am) = None" "shape_plugs primes n \<noteq> None"
  shows "\<exists>ar'. RemoveSpentEdges primes ar am = Some ar' \<and> reps primes (live(IdxArticle am := None)) ar' \<and>
    Amorphs ar' = Amorphs ar"
proof -
  have "SubmapAddRemove True (MElements ar) n (IdxArticle am) = index_all True (IdxArticle am) [n] (MElements ar)"
    by simp
  then show ?thesis
    using assms index_of_remove[where live = live and i = "IdxArticle am" and n = n]
    by (auto simp: RemoveSpentEdges_def PermutateShapes_eq[OF refl] reps_def simp del: foldl_Cons foldl_Nil)
qed

lemma add_one_reps:
  assumes "add_one primes ar i = Some ar'" "reps primes live ar" "live (int i) = None"
    and am: "am = Amorphs ar ! i" "IdxArticle am = 0" "NElements am = n" "n \<noteq> 0" "Padded am = 0"
  shows "reps primes (live(int i \<mapsto> n)) ar'"
    "\<exists>am'. Amorphs ar' = (Amorphs ar)[i := am'] \<and> IdxArticle am' = int i \<and> NElements am' = n \<and> Padded am' = 0"
    "shape_plugs primes n \<noteq> None"
proof -
  define am' where "am' = (let am = am\<lparr>IdxArticle := int i\<rparr>
    in if AestheticValue am = 0 then am\<lparr>AestheticValue := AestheticValue_of (Cols am) (Rows am)\<rparr> else am)"
  have am': "IdxArticle am' = int i" "NElements am' = n" "Padded am' = 0" "Cols am' = Cols am" "Rows am' = Rows am"
    using am by (auto simp: am'_def Let_def)
  obtain hw hh ar1 where ar1: "PermutateShapes primes
      (ar\<lparr>Amorphs := (Amorphs ar)[i := am'], HistoWidths := hw, HistoHeights := hh,
        SumSqWidths := SumSqWidths ar + Cols am * Cols am,
        SumSqHeights := SumSqHeights ar + Rows am * Rows am\<rparr>) am' False = Some ar1"
    and ar': "ar' = ar1\<lparr>MElements := SubmapAddRemove False (MElements ar1) n (int i)\<rparr>"
    using assms(1) am unfolding add_one_def am'_def
    by (auto simp: Let_def split: if_splits)
  have "SubmapAddRemove False (MElements ar) n (int i) = index_all False (int i) [n] (MElements ar)" by simp
  then show "reps primes (live(int i \<mapsto> n)) ar'"
    "\<exists>am'. Amorphs ar' = (Amorphs ar)[i := am'] \<and> IdxArticle am' = int i \<and> NElements am' = n \<and> Padded am' = 0"
    "shape_plugs primes n \<noteq> None"
    using ar1 ar' assms(2) am' index_of_add[where live = live and i = "int i"] assms(3)
    by (auto simp: PermutateShapes_eq[OF refl] reps_def simp del: foldl_Cons foldl_Nil)
qed

lemma inscribed_empty: "\<not> 0 < slack \<Longrightarrow> inscribed cols rows slack = {}"
  unfolding inscribed_def by (auto simp: zero_less_mult_iff)

lemma PermutateEdges_Some:
  assumes "PermutateEdges primes cols rows slack plugs = Some ps" "prime_table primes" "length primes \<le> 10000"
  shows "set ps = set plugs \<union> inscribed cols rows slack"
proof -
  have "slack \<le> 0 \<or> slack < int (length primes)"
    using assms(1) by (auto simp: PermutateEdges_def Let_def slice_get_def split: if_splits)
  then have "slack < int (length primes) \<or> slack \<le> 0" "slack < maxFactor * maxFactor"
    using assms(3) by (auto simp: maxFactor_def)
  then show ?thesis
  proof (cases "slack \<le> 0")
    case True
    then have "inscribed cols rows slack = {}" by (simp add: inscribed_empty)
    with True assms(1) show ?thesis by (simp add: PermutateEdges_def)
  next
    case False
    then show ?thesis
      using PermutateEdges_set[OF assms(2), of slack cols rows plugs] assms(1)
        \<open>slack < maxFactor * maxFactor\<close> \<open>slack < int (length primes) \<or> slack \<le> 0\<close> by auto
  qed
qed

lemma shapeshifts_set:
  assumes "prime_table primes" "length primes \<le> 10000"
  shows "shapeshifts primes r n idx cs mp plugs = Some (mp', ps) \<Longrightarrow>
    set ps = set plugs \<union> (\<Union>cols\<in>set cs. \<Union>(rows, slack)\<in>set_option (OtherSide n cols). inscribed cols rows slack)"
proof (induction cs arbitrary: mp plugs)
  case (Cons cols cs)
  then obtain rows slack mp1 ps1 where os: "OtherSide n cols = Some (rows, slack)"
    and pe: "PermutateEdges primes cols rows slack plugs = Some ps1"
    and sh: "shapeshifts primes r n idx cs mp1 ps1 = Some (mp', ps)"
    by (auto simp: Let_def)
  from Cons.IH[OF sh] PermutateEdges_Some[OF pe assms] os show ?case by (simp add: Un_assoc)
qed simp

lemma super_rows_set:
  assumes "prime_table primes" "length primes \<le> 10000"
  shows "super_rows primes n cols rs plugs = Some ps \<Longrightarrow>
    set ps = set plugs \<union> (\<Union>rows\<in>set rs. inscribed cols rows (cols * rows - n))"
  by (induction rs arbitrary: plugs) (auto dest!: PermutateEdges_Some[OF _ assms])

lemma super_cols_set:
  assumes "prime_table primes" "length primes \<le> 10000"
  shows "super_cols primes n se cs plugs = Some ps \<Longrightarrow>
    set ps = set plugs \<union> (\<Union>cols\<in>set cs. \<Union>rows\<in>{cols..se}. inscribed cols rows (cols * rows - n))"
  by (induction cs arbitrary: plugs) (auto dest!: super_rows_set[OF assms])

text \<open>The rectangles tried for an area \<open>n\<close>, and the edges an area can take.\<close>

definition tried :: "int \<Rightarrow> int \<Rightarrow> int \<Rightarrow> bool" where
  "tried n cols rows \<longleftrightarrow>
     RootCeiling n \<le> cols \<and>
     (cols \<le> n \<and> OtherSide n cols = Some (rows, cols * rows - n) \<or>
      cols \<le> (if n mod 2 = 0 then n div 2 else n div 2 + 1) \<and> cols \<le> rows \<and> rows \<le> n div 2 + 1)"

definition edges_of :: "int \<Rightarrow> plug set" where
  "edges_of n = {e. \<exists>cols rows. tried n cols rows \<and> e \<in> inscribed cols rows (cols * rows - n)}"

lemma tried_union:
  "(\<Union>c\<in>{r..n :: int}. {e. \<exists>rows. P c rows \<and> e \<in> J c rows}) \<union> (\<Union>c\<in>{r..u}. \<Union>rows\<in>{c..m}. J c rows) =
    {e. \<exists>c rows. (r \<le> c \<and> (c \<le> n \<and> P c rows \<or> c \<le> u \<and> c \<le> rows \<and> rows \<le> m)) \<and> e \<in> J c rows}"
  (is "?A \<union> ?B = ?C")
proof
  show "?A \<union> ?B \<subseteq> ?C" by fastforce
  show "?C \<subseteq> ?A \<union> ?B" by fastforce
qed

lemma shape_plugs_set:
  assumes "prime_table primes" "length primes \<le> 10000" "shape_plugs primes n = Some ps" "0 \<le> n"
  shows "set ps = edges_of n"
proof -
  have go: "go_div n 2 = n div 2" "go_mod n 2 = n mod 2" using assms(4) by simp_all
  obtain sl plugs where p: "shapeshifts primes False n 0 [RootCeiling n..n] Map.empty [] = Some (sl, plugs)"
    "super_cols primes n (n div 2 + 1)
       [RootCeiling n..if n mod 2 = 0 then n div 2 else n div 2 + 1] plugs = Some ps"
    using assms(3) unfolding shape_plugs_def go by auto
  let ?u = "if n mod 2 = 0 then n div 2 else n div 2 + 1"
  define J where "J cols rows = inscribed cols rows (cols * rows - n)" for cols rows
  have os: "(\<Union>(rows, slack)\<in>set_option (OtherSide n cols). inscribed cols rows slack) =
      {e. \<exists>rows. OtherSide n cols = Some (rows, cols * rows - n) \<and> e \<in> J cols rows}" for cols
    by (cases "OtherSide n cols") (auto simp: OtherSide_def Let_def J_def split: if_splits)
  have "set ps = (\<Union>cols\<in>{RootCeiling n..n}. {e. \<exists>rows. OtherSide n cols = Some (rows, cols * rows - n) \<and> e \<in> J cols rows})
    \<union> (\<Union>cols\<in>{RootCeiling n..?u}. \<Union>rows\<in>{cols..n div 2 + 1}. J cols rows)"
    using super_cols_set[OF assms(1,2) p(2)] shapeshifts_set[OF assms(1,2) p(1)]
    by (simp only: os set_upto J_def[symmetric] list.set Un_empty_left)
  also have "\<dots> = edges_of n"
    unfolding edges_of_def tried_def J_def[symmetric]
    by (rule tried_union)
  finally show ?thesis .
qed

lemma root_from_spec:
  "0 \<le> r \<Longrightarrow> (\<forall>q. 0 \<le> q \<and> q < r \<longrightarrow> q * q < n) \<Longrightarrow>
   r \<le> root_from r n \<and> n \<le> root_from r n * root_from r n \<and>
   (\<forall>q. 0 \<le> q \<and> q < root_from r n \<longrightarrow> q * q < n)"
proof (induction r n rule: root_from.induct)
  case (1 r n)
  show ?case
  proof (cases "n \<le> r * r")
    case True
    with 1 show ?thesis by (subst (1 2 3 4) root_from.simps) simp
  next
    case False
    then have "\<forall>q. 0 \<le> q \<and> q < r + 1 \<longrightarrow> q * q < n"
      using "1.prems"(2) by (metis linorder_not_le zle_add1_eq_le order_le_less)
    with 1 False have "r + 1 \<le> root_from (r + 1) n \<and> n \<le> root_from (r + 1) n * root_from (r + 1) n \<and>
        (\<forall>q. 0 \<le> q \<and> q < root_from (r + 1) n \<longrightarrow> q * q < n)" by simp
    with 1 False show ?thesis by (subst (1 2 3 4) root_from.simps) simp
  qed
qed

lemma RootCeiling_spec:
  "0 \<le> RootCeiling n" "n \<le> RootCeiling n * RootCeiling n"
  "0 \<le> q \<Longrightarrow> q < RootCeiling n \<Longrightarrow> q * q < n"
  using root_from_spec[of 0 n] unfolding RootCeiling_def by auto

lemma OtherSide_exact: "0 < n \<Longrightarrow> 0 < cols \<Longrightarrow> OtherSide n cols = Some (rows, 0) \<longleftrightarrow> cols * rows = n"
  unfolding OtherSide_def by (auto simp: Let_def minus_mod_eq_mult_div[symmetric] algebra_simps)

lemma OtherSide_slack:
  assumes "0 < n" "0 < cols" "OtherSide n cols = Some (rows, slack)"
  shows "cols * rows = n + slack \<and> 0 \<le> slack \<and> slack < cols \<and> 0 < rows"
proof -
  define q m where "q = n div cols" and "m = n mod cols"
  have d: "cols * q + m = n" "0 \<le> m" "m < cols" "0 \<le> q"
    using assms(1,2) by (simp_all add: q_def m_def pos_imp_zdiv_nonneg_iff)
  have os: "rows = (if m = 0 then q else q + 1)" "slack = cols * rows - n"
    using assms by (auto simp: OtherSide_def Let_def q_def m_def)
  show ?thesis
  proof (cases "m = 0")
    case True
    then have "q \<noteq> 0" using d(1) assms(1) by auto
    with True os d show ?thesis by simp
  next
    case False
    then have "slack = cols - m" using os d(1) by (simp add: algebra_simps)
    with False os d show ?thesis by simp
  qed
qed

lemma slackless_keys_set:
  "set (slackless_keys n cs) = {k. \<exists>cols\<in>set cs. \<exists>rows. OtherSide n cols = Some (rows, 0) \<and>
     (k = Enc cols rows 0 \<or> k = Enc rows cols 0)}"
  by (induction cs) (force split: option.splits)+

lemma all_slackless_set:
  assumes "0 < n"
  shows "set (all_slackless n) = {k. \<exists>c r. 0 < c \<and> 0 < r \<and> c * r = n \<and> k = Enc c r 0}"
proof -
  have rc: "0 < RootCeiling n" using RootCeiling_spec(1,2)[of n] assms by (cases "RootCeiling n = 0") auto
  have big: "RootCeiling n \<le> max c r" if "0 < c" "0 < r" "c * r = n" for c r
  proof (rule ccontr)
    let ?m = "max c r"
    assume "\<not> RootCeiling n \<le> ?m"
    then have "?m * ?m < n" using that by (intro RootCeiling_spec(3)) auto
    moreover have "c * r \<le> ?m * ?m" using that by (intro mult_mono) auto
    ultimately show False using that by simp
  qed
  have le: "c \<le> n" if "0 < c" "0 < r" "c * r = n" for c r
    using that mult_left_mono[of 1 r c] by simp
  have "(\<exists>cols\<in>set [RootCeiling n..n]. \<exists>rows. OtherSide n cols = Some (rows, 0) \<and>
      (k = Enc cols rows 0 \<or> k = Enc rows cols 0)) \<longleftrightarrow>
    (\<exists>c r. 0 < c \<and> 0 < r \<and> c * r = n \<and> k = Enc c r 0)" (is "?A \<longleftrightarrow> ?B") for k
  proof
    assume ?A
    then obtain cols rows where c: "RootCeiling n \<le> cols" "OtherSide n cols = Some (rows, 0)"
      "k = Enc cols rows 0 \<or> k = Enc rows cols 0" by auto
    with rc assms have "0 < cols" "cols * rows = n" by (auto simp: OtherSide_exact)
    moreover have "0 < rows" using calculation assms by (auto simp: zero_less_mult_iff)
    ultimately show ?B using c(3) by (auto simp: mult.commute)
  next
    assume ?B
    then obtain c r where c: "0 < c" "0 < r" "c * r = n" "k = Enc c r 0" by blast
    then have "OtherSide n c = Some (r, 0)" "OtherSide n r = Some (c, 0)"
      using assms by (simp_all add: OtherSide_exact mult.commute)
    with big[OF c(1-3)] le[of c r] le[of r c] c show ?A
      by (cases "r \<le> c") (auto simp: max_def mult.commute)
  qed
  then show ?thesis unfolding all_slackless_def slackless_keys_set by simp
qed

subsection \<open>A filled and partly spent reservoir\<close>

lemma specific_amorphs_fields:
  "specific_amorphs nums = Some ams \<Longrightarrow>
   map IdxArticle ams = replicate (length nums) 0 \<and> map NElements ams = nums \<and>
   map Padded ams = replicate (length nums) 0"
  by (induction nums arbitrary: ams) (auto simp: amorph0_def Let_def)

definition live_below :: "int list \<Rightarrow> nat \<Rightarrow> int \<rightharpoonup> int" where
  "live_below nums k j = (if 0 \<le> j \<and> j < int k then Some (nums ! nat j) else None)"

definition stocked :: "int list \<Rightarrow> nat \<Rightarrow> amorph list \<Rightarrow> bool" where
  "stocked nums k ams \<longleftrightarrow> length ams = length nums \<and>
     (\<forall>i<length nums. IdxArticle (ams ! i) = (if i < k then int i else 0) \<and>
        NElements (ams ! i) = nums ! i \<and> Padded (ams ! i) = 0)"

lemma add_loop_reps:
  assumes "\<forall>n\<in>set nums. n \<noteq> 0"
  shows "add_loop primes [k..<length nums] ar = Some ar' \<Longrightarrow> reps primes (live_below nums k) ar \<Longrightarrow>
    stocked nums k (Amorphs ar) \<Longrightarrow> k \<le> length nums \<Longrightarrow> \<forall>i<k. shape_plugs primes (nums ! i) \<noteq> None \<Longrightarrow>
    reps primes (live_below nums (length nums)) ar' \<and> stocked nums (length nums) (Amorphs ar') \<and>
    (\<forall>i<length nums. shape_plugs primes (nums ! i) \<noteq> None)"
proof (induction "length nums - k" arbitrary: k ar)
  case (Suc d)
  then have k: "k < length nums" and d: "d = length nums - Suc k" by auto
  then have "[k..<length nums] = k # [Suc k..<length nums]" by (simp add: upt_conv_Cons)
  then obtain ar1 where a1: "add_one primes ar k = Some ar1" and l: "add_loop primes [Suc k..<length nums] ar1 = Some ar'"
    using Suc.prems(1) by auto
  have "IdxArticle (Amorphs ar ! k) = 0" "NElements (Amorphs ar ! k) = nums ! k" "Padded (Amorphs ar ! k) = 0"
    "nums ! k \<noteq> 0" using Suc.prems(3) k assms by (auto simp: stocked_def)
  note one = add_one_reps[OF a1 Suc.prems(2) _ refl this(1,2,4,3)]
  have "live_below nums k (int k) = None" by (simp add: live_below_def)
  note one = one[OF this]
  have "(live_below nums k)(int k \<mapsto> nums ! k) = live_below nums (Suc k)"
    by (auto simp: live_below_def)
  with one(1) have r: "reps primes (live_below nums (Suc k)) ar1" by simp
  have "stocked nums (Suc k) (Amorphs ar1)"
    using one(2) Suc.prems(3) k by (auto simp: stocked_def nth_list_update less_Suc_eq)
  moreover have "\<forall>i<Suc k. shape_plugs primes (nums ! i) \<noteq> None"
    using one(3) Suc.prems(5) by (auto simp: less_Suc_eq)
  ultimately show ?case using Suc.hyps(1)[OF d l r] k by simp
qed auto

text \<open>Several articles taken out one after the other.\<close>

fun remove_all :: "bool list \<Rightarrow> reservoir \<Rightarrow> int list \<Rightarrow> reservoir option" where
  "remove_all primes ar [] = Some ar"
| "remove_all primes ar (j # js) = do {
     am \<leftarrow> slice_get (Amorphs ar) j;
     ar' \<leftarrow> RemoveSpentEdges primes ar am;
     remove_all primes ar' js }"

lemma remove_all_reps:
  assumes "\<forall>i<length nums. shape_plugs primes (nums ! i) \<noteq> None"
  shows "reps primes live ar \<Longrightarrow> stocked nums (length nums) (Amorphs ar) \<Longrightarrow>
    (\<forall>j. live j = Some (nums ! nat j) \<or> live j = None) \<Longrightarrow> set js \<subseteq> {0..<int (length nums)} \<Longrightarrow>
    \<exists>ar'. remove_all primes ar js = Some ar' \<and> reps primes (\<lambda>j. if j \<in> set js then None else live j) ar'"
proof (induction js arbitrary: live ar)
  case (Cons j js)
  then obtain i where i: "j = int i" "i < length nums"
    by (metis (no_types) atLeastLessThan_iff list.set_intros(1) nonneg_int_cases of_nat_less_iff subset_iff)
  then have am: "slice_get (Amorphs ar) j = Some (Amorphs ar ! i)" "NElements (Amorphs ar ! i) = nums ! i"
    "IdxArticle (Amorphs ar ! i) = j" "Padded (Amorphs ar ! i) = 0"
    using Cons.prems(2) by (auto simp: stocked_def)
  have lj: "live (IdxArticle (Amorphs ar ! i)) = Some (nums ! i) \<or> live (IdxArticle (Amorphs ar ! i)) = None"
    using Cons.prems(3)[rule_format, of j] i am(3) by simp
  obtain ar1 where ar1: "RemoveSpentEdges primes ar (Amorphs ar ! i) = Some ar1"
    "reps primes (live(j := None)) ar1" "Amorphs ar1 = Amorphs ar"
    using RemoveSpentEdges_reps[OF Cons.prems(1) _ lj] am assms i by auto
  have "(\<lambda>k. if k \<in> set js then None else (live(j := None)) k) =
      (\<lambda>k. if k \<in> set (j # js) then None else live k)" by auto
  then show ?case
    using Cons.IH[OF ar1(2)] Cons.prems ar1 am(1) by simp
qed simp

definition ids :: "index \<Rightarrow> int \<Rightarrow> int set" where
  "ids mp k = (case mp k of None \<Rightarrow> {} | Some s \<Rightarrow> s)"

lemma ids_index_of: "ids (index_of keys live) k = {i. \<exists>n. live i = Some n \<and> k \<in> set (keys n)}"
  by (auto simp: ids_def index_of_def Let_def)

lemma filled_reps:
  assumes "GenerateSpecificAmorphs primes NewReservoir nums = Some ar" "\<forall>n\<in>set nums. 0 < n"
  shows "reps primes (live_below nums (length nums)) ar" "stocked nums (length nums) (Amorphs ar)"
    "\<forall>i<length nums. shape_plugs primes (nums ! i) \<noteq> None"
proof -
  obtain ams ar1 where ams: "specific_amorphs nums = Some ams"
    and ar1: "add_loop primes [0..<length ams] (NewReservoir\<lparr>Amorphs := ams\<rparr>) = Some ar1" "ar = update_gaps ar1"
    using assms(1) by (auto simp: GenerateSpecificAmorphs_def AddAmorphs_def NewReservoir_def)
  note fl = specific_amorphs_fields[OF ams]
  then have len: "length ams = length nums" by (metis length_map)
  have st: "stocked nums 0 ams"
    unfolding stocked_def using fl len by (metis length_map nth_map nth_replicate not_less0)
  have lb0: "live_below nums 0 = Map.empty" by (auto simp: live_below_def)
  have "reps primes (live_below nums 0) (NewReservoir\<lparr>Amorphs := ams\<rparr>)"
    using reps_New[of primes] lb0 by (simp add: reps_def)
  from add_loop_reps[OF _ ar1(1)[unfolded len] this] st assms(2)
  have 1: "reps primes (live_below nums (length nums)) ar1" "stocked nums (length nums) (Amorphs ar1)"
    "\<forall>i<length nums. shape_plugs primes (nums ! i) \<noteq> None" by auto
  then show "reps primes (live_below nums (length nums)) ar" "stocked nums (length nums) (Amorphs ar)"
    "\<forall>i<length nums. shape_plugs primes (nums ! i) \<noteq> None"
    by (simp_all add: ar1(2) update_gaps_def Let_def reps_def)
qed

text \<open>C23: The indexes of a reservoir are exact. Fill a new reservoir with areas and take out any
  of the articles: the area index finds exactly the articles left of that area, the index of
  full rectangles exactly those whose area is the product of the two sides, and the edge index
  exactly those that can take an edge with that code, an edge being a slack inscribed in one of
  the rectangles tried for the area. The removals never panic.\<close>

theorem reservoir_indexes:
  assumes "GenerateSpecificAmorphs primes NewReservoir nums = Some ar"
    and "prime_table primes" "length primes \<le> 10000"
    and "\<forall>n\<in>set nums. 0 < n" "set spent \<subseteq> {0..<int (length nums)}"
  shows "\<exists>ar'. remove_all primes ar spent = Some ar' \<and>
    (\<forall>k. ids (MElements ar') k = {int i | i. i < length nums \<and> int i \<notin> set spent \<and> nums ! i = k}) \<and>
    (\<forall>k. ids (EdgesSlackless ar') k = {int i | i. i < length nums \<and> int i \<notin> set spent \<and>
       (\<exists>c r. 0 < c \<and> 0 < r \<and> c * r = nums ! i \<and> k = Enc c r 0)}) \<and>
    (\<forall>k. ids (Edge3 ar') k = {int i | i. i < length nums \<and> int i \<notin> set spent \<and>
       (\<exists>(a, h, b)\<in>edges_of (nums ! i). k = Enc a h b)})"
proof -
  note filled = filled_reps[OF assms(1,4)]
  have "\<forall>j. live_below nums (length nums) j = Some (nums ! nat j) \<or> live_below nums (length nums) j = None"
    by (simp add: live_below_def)
  then obtain ar' where ar': "remove_all primes ar spent = Some ar'"
    "reps primes (\<lambda>j. if j \<in> set spent then None else live_below nums (length nums) j) ar'"
    using remove_all_reps[OF filled(3,1,2)] assms(5) by blast
  let ?live = "\<lambda>j. if j \<in> set spent then None else live_below nums (length nums) j"
  have left: "{i. \<exists>n. ?live i = Some n \<and> P n} = {int i | i. i < length nums \<and> int i \<notin> set spent \<and> P (nums ! i)}" for P
    by (auto simp: live_below_def split: if_splits intro: nonneg_int_cases)
  have idk: "ids (index_of keys ?live) k =
      {int i | i. i < length nums \<and> int i \<notin> set spent \<and> k \<in> set (keys (nums ! i))}" for keys k
    unfolding ids_index_of by (rule left)
  have pl: "k \<in> set (edge_keys primes (nums ! i)) \<longleftrightarrow> (\<exists>(a, h, b)\<in>edges_of (nums ! i). k = Enc a h b)"
    if il: "i < length nums" for i k
  proof -
    obtain ps where ps: "shape_plugs primes (nums ! i) = Some ps" using filled(3) il by blast
    have "0 \<le> nums ! i" using assms(4) il by (simp add: order_less_imp_le)
    with shape_plugs_set[OF assms(2,3) ps] show ?thesis by (simp add: edge_keys_def ps image_iff split_def)
  qed
  have sl: "k \<in> set (all_slackless (nums ! i)) \<longleftrightarrow> (\<exists>c r. 0 < c \<and> 0 < r \<and> c * r = nums ! i \<and> k = Enc c r 0)"
    if "i < length nums" for i k
    using all_slackless_set[of "nums ! i"] assms(4) that by simp
  show ?thesis
    using ar' unfolding reps_def
    by (intro exI[of _ ar']) (simp add: idk pl sl eq_commute cong: conj_cong)
qed

lemma prime_table_code [code]:
  "prime_table primes \<longleftrightarrow> (\<forall>i\<in>set [0..<length primes].
     primes ! i \<longleftrightarrow> i < 2 \<or> (\<forall>d\<in>set [2..int i - 1]. int i mod d \<noteq> 0))"
  unfolding prime_table_def by (auto simp: dvd_eq_mod_eq_0)

theorem reservoir_indexes_witness:
  "\<exists>ar ar'. GenerateSpecificAmorphs [True, True, True, True, False, True] NewReservoir [3, 2] = Some ar \<and>
     remove_all [True, True, True, True, False, True] ar [0] = Some ar' \<and>
     ids (MElements ar') 2 = {1} \<and> ids (MElements ar') 3 = {}"
proof -
  let ?tab = "[True, True, True, True, False, True]"
  have tab: "prime_table ?tab" by code_simp
  have "\<not> Option.is_none (GenerateSpecificAmorphs ?tab NewReservoir [3, 2])" by code_simp
  then obtain ar where ar: "GenerateSpecificAmorphs ?tab NewReservoir [3, 2] = Some ar"
    by (auto simp: Option.is_none_def)
  from reservoir_indexes[OF this tab, of "[0]"] obtain ar' where ar': "remove_all ?tab ar [0] = Some ar'"
    "\<forall>k. ids (MElements ar') k = {int i | i. i < length [3 :: int, 2] \<and> int i \<notin> set [0] \<and> [3, 2] ! i = k}"
    by auto
  have "{int i | i. i < length [3 :: int, 2] \<and> int i \<notin> set [0] \<and> [3, 2] ! i = k} = (if k = 2 then {1} else {})" for k
    by (auto simp: less_Suc_eq)
  with ar ar' show ?thesis by auto
qed

subsection \<open>Codes of edges and square shapes\<close>

text \<open>The code of an edge with limbs and step below 100 decodes to the edge, and a mirrored
  edge, as ReverseEdge makes it, has the code of the edge: limbs swapped, step negated.\<close>

theorem edge_code:
  assumes "0 \<le> a" "a < 100" "0 < h" "h < 100" "0 \<le> b" "b < 100" "Edge f = [a, h, b]"
  shows "Dec (Enc a h b) = (a, h, b, fmt_int a @ ''-'' @ fmt_int h @ ''-'' @ fmt_int b) \<and>
    Edge (ReverseEdge f) = [b, - h, a] \<and> Enc b (- h) a = Enc a h b \<and> ReverseEdge (ReverseEdge f) = f"
proof (intro conjI)
  have e: "Enc a h b = a * 10000 + h * 100 + b"
    using assms by (simp add: Enc_def multiSortFactor_def)
  have d1: "(a * 10000 + h * 100 + b) div 10000 = a" using assms by simp
  have d2: "(h * 100 + b) div 100 = h" using assms by simp
  have d3: "0 \<le> a * 10000 + h * 100 + b" "0 \<le> h * 100 + b" using assms by simp_all
  show "Dec (Enc a h b) = (a, h, b, fmt_int a @ ''-'' @ fmt_int h @ ''-'' @ fmt_int b)"
    unfolding e Dec_def Let_def multiSortFactor_def using d1 d2 d3 by simp
  show "Edge (ReverseEdge f) = [b, - h, a]" "Enc b (- h) a = Enc a h b"
    using assms by (simp_all add: ReverseEdge_def Enc_def numeral_eq_Suc)
  show "ReverseEdge (ReverseEdge f) = f"
    using assms(7) by (cases f) (simp add: ReverseEdge_def numeral_eq_Suc)
qed

theorem edge_code_witness:
  "Dec (Enc 3 2 4) = (3, 2, 4, ''3-2-4'') \<and> Enc 4 (- 2) 3 = Enc 3 2 4"
proof -
  have "fmt_int 3 @ ''-'' @ fmt_int 2 @ ''-'' @ fmt_int 4 = ''3-2-4''" by code_simp
  with edge_code[of 3 2 4 "amorph0\<lparr>Edge := [3, 2, 4]\<rparr>"] show ?thesis by simp
qed

text \<open>RootCeiling and OtherSide give the squarest rectangle that
  holds an area: the sides differ by at most one, the rectangle misses the area by the slack,
  and the slack is smaller than the width.\<close>

theorem squarest_rectangle:
  assumes "0 < n"
  shows "\<exists>rows slack. OtherSide n (RootCeiling n) = Some (rows, slack) \<and>
    RootCeiling n * rows = n + slack \<and> 0 \<le> slack \<and> slack < RootCeiling n \<and>
    (rows = RootCeiling n \<or> rows = RootCeiling n - 1)"
proof -
  define c where "c = RootCeiling n"
  have c: "0 < c" using RootCeiling_spec(1,2)[of n] assms unfolding c_def by (cases "RootCeiling n = 0") auto
  obtain rows slack where os: "OtherSide n c = Some (rows, slack)"
    using c by (auto simp: OtherSide_def Let_def)
  note s = OtherSide_slack[OF assms c os]
  have "rows \<le> c"
  proof (rule ccontr)
    assume "\<not> rows \<le> c"
    then have "c * (c + 1) \<le> c * rows" using c by simp
    then show False using s RootCeiling_spec(2)[of n] unfolding c_def[symmetric]
      by (simp add: algebra_simps)
  qed
  moreover have "c - 1 \<le> rows"
  proof (rule ccontr)
    assume "\<not> c - 1 \<le> rows"
    then have "c * rows \<le> c * (c - 2)" using c by simp
    moreover have "(c - 1) * (c - 1) < n" using RootCeiling_spec(3)[of "c - 1" n] c unfolding c_def by simp
    ultimately show False using s by (simp add: algebra_simps)
  qed
  ultimately show ?thesis using os s unfolding c_def[symmetric] by auto
qed

theorem squarest_rectangle_witness:
  "\<exists>rows slack. OtherSide 12 (RootCeiling 12) = Some (rows, slack) \<and> RootCeiling 12 * rows = 12 + slack"
  using squarest_rectangle[of 12] by auto

end
