(* ===== verification/Matrix.thy ===== *)
theory Matrix
  imports Amorph Strings
begin

section \<open>The transposable matrix (transposablematrix/10-matrix.go)\<close>

text \<open>
  A plane of slots onto which amorphs are painted and which is looked at from four
  perspectives. Base coordinates index the slice of slices; mapped coordinates are relative to
  a centre and turned by the perspective. \<open>Set\<close> maintains, next to the slots, the bounding
  box of the filled slots and eight outmost points.

  \<^item> The code keeps the outmost points in fields and, a second time, in a slice of pointers to
    those fields (\<open>sOutmost\<close>); here \<open>outmost\<close> reads the field behind a position of that
    slice, so a function that returns rotated pointers returns positions with their values at
    the end of the call.
  \<^item> \<open>Slot.AmX\<close> is a pointer to a copy of an amorph that is never written again: an optional
    amorph.
  \<^item> The global map \<open>Spent\<close> is a set of article numbers, passed to and returned from
    \<open>CastStitch\<close>.
  \<^item> \<open>PrintMatrixBuffer\<close> only prints.
\<close>

subsection \<open>Points, ordered by column, then row\<close>

datatype point = Point (px: int) (py: int)

instantiation point :: linorder
begin

definition less_eq_point :: "point \<Rightarrow> point \<Rightarrow> bool" where
  "less_eq_point p q \<longleftrightarrow> px p < px q \<or> px p = px q \<and> py p \<le> py q"

definition less_point :: "point \<Rightarrow> point \<Rightarrow> bool" where
  "less_point p q \<longleftrightarrow> px p < px q \<or> px p = px q \<and> py p < py q"

instance
  by standard (auto simp: less_eq_point_def less_point_def point.expand)

end

subsection \<open>State\<close>

record slot =
  AmX :: "amorph option"
  Label :: string
  Ax :: int
  Ay :: int

definition slot0 :: slot where
  "slot0 = \<lparr>AmX = None, Label = '''', Ax = 0, Ay = 0\<rparr>"

record matrix =
  mtx :: "slot list list"
  nx :: int
  ny :: int
  cx :: int
  cy :: int
  xmif :: int
  ymif :: int
  xmaf :: int
  ymaf :: int
  NNW :: point
  NWW :: point
  SWW :: point
  SSW :: point
  SSE :: point
  SEE :: point
  NEE :: point
  NNE :: point
  vPRx1 :: int
  vPRx2 :: int
  vPRy1 :: int
  vPRy2 :: int
  enforceVPR :: bool
  persp :: int

definition outmost :: "matrix \<Rightarrow> nat \<Rightarrow> point" where
  "outmost m i = [NNW m, NWW m, SWW m, SSW m, SSE m, SEE m, NEE m, NNE m] ! i"

definition NewTransposableMatrix :: "int \<Rightarrow> int \<Rightarrow> matrix option" where
  "NewTransposableMatrix argNx argNy =
     (if argNx < 0 \<or> 0 < argNx \<and> argNy < 0 then None
      else Some \<lparr>mtx = replicate (nat argNx) (replicate (nat argNy) slot0), nx = argNx, ny = argNy,
        cx = go_div argNx 2, cy = go_div argNy 2, xmif = argNx - 1, ymif = argNy - 1,
        xmaf = 0, ymaf = 0, NNW = Point 0 0, NWW = Point 0 0, SWW = Point 0 0, SSW = Point 0 0,
        SSE = Point 0 0, SEE = Point 0 0, NEE = Point 0 0, NNE = Point 0 0,
        vPRx1 = 0, vPRx2 = 0, vPRy1 = 0, vPRy2 = 0, enforceVPR = False, persp = 0\<rparr>)"

definition SetCenter :: "matrix \<Rightarrow> int \<Rightarrow> int \<Rightarrow> matrix" where
  "SetCenter m x y = m\<lparr>cx := go_div (nx m) 2 + x, cy := go_div (ny m) 2 + y\<rparr>"

definition Center :: "matrix \<Rightarrow> int \<times> int" where
  "Center m = (cx m, cy m)"

definition SetPerspective :: "matrix \<Rightarrow> int \<Rightarrow> matrix option" where
  "SetPerspective m p = (if \<not> (0 \<le> p \<and> p \<le> 3) then None else Some (m\<lparr>persp := p\<rparr>))"

subsection \<open>Coordinates\<close>

definition transposeMapped2Base :: "matrix \<Rightarrow> int \<Rightarrow> int \<Rightarrow> (int \<times> int) option" where
  "transposeMapped2Base m xm ym = do {
     col0 \<leftarrow> slice_get (mtx m) 0;
     let lx = int (length (mtx m)) - 1;
     let ly = int (length col0) - 1;
     if persp m = 0 then
       let xm = xm + cx m; ym = ym + cy m
       in Some (if ly < ym \<or> lx < xm \<or> ym < 0 \<or> xm < 0 then (-1, -1) else (xm, ym))
     else if persp m = 1 then
       let xm = xm - cy m; ym = ym + cx m
       in Some (if lx < ym \<or> ly < - xm \<or> ym < 0 \<or> - xm < 0 then (-1, -1) else (ym, - xm))
     else if persp m = 2 then
       let xm = xm - cx m; ym = ym - cy m
       in Some (if lx < - xm \<or> ly < - ym \<or> - xm < 0 \<or> - ym < 0 then (-1, -1) else (- xm, - ym))
     else if persp m = 3 then
       let xm = xm + cy m; ym = ym - cx m
       in Some (if lx < - ym \<or> ly < xm \<or> - ym < 0 \<or> xm < 0 then (-1, -1) else (- ym, xm))
     else None }"

definition transposeBase2Mapped :: "matrix \<Rightarrow> int \<Rightarrow> int \<Rightarrow> (int \<times> int) option" where
  "transposeBase2Mapped m xb yb =
     (if persp m = 0 then Some (xb - cx m, yb - cy m)
      else if persp m = 1 then Some (- yb + cy m, xb - cx m)
      else if persp m = 2 then Some (- xb + cx m, - yb + cy m)
      else if persp m = 3 then Some (yb - cy m, - xb + cx m)
      else None)"

definition ViewportRestriction :: "matrix \<Rightarrow> int \<Rightarrow> int \<Rightarrow> int \<Rightarrow> int \<Rightarrow> matrix option" where
  "ViewportRestriction m vPRMx1 vPRMy1 vPRMx2 vPRMy2 = do {
     (vPRBx1, vPRBy1) \<leftarrow> transposeMapped2Base m vPRMx1 vPRMy1;
     (vPRBx2, vPRBy2) \<leftarrow> transposeMapped2Base m vPRMx2 vPRMy2;
     Some (m\<lparr>vPRx1 := vPRBx1, vPRy1 := vPRBy1, vPRx2 := vPRBx2, vPRy2 := vPRBy2, enforceVPR := True\<rparr>) }"

subsection \<open>Reading and writing slots\<close>

text \<open>\<^verbatim>\<open>updateLimits\<close> in its three parts: the box of the filled slots, then the
  outmost points along the vertical sides of the box, then those along the horizontal sides.
  The assignments of a part do not depend on each other.\<close>

definition total_limits :: "matrix \<Rightarrow> int \<Rightarrow> int \<Rightarrow> matrix" where
  "total_limits m xb yb = m\<lparr>
     xmif := (if xb < xmif m then xb else xmif m),
     xmaf := (if xmaf m \<le> xb then xb else xmaf m),
     ymif := (if yb < ymif m then yb else ymif m),
     ymaf := (if ymaf m \<le> yb then yb else ymaf m)\<rparr>"

definition horiz_outmost :: "matrix \<Rightarrow> int \<Rightarrow> int \<Rightarrow> matrix" where
  "horiz_outmost m xb yb = m\<lparr>
     NWW := (if xb = xmif m \<and> (yb < py (NWW m) \<or> xb \<noteq> px (NWW m)) then Point xb yb else NWW m),
     NEE := (if xb = xmaf m \<and> (yb < py (NEE m) \<or> xb \<noteq> px (NEE m)) then Point xb yb else NEE m),
     SWW := (if xb = xmif m \<and> (py (SWW m) < yb \<or> xb \<noteq> px (SWW m)) then Point xb yb else SWW m),
     SEE := (if xb = xmaf m \<and> (py (SEE m) < yb \<or> xb \<noteq> px (SEE m)) then Point xb yb else SEE m)\<rparr>"

definition vert_outmost :: "matrix \<Rightarrow> int \<Rightarrow> int \<Rightarrow> matrix" where
  "vert_outmost m xb yb = m\<lparr>
     NNW := (if yb = ymif m \<and> (xb < px (NNW m) \<or> yb \<noteq> py (NNW m)) then Point xb yb else NNW m),
     NNE := (if yb = ymif m \<and> (px (NNE m) < xb \<or> yb \<noteq> py (NNE m)) then Point xb yb else NNE m),
     SSW := (if yb = ymaf m \<and> (xb < px (SSW m) \<or> yb \<noteq> py (SSW m)) then Point xb yb else SSW m),
     SSE := (if yb = ymaf m \<and> (px (SSE m) < xb \<or> yb \<noteq> py (SSE m)) then Point xb yb else SSE m)\<rparr>"

definition updateLimits :: "matrix \<Rightarrow> int \<Rightarrow> int \<Rightarrow> matrix" where
  "updateLimits m xb yb = vert_outmost (horiz_outmost (total_limits m xb yb) xb yb) xb yb"

text \<open>\<^verbatim>\<open>m.m[x][y]\<close>, read and written.\<close>

definition slot_at :: "matrix \<Rightarrow> int \<Rightarrow> int \<Rightarrow> slot option" where
  "slot_at m x y = do { col \<leftarrow> slice_get (mtx m) x; slice_get col y }"

definition put_slot :: "matrix \<Rightarrow> int \<Rightarrow> int \<Rightarrow> slot \<Rightarrow> matrix option" where
  "put_slot m x y slt = do {
     col \<leftarrow> slice_get (mtx m) x;
     col' \<leftarrow> slice_set col y slt;
     cols \<leftarrow> slice_set (mtx m) x col';
     Some (m\<lparr>mtx := cols\<rparr>) }"

definition mx_Get :: "matrix \<Rightarrow> int \<Rightarrow> int \<Rightarrow> slot option" where
  "mx_Get m x y = do {
     (xm, ym) \<leftarrow> transposeMapped2Base m x y;
     if xm = -1 \<or> ym = -1 then Some (slot0\<lparr>Label := ''~~''\<rparr>) else slot_at m xm ym }"

definition mx_Empty :: "matrix \<Rightarrow> int \<Rightarrow> int \<Rightarrow> bool option" where
  "mx_Empty m x y = do { sl \<leftarrow> mx_Get m x y; Some (AmX sl = None) }"

definition mx_Set :: "matrix \<Rightarrow> int \<Rightarrow> int \<Rightarrow> slot \<Rightarrow> matrix option" where
  "mx_Set m x y slt = do {
     (xb, yb) \<leftarrow> transposeMapped2Base m x y;
     if xb = -1 \<or> yb = -1 then Some m
     else do {
       m' \<leftarrow> put_slot m xb yb slt;
       Some (if AmX slt \<noteq> None then updateLimits m' xb yb else m') } }"

definition SetLabel :: "matrix \<Rightarrow> int \<Rightarrow> int \<Rightarrow> slot \<Rightarrow> matrix option" where
  "SetLabel m x y slt = do {
     bef \<leftarrow> mx_Get m x y;
     mx_Set m x y (bef\<lparr>Label := Label slt\<rparr>) }"

text \<open>\<^verbatim>\<open>Delete\<close> panics before it does anything.\<close>

definition mx_Delete :: "matrix \<Rightarrow> int \<Rightarrow> int \<Rightarrow> matrix option" where
  "mx_Delete m x y = None"

subsection \<open>Limits\<close>

text \<open>The corner sprites, from noon against the clock.\<close>

definition lineHoriz :: nat where "lineHoriz = 0x2500"

definition runeCorner :: "nat \<Rightarrow> nat" where "runeCorner i = 0x250C + i * 4"

definition spriteCorners1 :: "string list" where
  "spriteCorners1 =
     [EncodeRune (runeCorner 0) @ EncodeRune lineHoriz, EncodeRune (runeCorner 2) @ EncodeRune lineHoriz,
      EncodeRune lineHoriz @ EncodeRune (runeCorner 3), EncodeRune lineHoriz @ EncodeRune (runeCorner 1)]"

definition spriteUturnsHoriz :: "string list" where
  "spriteUturnsHoriz = [EncodeRune 0x5B @ EncodeRune lineHoriz, EncodeRune lineHoriz @ EncodeRune 0x5D]"

definition label_base :: "int \<Rightarrow> int \<Rightarrow> string \<Rightarrow> matrix \<Rightarrow> matrix option" where
  "label_base x y l m = do { s \<leftarrow> slot_at m x y; put_slot m x y (s\<lparr>Label := l\<rparr>) }"

definition totalMinMaxPrint :: "matrix \<Rightarrow> matrix option" where
  "totalMinMaxPrint m = do {
     let p = 4 - persp m;
     l0 \<leftarrow> slice_get spriteCorners1 (go_mod (p + 0) 4);
     m \<leftarrow> label_base (xmif m) (ymif m) l0 m;
     l1 \<leftarrow> slice_get spriteCorners1 (go_mod (p + 1) 4);
     m \<leftarrow> label_base (xmif m) (ymaf m) l1 m;
     l2 \<leftarrow> slice_get spriteCorners1 (go_mod (p + 2) 4);
     m \<leftarrow> label_base (xmaf m) (ymaf m) l2 m;
     l3 \<leftarrow> slice_get spriteCorners1 (go_mod (p + 3) 4);
     label_base (xmaf m) (ymif m) l3 m }"

definition TotalMinMax :: "matrix \<Rightarrow> bool \<Rightarrow> (matrix \<times> int \<times> int \<times> int \<times> int) option" where
  "TotalMinMax m printIt = do {
     m \<leftarrow> (if printIt then totalMinMaxPrint m else Some m);
     (xm0, ym0) \<leftarrow> transposeBase2Mapped m (xmif m) (ymif m);
     (xm1, ym1) \<leftarrow> transposeBase2Mapped m (xmaf m) (ymaf m);
     if persp m = 0 then Some (m, xm0, ym0, xm1, ym1)
     else if persp m = 1 then Some (m, xm1, ym0, xm0, ym1)
     else if persp m = 2 then Some (m, xm1, ym1, xm0, ym0)
     else if persp m = 3 then Some (m, xm0, ym1, xm1, ym0)
     else None }"

fun print_outmost :: "matrix \<Rightarrow> int set \<Rightarrow> nat \<Rightarrow> nat list \<Rightarrow> matrix option" where
  "print_outmost m already i [] = Some m"
| "print_outmost m already i (q # ret) = do {
     (xm, ym) \<leftarrow> transposeBase2Mapped m (px (outmost m q)) (py (outmost m q));
     s1 \<leftarrow> slice_get spriteCorners1 (int (i div 2));
     m \<leftarrow> SetLabel m xm ym (slot0\<lparr>Label := s1\<rparr>);
     m \<leftarrow> (if multiSortFactor * xm + ym \<in> already
          then do {
            s2 \<leftarrow> slice_get spriteUturnsHoriz (int (i div 4));
            SetLabel m xm ym (slot0\<lparr>Label := s2\<rparr>) }
          else Some m);
     print_outmost m (insert (multiSortFactor * xm + ym) already) (i + 1) ret }"

definition FilledMinMax :: "matrix \<Rightarrow> bool \<Rightarrow> (matrix \<times> point list) option" where
  "FilledMinMax m printIt = do {
     ret \<leftarrow> (if persp m = 0 then Some [0..<8]
            else if persp m = 1 then Some (rotate 2 [0..<8])
            else if persp m = 2 then Some (rotate 4 [0..<8])
            else if persp m = 3 then Some (rotate 6 [0..<8])
            else None);
     m \<leftarrow> (if printIt then print_outmost m {} 0 ret else Some m);
     Some (m, map (outmost m) ret) }"

subsection \<open>Drawing\<close>

fun label_cells :: "(int \<times> int) list \<Rightarrow> string \<Rightarrow> matrix \<Rightarrow> matrix option" where
  "label_cells [] s m = Some m"
| "label_cells ((j, k) # cells) s m = do {
     m \<leftarrow> SetLabel m j k (slot0\<lparr>Label := s\<rparr>);
     label_cells cells s m }"

fun DrawLine_loop :: "int \<Rightarrow> point list \<Rightarrow> string \<Rightarrow> bool \<Rightarrow> matrix \<Rightarrow> matrix option" where
  "DrawLine_loop i [] suffix pivotPointsOnly m = Some m"
| "DrawLine_loop i (p # line) suffix pivotPointsOnly m = do {
     let s = (if suffix = '''' then '''' else fmt_int (go_mod i 10) @ suffix);
     m \<leftarrow> (if pivotPointsOnly \<or> line = [] then SetLabel m (px p) (py p) (slot0\<lparr>Label := s\<rparr>)
          else do {
            let q = hd line;
            let x = min (px q) (px p);
            let y = min (py q) (py p);
            let dx = \<bar>px q - px p\<bar>;
            let dy = \<bar>py q - py p\<bar>;
            label_cells (List.product [x..x + dx] [y..y + dy]) s m });
     DrawLine_loop (i + 1) line suffix pivotPointsOnly m }"

definition DrawLine :: "matrix \<Rightarrow> point list \<Rightarrow> string \<Rightarrow> bool \<Rightarrow> matrix option" where
  "DrawLine m line suffix pivotPointsOnly = DrawLine_loop 0 line suffix pivotPointsOnly m"

subsection \<open>Painting an amorph\<close>

text \<open>The kerfs of an amorph with a step: \<open>(rightKerf, leftKerf)\<close>.\<close>

definition kerfs :: "amorph \<Rightarrow> point \<times> point" where
  "kerfs am =
     (if length (Edge am) = 3
      then if 0 < Edge am ! 1 then (Point (Edge am ! 2) (Edge am ! 1), Point 0 0)
           else if Edge am ! 1 < 0 then (Point 0 0, Point (Edge am ! 0) (- (Edge am ! 1)))
           else (Point 0 0, Point 0 0)
      else (Point 0 0, Point 0 0))"

definition lim_row :: "amorph \<Rightarrow> int \<Rightarrow> int" where
  "lim_row am i3 =
     (let (rightKerf, leftKerf) = kerfs am;
          limRow = Rows am;
          limRow = (if i3 < px leftKerf then Rows am - py leftKerf else limRow)
      in if Cols am - px rightKerf - 1 < i3 then Rows am - py rightKerf else limRow)"

text \<open>The slot for the cell in column \<open>i3\<close> and row \<open>i4\<close>, and the next info counter.\<close>

definition cast_slot :: "matrix \<Rightarrow> amorph \<Rightarrow> int \<Rightarrow> int \<Rightarrow> int \<Rightarrow> slot \<times> int" where
  "cast_slot m am i3 i4 cntrInfo =
     (let outr1 = (i4 = 0 \<or> i4 = Rows am - 1 \<or> i3 = 0 \<or> i3 = Cols am - 1);
          outr2 = (i4 = 1 \<or> i4 = Rows am - 2 \<or> i3 = 1 \<or> i3 = Cols am - 2);
          (xib, yib) = amorph_transpose am i3 i4 (persp m);
          label1 =
            (if i3 = Cols am - 1 then pad_left 2 (fmt_int (IdxArticle am))
             else if go_mod i3 2 = 0 \<and> i3 \<noteq> Cols am - 2 \<or> Cols am = 2 \<and> i3 = 0
             then pad_right 2 (fmt_int (IdxArticle am)) else ''  '');
          label2 =
            (if go_mod cntrInfo 3 = 0 then ''c'' @ fmt_int (go_mod (Cols am) 10)
             else if go_mod cntrInfo 3 = 1 then ''r'' @ fmt_int (go_mod (Rows am) 10) else ''  '');
          l = (if outr1 then label1 else if outr2 then label2 else ''  '');
          l = (if 0 < Padded am then ''p'' @ fmt_int (Padded am) else l)
      in (\<lparr>AmX = Some am, Label = l, Ax = xib, Ay = yib\<rparr>,
          if \<not> outr1 \<and> outr2 then cntrInfo + 1 else cntrInfo))"

text \<open>The two loops; the last component says whether \<^verbatim>\<open>break lbl0\<close> was reached.\<close>

fun cast_rows :: "point \<Rightarrow> amorph \<Rightarrow> int \<Rightarrow> int \<Rightarrow> int list \<Rightarrow> int \<Rightarrow> int \<Rightarrow> matrix \<Rightarrow>
    (matrix \<times> int \<times> int \<times> bool) option" where
  "cast_rows base am maxSlots i3 [] cntrSlots cntrInfo m = Some (m, cntrSlots, cntrInfo, False)"
| "cast_rows base am maxSlots i3 (i4 # rows) cntrSlots cntrInfo m = do {
     let (slt, cntrInfo) = cast_slot m am i3 i4 cntrInfo;
     m \<leftarrow> mx_Set m (px base + i3) (py base + i4) slt;
     let cntrSlots = cntrSlots + 1;
     if maxSlots \<le> cntrSlots then Some (m, cntrSlots, cntrInfo, True)
     else cast_rows base am maxSlots i3 rows cntrSlots cntrInfo m }"

fun cast_cols :: "point \<Rightarrow> amorph \<Rightarrow> int \<Rightarrow> int list \<Rightarrow> int \<Rightarrow> int \<Rightarrow> matrix \<Rightarrow> matrix option" where
  "cast_cols base am maxSlots [] cntrSlots cntrInfo m = Some m"
| "cast_cols base am maxSlots (i3 # cols) cntrSlots cntrInfo m = do {
     (m, cntrSlots, cntrInfo, stop) \<leftarrow>
       cast_rows base am maxSlots i3 [0..lim_row am i3 - 1] cntrSlots cntrInfo m;
     if stop then Some m else cast_cols base am maxSlots cols cntrSlots cntrInfo m }"

definition CastStitch :: "matrix \<Rightarrow> int set \<Rightarrow> point \<Rightarrow> amorph \<Rightarrow> (matrix \<times> int set) option" where
  "CastStitch m spent base am = do {
     let spent = insert (IdxArticle am) spent;
     let maxSlots = Cols am * Rows am - Slack am;
     m \<leftarrow> cast_cols base am maxSlots [0..Cols am - 1] 0 0 m;
     Some (m, spent) }"

definition SetAmorphSnapLeftwise :: "matrix \<Rightarrow> int set \<Rightarrow> point \<Rightarrow> amorph \<Rightarrow> (matrix \<times> int set) option" where
  "SetAmorphSnapLeftwise m spent base am =
     CastStitch m spent (Point (px base - Cols am) (py base - Rows am)) am"

definition SetAmorphSnapRightwise :: "matrix \<Rightarrow> int set \<Rightarrow> point \<Rightarrow> amorph \<Rightarrow> (matrix \<times> int set) option" where
  "SetAmorphSnapRightwise m spent base am =
     CastStitch m spent (Point (px base) (py base - Rows am)) am"

subsection \<open>Coordinates: the turn of the plane\<close>

definition mx_ok :: "matrix \<Rightarrow> bool" where
  "mx_ok m \<longleftrightarrow> 0 < nx m \<and> 0 < ny m \<and> length (mtx m) = nat (nx m) \<and>
     (\<forall>col\<in>set (mtx m). length col = nat (ny m)) \<and> persp m \<in> {0, 1, 2, 3}"

definition inb :: "matrix \<Rightarrow> int \<Rightarrow> int \<Rightarrow> bool" where
  "inb m xb yb \<longleftrightarrow> 0 \<le> xb \<and> xb < nx m \<and> 0 \<le> yb \<and> yb < ny m"

definition to_base :: "matrix \<Rightarrow> int \<Rightarrow> int \<Rightarrow> int \<times> int" where
  "to_base m x y =
     (if persp m = 0 then (x + cx m, y + cy m) else if persp m = 1 then (y + cx m, cy m - x)
      else if persp m = 2 then (cx m - x, cy m - y) else (cx m - y, x + cy m))"

definition to_mapped :: "matrix \<Rightarrow> int \<Rightarrow> int \<Rightarrow> int \<times> int" where
  "to_mapped m xb yb =
     (if persp m = 0 then (xb - cx m, yb - cy m) else if persp m = 1 then (cy m - yb, xb - cx m)
      else if persp m = 2 then (cx m - xb, cy m - yb) else (yb - cy m, cx m - xb))"

lemma mx_okD:
  assumes "mx_ok m"
  shows "0 < nx m" "0 < ny m" "length (mtx m) = nat (nx m)" "persp m \<in> {0, 1, 2, 3}"
    "\<And>i. 0 \<le> i \<Longrightarrow> i < nx m \<Longrightarrow> length (mtx m ! nat i) = nat (ny m)"
  using assms by (auto simp: mx_ok_def)

lemma to_base_mapped: "to_base m (fst (to_mapped m xb yb)) (snd (to_mapped m xb yb)) = (xb, yb)"
  by (simp add: to_base_def to_mapped_def)

lemma to_mapped_base: "to_mapped m (fst (to_base m x y)) (snd (to_base m x y)) = (x, y)"
  by (simp add: to_base_def to_mapped_def)

lemma Mapped2Base_eq:
  assumes "mx_ok m"
  shows "transposeMapped2Base m x y =
    Some (if inb m (fst (to_base m x y)) (snd (to_base m x y)) then to_base m x y else (-1, -1))"
proof -
  note ok = mx_okD[OF assms]
  have l: "int (length (mtx m)) = nx m" "int (length (mtx m ! 0)) = ny m"
    using ok(1,2,3) ok(5)[of 0] by simp_all
  have c: "slice_get (mtx m) 0 = Some (mtx m ! 0)"
    using ok(1,3) by (simp add: slice_get_def)
  have "persp m = 0 \<or> persp m = 1 \<or> persp m = 2 \<or> persp m = 3" using ok(4) by auto
  then show ?thesis
    by (elim disjE) (auto simp: transposeMapped2Base_def c l Let_def inb_def to_base_def)
qed

lemma Base2Mapped_eq: "mx_ok m \<Longrightarrow> transposeBase2Mapped m xb yb = Some (to_mapped m xb yb)"
  using mx_okD(4)[of m] by (auto simp: transposeBase2Mapped_def to_mapped_def)

text \<open>transposeBase2Mapped and transposeMapped2Base are inverse to
  each other in every perspective and for every centre: each slot of the matrix has mapped
  coordinates that lead back to it, and mapped coordinates either lead to a slot and back or
  are reported as out of range by the pair -1, -1.\<close>

theorem coordinates_roundtrip:
  assumes "mx_ok m"
  shows "(\<forall>xb yb. inb m xb yb \<longrightarrow> (\<exists>xm ym. transposeBase2Mapped m xb yb = Some (xm, ym) \<and>
      transposeMapped2Base m xm ym = Some (xb, yb))) \<and>
    (\<forall>xm ym. \<exists>xb yb. transposeMapped2Base m xm ym = Some (xb, yb) \<and>
      (inb m xb yb \<and> transposeBase2Mapped m xb yb = Some (xm, ym) \<or> xb = -1 \<and> yb = -1))"
proof (intro conjI allI impI)
  fix xb yb assume "inb m xb yb"
  then show "\<exists>xm ym. transposeBase2Mapped m xb yb = Some (xm, ym) \<and>
      transposeMapped2Base m xm ym = Some (xb, yb)"
    using to_base_mapped[of m xb yb]
    by (cases "to_mapped m xb yb") (simp add: Base2Mapped_eq[OF assms] Mapped2Base_eq[OF assms])
next
  fix xm ym
  show "\<exists>xb yb. transposeMapped2Base m xm ym = Some (xb, yb) \<and>
      (inb m xb yb \<and> transposeBase2Mapped m xb yb = Some (xm, ym) \<or> xb = -1 \<and> yb = -1)"
    using to_mapped_base[of m xm ym]
    by (cases "to_base m xm ym") (simp add: Base2Mapped_eq[OF assms] Mapped2Base_eq[OF assms])
qed

theorem coordinates_roundtrip_witness:
  "\<exists>m xm ym. NewTransposableMatrix 4 3 = Some m \<and>
     transposeBase2Mapped (m\<lparr>persp := 3\<rparr>) 2 1 = Some (xm, ym) \<and>
     transposeMapped2Base (m\<lparr>persp := 3\<rparr>) xm ym = Some (2, 1)"
proof -
  obtain m where m: "NewTransposableMatrix 4 3 = Some m" by (simp add: NewTransposableMatrix_def)
  then have "mx_ok (m\<lparr>persp := 3\<rparr>)" "inb (m\<lparr>persp := 3\<rparr>) 2 1"
    by (auto simp: NewTransposableMatrix_def mx_ok_def inb_def)
  with coordinates_roundtrip m show ?thesis by blast
qed

subsection \<open>Get and Set\<close>

abbreviation slot_of :: "matrix \<Rightarrow> int \<Rightarrow> int \<Rightarrow> slot" where
  "slot_of m x y \<equiv> mtx m ! nat x ! nat y"

lemma inb_not_neg: "inb m x y \<Longrightarrow> x \<noteq> -1 \<and> y \<noteq> -1"
  by (auto simp: inb_def)

lemma slot_at_eq: "mx_ok m \<Longrightarrow> inb m x y \<Longrightarrow> slot_at m x y = Some (slot_of m x y)"
  using mx_okD[of m] by (simp add: slot_at_def inb_def slice_get_def)

lemma put_slot_eq:
  "mx_ok m \<Longrightarrow> inb m x y \<Longrightarrow>
   put_slot m x y slt = Some (m\<lparr>mtx := (mtx m)[nat x := (mtx m ! nat x)[nat y := slt]]\<rparr>)"
  using mx_okD[of m] by (simp add: put_slot_def inb_def slice_get_def slice_set_def)

lemma updateLimits_frame:
  "mtx (updateLimits m x y) = mtx m" "nx (updateLimits m x y) = nx m" "ny (updateLimits m x y) = ny m"
  "cx (updateLimits m x y) = cx m" "cy (updateLimits m x y) = cy m" "persp (updateLimits m x y) = persp m"
  by (simp_all add: updateLimits_def vert_outmost_def horiz_outmost_def total_limits_def)

lemma Get_eq_mx:
  assumes "mx_ok m" "to_base m x y = (xb, yb)"
  shows "mx_Get m x y = Some (if inb m xb yb then slot_of m xb yb else slot0\<lparr>Label := ''~~''\<rparr>)"
  using assms by (auto simp: mx_Get_def Mapped2Base_eq slot_at_eq dest: inb_not_neg)

definition with_slot :: "matrix \<Rightarrow> int \<Rightarrow> int \<Rightarrow> slot \<Rightarrow> matrix" where
  "with_slot m xb yb slt =
     (let m' = m\<lparr>mtx := (mtx m)[nat xb := (mtx m ! nat xb)[nat yb := slt]]\<rparr>
      in if AmX slt \<noteq> None then updateLimits m' xb yb else m')"

lemma Set_eq_mx:
  assumes "mx_ok m" "to_base m x y = (xb, yb)"
  shows "mx_Set m x y slt = Some (if inb m xb yb then with_slot m xb yb slt else m)"
  using assms by (auto simp: mx_Set_def Mapped2Base_eq put_slot_eq with_slot_def Let_def dest: inb_not_neg)

lemma with_slot_frame:
  "nx (with_slot m x y slt) = nx m" "ny (with_slot m x y slt) = ny m" "cx (with_slot m x y slt) = cx m"
  "cy (with_slot m x y slt) = cy m" "persp (with_slot m x y slt) = persp m"
  "mtx (with_slot m x y slt) = (mtx m)[nat x := (mtx m ! nat x)[nat y := slt]]"
  by (simp_all add: with_slot_def Let_def updateLimits_frame)

lemma mx_ok_with_slot:
  assumes "mx_ok m" "inb m x y"
  shows "mx_ok (with_slot m x y slt)"
  using assms mx_okD(5)[OF assms(1), of x]
  by (auto simp: mx_ok_def with_slot_frame inb_def dest!: set_update_subset_insert[THEN subsetD])

lemma slot_of_with_slot:
  assumes "mx_ok m" "inb m x y" "inb m x' y'"
  shows "slot_of (with_slot m x y slt) x' y' = (if x' = x \<and> y' = y then slt else slot_of m x' y')"
  using assms mx_okD(3,5)[OF assms(1)]
  by (cases "x' = x") (auto simp: with_slot_frame inb_def nth_list_update)

lemma to_base_with_slot [simp]:
  "to_base (with_slot m x y slt) = to_base m" "inb (with_slot m x y slt) = inb m"
  by (auto simp: to_base_def inb_def with_slot_frame fun_eq_iff)

lemma to_base_inj: "to_base m x y = to_base m x' y' \<longleftrightarrow> x = x' \<and> y = y'"
  by (auto simp: to_base_def)

lemma Set_total:
  assumes "mx_ok m"
  shows "\<exists>m'. mx_Set m x y slt = Some m' \<and> mx_ok m' \<and> to_base m' = to_base m \<and> inb m' = inb m \<and>
    (\<forall>x' y'. mx_Get m' x' y' = (if x' = x \<and> y' = y \<and> inb m (fst (to_base m x y)) (snd (to_base m x y))
      then Some slt else mx_Get m x' y'))"
proof -
  obtain xb yb where b: "to_base m x y = (xb, yb)" by fastforce
  show ?thesis
  proof (cases "inb m xb yb")
    case False
    then show ?thesis using assms b by (simp add: Set_eq_mx)
  next
    case True
    let ?m = "with_slot m xb yb slt"
    have ok: "mx_ok ?m" using mx_ok_with_slot[OF assms True] .
    have "mx_Get ?m x' y' = (if x' = x \<and> y' = y then Some slt else mx_Get m x' y')" for x' y'
    proof -
      obtain xb' yb' where b': "to_base m x' y' = (xb', yb')" by fastforce
      then have "to_base ?m x' y' = (xb', yb')" by simp
      moreover have "xb' = xb \<and> yb' = yb \<longleftrightarrow> x' = x \<and> y' = y"
        using to_base_inj[of m x' y' x y] b b' by simp
      ultimately show ?thesis
        using True slot_of_with_slot[OF assms True, of xb' yb' slt]
        by (cases "x' = x \<and> y' = y") (auto simp: Get_eq_mx[OF ok] Get_eq_mx[OF assms b'])
    qed
    with True ok show ?thesis using assms b by (simp add: Set_eq_mx)
  qed
qed

text \<open>Set never panics on a well-formed matrix and keeps it well-formed; afterwards
  Get returns the new slot at the coordinates written, when they lie in the matrix, and
  what it returned before everywhere else. SetLabel changes the label there and leaves
  the amorph, so that Empty answers as before.\<close>

theorem matrix_get_set:
  assumes "mx_ok m"
  shows "(\<exists>m'. mx_Set m x y slt = Some m' \<and> mx_ok m' \<and>
      (\<forall>x' y'. mx_Get m' x' y' = (if x' = x \<and> y' = y \<and> inb m (fst (to_base m x y)) (snd (to_base m x y))
        then Some slt else mx_Get m x' y'))) \<and>
    (\<exists>m'. SetLabel m x y slt = Some m' \<and> mx_ok m' \<and> (\<forall>x' y'. mx_Empty m' x' y' = mx_Empty m x' y'))"
proof (intro conjI)
  show "\<exists>m'. mx_Set m x y slt = Some m' \<and> mx_ok m' \<and>
      (\<forall>x' y'. mx_Get m' x' y' = (if x' = x \<and> y' = y \<and> inb m (fst (to_base m x y)) (snd (to_base m x y))
        then Some slt else mx_Get m x' y'))"
    using Set_total[OF assms] by blast
  obtain xb yb where b: "to_base m x y = (xb, yb)" by fastforce
  obtain s where s: "mx_Get m x y = Some s" using Get_eq_mx[OF assms b] by blast
  then show "\<exists>m'. SetLabel m x y slt = Some m' \<and> mx_ok m' \<and> (\<forall>x' y'. mx_Empty m' x' y' = mx_Empty m x' y')"
    using Set_total[OF assms, of x y "s\<lparr>Label := Label slt\<rparr>"]
    by (auto simp: SetLabel_def mx_Empty_def)
qed

theorem matrix_get_set_witness:
  "\<exists>m m'. NewTransposableMatrix 4 3 = Some m \<and>
     mx_Set m 1 1 (slot0\<lparr>Label := ''ab''\<rparr>) = Some m' \<and> mx_Get m' 1 1 = Some (slot0\<lparr>Label := ''ab''\<rparr>)"
proof -
  obtain m where m: "NewTransposableMatrix 4 3 = Some m" by (simp add: NewTransposableMatrix_def)
  then have "mx_ok m" "inb m (fst (to_base m 1 1)) (snd (to_base m 1 1))"
    by (auto simp: NewTransposableMatrix_def mx_ok_def inb_def to_base_def)
  with matrix_get_set[of m 1 1 "slot0\<lparr>Label := ''ab''\<rparr>"] m show ?thesis by auto
qed

subsection \<open>The box and the outmost points\<close>

text \<open>\<open>q\<close> is the point of \<open>S\<close> with the least \<open>f\<close>, and among those with the least \<open>g\<close>.\<close>

definition extreme :: "(point \<Rightarrow> int) \<Rightarrow> (point \<Rightarrow> int) \<Rightarrow> point \<Rightarrow> point set \<Rightarrow> bool" where
  "extreme f g q S \<longleftrightarrow> q \<in> S \<and> (\<forall>p\<in>S. f q < f p \<or> f q = f p \<and> g q \<le> g p)"

lemma extreme_single: "extreme f g p {p}"
  by (simp add: extreme_def)

lemma extreme_step:
  "extreme f g q S \<Longrightarrow>
   extreme f g (if f p \<le> f q \<and> (g p < g q \<or> f p \<noteq> f q) then p else q) (insert p S)"
  unfolding extreme_def by (cases "f p \<le> f q \<and> (g p < g q \<or> f p \<noteq> f q)") fastforce+

lemma extreme_side:
  assumes "extreme f g q S" "v \<in> f ` S" "\<And>p. p \<in> S \<Longrightarrow> v \<le> f p"
  shows "f q = v"
proof -
  obtain p where "p \<in> S" "f p = v" using assms(2) by auto
  then have "f q \<le> v" using assms(1) unfolding extreme_def by force
  moreover have "v \<le> f q" using assms(1,3) unfolding extreme_def by blast
  ultimately show ?thesis by simp
qed

lemma extreme_max_side:
  "extreme (\<lambda>p. - f p) g q S \<Longrightarrow> v \<in> f ` S \<Longrightarrow> (\<And>p. p \<in> S \<Longrightarrow> f p \<le> v) \<Longrightarrow> f q = v"
  using extreme_side[of "\<lambda>p. - f p" g q S "- v"] by auto

lemma extreme_least: "extreme px py q S \<Longrightarrow> finite S \<Longrightarrow> q = Min S"
  unfolding extreme_def by (intro Min_eqI[symmetric]) (auto simp: less_eq_point_def)

lemma extreme_greatest: "extreme (\<lambda>p. - px p) (\<lambda>p. - py p) q S \<Longrightarrow> finite S \<Longrightarrow> q = Max S"
  unfolding extreme_def by (intro Max_eqI[symmetric]) (auto simp: less_eq_point_def)

definition box_of :: "matrix \<Rightarrow> point set \<Rightarrow> bool" where
  "box_of m S \<longleftrightarrow> xmif m \<in> px ` S \<and> xmaf m \<in> px ` S \<and> ymif m \<in> py ` S \<and> ymaf m \<in> py ` S \<and>
     (\<forall>p\<in>S. xmif m \<le> px p \<and> px p \<le> xmaf m \<and> ymif m \<le> py p \<and> py p \<le> ymaf m)"

text \<open>The four points on the western and eastern sides are outmost in \<open>H\<close>, the four on the other sides in \<open>V\<close>.\<close>

definition outmost_of :: "matrix \<Rightarrow> point set \<Rightarrow> point set \<Rightarrow> bool" where
  "outmost_of m H V \<longleftrightarrow>
     extreme py px (NNW m) V \<and> extreme px py (NWW m) H \<and>
     extreme px (\<lambda>p. - py p) (SWW m) H \<and> extreme (\<lambda>p. - py p) px (SSW m) V \<and>
     extreme (\<lambda>p. - py p) (\<lambda>p. - px p) (SSE m) V \<and> extreme (\<lambda>p. - px p) (\<lambda>p. - py p) (SEE m) H \<and>
     extreme (\<lambda>p. - px p) py (NEE m) H \<and> extreme py (\<lambda>p. - px p) (NNE m) V"

lemma updateLimits_sel:
  "xmif (updateLimits m x y) = min (xmif m) x" "xmaf (updateLimits m x y) = max (xmaf m) x"
  "ymif (updateLimits m x y) = min (ymif m) y" "ymaf (updateLimits m x y) = max (ymaf m) y"
  "NWW (updateLimits m x y) = (if x \<le> xmif m \<and> (y < py (NWW m) \<or> x \<noteq> px (NWW m)) then Point x y else NWW m)"
  "SWW (updateLimits m x y) = (if x \<le> xmif m \<and> (py (SWW m) < y \<or> x \<noteq> px (SWW m)) then Point x y else SWW m)"
  "NEE (updateLimits m x y) = (if xmaf m \<le> x \<and> (y < py (NEE m) \<or> x \<noteq> px (NEE m)) then Point x y else NEE m)"
  "SEE (updateLimits m x y) = (if xmaf m \<le> x \<and> (py (SEE m) < y \<or> x \<noteq> px (SEE m)) then Point x y else SEE m)"
  "NNW (updateLimits m x y) = (if y \<le> ymif m \<and> (x < px (NNW m) \<or> y \<noteq> py (NNW m)) then Point x y else NNW m)"
  "NNE (updateLimits m x y) = (if y \<le> ymif m \<and> (px (NNE m) < x \<or> y \<noteq> py (NNE m)) then Point x y else NNE m)"
  "SSW (updateLimits m x y) = (if ymaf m \<le> y \<and> (x < px (SSW m) \<or> y \<noteq> py (SSW m)) then Point x y else SSW m)"
  "SSE (updateLimits m x y) = (if ymaf m \<le> y \<and> (px (SSE m) < x \<or> y \<noteq> py (SSE m)) then Point x y else SSE m)"
  by (auto simp: updateLimits_def vert_outmost_def horiz_outmost_def total_limits_def)

lemma box_of_step: "box_of m S \<Longrightarrow> box_of (updateLimits m x y) (insert (Point x y) S)"
  unfolding box_of_def updateLimits_sel by (auto simp: min_def max_def)

lemma outmost_of_sides:
  assumes "box_of m S" "outmost_of m H V" "px ` H = px ` S" "py ` V = py ` S"
  shows "px (NWW m) = xmif m" "px (SWW m) = xmif m" "px (NEE m) = xmaf m" "px (SEE m) = xmaf m"
    "py (NNW m) = ymif m" "py (NNE m) = ymif m" "py (SSW m) = ymaf m" "py (SSE m) = ymaf m"
proof -
  note o = assms(2)[unfolded outmost_of_def]
  have in_S: "px p \<in> px ` S" if "p \<in> H" for p using that assms(3) by blast
  have in_S': "py p \<in> py ` S" if "p \<in> V" for p using that assms(4) by blast
  have bx: "\<forall>x\<in>px ` S. xmif m \<le> x \<and> x \<le> xmaf m" "\<forall>y\<in>py ` S. ymif m \<le> y \<and> y \<le> ymaf m"
    using assms(1) by (auto simp: box_of_def)
  have b: "xmif m \<in> px ` H" "xmaf m \<in> px ` H" "ymif m \<in> py ` V" "ymaf m \<in> py ` V"
    using assms(1) unfolding assms(3,4) by (simp_all add: box_of_def)
  have c: "xmif m \<le> px p" "px p \<le> xmaf m" if "p \<in> H" for p using bspec[OF bx(1) in_S[OF that]] by simp_all
  have d: "ymif m \<le> py p" "py p \<le> ymaf m" if "p \<in> V" for p using bspec[OF bx(2) in_S'[OF that]] by simp_all
  show "px (NWW m) = xmif m" "px (SWW m) = xmif m"
    using extreme_side[OF _ b(1) c(1)] o by blast+
  show "py (NNW m) = ymif m" "py (NNE m) = ymif m"
    using extreme_side[OF _ b(3) d(1)] o by blast+
  show "px (NEE m) = xmaf m" "px (SEE m) = xmaf m"
    using extreme_max_side[OF _ b(2) c(2)] o by blast+
  show "py (SSW m) = ymaf m" "py (SSE m) = ymaf m"
    using extreme_max_side[OF _ b(4) d(2)] o by blast+
qed

lemma outmost_of_step:
  assumes "box_of m S" "outmost_of m H V" "px ` H = px ` S" "py ` V = py ` S"
  shows "outmost_of (updateLimits m x y) (insert (Point x y) H) (insert (Point x y) V)"
proof -
  let ?p = "Point x y" and ?m = "updateLimits m x y"
  note o = assms(2)[unfolded outmost_of_def] and side = outmost_of_sides[OF assms]
  have "extreme py px (NNW ?m) (insert ?p V)"
    using extreme_step[of "py" "px" "NNW m" V ?p] o side by (simp add: updateLimits_sel)
  moreover
  have "extreme px py (NWW ?m) (insert ?p H)"
    using extreme_step[of "px" "py" "NWW m" H ?p] o side by (simp add: updateLimits_sel)
  moreover
  have "extreme px (\<lambda>p. - py p) (SWW ?m) (insert ?p H)"
    using extreme_step[of "px" "(\<lambda>p. - py p)" "SWW m" H ?p] o side by (simp add: updateLimits_sel)
  moreover
  have "extreme (\<lambda>p. - py p) px (SSW ?m) (insert ?p V)"
    using extreme_step[of "(\<lambda>p. - py p)" "px" "SSW m" V ?p] o side by (simp add: updateLimits_sel)
  moreover
  have "extreme (\<lambda>p. - py p) (\<lambda>p. - px p) (SSE ?m) (insert ?p V)"
    using extreme_step[of "(\<lambda>p. - py p)" "(\<lambda>p. - px p)" "SSE m" V ?p] o side by (simp add: updateLimits_sel)
  moreover
  have "extreme (\<lambda>p. - px p) (\<lambda>p. - py p) (SEE ?m) (insert ?p H)"
    using extreme_step[of "(\<lambda>p. - px p)" "(\<lambda>p. - py p)" "SEE m" H ?p] o side by (simp add: updateLimits_sel)
  moreover
  have "extreme (\<lambda>p. - px p) py (NEE ?m) (insert ?p H)"
    using extreme_step[of "(\<lambda>p. - px p)" "py" "NEE m" H ?p] o side by (simp add: updateLimits_sel)
  moreover
  have "extreme py (\<lambda>p. - px p) (NNE ?m) (insert ?p V)"
    using extreme_step[of "py" "(\<lambda>p. - px p)" "NNE m" V ?p] o side by (simp add: updateLimits_sel)
  ultimately show ?thesis unfolding outmost_of_def by (intro conjI)
qed

subsection \<open>Runs of operations\<close>

text \<open>The operations a client has, and the base points filled so far, in order.\<close>

datatype mx_op = OpSet int int slot | OpLabel int int string | OpPersp int | OpCenter int int

fun mx_step :: "mx_op \<Rightarrow> matrix \<times> point list \<Rightarrow> (matrix \<times> point list) option" where
  "mx_step (OpSet x y slt) (m, ps) = do {
     (xb, yb) \<leftarrow> transposeMapped2Base m x y;
     m' \<leftarrow> mx_Set m x y slt;
     Some (m', if xb \<noteq> -1 \<and> yb \<noteq> -1 \<and> AmX slt \<noteq> None then ps @ [Point xb yb] else ps) }"
| "mx_step (OpLabel x y l) (m, ps) = do { m' \<leftarrow> SetLabel m x y (slot0\<lparr>Label := l\<rparr>); Some (m', ps) }"
| "mx_step (OpPersp p) (m, ps) = do { m' \<leftarrow> SetPerspective m p; Some (m', ps) }"
| "mx_step (OpCenter x y) (m, ps) = Some (SetCenter m x y, ps)"

fun mx_run :: "mx_op list \<Rightarrow> matrix \<times> point list \<Rightarrow> (matrix \<times> point list) option" where
  "mx_run [] s = Some s"
| "mx_run (a # ops) s = do { s' \<leftarrow> mx_step a s; mx_run ops s' }"

definition lim_start :: "matrix \<Rightarrow> bool" where
  "lim_start m \<longleftrightarrow> xmif m = nx m - 1 \<and> ymif m = ny m - 1 \<and> xmaf m = 0 \<and> ymaf m = 0 \<and>
     (\<forall>q\<in>{NNW m, NWW m, SWW m, SSW m, SSE m, SEE m, NEE m, NNE m}. q = Point 0 0)"

text \<open>What the outmost points are taken from: the points filled and, when the first of them lies on base column 0
  (row 0), the point 0,0 that they are set to at first.\<close>

definition kept_of :: "(point \<Rightarrow> int) \<Rightarrow> point list \<Rightarrow> point set" where
  "kept_of f ps = (if ps \<noteq> [] \<and> f (hd ps) = 0 then insert (Point 0 0) (set ps) else set ps)"

definition lim_inv :: "matrix \<Rightarrow> point list \<Rightarrow> bool" where
  "lim_inv m ps \<longleftrightarrow> mx_ok m \<and>
     (\<forall>x y. inb m x y \<and> AmX (slot_of m x y) \<noteq> None \<longrightarrow> Point x y \<in> set ps) \<and>
     (if ps = [] then lim_start m else box_of m (set ps) \<and> outmost_of m (kept_of px ps) (kept_of py ps))"

lemma kept_of_snoc: "ps \<noteq> [] \<Longrightarrow> kept_of f (ps @ [p]) = insert p (kept_of f ps)"
  by (auto simp: kept_of_def)

lemma kept_of_sides: "px ` kept_of px ps = px ` set ps" "py ` kept_of py ps = py ` set ps"
proof -
  have "0 \<in> f ` set ps" if "ps \<noteq> []" "f (hd ps) = 0" for f :: "point \<Rightarrow> int"
    using that(2) imageI[OF hd_in_set[OF that(1)], of f] by simp
  then show "px ` kept_of px ps = px ` set ps" "py ` kept_of py ps = py ` set ps"
    unfolding kept_of_def by (auto simp: insert_absorb)
qed

lemma lim_first:
  assumes "lim_start m" "inb m x y"
  shows "box_of (updateLimits m x y) {Point x y}"
    "outmost_of (updateLimits m x y) (kept_of px [Point x y]) (kept_of py [Point x y])"
proof -
  have s: "xmif m = nx m - 1" "ymif m = ny m - 1" "xmaf m = 0" "ymaf m = 0"
    "NNW m = Point 0 0" "NWW m = Point 0 0" "SWW m = Point 0 0" "SSW m = Point 0 0"
    "SSE m = Point 0 0" "SEE m = Point 0 0" "NEE m = Point 0 0" "NNE m = Point 0 0"
    using assms(1) by (simp_all add: lim_start_def)
  have b: "0 \<le> x" "x \<le> nx m - 1" "0 \<le> y" "y \<le> ny m - 1" using assms(2) by (simp_all add: inb_def)
  show "box_of (updateLimits m x y) {Point x y}" using s b by (simp add: box_of_def updateLimits_sel)
  have k: "kept_of px [Point x y] = (if x = 0 then {Point 0 0, Point x y} else {Point x y})"
    "kept_of py [Point x y] = (if y = 0 then {Point 0 0, Point x y} else {Point x y})" by (simp_all add: kept_of_def)
  have h: "extreme px py (NWW (updateLimits m x y)) (kept_of px [Point x y])"
    "extreme px (\<lambda>p. - py p) (SWW (updateLimits m x y)) (kept_of px [Point x y])"
    "extreme (\<lambda>p. - px p) (\<lambda>p. - py p) (SEE (updateLimits m x y)) (kept_of px [Point x y])"
    "extreme (\<lambda>p. - px p) py (NEE (updateLimits m x y)) (kept_of px [Point x y])"
    using b unfolding k(1) updateLimits_sel s by (simp_all add: extreme_def)
  have v: "extreme py px (NNW (updateLimits m x y)) (kept_of py [Point x y])"
    "extreme (\<lambda>p. - py p) px (SSW (updateLimits m x y)) (kept_of py [Point x y])"
    "extreme (\<lambda>p. - py p) (\<lambda>p. - px p) (SSE (updateLimits m x y)) (kept_of py [Point x y])"
    "extreme py (\<lambda>p. - px p) (NNE (updateLimits m x y)) (kept_of py [Point x y])"
    using b unfolding k(2) updateLimits_sel s by (simp_all add: extreme_def)
  show "outmost_of (updateLimits m x y) (kept_of px [Point x y]) (kept_of py [Point x y])"
    unfolding outmost_of_def using h v by (intro conjI)
qed

lemma lims_cong:
  assumes "xmif m' = xmif m" "ymif m' = ymif m" "xmaf m' = xmaf m" "ymaf m' = ymaf m" "NNW m' = NNW m"
    "NWW m' = NWW m" "SWW m' = SWW m" "SSW m' = SSW m" "SSE m' = SSE m" "SEE m' = SEE m"
    "NEE m' = NEE m" "NNE m' = NNE m"
  shows "box_of m' S = box_of m S" "outmost_of m' H V = outmost_of m H V"
    "nx m' = nx m \<Longrightarrow> ny m' = ny m \<Longrightarrow> lim_start m' = lim_start m"
  using assms by (simp_all add: box_of_def outmost_of_def lim_start_def)

lemma lim_inv_Set:
  assumes inv: "lim_inv m ps" and b: "inb m xb yb"
  shows "lim_inv (with_slot m xb yb slt) (if AmX slt \<noteq> None then ps @ [Point xb yb] else ps)"
proof -
  let ?m = "m\<lparr>mtx := (mtx m)[nat xb := (mtx m ! nat xb)[nat yb := slt]]\<rparr>"
  let ?w = "with_slot m xb yb slt"
  have ok: "mx_ok m" using inv by (simp add: lim_inv_def)
  have lims: "box_of ?m S = box_of m S" "outmost_of ?m H V = outmost_of m H V" "lim_start ?m = lim_start m"
    "inb ?m = inb m" for S H V
    by (auto simp: lims_cong[of ?m m] inb_def fun_eq_iff)
  have fill: "inb ?w x y \<Longrightarrow> AmX (slot_of ?w x y) \<noteq> None \<Longrightarrow>
      Point x y \<in> set (if AmX slt \<noteq> None then ps @ [Point xb yb] else ps)" for x y
    using slot_of_with_slot[OF ok b, of x y slt] inv by (auto simp: lim_inv_def split: if_splits)
  show ?thesis
  proof (cases "AmX slt = None")
    case True
    then have "?w = ?m" by (simp add: with_slot_def)
    with True fill inv mx_ok_with_slot[OF ok b, of slt] lims show ?thesis
      by (simp add: lim_inv_def)
  next
    case False
    then have w: "?w = updateLimits ?m xb yb" by (simp add: with_slot_def)
    have "box_of ?w (set (ps @ [Point xb yb])) \<and>
        outmost_of ?w (kept_of px (ps @ [Point xb yb])) (kept_of py (ps @ [Point xb yb]))"
    proof (cases "ps = []")
      case True
      then have "lim_start ?m" using inv lims by (simp add: lim_inv_def)
      from lim_first[OF this, of xb yb] True b lims(4) w show ?thesis by simp
    next
      case nonempty: False
      then have "box_of ?m (set ps)" "outmost_of ?m (kept_of px ps) (kept_of py ps)"
        using inv lims by (simp_all add: lim_inv_def)
      from box_of_step[OF this(1)] outmost_of_step[OF this kept_of_sides] nonempty w show ?thesis
        by (simp add: kept_of_snoc)
    qed
    with False fill mx_ok_with_slot[OF ok b, of slt] show ?thesis by (simp add: lim_inv_def)
  qed
qed

lemma lim_inv_again:
  assumes "lim_inv m (ps @ [p])" "p \<in> set ps"
  shows "lim_inv m ps"
proof -
  have "ps \<noteq> []" "set (ps @ [p]) = set ps" using assms(2) by auto
  moreover have "insert p (kept_of f ps) = kept_of f ps" for f using assms(2) by (auto simp: kept_of_def)
  ultimately show ?thesis using assms(1) unfolding lim_inv_def by (simp add: insert_absorb assms(2) kept_of_snoc)
qed

lemma lim_inv_view:
  assumes "lim_inv m ps" "0 \<le> p" "p \<le> 3"
  shows "lim_inv (m\<lparr>persp := p\<rparr>) ps" "lim_inv (m\<lparr>cx := c, cy := d\<rparr>) ps"
proof -
  have "p = 0 \<or> p = 1 \<or> p = 2 \<or> p = 3" using assms(2,3) by auto
  then show "lim_inv (m\<lparr>persp := p\<rparr>) ps"
    using assms(1) unfolding lim_inv_def
    by (simp add: lims_cong[of "m\<lparr>persp := p\<rparr>" m] mx_ok_def inb_def)
  show "lim_inv (m\<lparr>cx := c, cy := d\<rparr>) ps"
    using assms(1) unfolding lim_inv_def
    by (simp add: lims_cong[of "m\<lparr>cx := c, cy := d\<rparr>" m] mx_ok_def inb_def)
qed

lemma mx_step_inv:
  assumes inv: "lim_inv m ps" and valid: "\<And>p. a = OpPersp p \<Longrightarrow> p \<in> {0..3}"
  shows "\<exists>m' ps'. mx_step a (m, ps) = Some (m', ps') \<and> lim_inv m' ps'"
proof (cases a)
  case (OpSet x y slt)
  have ok: "mx_ok m" using inv by (simp add: lim_inv_def)
  obtain xb yb where b: "to_base m x y = (xb, yb)" by fastforce
  show ?thesis
    using OpSet b lim_inv_Set[OF inv, of xb yb slt] inv
    by (auto simp: Mapped2Base_eq[OF ok] Set_eq_mx[OF ok b] dest: inb_not_neg)
next
  case (OpLabel x y l)
  have ok: "mx_ok m" using inv by (simp add: lim_inv_def)
  obtain xb yb where b: "to_base m x y = (xb, yb)" by fastforce
  show ?thesis
  proof (cases "inb m xb yb")
    case False
    with OpLabel inv show ?thesis
      by (simp add: SetLabel_def Get_eq_mx[OF ok b] Set_eq_mx[OF ok b])
  next
    case True
    let ?s = "(slot_of m xb yb)\<lparr>Label := l\<rparr>"
    have "AmX (slot_of m xb yb) \<noteq> None \<Longrightarrow> Point xb yb \<in> set ps"
      using inv True by (simp add: lim_inv_def)
    with lim_inv_Set[OF inv True, of ?s] have "lim_inv (with_slot m xb yb ?s) ps"
      by (auto split: if_splits intro: lim_inv_again)
    with OpLabel True show ?thesis
      by (simp add: SetLabel_def Get_eq_mx[OF ok b] Set_eq_mx[OF ok b])
  qed
next
  case (OpPersp p)
  with valid inv show ?thesis by (auto simp: SetPerspective_def lim_inv_view)
next
  case (OpCenter x y)
  with lim_inv_view(2)[OF inv, of 0] show ?thesis by (simp add: SetCenter_def)
qed

lemma mx_run_inv:
  "lim_inv m ps \<Longrightarrow> (\<And>p. OpPersp p \<in> set ops \<Longrightarrow> p \<in> {0..3}) \<Longrightarrow>
   \<exists>m' ps'. mx_run ops (m, ps) = Some (m', ps') \<and> lim_inv m' ps'"
proof (induction ops arbitrary: m ps)
  case (Cons a ops)
  have "\<And>p. a = OpPersp p \<Longrightarrow> p \<in> {0..3}" using Cons.prems(2) by auto
  from mx_step_inv[OF Cons.prems(1) this] obtain m1 ps1 where
    1: "mx_step a (m, ps) = Some (m1, ps1)" "lim_inv m1 ps1" by blast
  from Cons.IH[OF 1(2)] Cons.prems(2) 1(1) show ?case by simp
qed simp

lemma lim_inv_New:
  "0 < a \<Longrightarrow> 0 < b \<Longrightarrow> NewTransposableMatrix a b = Some m \<Longrightarrow> lim_inv m []"
  by (auto simp: NewTransposableMatrix_def lim_inv_def lim_start_def mx_ok_def inb_def slot0_def)

text \<open>Coordinates of a base point as seen in the perspective of \<open>m\<close>.\<close>

definition seen_x :: "matrix \<Rightarrow> point \<Rightarrow> int" where
  "seen_x m p = fst (to_mapped m (px p) (py p))"

definition seen_y :: "matrix \<Rightarrow> point \<Rightarrow> int" where
  "seen_y m p = snd (to_mapped m (px p) (py p))"

lemma seen_turn:
  "persp m = 0 \<Longrightarrow> seen_x m = (\<lambda>p. - cx m + px p) \<and> seen_y m = (\<lambda>p. - cy m + py p)"
  "persp m = 1 \<Longrightarrow> seen_x m = (\<lambda>p. cy m + - py p) \<and> seen_y m = (\<lambda>p. - cx m + px p)"
  "persp m = 2 \<Longrightarrow> seen_x m = (\<lambda>p. cx m + - px p) \<and> seen_y m = (\<lambda>p. cy m + - py p)"
  "persp m = 3 \<Longrightarrow> seen_x m = (\<lambda>p. - cy m + py p) \<and> seen_y m = (\<lambda>p. cx m + - px p)"
  by (auto simp: seen_x_def seen_y_def to_mapped_def)

text \<open>The eight outmost points in the order of \<^verbatim>\<open>FilledMinMax\<close>, for seen coordinates.\<close>

definition outmost_seen :: "matrix \<Rightarrow> point list \<Rightarrow> point set \<Rightarrow> point set \<Rightarrow> bool" where
  "outmost_seen m ret H V \<longleftrightarrow> length ret = 8 \<and>
     (let X = seen_x m; Y = seen_y m; W = (\<lambda>p. - X p); N = (\<lambda>p. - Y p) in
      extreme Y X (ret ! 0) V \<and> extreme X Y (ret ! 1) H \<and> extreme X N (ret ! 2) H \<and>
      extreme N X (ret ! 3) V \<and> extreme N W (ret ! 4) V \<and> extreme W N (ret ! 5) H \<and>
      extreme W Y (ret ! 6) H \<and> extreme Y W (ret ! 7) V)"

text \<open>The base columns are the columns seen in perspectives 0 and 2, the rows in 1 and 3.\<close>

definition turned :: "matrix \<Rightarrow> 'a \<Rightarrow> 'a \<Rightarrow> 'a" where
  "turned m a b = (if persp m = 0 \<or> persp m = 2 then a else b)"

lemma FilledMinMax_seen:
  assumes "mx_ok m" "outmost_of m H V"
  shows "\<exists>ret. FilledMinMax m False = Some (m, ret) \<and> outmost_seen m ret (turned m H V) (turned m V H)"
proof -
  have rot: "rotate 2 [0..<8] = [2, 3, 4, 5, 6, 7, 0, 1]" "rotate 4 [0..<8] = [4, 5, 6, 7, 0, 1, 2, 3]"
    "rotate 6 [0..<8] = [6, 7, 0, 1, 2, 3, 4, 5]" by (simp_all add: upt_rec rotate_def rotate1_def numeral_eq_Suc)
  have "persp m = 0 \<or> persp m = 1 \<or> persp m = 2 \<or> persp m = 3" using mx_okD(4)[OF assms(1)] by auto
  then show ?thesis
  proof (elim disjE)
    assume p: "persp m = 0"
    from assms(2) p show ?thesis
      unfolding FilledMinMax_def outmost_of_def outmost_seen_def seen_turn(1)[OF p, THEN conjunct1]
        seen_turn(1)[OF p, THEN conjunct2]
      by (simp add: outmost_def extreme_def turned_def)
  next
    assume p: "persp m = 1"
    from assms(2) p show ?thesis
      unfolding FilledMinMax_def rot(1) outmost_of_def outmost_seen_def seen_turn(2)[OF p, THEN conjunct1]
        seen_turn(2)[OF p, THEN conjunct2]
      by (simp add: outmost_def extreme_def turned_def)
  next
    assume p: "persp m = 2"
    from assms(2) p show ?thesis
      unfolding FilledMinMax_def rot(2) outmost_of_def outmost_seen_def seen_turn(3)[OF p, THEN conjunct1]
        seen_turn(3)[OF p, THEN conjunct2]
      by (simp add: outmost_def extreme_def turned_def)
  next
    assume p: "persp m = 3"
    from assms(2) p show ?thesis
      unfolding FilledMinMax_def rot(3) outmost_of_def outmost_seen_def seen_turn(4)[OF p, THEN conjunct1]
        seen_turn(4)[OF p, THEN conjunct2]
      by (simp add: outmost_def extreme_def turned_def)
  qed
qed

lemma TotalMinMax_seen:
  assumes "mx_ok m" "box_of m S"
  shows "\<exists>x1 y1 x2 y2. TotalMinMax m False = Some (m, x1, y1, x2, y2) \<and>
    x1 \<in> seen_x m ` S \<and> x2 \<in> seen_x m ` S \<and> y1 \<in> seen_y m ` S \<and> y2 \<in> seen_y m ` S \<and>
    (\<forall>p\<in>S. x1 \<le> seen_x m p \<and> seen_x m p \<le> x2 \<and> y1 \<le> seen_y m p \<and> seen_y m p \<le> y2)"
proof -
  note bx = assms(2)[unfolded box_of_def]
  obtain a where a: "a \<in> S" "xmif m = px a" using bx by auto
  obtain b where b: "b \<in> S" "xmaf m = px b" using bx by auto
  obtain c where c: "c \<in> S" "ymif m = py c" using bx by auto
  obtain d where d: "d \<in> S" "ymaf m = py d" using bx by auto
  have "\<forall>p\<in>S. px a \<le> px p \<and> px p \<le> px b \<and> py c \<le> py p \<and> py p \<le> py d"
    using bx a b c d by simp
  note p = a(1) b(1) c(1) d(1) a(2) b(2) c(2) d(2) this
  have go: ?thesis if "u \<in> S" "v \<in> S" "w \<in> S" "z \<in> S"
    "TotalMinMax m False = Some (m, seen_x m u, seen_y m v, seen_x m w, seen_y m z)"
    "\<forall>p\<in>S. seen_x m u \<le> seen_x m p \<and> seen_x m p \<le> seen_x m w \<and> seen_y m v \<le> seen_y m p \<and> seen_y m p \<le> seen_y m z"
    for u v w z using that by blast
  note t = TotalMinMax_def Base2Mapped_eq[OF assms(1)] to_mapped_def p(5-8)
  have "persp m = 0 \<or> persp m = 1 \<or> persp m = 2 \<or> persp m = 3" using mx_okD(4)[OF assms(1)] by auto
  then show ?thesis
  proof (elim disjE)
    assume "persp m = 0"
    with p show ?thesis by (intro go[of a c b d]) (auto simp: t seen_turn)
  next
    assume "persp m = 1"
    with p show ?thesis by (intro go[of d a c b]) (auto simp: t seen_turn)
  next
    assume "persp m = 2"
    with p show ?thesis by (intro go[of b d a c]) (auto simp: t seen_turn)
  next
    assume "persp m = 3"
    with p show ?thesis by (intro go[of c b d a]) (auto simp: t seen_turn)
  qed
qed

text \<open>C24: The limits kept by Set, exactly. Start from a new matrix and run any sequence of Set, SetLabel,
  SetPerspective (0 to 3) and SetCenter; it never panics, and ps are the base points that were filled, in order. Once one is
  filled, TotalMinMax returns their bounding box in the current perspective, and FilledMinMax returns eight outmost points as they
  are seen in the current perspective, NNW first, against the clock: of the filled points, when the first of them lies off base
  column 0 and base row 0. When it lies on base column 0, the four points along the base columns are those of the filled points and
  the point 0,0, filled or not; when it lies on base row 0, the four along the base rows.\<close>

theorem matrix_limits:
  assumes "NewTransposableMatrix a b = Some m0" "0 < a" "0 < b"
    and "\<forall>p. OpPersp p \<in> set ops \<longrightarrow> p \<in> {0..3}"
  shows "\<exists>m ps. mx_run ops (m0, []) = Some (m, ps) \<and>
    (ps \<noteq> [] \<longrightarrow> (\<exists>x1 y1 x2 y2. TotalMinMax m False = Some (m, x1, y1, x2, y2) \<and>
      x1 = Min (seen_x m ` set ps) \<and> y1 = Min (seen_y m ` set ps) \<and>
      x2 = Max (seen_x m ` set ps) \<and> y2 = Max (seen_y m ` set ps)) \<and>
      (\<exists>ret. FilledMinMax m False = Some (m, ret) \<and>
         outmost_seen m ret (turned m (kept_of px ps) (kept_of py ps)) (turned m (kept_of py ps) (kept_of px ps))) \<and>
      NWW m = Min (kept_of px ps) \<and> SEE m = Max (kept_of px ps))"
proof -
  obtain m ps where run: "mx_run ops (m0, []) = Some (m, ps)" and inv: "lim_inv m ps"
    using mx_run_inv[OF lim_inv_New[OF assms(2,3,1)], of ops] assms(4) by blast
  have ok: "mx_ok m" using inv by (simp add: lim_inv_def)
  have box: "\<exists>x1 y1 x2 y2. TotalMinMax m False = Some (m, x1, y1, x2, y2) \<and>
      x1 = Min (seen_x m ` set ps) \<and> y1 = Min (seen_y m ` set ps) \<and>
      x2 = Max (seen_x m ` set ps) \<and> y2 = Max (seen_y m ` set ps)" if "ps \<noteq> []"
  proof -
    have "box_of m (set ps)" using inv that by (simp add: lim_inv_def)
    from TotalMinMax_seen[OF ok this] obtain x1 y1 x2 y2 where
      t: "TotalMinMax m False = Some (m, x1, y1, x2, y2)"
      "x1 \<in> seen_x m ` set ps" "x2 \<in> seen_x m ` set ps" "y1 \<in> seen_y m ` set ps" "y2 \<in> seen_y m ` set ps"
      "\<forall>p\<in>set ps. x1 \<le> seen_x m p \<and> seen_x m p \<le> x2 \<and> y1 \<le> seen_y m p \<and> seen_y m p \<le> y2" by blast
    then have "x1 = Min (seen_x m ` set ps)" "y1 = Min (seen_y m ` set ps)"
      "x2 = Max (seen_x m ` set ps)" "y2 = Max (seen_y m ` set ps)"
      by (auto intro!: Min_eqI[symmetric] Max_eqI[symmetric])
    with t(1) show ?thesis by blast
  qed
  have "outmost_of m (kept_of px ps) (kept_of py ps)" if "ps \<noteq> []"
    using inv that by (simp add: lim_inv_def)
  moreover have "finite (kept_of px ps)" by (simp add: kept_of_def)
  ultimately show ?thesis
    using run box FilledMinMax_seen[OF ok] extreme_least[of "NWW m" "kept_of px ps"]
      extreme_greatest[of "SEE m" "kept_of px ps"] unfolding outmost_of_def by blast
qed

definition slot1 :: slot where
  "slot1 = slot0\<lparr>AmX := Some amorph0\<rparr>"

theorem matrix_limits_witness:
  "\<exists>m0 m ps. NewTransposableMatrix 4 4 = Some m0 \<and>
     mx_run [OpPersp 1, OpSet 0 0 slot1, OpSet 1 0 slot1] (m0, []) = Some (m, ps) \<and> ps = [Point 2 2, Point 2 1] \<and>
     (\<exists>x1 y1 x2 y2. TotalMinMax m False = Some (m, x1, y1, x2, y2) \<and> x1 = 0 \<and> x2 = 1) \<and>
     NWW m = Point 2 1"
proof -
  let ?ops = "[OpPersp 1, OpSet 0 0 slot1, OpSet 1 0 slot1]"
  obtain m0 where m0: "NewTransposableMatrix 4 4 = Some m0" by (simp add: NewTransposableMatrix_def)
  have pre: "\<forall>p. OpPersp p \<in> set ?ops \<longrightarrow> p \<in> {0..3}" by simp
  from matrix_limits[OF m0 zero_less_numeral zero_less_numeral pre] obtain m ps where
    run: "mx_run ?ops (m0, []) = Some (m, ps)" and
    box: "ps \<noteq> [] \<longrightarrow> (\<exists>x1 y1 x2 y2. TotalMinMax m False = Some (m, x1, y1, x2, y2) \<and>
      x1 = Min (seen_x m ` set ps) \<and> y1 = Min (seen_y m ` set ps) \<and>
      x2 = Max (seen_x m ` set ps) \<and> y2 = Max (seen_y m ` set ps))" and
    out: "ps \<noteq> [] \<longrightarrow> NWW m = Min (kept_of px ps)" by blast
  have "map_option (\<lambda>(m, ps). (ps, persp m, cy m)) (mx_run ?ops (the (NewTransposableMatrix 4 4), [])) =
      Some ([Point 2 2, Point 2 1], 1, 2)" by code_simp
  then have ps: "ps = [Point 2 2, Point 2 1]" "persp m = 1" "cy m = 2"
    using run m0 by (simp_all del: mx_run.simps)
  have "seen_x m ` set ps = {0, 1}" using ps by (auto simp: seen_turn)
  moreover have "Min (kept_of px ps) = Point 2 1" using ps by (simp add: kept_of_def min_def less_eq_point_def)
  ultimately show ?thesis
    using m0 run box out ps by (auto simp del: mx_run.simps)
qed

text \<open>When the first filled slot lies in the first column, the outmost points keep their initial
  value: here the filled slots are (0, 2) and (0, 1) and the point \<open>NWW\<close> is the empty slot (0, 0).\<close>

lemma outmost_first_column:
  "map_option (\<lambda>(m, ps). (ps, NWW m)) (mx_run [OpSet (- 2) 0 slot1, OpSet (- 2) (- 1) slot1]
     (the (NewTransposableMatrix 4 4), [])) = Some ([Point 0 2, Point 0 1], Point 0 0)"
  by code_simp

subsection \<open>The cells an amorph is painted on\<close>

definition cells :: "amorph \<Rightarrow> (int \<times> int) list" where
  "cells am = concat (map (\<lambda>i3. map (Pair i3) [0..lim_row am i3 - 1]) [0..Cols am - 1])"

definition painted :: "amorph \<Rightarrow> (int \<times> int) list" where
  "painted am = take (nat (max 1 (Cols am * Rows am - Slack am))) (cells am)"

definition got :: "matrix \<Rightarrow> int \<Rightarrow> int \<Rightarrow> amorph option" where
  "got m x y = (case mx_Get m x y of Some s \<Rightarrow> AmX s | None \<Rightarrow> None)"

definition in_view :: "matrix \<Rightarrow> int \<Rightarrow> int \<Rightarrow> bool" where
  "in_view m x y \<longleftrightarrow> inb m (fst (to_base m x y)) (snd (to_base m x y))"

text \<open>\<open>m'\<close> is \<open>m\<close> after painting \<open>am\<close> on the cells \<open>cs\<close> at \<open>base\<close>.\<close>

definition painted_on :: "point \<Rightarrow> amorph \<Rightarrow> (int \<times> int) set \<Rightarrow> matrix \<Rightarrow> matrix \<Rightarrow> bool" where
  "painted_on base am cs m m' \<longleftrightarrow> mx_ok m' \<and> in_view m' = in_view m \<and>
     (\<forall>x y. got m' x y = (if (x - px base, y - py base) \<in> cs \<and> in_view m x y then Some am else got m x y))"

lemma painted_on_empty: "mx_ok m \<Longrightarrow> painted_on base am {} m m"
  by (simp add: painted_on_def)

lemma painted_on_trans:
  "painted_on base am cs m m1 \<Longrightarrow> painted_on base am ds m1 m2 \<Longrightarrow> painted_on base am (cs \<union> ds) m m2"
  by (auto simp: painted_on_def)

lemma Set_painted:
  assumes "mx_ok m" "AmX slt = Some am"
  shows "\<exists>m'. mx_Set m (px base + i3) (py base + i4) slt = Some m' \<and> painted_on base am {(i3, i4)} m m'"
proof -
  obtain m' where m': "mx_Set m (px base + i3) (py base + i4) slt = Some m'" "mx_ok m'"
    "to_base m' = to_base m" "inb m' = inb m"
    "\<forall>x' y'. mx_Get m' x' y' = (if x' = px base + i3 \<and> y' = py base + i4 \<and>
        in_view m (px base + i3) (py base + i4) then Some slt else mx_Get m x' y')"
    using Set_total[OF assms(1), of "px base + i3" "py base + i4" slt] by (auto simp: in_view_def)
  have "got m' x y = (if (x - px base, y - py base) \<in> {(i3, i4)} \<and> in_view m x y then Some am else got m x y)"
    for x y
    using assms(2) by (auto simp: got_def m'(5))
  moreover have "in_view m' = in_view m" by (intro ext) (simp add: in_view_def m'(3,4))
  ultimately show ?thesis
    using m'(1,2) by (auto simp: painted_on_def)
qed

lemma cast_rows_painted:
  assumes "maxSlots = Cols am * Rows am - Slack am"
  shows "mx_ok m \<Longrightarrow> k < maxSlots \<or> k = 0 \<Longrightarrow> 0 \<le> k \<Longrightarrow>
    \<exists>m' ci'. cast_rows base am maxSlots i3 rows k ci m =
      Some (m', k + min (int (length rows)) (max 1 maxSlots - k), ci', max 1 maxSlots - k \<le> int (length rows)) \<and>
      painted_on base am (set (take (nat (max 1 maxSlots - k)) (map (Pair i3) rows))) m m'"
proof (induction rows arbitrary: k ci m)
  case Nil
  then have "\<not> max 1 maxSlots - k \<le> 0" "min 0 (max 1 maxSlots - k) = 0" by auto
  with Nil show ?case by (simp add: painted_on_empty)
next
  case (Cons i4 rows)
  obtain slt ci1 where sl: "cast_slot m am i3 i4 ci = (slt, ci1)" by fastforce
  then have "AmX slt = Some am" by (auto simp: cast_slot_def Let_def split_def split: if_splits)
  from Set_painted[OF Cons.prems(1) this] obtain m1 where
    m1: "mx_Set m (px base + i3) (py base + i4) slt = Some m1" "painted_on base am {(i3, i4)} m m1" by blast
  then have ok1: "mx_ok m1" by (simp add: painted_on_def)
  show ?case
  proof (cases "maxSlots \<le> k + 1")
    case True
    then have "max 1 maxSlots - k = 1" using Cons.prems by auto
    with True sl m1 show ?thesis by simp
  next
    case False
    let ?n = "max 1 maxSlots - (k + 1)"
    have n: "0 < ?n" "max 1 maxSlots - k = 1 + ?n" "nat (max 1 maxSlots - k) = Suc (nat ?n)"
      using False Cons.prems by auto
    obtain m2 ci2 where r: "cast_rows base am maxSlots i3 rows (k + 1) ci1 m1 =
        Some (m2, k + 1 + min (int (length rows)) ?n, ci2, ?n \<le> int (length rows))"
      "painted_on base am (set (take (nat ?n) (map (Pair i3) rows))) m1 m2"
      using Cons.IH[OF ok1, of "k + 1" ci1] False Cons.prems(3) by auto
    have "painted_on base am (set (take (nat (max 1 maxSlots - k)) (map (Pair i3) (i4 # rows)))) m m2"
      using painted_on_trans[OF m1(2) r(2)] by (simp add: n(3))
    moreover have "k + 1 + min (int (length rows)) ?n =
        k + min (int (length (i4 # rows))) (max 1 maxSlots - k)"
      using n(2) by (simp add: min_def)
    moreover have "?n \<le> int (length rows) \<longleftrightarrow> max 1 maxSlots - k \<le> int (length (i4 # rows))"
      by simp linarith
    ultimately show ?thesis
      using False sl m1(1) r(1) by simp
  qed
qed

lemma cast_cols_painted:
  assumes "maxSlots = Cols am * Rows am - Slack am"
  shows "mx_ok m \<Longrightarrow> k < maxSlots \<or> k = 0 \<Longrightarrow> 0 \<le> k \<Longrightarrow>
    \<exists>m'. cast_cols base am maxSlots is k ci m = Some m' \<and>
      painted_on base am (set (take (nat (max 1 maxSlots - k))
        (concat (map (\<lambda>i3. map (Pair i3) [0..lim_row am i3 - 1]) is)))) m m'"
proof (induction "is" arbitrary: k ci m)
  case Nil
  then show ?case by (simp add: painted_on_empty)
next
  case (Cons i3 cs)
  let ?rows = "[0..lim_row am i3 - 1]" and ?n = "max 1 maxSlots - k"
  let ?rest = "concat (map (\<lambda>i3. map (Pair i3) [0..lim_row am i3 - 1]) cs)"
  obtain m1 ci1 where r: "cast_rows base am maxSlots i3 ?rows k ci m =
      Some (m1, k + min (int (length ?rows)) ?n, ci1, ?n \<le> int (length ?rows))"
    "painted_on base am (set (take (nat ?n) (map (Pair i3) ?rows))) m m1"
    using cast_rows_painted[OF assms Cons.prems] by blast
  then have ok1: "mx_ok m1" by (simp add: painted_on_def)
  show ?case
  proof (cases "?n \<le> int (length ?rows)")
    case True
    then have "nat ?n - length ?rows = 0" by (simp del: length_upto)
    with r True show ?thesis by simp
  next
    case False
    then have k1: "k + min (int (length ?rows)) ?n = k + int (length ?rows)" by simp
    have "k + int (length ?rows) < maxSlots \<or> k + int (length ?rows) = 0" "0 \<le> k + int (length ?rows)"
      using False Cons.prems(2,3) by auto
    from Cons.IH[OF ok1 this, of ci1] obtain m2 where
      m2: "cast_cols base am maxSlots cs (k + int (length ?rows)) ci1 m1 = Some m2"
      "painted_on base am (set (take (nat (max 1 maxSlots - (k + int (length ?rows)))) ?rest)) m1 m2" by blast
    have "take (nat ?n) (map (Pair i3) ?rows) = map (Pair i3) ?rows"
      using False by (simp del: length_upto)
    moreover have "nat ?n - length ?rows = nat (max 1 maxSlots - (k + int (length ?rows)))"
      by (simp del: length_upto)
    ultimately have "painted_on base am (set (take (nat ?n) (map (Pair i3) ?rows @ ?rest))) m m2"
      using painted_on_trans[OF r(2) m2(2)] by (simp del: length_upto)
    then show ?thesis using r(1) m2(1) False k1 by (simp del: length_upto)
  qed
qed

lemma CastStitch_painted:
  "mx_ok m \<Longrightarrow> \<exists>m'. CastStitch m spent base am = Some (m', insert (IdxArticle am) spent) \<and>
     painted_on base am (set (painted am)) m m'"
  using cast_cols_painted[OF refl, of m 0 am base "[0..Cols am - 1]" 0]
  by (auto simp: CastStitch_def painted_def cells_def)

lemma length_cells: "length (cells am) = sum_list (map (\<lambda>i. nat (lim_row am i)) [0..Cols am - 1])"
  by (simp add: cells_def length_concat comp_def)

lemma distinct_pairs: "distinct is \<Longrightarrow> distinct (concat (map (\<lambda>i. map (Pair i) [0..f i - 1]) is))"
  by (induction "is") (auto simp: distinct_map inj_on_def)

lemma distinct_cells: "distinct (cells am)"
  unfolding cells_def by (rule distinct_pairs) simp

lemma set_cells: "set (cells am) = {(i, j). 0 \<le> i \<and> i < Cols am \<and> 0 \<le> j \<and> j < lim_row am i}"
  by (auto simp: cells_def)

text \<open>The kerf: the cells that an edge with a step leaves free, bottom right for a positive step
  and bottom left for a negative one.\<close>

definition in_kerf :: "amorph \<Rightarrow> int \<Rightarrow> int \<Rightarrow> bool" where
  "in_kerf am i j \<longleftrightarrow> length (Edge am) = 3 \<and>
     (0 < Edge am ! 1 \<and> Edge am ! 0 \<le> i \<and> Rows am - Edge am ! 1 \<le> j \<or>
      Edge am ! 1 < 0 \<and> i < Edge am ! 0 \<and> Rows am + Edge am ! 1 \<le> j)"

text \<open>An amorph whose edge, if it has one, suits its sides and whose slack covers the kerf.\<close>

definition suits :: "amorph \<Rightarrow> bool" where
  "suits am \<longleftrightarrow> 0 < Cols am \<and> 0 < Rows am \<and> 0 \<le> Slack am \<and> Slack am < Cols am * Rows am \<and>
     (Edge am = [] \<or> (\<exists>a h b. Edge am = [a, h, b] \<and> 0 < a \<and> 0 < b \<and> a + b = Cols am \<and>
        (0 < h \<and> h < Rows am \<and> h * b \<le> Slack am \<or> h < 0 \<and> - h < Rows am \<and> - h * a \<le> Slack am)))"

lemma sum_list_const: "(\<And>i. i \<in> set is \<Longrightarrow> f i = c) \<Longrightarrow> sum_list (map f is) = length is * (c :: nat)"
  by (induction "is") auto

lemma cells_two_parts:
  assumes "0 < a" "0 < b" "a + b = Cols am" "0 \<le> r1" "0 \<le> r2"
    and l: "\<And>i. 0 \<le> i \<Longrightarrow> i < Cols am \<Longrightarrow> lim_row am i = (if i < a then r1 else r2)"
  shows "int (length (cells am)) = a * r1 + b * r2"
proof -
  have split: "[0..Cols am - 1] = [0..a - 1] @ [a..Cols am - 1]"
    using assms(1-3) upto_split1[of 0 a "Cols am - 1"] by simp
  have "sum_list (map (\<lambda>i. nat (lim_row am i)) [0..a - 1]) = length [0..a - 1] * nat r1"
    using assms(1-3) by (intro sum_list_const) (simp add: l)
  moreover have "sum_list (map (\<lambda>i. nat (lim_row am i)) [a..Cols am - 1]) = length [a..Cols am - 1] * nat r2"
    using assms(1-3) by (intro sum_list_const) (simp add: l)
  ultimately show ?thesis
    using assms(1-5) unfolding length_cells split by auto
qed

lemma cells_kerf:
  assumes "suits am"
  shows "set (cells am) = {(i, j). 0 \<le> i \<and> i < Cols am \<and> 0 \<le> j \<and> j < Rows am \<and> \<not> in_kerf am i j} \<and>
    Cols am * Rows am - Slack am \<le> int (length (cells am))"
proof -
  have pos: "0 < Cols am" "0 < Rows am" "0 \<le> Slack am" using assms by (auto simp: suits_def)
  consider (plain) "Edge am = []"
    | (right) a h b where "Edge am = [a, h, b]" "0 < a" "0 < b" "a + b = Cols am" "0 < h" "h < Rows am" "h * b \<le> Slack am"
    | (left) a h b where "Edge am = [a, h, b]" "0 < a" "0 < b" "a + b = Cols am" "h < 0" "- h < Rows am" "- h * a \<le> Slack am"
    using assms unfolding suits_def by blast
  then show ?thesis
  proof cases
    case plain
    then have l: "lim_row am i = Rows am" if "0 \<le> i" "i < Cols am" for i
      using that by (simp add: lim_row_def kerfs_def)
    have "sum_list (map (\<lambda>i. nat (lim_row am i)) [0..Cols am - 1]) = length [0..Cols am - 1] * nat (Rows am)"
      by (rule sum_list_const) (simp add: l)
    then show ?thesis
      using plain pos l unfolding set_cells length_cells by (auto simp: in_kerf_def)
  next
    case right
    then have l: "lim_row am i = (if i < a then Rows am else Rows am - h)" if "0 \<le> i" "i < Cols am" for i
      using that by (auto simp: lim_row_def kerfs_def)
    have "int (length (cells am)) = a * Rows am + b * (Rows am - h)"
      using right pos(2) by (intro cells_two_parts l) auto
    moreover have "Cols am * Rows am = a * Rows am + b * Rows am"
      using right(4) by (simp add: distrib_right[symmetric])
    ultimately show ?thesis
      using right l unfolding set_cells by (auto simp: in_kerf_def algebra_simps split: if_splits)
  next
    case left
    then have l: "lim_row am i = (if i < a then Rows am + h else Rows am)" if "0 \<le> i" "i < Cols am" for i
      using that by (auto simp: lim_row_def kerfs_def)
    have "int (length (cells am)) = a * (Rows am + h) + b * Rows am"
      using left pos(2) by (intro cells_two_parts l) auto
    moreover have "Cols am * Rows am = a * Rows am + b * Rows am"
      using left(4) by (simp add: distrib_right[symmetric])
    ultimately show ?thesis
      using left l unfolding set_cells by (auto simp: in_kerf_def algebra_simps split: if_splits)
  qed
qed

lemma CastStitch_spec:
  assumes "mx_ok m" "suits am"
  shows "\<exists>m' C. CastStitch m spent base am = Some (m', insert (IdxArticle am) spent) \<and> mx_ok m' \<and>
    finite C \<and> int (card C) = Cols am * Rows am - Slack am \<and>
    C \<subseteq> {(i, j). 0 \<le> i \<and> i < Cols am \<and> 0 \<le> j \<and> j < Rows am \<and> \<not> in_kerf am i j} \<and>
    (int (card {(i, j). 0 \<le> i \<and> i < Cols am \<and> 0 \<le> j \<and> j < Rows am \<and> \<not> in_kerf am i j}) =
       Cols am * Rows am - Slack am \<longrightarrow>
     C = {(i, j). 0 \<le> i \<and> i < Cols am \<and> 0 \<le> j \<and> j < Rows am \<and> \<not> in_kerf am i j}) \<and>
    (\<forall>x y. in_view m x y \<longrightarrow> got m' x y = (if (x - px base, y - py base) \<in> C then Some am else got m x y))"
proof -
  let ?n = "Cols am * Rows am - Slack am"
  obtain m' where m': "CastStitch m spent base am = Some (m', insert (IdxArticle am) spent)"
    "painted_on base am (set (painted am)) m m'"
    using CastStitch_painted[OF assms(1)] by blast
  have n: "0 < ?n" using assms(2) by (simp add: suits_def)
  then have pt: "painted am = take (nat ?n) (cells am)" by (simp add: painted_def max_def)
  note ck = cells_kerf[OF assms(2)]
  have "nat ?n \<le> length (cells am)" using ck by linarith
  then have "card (set (painted am)) = nat ?n"
    using distinct_cells[of am] unfolding pt by (simp add: distinct_card)
  then have card: "int (card (set (painted am))) = ?n" using n by simp
  have sub: "set (painted am) \<subseteq> set (cells am)" unfolding pt by (rule set_take_subset)
  have "set (painted am) = set (cells am)" if "int (card (set (cells am))) = ?n"
    using that card sub by (intro card_subset_eq) auto
  with m' card sub ck show ?thesis
    unfolding painted_on_def by (intro exI[of _ m'] exI[of _ "set (painted am)"]) auto
qed

text \<open>CastStitch paints an amorph whose edge suits its sides on exactly
  columns times rows less slack cells of its rectangle, none of them in the kerf; when the kerf
  takes up the whole slack, on every cell outside the kerf. A slot of the matrix shows the
  amorph afterwards iff it is one of these cells, every other slot shows what it showed before,
  and the article is recorded as spent. Cells outside the matrix are dropped; nothing panics.\<close>

theorem cast_stitch:
  assumes "mx_ok m" "suits am"
  shows "\<exists>m' C. CastStitch m spent base am = Some (m', insert (IdxArticle am) spent) \<and> mx_ok m' \<and>
    finite C \<and> int (card C) = Cols am * Rows am - Slack am \<and>
    C \<subseteq> {(i, j). 0 \<le> i \<and> i < Cols am \<and> 0 \<le> j \<and> j < Rows am \<and> \<not> in_kerf am i j} \<and>
    (int (card {(i, j). 0 \<le> i \<and> i < Cols am \<and> 0 \<le> j \<and> j < Rows am \<and> \<not> in_kerf am i j}) =
       Cols am * Rows am - Slack am \<longrightarrow>
     C = {(i, j). 0 \<le> i \<and> i < Cols am \<and> 0 \<le> j \<and> j < Rows am \<and> \<not> in_kerf am i j}) \<and>
    (\<forall>x y. in_view m x y \<longrightarrow> got m' x y = (if (x - px base, y - py base) \<in> C then Some am else got m x y))"
  by (rule CastStitch_spec[OF assms])

theorem cast_stitch_witness:
  "\<exists>m m' C. NewTransposableMatrix 4 4 = Some m \<and>
     CastStitch m {} (Point (- 1) (- 1)) (amorph0\<lparr>IdxArticle := 7, Cols := 3, Rows := 2, Slack := 1, Edge := [2, 1, 1]\<rparr>)
       = Some (m', {7}) \<and> int (card C) = 5 \<and>
     C \<subseteq> {(i :: int, j :: int). 0 \<le> i \<and> i < 3 \<and> 0 \<le> j \<and> j < 2 \<and> \<not> (2 \<le> i \<and> 1 \<le> j)}"
proof -
  let ?am = "amorph0\<lparr>IdxArticle := 7, Cols := 3, Rows := 2, Slack := 1, Edge := [2, 1, 1]\<rparr>"
  obtain m where m: "NewTransposableMatrix 4 4 = Some m" by (simp add: NewTransposableMatrix_def)
  then have "mx_ok m" by (auto simp: NewTransposableMatrix_def mx_ok_def)
  moreover have "suits ?am" by (simp add: suits_def amorph0_def)
  ultimately obtain m' C where "CastStitch m {} (Point (- 1) (- 1)) ?am = Some (m', insert (IdxArticle ?am) {})"
    "int (card C) = Cols ?am * Rows ?am - Slack ?am"
    "C \<subseteq> {(i, j). 0 \<le> i \<and> i < Cols ?am \<and> 0 \<le> j \<and> j < Rows ?am \<and> \<not> in_kerf ?am i j}"
    using cast_stitch[of m ?am "{}" "Point (- 1) (- 1)"] by blast
  with m show ?thesis by (auto simp: amorph0_def in_kerf_def)
qed

end
