(* ===== verification/Outline.thy ===== *)
theory Outline
  imports Matrix
begin

section \<open>The outline of the filled slots (transposablematrix/30-outline.go, 31-outline-enhance.go)\<close>

text \<open>
  The walk along the upper outline of the filled slots, the margins added by a viewport
  restriction, the concave sections of an outline, and the list of sections (\<open>clns\<close>:
  concavest, lowest, narrowest) that the heuristics work on.

  \<^item> A section of \<open>clns\<close> is a list of integers, as in the code: two indexes into the outline,
    then the lengths that \<open>decorateClns\<close> appends.
  \<^item> \<open>mappedByY\<close> is an association list with distinct keys; Go's map is read by key only, and
    its keys are sorted.
  \<^item> Errors are values of \<open>outline_error\<close>; their texts are left out, and so is printing.
\<close>

subsection \<open>Margins\<close>

datatype outline_error = BreakImperfect int int | BottomlessPit | BreakExhaustive int int

definition fictSegLen :: int where "fictSegLen = 6"

definition west_extension :: "int \<Rightarrow> int \<Rightarrow> point list \<Rightarrow> point list option" where
  "west_extension vpr1 xm1 line =
     (if vpr1 < xm1
      then case line of
             [] \<Rightarrow> None
           | p # rest \<Rightarrow>
               let line = Point vpr1 (py p) # rest;
                   line = Point (px (hd line)) (py (hd line) - fictSegLen) # line
               in Some (Point (px (hd line) - fictSegLen) (py (hd line)) # line)
      else Some line)"

definition set_last_x :: "int \<Rightarrow> point list \<Rightarrow> point list option" where
  "set_last_x v line = (if line = [] then None else Some (butlast line @ [Point v (py (last line))]))"

definition east_extension :: "int \<Rightarrow> int \<Rightarrow> int \<Rightarrow> point list \<Rightarrow> point list option" where
  "east_extension vpr2 vprFloor xm2 line =
     (if xm2 < vpr2
      then do {
        line \<leftarrow>
          (if xm2 = vpr2 - 1 then set_last_x vpr2 line
           else do {
             p0 \<leftarrow> slice_get line 0;
             if vprFloor = py p0 then set_last_x vpr2 line
             else let line = line @ [Point (px (last line)) vprFloor]
                  in Some (line @ [Point vpr2 (py (last line))]) });
        let line = line @ [Point (px (last line)) (py (last line) - fictSegLen)];
        Some (line @ [Point (px (last line) + fictSegLen) (py (last line))]) }
      else Some line)"

definition enhanceLine :: "matrix \<Rightarrow> bool \<Rightarrow> point list \<Rightarrow> int \<Rightarrow> int \<Rightarrow> point list option" where
  "enhanceLine m stillEmpty line xm1 xm2 =
     (if \<not> enforceVPR m then Some line
      else do {
        (vprmx1, vprmy1) \<leftarrow> transposeBase2Mapped m (vPRx1 m) (vPRy1 m);
        (vprmx2, vprmy2) \<leftarrow> transposeBase2Mapped m (vPRx2 m) (vPRy2 m);
        let (vpr1, vpr2, vprFloor) =
          (if go_mod (persp m) 2 = 1 then (vprmx1, vprmx2, max vprmy1 vprmy2)
           else (vprmy1, vprmy2, max vprmx1 vprmx2));
        let (line, xm1, xm2) =
          (if stillEmpty then ([Point vpr1 vprFloor, Point vpr2 vprFloor], vpr1 + 1, vpr2 - 1)
           else (line, xm1, xm2));
        line \<leftarrow> west_extension vpr1 xm1 line;
        east_extension vpr2 vprFloor xm2 line })"

subsection \<open>The walk\<close>

datatype direction = Up | Right | Down

definition walk_direction :: "bool \<Rightarrow> bool \<Rightarrow> direction" where
  "walk_direction ne se =
     (if ne \<and> se then Up else if \<not> ne \<and> se then Right else if \<not> ne \<and> \<not> se then Down else Right)"

text \<open>The point plotted at a change of direction; \<^verbatim>\<open>appendDistinct\<close> appends, its test for
  doubles is disabled.\<close>

definition appendDistinct :: "point list \<Rightarrow> point \<Rightarrow> point list" where
  "appendDistinct l p = l @ [p]"

definition plot :: "direction \<Rightarrow> direction \<Rightarrow> int \<Rightarrow> int \<Rightarrow> point list \<Rightarrow> point list" where
  "plot prevDir dir x y line =
     (case dir of
        Up \<Rightarrow> appendDistinct line (Point x y)
      | Right \<Rightarrow> (case prevDir of
          Up \<Rightarrow> appendDistinct line (Point x y)
        | Down \<Rightarrow> appendDistinct line (Point (x - 1) y)
        | Right \<Rightarrow> line)
      | Down \<Rightarrow> appendDistinct line (Point (x - 1) y))"

function walk_loop :: "matrix \<Rightarrow> int \<Rightarrow> int \<Rightarrow> int \<Rightarrow> int \<Rightarrow> direction \<Rightarrow> point list \<Rightarrow> int \<Rightarrow>
    (outline_error + point list \<times> bool) option" where
  "walk_loop m xm2 ym2 x y prevDir line ctr =
     (if xm2 + 1 < x then Some (Inr (line, True))
      else if nx m + ny m < ctr + 1
      then Some (Inl (BreakImperfect (ctr + 1) (int (length line))))
      else do {
        e1 \<leftarrow> mx_Empty m x (y - 1);
        e2 \<leftarrow> mx_Empty m x y;
        let dir = walk_direction (\<not> e1) (\<not> e2);
        if dir = Down \<and> 100 \<le> y then Some (Inl BottomlessPit)
        else
          let line' = (if dir \<noteq> prevDir then plot prevDir dir x y line else line)
          in if dir \<noteq> prevDir \<and> line' \<noteq> [] \<and> last line' = Point xm2 ym2
             then Some (Inr (line', False))
             else walk_loop m xm2 ym2
                    (case dir of Up \<Rightarrow> x | Right \<Rightarrow> x + 1 | Down \<Rightarrow> x)
                    (case dir of Up \<Rightarrow> y - 1 | Right \<Rightarrow> y | Down \<Rightarrow> y + 1)
                    dir line' (ctr + 1) })"
  by auto
termination
  by (relation "measure (\<lambda>(m, xm2, ym2, x, y, prevDir, line, ctr). nat (nx m + ny m - ctr))") auto

declare walk_loop.simps [simp del]

definition PartialOutline :: "matrix \<Rightarrow> (outline_error + point list) option" where
  "PartialOutline m = do {
     (m', ret) \<leftarrow> FilledMinMax m False;
     p1 \<leftarrow> slice_get ret 1;
     p2 \<leftarrow> slice_get ret 6;
     (xm1, ym1) \<leftarrow> transposeBase2Mapped m (px p1) (py p1);
     (xm2, ym2) \<leftarrow> transposeBase2Mapped m (px p2) (py p2);
     if xm1 = xm2 \<and> ym1 = ym2 then map_option Inr (enhanceLine m True [] xm1 xm2)
     else do {
       r \<leftarrow> walk_loop m xm2 ym2 xm1 ym1 Up [Point xm1 ym1] 0;
       case r of
         Inl e \<Rightarrow> Some (Inl e)
       | Inr (line, breakExhaustive) \<Rightarrow>
           if breakExhaustive then Some (Inl (BreakExhaustive xm1 xm2))
           else
             let line = (if 1 < length line \<and> line ! 0 = line ! 1 then tl line else line)
             in map_option Inr (enhanceLine m False line xm1 xm2) } }"

subsection \<open>Concave sections\<close>

text \<open>The state of the scan: the last three points of interest and the indexes of two of them.\<close>

record scan =
  P1 :: "point option"
  P2 :: "point option"
  P3 :: "point option"
  idxP2 :: int
  idxP3 :: int
  sections :: "(int \<times> int) list"

definition scan0 :: scan where
  "scan0 = \<lparr>P1 = None, P2 = None, P3 = None, idxP2 = -1, idxP3 = -1, sections = []\<rparr>"

definition scan_point :: "int \<Rightarrow> point \<Rightarrow> scan \<Rightarrow> scan" where
  "scan_point i p s =
     (case (P1 s, P2 s) of
        (None, _) \<Rightarrow> s\<lparr>P1 := Some p\<rparr>
      | (Some p1, None) \<Rightarrow>
          if py p \<le> py p1 then s\<lparr>P1 := Some p\<rparr> else s\<lparr>P2 := Some p, idxP2 := i\<rparr>
      | (Some p1, Some p2) \<Rightarrow>
          if py p2 < py p then s\<lparr>P1 := Some p2, P2 := Some p, idxP2 := i\<rparr>
          else if py p = py p2 then s\<lparr>P3 := Some p, idxP3 := i\<rparr>
          else (case P3 s of
                  None \<Rightarrow> s
                | Some p3 \<Rightarrow>
                    if py p < py p3
                    then \<lparr>P1 = None, P2 = None, P3 = None, idxP2 = -1, idxP3 = -1,
                          sections = sections s @ [(idxP2 s, idxP3 s)]\<rparr>
                    else s))"

fun scan_loop :: "int \<Rightarrow> point list \<Rightarrow> scan \<Rightarrow> scan" where
  "scan_loop i [] s = s"
| "scan_loop i (p # ps) s = scan_loop (i + 1) ps (scan_point i p s)"

definition ConcaveSections :: "point list \<Rightarrow> (int \<times> int) list" where
  "ConcaveSections outline =
     (if length outline < 2 then [] else sections (scan_loop 1 (tl outline) scan0))"

subsection \<open>Concavest, lowest, narrowest sections\<close>

text \<open>\<^verbatim>\<open>mappedByY\<close>, an association list with distinct keys.\<close>

type_synonym by_y = "(int \<times> (int \<times> int)) list"

function free_key :: "int \<Rightarrow> by_y \<Rightarrow> int" where
  "free_key rv m = (if rv \<in> fst ` set m then free_key (rv + 1) m else rv)"
  by auto
termination
proof (relation "measure (\<lambda>(rv, m). card {k \<in> fst ` set m. rv \<le> k})", simp)
  fix rv :: int and m :: by_y
  assume "rv \<in> fst ` set m"
  then have "rv \<in> {k \<in> fst ` set m. rv \<le> k}" "rv \<notin> {k \<in> fst ` set m. rv + 1 \<le> k}" by simp_all
  moreover have "{k \<in> fst ` set m. rv + 1 \<le> k} \<subseteq> {k \<in> fst ` set m. rv \<le> k}" by auto
  ultimately have "{k \<in> fst ` set m. rv + 1 \<le> k} \<subset> {k \<in> fst ` set m. rv \<le> k}" by blast
  then show "((rv + 1, m), (rv, m)) \<in> measure (\<lambda>(rv, m). card {k \<in> fst ` set m. rv \<le> k})"
    by (simp add: psubset_card_mono)
qed

declare free_key.simps [simp del]

definition sortFactor :: "bool \<Rightarrow> point \<Rightarrow> point \<Rightarrow> by_y \<Rightarrow> int" where
  "sortFactor isConcave p1 p2 m =
     (let fac = 1000; rv = fac * fac;
          rv = (if isConcave then rv - fac * fac else rv);
          rv = rv + - (fac * py p1);
          rv = (if py p1 = 0 then rv + - 800 else rv);
          rv = rv + (px p2 - px p1)
      in free_key rv m)"

fun add_concave :: "point list \<Rightarrow> (int \<times> int) list \<Rightarrow> by_y \<Rightarrow> by_y option" where
  "add_concave l [] m = Some m"
| "add_concave l ((i, j) # cs) m = do {
     p1 \<leftarrow> slice_get l i;
     p2 \<leftarrow> slice_get l j;
     add_concave l cs (m @ [(sortFactor True p1 p2 m, (i, j))]) }"

text \<open>The map \<^verbatim>\<open>csIndex\<close>: the second index of a concave section by its first; a later
  section with the same first index overwrites.\<close>

definition csIndex :: "(int \<times> int) list \<Rightarrow> int \<Rightarrow> int" where
  "csIndex cs i = (case map_of (rev cs) i of Some j \<Rightarrow> j | None \<Rightarrow> 0)"

fun add_horizontal :: "(int \<times> int) list \<Rightarrow> int \<Rightarrow> point list \<Rightarrow> by_y \<Rightarrow> by_y" where
  "add_horizontal cs k (p1 # p2 # l) m =
     add_horizontal cs (k + 1) (p2 # l)
       (if py p1 = py p2 \<and> csIndex cs (k - 1) \<noteq> k
        then m @ [(sortFactor False p1 p2 m, (k - 1, k))] else m)"
| "add_horizontal cs k l m = m"

text \<open>The seven lengths appended to a section; a neighbour point beyond the outline leaves the
  Go variables at zero.\<close>

definition decorate :: "point list \<Rightarrow> int \<Rightarrow> int \<Rightarrow> int list option" where
  "decorate l pIdx1 pIdx2 = do {
     p1 \<leftarrow> slice_get l pIdx1;
     (p11, dyw) \<leftarrow> (if pIdx1 - 1 \<ge> 0 then map_option (\<lambda>q. (q, py p1 - py q)) (slice_get l (pIdx1 - 1))
       else Some (Point 0 0, 0));
     (p12, dxw) \<leftarrow> (if pIdx1 - 2 \<ge> 0 then map_option (\<lambda>q. (q, px p11 - px q)) (slice_get l (pIdx1 - 2))
       else Some (Point 0 0, 0));
     dyw2 \<leftarrow> (if pIdx1 - 3 \<ge> 0 then map_option (\<lambda>q. py p12 - py q) (slice_get l (pIdx1 - 3)) else Some 0);
     p2 \<leftarrow> slice_get l pIdx2;
     (p21, dye) \<leftarrow> (if pIdx2 + 1 < int (length l)
       then map_option (\<lambda>q. (q, py p2 - py q)) (slice_get l (pIdx2 + 1)) else Some (Point 0 0, 0));
     (p22, dxe) \<leftarrow> (if pIdx2 + 2 < int (length l)
       then map_option (\<lambda>q. (q, px q - px p21)) (slice_get l (pIdx2 + 2)) else Some (Point 0 0, 0));
     dye2 \<leftarrow> (if pIdx2 + 3 < int (length l)
       then map_option (\<lambda>q. py p22 - py q) (slice_get l (pIdx2 + 3)) else Some 0);
     let dxbase = px p2 - px p1;
     let dxbase = (if dyw \<le> 0 \<and> dye \<le> 0 then dxbase + 1 else dxbase);
     let dxbase = (if 0 < dyw \<and> 0 < dye then dxbase - 1 else dxbase);
     let dxw = (if 0 < dyw \<and> dyw2 \<le> 0 then dxw + 1 else dxw);
     let dxw = (if dyw < 0 \<and> 0 < dyw2 then dxw - 1 else dxw);
     let dxe = (if 0 < dye \<and> dye2 \<le> 0 then dxe + 1 else dxe);
     let dxe = (if dye < 0 \<and> 0 < dye2 then dxe - 1 else dxe);
     Some [dxbase, dyw, dxw, dyw2, dye, dxe, dye2] }"

fun decorateClns :: "(int \<times> int) list \<Rightarrow> point list \<Rightarrow> int list list option" where
  "decorateClns [] l = Some []"
| "decorateClns ((i, j) # clns) l = do {
     d \<leftarrow> decorate l i j;
     r \<leftarrow> decorateClns clns l;
     Some ((i # j # d) # r) }"

text \<open>The sections in the order of their keys; an error of the walk leaves the outline empty
  and is handed on.\<close>

definition by_key :: "by_y \<Rightarrow> (int \<times> int) list" where
  "by_key m = map (\<lambda>k. the (map_of m k)) (sort (map fst m))"

definition clns_of :: "point list \<Rightarrow> int list list option" where
  "clns_of l = do {
     let cs = ConcaveSections l;
     mapped \<leftarrow> add_concave l cs [];
     decorateClns (by_key (add_horizontal cs 1 l mapped)) l }"

definition ConcavestLowestNarrowestSections ::
    "matrix \<Rightarrow> (int list list \<times> point list \<times> outline_error option) option" where
  "ConcavestLowestNarrowestSections m = do {
     r \<leftarrow> PartialOutline m;
     let (l, err) = (case r of Inl e \<Rightarrow> ([], Some e) | Inr l \<Rightarrow> (l, None));
     ret \<leftarrow> clns_of l;
     Some (ret, l, err) }"

text \<open>The positions in \<open>clns\<close> of the neighbours to the west and to the east, -1 for none.\<close>

fun find_last :: "int list list \<Rightarrow> int \<Rightarrow> int \<Rightarrow> int \<Rightarrow> int option" where
  "find_last [] i v found = Some found"
| "find_last (c # clns) i v found = do {
     h \<leftarrow> slice_get c 0;
     find_last clns (i + 1) v (if h = v then i else found) }"

definition findYourNeighbor :: "int list list \<Rightarrow> int list \<Rightarrow> (int \<times> int) option" where
  "findYourNeighbor clns sct = do {
     outlSelf \<leftarrow> slice_get sct 0;
     let outlPred = (if outlSelf - 2 < 0 then -1 else outlSelf - 2);
     let outlSucc = (if int (length clns) - 1 < go_div (outlSelf + 2) 2 then -1 else outlSelf + 2);
     west \<leftarrow> find_last clns 0 outlPred (-1);
     east \<leftarrow> find_last clns 0 outlSucc (-1);
     Some (west, east) }"

subsection \<open>The walk ends and alternates\<close>

text \<open>Segments are horizontal (possibly of length zero) and vertical in turn; \<open>h\<close> says that
  the first one is horizontal.\<close>

fun alternate :: "bool \<Rightarrow> point list \<Rightarrow> bool" where
  "alternate h (p # q # l) \<longleftrightarrow>
     (if h then py p = py q else px p = px q \<and> py p \<noteq> py q) \<and> alternate (\<not> h) (q # l)"
| "alternate h l \<longleftrightarrow> True"

lemma alternate_snoc:
  "alternate h (l @ [p]) \<longleftrightarrow> alternate h l \<and>
     (l = [] \<or> (if odd (length l) = h then py (last l) = py p else px (last l) = px p \<and> py (last l) \<noteq> py p))"
proof (induction l arbitrary: h)
  case (Cons q l)
  then show ?case by (cases l; cases h) auto
qed simp

lemma alternate_nth:
  "alternate h l \<Longrightarrow> Suc i < length l \<Longrightarrow>
   (if even i = h then py (l ! i) = py (l ! Suc i) else px (l ! i) = px (l ! Suc i) \<and> py (l ! i) \<noteq> py (l ! Suc i))"
proof (induction h l arbitrary: i rule: alternate.induct)
  case (1 h p q l)
  show ?case
  proof (cases i)
    case 0
    with "1.prems" show ?thesis by auto
  next
    case (Suc j)
    with "1.prems" have "alternate (\<not> h) (q # l)" "Suc j < length (q # l)" by auto
    from "1.IH"[OF this] Suc show ?thesis by (auto split: if_splits)
  qed
qed auto

definition is_filled :: "matrix \<Rightarrow> int \<Rightarrow> int \<Rightarrow> bool" where
  "is_filled m x y \<longleftrightarrow> got m x y \<noteq> None"

lemma Empty_eq: "mx_ok m \<Longrightarrow> mx_Empty m x y = Some (\<not> is_filled m x y)"
  by (cases "to_base m x y") (simp add: mx_Empty_def is_filled_def got_def Get_eq_mx)

text \<open>What is known of the line and the cursor between two steps of the walk.\<close>

fun walk_inv :: "matrix \<Rightarrow> int \<Rightarrow> int \<Rightarrow> direction \<Rightarrow> point list \<Rightarrow> bool" where
  "walk_inv m x y Right l \<longleftrightarrow> odd (length l) \<and> py (last l) = y"
| "walk_inv m x y Up l \<longleftrightarrow> even (length l) \<and> px (last l) = x \<and> y < py (last l) \<and> is_filled m x y"
| "walk_inv m x y Down l \<longleftrightarrow> even (length l) \<and> px (last l) = x - 1 \<and> py (last l) < y \<and> \<not> is_filled m x (y - 1)"

lemma walk_step:
  assumes inv: "walk_inv m x y prev l" "l \<noteq> []" "alternate True l"
    and dir: "dir = walk_direction (is_filled m x (y - 1)) (is_filled m x y)"
    and l': "l' = (if dir \<noteq> prev then plot prev dir x y l else l)"
  shows "l' \<noteq> []" "hd l' = hd l" "alternate True l'" "length l' \<le> Suc (length l)"
    "walk_inv m (case dir of Up \<Rightarrow> x | Right \<Rightarrow> x + 1 | Down \<Rightarrow> x)
       (case dir of Up \<Rightarrow> y - 1 | Right \<Rightarrow> y | Down \<Rightarrow> y + 1) dir l'"
  using assms
  by (cases prev; cases dir;
      auto simp: walk_direction_def plot_def appendDistinct_def alternate_snoc split: if_splits)+

lemma walk_loop_ends:
  assumes "mx_ok m"
  shows "walk_inv m x y prev l \<Longrightarrow> l \<noteq> [] \<Longrightarrow> alternate True l \<Longrightarrow> int (length l) \<le> ctr \<Longrightarrow>
    ctr \<le> nx m + ny m \<Longrightarrow>
    (\<exists>e. walk_loop m xm2 ym2 x y prev (p0 # l) ctr = Some (Inl e)) \<or>
    (\<exists>l'. walk_loop m xm2 ym2 x y prev (p0 # l) ctr = Some (Inr (p0 # l', True))) \<or>
    (\<exists>l'. walk_loop m xm2 ym2 x y prev (p0 # l) ctr = Some (Inr (p0 # l', False)) \<and>
       l' \<noteq> [] \<and> hd l' = hd l \<and> alternate True l' \<and> last l' = Point xm2 ym2 \<and> int (length l') \<le> nx m + ny m)"
proof (induction "nat (nx m + ny m - ctr)" arbitrary: x y prev l ctr rule: less_induct)
  case less
  define dir where "dir = walk_direction (is_filled m x (y - 1)) (is_filled m x y)"
  define l1 where "l1 = (if dir \<noteq> prev then plot prev dir x y l else l)"
  define x1 where "x1 = (case dir of Up \<Rightarrow> x | Right \<Rightarrow> x + 1 | Down \<Rightarrow> x)"
  define y1 where "y1 = (case dir of Up \<Rightarrow> y - 1 | Right \<Rightarrow> y | Down \<Rightarrow> y + 1)"
  note step = walk_step[OF less.prems(1-3) dir_def l1_def, folded x1_def y1_def]
  have pl: "dir = prev \<Longrightarrow> l1 = l" "dir \<noteq> prev \<Longrightarrow> plot prev dir x y (p0 # l) = p0 # l1"
    by (auto simp: l1_def plot_def appendDistinct_def split: direction.split)
  show ?case
  proof (cases "xm2 + 1 < x \<or> nx m + ny m < ctr + 1 \<or> dir = Down \<and> 100 \<le> y")
    case True
    then show ?thesis
      using Empty_eq[OF assms] by (subst (1 2 3) walk_loop.simps) (auto simp: dir_def)
  next
    case False
    have loop: "walk_loop m xm2 ym2 x y prev (p0 # l) ctr =
        (if dir \<noteq> prev \<and> last l1 = Point xm2 ym2 then Some (Inr (p0 # l1, False))
         else walk_loop m xm2 ym2 x1 y1 dir (p0 # l1) (ctr + 1))"
    proof (cases "dir = prev")
      case True
      then show ?thesis
        using False pl(1) unfolding x1_def y1_def
        by (subst walk_loop.simps) (auto simp: Empty_eq[OF assms] dir_def[symmetric] Let_def)
    next
      case turn: False
      then show ?thesis
        using False step(1) unfolding x1_def y1_def
        by (subst walk_loop.simps)
          (auto simp: Empty_eq[OF assms] dir_def[symmetric] Let_def pl(2)[OF turn])
    qed
    have len: "int (length l1) \<le> ctr + 1" using step(4) less.prems(4) by simp
    show ?thesis
    proof (cases "dir \<noteq> prev \<and> last l1 = Point xm2 ym2")
      case True
      with loop step len False show ?thesis by auto
    next
      case cont: False
      have "nat (nx m + ny m - (ctr + 1)) < nat (nx m + ny m - ctr)" using False by simp
      from less.hyps[OF this step(5,1,3) len] False step(2) loop cont show ?thesis by simp
    qed
  qed
qed

definition filled_points :: "matrix \<Rightarrow> point set" where
  "filled_points m = {Point x y | x y. inb m x y \<and> AmX (slot_of m x y) \<noteq> None}"

lemma is_filled_seen:
  assumes "mx_ok m"
  shows "is_filled m x y \<longleftrightarrow> (\<exists>p\<in>filled_points m. seen_x m p = x \<and> seen_y m p = y)"
proof -
  obtain xb yb where b: "to_base m x y = (xb, yb)" by fastforce
  have "seen_x m p = x \<and> seen_y m p = y \<longleftrightarrow> p = Point xb yb" for p
    using to_mapped_base[of m x y] to_base_mapped[of m "px p" "py p"] b
    by (cases p) (auto simp: seen_x_def seen_y_def)
  moreover have "is_filled m x y \<longleftrightarrow> Point xb yb \<in> filled_points m"
    by (simp add: is_filled_def got_def Get_eq_mx[OF assms b] slot0_def filled_points_def)
  ultimately show ?thesis by auto
qed

lemma seen_inj: "seen_x m p = seen_x m q \<Longrightarrow> seen_y m p = seen_y m q \<Longrightarrow> p = q"
  by (cases p; cases q) (simp add: seen_x_def seen_y_def to_mapped_def split: if_splits)

lemma extension_total:
  "line \<noteq> [] \<Longrightarrow> \<exists>l. west_extension a b line = Some l \<and> l \<noteq> []"
  "line \<noteq> [] \<Longrightarrow> \<exists>l. east_extension c d e line = Some l"
  by (cases line; auto simp: west_extension_def Let_def)
    (auto simp: east_extension_def set_last_x_def slice_get_def Let_def)

lemma enhanceLine_total:
  assumes "mx_ok m" "line \<noteq> [] \<or> stillEmpty"
  shows "\<exists>l. enhanceLine m stillEmpty line xm1 xm2 = Some l \<and> (\<not> enforceVPR m \<longrightarrow> l = line)"
proof (cases "enforceVPR m")
  case True
  have "\<exists>l. Option.bind (west_extension a b ln) (east_extension c d e) = Some l" if "ln \<noteq> []" for a b c d e ln
    using extension_total(1)[OF that, of a b] extension_total(2) by fastforce
  with True assms show ?thesis
    by (auto simp: enhanceLine_def Base2Mapped_eq Let_def split_def simp del: bind_eq_Some_iff split: if_splits)
qed (simp add: enhanceLine_def)

text \<open>The walk starts at the top of the leftmost column: the first step goes right.\<close>

lemma walk_first:
  assumes "mx_ok m" "\<not> is_filled m x (y - 1)" "is_filled m x y"
  shows "(\<exists>e. walk_loop m xm2 ym2 x y Up [Point x y] 0 = Some (Inl e)) \<or>
    (\<exists>l. walk_loop m xm2 ym2 x y Up [Point x y] 0 = Some (Inr (l, True))) \<or>
    (\<exists>l. walk_loop m xm2 ym2 x y Up [Point x y] 0 = Some (Inr (Point x y # l, False)) \<and>
       l \<noteq> [] \<and> hd l = Point x y \<and> alternate True l \<and> last l = Point xm2 ym2 \<and> int (length l) \<le> nx m + ny m)"
proof (cases "xm2 + 1 < x \<or> nx m + ny m < 1")
  case True
  then show ?thesis by (subst (1 2 3) walk_loop.simps) auto
next
  case False
  have loop: "walk_loop m xm2 ym2 x y Up [Point x y] 0 =
      (if Point x y = Point xm2 ym2 then Some (Inr ([Point x y, Point x y], False))
       else walk_loop m xm2 ym2 (x + 1) y Right [Point x y, Point x y] 1)"
    using assms(2,3) False
    by (subst walk_loop.simps)
      (auto simp: Empty_eq[OF assms(1)] walk_direction_def plot_def appendDistinct_def)
  show ?thesis
  proof (cases "Point x y = Point xm2 ym2")
    case True
    with loop False show ?thesis by auto
  next
    case cont: False
    from walk_loop_ends[OF assms(1), of "x + 1" y Right "[Point x y]" 1 xm2 ym2 "Point x y"] False
    show ?thesis unfolding loop using cont by (auto simp del: point.inject)
  qed
qed

text \<open>From a start that is no top of a column the walk may lead anywhere, but it ends.\<close>

lemma walk_loop_total:
  assumes "mx_ok m"
  shows "l \<noteq> [] \<Longrightarrow> \<exists>r. walk_loop m xm2 ym2 x y prev l ctr = Some r \<and> (\<forall>l' b. r = Inr (l', b) \<longrightarrow> l' \<noteq> [])"
proof (induction "nat (nx m + ny m - ctr)" arbitrary: x y prev l ctr rule: less_induct)
  case less
  define dir where "dir = walk_direction (is_filled m x (y - 1)) (is_filled m x y)"
  define l1 where "l1 = (if dir \<noteq> prev then plot prev dir x y l else l)"
  have l1: "l1 \<noteq> []" using less.prems by (simp add: l1_def plot_def appendDistinct_def split: direction.split)
  have loop: "walk_loop m xm2 ym2 x y prev l ctr =
      (if xm2 + 1 < x then Some (Inr (l, True))
       else if nx m + ny m < ctr + 1 then Some (Inl (BreakImperfect (ctr + 1) (int (length l))))
       else if dir = Down \<and> 100 \<le> y then Some (Inl BottomlessPit)
       else if dir \<noteq> prev \<and> last l1 = Point xm2 ym2 then Some (Inr (l1, False))
       else walk_loop m xm2 ym2 (case dir of Up \<Rightarrow> x | Right \<Rightarrow> x + 1 | Down \<Rightarrow> x)
         (case dir of Up \<Rightarrow> y - 1 | Right \<Rightarrow> y | Down \<Rightarrow> y + 1) dir l1 (ctr + 1))"
  proof (cases "dir = prev")
    case True
    with l1_def have "l1 = l" by simp
    with True show ?thesis
      by (subst walk_loop.simps) (simp add: Empty_eq[OF assms] dir_def[symmetric] Let_def split del: direction.split)
  next
    case False
    with l1_def have "plot prev dir x y l = l1" by simp
    with False l1 show ?thesis
      by (subst walk_loop.simps) (simp add: Empty_eq[OF assms] dir_def[symmetric] Let_def split del: direction.split)
  qed
  show ?case
  proof (cases "nx m + ny m < ctr + 1")
    case True
    with less.prems show ?thesis unfolding loop by simp
  next
    case False
    then have "nat (nx m + ny m - (ctr + 1)) < nat (nx m + ny m - ctr)" by simp
    note step = less.hyps[OF this l1]
    show ?thesis unfolding loop using less.prems l1 step by (simp split del: direction.split)
  qed
qed

lemma PartialOutline_walk:
  assumes ok: "mx_ok m" and out: "outmost_of m A B" and sub: "filled_points m \<subseteq> turned m A B"
  defines "S \<equiv> filled_points m" and "H \<equiv> turned m A B"
  shows "\<exists>r p1 p2. PartialOutline m = Some r \<and> extreme (seen_x m) (seen_y m) p1 H \<and>
    extreme (\<lambda>p. - seen_x m p) (seen_y m) p2 H \<and>
    (p1 \<in> S \<and> \<not> enforceVPR m \<longrightarrow> (\<forall>line. r = Inr line \<longrightarrow> p1 = p2 \<and> line = [] \<or>
      line \<noteq> [] \<and> hd line = Point (seen_x m p1) (seen_y m p1) \<and>
      last line = Point (seen_x m p2) (seen_y m p2) \<and> alternate True line \<and>
      int (length line) \<le> nx m + ny m))"
proof -
  obtain ret where ret: "FilledMinMax m False = Some (m, ret)" "outmost_seen m ret H (turned m B A)"
    using FilledMinMax_seen[OF ok out] unfolding H_def by blast
  define p1 p2 where "p1 = ret ! 1" and "p2 = ret ! 6"
  have ext: "extreme (seen_x m) (seen_y m) p1 H" "extreme (\<lambda>p. - seen_x m p) (seen_y m) p2 H"
    and len: "length ret = 8"
    using ret(2) unfolding outmost_seen_def Let_def p1_def p2_def by auto
  define x1 y1 x2 y2 where "x1 = seen_x m p1" and "y1 = seen_y m p1" and "x2 = seen_x m p2" and "y2 = seen_y m p2"
  have get: "slice_get ret 1 = Some p1" "slice_get ret 6 = Some p2"
    using len by (simp_all add: slice_get_def p1_def p2_def)
  have b2m: "transposeBase2Mapped m (px p1) (py p1) = Some (x1, y1)"
    "transposeBase2Mapped m (px p2) (py p2) = Some (x2, y2)"
    by (simp_all add: Base2Mapped_eq[OF ok] x1_def y1_def x2_def y2_def seen_x_def seen_y_def)
  note po = PartialOutline_def ret(1) get b2m
  show ?thesis
  proof (cases "x1 = x2 \<and> y1 = y2")
    case True
    have "p1 = p2"
      using True unfolding x1_def x2_def y1_def y2_def by (blast intro: seen_inj)
    obtain l where "enhanceLine m True [] x1 x2 = Some l" "\<not> enforceVPR m \<longrightarrow> l = []"
      using enhanceLine_total[OF ok, of "[]" True x1 x2] by auto
    with True \<open>p1 = p2\<close> show ?thesis
      using ext ret(1) get b2m by (intro exI[of _ "Inr l"] exI[of _ p1] exI[of _ p2]) (simp add: PartialOutline_def)
  next
    case apart: False
    show ?thesis
    proof (cases "p1 \<in> S")
      case False
      obtain r where r: "walk_loop m x2 y2 x1 y1 Up [Point x1 y1] 0 = Some r" "\<forall>l' b. r = Inr (l', b) \<longrightarrow> l' \<noteq> []"
        using walk_loop_total[OF ok] by blast
      have "\<exists>q. PartialOutline m = Some q"
      proof (cases r)
        case (Inr lb)
        obtain l b where lb: "lb = (l, b)" by fastforce
        let ?l = "if 1 < length l \<and> l ! 0 = l ! 1 then tl l else l"
        have "l \<noteq> []" using r(2) Inr lb by blast
        then have "?l \<noteq> []" by (cases l) auto
        then obtain l' where "enhanceLine m False ?l x1 x2 = Some l'" using enhanceLine_total[OF ok, of ?l False x1 x2] by blast
        then show ?thesis using r(1) Inr lb apart by (cases b) (auto simp: po Let_def)
      qed (use r(1) apart in \<open>auto simp: po\<close>)
      then show ?thesis using ext False by blast
    next
      case True
      have top: "is_filled m x1 y1" "\<not> is_filled m x1 (y1 - 1)"
        using ext(1) True sub unfolding is_filled_seen[OF ok] S_def[symmetric] H_def[symmetric] extreme_def x1_def y1_def by force+
      from walk_first[OF ok top(2,1), of x2 y2] consider
        (err) e where "walk_loop m x2 y2 x1 y1 Up [Point x1 y1] 0 = Some (Inl e)"
        | (exh) l where "walk_loop m x2 y2 x1 y1 Up [Point x1 y1] 0 = Some (Inr (l, True))"
        | (fine) l where "walk_loop m x2 y2 x1 y1 Up [Point x1 y1] 0 = Some (Inr (Point x1 y1 # l, False))"
          "l \<noteq> []" "hd l = Point x1 y1" "alternate True l" "last l = Point x2 y2" "int (length l) \<le> nx m + ny m"
        by blast
      then show ?thesis
      proof cases
        case err
        then have "PartialOutline m = Some (Inl e)" using apart by (auto simp: po)
        with ext show ?thesis by blast
      next
        case exh
        then have "PartialOutline m = Some (Inl (BreakExhaustive x1 x2))" using apart by (auto simp: po)
        with ext show ?thesis by blast
      next
        case fine
        obtain l' where l': "enhanceLine m False l x1 x2 = Some l'" "\<not> enforceVPR m \<longrightarrow> l' = l"
          using enhanceLine_total[OF ok, of l False x1 x2] fine(2) by auto
        have "1 < length (Point x1 y1 # l) \<and> (Point x1 y1 # l) ! 0 = (Point x1 y1 # l) ! 1"
          using fine(2,3) by (cases l) auto
        then have "PartialOutline m = Some (Inr l')"
          using apart fine(1) l'(1) by (auto simp: po)
        then show ?thesis
          using ext l'(2) fine(2-) unfolding x1_def y1_def x2_def y2_def by blast
      qed
    qed
  qed
qed

text \<open>A viewport restriction changes neither the limits nor the slots.\<close>

lemma lim_inv_viewport:
  assumes "lim_inv m ps" "ViewportRestriction m x1 y1 x2 y2 = Some m'"
  shows "lim_inv m' ps"
proof -
  obtain a b c d where m': "m' = m\<lparr>vPRx1 := a, vPRy1 := b, vPRx2 := c, vPRy2 := d, enforceVPR := True\<rparr>"
    using assms(2) unfolding ViewportRestriction_def by auto
  show ?thesis
    using assms(1) unfolding m' lim_inv_def
    by (simp add: lims_cong[of "m\<lparr>vPRx1 := a, vPRy1 := b, vPRx2 := c, vPRy2 := d, enforceVPR := True\<rparr>" m] mx_ok_def inb_def)
qed

text \<open>C27: After any sequence of Set, SetLabel, SetPerspective (0 to 3) and SetCenter on a new matrix in which a slot ps has been
  filled, and with or without a viewport restriction after it, PartialOutline returns an outline or one of its errors and never panics.
  It looks for the way from p1 to p2, the tops of the leftmost and of the rightmost column as seen in the perspective; when the first
  filled slot lies on base column 0 (in perspectives 0 and 2; on base row 0 in 1 and 3) the slot 0,0 counts as filled in this,
  also when it is empty. When p1 is filled and there is no viewport restriction, an outline that is returned starts at p1 and ends
  at p2, its segments are horizontal and vertical in turn, horizontal ones starting at even indexes, and it has at most nx + ny points;
  it is empty only when p1 and p2 coincide.\<close>

theorem outline_walk:
  assumes "NewTransposableMatrix a b = Some m0" "0 < a" "0 < b" "\<forall>p. OpPersp p \<in> set ops \<longrightarrow> p \<in> {0..3}"
    and "mx_run ops (m0, []) = Some (m1, ps)" "ps \<noteq> []"
    and "m = m1 \<or> ViewportRestriction m1 v1 w1 v2 w2 = Some m"
  shows "\<exists>r p1 p2. PartialOutline m = Some r \<and>
    extreme (seen_x m) (seen_y m) p1 (turned m (kept_of px ps) (kept_of py ps)) \<and>
    extreme (\<lambda>p. - seen_x m p) (seen_y m) p2 (turned m (kept_of px ps) (kept_of py ps)) \<and>
    (p1 \<in> filled_points m \<and> \<not> enforceVPR m \<longrightarrow> (\<forall>line. r = Inr line \<longrightarrow> p1 = p2 \<and> line = [] \<or>
      line \<noteq> [] \<and> hd line = Point (seen_x m p1) (seen_y m p1) \<and>
      last line = Point (seen_x m p2) (seen_y m p2) \<and> alternate True line \<and>
      int (length line) \<le> nx m + ny m))"
proof -
  have "lim_inv m1 ps"
    using mx_run_inv[OF lim_inv_New[OF assms(2,3,1)], of ops] assms(4,5) by auto
  then have i: "lim_inv m ps" using assms(7) lim_inv_viewport by blast
  have "filled_points m \<subseteq> turned m (kept_of px ps) (kept_of py ps)"
    using i by (auto simp: lim_inv_def filled_points_def turned_def kept_of_def)
  moreover have "mx_ok m" "outmost_of m (kept_of px ps) (kept_of py ps)" using i assms(6) by (simp_all add: lim_inv_def)
  ultimately show ?thesis using PartialOutline_walk by blast
qed

lemma filled_points_code [code]:
  "filled_points m = set (concat (map (\<lambda>x. map (Point x)
     (filter (\<lambda>y. AmX (slot_of m x y) \<noteq> None) [0..ny m - 1])) [0..nx m - 1]))"
  by (auto simp: filled_points_def inb_def)

definition steps_matrix :: matrix where
  "steps_matrix = fst (the (mx_run [OpSet (-1) 1 slot1, OpSet 0 1 slot1, OpSet 0 0 slot1, OpSet 1 1 slot1,
     OpSet 1 0 slot1] (the (NewTransposableMatrix 6 6), [])))"

theorem outline_walk_witness:
  "\<exists>p1 p2. PartialOutline steps_matrix = Some (Inr [Point (-1) 1, Point 0 1, Point 0 0, Point 1 0]) \<and>
     p1 = Point 2 4 \<and> p2 = Point 4 3 \<and> Point (-1) 1 = Point (seen_x steps_matrix p1) (seen_y steps_matrix p1) \<and>
     Point 1 0 = Point (seen_x steps_matrix p2) (seen_y steps_matrix p2)"
proof -
  let ?ops = "[OpSet (-1) 1 slot1, OpSet 0 1 slot1, OpSet 0 0 slot1, OpSet 1 1 slot1, OpSet 1 0 slot1]"
  have m0: "NewTransposableMatrix 6 6 = Some (the (NewTransposableMatrix 6 6))" by (simp add: NewTransposableMatrix_def)
  have pre: "\<forall>p. OpPersp p \<in> set ?ops \<longrightarrow> p \<in> {0..3}" by simp
  have ps: "map_option snd (mx_run ?ops (the (NewTransposableMatrix 6 6), [])) =
      Some [Point 2 4, Point 3 4, Point 3 3, Point 4 4, Point 4 3]" by code_simp
  then have run: "mx_run ?ops (the (NewTransposableMatrix 6 6), []) =
      Some (steps_matrix, [Point 2 4, Point 3 4, Point 3 3, Point 4 4, Point 4 3])"
    unfolding steps_matrix_def by (auto simp del: mx_run.simps)
  have k: "turned steps_matrix (kept_of px [Point 2 4, Point 3 4, Point 3 3, Point 4 4, Point 4 3])
      (kept_of py [Point 2 4, Point 3 4, Point 3 3, Point 4 4, Point 4 3]) = {Point 2 4, Point 3 4, Point 3 3, Point 4 4, Point 4 3}"
    by (auto simp: turned_def kept_of_def)
  have se: "persp steps_matrix = 0 \<and> cx steps_matrix = 3 \<and> cy steps_matrix = 3 \<and> \<not> enforceVPR steps_matrix \<and>
      Point 2 4 \<in> filled_points steps_matrix" by code_simp
  have out: "PartialOutline steps_matrix = Some (Inr [Point (-1) 1, Point 0 1, Point 0 0, Point 1 0])" by code_simp
  obtain r p1 p2 where r: "PartialOutline steps_matrix = Some r"
      "extreme (seen_x steps_matrix) (seen_y steps_matrix) p1 {Point 2 4, Point 3 4, Point 3 3, Point 4 4, Point 4 3}"
      "extreme (\<lambda>p. - seen_x steps_matrix p) (seen_y steps_matrix) p2 {Point 2 4, Point 3 4, Point 3 3, Point 4 4, Point 4 3}"
      "p1 \<in> filled_points steps_matrix \<and> \<not> enforceVPR steps_matrix \<longrightarrow> (\<forall>line. r = Inr line \<longrightarrow> p1 = p2 \<and> line = [] \<or>
      line \<noteq> [] \<and> hd line = Point (seen_x steps_matrix p1) (seen_y steps_matrix p1) \<and>
      last line = Point (seen_x steps_matrix p2) (seen_y steps_matrix p2) \<and> alternate True line \<and>
      int (length line) \<le> nx steps_matrix + ny steps_matrix)"
    using outline_walk[OF m0 zero_less_numeral zero_less_numeral pre run list.distinct(2) disjI1[OF refl]] unfolding k by blast
  have seen: "seen_x steps_matrix = (\<lambda>p. px p - 3)" "seen_y steps_matrix = (\<lambda>p. py p - 3)"
    using seen_turn(1)[of steps_matrix] se by auto
  have "p1 \<in> {Point 2 4, Point 3 4, Point 3 3, Point 4 4, Point 4 3}" "p2 \<in> {Point 2 4, Point 3 4, Point 3 3, Point 4 4, Point 4 3}"
    using r(2,3) by (simp_all only: extreme_def)
  moreover have "px p1 < 2 \<or> px p1 = 2 \<and> py p1 \<le> 4" "px p2 > 4 \<or> px p2 = 4 \<and> py p2 \<le> 3"
    using r(2,3) unfolding seen by (simp_all add: extreme_def)
  ultimately have p: "p1 = Point 2 4" "p2 = Point 4 3" by auto
  have "r = Inr [Point (-1) 1, Point 0 1, Point 0 0, Point 1 0]" using r(1) out by simp
  with r(4) se p have "hd [Point (-1) 1, Point 0 1, Point 0 0, Point 1 0] = Point (seen_x steps_matrix p1) (seen_y steps_matrix p1) \<and>
      last [Point (-1) 1, Point 0 1, Point 0 0, Point 1 0] = Point (seen_x steps_matrix p2) (seen_y steps_matrix p2)" by blast
  then show ?thesis using out p by (intro exI[of _ p1] exI[of _ p2]) simp
qed

text \<open>The first filled slot lies on base column 0: the outline starts at the slot 0,0, which is empty.\<close>

lemma outline_from_empty_slot:
  "map_option (\<lambda>(m, ps). (ps, PartialOutline m))
     (mx_run [OpSet (-3) 0 slot1, OpSet (-3) (-1) slot1, OpSet (-2) 0 slot1, OpSet (-2) 1 slot1] (the (NewTransposableMatrix 6 6), [])) =
   Some ([Point 0 3, Point 0 2, Point 1 3, Point 1 4], Some (Inr [Point (-3) (-3), Point (-4) (-3), Point (-4) (-1),
      Point (-3) (-1), Point (-3) 0, Point (-2) 0]))"
  by code_simp

text \<open>When all filled slots lie in one column the two ends of the outline coincide, and the code
  takes the matrix for an empty one.\<close>

lemma one_column_is_empty:
  "\<exists>m ps. mx_run [OpSet 0 0 slot1, OpSet 0 1 slot1] (the (NewTransposableMatrix 6 6), []) = Some (m, ps) \<and>
     ps = [Point 3 3, Point 3 4] \<and> PartialOutline m = Some (Inr [])"
proof -
  have "map_option (\<lambda>(m, ps). (ps, PartialOutline m))
      (mx_run [OpSet 0 0 slot1, OpSet 0 1 slot1] (the (NewTransposableMatrix 6 6), [])) =
    Some ([Point 3 3, Point 3 4], Some (Inr []))" by code_simp
  then show ?thesis by (auto simp del: mx_run.simps)
qed

text \<open>When the rightmost column is one slot wide and higher than its neighbour, the walk stops at
  the end of a vertical segment, and the eastern margin then moves that point: the outline gets a
  segment that is neither horizontal nor vertical.\<close>

lemma margin_breaks_outline:
  "map_option (\<lambda>(m, ps). PartialOutline (m\<lparr>vPRx1 := 0, vPRy1 := 5, vPRx2 := 5, vPRy2 := 2, enforceVPR := True\<rparr>))
      (mx_run [OpPersp 1, OpSet (-1) 1 slot1, OpSet 0 1 slot1, OpSet 0 0 slot1]
        (the (NewTransposableMatrix 6 6), [])) =
    Some (Some (Inr [Point (- 8) (- 5), Point (- 2) (- 5), Point (- 2) 1, Point 0 1, Point 1 0,
      Point 1 (- 6), Point 7 (- 6)]))"
  by code_simp

subsection \<open>Concave sections are the floors\<close>

definition concave_at :: "point list \<Rightarrow> nat \<Rightarrow> bool" where
  "concave_at l i \<longleftrightarrow> 2 \<le> i \<and> even i \<and> i + 2 < length l \<and>
     py (l ! (i - 1)) < py (l ! i) \<and> py (l ! (i + 2)) < py (l ! i)"

lemma scan_loop_append:
  "scan_loop i (xs @ ys) s = scan_loop (i + int (length xs)) ys (scan_loop i xs s)"
  by (induction xs arbitrary: i s) (simp_all add: algebra_simps)

text \<open>After an even number of points the scan knows the level, and, behind a step down, the floor.\<close>

definition scan_inv :: "point list \<Rightarrow> nat \<Rightarrow> scan \<Rightarrow> bool" where
  "scan_inv l k s \<longleftrightarrow>
     sections s = map (\<lambda>i. (int i, int i + 1)) (filter (\<lambda>i. concave_at l i \<and> i < 2 * k) [0..<length l]) \<and>
     (if 0 < k \<and> py (l ! (2 * k - 1)) < py (l ! (2 * k))
      then P1 s \<noteq> None \<and> P2 s = Some (l ! (2 * k)) \<and> P3 s = Some (l ! (2 * k + 1)) \<and>
        idxP2 s = int (2 * k) \<and> idxP3 s = int (2 * k + 1)
      else P1 s = Some (l ! (2 * k + 1)) \<and> P2 s = None)"

lemma scan_inv_step:
  assumes alt: "alternate True l" and inv: "scan_inv l k s" and len: "2 * k + 2 < length l"
  shows "sections (scan_point (int (2 * k + 2)) (l ! (2 * k + 2)) s) =
      map (\<lambda>i. (int i, int i + 1)) (filter (\<lambda>i. concave_at l i \<and> i < 2 * (k + 1)) [0..<length l])"
    and "2 * k + 3 < length l \<Longrightarrow>
      scan_inv l (k + 1) (scan_point (int (2 * k + 3)) (l ! (2 * k + 3))
        (scan_point (int (2 * k + 2)) (l ! (2 * k + 2)) s))"
proof -
  let ?p = "l ! (2 * k + 2)" and ?q = "l ! (2 * k + 3)" and ?v = "py (l ! (2 * k + 1))"
  have fl: "py (l ! (2 * k)) = ?v" using alternate_nth[OF alt, of "2 * k"] len by simp
  have vert: "py ?p \<noteq> ?v" using alternate_nth[OF alt, of "2 * k + 1"] len by simp
  have horiz: "2 * k + 3 < length l \<Longrightarrow> py ?q = py ?p"
    using alternate_nth[OF alt, of "2 * k + 2"] by (simp add: numeral_3_eq_3)
  have split: "[0..<length l] = [0..<2 * k] @ [2 * k, 2 * k + 1] @ [2 * k + 2..<length l]"
    using len upt_add_eq_append[of 0 "2 * k" "length l - 2 * k"] by (simp add: upt_conv_Cons)
  have new: "filter (\<lambda>i. concave_at l i \<and> i < 2 * (k + 1)) [0..<length l] =
      filter (\<lambda>i. concave_at l i \<and> i < 2 * k) [0..<length l] @ (if concave_at l (2 * k) then [2 * k] else [])"
    unfolding split by (auto simp: concave_at_def filter_empty_conv intro!: filter_cong)
  have con: "concave_at l (2 * k) \<longleftrightarrow> 0 < k \<and> py (l ! (2 * k - 1)) < ?v \<and> py ?p < ?v"
    using len fl by (auto simp: concave_at_def)
  define s1 where "s1 = scan_point (int (2 * k + 2)) ?p s"
  have s1: "sections s1 = map (\<lambda>i. (int i, int i + 1)) (filter (\<lambda>i. concave_at l i \<and> i < 2 * (k + 1)) [0..<length l]) \<and>
    (if ?v < py ?p then P1 s1 \<noteq> None \<and> P2 s1 = Some ?p \<and> idxP2 s1 = int (2 * k + 2)
     else P2 s1 = None \<and> (P1 s1 = None \<or> P1 s1 = Some ?p))"
  proof (cases "0 < k \<and> py (l ! (2 * k - 1)) < ?v")
    case True
    with inv fl obtain p1 where "P1 s = Some p1" "P2 s = Some (l ! (2 * k))" "P3 s = Some (l ! (2 * k + 1))"
      "idxP2 s = int (2 * k)" "idxP3 s = int (2 * k + 1)" unfolding scan_inv_def by auto
    then show ?thesis
      using inv fl vert True unfolding s1_def new con scan_inv_def by (auto simp: scan_point_def)
  next
    case False
    with inv fl have "P1 s = Some (l ! (2 * k + 1))" "P2 s = None" unfolding scan_inv_def by auto
    then show ?thesis
      using inv vert False unfolding s1_def new con scan_inv_def by (auto simp: scan_point_def)
  qed
  then show "sections (scan_point (int (2 * k + 2)) ?p s) =
      map (\<lambda>i. (int i, int i + 1)) (filter (\<lambda>i. concave_at l i \<and> i < 2 * (k + 1)) [0..<length l])"
    unfolding s1_def by simp
  show "scan_inv l (k + 1) (scan_point (int (2 * k + 3)) ?q (scan_point (int (2 * k + 2)) ?p s))"
    if "2 * k + 3 < length l"
    using s1 horiz[OF that] vert unfolding s1_def[symmetric] scan_inv_def
    by (auto simp: scan_point_def numeral_3_eq_3 split: if_splits)
qed

lemma scan_inv_prefix:
  assumes "alternate True l"
  shows "2 * k + 2 \<le> length l \<Longrightarrow> scan_inv l k (scan_loop 1 (take (2 * k + 1) (tl l)) scan0)"
proof (induction k)
  case 0
  then obtain p q r where "l = p # q # r" by (cases l; cases "tl l") auto
  then show ?case by (simp add: scan_inv_def scan_point_def scan0_def)
next
  case (Suc k)
  have nth: "tl l ! i = l ! Suc i" if "Suc i < length l" for i
    using that by (cases l) auto
  have "take (2 * Suc k + 1) (tl l) = take (2 * k + 1) (tl l) @ [l ! (2 * k + 2), l ! (2 * k + 3)]"
    using Suc.prems take_Suc_conv_app_nth[of "2 * k + 2" "tl l"] take_Suc_conv_app_nth[of "2 * k + 1" "tl l"]
      nth[of "2 * k + 1"] nth[of "2 * k + 2"] by (simp add: numeral_3_eq_3)
  moreover have "length (take (2 * k + 1) (tl l)) = 2 * k + 1" using Suc.prems by simp
  ultimately have "scan_loop 1 (take (2 * Suc k + 1) (tl l)) scan0 =
      scan_point (int (2 * k + 3)) (l ! (2 * k + 3)) (scan_point (int (2 * k + 2)) (l ! (2 * k + 2))
        (scan_loop 1 (take (2 * k + 1) (tl l)) scan0))"
    by (simp add: scan_loop_append add.commute)
  moreover have "scan_inv l k (scan_loop 1 (take (2 * k + 1) (tl l)) scan0)" using Suc by simp
  ultimately show ?case using scan_inv_step(2)[OF assms] Suc.prems by simp
qed

lemma ConcaveSections_eq:
  assumes "alternate True l"
  shows "ConcaveSections l = map (\<lambda>i. (int i, int i + 1)) (filter (concave_at l) [0..<length l])"
proof (cases "length l < 2")
  case True
  then show ?thesis by (auto simp: ConcaveSections_def concave_at_def filter_empty_conv)
next
  case False
  define k where "k = (length l - 2) div 2"
  have len: "length l = 2 * k + 2 \<or> length l = 2 * k + 3" using False unfolding k_def by linarith
  then have inv: "scan_inv l k (scan_loop 1 (take (2 * k + 1) (tl l)) scan0)"
    by (intro scan_inv_prefix[OF assms]) auto
  have all: "filter (\<lambda>i. concave_at l i \<and> i < n) [0..<length l] = filter (concave_at l) [0..<length l]"
    if "length l \<le> n + 2" for n
    using that by (intro filter_cong) (auto simp: concave_at_def)
  from len show ?thesis
  proof
    assume "length l = 2 * k + 2"
    with inv all[of "2 * k"] show ?thesis by (simp add: ConcaveSections_def scan_inv_def)
  next
    assume l3: "length l = 2 * k + 3"
    have "tl l ! (2 * k + 1) = l ! (2 * k + 2)" using l3 by (cases l) auto
    then have tl: "tl l = take (2 * k + 1) (tl l) @ [l ! (2 * k + 2)]"
      using l3 take_Suc_conv_app_nth[of "2 * k + 1" "tl l"] by simp
    have "scan_loop 1 (take (2 * k + 1) (tl l) @ [l ! (2 * k + 2)]) scan0 =
        scan_point (int (2 * k + 2)) (l ! (2 * k + 2)) (scan_loop 1 (take (2 * k + 1) (tl l)) scan0)"
      using l3 by (simp add: scan_loop_append add.commute)
    then have "scan_loop 1 (tl l) scan0 = scan_point (int (2 * k + 2)) (l ! (2 * k + 2))
        (scan_loop 1 (take (2 * k + 1) (tl l)) scan0)"
      by (rule trans[OF arg_cong[where f = "\<lambda>x. scan_loop 1 x scan0", OF tl]])
    with scan_inv_step(1)[OF assms inv] l3 all[of "2 * (k + 1)"] show ?thesis
      by (simp add: ConcaveSections_def)
  qed
qed

text \<open>On an outline whose segments are horizontal and vertical in turn, starting with a
  horizontal one, ConcaveSections returns exactly the floors between a step down and a step up, from
  west to east: the pairs of indexes i, i + 1 of a horizontal segment whose western neighbour point
  and whose eastern neighbour point both lie higher (have a smaller ordinate).\<close>

theorem concave_sections_exact:
  assumes "alternate True l"
  shows "ConcaveSections l = map (\<lambda>i. (int i, int i + 1))
    (filter (\<lambda>i. 2 \<le> i \<and> even i \<and> i + 2 < length l \<and>
       py (l ! (i - 1)) < py (l ! i) \<and> py (l ! (i + 2)) < py (l ! i)) [0..<length l])"
  using ConcaveSections_eq[OF assms] unfolding concave_at_def .

theorem concave_sections_exact_witness:
  "ConcaveSections [Point 0 1, Point 2 1, Point 2 3, Point 4 3, Point 4 0, Point 5 0] = [(2, 3)]"
  using concave_sections_exact[of "[Point 0 1, Point 2 1, Point 2 3, Point 4 3, Point 4 0, Point 5 0]"]
  by (simp add: upt_rec[of _ "Suc _"] numeral_eq_Suc)

subsection \<open>Every horizontal segment is a section, once\<close>

lemma free_key_fresh: "free_key rv m \<notin> fst ` set m"
  by (induction rv m rule: free_key.induct) (subst free_key.simps, simp)

lemma sortFactor_fresh: "sortFactor c p q m \<notin> fst ` set m"
  by (simp add: sortFactor_def free_key_fresh Let_def)

lemma add_concave_spec:
  assumes "\<forall>(i, j)\<in>set cs. 0 \<le> i \<and> i < int (length l) \<and> 0 \<le> j \<and> j < int (length l)"
  shows "distinct (map fst m) \<Longrightarrow>
    \<exists>m'. add_concave l cs m = Some m' \<and> map snd m' = map snd m @ cs \<and> distinct (map fst m')"
  using assms
proof (induction cs arbitrary: m)
  case (Cons c cs)
  obtain i j where c: "c = (i, j)" by fastforce
  let ?m = "m @ [(sortFactor True (l ! nat i) (l ! nat j) m, (i, j))]"
  have "distinct (map fst ?m)" using Cons.prems(1) by (simp add: sortFactor_fresh)
  moreover have "slice_get l i = Some (l ! nat i)" "slice_get l j = Some (l ! nat j)"
    using Cons.prems(2) c by (auto simp: slice_get_def)
  ultimately show ?case using Cons.IH[of ?m] Cons.prems(2) c by auto
qed simp

fun level_pairs :: "int \<Rightarrow> point list \<Rightarrow> (int \<times> int) list" where
  "level_pairs k (p1 # p2 # l) = (if py p1 = py p2 then [(k - 1, k)] else []) @ level_pairs (k + 1) (p2 # l)"
| "level_pairs k l = []"

lemma add_horizontal_spec:
  "distinct (map fst m) \<Longrightarrow>
   map snd (add_horizontal cs k l m) = map snd m @ filter (\<lambda>(i, j). csIndex cs i \<noteq> j) (level_pairs k l) \<and>
   distinct (map fst (add_horizontal cs k l m))"
  by (induction cs k l m rule: add_horizontal.induct) (simp_all add: sortFactor_fresh)

lemma level_pairs_alternate:
  "alternate (even k) l \<Longrightarrow>
   level_pairs (int k + 1) l = map (\<lambda>i. (int i, int i + 1)) (filter even [k..<k + length l - 1])"
proof (induction "int k + 1" l arbitrary: k rule: level_pairs.induct)
  case (1 p1 p2 l)
  have up: "[k..<k + length (p1 # p2 # l) - 1] = k # [Suc k..<Suc k + length (p2 # l) - 1]"
    by (simp add: upt_conv_Cons del: upt_Suc)
  have "alternate (even (Suc k)) (p2 # l)" using "1.prems" by simp
  with "1.hyps"[of "Suc k"] have "level_pairs (int k + 1 + 1) (p2 # l) =
      map (\<lambda>i. (int i, int i + 1)) (filter even [Suc k..<Suc k + length (p2 # l) - 1])"
    by (simp add: add.commute)
  then show ?case using "1.prems" unfolding up by auto
qed auto

lemma by_key_mset: "distinct (map fst m) \<Longrightarrow> mset (by_key m) = mset (map snd m)"
proof -
  assume d: "distinct (map fst m)"
  have "mset (by_key m) = image_mset (\<lambda>k. the (map_of m k)) (mset (map fst m))"
    by (simp add: by_key_def)
  also have "\<dots> = mset (map (\<lambda>kv. the (map_of m (fst kv))) m)"
    by (simp add: image_mset.compositionality comp_def)
  also have "map (\<lambda>kv. the (map_of m (fst kv))) m = map snd m"
    using d by (intro map_cong) (auto simp: map_of_eq_Some_iff)
  finally show ?thesis .
qed

lemma decorate_total:
  assumes "0 \<le> i" "i < int (length l)" "0 \<le> j" "j < int (length l)"
  shows "\<exists>d. decorate l i j = Some d \<and> length d = 7"
proof -
  have g: "slice_get l k = Some (l ! nat k)" if "0 \<le> k" "k < int (length l)" for k
    using that by (simp add: slice_get_def)
  show ?thesis using assms unfolding decorate_def by (auto simp: g Let_def split: if_splits)
qed

definition horizontals :: "point list \<Rightarrow> (int \<times> int) list" where
  "horizontals l = map (\<lambda>i. (int i, int i + 1)) (filter even [0..<length l - 1])"

lemma decorateClns_spec:
  "\<forall>(i, j)\<in>set ps. 0 \<le> i \<and> i < int (length l) \<and> 0 \<le> j \<and> j < int (length l) \<Longrightarrow>
   \<exists>r. decorateClns ps l = Some r \<and> map (\<lambda>c. (c ! 0, c ! 1)) r = ps \<and>
     (\<forall>c\<in>set r. length c = 9 \<and> (\<exists>d. decorate l (c ! 0) (c ! 1) = Some d \<and> c = c ! 0 # c ! 1 # d))"
proof (induction ps)
  case (Cons p ps)
  obtain i j where p: "p = (i, j)" by fastforce
  obtain d where d: "decorate l i j = Some d" "length d = 7"
    using decorate_total[of i l j] Cons.prems p by auto
  obtain r where "decorateClns ps l = Some r" "map (\<lambda>c. (c ! 0, c ! 1)) r = ps"
    "\<forall>c\<in>set r. length c = 9 \<and> (\<exists>d. decorate l (c ! 0) (c ! 1) = Some d \<and> c = c ! 0 # c ! 1 # d)"
    using Cons by auto
  with d p show ?case by auto
qed simp

lemma mset_split_filter:
  "mset (map f (filter (\<lambda>x. P x \<and> Q x) xs)) + mset (map f (filter (\<lambda>x. P x \<and> \<not> Q x) xs)) =
    mset (map f (filter P xs))"
  by (induction xs) auto

lemma clns_of_spec:
  assumes alt: "alternate True l"
  shows "\<exists>r. clns_of l = Some r \<and> mset (map (\<lambda>c. (c ! 0, c ! 1)) r) = mset (horizontals l) \<and>
    (\<forall>c\<in>set r. length c = 9 \<and> (\<exists>d. decorate l (c ! 0) (c ! 1) = Some d \<and> c = c ! 0 # c ! 1 # d))"
proof -
  define cs where "cs = ConcaveSections l"
  have cs: "cs = map (\<lambda>i. (int i, int i + 1)) (filter (concave_at l) [0..<length l])"
    unfolding cs_def by (rule ConcaveSections_eq[OF alt])
  have range: "\<forall>(i, j)\<in>set cs. 0 \<le> i \<and> i < int (length l) \<and> 0 \<le> j \<and> j < int (length l)"
    unfolding cs by (auto simp: concave_at_def)
  obtain m where m: "add_concave l cs [] = Some m" "map snd m = cs" "distinct (map fst m)"
    using add_concave_spec[OF range, of "[]"] by auto
  define m' where "m' = add_horizontal cs 1 l m"
  have lp: "level_pairs 1 l = horizontals l"
    using level_pairs_alternate[of 0 l] alt by (simp add: horizontals_def)
  have m': "map snd m' = cs @ filter (\<lambda>(i, j). csIndex cs i \<noteq> j) (horizontals l)" "distinct (map fst m')"
    using add_horizontal_spec[OF m(3), of cs 1 l] unfolding m'_def m(2) lp by auto
  have ix: "csIndex cs (int i) = int i + 1 \<longleftrightarrow> concave_at l i" for i
  proof -
    have "distinct (map fst (rev cs))" unfolding cs by (simp add: comp_def distinct_map inj_on_def rev_map[symmetric])
    moreover have "(int i, j) \<in> set (rev cs) \<longleftrightarrow> concave_at l i \<and> j = int i + 1" for j
      unfolding cs by (auto simp: concave_at_def)
    ultimately have "map_of (rev cs) (int i) = (if concave_at l i then Some (int i + 1) else None)"
      by (cases "map_of (rev cs) (int i)") (auto simp: map_of_eq_Some_iff dest: map_of_SomeD)
    then show ?thesis by (simp add: csIndex_def)
  qed
  have "filter (\<lambda>(i, j). csIndex cs i \<noteq> j) (horizontals l) =
      map (\<lambda>i. (int i, int i + 1)) (filter (\<lambda>i. even i \<and> \<not> concave_at l i) [0..<length l - 1])"
    unfolding horizontals_def filter_map by (auto simp: comp_def ix intro!: filter_cong)
  moreover have "cs = map (\<lambda>i. (int i, int i + 1)) (filter (\<lambda>i. even i \<and> concave_at l i) [0..<length l - 1])"
  proof -
    have "filter (concave_at l) [0..<length l] = filter (\<lambda>i. even i \<and> concave_at l i) [0..<length l - 1]"
      by (cases "length l") (auto simp: concave_at_def intro!: filter_cong)
    then show ?thesis unfolding cs by simp
  qed
  ultimately have "mset (map snd m') = mset (horizontals l)"
    unfolding m'(1) horizontals_def by (simp only: mset_append mset_split_filter)
  then have ms: "mset (by_key m') = mset (horizontals l)" using by_key_mset[OF m'(2)] by simp
  then have "set (by_key m') = set (horizontals l)" by (metis set_mset_mset)
  then have "\<forall>(i, j)\<in>set (by_key m'). 0 \<le> i \<and> i < int (length l) \<and> 0 \<le> j \<and> j < int (length l)"
    by (auto simp: horizontals_def)
  from decorateClns_spec[OF this] obtain r where r: "decorateClns (by_key m') l = Some r"
    "map (\<lambda>c. (c ! 0, c ! 1)) r = by_key m'"
    "\<forall>c\<in>set r. length c = 9 \<and> (\<exists>d. decorate l (c ! 0) (c ! 1) = Some d \<and> c = c ! 0 # c ! 1 # d)" by blast
  have "mset (map (\<lambda>c. (c ! 0, c ! 1)) r) = mset (horizontals l)" by (simp only: r(2) ms)
  moreover have "clns_of l = Some r"
    using m(1) r(1) unfolding clns_of_def cs_def[symmetric] m'_def by (simp add: Let_def)
  ultimately show ?thesis using r(3) by blast
qed

text \<open>The neighbours of a section in an outline of alternating segments.\<close>

definition sections_ok :: "int list list \<Rightarrow> nat \<Rightarrow> bool" where
  "sections_ok clns n \<longleftrightarrow> (\<forall>c\<in>set clns. length c = 9 \<and> c ! 1 = c ! 0 + 1) \<and>
     mset (map (\<lambda>c. c ! 0) clns) = mset (map (\<lambda>i. 2 * int i) [0..<n])"

lemma horizontals_firsts: "map fst (horizontals l) = map (\<lambda>i. 2 * int i) [0..<length l div 2]"
proof -
  have "filter even [0..<k - 1] = map (\<lambda>i. 2 * i) [0..<k div 2]" for k :: nat
  proof (induction k rule: nat_less_induct)
    case (1 k)
    show ?case
    proof (cases "k < 2")
      case True
      then show ?thesis by auto
    next
      case False
      then obtain j where k: "k = j + 2" by (metis add.commute le_Suc_ex not_less)
      have IH: "filter even [0..<j - 1] = map (\<lambda>i. 2 * i) [0..<j div 2]" using 1 k by simp
      show ?thesis
      proof (cases j)
        case (Suc i)
        have "[0..<k - 1] = [0..<j - 1] @ [j - 1, j]" using k Suc by simp
        then show ?thesis using IH k Suc by auto
      qed (use k in auto)
    qed
  qed
  then show ?thesis by (simp add: horizontals_def comp_def)
qed

lemma clns_sections_ok:
  assumes "mset (map (\<lambda>c. (c ! 0, c ! 1)) r) = mset (horizontals l)" "\<forall>c\<in>set r. length c = 9"
  shows "sections_ok r (length l div 2)"
proof -
  have "mset (map (\<lambda>c. c ! 0) r) = image_mset fst (mset (map (\<lambda>c. (c ! 0, c ! 1)) r))"
    by (simp add: image_mset.compositionality comp_def)
  also have "\<dots> = mset (map fst (horizontals l))" using assms(1) by simp
  finally have 1: "mset (map (\<lambda>c. c ! 0) r) = mset (map (\<lambda>i. 2 * int i) [0..<length l div 2])"
    by (simp only: horizontals_firsts)
  have "(c ! 0, c ! 1) \<in> set (horizontals l)" if "c \<in> set r" for c
    using that assms(1) by (metis (no_types, lifting) image_eqI set_map set_mset_mset)
  then have "\<forall>c\<in>set r. c ! 1 = c ! 0 + 1" by (fastforce simp: horizontals_def)
  with 1 assms(2) show ?thesis by (simp add: sections_ok_def)
qed

lemma find_last_spec:
  "\<forall>c\<in>set clns. c \<noteq> [] \<Longrightarrow> \<exists>r. find_last clns i v found = Some r \<and>
     (if v \<in> (\<lambda>c. c ! 0) ` set clns then i \<le> r \<and> nat (r - i) < length clns \<and> clns ! nat (r - i) ! 0 = v
      else r = found)"
proof (induction clns i v found rule: find_last.induct)
  case (2 c clns i v found)
  have g: "slice_get c 0 = Some (c ! 0)" using "2.prems" by (simp add: slice_get_def)
  obtain r where r: "find_last clns (i + 1) v (if c ! 0 = v then i else found) = Some r"
    "if v \<in> (\<lambda>c. c ! 0) ` set clns
     then i + 1 \<le> r \<and> nat (r - (i + 1)) < length clns \<and> clns ! nat (r - (i + 1)) ! 0 = v
     else r = (if c ! 0 = v then i else found)"
    using "2.IH"[OF g] "2.prems" by auto
  have n: "i + 1 \<le> r \<Longrightarrow> nat (r - i) = Suc (nat (r - (i + 1)))" by simp
  show ?case
    using r g n by (cases "v \<in> (\<lambda>c. c ! 0) ` set clns") (auto split: if_splits)
qed simp

lemma sections_firsts:
  assumes "sections_ok clns n"
  shows "(\<lambda>c. c ! 0) ` set clns = (\<lambda>i. 2 * int i) ` {..<n}" "length clns = n"
proof -
  have ms: "mset (map (\<lambda>c. c ! 0) clns) = mset (map (\<lambda>i. 2 * int i) [0..<n])"
    using assms by (simp add: sections_ok_def)
  show "(\<lambda>c. c ! 0) ` set clns = (\<lambda>i. 2 * int i) ` {..<n}"
    using arg_cong[OF ms, of set_mset] by (simp add: atLeast0LessThan)
  show "length clns = n" using arg_cong[OF ms, of size] by simp
qed

lemma findYourNeighbor_spec:
  assumes ok: "sections_ok clns n" and c: "c \<in> set clns" and i: "c ! 0 = 2 * int i"
  shows "\<exists>w e. findYourNeighbor clns c = Some (w, e) \<and>
    (if i = 0 then w = -1 else 0 \<le> w \<and> nat w < length clns \<and> clns ! nat w ! 0 = 2 * int i - 2) \<and>
    (if i + 1 = n then e = -1 else 0 \<le> e \<and> nat e < length clns \<and> clns ! nat e ! 0 = 2 * int i + 2)"
proof -
  have ne: "\<forall>c\<in>set clns. c \<noteq> []" using ok by (auto simp: sections_ok_def)
  note fs = sections_firsts(1)[OF ok] and len = sections_firsts(2)[OF ok]
  have "2 * int i \<in> (\<lambda>i. 2 * int i) ` {..<n}" using c i fs by (metis image_eqI)
  then have "i < n" by auto
  have g: "slice_get c 0 = Some (2 * int i)" using c ne i by (auto simp: slice_get_def)
  define pred succ where "pred = (if 2 * int i - 2 < 0 then -1 else 2 * int i - 2)"
    and "succ = (if int (length clns) - 1 < go_div (2 * int i + 2) 2 then -1 else 2 * int i + 2)"
  obtain w where w: "find_last clns 0 pred (-1) = Some w"
    "if pred \<in> (\<lambda>c. c ! 0) ` set clns then 0 \<le> w \<and> nat (w - 0) < length clns \<and> clns ! nat (w - 0) ! 0 = pred else w = -1"
    using find_last_spec[OF ne] by blast
  obtain e where e: "find_last clns 0 succ (-1) = Some e"
    "if succ \<in> (\<lambda>c. c ! 0) ` set clns then 0 \<le> e \<and> nat (e - 0) < length clns \<and> clns ! nat (e - 0) ! 0 = succ else e = -1"
    using find_last_spec[OF ne] by blast
  have p: "if i = 0 then pred \<notin> (\<lambda>i. 2 * int i) ` {..<n} else pred \<in> (\<lambda>i. 2 * int i) ` {..<n} \<and> pred = 2 * int i - 2"
    using \<open>i < n\<close> by (auto simp: pred_def intro!: image_eqI[of _ _ "i - 1"])
  have "go_div (2 * int i + 2) 2 = int i + 1" by simp
  then have s: "if i + 1 = n then succ \<notin> (\<lambda>i. 2 * int i) ` {..<n}
      else succ \<in> (\<lambda>i. 2 * int i) ` {..<n} \<and> succ = 2 * int i + 2"
    using \<open>i < n\<close> len unfolding succ_def by (auto intro!: image_eqI[of _ _ "i + 1"])
  have "findYourNeighbor clns c = Some (w, e)"
    using g w(1) e(1) by (simp add: findYourNeighbor_def pred_def succ_def Let_def)
  then show ?thesis using w(2) e(2) p s unfolding fs by (auto split: if_splits)
qed

text \<open>The list of sections of an outline whose segments are horizontal and vertical in turn has every
  horizontal segment exactly once, the concave ones included, whatever their sort keys, and nothing
  panics; each section consists of its two indexes and seven lengths. For each section
  findYourNeighbor finds the section of the next horizontal segment to the west and to the east, and
  -1 at the two ends of the outline.\<close>

theorem clns_complete:
  assumes "alternate True l"
  shows "\<exists>r. clns_of l = Some r \<and>
    mset (map (\<lambda>c. (c ! 0, c ! 1)) r) = mset (map (\<lambda>i. (int i, int i + 1)) (filter even [0..<length l - 1])) \<and>
    (\<forall>c\<in>set r. length c = 9) \<and>
    (\<forall>c\<in>set r. \<exists>w e. findYourNeighbor r c = Some (w, e) \<and>
       (if c ! 0 = 0 then w = -1 else 0 \<le> w \<and> nat w < length r \<and> r ! nat w ! 0 = c ! 0 - 2) \<and>
       (if c ! 0 + 2 = 2 * int (length l div 2) then e = -1
        else 0 \<le> e \<and> nat e < length r \<and> r ! nat e ! 0 = c ! 0 + 2))"
proof -
  obtain r where r: "clns_of l = Some r" "mset (map (\<lambda>c. (c ! 0, c ! 1)) r) = mset (horizontals l)"
    "\<forall>c\<in>set r. length c = 9" using clns_of_spec[OF assms] by blast
  note ok = clns_sections_ok[OF r(2,3)]
  have "\<exists>w e. findYourNeighbor r c = Some (w, e) \<and>
       (if c ! 0 = 0 then w = -1 else 0 \<le> w \<and> nat w < length r \<and> r ! nat w ! 0 = c ! 0 - 2) \<and>
       (if c ! 0 + 2 = 2 * int (length l div 2) then e = -1
        else 0 \<le> e \<and> nat e < length r \<and> r ! nat e ! 0 = c ! 0 + 2)" if cr: "c \<in> set r" for c
  proof -
    have "c ! 0 \<in> (\<lambda>i. 2 * int i) ` {..<length l div 2}"
      using sections_firsts(1)[OF ok] cr by (metis image_eqI)
    then obtain i where i: "c ! 0 = 2 * int i" by auto
    then have "c ! 0 = 0 \<longleftrightarrow> i = 0" "c ! 0 + 2 = 2 * int (length l div 2) \<longleftrightarrow> i + 1 = length l div 2" by auto
    with findYourNeighbor_spec[OF ok cr i] i show ?thesis by (simp only:)
  qed
  with r show ?thesis unfolding horizontals_def by blast
qed

theorem clns_complete_witness:
  "\<exists>r. clns_of [Point 0 1, Point 2 1, Point 2 3, Point 4 3, Point 4 0, Point 5 0] = Some r \<and>
     (\<forall>c\<in>set r. length c = 9)"
  using clns_complete[of "[Point 0 1, Point 2 1, Point 2 3, Point 4 3, Point 4 0, Point 5 0]"] by auto

end
