(* ===== verification/Fusion.thy ===== *)
theory Fusion
  imports Outline
begin

section \<open>Fusions of neighbouring sections (transposablematrix/32-fusion-type-and-enums.go, 33-fuse-sections.go)\<close>

text \<open>
  A fusion joins two neighbouring horizontal sections of an outline: the three lengths of the
  edge they form, what continues to the west and to the east, how far an amorph may grow beyond
  the edge (its permissiveness), and the point at which to stitch.

  \<^item> The slices of the Go struct are lists and are read through the checked \<open>slice_get\<close>; the
    field \<^verbatim>\<open>base\<close> is \<open>base_pt\<close>, the fields \<^verbatim>\<open>w\<close>, \<^verbatim>\<open>e\<close>, \<^verbatim>\<open>pm\<close> are \<open>west\<close>, \<open>east\<close>, \<open>permissive\<close>.
  \<^item> The error texts are left out; \<open>fusion_error\<close> says which of the four messages it is. Printing
    is left out.
  \<^item> \<open>Intslice2Int\<close> of the component util is the key that keeps \<open>FuseAllSections\<close> from
    fusing a pair of sections twice; it works on 64-bit words.
\<close>

subsection \<open>Data\<close>

datatype CurveDesc = cncave | stairW | stairE | convex

record fusion =
  idxL :: "int list"
  base_pt :: point
  xyx :: "int list"
  west :: "int list"
  east :: "int list"
  permissive :: "int list"
  curveDesc :: CurveDesc

definition NewFusion :: fusion where
  "NewFusion = \<lparr>idxL = [], base_pt = Point 0 0, xyx = [], west = [], east = [], permissive = [],
     curveDesc = cncave\<rparr>"

definition cFusionHeightDefault :: int where "cFusionHeightDefault = 3"

text \<open>Every read is guarded by a length test, so the list accesses are in range.\<close>

definition FillHeightFloor :: "fusion \<Rightarrow> int" where
  "FillHeightFloor f =
     (if length (xyx f) < 2 then cFusionHeightDefault
      else if 0 < xyx f ! 1
      then if length (west f) < 1 then cFusionHeightDefault else max (xyx f ! 1) (west f ! 0)
      else if length (east f) < 1 then cFusionHeightDefault else max (- (xyx f ! 1)) (east f ! 0))"

subsection \<open>Permissiveness\<close>

definition PermissivenessNorth :: "int \<Rightarrow> int \<Rightarrow> int \<Rightarrow> int \<Rightarrow> int" where
  "PermissivenessNorth sdgN y x1 y1 =
     (if y1 < 0 \<or> y1 = 0 then 99
      else let y1abs = (if y1 < 0 then - y1 else y1)
           in if sdgN \<le> x1 then 50
              else if x1 < sdgN \<and> y1abs \<le> sdgN then 2
              else sdgN)"

definition PermissivenessEastOrWest :: "int \<Rightarrow> int \<Rightarrow> int \<Rightarrow> int \<Rightarrow> int" where
  "PermissivenessEastOrWest sdgWE y x1 y1 =
     (if 0 < y then -10 else if y = 0 then 99
      else let yabs = (if y < 0 then - y else y)
           in if 0 < y1 then -11
              else if y < 0 \<and> yabs < sdgWE \<and> sdgWE \<le> x1 then sdgWE
              else 5)"

definition Permissiveness :: "int \<Rightarrow> int \<Rightarrow> int list \<Rightarrow> int list \<Rightarrow> int list \<Rightarrow> (int \<times> int \<times> int) option" where
  "Permissiveness sdgN sdgWE edge w e = do {
     yw \<leftarrow> slice_get w 0; xw2 \<leftarrow> slice_get w 1; yw2 \<leftarrow> slice_get w 2;
     ye \<leftarrow> slice_get e 0; xe2 \<leftarrow> slice_get e 1; ye2 \<leftarrow> slice_get e 2;
     let pW = PermissivenessEastOrWest sdgWE yw xw2 yw2;
     let pE = PermissivenessEastOrWest sdgWE ye xe2 ye2;
     let pNW = PermissivenessNorth sdgN yw xw2 yw2;
     y \<leftarrow> slice_get edge 1;
     let pNE = PermissivenessNorth sdgN ye xe2 ye2 + y;
     Some (pW, pE, if pNE < pNW then pNE else pNW) }"

subsection \<open>Fusing\<close>

datatype fusion_error = NoEast1 | NoWest1 | NoWest2 | NoEast2

text \<open>The western and the eastern one of the two sections that are fused.\<close>

definition fuse_pair :: "int \<Rightarrow> int list list \<Rightarrow> int list \<Rightarrow> (fusion_error + int list \<times> int list) option" where
  "fuse_pair l_len clns sct1 = do {
     (w, e) \<leftarrow> findYourNeighbor clns sct1;
     s1 \<leftarrow> slice_get sct1 1;
     if s1 = 0 then
       if e < 0 then Some (Inl NoEast1)
       else do { sct2 \<leftarrow> slice_get clns e; Some (Inr (sct1, sct2)) }
     else if s1 = l_len - 1 then
       if w < 0 then Some (Inl NoWest1)
       else do { sct0 \<leftarrow> slice_get clns w; Some (Inr (sct0, sct1)) }
     else do {
       s3 \<leftarrow> slice_get sct1 3;
       s6 \<leftarrow> slice_get sct1 6;
       if 0 < \<bar>s3\<bar> \<and> \<bar>s3\<bar> < \<bar>s6\<bar> then
         if w < 0 then Some (Inl NoWest2)
         else do { sct0 \<leftarrow> slice_get clns w; Some (Inr (sct0, sct1)) }
       else if e < 0 then Some (Inl NoEast2)
       else do { sct2 \<leftarrow> slice_get clns e; Some (Inr (sct1, sct2)) } } }"

definition curve_of :: "int \<Rightarrow> int \<Rightarrow> CurveDesc" where
  "curve_of pW pE =
     (if pW < 0 \<and> pE < 0 then cncave
      else if 0 < pW \<and> pE < 0 then stairW
      else if pW < 0 \<and> 0 < pE then stairE
      else if 0 < pW \<and> 0 < pE then convex
      else cncave)"

definition build_fusion :: "reservoir \<Rightarrow> point list \<Rightarrow> int list \<Rightarrow> int list \<Rightarrow> fusion option" where
  "build_fusion ar l sct1 sct2 = do {
     a0 \<leftarrow> slice_get sct1 0; a1 \<leftarrow> slice_get sct1 1; b0 \<leftarrow> slice_get sct2 0; b1 \<leftarrow> slice_get sct2 1;
     a2 \<leftarrow> slice_get sct1 2; a6 \<leftarrow> slice_get sct1 6; b2 \<leftarrow> slice_get sct2 2;
     a3 \<leftarrow> slice_get sct1 3; a4 \<leftarrow> slice_get sct1 4; a5 \<leftarrow> slice_get sct1 5;
     b6 \<leftarrow> slice_get sct2 6; b7 \<leftarrow> slice_get sct2 7; b8 \<leftarrow> slice_get sct2 8;
     (pW, pE, pN) \<leftarrow> Permissiveness (SmallestDesirableHeight ar) (SmallestDesirableWidth ar)
       [a2, a6, b2] [a3, a4, a5] [b6, b7, b8];
     p \<leftarrow> slice_get l a0;
     q \<leftarrow> slice_get l b1;
     Some \<lparr>idxL = [a0, a1, b0, b1],
       base_pt = Point (if 0 < a3 then px p + 1 else px p) (max (py p) (py q)),
       xyx = [a2, a6, b2], west = [a3, a4, a5], east = [b6, b7, b8],
       permissive = [pW, pE, pN], curveDesc = curve_of pW pE\<rparr> }"

definition FuseTwoSections :: "reservoir \<Rightarrow> point list \<Rightarrow> int list list \<Rightarrow> int list \<Rightarrow>
    (fusion_error + fusion) option" where
  "FuseTwoSections ar l clns sct1 = do {
     r \<leftarrow> fuse_pair (int (length l)) clns sct1;
     case r of
       Inl err \<Rightarrow> Some (Inl err)
     | Inr (sct1, sct2) \<Rightarrow> map_option Inr (build_fusion ar l sct1 sct2) }"

fun fuse_loop :: "reservoir \<Rightarrow> point list \<Rightarrow> int list list \<Rightarrow> int list list \<Rightarrow> 64 word set \<Rightarrow>
    (fusion_error + fusion list) option" where
  "fuse_loop ar l clns [] spent = Some (Inr [])"
| "fuse_loop ar l clns (sct # rest) spent = do {
     r \<leftarrow> FuseTwoSections ar l clns sct;
     case r of
       Inl err \<Rightarrow> Some (Inl err)
     | Inr f \<Rightarrow> do {
         key \<leftarrow> Intslice2Int (map word_of_int (idxL f));
         if key \<in> spent then fuse_loop ar l clns rest spent
         else do {
           r' \<leftarrow> fuse_loop ar l clns rest (insert key spent);
           Some (case r' of Inl err \<Rightarrow> Inl err | Inr fs \<Rightarrow> Inr (f # fs)) } } }"

definition FuseAllSections :: "reservoir \<Rightarrow> int list list \<Rightarrow> point list \<Rightarrow> (fusion_error + fusion list) option" where
  "FuseAllSections ar clns l = fuse_loop ar l clns clns {}"

subsection \<open>Every section is fused, no pair twice\<close>

lemma bind_SomeE: "Option.bind m f = Some b \<Longrightarrow> (\<And>a. m = Some a \<Longrightarrow> f a = Some b \<Longrightarrow> P) \<Longrightarrow> P"
  by (cases m) auto

lemma decorate_flanks:
  assumes "decorate l i j = Some d"
  shows "d ! 1 = (if 1 \<le> i then py (l ! nat i) - py (l ! nat (i - 1)) else 0)"
    "d ! 4 = (if j + 1 < int (length l) then py (l ! nat j) - py (l ! nat (j + 1)) else 0)"
proof -
  obtain p1 wp p2 ep where g: "slice_get l i = Some p1" "slice_get l j = Some p2"
    and w: "(if i - 1 \<ge> 0 then map_option (\<lambda>q. (q, py p1 - py q)) (slice_get l (i - 1))
       else Some (Point 0 0, 0)) = Some wp"
    and e: "(if j + 1 < int (length l)
       then map_option (\<lambda>q. (q, py p2 - py q)) (slice_get l (j + 1)) else Some (Point 0 0, 0)) = Some ep"
    and d: "d ! 1 = snd wp" "d ! 4 = snd ep"
    using assms unfolding decorate_def Let_def split_beta
    by (elim bind_SomeE) (simp only: option.inject, drule sym, simp)
  note D = slice_get_eq_SomeD
  show "d ! 1 = (if 1 \<le> i then py (l ! nat i) - py (l ! nat (i - 1)) else 0)"
    unfolding d using w D[OF g(1)] by (cases "1 \<le> i") (auto dest!: D)
  show "d ! 4 = (if j + 1 < int (length l) then py (l ! nat j) - py (l ! nat (j + 1)) else 0)"
    unfolding d using e D[OF g(2)] by (cases "j + 1 < int (length l)") (auto dest!: D)
qed

text \<open>A list of \<open>n\<close> sections as \<open>clns_of\<close> makes it for an outline.\<close>

definition clns_made :: "point list \<Rightarrow> int list list \<Rightarrow> nat \<Rightarrow> bool" where
  "clns_made l clns n \<longleftrightarrow> length l div 2 = n \<and> sections_ok clns n \<and>
     (\<forall>c\<in>set clns. \<exists>d. decorate l (c ! 0) (c ! 1) = Some d \<and> c = c ! 0 # c ! 1 # d)"

lemma clns_made:
  assumes "alternate True l" "clns_of l = Some clns"
  shows "clns_made l clns (length l div 2)"
  using clns_of_spec[OF assms(1)] clns_sections_ok assms(2) by (auto simp: clns_made_def)

lemma clns_made_length: "clns_made l clns n \<Longrightarrow> length l = (if even (length l) then 2 * n else 2 * n + 1)"
  by (auto simp: clns_made_def)

lemma section_facts:
  assumes "clns_made l clns n" "c \<in> set clns"
  shows "\<exists>i<n. length c = 9 \<and> c ! 0 = 2 * int i \<and> c ! 1 = 2 * int i + 1 \<and>
    c ! 3 = (if i = 0 then 0 else py (l ! (2 * i)) - py (l ! (2 * i - 1))) \<and>
    (2 * i + 2 < length l \<longrightarrow> c ! 6 = py (l ! (2 * i + 1)) - py (l ! (2 * i + 2)))"
proof -
  have ok: "sections_ok clns n" using assms(1) by (auto simp: clns_made_def)
  have "c ! 0 \<in> (\<lambda>i. 2 * int i) ` {..<n}" using sections_firsts(1)[OF ok] assms(2) by (metis image_eqI)
  then obtain i where i: "i < n" "c ! 0 = 2 * int i" by auto
  have c1: "length c = 9" "c ! 1 = 2 * int i + 1" using ok assms(2) i(2) by (auto simp: sections_ok_def)
  obtain d where d: "decorate l (c ! 0) (c ! 1) = Some d" "c = c ! 0 # c ! 1 # d"
    using assms by (auto simp: clns_made_def)
  have c36: "c ! 3 = d ! 1" "c ! 6 = d ! 4" by (subst d(2), simp)+
  have e: "c ! 1 + 1 < int (length l) \<longleftrightarrow> 2 * i + 2 < length l" "nat (c ! 1) = 2 * i + 1"
    "nat (c ! 1 + 1) = 2 * i + 2" using c1(2) by auto
  have w: "1 \<le> c ! 0 \<longleftrightarrow> i \<noteq> 0" "nat (c ! 0) = 2 * i" "nat (c ! 0 - 1) = 2 * i - 1" using i(2) by auto
  show ?thesis
    using i c1 c36 decorate_flanks[OF d(1), unfolded e w]
    by (intro exI[of _ i]) auto
qed

lemma slice_get_nth: "i < length xs \<Longrightarrow> k = int i \<Longrightarrow> slice_get xs k = Some (xs ! i)"
  by simp

text \<open>The section that has no eastern neighbour to be fused with, and is not fused westwards: it can
  only be the easternmost one of an outline of an odd number of points.\<close>

definition stuck :: "point list \<Rightarrow> nat \<Rightarrow> int list \<Rightarrow> bool" where
  "stuck l n c \<longleftrightarrow> odd (length l) \<and> c ! 0 + 2 = 2 * int n \<and> \<not> (0 < \<bar>c ! 3\<bar> \<and> \<bar>c ! 3\<bar> < \<bar>c ! 6\<bar>)"

lemma fuse_pair_spec:
  assumes made: "clns_made l clns n" and n: "2 \<le> n" and c: "c \<in> set clns" and fine: "\<not> stuck l n c"
  shows "\<exists>s1 s2 i. fuse_pair (int (length l)) clns c = Some (Inr (s1, s2)) \<and> s1 \<in> set clns \<and> s2 \<in> set clns \<and>
    i + 1 < n \<and> s1 ! 0 = 2 * int i \<and> s2 ! 0 = 2 * int i + 2 \<and> (c = s1 \<or> c = s2)"
proof -
  obtain i where i: "i < n" "length c = 9" "c ! 0 = 2 * int i" "c ! 1 = 2 * int i + 1" "i = 0 \<longrightarrow> c ! 3 = 0"
    using section_facts[OF made c] by auto
  have ok: "sections_ok clns n" using made by (auto simp: clns_made_def)
  note len = clns_made_length[OF made]
  obtain w e where we: "findYourNeighbor clns c = Some (w, e)"
    "if i = 0 then w = -1 else 0 \<le> w \<and> nat w < length clns \<and> clns ! nat w ! 0 = 2 * int i - 2"
    "if i + 1 = n then e = -1 else 0 \<le> e \<and> nat e < length clns \<and> clns ! nat e ! 0 = 2 * int i + 2"
    using findYourNeighbor_spec[OF ok c i(3)] by blast
  have g: "slice_get c 1 = Some (2 * int i + 1)" "slice_get c 3 = Some (c ! 3)" "slice_get c 6 = Some (c ! 6)"
    using i by (simp_all add: slice_get_def)
  have to_west: ?thesis if "fuse_pair (int (length l)) clns c = do { s \<leftarrow> slice_get clns w; Some (Inr (s, c)) }" "i \<noteq> 0"
    using that we(2) i c by (intro exI[of _ "clns ! nat w"] exI[of _ c] exI[of _ "i - 1"])
      (auto simp: slice_get_def of_nat_diff)
  have to_east: ?thesis if "fuse_pair (int (length l)) clns c = do { s \<leftarrow> slice_get clns e; Some (Inr (c, s)) }" "i + 1 \<noteq> n"
    using that we(3) i c by (intro exI[of _ c] exI[of _ "clns ! nat e"] exI[of _ i])
      (auto simp: slice_get_def)
  note fp = fuse_pair_def we(1) g
  consider (last_) "i + 1 = n" "even (length l)" | (west) "0 < \<bar>c ! 3\<bar> \<and> \<bar>c ! 3\<bar> < \<bar>c ! 6\<bar>" "i + 1 \<noteq> n \<or> odd (length l)"
    | (stay) "\<not> (0 < \<bar>c ! 3\<bar> \<and> \<bar>c ! 3\<bar> < \<bar>c ! 6\<bar>)" "i + 1 \<noteq> n"
  proof -
    have "c ! 0 + 2 = 2 * int n \<longleftrightarrow> i + 1 = n" using i(3) by auto
    with fine that show ?thesis unfolding stuck_def by argo
  qed
  then show ?thesis
  proof cases
    case last_
    with n we(2) len show ?thesis by (intro to_west) (auto simp: fp)
  next
    case west
    with i(5) have "i \<noteq> 0" by auto
    moreover have "2 * int i + 1 \<noteq> int (length l) - 1" using west(2) i(1) len by (auto split: if_splits)
    ultimately show ?thesis using west(1) we(2) by (intro to_west) (auto simp: fp)
  next
    case stay
    moreover have "2 * int i + 1 \<noteq> int (length l) - 1" using stay(2) i(1) len by (auto split: if_splits)
    ultimately show ?thesis using we(3) by (intro to_east) (auto simp: fp)
  qed
qed

lemma fuse_pair_stuck:
  assumes made: "clns_made l clns n" and c: "c \<in> set clns" and st: "stuck l n c"
  shows "fuse_pair (int (length l)) clns c = Some (Inl NoEast2)"
proof -
  obtain i where i: "i < n" "length c = 9" "c ! 0 = 2 * int i" "c ! 1 = 2 * int i + 1"
    using section_facts[OF made c] by auto
  have ok: "sections_ok clns n" using made by (auto simp: clns_made_def)
  have last: "i + 1 = n" "odd (length l)" using st i by (auto simp: stuck_def)
  obtain w where we: "findYourNeighbor clns c = Some (w, -1)"
    using findYourNeighbor_spec[OF ok c i(3)] last(1) by auto
  have g: "slice_get c 1 = Some (2 * int i + 1)" "slice_get c 3 = Some (c ! 3)" "slice_get c 6 = Some (c ! 6)"
    using i by (simp_all add: slice_get_def)
  have "2 * int i + 1 \<noteq> int (length l) - 1" using last clns_made_length[OF made] by auto
  then show ?thesis using st by (auto simp: fuse_pair_def we g stuck_def)
qed

text \<open>What is known of every fusion: two neighbouring sections, slices of the lengths that the
  heuristics read, and the middle length of the edge is the step between the sections.\<close>

definition fusion_ok :: "point list \<Rightarrow> nat \<Rightarrow> fusion \<Rightarrow> bool" where
  "fusion_ok l i f \<longleftrightarrow> 2 * i + 3 < length l \<and>
     idxL f = [2 * int i, 2 * int i + 1, 2 * int i + 2, 2 * int i + 3] \<and>
     length (xyx f) = 3 \<and> length (west f) = 3 \<and> length (east f) = 3 \<and> length (permissive f) = 3 \<and>
     xyx f ! 1 = py (l ! (2 * i + 1)) - py (l ! (2 * i + 2)) \<and>
     py (base_pt f) = max (py (l ! (2 * i))) (py (l ! (2 * i + 3))) \<and>
     curveDesc f = curve_of (permissive f ! 0) (permissive f ! 1)"

lemma FuseTwoSections_spec:
  assumes made: "clns_made l clns n" and n: "2 \<le> n" and c: "c \<in> set clns" and fine: "\<not> stuck l n c"
  shows "\<exists>f i. FuseTwoSections ar l clns c = Some (Inr f) \<and> fusion_ok l i f \<and> c ! 0 \<in> set (idxL f)"
proof -
  obtain s1 s2 i where p: "fuse_pair (int (length l)) clns c = Some (Inr (s1, s2))" "s1 \<in> set clns" "s2 \<in> set clns"
    "i + 1 < n" "s1 ! 0 = 2 * int i" "s2 ! 0 = 2 * int i + 2" "c = s1 \<or> c = s2"
    using fuse_pair_spec[OF assms] by blast
  have len: "2 * n \<le> length l" "2 * i + 2 < length l" using made p(4) by (auto simp: clns_made_def)
  obtain f1: "length s1 = 9" "s1 ! 1 = 2 * int i + 1" "s1 ! 6 = py (l ! (2 * i + 1)) - py (l ! (2 * i + 2))"
    using section_facts[OF made p(2)] p(4,5) len by auto
  obtain f2: "length s2 = 9" "s2 ! 1 = 2 * int i + 3"
    using section_facts[OF made p(3)] p(6) by auto
  have g: "slice_get s k = Some (s ! nat k)" if "length s = 9" "0 \<le> k" "k < 9" for s :: "int list" and k
    using that by (simp add: slice_get_def)
  have gl: "slice_get l (2 * int i) = Some (l ! (2 * i))" "slice_get l (2 * int i + 3) = Some (l ! (2 * i + 3))"
    using p(4) len by (auto intro!: slice_get_nth)
  obtain f where f: "build_fusion ar l s1 s2 = Some f" "fusion_ok l i f"
    using f1 f2 p(4-6) len gl
    by (auto simp: build_fusion_def g Permissiveness_def fusion_ok_def Let_def slice_get_def[of "[_, _, _]"])
  then have "FuseTwoSections ar l clns c = Some (Inr f)" using p(1) by (simp add: FuseTwoSections_def)
  moreover have "c ! 0 \<in> set (idxL f)" using f(2) p(5-7) by (auto simp: fusion_ok_def)
  ultimately show ?thesis using f(2) by blast
qed
text \<open>The key of a fusion: its four indexes are consecutive, so that the key is a linear function of
  the first one.\<close>

definition fusion_key :: "nat \<Rightarrow> 64 word" where
  "fusion_key i = word_of_nat (1010101 * (2 * i) + 3020100)"

lemma fusion_key: "length l < 2 ^ 40 \<Longrightarrow> fusion_ok l i f \<Longrightarrow>
    Intslice2Int (map word_of_int (idxL f)) = Some (fusion_key i)"
proof -
  assume len: "length l < 2 ^ 40" and ok: "fusion_ok l i f"
  let ?w = "word_of_int (2 * int i) :: 64 word"
  have ix: "map word_of_int (idxL f) = [?w, ?w + 1, ?w + 2, ?w + 3]"
    using ok by (simp add: fusion_ok_def)
  have i: "int i < 2 ^ 40" using len ok by (simp add: fusion_ok_def)
  have s: "sint (word_of_int k :: 64 word) = k" if "0 \<le> k" "k < 2 ^ 42" for k
    using that by (simp add: signed_of_int signed_take_bit_int_eq_self)
  have "sint (?w + 1) = 2 * int i + 1" "sint (?w + 2) = 2 * int i + 2" "sint (?w + 3) = 2 * int i + 3" "sint ?w = 2 * int i"
    using i s[of "2 * int i + 1"] s[of "2 * int i + 2"] s[of "2 * int i + 3"] s[of "2 * int i"] by simp_all
  then have "sort_key sint [?w, ?w + 1, ?w + 2, ?w + 3] = [?w, ?w + 1, ?w + 2, ?w + 3]" by simp
  then show ?thesis unfolding ix by (simp add: Intslice2Int_def fusion_key_def algebra_simps)
qed

lemma fusion_key_inj: "fusion_key i = fusion_key j \<Longrightarrow> i < 2 ^ 40 \<Longrightarrow> j < 2 ^ 40 \<Longrightarrow> i = j"
proof -
  assume eq: "fusion_key i = fusion_key j" and ij: "i < 2 ^ 40" "j < 2 ^ 40"
  have "unat (fusion_key k) = 1010101 * (2 * k) + 3020100" if "k < 2 ^ 40" for k
    unfolding fusion_key_def unat_of_nat using that by (simp del: of_nat_add of_nat_mult)
  with eq ij show "i = j" by (metis add_right_cancel mult_cancel1 zero_neq_numeral)
qed

lemma fuse_loop_spec:
  assumes made: "clns_made l clns n" and n: "2 \<le> n" and len: "length l < 2 ^ 40"
  shows "set rest \<subseteq> set clns \<Longrightarrow> \<forall>c\<in>set rest. \<not> stuck l n c \<Longrightarrow> \<exists>fs is. fuse_loop ar l clns rest spent = Some (Inr fs) \<and>
    list_all2 (fusion_ok l) is fs \<and> distinct is \<and> (\<forall>i\<in>set is. fusion_key i \<notin> spent) \<and>
    (\<forall>c\<in>set rest. \<exists>i. c ! 0 \<in> {2 * int i, 2 * int i + 2} \<and> (fusion_key i \<in> spent \<or> i \<in> set is))"
proof (induction rest arbitrary: spent)
  case (Cons c rest)
  obtain f i where f: "FuseTwoSections ar l clns c = Some (Inr f)" "fusion_ok l i f" "c ! 0 \<in> set (idxL f)"
    using FuseTwoSections_spec[OF made n, of c ar] Cons.prems by auto
  have key: "Intslice2Int (map word_of_int (idxL f)) = Some (fusion_key i)" by (rule fusion_key[OF len f(2)])
  have "sections_ok clns n" using made by (simp add: clns_made_def)
  obtain k where "c ! 0 = 2 * int k" using section_facts[OF made, of c] Cons.prems by auto
  moreover have "c ! 0 \<in> set [2 * int i, 2 * int i + 1, 2 * int i + 2, 2 * int i + 3]"
    using f(2,3) by (simp only: fusion_ok_def)
  ultimately have ci: "c ! 0 \<in> {2 * int i, 2 * int i + 2}"
    by simp (elim disjE; presburger)
  show ?case
  proof (cases "fusion_key i \<in> spent")
    case True
    obtain fs "is" where "fuse_loop ar l clns rest spent = Some (Inr fs)" "list_all2 (fusion_ok l) is fs" "distinct is"
      "\<forall>i\<in>set is. fusion_key i \<notin> spent"
      "\<forall>c\<in>set rest. \<exists>i. c ! 0 \<in> {2 * int i, 2 * int i + 2} \<and> (fusion_key i \<in> spent \<or> i \<in> set is)"
      using Cons.IH[of spent] Cons.prems by auto
    with f(1) key True ci show ?thesis
      by (intro exI[of _ fs] exI[of _ "is"]) (simp, metis)
  next
    case False
    obtain fs "is" where r: "fuse_loop ar l clns rest (insert (fusion_key i) spent) = Some (Inr fs)"
      "list_all2 (fusion_ok l) is fs" "distinct is" "\<forall>j\<in>set is. fusion_key j \<notin> insert (fusion_key i) spent"
      "\<forall>c\<in>set rest. \<exists>j. c ! 0 \<in> {2 * int j, 2 * int j + 2} \<and>
        (fusion_key j \<in> insert (fusion_key i) spent \<or> j \<in> set is)"
      using Cons.IH[of "insert (fusion_key i) spent"] Cons.prems by auto
    have cov: "\<exists>j. d ! 0 \<in> {2 * int j, 2 * int j + 2} \<and> (fusion_key j \<in> spent \<or> j \<in> set (i # is))"
      if d: "d \<in> set (c # rest)" for d
    proof (cases "d = c")
      case False
      then obtain j where j: "d ! 0 \<in> {2 * int j, 2 * int j + 2}"
        "fusion_key j \<in> insert (fusion_key i) spent \<or> j \<in> set is" using d r(5) by auto
      obtain k where k: "k < n" "d ! 0 = 2 * int k"
        using section_facts[OF made, of d] d Cons.prems by auto
      have "j < 2 ^ 40 \<and> i < 2 ^ 40"
        using k j(1) f(2) len made by (auto simp: fusion_ok_def clns_made_def)
      then have "fusion_key j = fusion_key i \<Longrightarrow> j = i" using fusion_key_inj by blast
      with j show ?thesis by auto
    qed (use ci in auto)
    show ?thesis
      using f(1,2) key False r(1-4) cov
      by (intro exI[of _ "f # fs"] exI[of _ "i # is"]) (simp del: insert_iff, auto)
  qed
qed auto

text \<open>A single section has no neighbour.\<close>

lemma fuse_one_section:
  assumes "clns_made l clns 1" "length l = 2"
  shows "FuseAllSections ar clns l = Some (Inl NoWest1)"
proof -
  have ok: "sections_ok clns 1" using assms(1) by (auto simp: clns_made_def)
  have "clns \<noteq> []" using sections_firsts(1)[OF ok] by auto
  then obtain c rest where cl: "clns = c # rest" by (cases clns) auto
  then have c: "c \<in> set clns" by simp
  obtain i where i: "i < 1" "length c = 9" "c ! 0 = 2 * int i" "c ! 1 = 2 * int i + 1"
    using section_facts[OF assms(1) c] by blast
  then have c0: "c ! 0 = 2 * int 0" by simp
  obtain w e where we: "findYourNeighbor clns c = Some (w, e)" "w = -1"
    using findYourNeighbor_spec[OF ok c c0] by auto
  have "slice_get c 1 = Some 1" using i by (simp add: slice_get_def)
  then have "fuse_pair (int (length l)) clns c = Some (Inl NoWest1)" using we assms(2) by (simp add: fuse_pair_def)
  then show ?thesis by (simp add: FuseAllSections_def FuseTwoSections_def cl)
qed

text \<open>C28: For an outline of an even number of points (fewer than 2^40: the key of a pair is a 64-bit number) whose segments are
  horizontal and vertical in turn, FuseAllSections does not panic. With two points, a single section, it fails with the first of its errors about a
  missing western neighbour. With four or more it does not fail: every fusion joins two neighbouring
  sections: its four indexes are consecutive and inside the outline, its slices xyx, w, e and pm have
  the three entries that the heuristics read, the middle length is the step between the two sections
  and the base point lies on the lower one; no pair is fused twice, and every section is part of some
  fusion.\<close>

theorem fuse_sections:
  assumes "alternate True l" "even (length l)" "l \<noteq> []" "length l < 2 ^ 40" "clns_of l = Some clns"
  shows "if length l = 2 then FuseAllSections ar clns l = Some (Inl NoWest1)
    else \<exists>fs. FuseAllSections ar clns l = Some (Inr fs) \<and> distinct (map idxL fs) \<and>
      (\<forall>f\<in>set fs. \<exists>i. fusion_ok l i f) \<and> (\<forall>c\<in>set clns. \<exists>f\<in>set fs. c ! 0 \<in> set (idxL f))"
proof (cases "length l = 2")
  case True
  then show ?thesis using fuse_one_section[of l clns ar] clns_made[OF assms(1,5)] by simp
next
  case False
  have len: "4 \<le> length l"
  proof -
    obtain k where "length l = 2 * k" using assms(2) by blast
    moreover have "0 < length l" using assms(3) by simp
    ultimately show ?thesis using False by (cases "k = 0 \<or> k = 1") auto
  qed
  note made = clns_made[OF assms(1,5)]
  have fine: "\<forall>c\<in>set clns. \<not> stuck l (length l div 2) c" using assms(2) by (simp add: stuck_def)
  have "2 \<le> length l div 2" using len by simp
  from fuse_loop_spec[OF made this assms(4) subset_refl fine, of ar "{}"] obtain fs "is" where
    r: "fuse_loop ar l clns clns {} = Some (Inr fs)" "list_all2 (fusion_ok l) is fs" "distinct is"
      "\<forall>c\<in>set clns. \<exists>i. c ! 0 \<in> {2 * int i, 2 * int i + 2} \<and> i \<in> set is" by auto
  have ix: "map idxL fs = map (\<lambda>i. [2 * int i, 2 * int i + 1, 2 * int i + 2, 2 * int i + 3]) is"
    using r(2) by induction (simp_all add: fusion_ok_def)
  have "distinct (map idxL fs)" unfolding ix using r(3) by (simp add: distinct_map inj_on_def)
  moreover have "\<forall>f\<in>set fs. \<exists>i. fusion_ok l i f" using r(2) by (fastforce simp: list_all2_conv_all_nth in_set_conv_nth)
  moreover have "\<exists>f\<in>set fs. c ! 0 \<in> set (idxL f)" if cr: "c \<in> set clns" for c
  proof -
    obtain i where i: "c ! 0 \<in> {2 * int i, 2 * int i + 2}" "i \<in> set is" using r(4) cr by blast
    then obtain f where "f \<in> set fs" "fusion_ok l i f"
      using r(2) by (metis list_all2_conv_all_nth in_set_conv_nth)
    with i(1) show ?thesis by (intro bexI[of _ f]) (auto simp: fusion_ok_def)
  qed
  ultimately show ?thesis using r(1) False by (auto simp: FuseAllSections_def)
qed

lemma fuse_sections_witness:
  "\<exists>fs. FuseAllSections NewReservoir
       (the (clns_of [Point 0 1, Point 2 1, Point 2 3, Point 4 3, Point 4 0, Point 5 0]))
       [Point 0 1, Point 2 1, Point 2 3, Point 4 3, Point 4 0, Point 5 0] = Some (Inr fs) \<and> distinct (map idxL fs)"
proof -
  let ?l = "[Point 0 1, Point 2 1, Point 2 3, Point 4 3, Point 4 0, Point 5 0]"
  obtain clns where c: "clns_of ?l = Some clns" using clns_of_spec[of ?l] by auto
  have "\<exists>fs. FuseAllSections NewReservoir clns ?l = Some (Inr fs) \<and> distinct (map idxL fs)"
    using fuse_sections[of ?l clns NewReservoir] c by auto
  then show ?thesis by (simp only: c option.sel)
qed

text \<open>An outline of an odd number of points, as the eastern margin makes it when the easternmost
  filled column is one slot wide and higher than the one to its west, has a section without an
  eastern neighbour: the fusing fails.\<close>


lemma odd_outline_fails:
  "(let l = [Point (- 8) (- 5), Point (- 2) (- 5), Point (- 2) 1, Point 0 1, Point 1 0, Point 1 (- 6), Point 7 (- 6)]
    in Option.bind (clns_of l) (\<lambda>clns. FuseAllSections NewReservoir clns l)) = Some (Inl NoEast2)"
  by code_simp

text \<open>The easternmost section of an outline, and when it is stuck.\<close>

lemma stuck_last:
  assumes made: "clns_made l clns n" and n: "2 \<le> n"
  shows "(\<exists>c\<in>set clns. stuck l n c) \<longleftrightarrow> odd (length l) \<and>
    (let west = py (l ! (2 * n - 2)) - py (l ! (2 * n - 3)); east = py (l ! (2 * n - 1)) - py (l ! (2 * n))
     in \<not> (0 < \<bar>west\<bar> \<and> \<bar>west\<bar> < \<bar>east\<bar>))"
proof (cases "odd (length l)")
  case True
  then have len: "length l = 2 * n + 1" using clns_made_length[OF made] by simp
  have flanks: "c ! 3 = py (l ! (2 * n - 2)) - py (l ! (2 * n - 3)) \<and> c ! 6 = py (l ! (2 * n - 1)) - py (l ! (2 * n))"
    if c: "c \<in> set clns" "c ! 0 + 2 = 2 * int n" for c
  proof -
    obtain i where i: "c ! 0 = 2 * int i" "c ! 3 = (if i = 0 then 0 else py (l ! (2 * i)) - py (l ! (2 * i - 1)))"
      "2 * i + 2 < length l \<longrightarrow> c ! 6 = py (l ! (2 * i + 1)) - py (l ! (2 * i + 2))"
      using section_facts[OF made c(1)] by blast
    have "2 * i + 2 = 2 * n" using i(1) c(2) by linarith
    then have ix: "2 * n - 2 = 2 * i" "2 * n - 3 = 2 * i - 1" "2 * n - 1 = 2 * i + 1" "2 * n = 2 * i + 2" "i \<noteq> 0"
      using n by auto
    show ?thesis using i(2,3) len ix(5) unfolding ix(1-4) by simp
  qed
  have "sections_ok clns n" using made by (simp add: clns_made_def)
  from sections_firsts(1)[OF this] have "2 * int (n - 1) \<in> (\<lambda>c. c ! 0) ` set clns"
    using n by (auto intro!: image_eqI[of _ _ "n - 1"] simp: of_nat_diff)
  then obtain c where "c \<in> set clns" "c ! 0 + 2 = 2 * int n" using n by (auto simp: of_nat_diff)
  with flanks True show ?thesis unfolding stuck_def Let_def by metis
qed (simp add: stuck_def)

lemma fuse_loop_stuck:
  assumes made: "clns_made l clns n" and n: "2 \<le> n" and len: "length l < 2 ^ 40"
  shows "set rest \<subseteq> set clns \<Longrightarrow> \<exists>c\<in>set rest. stuck l n c \<Longrightarrow> fuse_loop ar l clns rest spent = Some (Inl NoEast2)"
proof (induction rest arbitrary: spent)
  case (Cons c rest)
  show ?case
  proof (cases "stuck l n c")
    case True
    then show ?thesis using fuse_pair_stuck[OF made, of c] Cons.prems(1) by (simp add: FuseTwoSections_def)
  next
    case False
    obtain f i where f: "FuseTwoSections ar l clns c = Some (Inr f)" "fusion_ok l i f"
      using FuseTwoSections_spec[OF made n _ False, of ar] Cons.prems by auto
    have "fuse_loop ar l clns rest sp = Some (Inl NoEast2)" for sp
      using Cons.IH Cons.prems False by auto
    then show ?thesis using f(1) fusion_key[OF len f(2)] by simp
  qed
qed simp

text \<open>When the fusing fails. For an outline of at least four points whose segments are horizontal and
  vertical in turn, FuseAllSections never panics; it fails exactly for an outline of an odd number of
  points whose easternmost section has no western step or one at least as high as its eastern step, and
  then with the second of its errors about a missing eastern neighbour.\<close>

theorem fuse_error:
  assumes "alternate True l" "4 \<le> length l" "length l < 2 ^ 40" "clns_of l = Some clns" "n = length l div 2"
  shows "if odd (length l) \<and>
      (let west = py (l ! (2 * n - 2)) - py (l ! (2 * n - 3)); east = py (l ! (2 * n - 1)) - py (l ! (2 * n))
       in \<not> (0 < \<bar>west\<bar> \<and> \<bar>west\<bar> < \<bar>east\<bar>))
    then FuseAllSections ar clns l = Some (Inl NoEast2)
    else \<exists>fs. FuseAllSections ar clns l = Some (Inr fs)"
proof -
  have made: "clns_made l clns n" and n: "2 \<le> n" using clns_made[OF assms(1,4)] assms(2,5) by auto
  show ?thesis
  proof (cases "\<exists>c\<in>set clns. stuck l n c")
    case True
    with fuse_loop_stuck[OF made n assms(3) subset_refl True] stuck_last[OF made n]
    show ?thesis by (simp add: FuseAllSections_def)
  next
    case False
    then have "\<forall>c\<in>set clns. \<not> stuck l n c" by blast
    from fuse_loop_spec[OF made n assms(3) subset_refl this, of ar "{}"] False stuck_last[OF made n]
    show ?thesis by (auto simp: FuseAllSections_def)
  qed
qed

lemma fuse_error_witness:
  "FuseAllSections NewReservoir (the (clns_of [Point 0 1, Point 2 1, Point 2 3, Point 4 3, Point 4 2]))
     [Point 0 1, Point 2 1, Point 2 3, Point 4 3, Point 4 2] = Some (Inl NoEast2)"
proof -
  let ?l = "[Point 0 1, Point 2 1, Point 2 3, Point 4 3, Point 4 2]"
  obtain clns where c: "clns_of ?l = Some clns" using clns_of_spec[of ?l] by auto
  have "FuseAllSections NewReservoir clns ?l = Some (Inl NoEast2)"
    using fuse_error[OF _ _ _ c refl, of NewReservoir] by simp
  then show ?thesis by (simp only: c option.sel)
qed

end
