(* ===== verification/Heuristics.thy ===== *)
theory Heuristics
  imports Fusion
begin

section \<open>Choosing an amorph for a fusion (transposablematrix/43-fnd-enums.go to 50-matching-fusions-amorphs.go)\<close>

text \<open>
  Five heuristics, from the perfect fit of an edge with a step down to padding an amorph of about
  the right size, look for an amorph in the reservoir that fits a fusion; the first success is
  painted onto the matrix and taken out of the reservoir.

  \<^item> The order in which \<^verbatim>\<open>range\<close> visits an inner map of the reservoir is not specified by Go:
    it is the parameter \<open>rng\<close>, and the theorems hold for every enumeration (\<open>ranging\<close>).
  \<^item> \<open>ActiveFilter\<close> is a variable that other packages may set to any \<open>Filterer\<close>: it is the
    parameter \<open>flt\<close> of the finders. The contract of that interface is the locale \<open>filterer\<close>; both
    filters of the package are interpretations.
  \<^item> A pointer to an amorph of a local slice is the amorph itself; \<open>ByNumElementsWrap\<close> writes through
    a pointer into the reservoir, so that every heuristic returns the reservoir as well.
  \<^item> Printing, and the swapping of the print function, is left out.
\<close>

subsection \<open>Enumerations and thresholds\<close>

datatype GrowShrink = shrink | grow | growShrink

fun offset_sign :: "GrowShrink \<Rightarrow> int" where
  "offset_sign shrink = -1"
| "offset_sign grow = 1"
| "offset_sign growShrink = 2"

fun GrowShrink_String :: "GrowShrink \<Rightarrow> string" where
  "GrowShrink_String grow = ''grow  ''"
| "GrowShrink_String shrink = ''shrink''"
| "GrowShrink_String growShrink = ''grwShr''"

datatype VariDirection = westw | eastw | northw

fun VariDirection_String :: "VariDirection \<Rightarrow> string" where
  "VariDirection_String westw = ''westwd''"
| "VariDirection_String eastw = ''eastwd''"
| "VariDirection_String northw = ''northwd''"

definition SwitchHoriz :: "VariDirection \<Rightarrow> VariDirection" where
  "SwitchHoriz dir = (if dir = westw then eastw else westw)"

definition wideGapMin :: int where "wideGapMin = 2"
definition wideGapCap :: int where "wideGapCap = 3"
definition widestStatStair :: int where "widestStatStair = 5"
definition widestDynStair :: int where "widestDynStair = 4"
definition narrowestStair :: int where "narrowestStair = 1"
definition minPossibleHeight :: int where "minPossibleHeight = 1"
definition cMaxDiff :: int where "cMaxDiff = 20"
definition cMaxHeight :: int where "cMaxHeight = 8"

subsection \<open>Filters\<close>

definition longest :: "amorph list list \<Rightarrow> nat" where
  "longest blocks = foldl (\<lambda>mx b. max mx (length b)) 0 blocks"

definition MostAbundant_Filter :: "amorph list list \<Rightarrow> fusion \<Rightarrow> amorph option option" where
  "MostAbundant_Filter blocks fs =
     Some (case filter (\<lambda>b. length b = longest blocks \<and> 0 < length b) blocks of
             [] \<Rightarrow> None
           | b # _ \<Rightarrow> Some (hd b))"

text \<open>The inner loop body of the other filter; \<open>closest\<close> has a batch for each distance from -2 to 2.\<close>

definition prox_step :: "int \<Rightarrow> int \<Rightarrow> amorph \<Rightarrow> amorph option \<times> amorph list list \<Rightarrow>
    (amorph option \<times> amorph list list) option" where
  "prox_step heightLim heightOpt lp = (\<lambda>(chosen, closest).
     if heightLim < Rows lp then Some (chosen, closest)
     else let ch = (case chosen of None \<Rightarrow> lp | Some c \<Rightarrow> c);
              lastDist = Rows ch - heightOpt;
              lpDist = Rows lp - heightOpt;
              ch = (if \<bar>lpDist\<bar> < \<bar>lastDist\<bar> then lp else ch)
          in if \<bar>lpDist\<bar> \<le> 2
             then do {
               b \<leftarrow> slice_get closest (lpDist + 2);
               closest \<leftarrow> slice_set closest (lpDist + 2) (b @ [lp]);
               Some (Some ch, closest) }
             else Some (Some ch, closest))"

fun prox_loop :: "int \<Rightarrow> int \<Rightarrow> amorph list \<Rightarrow> amorph option \<times> amorph list list \<Rightarrow>
    (amorph option \<times> amorph list list) option" where
  "prox_loop heightLim heightOpt [] s = Some s"
| "prox_loop heightLim heightOpt (lp # lps) s = do {
     s' \<leftarrow> prox_step heightLim heightOpt lp s;
     prox_loop heightLim heightOpt lps s' }"

definition abundant :: "amorph list list \<Rightarrow> amorph option \<Rightarrow> amorph option option" where
  "abundant closest chosen =
     (let maxBatch = longest closest in
      if 0 < maxBatch then do {
        c2 \<leftarrow> slice_get closest 2;
        if length c2 = maxBatch then map_option Some (slice_get c2 0) else do {
        c1 \<leftarrow> slice_get closest 1;
        if length c1 = maxBatch then map_option Some (slice_get c1 0) else do {
        c3 \<leftarrow> slice_get closest 3;
        if length c3 = maxBatch then map_option Some (slice_get c3 0) else do {
        c0 \<leftarrow> slice_get closest 0;
        if length c0 = maxBatch then map_option Some (slice_get c0 0) else do {
        c4 \<leftarrow> slice_get closest 4;
        if length c4 = maxBatch then map_option Some (slice_get c4 0) else Some chosen }}}}}
      else Some chosen)"

text \<open>The blocks are scanned one after the other, which is a scan of their concatenation.\<close>

definition MostAbundantInProximity_Filter :: "amorph list list \<Rightarrow> fusion \<Rightarrow> amorph option option" where
  "MostAbundantInProximity_Filter blocks fs = do {
     heightLim \<leftarrow> slice_get (permissive fs) 2;
     (chosen, closest) \<leftarrow> prox_loop heightLim (FillHeightFloor fs) (concat blocks) (None, replicate 5 []);
     abundant closest chosen }"

definition ActiveFilter :: "amorph list list \<Rightarrow> fusion \<Rightarrow> amorph option option" where
  "ActiveFilter = MostAbundantInProximity_Filter"

type_synonym filterer_fun = "amorph list list \<Rightarrow> fusion \<Rightarrow> amorph option option"
type_synonym visit = "int set \<Rightarrow> int list"

subsection \<open>Finders\<close>

fun straight_batch :: "reservoir \<Rightarrow> int \<Rightarrow> int list \<Rightarrow> amorph list option" where
  "straight_batch ar x1 [] = Some []"
| "straight_batch ar x1 (k # ks) = do {
     lp \<leftarrow> slice_get (Amorphs ar) k;
     (rows, slack) \<leftarrow> OtherSide (NElements lp) x1;
     rest \<leftarrow> straight_batch ar x1 ks;
     Some (lp\<lparr>Cols := x1, Rows := rows, Slack := slack, Edge := []\<rparr> # rest) }"

fun straight_loop :: "visit \<Rightarrow> reservoir \<Rightarrow> int \<Rightarrow> int \<Rightarrow> int list \<Rightarrow> amorph list list option" where
  "straight_loop rng ar x1 minHeight [] = Some []"
| "straight_loop rng ar x1 minHeight (i # is') = do {
     b \<leftarrow> (case EdgesSlackless ar (Enc x1 (minHeight + i) 0) of
             None \<Rightarrow> Some []
           | Some mp \<Rightarrow> straight_batch ar x1 (rng mp));
     rest \<leftarrow> straight_loop rng ar x1 minHeight is';
     Some (b # rest) }"

definition exactStraightEdge :: "visit \<Rightarrow> filterer_fun \<Rightarrow> reservoir \<Rightarrow> fusion \<Rightarrow> int \<Rightarrow>
    (amorph list list \<times> amorph option) option" where
  "exactStraightEdge rng flt ar fs x1 = do {
     let minHeight = SmallestDesirableHeight ar - 1;
     fnd \<leftarrow> straight_loop rng ar x1 minHeight [0..cMaxHeight - 1];
     chosen \<leftarrow> flt fnd fs;
     Some (fnd, chosen) }"

text \<open>The blow-up loop with its counter: more than 100 rounds panic.\<close>

function blowup :: "int \<Rightarrow> int \<Rightarrow> nat \<Rightarrow> amorph \<Rightarrow> amorph option" where
  "blowup y x2 rounds lp =
     (if Rows lp \<le> \<bar>y\<bar> \<or> Slack lp < \<bar>x2 * y\<bar>
      then let lp' = lp\<lparr>Rows := Rows lp + 1, Slack := Cols lp * (Rows lp + 1) - NElements lp\<rparr>
           in if 100 < rounds + 1 then None else blowup y x2 (rounds + 1) lp'
      else Some lp)"
  by auto
termination by (relation "measure (\<lambda>(y, x2, rounds, lp). 101 - rounds)") auto

declare blowup.simps [simp del]

fun stairy_batch :: "reservoir \<Rightarrow> int \<Rightarrow> int \<Rightarrow> int \<Rightarrow> int \<Rightarrow> int list \<Rightarrow> amorph list \<Rightarrow> amorph list option" where
  "stairy_batch ar x1 y x2 limit [] amorphs = Some amorphs"
| "stairy_batch ar x1 y x2 limit (amIdx # rest) amorphs = do {
     lp \<leftarrow> slice_get (Amorphs ar) amIdx;
     (rows, slack) \<leftarrow> OtherSide (NElements lp) (x1 + x2);
     lp \<leftarrow> blowup y x2 0 (lp\<lparr>Cols := x1 + x2, Rows := rows, Slack := slack\<rparr>);
     let amorphs = amorphs @ [lp\<lparr>Edge := [x1, y, x2]\<rparr>];
     if limit \<le> int (length amorphs) then Some amorphs
     else stairy_batch ar x1 y x2 limit rest amorphs }"

definition exactStairyEdge :: "visit \<Rightarrow> reservoir \<Rightarrow> int \<Rightarrow> int \<Rightarrow> int \<Rightarrow> int \<Rightarrow> amorph list option" where
  "exactStairyEdge rng ar x1 y x2 limit =
     (case Edge3 ar (Enc x1 y x2) of
        None \<Rightarrow> Some []
      | Some mp \<Rightarrow> stairy_batch ar x1 y x2 limit (rng mp) [])"

text \<open>The index of the amorph found, as the code returns a pointer into the reservoir.\<close>

fun more_loop :: "visit \<Rightarrow> reservoir \<Rightarrow> int \<Rightarrow> int list \<Rightarrow> int option option" where
  "more_loop rng ar minElements [] = Some None"
| "more_loop rng ar minElements (i # is') =
     (case MElements ar (minElements + i) of
        None \<Rightarrow> more_loop rng ar minElements is'
      | Some mp \<Rightarrow> (case rng mp of
          [] \<Rightarrow> more_loop rng ar minElements is'
        | k # _ \<Rightarrow> map_option (\<lambda>_. Some k) (slice_get (Amorphs ar) k)))"

definition moreThanXElements :: "visit \<Rightarrow> reservoir \<Rightarrow> int \<Rightarrow> int option option" where
  "moreThanXElements rng ar minElements = more_loop rng ar minElements [0..cMaxDiff - 1]"

subsection \<open>Edges with variation\<close>

fun varied :: "VariDirection \<Rightarrow> int \<Rightarrow> int \<Rightarrow> int \<Rightarrow> int \<Rightarrow> int \<times> int \<times> int" where
  "varied westw off x1 y x2 = (x1 + off, y, x2)"
| "varied eastw off x1 y x2 = (x1, y, x2 + off)"
| "varied northw off x1 y x2 = (x1, y + off, x2)"

definition find_varied :: "visit \<Rightarrow> reservoir \<Rightarrow> VariDirection \<Rightarrow> int \<Rightarrow> int \<Rightarrow> int \<Rightarrow> int \<Rightarrow> int \<Rightarrow>
    amorph list option" where
  "find_varied rng ar flank off x1 y x2 limit =
     (case varied flank off x1 y x2 of (a, h, b) \<Rightarrow> exactStairyEdge rng ar a h b limit)"

fun vary_loop :: "visit \<Rightarrow> reservoir \<Rightarrow> int \<Rightarrow> int \<Rightarrow> int \<Rightarrow> VariDirection \<Rightarrow> GrowShrink \<Rightarrow> int \<Rightarrow>
    int list \<Rightarrow> int \<Rightarrow> amorph list list \<Rightarrow> (amorph list list \<times> bool) option" where
  "vary_loop rng ar x1 y x2 flank gs limit [] cntrAll blocks = Some (blocks, False)"
| "vary_loop rng ar x1 y x2 flank gs limit (i # is') cntrAll blocks = do {
     (more1, more2) \<leftarrow>
       (if gs = growShrink
        then do {
          m1 \<leftarrow> find_varied rng ar flank (i * offset_sign grow) x1 y x2 (limit - cntrAll);
          m2 \<leftarrow> find_varied rng ar flank (i * offset_sign shrink) x1 y x2 (limit - cntrAll);
          Some (m1, m2) }
        else map_option (\<lambda>m. (m, []))
          (find_varied rng ar flank (i * offset_sign gs) x1 y x2 (limit - cntrAll)));
     let blocks = (if 0 < length more1 then blocks @ [more1] else blocks);
     let blocks = (if 0 < length more2 then blocks @ [more2] else blocks);
     let cntrAll = cntrAll + int (length more1) + int (length more2);
     if limit \<le> cntrAll then Some (blocks, True)
     else vary_loop rng ar x1 y x2 flank gs limit is' cntrAll blocks }"

definition stairy_limit :: int where "stairy_limit = 1000 * 1000"

definition ByStairyEdge :: "visit \<Rightarrow> filterer_fun \<Rightarrow> reservoir \<Rightarrow> fusion \<Rightarrow> int \<Rightarrow> int \<Rightarrow> int \<Rightarrow> int \<Rightarrow>
    VariDirection \<Rightarrow> GrowShrink \<Rightarrow> (amorph list list \<times> amorph option) option" where
  "ByStairyEdge rng flt ar fs x1 y x2 variation flankToVary gs =
     (if variation < 0 then None
      else do {
        firstBatch \<leftarrow> exactStairyEdge rng ar x1 y x2 stairy_limit;
        let cntrAll = int (length firstBatch);
        (blocks, full) \<leftarrow>
          (if cntrAll < stairy_limit \<and> variation \<noteq> 0
           then vary_loop rng ar x1 y x2 flankToVary gs stairy_limit [1..variation] cntrAll [firstBatch]
           else Some ([firstBatch], False));
        if full then Some (blocks, None)
        else do { chosen \<leftarrow> flt blocks fs; Some (blocks, chosen) } })"

subsection \<open>Heuristics on edges with a step\<close>

text \<open>Every heuristic returns the reservoir, the amorph chosen and the shift of the base point.\<close>

type_synonym hit = "reservoir \<times> amorph option \<times> point"

definition StairyPerfect :: "visit \<Rightarrow> filterer_fun \<Rightarrow> reservoir \<Rightarrow> fusion \<Rightarrow> hit option" where
  "StairyPerfect rng flt ar fs = do {
     x1 \<leftarrow> slice_get (xyx fs) 0; y \<leftarrow> slice_get (xyx fs) 1; x2 \<leftarrow> slice_get (xyx fs) 2;
     let stepdown = y < 0;
     let (x1, x2, y) = (if stepdown then (x2, x1, - y) else (x1, x2, y));
     (_, chosen) \<leftarrow> ByStairyEdge rng flt ar fs x1 y x2 0 westw grow;
     Some (ar, if stepdown then map_option ReverseEdge chosen else chosen, Point 0 0) }"

text \<open>The stairs of the two branches: the limb that varies, and the other one, cut to the widest.\<close>

definition dyn_stair :: "reservoir \<Rightarrow> int \<Rightarrow> int" where
  "dyn_stair ar x =
     (let xdyn = x - SmallestDesirableWidth ar
      in if widestDynStair + 1 < xdyn then widestDynStair else xdyn)"

definition stat_stair :: "int \<Rightarrow> int" where
  "stat_stair x = (if widestStatStair + 1 < x then widestStatStair else x)"

definition AdapterStepdownAndDirection :: "visit \<Rightarrow> filterer_fun \<Rightarrow> reservoir \<Rightarrow> fusion \<Rightarrow> VariDirection \<Rightarrow>
    (amorph option \<times> point) option" where
  "AdapterStepdownAndDirection rng flt ar fs dir = do {
     x1 \<leftarrow> slice_get (xyx fs) 0; y \<leftarrow> slice_get (xyx fs) 1; x2 \<leftarrow> slice_get (xyx fs) 2;
     let stepdown = y < 0;
     let (x1, x2, y, dir) = (if stepdown then (x2, x1, - y, SwitchHoriz dir) else (x1, x2, y, dir));
     chosen \<leftarrow>
       (if dir = westw
        then if wideGapMin * SmallestDesirableWidth ar \<le> x1
             then map_option snd (ByStairyEdge rng flt ar fs (dyn_stair ar x1) y (stat_stair x2)
               (dyn_stair ar x1 - narrowestStair) westw shrink)
             else Some None
        else if wideGapMin * SmallestDesirableWidth ar \<le> x2
             then map_option snd (ByStairyEdge rng flt ar fs (stat_stair x1) y (dyn_stair ar x2)
               (dyn_stair ar x2 - narrowestStair) eastw shrink)
             else Some None);
     let chosen = (if stepdown then map_option ReverseEdge chosen else chosen);
     case chosen of
       None \<Rightarrow> Some (None, Point 0 0)
     | Some am \<Rightarrow> do {
         w \<leftarrow> slice_get (xyx fs) 0;
         e0 \<leftarrow> slice_get (Edge am) 0;
         Some (Some am, Point (w - e0) 0) } }"

definition or_else :: "(amorph option \<times> point) option \<Rightarrow> (amorph option \<times> point) option \<Rightarrow>
    (amorph option \<times> point) option" where
  "or_else r1 r2 = do { (chosen, shift) \<leftarrow> r1; if chosen = None then r2 else Some (chosen, shift) }"

definition StairyShrinky :: "visit \<Rightarrow> filterer_fun \<Rightarrow> reservoir \<Rightarrow> fusion \<Rightarrow> hit option" where
  "StairyShrinky rng flt ar fs = do {
     (chosen, shift) \<leftarrow>
       (case curveDesc fs of
          cncave \<Rightarrow> do {
            y \<leftarrow> slice_get (xyx fs) 1;
            if 0 < y
            then or_else (AdapterStepdownAndDirection rng flt ar fs westw)
                         (AdapterStepdownAndDirection rng flt ar fs eastw)
            else or_else (AdapterStepdownAndDirection rng flt ar fs eastw)
                         (AdapterStepdownAndDirection rng flt ar fs westw) }
        | stairW \<Rightarrow> AdapterStepdownAndDirection rng flt ar fs eastw
        | stairE \<Rightarrow> AdapterStepdownAndDirection rng flt ar fs eastw
        | convex \<Rightarrow> Some (None, Point 0 0));
     Some (ar, chosen, shift) }"

subsection \<open>Heuristics on straight edges\<close>

definition easterFlank :: "int \<Rightarrow> int \<Rightarrow> int \<Rightarrow> point \<Rightarrow> int \<times> int \<times> int \<times> point" where
  "easterFlank x1 y x2 baseShift =
     (if y < 0 then (x2, y, x1, Point (px baseShift + x1) (py baseShift)) else (x1, y, x2, baseShift))"

definition StraightPerfect :: "visit \<Rightarrow> filterer_fun \<Rightarrow> reservoir \<Rightarrow> fusion \<Rightarrow> hit option" where
  "StraightPerfect rng flt ar fs = do {
     x1 \<leftarrow> slice_get (xyx fs) 0; y \<leftarrow> slice_get (xyx fs) 1; x2 \<leftarrow> slice_get (xyx fs) 2;
     let (x1, y, x2, shift) = easterFlank x1 y x2 (Point 0 0);
     (_, chosen) \<leftarrow> exactStraightEdge rng flt ar fs x1;
     Some (ar, chosen, shift) }"

fun shrink_loop :: "visit \<Rightarrow> filterer_fun \<Rightarrow> reservoir \<Rightarrow> fusion \<Rightarrow> int list \<Rightarrow> amorph option option" where
  "shrink_loop rng flt ar fs [] = Some None"
| "shrink_loop rng flt ar fs (i # is') = do {
     (_, chosen) \<leftarrow> exactStraightEdge rng flt ar fs i;
     if chosen \<noteq> None then Some chosen else shrink_loop rng flt ar fs is' }"

definition StraightShrinky :: "visit \<Rightarrow> filterer_fun \<Rightarrow> reservoir \<Rightarrow> fusion \<Rightarrow> hit option" where
  "StraightShrinky rng flt ar fs = do {
     x1 \<leftarrow> slice_get (xyx fs) 0; y \<leftarrow> slice_get (xyx fs) 1; x2 \<leftarrow> slice_get (xyx fs) 2;
     let (x1, y, x2, shift) = easterFlank x1 y x2 (Point 0 0);
     let sdw = SmallestDesirableWidth ar;
     let x1 = (if wideGapCap * sdw < x1 then sdw else x1);
     if wideGapMin * sdw \<le> x1
     then do {
       chosen \<leftarrow> shrink_loop rng flt ar fs (rev [sdw..x1 - sdw]);
       Some (ar, chosen, shift) }
     else Some (ar, None, shift) }"

text \<open>The search of the desperate heuristic, and its write through the pointer it found.\<close>

fun back_loop :: "visit \<Rightarrow> reservoir \<Rightarrow> int \<Rightarrow> int list \<Rightarrow> int option option" where
  "back_loop rng ar x1 [] = Some None"
| "back_loop rng ar x1 (i # is') = do {
     k \<leftarrow> moreThanXElements rng ar (x1 * minPossibleHeight - i);
     if k \<noteq> None then Some k else back_loop rng ar x1 is' }"

definition pad_to :: "int \<Rightarrow> amorph \<Rightarrow> amorph option" where
  "pad_to x1 am = do {
     (rows, slack) \<leftarrow> OtherSide (NElements am) x1;
     let am = am\<lparr>Cols := x1, Rows := rows, Slack := slack\<rparr>;
     Some (if 0 < slack
           then am\<lparr>Padded := slack, NElements := NElements am + slack, Slack := 0\<rparr>
           else am) }"

definition ByNumElementsWrap :: "visit \<Rightarrow> reservoir \<Rightarrow> fusion \<Rightarrow> hit option" where
  "ByNumElementsWrap rng ar fs = do {
     x1 \<leftarrow> slice_get (xyx fs) 0; y \<leftarrow> slice_get (xyx fs) 1; x2 \<leftarrow> slice_get (xyx fs) 2;
     let (x1, y, x2, shift) = easterFlank x1 y x2 (Point 0 0);
     let x1 = (if wideGapCap * SmallestDesirableWidth ar < x1 then SmallestDesirableWidth ar else x1);
     k \<leftarrow> moreThanXElements rng ar (x1 * SmallestDesirableHeight ar);
     k \<leftarrow> (if k = None then back_loop rng ar x1 [0..x1 - 1] else Some k);
     case k of
       None \<Rightarrow> Some (ar, None, shift)
     | Some k \<Rightarrow> do {
         am \<leftarrow> slice_get (Amorphs ar) k;
         am \<leftarrow> pad_to x1 am;
         ams \<leftarrow> slice_set (Amorphs ar) k am;
         Some (ar\<lparr>Amorphs := ams\<rparr>, Some am, shift) } }"

subsection \<open>Applying the heuristics\<close>

definition Heuristics :: "visit \<Rightarrow> filterer_fun \<Rightarrow> (reservoir \<Rightarrow> fusion \<Rightarrow> hit option) list" where
  "Heuristics rng flt =
     [StairyPerfect rng flt, StairyShrinky rng flt, StraightPerfect rng flt, StraightShrinky rng flt,
      ByNumElementsWrap rng]"

definition restrictHeuristicsByIndex :: "(nat \<times> bool) list" where
  "restrictHeuristicsByIndex = []"

text \<open>All heuristics on one fusion: the second component is \<^verbatim>\<open>None\<close> when all of them failed.\<close>

fun try_heuristics :: "(nat \<times> (reservoir \<Rightarrow> fusion \<Rightarrow> hit option)) list \<Rightarrow> reservoir \<Rightarrow> fusion \<Rightarrow>
    (reservoir \<times> (amorph \<times> point) option) option" where
  "try_heuristics [] ar fs = Some (ar, None)"
| "try_heuristics ((i, h) # hs) ar fs =
     (if 0 < length restrictHeuristicsByIndex \<and> map_of restrictHeuristicsByIndex i \<noteq> Some True
      then try_heuristics hs ar fs
      else do {
        (ar, chosen, shift) \<leftarrow> h ar fs;
        case chosen of
          None \<Rightarrow> try_heuristics hs ar fs
        | Some am \<Rightarrow> Some (ar, Some (am, shift)) })"

type_synonym board = "matrix \<times> int set \<times> reservoir"

fun try_fusions :: "visit \<Rightarrow> filterer_fun \<Rightarrow> bool list \<Rightarrow> fusion list \<Rightarrow> int \<Rightarrow> board \<Rightarrow>
    ((int \<times> int) \<times> board) option" where
  "try_fusions rng flt primes [] hits0 (m, spent, ar) = Some ((hits0, 0), m, spent, ar)"
| "try_fusions rng flt primes (f # fs) hits0 (m, spent, ar) = do {
     (ar, r) \<leftarrow> try_heuristics (enumerate 0 (Heuristics rng flt)) ar f;
     case r of
       None \<Rightarrow> try_fusions rng flt primes fs (hits0 + 1) (m, spent, ar)
     | Some (am, shift) \<Rightarrow> do {
         (m, spent) \<leftarrow> SetAmorphSnapRightwise m spent
           (Point (px (base_pt f) + px shift) (py (base_pt f) + py shift)) am;
         ar \<leftarrow> RemoveSpentEdges primes ar am;
         Some ((hits0 + 1, 1), m, spent, ar) } }"

datatype apply_error = OutlineFailed outline_error | FusionFailed fusion_error | AmorphsExhausted

definition IterateFusedSections :: "visit \<Rightarrow> filterer_fun \<Rightarrow> bool list \<Rightarrow> int list list \<Rightarrow> point list \<Rightarrow>
    board \<Rightarrow> ((int \<times> int) \<times> apply_error option \<times> board) option" where
  "IterateFusedSections rng flt primes clns l = (\<lambda>(m, spent, ar). do {
     r \<leftarrow> FuseAllSections ar clns l;
     case r of
       Inl err \<Rightarrow> Some ((0, 0), Some (FusionFailed err), m, spent, ar)
     | Inr fs \<Rightarrow> do {
         (hits, b) \<leftarrow> try_fusions rng flt primes fs 0 (m, spent, ar);
         Some (hits, None, b) } })"

text \<open>The hits are \<^verbatim>\<open>nil\<close> when the outline fails or no amorph is left.\<close>

definition HeuristicsApply :: "visit \<Rightarrow> filterer_fun \<Rightarrow> bool list \<Rightarrow> board \<Rightarrow>
    ((int \<times> int) option \<times> apply_error option \<times> board) option" where
  "HeuristicsApply rng flt primes = (\<lambda>(m, spent, ar). do {
     (clns, l, err) \<leftarrow> ConcavestLowestNarrowestSections m;
     case err of
       Some e \<Rightarrow> Some (None, Some (OutlineFailed e), m, spent, ar)
     | None \<Rightarrow>
         if MElements ar = Map.empty then Some (None, Some AmorphsExhausted, m, spent, ar)
         else do {
           (hits, err, b) \<leftarrow> IterateFusedSections rng flt primes clns l (m, spent, ar);
           Some (Some hits, err, b) } })"

subsection \<open>The contract of a filter\<close>

text \<open>What the finders rely on: a filter chooses one of the amorphs it is given, and it does not
  panic on a fusion with its three permissiveness values.\<close>

locale filterer =
  fixes flt :: "amorph list list \<Rightarrow> fusion \<Rightarrow> amorph option option"
  assumes from_blocks: "flt blocks fs = Some (Some a) \<Longrightarrow> a \<in> set (concat blocks)"
    and total: "length (permissive fs) = 3 \<Longrightarrow> flt blocks fs \<noteq> None"
begin

lemma flt_Some: "length (permissive fs) = 3 \<Longrightarrow>
    \<exists>c. flt blocks fs = Some c \<and> (\<forall>a. c = Some a \<longrightarrow> a \<in> set (concat blocks))"
  using from_blocks total[of fs blocks] by (cases "flt blocks fs") auto

end

lemma MostAbundant_from:
  "MostAbundant_Filter blocks fs = Some (Some a) \<Longrightarrow> a \<in> set (concat blocks)"
proof -
  assume f: "MostAbundant_Filter blocks fs = Some (Some a)"
  let ?r = "filter (\<lambda>b. length b = longest blocks \<and> 0 < length b) blocks"
  obtain b r where r: "?r = b # r" "a = hd b"
    using f by (cases ?r) (auto simp: MostAbundant_Filter_def)
  have "b \<in> set ?r" by (simp only: r(1) list.set_intros)
  then show ?thesis using r(2) by (auto intro!: bexI[of _ b])
qed

interpretation ma: filterer MostAbundant_Filter
  by (unfold_locales, rule MostAbundant_from) (auto simp: MostAbundant_Filter_def)

text \<open>What the scan keeps: five batches, and everything in them and chosen is from the blocks.\<close>

definition prox_ok :: "amorph set \<Rightarrow> amorph option \<times> amorph list list \<Rightarrow> bool" where
  "prox_ok A s \<longleftrightarrow> set_option (fst s) \<subseteq> A \<and> length (snd s) = 5 \<and> (\<forall>b\<in>set (snd s). set b \<subseteq> A)"

lemma prox_step_ok:
  assumes "prox_ok A s" "lp \<in> A"
  shows "\<exists>s'. prox_step lim opt lp s = Some s' \<and> prox_ok A s'"
proof -
  obtain chosen closest where s: "s = (chosen, closest)" by fastforce
  define ch where "ch = (let ch = (case chosen of None \<Rightarrow> lp | Some c \<Rightarrow> c)
    in if \<bar>Rows lp - opt\<bar> < \<bar>Rows ch - opt\<bar> then lp else ch)"
  have ch: "ch \<in> A" using assms s by (auto simp: ch_def prox_ok_def Let_def split: option.splits)
  define k where "k = nat (Rows lp - opt + 2)"
  have l5: "length closest = 5" using assms(1) s by (simp add: prox_ok_def)
  consider "lim < Rows lp" | "\<not> lim < Rows lp" "\<not> \<bar>Rows lp - opt\<bar> \<le> 2"
    | "\<not> lim < Rows lp" "\<bar>Rows lp - opt\<bar> \<le> 2" by blast
  then show ?thesis
  proof cases
    case 3
    then have k: "k < length closest" "Rows lp - opt + 2 = int k" using l5 by (simp_all add: k_def)
    have "prox_step lim opt lp s = Some (Some ch, closest[k := closest ! k @ [lp]])"
      using 3 k s by (simp add: prox_step_def Let_def ch_def)
    moreover have "prox_ok A (Some ch, closest[k := closest ! k @ [lp]])"
      using assms s ch k(1) subsetD[OF bspec[OF _ nth_mem[OF k(1)]]] unfolding prox_ok_def
      by (auto dest!: set_update_subset_insert[THEN subsetD])
    ultimately show ?thesis by blast
  qed (use assms s ch in \<open>auto simp: prox_step_def Let_def ch_def prox_ok_def\<close>)
qed

lemma prox_loop_ok:
  "prox_ok A s \<Longrightarrow> set lps \<subseteq> A \<Longrightarrow> \<exists>s'. prox_loop lim opt lps s = Some s' \<and> prox_ok A s'"
proof (induction lps arbitrary: s)
  case (Cons lp lps)
  then obtain s1 where s1: "prox_step lim opt lp s = Some s1" "prox_ok A s1"
    using prox_step_ok[of A s lp lim opt] by auto
  then show ?case using Cons.IH[OF s1(2)] Cons.prems by auto
qed auto

lemma slice_get_hd: "length c = k \<Longrightarrow> 0 < k \<Longrightarrow> slice_get c 0 = Some (hd c)"
  by (cases c) (simp_all add: slice_get_def)

lemma abundant_ok:
  assumes "prox_ok A (chosen, closest)"
  shows "\<exists>c. abundant closest chosen = Some c \<and> set_option c \<subseteq> A"
proof -
  have l5: "length closest = 5" and ch: "set_option chosen \<subseteq> A" and cl: "\<forall>b\<in>set closest. set b \<subseteq> A"
    using assms by (auto simp: prox_ok_def)
  have g: "slice_get closest k = Some (closest ! nat k)" if "0 \<le> k" "k < 5" for k
    using that l5 by (simp add: slice_get_def)
  have hd: "hd (closest ! k) \<in> A" if "length (closest ! k) = mx" "0 < mx" "k < 5" for k mx
    using that cl l5 by (metis hd_in_set length_greater_0_conv nth_mem subsetD)
  show ?thesis
  proof (cases "0 < longest closest")
    case False
    then show ?thesis using ch by (simp add: abundant_def)
  next
    case True
    show ?thesis
      using True ch hd[OF _ True] by (auto simp: abundant_def g Let_def slice_get_hd[OF _ True])
  qed
qed

lemma Proximity_ok:
  assumes "slice_get (permissive fs) 2 = Some lim"
  shows "\<exists>c. MostAbundantInProximity_Filter blocks fs = Some c \<and> set_option c \<subseteq> set (concat blocks)"
proof -
  have "prox_ok (set (concat blocks)) (None, replicate 5 [])" by (simp add: prox_ok_def)
  then obtain s where s: "prox_loop lim (FillHeightFloor fs) (concat blocks) (None, replicate 5 []) = Some s"
    "prox_ok (set (concat blocks)) s" using prox_loop_ok by blast
  obtain chosen closest where "s = (chosen, closest)" by fastforce
  with s abundant_ok[of "set (concat blocks)" chosen closest] assms show ?thesis
    by (auto simp: MostAbundantInProximity_Filter_def simp del: set_concat)
qed

interpretation mp: filterer MostAbundantInProximity_Filter
proof
  fix blocks fs a
  assume f: "MostAbundantInProximity_Filter blocks fs = Some (Some a)"
  then obtain lim where "slice_get (permissive fs) 2 = Some lim"
    by (auto simp: MostAbundantInProximity_Filter_def)
  from Proximity_ok[OF this, of blocks] f show "a \<in> set (concat blocks)" by auto
next
  fix fs :: fusion and blocks
  assume "length (permissive fs) = 3"
  then have "slice_get (permissive fs) 2 = Some (permissive fs ! 2)" by (simp add: slice_get_def)
  from Proximity_ok[OF this, of blocks] show "MostAbundantInProximity_Filter blocks fs \<noteq> None" by auto
qed

interpretation af: filterer ActiveFilter
  unfolding ActiveFilter_def by (rule mp.filterer_axioms)

subsection \<open>A stock of articles\<close>

definition ranging :: "visit \<Rightarrow> bool" where
  "ranging rng \<longleftrightarrow> (\<forall>s. finite s \<longrightarrow> set (rng s) = s \<and> distinct (rng s))"

text \<open>The live articles and their areas: the indexes of the reservoir are exactly theirs, and the
  amorph of a live article is as it was generated.\<close>

definition pristine :: "reservoir \<Rightarrow> int \<Rightarrow> int \<Rightarrow> bool" where
  "pristine ar j n \<longleftrightarrow> 0 \<le> j \<and> nat j < length (Amorphs ar) \<and> IdxArticle (Amorphs ar ! nat j) = j \<and>
     NElements (Amorphs ar ! nat j) = n \<and> Padded (Amorphs ar ! nat j) = 0 \<and> Edge (Amorphs ar ! nat j) = []"

definition stock :: "bool list \<Rightarrow> (int \<rightharpoonup> int) \<Rightarrow> reservoir \<Rightarrow> bool" where
  "stock primes live ar \<longleftrightarrow> reps primes live ar \<and> prime_table primes \<and> length primes \<le> 10000 \<and>
     SmallestDesirableWidth ar \<in> {1, 2} \<and> SmallestDesirableHeight ar \<in> {1, 2} \<and>
     (\<forall>j n. live j = Some n \<longrightarrow> pristine ar j n \<and> 0 < n \<and> n \<le> 100 \<and> shape_plugs primes n \<noteq> None)"

lemma stock_live: "stock primes live ar \<Longrightarrow> live j = Some n \<Longrightarrow> pristine ar j n \<and> 0 < n \<and> n \<le> 100"
  by (simp add: stock_def)

lemma stock_get: "stock primes live ar \<Longrightarrow> live j = Some n \<Longrightarrow> slice_get (Amorphs ar) j = Some (Amorphs ar ! nat j)"
  using stock_live[of primes live ar j n] by (auto simp: pristine_def slice_get_def nat_less_iff)

lemma stock_finite: "stock primes live ar \<Longrightarrow> finite (dom live)"
proof -
  assume s: "stock primes live ar"
  have "dom live \<subseteq> {0..<int (length (Amorphs ar))}"
    using stock_live[OF s] by (fastforce simp: pristine_def)
  then show ?thesis by (rule finite_subset) simp
qed

text \<open>The articles under a key of an index, in the order in which they are visited.\<close>

definition visited :: "visit \<Rightarrow> index \<Rightarrow> int \<Rightarrow> int list" where
  "visited rng mp k = (case mp k of None \<Rightarrow> [] | Some s \<Rightarrow> rng s)"

lemma visited_ids:
  assumes "stock primes live ar" "ranging rng" "mp = index_of keys live"
  shows "set (visited rng mp k) = {j. \<exists>n. live j = Some n \<and> k \<in> set (keys n)}" "distinct (visited rng mp k)"
proof -
  let ?S = "{j. \<exists>n. live j = Some n \<and> k \<in> set (keys n)}"
  have ids: "ids mp k = ?S" using assms(3) by (simp add: ids_index_of)
  have "finite ?S" by (rule finite_subset[OF _ stock_finite[OF assms(1)]]) auto
  then have "set (visited rng mp k) = ids mp k \<and> distinct (visited rng mp k)"
    using assms(2) ids by (cases "mp k") (auto simp: visited_def ids_def ranging_def)
  with ids show "set (visited rng mp k) = ?S" "distinct (visited rng mp k)" by auto
qed

lemma stock_index:
  assumes "stock primes live ar"
  shows "MElements ar = index_of (\<lambda>n. [n]) live" "Edge3 ar = index_of (edge_keys primes) live"
    "EdgesSlackless ar = index_of all_slackless live"
  using assms by (simp_all add: stock_def reps_def)

lemma visited_live:
  assumes "stock primes live ar" "ranging rng"
  shows "set (visited rng (MElements ar) k) \<subseteq> dom live" "set (visited rng (Edge3 ar) k) \<subseteq> dom live"
    "set (visited rng (EdgesSlackless ar) k) \<subseteq> dom live"
  unfolding stock_index[OF assms(1)] by (auto simp: visited_ids(1)[OF assms refl])

text \<open>An amorph taken from the stock, laid out with the given edge.\<close>

definition laid_out :: "(int \<rightharpoonup> int) \<Rightarrow> int list \<Rightarrow> amorph \<Rightarrow> bool" where
  "laid_out live e am \<longleftrightarrow> live (IdxArticle am) = Some (NElements am) \<and> Padded am = 0 \<and> Edge am = e \<and>
     0 < NElements am \<and> Cols am * Rows am = NElements am + Slack am"

lemma straight_batch_ok:
  assumes "stock primes live ar" "0 < x1"
  shows "set ks \<subseteq> dom live \<Longrightarrow> \<exists>b. straight_batch ar x1 ks = Some b \<and>
    (\<forall>a\<in>set b. laid_out live [] a \<and> Cols a = x1 \<and> 0 < Rows a \<and> 0 \<le> Slack a)"
proof (induction ks)
  case (Cons k ks)
  then obtain n where n: "live k = Some n" by auto
  let ?am = "Amorphs ar ! nat k"
  have am: "slice_get (Amorphs ar) k = Some ?am" "NElements ?am = n" "IdxArticle ?am = k" "Padded ?am = 0" "0 < n"
    using stock_get[OF assms(1) n] stock_live[OF assms(1) n] by (auto simp: pristine_def)
  obtain rows slack where os: "OtherSide n x1 = Some (rows, slack)"
    using assms(2) by (auto simp: OtherSide_def Let_def)
  note osl = OtherSide_slack[OF am(5) assms(2) os]
  obtain b where b: "straight_batch ar x1 ks = Some b"
    "\<forall>a\<in>set b. laid_out live [] a \<and> Cols a = x1 \<and> 0 < Rows a \<and> 0 \<le> Slack a"
    using Cons by auto
  then show ?case using am os osl n by (auto simp: laid_out_def)
qed simp

lemma straight_loop_ok:
  assumes "stock primes live ar" "ranging rng" "0 < x1"
  shows "\<exists>bs. straight_loop rng ar x1 mh is = Some bs \<and>
    (\<forall>a\<in>set (concat bs). laid_out live [] a \<and> Cols a = x1 \<and> 0 < Rows a \<and> 0 \<le> Slack a)"
proof (induction "is")
  case (Cons i "is")
  have step: "\<exists>b. (case EdgesSlackless ar (Enc x1 (mh + i) 0) of None \<Rightarrow> Some []
      | Some mp \<Rightarrow> straight_batch ar x1 (rng mp)) = Some b \<and>
    (\<forall>a\<in>set b. laid_out live [] a \<and> Cols a = x1 \<and> 0 < Rows a \<and> 0 \<le> Slack a)"
    using straight_batch_ok[OF assms(1,3) visited_live(3)[OF assms(1,2), of "Enc x1 (mh + i) 0"]]
    by (auto simp: visited_def split: option.splits)
  then show ?case using Cons.IH by fastforce
qed simp

lemma laid_out_suits: "laid_out live [] a \<Longrightarrow> 0 < Cols a \<Longrightarrow> 0 < Rows a \<Longrightarrow> 0 \<le> Slack a \<Longrightarrow> suits a"
  by (simp add: laid_out_def suits_def)

text \<open>What a heuristic may choose: a live article, laid out so that it can be painted.\<close>

definition choice :: "(int \<rightharpoonup> int) \<Rightarrow> amorph \<Rightarrow> bool" where
  "choice live am \<longleftrightarrow> live (IdxArticle am) = Some (NElements am - Padded am) \<and> 0 \<le> Padded am \<and> suits am \<and>
     Cols am * Rows am - Slack am = NElements am"

subsection \<open>Edges found are edges that fit\<close>

lemma edges_of_small:
  assumes "(a, h, b) \<in> edges_of n" "0 < n" "n \<le> 100"
  shows "0 < a \<and> a < 100 \<and> 0 < h \<and> h < 100 \<and> 0 < b \<and> b < 100 \<and>
    (\<exists>D. h < D \<and> (a + b) * D = n + h * b)"
proof -
  obtain cols rows where t: "tried n cols rows" and i: "(a, h, b) \<in> inscribed cols rows (cols * rows - n)"
    using assms(1) by (auto simp: edges_of_def)
  have p: "0 < a" "0 < h" "0 < b" "h * b = cols * rows - n"
    and ab: "a + b = cols \<and> h < rows \<or> a + b = rows \<and> h < cols"
    using i by (auto simp: inscribed_def)
  have "cols < 100 \<and> rows < 101"
  proof (cases "cols \<le> n \<and> OtherSide n cols = Some (rows, cols * rows - n)")
    case True
    have root: "n \<le> cols * cols" "0 \<le> cols"
      using t RootCeiling_spec(1,2)[of n] mult_mono[of "RootCeiling n" cols "RootCeiling n" cols]
      by (auto simp: tried_def)
    then have "0 < cols" using assms(2) by (cases "cols = 0") auto
    from OtherSide_slack[OF assms(2) this] True
    have os: "cols * rows - n < cols" "0 < rows" by auto
    have "cols \<noteq> n"
    proof
      assume "cols = n"
      with os(1) have "n * rows < n * 2" by simp
      then have "rows = 1" using assms(2) os(2) by (simp add: mult_less_cancel_left)
      moreover have "0 < h * b" using p(2,3) by simp
      ultimately show False using p(4) \<open>cols = n\<close> by simp
    qed
    moreover have "cols * (rows - 1) < cols * cols" using os(1) root(1) by (simp add: algebra_simps)
    then have "rows - 1 < cols" using \<open>0 < cols\<close> by (simp add: mult_less_cancel_left)
    ultimately show ?thesis using True assms(3) by auto
  next
    case False
    then show ?thesis using t assms(3) by (auto simp: tried_def split: if_splits)
  qed
  then have "a < 100 \<and> h < 100 \<and> b < 100" using ab p by auto
  moreover have "\<exists>D. h < D \<and> (a + b) * D = n + h * b"
    using ab p(4) by (auto simp: mult.commute)
  ultimately show ?thesis using p by blast
qed

lemma Enc_inject:
  assumes "0 \<le> h" "h < 100" "0 \<le> b" "b < 100" "0 \<le> h'" "h' < 100" "0 \<le> b'" "b' < 100"
  shows "Enc a h b = Enc a' h' b' \<longleftrightarrow> a = a' \<and> h = h' \<and> b = b'"
proof
  assume "Enc a h b = Enc a' h' b'"
  then have e: "b + 100 * (h + 100 * a) = b' + 100 * (h' + 100 * a')"
    using assms by (simp add: Enc_def multiSortFactor_def)
  have m: "(c + 100 * k) mod 100 = c" if "0 \<le> c" "c < 100" for c k :: int using that by simp
  have "b = b'" using m[of b] m[of b'] assms e by metis
  moreover from this e have e2: "h + 100 * a = h' + 100 * a'" by simp
  moreover have "h = h'" using m[of h] m[of h'] assms e2 by metis
  ultimately show "a = a' \<and> h = h' \<and> b = b'" by simp
qed simp

lemma edge_keys_iff:
  assumes "stock primes live ar" "live j = Some n" "0 < x1" "0 \<le> y" "y < 100" "0 < x2" "x2 < 100"
  shows "Enc x1 y x2 \<in> set (edge_keys primes n) \<longleftrightarrow> (x1, y, x2) \<in> edges_of n"
proof -
  have n: "0 < n" "n \<le> 100" and "shape_plugs primes n \<noteq> None" and tab: "prime_table primes" "length primes \<le> 10000"
    using assms(1,2) by (auto simp: stock_def)
  then obtain ps where ps: "shape_plugs primes n = Some ps" by auto
  have set: "set ps = edges_of n" using shape_plugs_set[OF tab ps] n(1) by simp
  have eq: "Enc x1 y x2 = Enc a h b \<longleftrightarrow> (x1, y, x2) = (a, h, b)" if "(a, h, b) \<in> edges_of n" for a h b
    using Enc_inject[of y x2 h b x1 a] edges_of_small[OF that n] assms(3-7) by auto
  have "Enc x1 y x2 \<in> set (edge_keys primes n) \<longleftrightarrow> (\<exists>(a, h, b)\<in>edges_of n. Enc x1 y x2 = Enc a h b)"
    unfolding edge_keys_def ps by (simp add: set image_iff split_beta)
  also have "\<dots> \<longleftrightarrow> (x1, y, x2) \<in> edges_of n" using eq by blast
  finally show ?thesis .
qed

lemma blowup_to:
  assumes "Slack lp = Cols lp * Rows lp - NElements lp" "Rows lp \<le> D" "Cols lp * D = NElements lp + y * x2"
    "0 < Cols lp" "0 \<le> y" "0 \<le> x2" "y < D" "D - Rows lp \<le> 100 - int rounds"
  shows "blowup y x2 rounds lp = Some (lp\<lparr>Rows := D, Slack := y * x2\<rparr>)"
  using assms
proof (induction y x2 rounds lp rule: blowup.induct)
  case (1 y x2 rounds lp)
  have y: "\<bar>y\<bar> = y" "\<bar>x2 * y\<bar> = y * x2" using "1.prems"(5,6) by (simp_all add: abs_mult)
  show ?case
  proof (cases "Rows lp = D")
    case True
    then have "Slack lp = y * x2" using "1.prems"(1,3) by simp
    then show ?thesis using True y "1.prems"(7) by (subst blowup.simps) (simp add: Let_def)
  next
    case False
    let ?lp = "lp\<lparr>Rows := Rows lp + 1, Slack := Cols lp * (Rows lp + 1) - NElements lp\<rparr>"
    have "Rows lp < D" using False "1.prems"(2) by simp
    then have "Cols lp * Rows lp < Cols lp * D" using "1.prems"(4) by simp
    then have go: "Rows lp \<le> \<bar>y\<bar> \<or> Slack lp < \<bar>x2 * y\<bar>" using "1.prems"(1,3) y by simp
    have r: "\<not> 100 < rounds + 1" using \<open>Rows lp < D\<close> "1.prems"(8) by simp
    have "blowup y x2 (rounds + 1) ?lp = Some (?lp\<lparr>Rows := D, Slack := y * x2\<rparr>)"
      using "1.IH"[OF go refl r] "1.prems" \<open>Rows lp < D\<close> by simp
    then show ?thesis using go r by (subst blowup.simps) (simp add: Let_def)
  qed
qed

text \<open>The layout of an area with a given edge: the rows are what makes the slack equal to the step.\<close>

definition with_edge :: "int \<Rightarrow> int \<Rightarrow> int \<Rightarrow> amorph \<Rightarrow> amorph" where
  "with_edge x1 y x2 am = am\<lparr>Cols := x1 + x2, Rows := (NElements am + y * x2) div (x1 + x2), Slack := y * x2,
     Edge := [x1, y, x2]\<rparr>"

lemma stairy_one:
  assumes "(x1, y, x2) \<in> edges_of (NElements am)" "0 < NElements am" "NElements am \<le> 100"
  shows "\<exists>rows slack lp. OtherSide (NElements am) (x1 + x2) = Some (rows, slack) \<and>
    blowup y x2 0 (am\<lparr>Cols := x1 + x2, Rows := rows, Slack := slack\<rparr>) = Some lp \<and>
    lp\<lparr>Edge := [x1, y, x2]\<rparr> = with_edge x1 y x2 am"
proof -
  obtain D where D: "y < D" "(x1 + x2) * D = NElements am + y * x2"
    and p: "0 < x1" "x1 < 100" "0 < y" "y < 100" "0 < x2" "x2 < 100"
    using edges_of_small[OF assms] by auto
  let ?c = "x1 + x2" and ?n = "NElements am"
  obtain rows slack where os: "OtherSide ?n ?c = Some (rows, slack)"
    using p by (auto simp: OtherSide_def Let_def)
  have osl: "?c * rows = ?n + slack" "0 \<le> slack" "slack < ?c" "0 < rows"
    using OtherSide_slack[OF assms(2) _ os] p by auto
  have "rows \<le> D"
  proof (rule ccontr)
    assume "\<not> rows \<le> D"
    then have "?c * (D + 1) \<le> ?c * rows" using p by (intro mult_left_mono) auto
    moreover have "0 < y * x2" using p by simp
    ultimately show False using osl D(2) by (simp add: algebra_simps)
  qed
  moreover have "D - rows \<le> 100"
  proof (rule ccontr)
    assume "\<not> D - rows \<le> 100"
    then have "?c * 100 \<le> ?c * (D - rows)" using p by (intro mult_left_mono) auto
    also have "\<dots> \<le> y * x2" using osl D(2) by (simp add: algebra_simps)
    also have "\<dots> \<le> 100 * x2" using p by (intro mult_right_mono) auto
    finally show False using p by simp
  qed
  moreover have "D = (?n + y * x2) div ?c" using D(2) p by (metis add_pos_pos less_irrefl nonzero_mult_div_cancel_left)
  ultimately show ?thesis
    using os osl D p blowup_to[of "am\<lparr>Cols := ?c, Rows := rows, Slack := slack\<rparr>" D y x2 0]
    by (intro exI[of _ rows] exI[of _ slack]) (auto simp: with_edge_def)
qed

lemma stairy_batch_ok:
  assumes "stock primes live ar"
  shows "\<forall>k\<in>set ks. \<exists>n. live k = Some n \<and> (x1, y, x2) \<in> edges_of n \<Longrightarrow> int (length ams) < limit \<Longrightarrow>
    stairy_batch ar x1 y x2 limit ks ams =
      Some (ams @ map (\<lambda>k. with_edge x1 y x2 (Amorphs ar ! nat k)) (take (nat limit - length ams) ks))"
proof (induction ks arbitrary: ams)
  case (Cons k ks)
  obtain n where n: "live k = Some n" "(x1, y, x2) \<in> edges_of n" using Cons.prems(1) by auto
  let ?am = "Amorphs ar ! nat k"
  have am: "slice_get (Amorphs ar) k = Some ?am" "NElements ?am = n" "0 < n" "n \<le> 100"
    using stock_get[OF assms n(1)] stock_live[OF assms n(1)] by (auto simp: pristine_def)
  obtain rows slack lp where s: "OtherSide n (x1 + x2) = Some (rows, slack)"
    "blowup y x2 0 (?am\<lparr>Cols := x1 + x2, Rows := rows, Slack := slack\<rparr>) = Some lp"
    "lp\<lparr>Edge := [x1, y, x2]\<rparr> = with_edge x1 y x2 ?am"
    using stairy_one[of x1 y x2 ?am] n(2) am by auto
  have t: "take (nat limit - length ams) (k # ks) = k # take (nat limit - Suc (length ams)) ks"
  proof -
    have "length ams < nat limit" using Cons.prems(2) by simp
    then show ?thesis by (simp add: Suc_diff_Suc[symmetric])
  qed
  show ?case
  proof (cases "limit \<le> int (Suc (length ams))")
    case True
    then have "nat limit - Suc (length ams) = 0" by simp
    then show ?thesis using True am s t by simp
  next
    case False
    then show ?thesis
      using Cons.IH[of "ams @ [with_edge x1 y x2 ?am]"] Cons.prems(1) am s t by simp
  qed
qed simp

lemma exactStairyEdge_eq:
  assumes "stock primes live ar" "ranging rng" "0 < x1" "0 \<le> y" "y < 100" "0 < x2" "x2 < 100" "0 < limit"
  shows "exactStairyEdge rng ar x1 y x2 limit =
      Some (map (\<lambda>k. with_edge x1 y x2 (Amorphs ar ! nat k))
        (take (nat limit) (visited rng (Edge3 ar) (Enc x1 y x2)))) \<and>
    set (visited rng (Edge3 ar) (Enc x1 y x2)) = {j. \<exists>n. live j = Some n \<and> (x1, y, x2) \<in> edges_of n} \<and>
    distinct (visited rng (Edge3 ar) (Enc x1 y x2))"
proof -
  let ?v = "visited rng (Edge3 ar) (Enc x1 y x2)"
  note v = visited_ids[OF assms(1,2) stock_index(2)[OF assms(1)], of "Enc x1 y x2"]
  have set: "set ?v = {j. \<exists>n. live j = Some n \<and> (x1, y, x2) \<in> edges_of n}"
    using v(1) edge_keys_iff[OF assms(1) _ assms(3-7)] by auto
  then have "\<forall>k\<in>set ?v. \<exists>n. live k = Some n \<and> (x1, y, x2) \<in> edges_of n" by auto
  from stairy_batch_ok[OF assms(1) this, of "[]" limit] assms(8)
  have "stairy_batch ar x1 y x2 limit ?v [] =
      Some (map (\<lambda>k. with_edge x1 y x2 (Amorphs ar ! nat k)) (take (nat limit) ?v))" by simp
  then show ?thesis using set v(2)
    by (cases "Edge3 ar (Enc x1 y x2)") (auto simp: exactStairyEdge_def visited_def)
qed

text \<open>An amorph laid out with an edge with a step up.\<close>

definition stepped :: "(int \<rightharpoonup> int) \<Rightarrow> amorph \<Rightarrow> bool" where
  "stepped live am \<longleftrightarrow> choice live am \<and> (\<exists>a h b. Edge am = [a, h, b] \<and> 0 < h)"

lemma with_edge_stepped:
  assumes "stock primes live ar" "live j = Some n" "(x1, y, x2) \<in> edges_of n"
  shows "stepped live (with_edge x1 y x2 (Amorphs ar ! nat j))"
proof -
  have am: "IdxArticle (Amorphs ar ! nat j) = j" "NElements (Amorphs ar ! nat j) = n"
    "Padded (Amorphs ar ! nat j) = 0" "0 < n" "n \<le> 100"
    using stock_live[OF assms(1,2)] by (auto simp: pristine_def)
  obtain D where p: "0 < x1" "0 < y" "0 < x2" "y < D" "(x1 + x2) * D = n + y * x2"
    using edges_of_small[OF assms(3) am(4,5)] by auto
  then have "(n + y * x2) div (x1 + x2) = D"
    by (metis add_pos_pos less_irrefl nonzero_mult_div_cancel_left)
  moreover have "0 < D" "0 < y * x2" using p by auto
  ultimately show ?thesis
    using am p assms(2) by (auto simp: stepped_def choice_def suits_def with_edge_def)
qed

lemma ReverseEdge_choice: "stepped live am \<Longrightarrow> choice live (ReverseEdge am)"
  by (auto simp: stepped_def choice_def suits_def ReverseEdge_def)

lemma exactStairyEdge_stepped:
  assumes "stock primes live ar" "ranging rng" "0 < x1" "0 \<le> y" "y < 100" "0 < x2" "x2 < 100" "0 < limit"
  shows "\<exists>b. exactStairyEdge rng ar x1 y x2 limit = Some b \<and> (\<forall>a\<in>set b. stepped live a)"
  using exactStairyEdge_eq[OF assms] with_edge_stepped[OF assms(1), of _ _ x1 y x2]
  by (auto dest!: in_set_takeD)

text \<open>The two ways in which the heuristics vary a limb: they shrink it, and it keeps at least one slot.\<close>

definition shrinkable :: "VariDirection \<Rightarrow> int \<Rightarrow> int \<Rightarrow> int \<Rightarrow> bool" where
  "shrinkable flank i x1 x2 \<longleftrightarrow> flank = westw \<and> i < x1 \<or> flank = eastw \<and> i < x2"

lemma vary_loop_ok:
  assumes "stock primes live ar" "ranging rng" "0 < x1" "0 \<le> y" "y < 100" "0 < x2" "x2 < 100"
  shows "\<forall>i\<in>set is. 0 \<le> i \<and> shrinkable flank i x1 x2 \<Longrightarrow> cnt < limit \<Longrightarrow> \<forall>a\<in>set (concat blocks). stepped live a \<Longrightarrow>
    \<exists>bs full. vary_loop rng ar x1 y x2 flank shrink limit is cnt blocks = Some (bs, full) \<and>
      (\<forall>a\<in>set (concat bs). stepped live a)"
proof (induction "is" arbitrary: cnt blocks)
  case (Cons i "is")
  have sh: "0 \<le> i" "shrinkable flank i x1 x2" using Cons.prems(1) by auto
  have "\<exists>m. find_varied rng ar flank (i * offset_sign shrink) x1 y x2 (limit - cnt) = Some m \<and>
      (\<forall>a\<in>set m. stepped live a)"
    using sh assms Cons.prems(2) unfolding shrinkable_def find_varied_def
    by (auto intro!: exactStairyEdge_stepped[OF assms(1,2)])
  then obtain m where m: "find_varied rng ar flank (i * offset_sign shrink) x1 y x2 (limit - cnt) = Some m"
    "\<forall>a\<in>set m. stepped live a" by blast
  let ?b = "if 0 < length m then blocks @ [m] else blocks"
  have b: "\<forall>a\<in>set (concat ?b). stepped live a" using m(2) Cons.prems(3) by auto
  have "\<forall>i\<in>set is. 0 \<le> i \<and> shrinkable flank i x1 x2" using Cons.prems(1) by simp
  note IH = Cons.IH[OF this _ b, of "cnt + int (length m)"]
  show ?case
  proof (cases "limit \<le> cnt + int (length m)")
    case True
    then show ?thesis using b m(1) by (auto simp: Let_def)
  next
    case False
    then show ?thesis using IH m(1) by (simp add: Let_def)
  qed
qed auto

context filterer
begin

lemma ByStairyEdge_ok:
  assumes "stock primes live ar" "ranging rng" "0 < x1" "0 \<le> y" "y < 100" "0 < x2" "x2 < 100"
    and "length (permissive fs) = 3" "0 \<le> v"
    and v: "v = 0 \<or> gs = shrink \<and> shrinkable flank v x1 x2"
  shows "\<exists>bs c. ByStairyEdge rng flt ar fs x1 y x2 v flank gs = Some (bs, c) \<and> (\<forall>a. c = Some a \<longrightarrow> stepped live a)"
proof -
  obtain b where b: "exactStairyEdge rng ar x1 y x2 stairy_limit = Some b" "\<forall>a\<in>set b. stepped live a"
    using exactStairyEdge_stepped[OF assms(1-7), of stairy_limit] by (auto simp: stairy_limit_def)
  have "\<exists>bs full. (if int (length b) < stairy_limit \<and> v \<noteq> 0
      then vary_loop rng ar x1 y x2 flank gs stairy_limit [1..v] (int (length b)) [b]
      else Some ([b], False)) = Some (bs, full) \<and> (\<forall>a\<in>set (concat bs). stepped live a)"
  proof (cases "int (length b) < stairy_limit \<and> v \<noteq> 0")
    case True
    then have gs: "gs = shrink" "shrinkable flank v x1 x2" using v by auto
    then have "\<forall>i\<in>set [1..v]. 0 \<le> i \<and> shrinkable flank i x1 x2" by (auto simp: shrinkable_def)
    with vary_loop_ok[OF assms(1-7) this, of "int (length b)" stairy_limit "[b]"] True b(2) gs
    show ?thesis by auto
  next
    case False
    then show ?thesis using b by (intro exI[of _ "[b]"] exI[of _ False]) simp
  qed
  then obtain bs full where bs: "(if int (length b) < stairy_limit \<and> v \<noteq> 0
      then vary_loop rng ar x1 y x2 flank gs stairy_limit [1..v] (int (length b)) [b]
      else Some ([b], False)) = Some (bs, full)" "\<forall>a\<in>set (concat bs). stepped live a" by blast
  obtain c where "flt bs fs = Some c" "\<forall>a. c = Some a \<longrightarrow> a \<in> set (concat bs)"
    using flt_Some[OF assms(8)] by blast
  with bs b(1) assms(9) show ?thesis
    unfolding ByStairyEdge_def by (cases full) (auto simp: Let_def simp del: set_concat)
qed

lemma exactStraightEdge_ok:
  assumes "stock primes live ar" "ranging rng" "0 < x1" "length (permissive fs) = 3"
  shows "\<exists>bs c. exactStraightEdge rng flt ar fs x1 = Some (bs, c) \<and> (\<forall>a. c = Some a \<longrightarrow> choice live a)"
proof -
  obtain bs where bs: "straight_loop rng ar x1 (SmallestDesirableHeight ar - 1) [0..cMaxHeight - 1] = Some bs"
    "\<forall>a\<in>set (concat bs). laid_out live [] a \<and> Cols a = x1 \<and> 0 < Rows a \<and> 0 \<le> Slack a"
    using straight_loop_ok[OF assms(1-3)] by blast
  obtain c where "flt bs fs = Some c" "\<forall>a. c = Some a \<longrightarrow> a \<in> set (concat bs)"
    using flt_Some[OF assms(4)] by blast
  moreover have "choice live a" if a: "a \<in> set (concat bs)" for a
  proof -
    have "laid_out live [] a \<and> Cols a = x1 \<and> 0 < Rows a \<and> 0 \<le> Slack a" using bs(2) a by blast
    then show ?thesis using laid_out_suits[of live a] assms(3) by (auto simp: choice_def laid_out_def)
  qed
  ultimately show ?thesis using bs(1) by (auto simp: exactStraightEdge_def Let_def simp del: set_concat)
qed

lemma shrink_loop_ok:
  assumes "stock primes live ar" "ranging rng" "length (permissive fs) = 3"
  shows "\<forall>i\<in>set is. 0 < i \<Longrightarrow> \<exists>c. shrink_loop rng flt ar fs is = Some c \<and> (\<forall>a. c = Some a \<longrightarrow> choice live a)"
proof (induction "is")
  case (Cons i "is")
  obtain bs c where c: "exactStraightEdge rng flt ar fs i = Some (bs, c)" "\<forall>a. c = Some a \<longrightarrow> choice live a"
    using exactStraightEdge_ok[OF assms(1,2) _ assms(3), of i] Cons.prems by auto
  then show ?case using Cons by (cases c) auto
qed simp

end

subsection \<open>The five heuristics\<close>

text \<open>A fusion whose three lengths are in the range of the codes of edges.\<close>

definition room :: "fusion \<Rightarrow> bool" where
  "room f \<longleftrightarrow> (\<exists>a y b. xyx f = [a, y, b] \<and> 0 < a \<and> a < 100 \<and> \<bar>y\<bar> < 100 \<and> 0 < b \<and> b < 100) \<and>
     length (permissive f) = 3"

text \<open>At most the amorph of one article has been rewritten.\<close>

definition touched :: "int \<Rightarrow> reservoir \<Rightarrow> reservoir \<Rightarrow> bool" where
  "touched j ar ar' \<longleftrightarrow> (\<exists>ams. ar' = ar\<lparr>Amorphs := ams\<rparr> \<and> length ams = length (Amorphs ar) \<and>
     (\<forall>k. k \<noteq> nat j \<longrightarrow> ams ! k = Amorphs ar ! k))"

lemma touched_refl: "touched j ar ar"
  unfolding touched_def by (rule exI[of _ "Amorphs ar"]) simp

definition hit_ok :: "(int \<rightharpoonup> int) \<Rightarrow> reservoir \<Rightarrow> hit option \<Rightarrow> bool" where
  "hit_ok live ar r \<longleftrightarrow> (\<exists>ar' c p. r = Some (ar', c, p) \<and>
     (case c of None \<Rightarrow> ar' = ar | Some am \<Rightarrow> choice live am \<and> touched (IdxArticle am) ar ar'))"

lemma hit_okI: "\<forall>a. c = Some a \<longrightarrow> choice live a \<Longrightarrow> hit_ok live ar (Some (ar, c, p))"
  by (auto simp: hit_ok_def touched_refl split: option.splits)

lemma slice_get_three [simp]:
  "slice_get [a, b, c] 0 = Some a" "slice_get [a, b, c] 1 = Some b" "slice_get [a, b, c] 2 = Some c"
  by (simp_all add: slice_get_def)

lemma stairs:
  assumes "stock primes live ar" "wideGapMin * SmallestDesirableWidth ar \<le> x" "x < 100"
  shows "0 < dyn_stair ar x" "dyn_stair ar x < 100"
  using assms by (auto simp: stock_def dyn_stair_def wideGapMin_def widestDynStair_def Let_def)

lemma stat_stair: "0 < x \<Longrightarrow> x < 100 \<Longrightarrow> 0 < stat_stair x \<and> stat_stair x < 100"
  by (simp add: stat_stair_def widestStatStair_def)

lemma stepped_reverse: "stepped live am \<Longrightarrow> length (Edge (ReverseEdge am)) = 3"
  by (auto simp: stepped_def ReverseEdge_def)

context filterer
begin

lemma StairyPerfect_ok:
  assumes "stock primes live ar" "ranging rng" "room fs"
  shows "hit_ok live ar (StairyPerfect rng flt ar fs)"
proof -
  obtain a y b where f: "xyx fs = [a, y, b]" "0 < a" "a < 100" "\<bar>y\<bar> < 100" "0 < b" "b < 100" "length (permissive fs) = 3"
    using assms(3) by (auto simp: room_def)
  show ?thesis
  proof (cases "y < 0")
    case True
    obtain bs c where c: "ByStairyEdge rng flt ar fs b (- y) a 0 westw grow = Some (bs, c)"
      "\<forall>a. c = Some a \<longrightarrow> stepped live a"
      using ByStairyEdge_ok[OF assms(1,2), of b "- y" a fs 0 grow westw] f True by auto
    have "\<forall>a. map_option ReverseEdge c = Some a \<longrightarrow> choice live a" using c(2) ReverseEdge_choice by auto
    then have "hit_ok live ar (Some (ar, map_option ReverseEdge c, Point 0 0))" by (rule hit_okI)
    then show ?thesis using c(1) True f(1) by (simp add: StairyPerfect_def)
  next
    case False
    obtain bs c where c: "ByStairyEdge rng flt ar fs a y b 0 westw grow = Some (bs, c)"
      "\<forall>a. c = Some a \<longrightarrow> stepped live a"
      using ByStairyEdge_ok[OF assms(1,2), of a y b fs 0 grow westw] f False by auto
    have "\<forall>a. c = Some a \<longrightarrow> choice live a" using c(2) by (auto simp: stepped_def)
    then have "hit_ok live ar (Some (ar, c, Point 0 0))" by (rule hit_okI)
    then show ?thesis using c(1) False f(1) by (simp add: StairyPerfect_def)
  qed
qed

text \<open>The adapter, first on an edge that steps up.\<close>

lemma stairy_shrink_ok:
  assumes "stock primes live ar" "ranging rng" "0 < x1" "x1 < 100" "0 \<le> y" "y < 100" "0 < x2" "x2 < 100"
    and "length (permissive fs) = 3"
  shows "\<exists>c. (if dir = westw
        then if wideGapMin * SmallestDesirableWidth ar \<le> x1
             then map_option snd (ByStairyEdge rng flt ar fs (dyn_stair ar x1) y (stat_stair x2)
               (dyn_stair ar x1 - narrowestStair) westw shrink)
             else Some None
        else if wideGapMin * SmallestDesirableWidth ar \<le> x2
             then map_option snd (ByStairyEdge rng flt ar fs (stat_stair x1) y (dyn_stair ar x2)
               (dyn_stair ar x2 - narrowestStair) eastw shrink)
             else Some None) = Some c \<and> (\<forall>a. c = Some a \<longrightarrow> stepped live a)"
proof -
  have w: ?thesis if d: "dir = westw" and g: "wideGapMin * SmallestDesirableWidth ar \<le> x1"
  proof -
    have "\<exists>bs c. ByStairyEdge rng flt ar fs (dyn_stair ar x1) y (stat_stair x2)
        (dyn_stair ar x1 - narrowestStair) westw shrink = Some (bs, c) \<and> (\<forall>a. c = Some a \<longrightarrow> stepped live a)"
      using stairs[OF assms(1) g assms(4)] stat_stair[OF assms(7,8)] assms
      by (intro ByStairyEdge_ok[OF assms(1,2)]) (auto simp: narrowestStair_def shrinkable_def)
    then show ?thesis using d g by auto
  qed
  have e: ?thesis if d: "dir \<noteq> westw" and g: "wideGapMin * SmallestDesirableWidth ar \<le> x2"
  proof -
    have "\<exists>bs c. ByStairyEdge rng flt ar fs (stat_stair x1) y (dyn_stair ar x2)
        (dyn_stair ar x2 - narrowestStair) eastw shrink = Some (bs, c) \<and> (\<forall>a. c = Some a \<longrightarrow> stepped live a)"
      using stairs[OF assms(1) g assms(8)] stat_stair[OF assms(3,4)] assms
      by (intro ByStairyEdge_ok[OF assms(1,2)]) (auto simp: narrowestStair_def shrinkable_def)
    then show ?thesis using d g by auto
  qed
  show ?thesis using w e by (cases "dir = westw") auto
qed

lemma Adapter_ok:
  assumes "stock primes live ar" "ranging rng" "room fs"
  shows "\<exists>c p. AdapterStepdownAndDirection rng flt ar fs dir = Some (c, p) \<and> (\<forall>a. c = Some a \<longrightarrow> choice live a)"
proof -
  obtain a y b where f: "xyx fs = [a, y, b]" "0 < a" "a < 100" "\<bar>y\<bar> < 100" "0 < b" "b < 100" "length (permissive fs) = 3"
    using assms(3) by (auto simp: room_def)
  have edge: "\<exists>p. (case c of None \<Rightarrow> Some (None, Point 0 0)
      | Some am \<Rightarrow> do { e0 \<leftarrow> slice_get (Edge am) 0; Some (Some am, Point (a - e0) 0) }) = Some (c, p)"
    if "\<forall>am. c = Some am \<longrightarrow> length (Edge am) = 3" for c
    using that by (cases c) (auto simp: slice_get_def)
  show ?thesis
  proof (cases "y < 0")
    case True
    note ok = stairy_shrink_ok[OF assms(1,2) f(5,6) _ _ f(2,3,7), of "- y" "SwitchHoriz dir"]
    obtain c where c: "(if SwitchHoriz dir = westw
        then if wideGapMin * SmallestDesirableWidth ar \<le> b
             then map_option snd (ByStairyEdge rng flt ar fs (dyn_stair ar b) (- y) (stat_stair a)
               (dyn_stair ar b - narrowestStair) westw shrink)
             else Some None
        else if wideGapMin * SmallestDesirableWidth ar \<le> a
             then map_option snd (ByStairyEdge rng flt ar fs (stat_stair b) (- y) (dyn_stair ar a)
               (dyn_stair ar a - narrowestStair) eastw shrink)
             else Some None) = Some c" "\<forall>a. c = Some a \<longrightarrow> stepped live a"
      using ok True f(4) by auto
    let ?c = "map_option ReverseEdge c"
    have "\<forall>am. ?c = Some am \<longrightarrow> length (Edge am) = 3 \<and> choice live am"
      using c(2) ReverseEdge_choice stepped_reverse by auto
    then show ?thesis using edge[of ?c] True f(1)
      by (auto simp: AdapterStepdownAndDirection_def c(1))
  next
    case False
    note ok = stairy_shrink_ok[OF assms(1,2) f(2,3) _ _ f(5,6,7), of y dir]
    obtain c where c: "(if dir = westw
        then if wideGapMin * SmallestDesirableWidth ar \<le> a
             then map_option snd (ByStairyEdge rng flt ar fs (dyn_stair ar a) y (stat_stair b)
               (dyn_stair ar a - narrowestStair) westw shrink)
             else Some None
        else if wideGapMin * SmallestDesirableWidth ar \<le> b
             then map_option snd (ByStairyEdge rng flt ar fs (stat_stair a) y (dyn_stair ar b)
               (dyn_stair ar b - narrowestStair) eastw shrink)
             else Some None) = Some c" "\<forall>a. c = Some a \<longrightarrow> stepped live a"
      using ok False f(4) by auto
    have "\<forall>am. c = Some am \<longrightarrow> length (Edge am) = 3 \<and> choice live am"
      using c(2) by (auto simp: stepped_def)
    then show ?thesis using edge[of c] False f(1)
      by (auto simp: AdapterStepdownAndDirection_def c(1))
  qed
qed

lemma or_else_ok:
  assumes "\<exists>c p. r1 = Some (c, p) \<and> (\<forall>a. c = Some a \<longrightarrow> choice live a)"
    and "\<exists>c p. r2 = Some (c, p) \<and> (\<forall>a. c = Some a \<longrightarrow> choice live a)"
  shows "\<exists>c p. or_else r1 r2 = Some (c, p) \<and> (\<forall>a. c = Some a \<longrightarrow> choice live a)"
proof -
  obtain c p where "r1 = Some (c, p)" "\<forall>a. c = Some a \<longrightarrow> choice live a" using assms(1) by blast
  then show ?thesis using assms(2) by (cases c) (auto simp: or_else_def)
qed

lemma StairyShrinky_ok:
  assumes "stock primes live ar" "ranging rng" "room fs"
  shows "hit_ok live ar (StairyShrinky rng flt ar fs)"
proof -
  note ok = Adapter_ok[OF assms]
  obtain a y b where f: "xyx fs = [a, y, b]" using assms(3) by (auto simp: room_def)
  have "\<exists>c p. StairyShrinky rng flt ar fs = Some (ar, c, p) \<and> (\<forall>a. c = Some a \<longrightarrow> choice live a)"
    using ok[of eastw] or_else_ok[OF ok[of eastw] ok[of westw]] or_else_ok[OF ok[of westw] ok[of eastw]] f
    by (cases "curveDesc fs") (auto simp: StairyShrinky_def)
  then show ?thesis using hit_okI by auto
qed

lemma StraightPerfect_ok:
  assumes "stock primes live ar" "ranging rng" "room fs"
  shows "hit_ok live ar (StraightPerfect rng flt ar fs)"
proof -
  obtain a y b where f: "xyx fs = [a, y, b]" "0 < a" "0 < b" "length (permissive fs) = 3"
    using assms(3) by (auto simp: room_def)
  have "\<exists>c p. StraightPerfect rng flt ar fs = Some (ar, c, p) \<and> (\<forall>a. c = Some a \<longrightarrow> choice live a)"
    using exactStraightEdge_ok[OF assms(1,2) f(2,4)] exactStraightEdge_ok[OF assms(1,2) f(3,4)] f(1)
    by (auto simp: StraightPerfect_def easterFlank_def)
  then show ?thesis using hit_okI by auto
qed

lemma StraightShrinky_ok:
  assumes "stock primes live ar" "ranging rng" "room fs"
  shows "hit_ok live ar (StraightShrinky rng flt ar fs)"
proof -
  obtain a y b where f: "xyx fs = [a, y, b]" "length (permissive fs) = 3"
    using assms(3) by (auto simp: room_def)
  have "0 < SmallestDesirableWidth ar" using assms(1) by (auto simp: stock_def)
  then have "\<exists>c. shrink_loop rng flt ar fs (rev [SmallestDesirableWidth ar..x - SmallestDesirableWidth ar]) = Some c \<and>
      (\<forall>a. c = Some a \<longrightarrow> choice live a)" for x
    by (intro shrink_loop_ok[OF assms(1,2) f(2)]) auto
  then have "\<exists>c p. StraightShrinky rng flt ar fs = Some (ar, c, p) \<and> (\<forall>a. c = Some a \<longrightarrow> choice live a)"
    using f(1) by (auto simp: StraightShrinky_def easterFlank_def Let_def)
  then show ?thesis using hit_okI by auto
qed

end

lemma more_loop_ok:
  assumes "stock primes live ar" "ranging rng"
  shows "\<exists>r. more_loop rng ar mn is = Some r \<and> (\<forall>k. r = Some k \<longrightarrow> k \<in> dom live)"
proof (induction "is")
  case (Cons i "is")
  let ?v = "visited rng (MElements ar) (mn + i)"
  have v: "set ?v \<subseteq> dom live" by (rule visited_live(1)[OF assms])
  show ?case
  proof (cases ?v)
    case Nil
    then show ?thesis using Cons.IH by (auto simp: visited_def split: option.splits)
  next
    case (Cons k ks)
    then obtain n where n: "live k = Some n" using v by auto
    have "more_loop rng ar mn (i # is) = Some (Some k)"
      using Cons stock_get[OF assms(1) n] by (auto simp: visited_def split: option.splits)
    with n show ?thesis by auto
  qed
qed simp

lemma back_loop_ok:
  assumes "stock primes live ar" "ranging rng"
  shows "\<exists>r. back_loop rng ar x1 is = Some r \<and> (\<forall>k. r = Some k \<longrightarrow> k \<in> dom live)"
proof (induction "is")
  case (Cons i "is")
  obtain r where r: "moreThanXElements rng ar (x1 * minPossibleHeight - i) = Some r"
    "\<forall>k. r = Some k \<longrightarrow> k \<in> dom live"
    using more_loop_ok[OF assms] unfolding moreThanXElements_def by blast
  then show ?case using Cons by (cases r) auto
qed simp

lemma pad_to_choice:
  assumes "stock primes live ar" "live k = Some n" "0 < x1"
  shows "\<exists>am. pad_to x1 (Amorphs ar ! nat k) = Some am \<and> choice live am \<and> IdxArticle am = k"
proof -
  let ?am = "Amorphs ar ! nat k"
  have am: "NElements ?am = n" "IdxArticle ?am = k" "Padded ?am = 0" "Edge ?am = []" "0 < n"
    using stock_live[OF assms(1,2)] by (auto simp: pristine_def)
  obtain rows slack where os: "OtherSide n x1 = Some (rows, slack)"
    using assms(3) by (auto simp: OtherSide_def Let_def)
  note OtherSide_slack[OF am(5) assms(3) os]
  then show ?thesis using am os assms(2,3)
    by (auto simp: pad_to_def Let_def choice_def suits_def)
qed

lemma ByNumElementsWrap_ok:
  assumes "stock primes live ar" "ranging rng" "room fs"
  shows "hit_ok live ar (ByNumElementsWrap rng ar fs)"
proof -
  obtain a y b where f: "xyx fs = [a, y, b]" "0 < a" "0 < b" using assms(3) by (auto simp: room_def)
  define x0 where "x0 = (if y < 0 then b else a)"
  define x1 where "x1 = (if wideGapCap * SmallestDesirableWidth ar < x0 then SmallestDesirableWidth ar else x0)"
  have x1: "0 < x1" using f assms(1) by (auto simp: x1_def x0_def stock_def)
  obtain r0 where r0: "moreThanXElements rng ar (x1 * SmallestDesirableHeight ar) = Some r0"
    "\<forall>k. r0 = Some k \<longrightarrow> k \<in> dom live"
    using more_loop_ok[OF assms(1,2)] unfolding moreThanXElements_def by blast
  obtain r where r: "(if r0 = None then back_loop rng ar x1 [0..x1 - 1] else Some r0) = Some r"
    "\<forall>k. r = Some k \<longrightarrow> k \<in> dom live"
    using back_loop_ok[OF assms(1,2), of x1 "[0..x1 - 1]"] r0(2) by (cases "r0 = None") auto
  define shift where "shift = (if y < 0 then Point a 0 else Point 0 0)"
  have run: "ByNumElementsWrap rng ar fs = (case r of None \<Rightarrow> Some (ar, None, shift)
      | Some k \<Rightarrow> do { am \<leftarrow> slice_get (Amorphs ar) k; am \<leftarrow> pad_to x1 am;
          ams \<leftarrow> slice_set (Amorphs ar) k am; Some (ar\<lparr>Amorphs := ams\<rparr>, Some am, shift) })"
  proof -
    have ef: "easterFlank a y b (Point 0 0) = (x0, y, if y < 0 then a else b, shift)"
      by (simp add: easterFlank_def x0_def shift_def)
    show ?thesis
      by (simp only: ByNumElementsWrap_def f(1) slice_get_three Option.bind.simps Let_def split_conv ef
        x1_def[symmetric] r0(1) r(1))
  qed
  show ?thesis
  proof (cases r)
    case None
    then show ?thesis using run by (auto simp: hit_ok_def)
  next
    case (Some k)
    then obtain n where n: "live k = Some n" using r(2) by auto
    obtain am where am: "pad_to x1 (Amorphs ar ! nat k) = Some am" "choice live am" "IdxArticle am = k"
      using pad_to_choice[OF assms(1) n x1] by blast
    have k: "0 \<le> k" "nat k < length (Amorphs ar)" using stock_live[OF assms(1) n] by (auto simp: pristine_def)
    have "slice_set (Amorphs ar) k am = Some ((Amorphs ar)[nat k := am])"
      using k by (simp add: slice_set_def nat_less_iff)
    then have "ByNumElementsWrap rng ar fs = Some (ar\<lparr>Amorphs := (Amorphs ar)[nat k := am]\<rparr>, Some am, shift)"
      using run Some stock_get[OF assms(1) n] am(1) by simp
    moreover have "touched k ar (ar\<lparr>Amorphs := (Amorphs ar)[nat k := am]\<rparr>)"
      unfolding touched_def by (rule exI[of _ "(Amorphs ar)[nat k := am]"]) auto
    ultimately show ?thesis using am by (simp add: hit_ok_def)
  qed
qed

subsection \<open>Placing one article\<close>

lemma RemoveSpentEdges_gaps:
  "RemoveSpentEdges primes ar am = Some ar' \<Longrightarrow>
    SmallestDesirableWidth ar' = SmallestDesirableWidth ar \<and> SmallestDesirableHeight ar' = SmallestDesirableHeight ar"
  by (auto simp: RemoveSpentEdges_def PermutateShapes_eq[OF refl])

lemma taken_out_of_stock:
  assumes s: "stock primes live ar" and l: "live (IdxArticle am) = Some (NElements am - Padded am)"
    and t: "touched (IdxArticle am) ar ar1"
  shows "\<exists>ar'. RemoveSpentEdges primes ar1 am = Some ar' \<and> stock primes (live(IdxArticle am := None)) ar'"
proof -
  obtain ams where ams: "ar1 = ar\<lparr>Amorphs := ams\<rparr>" "length ams = length (Amorphs ar)"
    "\<forall>k. k \<noteq> nat (IdxArticle am) \<longrightarrow> ams ! k = Amorphs ar ! k" using t by (auto simp: touched_def)
  let ?n = "NElements am - Padded am"
  have r1: "reps primes live ar1" using s ams(1) by (simp add: stock_def reps_def)
  have "shape_plugs primes ?n \<noteq> None" using s l by (auto simp: stock_def)
  from RemoveSpentEdges_reps[OF r1 refl disjI1[OF l] this] obtain ar' where
    ar': "RemoveSpentEdges primes ar1 am = Some ar'" "reps primes (live(IdxArticle am := None)) ar'"
      "Amorphs ar' = ams" using ams(1) by auto
  have "pristine ar' j n" if j: "live j = Some n" "j \<noteq> IdxArticle am" for j n
  proof -
    have p: "pristine ar j n" and q: "0 \<le> IdxArticle am"
      using stock_live[OF s j(1)] stock_live[OF s l] by (auto simp: pristine_def)
    then have "nat j \<noteq> nat (IdxArticle am)" using j(2) by (simp add: pristine_def eq_nat_nat_iff)
    then show ?thesis using p ams(2,3) ar'(3) by (simp add: pristine_def)
  qed
  then have "stock primes (live(IdxArticle am := None)) ar'"
    using s ar'(2) RemoveSpentEdges_gaps[OF ar'(1)] ams(1) by (auto simp: stock_def)
  with ar'(1) show ?thesis by blast
qed

context filterer
begin

lemma try_heuristics_ok:
  assumes "stock primes live ar" "ranging rng" "room f"
  shows "\<exists>ar' r. try_heuristics (enumerate 0 (Heuristics rng flt)) ar f = Some (ar', r) \<and>
    (case r of None \<Rightarrow> ar' = ar | Some (am, p) \<Rightarrow> choice live am \<and> touched (IdxArticle am) ar ar')"
proof -
  have step: "\<exists>ar' r. try_heuristics hs ar f = Some (ar', r) \<and>
      (case r of None \<Rightarrow> ar' = ar | Some (am, p) \<Rightarrow> choice live am \<and> touched (IdxArticle am) ar ar')"
    if "\<forall>(i, h)\<in>set hs. hit_ok live ar (h ar f)" for hs
    using that
  proof (induction hs)
    case (Cons ih hs)
    obtain i h where ih: "ih = (i, h)" by fastforce
    then obtain ar' c p where h: "h ar f = Some (ar', c, p)"
      "case c of None \<Rightarrow> ar' = ar | Some am \<Rightarrow> choice live am \<and> touched (IdxArticle am) ar ar'"
      using Cons.prems by (auto simp: hit_ok_def)
    then show ?case using Cons ih
      by (cases c) (auto simp: restrictHeuristicsByIndex_def)
  qed simp
  show ?thesis
    by (rule step) (auto simp: Heuristics_def enumerate_eq_zip StairyPerfect_ok[OF assms] StairyShrinky_ok[OF assms]
      StraightPerfect_ok[OF assms] StraightShrinky_ok[OF assms] ByNumElementsWrap_ok[OF assms])
qed

lemma try_fusions_ok:
  assumes m: "mx_ok m" and s: "stock primes live ar" and g: "ranging rng"
  shows "\<forall>f\<in>set fs. room f \<Longrightarrow> \<exists>h0 h1 m' spent' ar'.
    try_fusions rng flt primes fs n0 (m, spent, ar) = Some ((h0, h1), m', spent', ar') \<and>
    (h1 = 0 \<and> (m', spent', ar') = (m, spent, ar) \<or>
     h1 = 1 \<and> (\<exists>am base. choice live am \<and> CastStitch m spent base am = Some (m', spent') \<and>
       stock primes (live(IdxArticle am := None)) ar'))"
proof (induction fs arbitrary: n0)
  case (Cons f fs)
  obtain ar1 r where t: "try_heuristics (enumerate 0 (Heuristics rng flt)) ar f = Some (ar1, r)"
    "case r of None \<Rightarrow> ar1 = ar | Some (am, p) \<Rightarrow> choice live am \<and> touched (IdxArticle am) ar ar1"
    using try_heuristics_ok[OF s g, of f] Cons.prems by auto
  show ?case
  proof (cases r)
    case None
    then show ?thesis using t Cons by simp
  next
    case (Some amp)
    obtain am p where amp: "amp = (am, p)" by fastforce
    have c: "choice live am" "touched (IdxArticle am) ar ar1" using t(2) Some amp by auto
    obtain ar' where ar': "RemoveSpentEdges primes ar1 am = Some ar'" "stock primes (live(IdxArticle am := None)) ar'"
      using taken_out_of_stock[OF s _ c(2)] c(1) by (auto simp: choice_def)
    let ?base = "Point (px (base_pt f) + px p) (py (base_pt f) + py p - Rows am)"
    obtain m' spent' where cs: "CastStitch m spent ?base am = Some (m', spent')"
      using CastStitch_painted[OF m] by blast
    then have "try_fusions rng flt primes (f # fs) n0 (m, spent, ar) = Some ((n0 + 1, 1), m', spent', ar')"
      using t(1) Some amp ar'(1) by (simp add: SetAmorphSnapRightwise_def)
    with c(1) cs ar'(2) show ?thesis by blast
  qed
qed simp

end

subsection \<open>Articles are neither lost nor placed twice\<close>

text \<open>Without any assumption on the lengths of the fusion: whatever a finder returns is one of the
  live articles, with its area.\<close>

definition takes :: "(int \<rightharpoonup> int) \<Rightarrow> amorph \<Rightarrow> bool" where
  "takes live am \<longleftrightarrow> live (IdxArticle am) = Some (NElements am - Padded am)"

lemma pristine_takes: "pristine ar k n \<Longrightarrow> live k = Some n \<Longrightarrow> takes live (Amorphs ar ! nat k)"
  by (simp add: pristine_def takes_def)

lemma slice_get_takes:
  assumes "stock primes live ar" "k \<in> dom live" "slice_get (Amorphs ar) k = Some lp"
  shows "takes live lp" "IdxArticle lp = k" "Padded lp = 0"
proof -
  obtain n where n: "live k = Some n" using assms(2) by auto
  then have "pristine ar k n" using stock_live[OF assms(1)] by blast
  with n stock_get[OF assms(1) n] assms(3) show "takes live lp" "IdxArticle lp = k" "Padded lp = 0"
    by (auto simp: pristine_takes pristine_def)
qed

lemma takes_update [simp]:
  "takes live (am\<lparr>Cols := c\<rparr>) = takes live am" "takes live (am\<lparr>Rows := r\<rparr>) = takes live am"
  "takes live (am\<lparr>Slack := s\<rparr>) = takes live am" "takes live (am\<lparr>Edge := e\<rparr>) = takes live am"
  by (simp_all add: takes_def)

lemma straight_batch_takes:
  assumes "stock primes live ar"
  shows "set ks \<subseteq> dom live \<Longrightarrow> straight_batch ar x1 ks = Some b \<Longrightarrow> a \<in> set b \<Longrightarrow> takes live a"
proof (induction ks arbitrary: b)
  case (Cons k ks)
  obtain lp rows slack rest where r: "slice_get (Amorphs ar) k = Some lp" "straight_batch ar x1 ks = Some rest"
    "b = lp\<lparr>Cols := x1, Rows := rows, Slack := slack, Edge := []\<rparr> # rest"
    using Cons.prems(2) by auto
  have "k \<in> dom live" using Cons.prems(1) by auto
  from slice_get_takes(1)[OF assms this r(1)] Cons.IH[OF _ r(2)] Cons.prems(1,3) r(3) show ?case by auto
qed simp

lemma straight_loop_takes:
  assumes "stock primes live ar" "ranging rng"
  shows "straight_loop rng ar x1 mh is = Some bs \<Longrightarrow> a \<in> set (concat bs) \<Longrightarrow> takes live a"
proof (induction "is" arbitrary: bs)
  case (Cons i "is")
  obtain b rest where b: "(case EdgesSlackless ar (Enc x1 (mh + i) 0) of None \<Rightarrow> Some []
      | Some mp \<Rightarrow> straight_batch ar x1 (rng mp)) = Some b"
    and rest: "straight_loop rng ar x1 mh is = Some rest" "bs = b # rest"
    using Cons.prems(1) by auto
  have "a \<in> set b \<Longrightarrow> takes live a"
    using b straight_batch_takes[OF assms(1) visited_live(3)[OF assms, of "Enc x1 (mh + i) 0"]]
    by (auto simp: visited_def split: option.splits)
  with Cons rest show ?case by auto
qed simp

lemma blowup_takes: "blowup y x2 rounds lp = Some lp' \<Longrightarrow> takes live lp' = takes live lp"
proof (induction y x2 rounds lp rule: blowup.induct)
  case (1 y x2 rounds lp)
  show ?case
  proof (cases "Rows lp \<le> \<bar>y\<bar> \<or> Slack lp < \<bar>x2 * y\<bar>")
    case True
    then show ?thesis using 1 by (subst (asm) blowup.simps) (auto simp: Let_def split: if_splits)
  qed (use 1 in \<open>simp add: blowup.simps\<close>)
qed

lemma stairy_batch_takes:
  assumes "stock primes live ar"
  shows "set ks \<subseteq> dom live \<Longrightarrow> \<forall>a\<in>set ams. takes live a \<Longrightarrow> stairy_batch ar x1 y x2 limit ks ams = Some b \<Longrightarrow>
    a \<in> set b \<Longrightarrow> takes live a"
proof (induction ks arbitrary: ams)
  case (Cons k ks)
  obtain lp rows slack lp' where r: "slice_get (Amorphs ar) k = Some lp"
    "blowup y x2 0 (lp\<lparr>Cols := x1 + x2, Rows := rows, Slack := slack\<rparr>) = Some lp'"
    and res: "(if limit \<le> int (length (ams @ [lp'\<lparr>Edge := [x1, y, x2]\<rparr>])) then Some (ams @ [lp'\<lparr>Edge := [x1, y, x2]\<rparr>])
      else stairy_batch ar x1 y x2 limit ks (ams @ [lp'\<lparr>Edge := [x1, y, x2]\<rparr>])) = Some b"
    using Cons.prems(3) by (auto simp: Let_def)
  have "k \<in> dom live" using Cons.prems(1) by auto
  from slice_get_takes(1)[OF assms this r(1)] blowup_takes[OF r(2), of live] Cons.prems(2)
  have new: "\<forall>a\<in>set (ams @ [lp'\<lparr>Edge := [x1, y, x2]\<rparr>]). takes live a" by auto
  show ?case
  proof (cases "limit \<le> int (length (ams @ [lp'\<lparr>Edge := [x1, y, x2]\<rparr>]))")
    case True
    with res new Cons.prems(4) show ?thesis by auto
  next
    case False
    then have "stairy_batch ar x1 y x2 limit ks (ams @ [lp'\<lparr>Edge := [x1, y, x2]\<rparr>]) = Some b" using res by argo
    from Cons.IH[OF _ new this Cons.prems(4)] Cons.prems(1) show ?thesis by simp
  qed
qed simp

lemma exactStairyEdge_takes:
  assumes "stock primes live ar" "ranging rng"
  shows "exactStairyEdge rng ar x1 y x2 limit = Some b \<Longrightarrow> a \<in> set b \<Longrightarrow> takes live a"
  using stairy_batch_takes[OF assms(1) visited_live(2)[OF assms, of "Enc x1 y x2"], of "[]"]
  by (auto simp: exactStairyEdge_def visited_def split: option.splits)

lemma vary_loop_takes:
  assumes "stock primes live ar" "ranging rng"
  shows "vary_loop rng ar x1 y x2 flank gs limit is cnt blocks = Some (bs, full) \<Longrightarrow>
    \<forall>a\<in>set (concat blocks). takes live a \<Longrightarrow> a \<in> set (concat bs) \<Longrightarrow> takes live a"
proof (induction "is" arbitrary: cnt blocks)
  case (Cons i "is")
  obtain m1 m2 where m: "(if gs = growShrink
        then do {
          m1 \<leftarrow> find_varied rng ar flank (i * offset_sign grow) x1 y x2 (limit - cnt);
          m2 \<leftarrow> find_varied rng ar flank (i * offset_sign shrink) x1 y x2 (limit - cnt);
          Some (m1, m2) }
        else map_option (\<lambda>m. (m, [])) (find_varied rng ar flank (i * offset_sign gs) x1 y x2 (limit - cnt))) = Some (m1, m2)"
    using Cons.prems(1) by fastforce
  have fv: "find_varied rng ar flank off x1 y x2 lim = Some m \<Longrightarrow> a \<in> set m \<Longrightarrow> takes live a" for off lim m a
    using exactStairyEdge_takes[OF assms] by (auto simp: find_varied_def split: prod.splits)
  have mm: "\<forall>a\<in>set m1 \<union> set m2. takes live a" using m fv by (auto split: if_splits)
  define bl where "bl = (let bl = (if 0 < length m1 then blocks @ [m1] else blocks)
    in if 0 < length m2 then bl @ [m2] else bl)"
  have bl: "\<forall>a\<in>set (concat bl). takes live a" using mm Cons.prems(2) by (auto simp: bl_def Let_def)
  have "(if limit \<le> cnt + int (length m1) + int (length m2) then Some (bl, True)
      else vary_loop rng ar x1 y x2 flank gs limit is (cnt + int (length m1) + int (length m2)) bl) = Some (bs, full)"
    using Cons.prems(1) unfolding bl_def by (simp only: vary_loop.simps m Option.bind.simps Let_def split_conv)
  then show ?case using Cons.IH[OF _ bl] bl Cons.prems(3) by (auto split: if_splits simp del: set_concat)
qed auto

lemma ReverseEdge_takes [simp]: "takes live (ReverseEdge am) = takes live am"
  by (simp add: ReverseEdge_def)

definition found :: "(int \<rightharpoonup> int) \<Rightarrow> reservoir \<Rightarrow> hit \<Rightarrow> bool" where
  "found live ar = (\<lambda>(ar', c, p).
     case c of None \<Rightarrow> ar' = ar | Some am \<Rightarrow> takes live am \<and> touched (IdxArticle am) ar ar')"

lemma foundI: "\<forall>a. c = Some a \<longrightarrow> takes live a \<Longrightarrow> found live ar (ar, c, p)"
  by (auto simp: found_def touched_refl split: option.splits)

context filterer
begin

lemma ByStairyEdge_takes:
  assumes "stock primes live ar" "ranging rng"
  shows "ByStairyEdge rng flt ar fs x1 y x2 v flank gs = Some (bs, Some a) \<Longrightarrow> takes live a"
proof -
  assume r: "ByStairyEdge rng flt ar fs x1 y x2 v flank gs = Some (bs, Some a)"
  then obtain b where b: "exactStairyEdge rng ar x1 y x2 stairy_limit = Some b"
    by (auto simp: ByStairyEdge_def split: if_splits)
  have fb: "\<forall>a\<in>set (concat [b]). takes live a" using exactStairyEdge_takes[OF assms b] by simp
  obtain blocks full where bl: "(if int (length b) < stairy_limit \<and> v \<noteq> 0
        then vary_loop rng ar x1 y x2 flank gs stairy_limit [1..v] (int (length b)) [b]
        else Some ([b], False)) = Some (blocks, full)"
    and c: "(if full then Some (blocks, None) else do { chosen \<leftarrow> flt blocks fs; Some (blocks, chosen) }) = Some (bs, Some a)"
    using r b unfolding ByStairyEdge_def Let_def by (auto split: if_splits)
  have "flt blocks fs = Some (Some a)" using c by (auto split: if_splits)
  then have "a \<in> set (concat blocks)" by (rule from_blocks)
  moreover have "\<forall>a\<in>set (concat blocks). takes live a"
    using bl fb vary_loop_takes[OF assms _ fb] by (auto split: if_splits simp del: set_concat)
  ultimately show ?thesis by blast
qed

lemma exactStraightEdge_takes:
  assumes "stock primes live ar" "ranging rng"
  shows "exactStraightEdge rng flt ar fs x1 = Some (bs, Some a) \<Longrightarrow> takes live a"
  using from_blocks straight_loop_takes[OF assms]
  by (auto simp: exactStraightEdge_def Let_def simp del: set_concat)

lemma Adapter_takes:
  assumes "stock primes live ar" "ranging rng"
  shows "AdapterStepdownAndDirection rng flt ar fs dir = Some (Some a, p) \<Longrightarrow> takes live a"
proof -
  assume r: "AdapterStepdownAndDirection rng flt ar fs dir = Some (Some a, p)"
  have bs: "map_option snd (ByStairyEdge rng flt ar fs x1 y x2 v flank gs) = Some (Some am) \<Longrightarrow> takes live am"
    for x1 y x2 v flank gs am
    using ByStairyEdge_takes[OF assms] by (cases "ByStairyEdge rng flt ar fs x1 y x2 v flank gs") auto
  define pick where "pick x1 y x2 dir = (if dir = westw
        then if wideGapMin * SmallestDesirableWidth ar \<le> x1
             then map_option snd (ByStairyEdge rng flt ar fs (dyn_stair ar x1) y (stat_stair x2)
               (dyn_stair ar x1 - narrowestStair) westw shrink)
             else Some None
        else if wideGapMin * SmallestDesirableWidth ar \<le> x2
             then map_option snd (ByStairyEdge rng flt ar fs (stat_stair x1) y (dyn_stair ar x2)
               (dyn_stair ar x2 - narrowestStair) eastw shrink)
             else Some None)" for x1 y x2 dir
  have pt: "pick x1 y x2 dir = Some (Some am) \<Longrightarrow> takes live am" for x1 y x2 dir am
    unfolding pick_def using bs by (auto split: if_splits simp del: map_option_eq_Some)
  obtain x1 y x2 where x: "slice_get (xyx fs) 0 = Some x1" "slice_get (xyx fs) 1 = Some y" "slice_get (xyx fs) 2 = Some x2"
    using r by (auto simp: AdapterStepdownAndDirection_def)
  obtain c where c: "(if y < 0 then pick x2 (- y) x1 (SwitchHoriz dir) else pick x1 y x2 dir) = Some c"
    "(if y < 0 then map_option ReverseEdge c else c) = Some a"
    using r x unfolding AdapterStepdownAndDirection_def pick_def[symmetric] Let_def
    by (cases "y < 0") (auto simp: split_beta split: option.splits simp del: map_option_eq_Some)
  then show ?thesis using pt by (cases "y < 0") auto
qed

lemma StairyPerfect_found:
  assumes "stock primes live ar" "ranging rng" "StairyPerfect rng flt ar fs = Some r"
  shows "found live ar r"
proof -
  obtain x1 y x2 where x: "slice_get (xyx fs) 0 = Some x1" "slice_get (xyx fs) 1 = Some y" "slice_get (xyx fs) 2 = Some x2"
    using assms(3) by (auto simp: StairyPerfect_def)
  show ?thesis
    using assms(3) x ByStairyEdge_takes[OF assms(1,2)] unfolding StairyPerfect_def Let_def
    by (cases "y < 0") (auto intro!: foundI)
qed

lemma StairyShrinky_found:
  assumes "stock primes live ar" "ranging rng" "StairyShrinky rng flt ar fs = Some r"
  shows "found live ar r"
proof -
  have oe: "or_else (AdapterStepdownAndDirection rng flt ar fs d) (AdapterStepdownAndDirection rng flt ar fs d') =
      Some (Some a, p) \<Longrightarrow> takes live a" for d d' a p
    using Adapter_takes[OF assms(1,2)] by (auto simp: or_else_def split: if_splits)
  obtain c p where r: "r = (ar, c, p)" using assms(3) by (auto simp: StairyShrinky_def)
  have "c = Some a \<Longrightarrow> takes live a" for a
    using assms(3) r oe Adapter_takes[OF assms(1,2)]
    by (cases "curveDesc fs") (auto simp: StairyShrinky_def split: if_splits)
  then show ?thesis using r foundI by blast
qed

lemma StraightPerfect_found:
  assumes "stock primes live ar" "ranging rng" "StraightPerfect rng flt ar fs = Some r"
  shows "found live ar r"
proof -
  obtain x1 bs c p where "r = (ar, c, p)" "exactStraightEdge rng flt ar fs x1 = Some (bs, c)"
    using assms(3) by (auto simp: StraightPerfect_def split_beta)
  then show ?thesis using exactStraightEdge_takes[OF assms(1,2)] by (auto intro!: foundI)
qed

lemma shrink_loop_takes:
  assumes "stock primes live ar" "ranging rng"
  shows "shrink_loop rng flt ar fs is = Some (Some a) \<Longrightarrow> takes live a"
  by (induction "is") (auto split: if_splits dest: exactStraightEdge_takes[OF assms])

lemma StraightShrinky_found:
  assumes "stock primes live ar" "ranging rng" "StraightShrinky rng flt ar fs = Some r"
  shows "found live ar r"
proof -
  obtain c p where r: "r = (ar, c, p)" "c = None \<or> (\<exists>is. shrink_loop rng flt ar fs is = Some c)"
    using assms(3) unfolding StraightShrinky_def Let_def by (auto simp: split_beta split: if_splits)
  then show ?thesis using shrink_loop_takes[OF assms(1,2)] by (auto intro!: foundI)
qed

end

lemma ByNumElementsWrap_found:
  assumes "stock primes live ar" "ranging rng" "ByNumElementsWrap rng ar fs = Some r"
  shows "found live ar r"
proof -
  obtain a y b where x: "slice_get (xyx fs) 0 = Some a" "slice_get (xyx fs) 1 = Some y" "slice_get (xyx fs) 2 = Some b"
    using assms(3) by (auto simp: ByNumElementsWrap_def)
  obtain x0 y0 z0 shift where ef: "easterFlank a y b (Point 0 0) = (x0, y0, z0, shift)" by (metis prod.exhaust)
  define x1 where "x1 = (if wideGapCap * SmallestDesirableWidth ar < x0 then SmallestDesirableWidth ar else x0)"
  have "do { k0 \<leftarrow> moreThanXElements rng ar (x1 * SmallestDesirableHeight ar);
      k \<leftarrow> (if k0 = None then back_loop rng ar x1 [0..x1 - 1] else Some k0);
      case k of None \<Rightarrow> Some (ar, None, shift)
      | Some k \<Rightarrow> do { am \<leftarrow> slice_get (Amorphs ar) k; am \<leftarrow> pad_to x1 am;
          ams \<leftarrow> slice_set (Amorphs ar) k am; Some (ar\<lparr>Amorphs := ams\<rparr>, Some am, shift) } } = Some r"
    using assms(3) by (simp only: ByNumElementsWrap_def x Option.bind.simps Let_def split_conv ef x1_def[symmetric])
  then obtain k0 k where k0: "moreThanXElements rng ar (x1 * SmallestDesirableHeight ar) = Some k0"
    "(if k0 = None then back_loop rng ar x1 [0..x1 - 1] else Some k0) = Some k"
    and r: "(case k of None \<Rightarrow> Some (ar, None, shift)
      | Some k \<Rightarrow> do { am \<leftarrow> slice_get (Amorphs ar) k; am \<leftarrow> pad_to x1 am;
          ams \<leftarrow> slice_set (Amorphs ar) k am; Some (ar\<lparr>Amorphs := ams\<rparr>, Some am, shift) }) = Some r"
    by (elim bind_SomeE) blast
  have k: "(\<exists>mn. moreThanXElements rng ar mn = Some k) \<or> (\<exists>is. back_loop rng ar x1 is = Some k)"
    using k0 by (cases "k0 = None") auto
  show ?thesis
  proof (cases k)
    case None
    then show ?thesis using r by (auto simp: found_def)
  next
    case (Some j)
    have j: "j \<in> dom live"
    proof -
      have "moreThanXElements rng ar mn = Some (Some j) \<Longrightarrow> j \<in> dom live" for mn
        using more_loop_ok[OF assms(1,2), of mn "[0..cMaxDiff - 1]"] by (auto simp: moreThanXElements_def)
      moreover have "back_loop rng ar x1 is = Some (Some j) \<Longrightarrow> j \<in> dom live" for "is"
        using back_loop_ok[OF assms(1,2), of x1 "is"] by auto
      ultimately show ?thesis using k Some by blast
    qed
    obtain am am' ams where am: "slice_get (Amorphs ar) j = Some am" "pad_to x1 am = Some am'"
      "slice_set (Amorphs ar) j am' = Some ams" "r = (ar\<lparr>Amorphs := ams\<rparr>, Some am', shift)"
      using r Some by auto
    note t = slice_get_takes[OF assms(1) j am(1)]
    have t': "takes live am'" "IdxArticle am' = j"
      using am(2) t by (auto simp: pad_to_def takes_def Let_def split: if_splits)
    have "ams = (Amorphs ar)[nat j := am']" using am(3) by (auto simp: slice_set_def split: if_splits)
    then have "touched j ar (ar\<lparr>Amorphs := ams\<rparr>)" by (auto simp: touched_def intro!: exI[of _ ams])
    with t' am(4) show ?thesis by (simp add: found_def)
  qed
qed

lemma CastStitch_spent: "CastStitch m spent base am = Some (m', spent') \<Longrightarrow> spent' = insert (IdxArticle am) spent"
  by (auto simp: CastStitch_def Let_def)

text \<open>One article less in stock, and one more on the board.\<close>

definition moved :: "bool list \<Rightarrow> (int \<rightharpoonup> int) \<Rightarrow> int set \<Rightarrow> board \<Rightarrow> bool" where
  "moved primes live spent = (\<lambda>(m, spent', ar).
     \<exists>j\<in>dom live. spent' = insert j spent \<and> stock primes (live(j := None)) ar)"

context filterer
begin

lemma try_heuristics_found:
  assumes "stock primes live ar" "ranging rng"
    and "try_heuristics (enumerate 0 (Heuristics rng flt)) ar f = Some (ar', r)"
  shows "case r of None \<Rightarrow> ar' = ar | Some (am, p) \<Rightarrow> takes live am \<and> touched (IdxArticle am) ar ar'"
proof -
  have step: "try_heuristics hs ar f = Some (ar', r) \<Longrightarrow> \<forall>(i, h)\<in>set hs. \<forall>r. h ar f = Some r \<longrightarrow> found live ar r \<Longrightarrow>
      case r of None \<Rightarrow> ar' = ar | Some (am, p) \<Rightarrow> takes live am \<and> touched (IdxArticle am) ar ar'" for hs
  proof (induction hs)
    case (Cons ih hs)
    obtain i h where ih: "ih = (i, h)" by fastforce
    then obtain ar1 c p where h: "h ar f = Some (ar1, c, p)" "found live ar (ar1, c, p)"
      and run: "(case c of None \<Rightarrow> try_heuristics hs ar1 f | Some am \<Rightarrow> Some (ar1, Some (am, p))) = Some (ar', r)"
      using Cons.prems by (auto simp: restrictHeuristicsByIndex_def)
    then show ?case using Cons ih by (cases c) (auto simp: found_def)
  qed simp
  show ?thesis
    by (rule step[OF assms(3)])
      (auto simp: Heuristics_def enumerate_eq_zip StairyPerfect_found[OF assms(1,2)] StairyShrinky_found[OF assms(1,2)]
        StraightPerfect_found[OF assms(1,2)] StraightShrinky_found[OF assms(1,2)] ByNumElementsWrap_found[OF assms(1,2)])
qed

lemma try_fusions_moved:
  assumes "stock primes live ar" "ranging rng"
  shows "try_fusions rng flt primes fs n0 (m, spent, ar) = Some (h, b) \<Longrightarrow>
    b = (m, spent, ar) \<or> moved primes live spent b"
proof (induction fs arbitrary: n0)
  case (Cons f fs)
  obtain ar1 r where t: "try_heuristics (enumerate 0 (Heuristics rng flt)) ar f = Some (ar1, r)"
    using Cons.prems by (auto simp del: bind_eq_Some_iff elim!: bind_SomeE)
  note tf = try_heuristics_found[OF assms t]
  show ?case
  proof (cases r)
    case None
    then show ?thesis using Cons t tf by simp
  next
    case (Some amp)
    obtain am p where amp: "amp = (am, p)" by fastforce
    have c: "takes live am" "touched (IdxArticle am) ar ar1" using tf Some amp by auto
    obtain ar2 where ar2: "RemoveSpentEdges primes ar1 am = Some ar2" "stock primes (live(IdxArticle am := None)) ar2"
      using taken_out_of_stock[OF assms(1) c(1)[unfolded takes_def] c(2)] by blast
    have "\<exists>base m' spent'. CastStitch m spent base am = Some (m', spent') \<and> b = (m', spent', ar2)"
      using Cons.prems t Some amp ar2(1) by (auto simp: SetAmorphSnapRightwise_def)
    then have "\<exists>m'. b = (m', insert (IdxArticle am) spent, ar2)" using CastStitch_spent by blast
    then show ?thesis using c(1) ar2(2) by (auto simp: moved_def takes_def)
  qed
qed auto

lemma HeuristicsApply_moved:
  assumes "stock primes live ar" "ranging rng"
    and "HeuristicsApply rng flt primes (m, spent, ar) = Some (h, err, b)"
  shows "b = (m, spent, ar) \<or> moved primes live spent b"
proof -
  obtain clns l e where c: "ConcavestLowestNarrowestSections m = Some (clns, l, e)"
    using assms(3) by (auto simp: HeuristicsApply_def simp del: bind_eq_Some_iff elim!: bind_SomeE)
  show ?thesis
  proof (cases "e = None \<and> MElements ar \<noteq> Map.empty")
    case False
    then show ?thesis using assms(3) c by (cases e) (auto simp: HeuristicsApply_def)
  next
    case True
    then obtain hits where "IterateFusedSections rng flt primes clns l (m, spent, ar) = Some (hits, err, b)"
      using assms(3) c by (auto simp: HeuristicsApply_def)
    note run = this
    show ?thesis
    proof (cases "FuseAllSections ar clns l")
      case (Some r)
      then show ?thesis using run try_fusions_moved[OF assms(1,2), of _ 0 m spent _ b]
        by (cases r) (auto simp: IterateFusedSections_def)
    qed (use run in \<open>simp add: IterateFusedSections_def\<close>)
  qed
qed

end

subsection \<open>Filling the matrix, call by call\<close>

text \<open>The states that a run of calls of \<open>HeuristicsApply\<close> reaches from a board.\<close>

inductive placing :: "visit \<Rightarrow> bool list \<Rightarrow> board \<Rightarrow> board \<Rightarrow> bool" for rng primes where
  at_start: "placing rng primes b b"
| after_call: "placing rng primes b b' \<Longrightarrow> HeuristicsApply rng ActiveFilter primes b' = Some (h, err, b'') \<Longrightarrow>
    placing rng primes b b''"

inductive_cases placingE: "placing rng primes b b''"
inductive_simps placing_last: "placing rng primes b b''"

lemma placing_stock:
  assumes "placing rng primes b b'" "ranging rng" "b = (m, {}, ar)" "stock primes live ar"
  shows "\<exists>m' spent' ar'. b' = (m', spent', ar') \<and> spent' \<subseteq> dom live \<and>
    stock primes (\<lambda>j. if j \<in> spent' then None else live j) ar'"
  using assms
proof induction
  case (at_start b)
  then show ?case by simp
next
  case (after_call b b' h err b'')
  then obtain m' spent' ar' where b': "b' = (m', spent', ar')" "spent' \<subseteq> dom live"
    "stock primes (\<lambda>j. if j \<in> spent' then None else live j) ar'" by blast
  let ?live = "\<lambda>j. if j \<in> spent' then None else live j"
  have "b'' = (m', spent', ar') \<or> moved primes ?live spent' b''"
    using af.HeuristicsApply_moved[OF b'(3) after_call.prems(1)] after_call.hyps(2) b'(1) by blast
  then show ?case
  proof
    assume "b'' = (m', spent', ar')"
    with b' show ?thesis by blast
  next
    assume "moved primes ?live spent' b''"
    then obtain m2 ar2 j where j: "b'' = (m2, insert j spent', ar2)" "j \<in> dom ?live" "stock primes (?live(j := None)) ar2"
      by (auto simp: moved_def)
    have eq: "?live(j := None) = (\<lambda>k. if k \<in> insert j spent' then None else live k)" by auto
    have "insert j spent' \<subseteq> dom live" using j(2) b'(2) by (auto split: if_splits)
    with j(1,3) show ?thesis unfolding eq by blast
  qed
qed

lemma map_Edge_update: "i < length ams \<Longrightarrow> Edge am = Edge (ams ! i) \<Longrightarrow> map Edge (ams[i := am]) = map Edge ams"
  by (metis list_update_id map_update)

lemma add_one_Edge:
  "add_one primes ar i = Some ar' \<Longrightarrow> map Edge (Amorphs ar') = map Edge (Amorphs ar)"
  unfolding add_one_def Let_def
  by (auto simp: PermutateShapes_eq[OF refl] map_Edge_update split: if_splits)

lemma add_loop_Edge: "add_loop primes is ar = Some ar' \<Longrightarrow> map Edge (Amorphs ar') = map Edge (Amorphs ar)"
  by (induction "is" arbitrary: ar) (auto dest: add_one_Edge)

lemma specific_amorphs_Edge: "specific_amorphs nums = Some ams \<Longrightarrow> \<forall>am\<in>set ams. Edge am = []"
  by (induction nums arbitrary: ams) (auto simp: amorph0_def Let_def)

lemma stock_filled:
  assumes "GenerateSpecificAmorphs primes NewReservoir nums = Some ar" "prime_table primes" "length primes \<le> 10000"
    and "\<forall>n\<in>set nums. 0 < n \<and> n \<le> 100"
  shows "stock primes (live_below nums (length nums)) ar"
proof -
  note filled = filled_reps[OF assms(1)]
  have f: "reps primes (live_below nums (length nums)) ar" "stocked nums (length nums) (Amorphs ar)"
    "\<forall>i<length nums. shape_plugs primes (nums ! i) \<noteq> None" using filled assms(4) by auto
  obtain ams ar1 where ams: "specific_amorphs nums = Some ams"
    and ar1: "add_loop primes [0..<length ams] (NewReservoir\<lparr>Amorphs := ams\<rparr>) = Some ar1" "ar = update_gaps ar1"
    using assms(1) by (auto simp: GenerateSpecificAmorphs_def AddAmorphs_def NewReservoir_def)
  have "map Edge (Amorphs ar) = map Edge ams"
    using add_loop_Edge[OF ar1(1)] ar1(2) by (simp add: update_gaps_def Let_def)
  then have "set (map Edge (Amorphs ar)) \<subseteq> {[]}" using specific_amorphs_Edge[OF ams] by auto
  then have e: "\<forall>am\<in>set (Amorphs ar). Edge am = []" by auto
  have g: "SmallestDesirableWidth ar \<in> {1, 2}" "SmallestDesirableHeight ar \<in> {1, 2}"
    using ar1(2) by (auto simp: update_gaps_def updateDesirableGap_def Let_def split_beta)
  have "pristine ar j n \<and> 0 < n \<and> n \<le> 100 \<and> shape_plugs primes n \<noteq> None"
    if "live_below nums (length nums) j = Some n" for j n
  proof -
    have j: "0 \<le> j" "nat j < length nums" "n = nums ! nat j"
      using that by (auto simp: live_below_def split: if_splits)
    moreover have "nat j < length (Amorphs ar)" using f(2) j by (simp add: stocked_def)
    ultimately show ?thesis
      using f(2,3) e assms(4) nth_mem[of "nat j" nums] by (auto simp: stocked_def pristine_def)
  qed
  with f g assms(2,3) show ?thesis by (simp add: stock_def)
qed

text \<open>exactStairyEdge finds, up to its limit and in the order in which the map is visited, exactly
  the live articles that can take the requested edge, each once; the loop that adds rows ends within
  its 100 rounds, with exactly the rows for which the slack is the area of the step, so that the
  amorph can be painted around its kerf and covers its number of elements. This is for articles of at
  most 100 elements and lengths below 100, for which the codes of edges do not collide.\<close>

theorem stairy_edge_exact:
  assumes "stock primes live ar" "ranging rng" "0 < x1" "0 \<le> y" "y < 100" "0 < x2" "x2 < 100" "0 < limit"
  shows "\<exists>v. set v = {j. \<exists>n. live j = Some n \<and> (x1, y, x2) \<in> edges_of n} \<and> distinct v \<and>
    exactStairyEdge rng ar x1 y x2 limit =
      Some (map (\<lambda>j. with_edge x1 y x2 (Amorphs ar ! nat j)) (take (nat limit) v)) \<and>
    (\<forall>j\<in>set v. let am = with_edge x1 y x2 (Amorphs ar ! nat j)
       in IdxArticle am = j \<and> suits am \<and> Cols am * Rows am - Slack am = NElements am)"
proof -
  let ?v = "visited rng (Edge3 ar) (Enc x1 y x2)"
  note ex = exactStairyEdge_eq[OF assms]
  have "IdxArticle (with_edge x1 y x2 (Amorphs ar ! nat j)) = j \<and>
      choice live (with_edge x1 y x2 (Amorphs ar ! nat j))" if j: "j \<in> set ?v" for j
  proof -
    obtain n where n: "live j = Some n" "(x1, y, x2) \<in> edges_of n" using j ex by auto
    then show ?thesis
      using with_edge_stepped[OF assms(1) n] stock_live[OF assms(1) n(1)]
      by (auto simp: stepped_def pristine_def with_edge_def)
  qed
  with ex show ?thesis by (intro exI[of _ ?v]) (auto simp: Let_def choice_def)
qed

lemma stock_two:
  "\<exists>ar. GenerateSpecificAmorphs [True, True, True, True, False, True] NewReservoir [3, 2] = Some ar \<and>
     stock [True, True, True, True, False, True] (live_below [3, 2] 2) ar"
proof -
  let ?tab = "[True, True, True, True, False, True]"
  have tab: "prime_table ?tab" by code_simp
  have "\<not> Option.is_none (GenerateSpecificAmorphs ?tab NewReservoir [3, 2])" by code_simp
  then obtain ar where ar: "GenerateSpecificAmorphs ?tab NewReservoir [3, 2] = Some ar"
    by (auto simp: Option.is_none_def)
  with stock_filled[OF this tab] show ?thesis by (auto simp: numeral_2_eq_2)
qed

lemma ranging_sorted: "ranging sorted_list_of_set"
  by (simp add: ranging_def)

lemma stairy_edge_exact_witness:
  "\<exists>ar b. GenerateSpecificAmorphs [True, True, True, True, False, True] NewReservoir [3, 2] = Some ar \<and>
     exactStairyEdge sorted_list_of_set ar 1 1 1 5 = Some b"
  using stock_two stairy_edge_exact[OF _ ranging_sorted, of _ _ _ 1 1 1 5] by fastforce

text \<open>C26: One call of the heuristics places at most one article. For fusions whose lengths are between 1
  and 99 (the step may be 0 or negative) no heuristic panics. Either all fail and matrix, spent articles
  and reservoir are as they were; or one live article is painted on exactly as many cells as it has
  elements (with the padding, if it was padded), every other slot shows what it showed before, the
  article is recorded as spent, and it alone is taken out of all the indexes of the reservoir.\<close>

theorem place_article:
  assumes "mx_ok m" "stock primes live ar" "ranging rng" "FuseAllSections ar clns l = Some (Inr fs)" "\<forall>f\<in>set fs. room f"
  shows "\<exists>h0 h1 m' spent' ar'.
    IterateFusedSections rng ActiveFilter primes clns l (m, spent, ar) = Some ((h0, h1), None, m', spent', ar') \<and>
    (h1 = 0 \<and> (m', spent', ar') = (m, spent, ar) \<or>
     h1 = 1 \<and> (\<exists>am base C. live (IdxArticle am) = Some (NElements am - Padded am) \<and> 0 \<le> Padded am \<and>
       spent' = insert (IdxArticle am) spent \<and> stock primes (live(IdxArticle am := None)) ar' \<and>
       mx_ok m' \<and> finite C \<and> int (card C) = NElements am \<and>
       (\<forall>x y. in_view m x y \<longrightarrow>
          got m' x y = (if (x - px base, y - py base) \<in> C then Some am else got m x y))))"
proof -
  obtain h0 h1 m' spent' ar' where r:
    "try_fusions rng ActiveFilter primes fs 0 (m, spent, ar) = Some ((h0, h1), m', spent', ar')"
    "h1 = 0 \<and> (m', spent', ar') = (m, spent, ar) \<or>
     h1 = 1 \<and> (\<exists>am base. choice live am \<and> CastStitch m spent base am = Some (m', spent') \<and>
       stock primes (live(IdxArticle am := None)) ar')"
    using af.try_fusions_ok[OF assms(1-3,5)] by blast
  have run: "IterateFusedSections rng ActiveFilter primes clns l (m, spent, ar) = Some ((h0, h1), None, m', spent', ar')"
    using r(1) assms(4) by (simp add: IterateFusedSections_def)
  show ?thesis
  proof (cases "h1 = 0")
    case True
    then show ?thesis using r(2) run by auto
  next
    case False
    then obtain am base where am: "h1 = 1" "choice live am" "CastStitch m spent base am = Some (m', spent')"
      "stock primes (live(IdxArticle am := None)) ar'" using r(2) by blast
    then have s: "suits am" "Cols am * Rows am - Slack am = NElements am" by (simp_all add: choice_def)
    obtain m2 C where c: "CastStitch m spent base am = Some (m2, insert (IdxArticle am) spent)" "mx_ok m2"
      "finite C" "int (card C) = Cols am * Rows am - Slack am"
      "\<forall>x y. in_view m x y \<longrightarrow> got m2 x y = (if (x - px base, y - py base) \<in> C then Some am else got m x y)"
      using CastStitch_spec[OF assms(1) s(1)] by blast
    have "m2 = m'" "spent' = insert (IdxArticle am) spent" using c(1) am(3) by auto
    with c(2-5) am s(2) run show ?thesis by (auto simp: choice_def)
  qed
qed

text \<open>A small outline and its fusions.\<close>

definition demo_line :: "point list" where
  "demo_line = [Point 0 1, Point 2 1, Point 2 3, Point 4 3, Point 4 0, Point 5 0]"

lemma demo_fusions:
  "\<exists>ar clns fs. GenerateSpecificAmorphs [True, True, True, True, False, True] NewReservoir [3, 2] = Some ar \<and>
     clns_of demo_line = Some clns \<and> FuseAllSections ar clns demo_line = Some (Inr fs) \<and>
     length fs = 2 \<and> (\<forall>f\<in>set fs. room f)"
proof -
  have "Option.bind (GenerateSpecificAmorphs [True, True, True, True, False, True] NewReservoir [3, 2])
      (\<lambda>ar. Option.bind (clns_of demo_line)
        (\<lambda>clns. Option.bind (FuseAllSections ar clns demo_line)
          (\<lambda>r. case r of Inl e \<Rightarrow> None | Inr fs \<Rightarrow> Some (map (\<lambda>f. (xyx f, length (permissive f))) fs)))) =
    Some [([3, - 2, 1], 3), ([1, 3, 2], 3)]" by code_simp
  then obtain ar clns r where "GenerateSpecificAmorphs [True, True, True, True, False, True] NewReservoir [3, 2] = Some ar"
    "clns_of demo_line = Some clns" "FuseAllSections ar clns demo_line = Some r"
    "(case r of Inl e \<Rightarrow> None | Inr fs \<Rightarrow> Some (map (\<lambda>f. (xyx f, length (permissive f))) fs)) =
      Some [([3, - 2, 1], 3), ([1, 3, 2], 3)]"
    by (elim bind_SomeE)
  then obtain fs where r: "GenerateSpecificAmorphs [True, True, True, True, False, True] NewReservoir [3, 2] = Some ar"
    "clns_of demo_line = Some clns" "FuseAllSections ar clns demo_line = Some (Inr fs)"
    "map (\<lambda>f. (xyx f, length (permissive f))) fs = [([3, - 2, 1], 3), ([1, 3, 2], 3)]"
    by (cases r) auto
  have "room f" if "f \<in> set fs" for f
  proof -
    have "(xyx f, length (permissive f)) \<in> set (map (\<lambda>f. (xyx f, length (permissive f))) fs)" using that by auto
    then show ?thesis unfolding r(4) by (auto simp: room_def)
  qed
  moreover have "length fs = 2" using arg_cong[OF r(4), of length] by simp
  ultimately show ?thesis using r(1-3) by blast
qed

lemma place_article_witness:
  "\<exists>ar clns m r. GenerateSpecificAmorphs [True, True, True, True, False, True] NewReservoir [3, 2] = Some ar \<and>
     clns_of demo_line = Some clns \<and> NewTransposableMatrix 6 6 = Some m \<and>
     IterateFusedSections sorted_list_of_set ActiveFilter [True, True, True, True, False, True] clns demo_line
       (m, {}, ar) = Some r"
proof -
  obtain ar clns fs where r: "GenerateSpecificAmorphs [True, True, True, True, False, True] NewReservoir [3, 2] = Some ar"
    "clns_of demo_line = Some clns" "FuseAllSections ar clns demo_line = Some (Inr fs)" "\<forall>f\<in>set fs. room f"
    using demo_fusions by blast
  have st: "stock [True, True, True, True, False, True] (live_below [3, 2] 2) ar" using stock_two r(1) by auto
  obtain m where m: "NewTransposableMatrix 6 6 = Some m" by (simp add: NewTransposableMatrix_def)
  then have "mx_ok m" by (auto simp: NewTransposableMatrix_def mx_ok_def)
  from place_article[OF this st ranging_sorted r(3,4)] r(1,2) m show ?thesis by blast
qed

text \<open>C25: Articles are neither lost nor placed twice. Fill a reservoir with amorphs of 1 to 100 elements and call HeuristicsApply any number
  of times, on any matrix and whatever the calls return: at every moment the spent articles are among
  those generated, the area index of the reservoir finds exactly the articles that are not spent, and no
  amorph is left in it exactly when all of them are spent.\<close>

theorem articles_conserved:
  assumes "GenerateSpecificAmorphs primes NewReservoir nums = Some ar0" "prime_table primes" "length primes \<le> 10000"
    and "\<forall>n\<in>set nums. 0 < n \<and> n \<le> 100" "ranging rng"
    and run: "placing rng primes (m0, {}, ar0) (m, spent, ar)"
  shows "spent \<subseteq> {0..<int (length nums)} \<and>
    (\<forall>k. ids (MElements ar) k = {j. 0 \<le> j \<and> j < int (length nums) \<and> j \<notin> spent \<and> nums ! nat j = k}) \<and>
    (MElements ar = Map.empty \<longleftrightarrow> spent = {0..<int (length nums)})"
proof -
  let ?all = "live_below nums (length nums)"
  let ?live = "\<lambda>j. if j \<in> spent then None else ?all j"
  from placing_stock[OF run assms(5) refl stock_filled[OF assms(1-4)]]
  have sub: "spent \<subseteq> dom ?all" and st: "stock primes ?live ar" by auto
  have d: "dom ?all = {0..<int (length nums)}" by (auto simp: live_below_def split: if_splits)
  have me: "MElements ar = index_of (\<lambda>n. [n]) ?live" by (rule stock_index(1)[OF st])
  have i: "ids (MElements ar) k = {j. 0 \<le> j \<and> j < int (length nums) \<and> j \<notin> spent \<and> nums ! nat j = k}" for k
    unfolding me ids_index_of by (auto simp: live_below_def split: if_splits)
  have "MElements ar = Map.empty \<longleftrightarrow> (\<forall>k. ids (MElements ar) k = {})"
  proof
    assume e: "\<forall>k. ids (MElements ar) k = {}"
    show "MElements ar = Map.empty"
    proof
      fix k
      show "MElements ar k = None"
        using e[rule_format, of k] unfolding me ids_index_of by (simp add: index_of_def Let_def)
    qed
  qed (simp add: ids_def)
  also have "\<dots> \<longleftrightarrow> {0..<int (length nums)} \<subseteq> spent" unfolding i by (auto simp: subset_iff)
  also have "\<dots> \<longleftrightarrow> spent = {0..<int (length nums)}" using sub d by auto
  finally show ?thesis using sub d i by simp
qed

lemma articles_conserved_witness:
  "\<exists>ar m h err. GenerateSpecificAmorphs [True, True, True, True, False, True] NewReservoir [3, 2] = Some ar \<and>
     NewTransposableMatrix 6 6 = Some m \<and>
     HeuristicsApply sorted_list_of_set ActiveFilter [True, True, True, True, False, True] (m, {}, ar) =
       Some (h, err, m, {}, ar) \<and> ids (MElements ar) 3 = {0}"
proof -
  let ?tab = "[True, True, True, True, False, True]"
  obtain ar where ar: "GenerateSpecificAmorphs ?tab NewReservoir [3, 2] = Some ar" using stock_two by blast
  have tab: "prime_table ?tab" by code_simp
  have "map_option (\<lambda>m. ConcavestLowestNarrowestSections m) (NewTransposableMatrix 6 6) = Some (Some ([], [], None))"
    by code_simp
  then obtain m where m: "NewTransposableMatrix 6 6 = Some m" "ConcavestLowestNarrowestSections m = Some ([], [], None)"
    by auto
  have "\<exists>h err. HeuristicsApply sorted_list_of_set ActiveFilter ?tab (m, {}, ar) = Some (h, err, m, {}, ar)"
    using m(2) by (cases "MElements ar = Map.empty")
      (auto simp: HeuristicsApply_def IterateFusedSections_def FuseAllSections_def)
  then obtain h err where h: "HeuristicsApply sorted_list_of_set ActiveFilter ?tab (m, {}, ar) = Some (h, err, m, {}, ar)"
    by blast
  have run: "placing sorted_list_of_set ?tab (m, {}, ar) (m, {}, ar)"
    by (rule placing.after_call[OF placing.at_start h])
  have "{j. 0 \<le> j \<and> j < int (length [3 :: int, 2]) \<and> j \<notin> {} \<and> [3 :: int, 2] ! nat j = 3} = {0}"
    by (auto simp: nth_Cons' split: if_splits)
  then have "ids (MElements ar) 3 = {0}"
    using articles_conserved[OF ar tab _ _ ranging_sorted run] by simp
  with ar m(1) h show ?thesis by blast
qed

subsection \<open>Codes that collide\<close>

lemma blowup_fails: "Rows lp + (100 - int rounds) \<le> \<bar>y\<bar> \<Longrightarrow> rounds \<le> 100 \<Longrightarrow> blowup y x2 rounds lp = None"
proof (induction y x2 rounds lp rule: blowup.induct)
  case (1 y x2 rounds lp)
  have go: "Rows lp \<le> \<bar>y\<bar> \<or> Slack lp < \<bar>x2 * y\<bar>" using "1.prems" by simp
  show ?case
  proof (cases "100 < rounds + 1")
    case True
    then show ?thesis using go by (subst blowup.simps) (simp add: Let_def)
  next
    case False
    then show ?thesis using go "1.IH"[OF go refl False] "1.prems"
      by (subst blowup.simps) (simp add: Let_def)
  qed
qed

lemma distinct_one: "set xs = {a} \<Longrightarrow> distinct xs \<Longrightarrow> xs = [a]"
proof (cases xs)
  case (Cons x ys)
  assume "set xs = {a}" "distinct xs"
  with Cons have "x = a" "set ys \<subseteq> {a}" "a \<notin> set ys" by auto
  then show ?thesis using Cons by (cases ys) auto
qed simp

text \<open>The code of the edge 2, 105, 2 is the one of 3, 5, 2, which an area of 20 can take: a step of
  105 rows finds that article, and the loop that adds rows to it runs into its panic.\<close>

lemma step_code_collision:
  assumes "stock primes [0 \<mapsto> 20] ar" "ranging rng" "0 < limit"
  shows "Enc 2 105 2 = Enc 3 5 2 \<and> exactStairyEdge rng ar 2 105 2 limit = None"
proof -
  have code: "Enc 2 105 2 = Enc 3 5 2" by (simp add: Enc_def multiSortFactor_def)
  have "RootCeiling 20 = 5" by code_simp
  then have "tried 20 5 6" by (simp add: tried_def)
  then have "(3, 5, 2) \<in> edges_of 20" unfolding edges_of_def
    by (intro CollectI exI[of _ 5] exI[of _ 6]) (simp add: inscribed_def)
  then have "set (visited rng (Edge3 ar) (Enc 3 5 2)) = {0}" "distinct (visited rng (Edge3 ar) (Enc 3 5 2))"
    using exactStairyEdge_eq[OF assms(1,2), of 3 5 2 1] by (auto split: if_splits)
  then have "visited rng (Edge3 ar) (Enc 3 5 2) = [0]"
    by (rule distinct_one)
  then obtain s where s: "Edge3 ar (Enc 2 105 2) = Some s" "rng s = [0]"
    unfolding code by (auto simp: visited_def split: option.splits)
  let ?am = "Amorphs ar ! 0"
  have p: "pristine ar 0 20" using stock_live[OF assms(1), of 0 20] by simp
  then have am: "slice_get (Amorphs ar) 0 = Some ?am" "NElements ?am = 20" by (auto simp: pristine_def slice_get_def)
  have "blowup 105 2 0 (?am\<lparr>Cols := 4, Rows := 5, Slack := 0\<rparr>) = None" by (rule blowup_fails) simp_all
  then show ?thesis using code s am by (simp add: exactStairyEdge_def OtherSide_def)
qed

end
