(* ===== verification/Distrib.thy ===== *)
theory Distrib
  imports Prelude "HOL-Library.Multiset"
begin

section \<open>A pipeline of goroutines (distrib/main.go)\<close>

text \<open>
  \<^verbatim>\<open>Distrib\<close> feeds jobs (stage 1) to a number of workers (stage 2), each of which runs the
  work in a goroutine of its own against a timeout, and collects the packets (stage 3). The stages
  talk over two unbuffered channels, a third one that is closed to flush everything, and shared
  counters read and written atomically.

  \<^item> The state is the record \<open>pipe\<close>: the counters, what each goroutine is about to do, and the
    packets returned. A packet is its task number; a packet returned has the number of its worker.
  \<^item> An action is one atomic step of one goroutine, or of the two that meet on a channel:
    every read and every write of a shared counter is an action of its own, so that a run is any
    interleaving. \<open>act\<close> gives the next state, \<^verbatim>\<open>None\<close> when the action is not enabled. Actions that
    Go's scheduler, the ticker, the timer or the work decide are enabled whenever they can happen.
  \<^item> The counters are \<^verbatim>\<open>int32\<close>; they are bounded by the number of jobs and do not wrap below
    2^31 jobs, so they are integers here.
  \<^item> The panic of closing a closed channel is the state \<open>S3_Panic\<close>. Logging and the short sleep at
    the end are left out.
\<close>

subsection \<open>State\<close>

record options =
  NumWorkers :: int
  Want :: int
  CollectRemainder :: bool

datatype stage1 =
    S1_Load \<comment> \<open>about to read the load counter\<close>
  | S1_Exhausted \<comment> \<open>about to set Want to zero\<close>
  | S1_Select int \<comment> \<open>offers a packet, or waits for the flush\<close>
  | S1_Loaded \<comment> \<open>about to increment the load counter\<close>
  | S1_Counted \<comment> \<open>about to increment the sent counter\<close>
  | S1_Done

datatype worker =
    W_Idle \<comment> \<open>waits for a packet, or for the flush\<close>
  | W_Busy int \<comment> \<open>waits for the work or the timeout\<close>
  | W_Sending int \<comment> \<open>offers the completed packet, or waits for the flush\<close>
  | W_Gone

datatype stage3 =
    S3_Select \<comment> \<open>waits for a tick, a packet or the flush\<close>
  | S3_Received \<comment> \<open>about to compare with Want\<close>
  | S3_Enough \<comment> \<open>about to stop the loading\<close>
  | S3_Abandon \<comment> \<open>about to close the flush channel and return\<close>
  | S3_Tick \<comment> \<open>on a tick, about to compare with the sent counter\<close>
  | S3_Left \<comment> \<open>behind the loop\<close>
  | S3_Returned
  | S3_Panic

record pipe =
  lcnt :: int
  sent :: int
  want :: int
  recv :: int
  fin :: bool
  st1 :: stage1
  workers :: "worker list"
  wraps :: "(nat \<times> int) list"
  st3 :: stage3
  returns :: "(int \<times> nat) list"

text \<open>The jobs are given by their number; there are never more workers than packets.\<close>

definition num_workers :: "options \<Rightarrow> nat \<Rightarrow> nat" where
  "num_workers opt njobs =
     nat (if int njobs < NumWorkers opt \<and> 0 < njobs then int njobs else NumWorkers opt)"

definition launch :: "options \<Rightarrow> nat \<Rightarrow> pipe" where
  "launch opt njobs = \<lparr>lcnt = 0, sent = 0, want = Want opt, recv = 0, fin = False, st1 = S1_Load,
     workers = replicate (num_workers opt njobs) W_Idle, wraps = [], st3 = S3_Select, returns = []\<rparr>"

text \<open>No goroutine starts without a job; the results are allocated with a capacity of Want and five.\<close>

datatype outcome = Allocation_panics | Empty_jobs | Running pipe

definition Distrib :: "options \<Rightarrow> nat \<Rightarrow> outcome" where
  "Distrib opt njobs =
     (if Want opt + 5 < 0 then Allocation_panics
      else if njobs < 1 then Empty_jobs
      else Running (launch opt njobs))"

subsection \<open>Actions\<close>

datatype action =
    Read_lcnt | Zero_want | Send_to nat | Quit1 | Add_lcnt | Add_sent
  | Complete nat | Timeout nat | Quit_worker nat | Flush_wrap nat int
  | Receive_from nat | Compare_want | Stop_loading | Close_fin
  | Tick | Compare_sent | Quit3 | Cleanup

definition worker_is :: "pipe \<Rightarrow> nat \<Rightarrow> worker \<Rightarrow> bool" where
  "worker_is s i w \<longleftrightarrow> i < length (workers s) \<and> workers s ! i = w"

text \<open>Stage 1.\<close>

fun act1 :: "nat \<Rightarrow> action \<Rightarrow> pipe \<Rightarrow> pipe option" where
  "act1 njobs Read_lcnt s =
     (if st1 s = S1_Load
      then Some (s\<lparr>st1 := (if int njobs - 1 < lcnt s then S1_Exhausted
                          else if lcnt s < 0 then S1_Done else S1_Select (lcnt s))\<rparr>)
      else None)"
| "act1 njobs Zero_want s =
     (if st1 s = S1_Exhausted then Some (s\<lparr>want := 0, st1 := S1_Done\<rparr>) else None)"
| "act1 njobs (Send_to i) s =
     (case st1 s of
        S1_Select k \<Rightarrow>
          if worker_is s i W_Idle
          then Some (s\<lparr>st1 := S1_Loaded, workers := (workers s)[i := W_Busy k], wraps := wraps s @ [(i, k)]\<rparr>)
          else None
      | _ \<Rightarrow> None)"
| "act1 njobs Quit1 s =
     (case st1 s of S1_Select k \<Rightarrow> if fin s then Some (s\<lparr>st1 := S1_Done\<rparr>) else None | _ \<Rightarrow> None)"
| "act1 njobs Add_lcnt s =
     (if st1 s = S1_Loaded then Some (s\<lparr>lcnt := lcnt s + 1, st1 := S1_Counted\<rparr>) else None)"
| "act1 njobs Add_sent s =
     (if st1 s = S1_Counted then Some (s\<lparr>sent := sent s + 1, st1 := S1_Load\<rparr>) else None)"
| "act1 njobs _ s = None"

text \<open>Stage 2. The timeout leaves the loop of the worker: its \<^verbatim>\<open>break\<close> names the \<^verbatim>\<open>for\<close>
  statement.\<close>

fun act2 :: "action \<Rightarrow> pipe \<Rightarrow> pipe option" where
  "act2 (Complete i) s =
     (if i < length (workers s)
      then case workers s ! i of
             W_Busy k \<Rightarrow>
               if (i, k) \<in> set (wraps s)
               then Some (s\<lparr>workers := (workers s)[i := W_Sending k], wraps := remove1 (i, k) (wraps s)\<rparr>)
               else None
           | _ \<Rightarrow> None
      else None)"
| "act2 (Timeout i) s =
     (if i < length (workers s)
      then case workers s ! i of
             W_Busy k \<Rightarrow> Some (s\<lparr>sent := sent s - 1, workers := (workers s)[i := W_Gone]\<rparr>)
           | _ \<Rightarrow> None
      else None)"
| "act2 (Quit_worker i) s =
     (if i < length (workers s) \<and> fin s
      then case workers s ! i of
             W_Idle \<Rightarrow> Some (s\<lparr>workers := (workers s)[i := W_Gone]\<rparr>)
           | W_Sending k \<Rightarrow> Some (s\<lparr>workers := (workers s)[i := W_Gone]\<rparr>)
           | _ \<Rightarrow> None
      else None)"
| "act2 (Flush_wrap i k) s =
     (if fin s \<and> (i, k) \<in> set (wraps s) then Some (s\<lparr>wraps := remove1 (i, k) (wraps s)\<rparr>) else None)"
| "act2 _ s = None"

text \<open>Stage 3.\<close>

fun act3 :: "options \<Rightarrow> action \<Rightarrow> pipe \<Rightarrow> pipe option" where
  "act3 opt (Receive_from i) s =
     (if st3 s = S3_Select \<and> i < length (workers s)
      then case workers s ! i of
             W_Sending k \<Rightarrow>
               Some (s\<lparr>recv := recv s + 1, returns := returns s @ [(k, i)], st3 := S3_Received,
                 workers := (workers s)[i := W_Idle]\<rparr>)
           | _ \<Rightarrow> None
      else None)"
| "act3 opt Compare_want s =
     (if st3 s = S3_Received
      then Some (s\<lparr>st3 := (if want s \<le> recv s then S3_Enough else S3_Select)\<rparr>) else None)"
| "act3 opt Stop_loading s =
     (if st3 s = S3_Enough
      then Some (s\<lparr>lcnt := -10, st3 := (if CollectRemainder opt then S3_Select else S3_Abandon)\<rparr>) else None)"
| "act3 opt Close_fin s =
     (if st3 s = S3_Abandon
      then Some (if fin s then s\<lparr>st3 := S3_Panic\<rparr> else s\<lparr>fin := True, st3 := S3_Left\<rparr>) else None)"
| "act3 opt Tick s =
     (if st3 s = S3_Select
      then Some (s\<lparr>st3 := (if CollectRemainder opt \<and> want s \<le> recv s then S3_Tick else S3_Select)\<rparr>)
      else None)"
| "act3 opt Compare_sent s =
     (if st3 s = S3_Tick
      then Some (s\<lparr>st3 := (if sent s \<le> recv s then S3_Left else S3_Select)\<rparr>) else None)"
| "act3 opt Quit3 s = (if st3 s = S3_Select \<and> fin s then Some (s\<lparr>st3 := S3_Left\<rparr>) else None)"
| "act3 opt Cleanup s =
     (if st3 s = S3_Left
      then Some (if \<not> CollectRemainder opt then s\<lparr>st3 := S3_Returned\<rparr>
                 else if fin s then s\<lparr>st3 := S3_Panic\<rparr>
                 else s\<lparr>fin := True, st3 := S3_Returned\<rparr>)
      else None)"
| "act3 opt _ s = None"

fun act :: "options \<Rightarrow> nat \<Rightarrow> action \<Rightarrow> pipe \<Rightarrow> pipe option" where
  "act opt njobs a s =
     (case act1 njobs a s of
        Some s' \<Rightarrow> Some s'
      | None \<Rightarrow> (case act2 a s of Some s' \<Rightarrow> Some s' | None \<Rightarrow> act3 opt a s))"

fun run :: "options \<Rightarrow> nat \<Rightarrow> action list \<Rightarrow> pipe \<Rightarrow> pipe option" where
  "run opt njobs [] s = Some s"
| "run opt njobs (a # as) s = do { s' \<leftarrow> act opt njobs a s; run opt njobs as s' }"

text \<open>The states that the goroutines can reach from the launch.\<close>

inductive reachable :: "options \<Rightarrow> nat \<Rightarrow> pipe \<Rightarrow> bool" for opt njobs where
  at_launch: "reachable opt njobs (launch opt njobs)"
| by_action: "reachable opt njobs s \<Longrightarrow> act opt njobs a s = Some s' \<Longrightarrow> reachable opt njobs s'"

inductive_cases reachableE: "reachable opt njobs s"

fun_cases act1_SomeE: "act1 njobs a s = Some s'"
fun_cases act2_SomeE: "act2 a s = Some s'"
fun_cases act3_SomeE: "act3 opt a s = Some s'"

subsection \<open>Packets in flight\<close>

fun task_of :: "worker \<Rightarrow> int multiset" where
  "task_of (W_Busy k) = {#k#}"
| "task_of (W_Sending k) = {#k#}"
| "task_of _ = {#}"

definition flight :: "worker list \<Rightarrow> int multiset" where
  "flight ws = sum_list (map task_of ws)"

lemma flight_split: "i < length ws \<Longrightarrow> flight ws = task_of (ws ! i) + flight (ws[i := W_Gone])"
  by (induction ws arbitrary: i) (auto simp: flight_def nth_Cons' split: nat.splits)

lemma flight_update: "i < length ws \<Longrightarrow> flight (ws[i := w]) = task_of w + flight (ws[i := W_Gone])"
  using flight_split[of i "ws[i := w]"] by simp

lemma flight_change: "i < length ws \<Longrightarrow> flight (ws[i := w]) + task_of (ws ! i) = flight ws + task_of w"
  by (subst flight_split, assumption, subst flight_update, assumption) (simp only: ac_simps)

lemma flight_simps [simp]:
  assumes "i < length ws"
  shows "ws ! i = W_Idle \<Longrightarrow> flight (ws[i := W_Busy k]) = add_mset k (flight ws)"
    "ws ! i = W_Idle \<Longrightarrow> flight (ws[i := W_Gone]) = flight ws"
    "ws ! i = W_Busy k \<Longrightarrow> flight (ws[i := W_Sending k]) = flight ws"
    "ws ! i = W_Busy k \<Longrightarrow> flight (ws[i := W_Gone]) = flight ws - {#k#}"
    "ws ! i = W_Sending k \<Longrightarrow> flight (ws[i := W_Gone]) = flight ws - {#k#}"
    "ws ! i = W_Sending k \<Longrightarrow> flight (ws[i := W_Idle]) = flight ws - {#k#}"
  using flight_change[OF assms, of "W_Busy k"] flight_change[OF assms, of W_Gone]
    flight_change[OF assms, of "W_Sending k"] flight_change[OF assms, of W_Idle]
  by simp_all (metis add_mset_remove_trivial)+

lemma in_flight:
  "i < length ws \<Longrightarrow> ws ! i = W_Busy k \<or> ws ! i = W_Sending k \<Longrightarrow> k \<in># flight ws"
  by (subst flight_split) auto

lemma flight_idle [simp]: "flight (replicate n W_Idle) = {#}"
  by (induction n) (auto simp: flight_def)

lemma size_flight: "size (flight ws) \<le> length ws"
proof (induction ws)
  case (Cons w ws)
  then show ?case by (cases w) (auto simp: flight_def)
qed (simp add: flight_def)

lemmas act_split = stage1.split_asm worker.split_asm if_split_asm

lemma act_stages: "act opt n a s = Some s' \<Longrightarrow> act1 n a s = Some s' \<or> act2 a s = Some s' \<or> act3 opt a s = Some s'"
  by (auto split: option.split_asm)

lemma act_induct:
  assumes "act opt n a s = Some s'" "P s"
    and "\<And>s s'. P s \<Longrightarrow> act1 n a s = Some s' \<Longrightarrow> P s'" "\<And>s s'. P s \<Longrightarrow> act2 a s = Some s' \<Longrightarrow> P s'"
    and "\<And>s s'. P s \<Longrightarrow> act3 opt a s = Some s' \<Longrightarrow> P s'"
  shows "P s'"
  using act_stages[OF assms(1)] assms(2-) by blast

subsection \<open>Invariants\<close>

text \<open>Packets sent and not yet counted.\<close>

definition uncounted :: "pipe \<Rightarrow> nat" where
  "uncounted s = (if st1 s = S1_Loaded \<or> st1 s = S1_Counted then 1 else 0)"

definition counts_ok :: "pipe \<Rightarrow> bool" where
  "counts_ok s \<longleftrightarrow> recv s = int (length (returns s)) \<and>
     recv s + int (size (flight (workers s))) \<le> sent s + int (uncounted s) \<and>
     (\<not> fin s \<longrightarrow> sent s + int (uncounted s) = recv s + int (size (flight (workers s))))"

lemma counts_ok_launch: "counts_ok (launch opt n)"
  by (simp add: counts_ok_def launch_def uncounted_def)

lemma size_minus_one: "k \<in># M \<Longrightarrow> int (size (M - {#k#})) = int (size M) - 1"
proof -
  assume "k \<in># M"
  then have "M = add_mset k (M - {#k#})" by simp
  then have "size M = Suc (size (M - {#k#}))" by (metis size_add_mset)
  then show ?thesis by simp
qed

lemma counts_ok_act1: "counts_ok s \<Longrightarrow> act1 n a s = Some s' \<Longrightarrow> counts_ok s'"
  by (cases a) (auto simp: counts_ok_def uncounted_def worker_is_def split: act_split)

lemma counts_ok_act2: "counts_ok s \<Longrightarrow> act2 a s = Some s' \<Longrightarrow> counts_ok s'"
  by (cases a) (auto simp: counts_ok_def uncounted_def size_minus_one in_flight split: act_split)

lemma act3_other: "act3 opt a s = Some s' \<Longrightarrow> (\<And>i. a \<noteq> Receive_from i) \<Longrightarrow>
    sent s' = sent s \<and> recv s' = recv s \<and> returns s' = returns s \<and> workers s' = workers s \<and> st1 s' = st1 s \<and>
    (fin s \<longrightarrow> fin s')"
  by (cases a) (auto split: act_split)

lemma act3_receive: "act3 opt (Receive_from i) s = Some s' \<Longrightarrow>
    \<exists>k. i < length (workers s) \<and> workers s ! i = W_Sending k \<and> st3 s = S3_Select \<and>
      s' = s\<lparr>recv := recv s + 1, returns := returns s @ [(k, i)], st3 := S3_Received,
        workers := (workers s)[i := W_Idle]\<rparr>"
  by (auto split: act_split)

lemma counts_ok_act3: "counts_ok s \<Longrightarrow> act3 opt a s = Some s' \<Longrightarrow> counts_ok s'"
proof (cases "\<exists>i. a = Receive_from i")
  case True
  assume ok: "counts_ok s" and act: "act3 opt a s = Some s'"
  from True obtain i where a: "a = Receive_from i" by blast
  from act3_receive[OF act[unfolded a]] obtain k where k: "i < length (workers s)" "workers s ! i = W_Sending k"
    "s' = s\<lparr>recv := recv s + 1, returns := returns s @ [(k, i)], st3 := S3_Received,
        workers := (workers s)[i := W_Idle]\<rparr>" by blast
  then have "k \<in># flight (workers s)" by (simp add: in_flight)
  from size_minus_one[OF this] show ?thesis
    using ok k by (simp add: counts_ok_def uncounted_def)
next
  case False
  assume "counts_ok s" "act3 opt a s = Some s'"
  with act3_other[OF this(2)] False show ?thesis by (auto simp: counts_ok_def uncounted_def)
qed

text \<open>The flush channel is closed once, behind the loop of stage 3 or on abandoning.\<close>

definition control_ok :: "options \<Rightarrow> pipe \<Rightarrow> bool" where
  "control_ok opt s \<longleftrightarrow> st3 s \<noteq> S3_Panic \<and>
     (st3 s = S3_Abandon \<longrightarrow> \<not> CollectRemainder opt) \<and>
     (st3 s = S3_Tick \<longrightarrow> CollectRemainder opt) \<and>
     fin s = (st3 s = S3_Returned \<or> st3 s = S3_Left \<and> \<not> CollectRemainder opt)"

lemma control_ok_launch: "control_ok opt (launch opt n)"
  by (simp add: control_ok_def launch_def)

lemma control_ok_act1: "control_ok opt s \<Longrightarrow> act1 n a s = Some s' \<Longrightarrow> control_ok opt s'"
  by (cases a) (auto simp: control_ok_def split: act_split)

lemma control_ok_act2: "control_ok opt s \<Longrightarrow> act2 a s = Some s' \<Longrightarrow> control_ok opt s'"
  by (cases a) (auto simp: control_ok_def split: act_split)

lemma control_ok_act3: "control_ok opt s \<Longrightarrow> act3 opt a s = Some s' \<Longrightarrow> control_ok opt s'"
  by (cases a) (auto simp: control_ok_def split: act_split)

text \<open>Every task is in one place at most, and the tasks not handed out are those from the load counter on;
  a stopped load counter is negative and lets at most the packet on offer through.\<close>

definition tasks :: "pipe \<Rightarrow> int multiset" where
  "tasks s = mset (map fst (returns s)) + flight (workers s)"

definition tasks_ok :: "nat \<Rightarrow> pipe \<Rightarrow> bool" where
  "tasks_ok n s \<longleftrightarrow> (\<forall>k. count (tasks s) k \<le> 1) \<and> (\<forall>k\<in>#tasks s. 0 \<le> k \<and> k < int n) \<and>
     (0 \<le> lcnt s \<longrightarrow> (\<forall>k\<in>#tasks s. k < lcnt s + (if st1 s = S1_Loaded then 1 else 0))) \<and>
     (lcnt s < 0 \<longrightarrow> lcnt s = -10 \<or> lcnt s = -9 \<and> (st1 s = S1_Counted \<or> st1 s = S1_Load \<or> st1 s = S1_Done)) \<and>
     (\<forall>k. st1 s = S1_Select k \<longrightarrow> 0 \<le> k \<and> k < int n \<and> (\<forall>j\<in>#tasks s. j < k) \<and> (0 \<le> lcnt s \<longrightarrow> k = lcnt s)) \<and>
     (st1 s = S1_Loaded \<and> 0 \<le> lcnt s \<longrightarrow> lcnt s < int n)"

lemma tasks_ok_launch: "tasks_ok n (launch opt n)"
  by (simp add: tasks_ok_def launch_def tasks_def)

lemma count_le_one_add: "k \<notin># M \<Longrightarrow> \<forall>j. count M j \<le> 1 \<Longrightarrow> count (add_mset k M) j \<le> 1"
  by (cases "j = k") (auto simp: not_in_iff)

lemma tasks_ok_less: "tasks_ok n s \<Longrightarrow> tasks s' \<subseteq># tasks s \<Longrightarrow> lcnt s' = lcnt s \<Longrightarrow> st1 s' = st1 s \<Longrightarrow> tasks_ok n s'"
proof -
  assume ok: "tasks_ok n s" and sub: "tasks s' \<subseteq># tasks s" and eq: "lcnt s' = lcnt s" "st1 s' = st1 s"
  have "count (tasks s') k \<le> 1" for k
    using ok mset_subset_eq_count[OF sub, of k] unfolding tasks_ok_def by (meson order_trans)
  moreover have "k \<in># tasks s' \<Longrightarrow> k \<in># tasks s" for k using sub by (rule mset_subset_eqD)
  ultimately show ?thesis using ok unfolding tasks_ok_def eq by blast
qed

lemma tasks_ok_act1: "tasks_ok n s \<Longrightarrow> act1 n a s = Some s' \<Longrightarrow> tasks_ok n s'"
proof (cases a)
  case Read_lcnt
  assume ok: "tasks_ok n s" and act: "act1 n a s = Some s'"
  have st: "st1 s = S1_Load" and s': "s' = s\<lparr>st1 := (if int n - 1 < lcnt s then S1_Exhausted
      else if lcnt s < 0 then S1_Done else S1_Select (lcnt s))\<rparr>"
    using act Read_lcnt by (simp_all split: if_split_asm)
  have t: "tasks s' = tasks s" "lcnt s' = lcnt s" by (simp_all add: s' tasks_def)
  consider "int n - 1 < lcnt s" | "lcnt s < 0" "lcnt s \<le> int n - 1" | "0 \<le> lcnt s" "lcnt s < int n" by linarith
  then show ?thesis
  proof cases
    case 1
    with ok st show ?thesis by (simp add: tasks_ok_def t) (simp add: s')
  next
    case 2
    with ok st show ?thesis by (simp add: tasks_ok_def t) (simp add: s')
  next
    case 3
    with ok st show ?thesis by (simp add: tasks_ok_def t) (simp add: s')
  qed
next
  case Zero_want
  assume ok: "tasks_ok n s" and act: "act1 n a s = Some s'"
  have st: "st1 s = S1_Exhausted" and s': "s' = s\<lparr>want := 0, st1 := S1_Done\<rparr>"
    using act Zero_want by (simp_all split: if_split_asm)
  have t: "tasks s' = tasks s" by (simp add: s' tasks_def)
  show ?thesis using ok st by (simp add: tasks_ok_def t) (simp add: s')
next
  case (Send_to i)
  assume ok: "tasks_ok n s" and act: "act1 n a s = Some s'"
  then obtain k where k: "st1 s = S1_Select k" "i < length (workers s)" "workers s ! i = W_Idle"
    and s': "s' = s\<lparr>st1 := S1_Loaded, workers := (workers s)[i := W_Busy k], wraps := wraps s @ [(i, k)]\<rparr>"
    using Send_to by (auto simp: worker_is_def split: act_split)
  have t: "tasks s' = add_mset k (tasks s)" using k by (simp add: tasks_def s')
  have b: "\<forall>j\<in>#tasks s. j < k" "0 \<le> k" "k < int n" "0 \<le> lcnt s \<longrightarrow> k = lcnt s" "lcnt s < 0 \<longrightarrow> lcnt s = -10"
    "\<forall>j. count (tasks s) j \<le> 1" "\<forall>k\<in>#tasks s. 0 \<le> k \<and> k < int n"
    using ok k(1) by (auto simp: tasks_ok_def)
  have "k \<notin># tasks s" using b(1) by auto
  then have "\<forall>j. count (add_mset k (tasks s)) j \<le> 1" by (intro allI count_le_one_add b(6))
  moreover have e: "lcnt s' = lcnt s" "st1 s' = S1_Loaded" by (simp_all add: s')
  moreover have "\<forall>j\<in>#add_mset k (tasks s). 0 \<le> j \<and> j < int n" using b by simp
  moreover have "0 \<le> lcnt s \<longrightarrow> (\<forall>j\<in>#add_mset k (tasks s). j < lcnt s + 1)" using b(1,4) by fastforce
  moreover have "0 \<le> lcnt s \<longrightarrow> lcnt s < int n" using b(3,4) by auto
  ultimately show ?thesis using b(3,5) unfolding tasks_ok_def t e by simp
next
  case Quit1
  assume ok: "tasks_ok n s" and act: "act1 n a s = Some s'"
  obtain k where st: "st1 s = S1_Select k" and s': "s' = s\<lparr>st1 := S1_Done\<rparr>"
    using act Quit1 by (auto split: stage1.split_asm if_split_asm)
  have t: "tasks s' = tasks s" by (simp add: s' tasks_def)
  show ?thesis using ok st by (simp add: tasks_ok_def t) (simp add: s')
next
  case Add_lcnt
  assume ok: "tasks_ok n s" and act: "act1 n a s = Some s'"
  have st: "st1 s = S1_Loaded" and s': "s' = s\<lparr>lcnt := lcnt s + 1, st1 := S1_Counted\<rparr>"
    using act Add_lcnt by (simp_all split: if_split_asm)
  have t: "tasks s' = tasks s" by (simp add: s' tasks_def)
  show ?thesis using ok st
    by (cases "0 \<le> lcnt s") (simp_all add: tasks_ok_def t, simp_all add: s')
next
  case Add_sent
  assume ok: "tasks_ok n s" and act: "act1 n a s = Some s'"
  have st: "st1 s = S1_Counted" and s': "s' = s\<lparr>sent := sent s + 1, st1 := S1_Load\<rparr>"
    using act Add_sent by (simp_all split: if_split_asm)
  have t: "tasks s' = tasks s" by (simp add: s' tasks_def)
  show ?thesis using ok st by (simp add: tasks_ok_def t) (simp add: s')
qed simp_all

lemma act2_tasks: "act2 a s = Some s' \<Longrightarrow> tasks s' \<subseteq># tasks s \<and> lcnt s' = lcnt s \<and> st1 s' = st1 s"
  by (cases a) (auto simp: tasks_def split: act_split)

lemma tasks_ok_act2: "tasks_ok n s \<Longrightarrow> act2 a s = Some s' \<Longrightarrow> tasks_ok n s'"
  using act2_tasks tasks_ok_less by blast

lemma act3_tasks: "act3 opt a s = Some s' \<Longrightarrow> tasks s' = tasks s \<and> st1 s' = st1 s \<and> (lcnt s' = lcnt s \<or> lcnt s' = -10)"
  by (cases a) (auto simp: tasks_def in_flight split: act_split)

lemma tasks_ok_act3: "tasks_ok n s \<Longrightarrow> act3 opt a s = Some s' \<Longrightarrow> tasks_ok n s'"
  using act3_tasks[of opt a s s'] by (auto simp: tasks_ok_def)

lemma act_preserved:
  assumes "act opt n a s = Some s'" "counts_ok s" "control_ok opt s" "tasks_ok n s"
  shows "counts_ok s' \<and> control_ok opt s' \<and> tasks_ok n s'"
proof (intro conjI)
  show "counts_ok s'"
    by (rule act_induct[where P = counts_ok, OF assms(1,2)]) (erule (1) counts_ok_act1, erule (1) counts_ok_act2, erule (1) counts_ok_act3)
  show "control_ok opt s'"
    by (rule act_induct[where P = "control_ok opt", OF assms(1,3)]) (erule (1) control_ok_act1, erule (1) control_ok_act2, erule (1) control_ok_act3)
  show "tasks_ok n s'"
    by (rule act_induct[where P = "tasks_ok n", OF assms(1,4)]) (erule (1) tasks_ok_act1, erule (1) tasks_ok_act2, erule (1) tasks_ok_act3)
qed

lemma reachable_ok: "reachable opt n s \<Longrightarrow> counts_ok s \<and> control_ok opt s \<and> tasks_ok n s"
proof (induction rule: reachable.induct)
  case at_launch
  show ?case by (simp add: counts_ok_launch control_ok_launch tasks_ok_launch)
next
  case (by_action s a s')
  show ?case by (rule act_preserved[OF by_action.hyps(2)]) (use by_action.IH in simp_all)
qed

lemma distinct_count_le_one: "(\<forall>k. count (mset xs) k \<le> 1) \<Longrightarrow> distinct xs"
proof (induction xs)
  case (Cons x xs)
  have "\<forall>k. count (mset xs) k \<le> 1" using Cons.prems by (metis Suc_leD count_add_mset mset.simps(2))
  moreover have "count (mset xs) x = 0" using Cons.prems by (auto dest: spec[of _ x])
  ultimately show ?case using Cons.IH by (auto simp: count_mset_0_iff)
qed simp

lemma tasks_ok_returns:
  assumes "tasks_ok n s"
  shows "distinct (map fst (returns s))" "k \<in> fst ` set (returns s) \<Longrightarrow> 0 \<le> k \<and> k < int n"
    "k \<in> fst ` set (returns s) \<Longrightarrow> k \<notin># flight (workers s)"
proof -
  have le: "count (mset (map fst (returns s))) j + count (flight (workers s)) j \<le> 1" for j
    using assms by (simp add: tasks_ok_def tasks_def)
  have "count (mset (map fst (returns s))) j \<le> 1" for j using le[of j] by linarith
  then show "distinct (map fst (returns s))" by (intro distinct_count_le_one allI)
  show "k \<in> fst ` set (returns s) \<Longrightarrow> 0 \<le> k \<and> k < int n"
    using assms by (auto simp: tasks_ok_def tasks_def)
  assume "k \<in> fst ` set (returns s)"
  then have "k \<in># mset (map fst (returns s))" by simp
  then have "0 < count (mset (map fst (returns s))) k" by (simp only: count_greater_zero_iff)
  with le[of k] show "k \<notin># flight (workers s)" by (simp only: not_in_iff)
qed

subsection \<open>Stopping\<close>

text \<open>Stage 1 will not pick another packet: it has ended, or the load counter is negative.\<close>

definition quiet :: "pipe \<Rightarrow> bool" where
  "quiet s \<longleftrightarrow> lcnt s < 0 \<or> st1 s = S1_Done"

definition on_offer :: "pipe \<Rightarrow> nat" where
  "on_offer s = (case st1 s of S1_Select k \<Rightarrow> 1 | _ \<Rightarrow> 0)"

definition stop_ok :: "options \<Rightarrow> pipe \<Rightarrow> bool" where
  "stop_ok opt s \<longleftrightarrow> 0 \<le> recv s \<and> (want s = Want opt \<or> want s = 0 \<and> st1 s = S1_Done) \<and>
     (st3 s \<noteq> S3_Received \<longrightarrow> st3 s \<noteq> S3_Enough \<longrightarrow> Want opt \<le> recv s \<longrightarrow> quiet s) \<and>
     (st3 s = S3_Tick \<longrightarrow> quiet s) \<and>
     (CollectRemainder opt \<longrightarrow> st3 s = S3_Left \<or> st3 s = S3_Returned \<longrightarrow>
        quiet s \<and> size (flight (workers s)) + on_offer s \<le> 1)"

lemma stop_ok_launch: "0 < Want opt \<Longrightarrow> stop_ok opt (launch opt n)"
  by (simp add: stop_ok_def launch_def)

lemma act1_quiet:
  assumes "act1 n a s = Some s'" "tasks_ok n s" "quiet s"
  shows "quiet s' \<and> size (flight (workers s')) + on_offer s' \<le> size (flight (workers s)) + on_offer s"
proof (cases a)
  case Add_lcnt
  with assms(1) have "st1 s = S1_Loaded" "s' = s\<lparr>lcnt := lcnt s + 1, st1 := S1_Counted\<rparr>"
    by (simp_all split: if_split_asm)
  then show ?thesis using assms(2,3) by (auto simp: quiet_def on_offer_def tasks_ok_def)
qed (use assms(1,3) in \<open>auto simp: quiet_def on_offer_def worker_is_def split: act_split\<close>)

lemma act1_keeps: "act1 n a s = Some s' \<Longrightarrow>
    recv s' = recv s \<and> st3 s' = st3 s \<and> fin s' = fin s \<and>
    (want s' = want s \<and> (st1 s = S1_Done \<longrightarrow> st1 s' = S1_Done) \<or> want s' = 0 \<and> st1 s' = S1_Done)"
  by (cases a) (auto split: act_split)

lemma stop_ok_step:
  assumes ok: "stop_ok opt s" and eq: "recv s' = recv s" "st3 s' = st3 s"
    and want: "want s' = want s \<and> (st1 s = S1_Done \<longrightarrow> st1 s' = S1_Done) \<or> want s' = 0 \<and> st1 s' = S1_Done"
    and quiet: "quiet s \<Longrightarrow> quiet s' \<and> size (flight (workers s')) + on_offer s' \<le> size (flight (workers s)) + on_offer s"
  shows "stop_ok opt s'"
  unfolding stop_ok_def eq
proof (intro conjI impI)
  show "0 \<le> recv s" using ok by (simp add: stop_ok_def)
  show "want s' = Want opt \<or> want s' = 0 \<and> st1 s' = S1_Done"
    using ok want unfolding stop_ok_def by argo
  show "quiet s'" if "st3 s \<noteq> S3_Received" "st3 s \<noteq> S3_Enough" "Want opt \<le> recv s"
    using ok that quiet by (simp add: stop_ok_def)
  show "quiet s'" if "st3 s = S3_Tick" using ok that quiet by (simp add: stop_ok_def)
  assume c: "CollectRemainder opt" "st3 s = S3_Left \<or> st3 s = S3_Returned"
  then have q: "quiet s" "size (flight (workers s)) + on_offer s \<le> 1" using ok by (simp_all add: stop_ok_def)
  show "quiet s'" using quiet[OF q(1)] by simp
  show "size (flight (workers s')) + on_offer s' \<le> 1" using quiet[OF q(1)] q(2) by simp
qed

lemma stop_ok_act1:
  assumes "stop_ok opt s" "tasks_ok n s" "act1 n a s = Some s'"
  shows "stop_ok opt s'"
proof (rule stop_ok_step[OF assms(1)])
  show "quiet s' \<and> size (flight (workers s')) + on_offer s' \<le> size (flight (workers s)) + on_offer s" if "quiet s"
    by (rule act1_quiet[OF assms(3,2) that])
qed (use act1_keeps[OF assms(3)] in blast)+

lemma act2_keeps: "act2 a s = Some s' \<Longrightarrow>
    recv s' = recv s \<and> st3 s' = st3 s \<and> fin s' = fin s \<and> want s' = want s \<and> st1 s' = st1 s \<and> lcnt s' = lcnt s \<and>
    size (flight (workers s')) \<le> size (flight (workers s))"
  by (cases a) (auto simp: size_Diff_subset_Int split: act_split)

lemma stop_ok_act2:
  assumes "stop_ok opt s" "act2 a s = Some s'"
  shows "stop_ok opt s'"
  by (rule stop_ok_step[OF assms(1)]) (use act2_keeps[OF assms(2)] in \<open>auto simp: quiet_def on_offer_def\<close>)

lemma stop_ok_act3:
  assumes ok: "stop_ok opt s" "counts_ok s" "control_ok opt s" and act: "act3 opt a s = Some s'"
  shows "stop_ok opt s'"
proof (cases a)
  case (Receive_from i)
  from act3_receive[OF act[unfolded Receive_from]] obtain k where s': "s' = s\<lparr>recv := recv s + 1,
      returns := returns s @ [(k, i)], st3 := S3_Received, workers := (workers s)[i := W_Idle]\<rparr>" by blast
  show ?thesis using ok(1) by (simp add: s' stop_ok_def)
next
  case Compare_want
  then show ?thesis using ok(1) act by (auto simp: stop_ok_def quiet_def on_offer_def split: if_split_asm)
next
  case Stop_loading
  then show ?thesis using ok(1) act by (auto simp: stop_ok_def quiet_def on_offer_def split: if_split_asm)
next
  case Close_fin
  then show ?thesis using ok act
    by (auto simp: stop_ok_def quiet_def on_offer_def control_ok_def split: if_split_asm)
next
  case Tick
  then show ?thesis using ok(1) act
    by (auto simp: stop_ok_def quiet_def on_offer_def split: if_split_asm)
next
  case Compare_sent
  have "st3 s = S3_Tick" and s': "s' = s\<lparr>st3 := (if sent s \<le> recv s then S3_Left else S3_Select)\<rparr>"
    using act Compare_sent by (simp_all split: if_split_asm)
  moreover have "\<not> fin s" using ok(3) calculation(1) by (simp add: control_ok_def)
  ultimately have "quiet s" "sent s \<le> recv s \<Longrightarrow> size (flight (workers s)) \<le> uncounted s"
    using ok(1,2) by (auto simp: stop_ok_def counts_ok_def)
  moreover have "uncounted s + on_offer s \<le> 1"
    by (cases "st1 s") (simp_all add: uncounted_def on_offer_def)
  ultimately have "quiet s" "sent s \<le> recv s \<Longrightarrow> size (flight (workers s)) + on_offer s \<le> 1" by auto
  then show ?thesis using ok(1) by (auto simp: stop_ok_def quiet_def on_offer_def s')
next
  case Quit3
  then show ?thesis using ok act
    by (auto simp: stop_ok_def quiet_def on_offer_def control_ok_def split: if_split_asm)
next
  case Cleanup
  then show ?thesis using ok(1) act
    by (auto simp: stop_ok_def quiet_def on_offer_def split: if_split_asm)
qed (use act in simp_all)

lemma stop_ok_reachable: "reachable opt n s \<Longrightarrow> 0 < Want opt \<Longrightarrow> stop_ok opt s"
proof (induction rule: reachable.induct)
  case at_launch
  then show ?case by (rule stop_ok_launch)
next
  case (by_action s a s')
  then show ?case
    using act_stages[OF by_action.hyps(2)] reachable_ok[OF by_action.hyps(1)] stop_ok_act1[of opt s n a s']
      stop_ok_act2[of opt s a s'] stop_ok_act3[of opt s a s'] by blast
qed

subsection \<open>Exhausting the jobs\<close>

text \<open>The workers that have left; before the flush they all timed out.\<close>

definition gone :: "worker list \<Rightarrow> nat" where
  "gone ws = length (filter (\<lambda>w. w = W_Gone) ws)"

lemma gone_update: "i < length ws \<Longrightarrow>
    gone (ws[i := w]) + (if ws ! i = W_Gone then 1 else 0) = gone ws + (if w = W_Gone then 1 else 0)"
proof (induction ws arbitrary: i)
  case (Cons v ws)
  show ?case
  proof (cases i)
    case 0
    then show ?thesis by (simp add: gone_def)
  next
    case (Suc j)
    with Cons.prems Cons.IH[of j] show ?thesis by (simp add: gone_def split: if_splits)
  qed
qed simp

lemma gone_simps [simp]:
  assumes "i < length ws" "ws ! i \<noteq> W_Gone"
  shows "gone (ws[i := W_Gone]) = Suc (gone ws)" "w \<noteq> W_Gone \<Longrightarrow> gone (ws[i := w]) = gone ws"
  using gone_update[OF assms(1), of W_Gone] gone_update[OF assms(1), of w] assms(2) by simp_all

lemma gone_idle [simp]: "gone (replicate n W_Idle) = 0"
  by (simp add: gone_def)

definition gone_ok :: "nat \<Rightarrow> pipe \<Rightarrow> bool" where
  "gone_ok n s \<longleftrightarrow>
     (0 \<le> lcnt s \<longrightarrow> lcnt s \<le> int n \<and>
        lcnt s + (if st1 s = S1_Loaded then 1 else 0) = sent s + int (uncounted s) + int (gone (workers s))) \<and>
     (st1 s = S1_Exhausted \<or> want s = 0 \<longrightarrow> sent s + int (gone (workers s)) = int n)"

lemma gone_ok_launch: "0 < Want opt \<Longrightarrow> gone_ok n (launch opt n)"
  by (simp add: gone_ok_def launch_def uncounted_def)

lemma gone_ok_act1:
  assumes ok: "gone_ok n s" and want: "want s = 0 \<longrightarrow> st1 s = S1_Done"
    and tasks: "tasks_ok n s" and act: "act1 n a s = Some s'"
  shows "gone_ok n s'"
proof -
  have b: "st1 s = S1_Loaded \<and> 0 \<le> lcnt s \<longrightarrow> lcnt s < int n"
    "lcnt s < 0 \<longrightarrow> lcnt s = -10 \<or> lcnt s = -9 \<and> (st1 s = S1_Counted \<or> st1 s = S1_Load \<or> st1 s = S1_Done)"
    using tasks by (simp_all add: tasks_ok_def)
  show ?thesis
  proof (cases a)
    case Read_lcnt
    then have st: "st1 s = S1_Load" and s': "s' = s\<lparr>st1 := (if int n - 1 < lcnt s then S1_Exhausted
      else if lcnt s < 0 then S1_Done else S1_Select (lcnt s))\<rparr>"
      using act by (simp_all split: if_split_asm)
    have "want s \<noteq> 0" using want st by simp
    then show ?thesis using ok st
      by (cases "0 \<le> lcnt s"; cases "int n - 1 < lcnt s") (simp_all add: gone_ok_def s' uncounted_def)
  next
    case Zero_want
    then show ?thesis using ok act by (auto simp: gone_ok_def uncounted_def split: if_split_asm)
  next
    case (Send_to i)
    then show ?thesis using ok act want by (auto simp: gone_ok_def uncounted_def worker_is_def split: act_split)
  next
    case Quit1
    then show ?thesis using ok act want by (auto simp: gone_ok_def uncounted_def split: act_split)
  next
    case Add_lcnt
    then show ?thesis using ok act want b by (auto simp: gone_ok_def uncounted_def split: if_split_asm)
  next
    case Add_sent
    then show ?thesis using ok act want by (auto simp: gone_ok_def uncounted_def split: if_split_asm)
  qed (use act in simp_all)
qed

lemma gone_ok_act2: "gone_ok n s \<Longrightarrow> \<not> fin s \<Longrightarrow> act2 a s = Some s' \<Longrightarrow> gone_ok n s'"
  by (cases a) (auto simp: gone_ok_def uncounted_def split: worker.split_asm if_split_asm)

lemma act3_fin: "act3 opt a s = Some s' \<Longrightarrow> fin s \<longrightarrow> fin s'"
  by (cases a) (auto split: act_split)

lemma act3_counters: "act3 opt a s = Some s' \<Longrightarrow> want s' = want s \<and> (lcnt s' = lcnt s \<or> lcnt s' = -10)"
  by (cases a) (auto split: act_split)

lemma gone_ok_act3:
  assumes ok: "gone_ok n s" and act: "act3 opt a s = Some s'"
  shows "gone_ok n s'"
proof -
  have "sent s' = sent s \<and> st1 s' = st1 s \<and> gone (workers s') = gone (workers s)"
  proof (cases "\<exists>i. a = Receive_from i")
    case True
    then obtain i where "a = Receive_from i" ..
    from act3_receive[OF act[unfolded this]] show ?thesis by auto
  next
    case False
    with act3_other[OF act] show ?thesis by simp
  qed
  then have "sent s' = sent s" "st1 s' = st1 s" "gone (workers s') = gone (workers s)"
    "uncounted s' = uncounted s" by (simp_all add: uncounted_def)
  then show ?thesis using ok act3_counters[OF act] by (auto simp: gone_ok_def)
qed

lemma gone_ok_reachable: "reachable opt n s \<Longrightarrow> 0 < Want opt \<Longrightarrow> \<not> fin s \<longrightarrow> gone_ok n s"
proof (induction rule: reachable.induct)
  case at_launch
  then show ?case by (simp add: gone_ok_launch)
next
  case (by_action s a s')
  have "stop_ok opt s" using by_action.hyps(1) by_action.prems by (rule stop_ok_reachable)
  then have want: "want s = 0 \<longrightarrow> st1 s = S1_Done" using by_action.prems by (auto simp: stop_ok_def)
  have tasks: "tasks_ok n s" using reachable_ok[OF by_action.hyps(1)] by simp
  have fin: "fin s \<longrightarrow> fin s'"
    using act_stages[OF by_action.hyps(2)] act1_keeps act2_keeps act3_fin by metis
  show ?case
    using act_stages[OF by_action.hyps(2)] fin gone_ok_act1[OF _ want tasks, of a s'] gone_ok_act2[of n s a s']
      gone_ok_act3[of n s opt a s'] by_action.IH[OF by_action.prems] by blast
qed

text \<open>Behind the loop of the collecting mode nothing is in flight once the jobs are exhausted.\<close>

definition done_ok :: "options \<Rightarrow> pipe \<Rightarrow> bool" where
  "done_ok opt s \<longleftrightarrow> (CollectRemainder opt \<longrightarrow> st3 s = S3_Left \<longrightarrow> st1 s = S1_Exhausted \<or> want s = 0 \<longrightarrow>
     flight (workers s) = {#})"

lemma done_ok_act1:
  assumes ok: "done_ok opt s" "stop_ok opt s" "0 < Want opt" and act: "act1 n a s = Some s'"
  shows "done_ok opt s'"
proof (cases a)
  case Read_lcnt
  then have "st1 s = S1_Load" and s': "s' = s\<lparr>st1 := (if int n - 1 < lcnt s then S1_Exhausted
      else if lcnt s < 0 then S1_Done else S1_Select (lcnt s))\<rparr>"
    using act by (simp_all split: if_split_asm)
  then have "CollectRemainder opt \<longrightarrow> st3 s = S3_Left \<longrightarrow> lcnt s < 0" "want s \<noteq> 0"
    using ok(2,3) by (auto simp: stop_ok_def quiet_def)
  then show ?thesis by (auto simp: done_ok_def s')
next
  case (Send_to i)
  then show ?thesis using ok act by (auto simp: done_ok_def stop_ok_def worker_is_def split: act_split)
qed (use ok(1) act in \<open>auto simp: done_ok_def split: act_split\<close>)

lemma done_ok_act2: "done_ok opt s \<Longrightarrow> act2 a s = Some s' \<Longrightarrow> done_ok opt s'"
  using act2_keeps[of a s s'] by (auto simp: done_ok_def)

lemma done_ok_act3:
  assumes ok: "done_ok opt s" "stop_ok opt s" "control_ok opt s" "counts_ok s" "0 < Want opt"
    and act: "act3 opt a s = Some s'"
  shows "done_ok opt s'"
proof (cases a)
  case Compare_sent
  then have "st3 s = S3_Tick" and s': "s' = s\<lparr>st3 := (if sent s \<le> recv s then S3_Left else S3_Select)\<rparr>"
    using act by (simp_all split: if_split_asm)
  then have "\<not> fin s" using ok(3) by (simp add: control_ok_def)
  then have "sent s + int (uncounted s) = recv s + int (size (flight (workers s)))"
    using ok(4) by (simp add: counts_ok_def)
  moreover have "st1 s = S1_Exhausted \<or> want s = 0 \<longrightarrow> uncounted s = 0"
    using ok(2,5) by (auto simp: stop_ok_def uncounted_def)
  ultimately show ?thesis by (auto simp: done_ok_def s')
qed (use ok(1,3) act in \<open>auto simp: done_ok_def control_ok_def split: act_split\<close>)

lemma done_ok_reachable: "reachable opt n s \<Longrightarrow> 0 < Want opt \<Longrightarrow> done_ok opt s"
proof (induction rule: reachable.induct)
  case at_launch
  then show ?case by (simp add: done_ok_def launch_def)
next
  case (by_action s a s')
  then show ?case
    using act_stages[OF by_action.hyps(2)] reachable_ok[OF by_action.hyps(1)]
      stop_ok_reachable[OF by_action.hyps(1) by_action.prems] done_ok_act1[of opt s n a s']
      done_ok_act2[of opt s a s'] done_ok_act3[of opt s a s'] by blast
qed

subsection \<open>Abandoning\<close>

definition flush_ok :: "options \<Rightarrow> pipe \<Rightarrow> bool" where
  "flush_ok opt s \<longleftrightarrow> (\<not> CollectRemainder opt \<longrightarrow>
     (st3 s = S3_Select \<longrightarrow> recv s < Want opt) \<and> recv s \<le> Want opt \<and>
     (st3 s = S3_Enough \<or> st3 s = S3_Abandon \<or> st3 s = S3_Left \<or> st3 s = S3_Returned \<longrightarrow>
        recv s = Want opt \<or> want s = 0))"

lemma flush_ok_act1: "flush_ok opt s \<Longrightarrow> act1 n a s = Some s' \<Longrightarrow> flush_ok opt s'"
  using act1_keeps[of n a s s'] by (auto simp: flush_ok_def)

lemma flush_ok_act2: "flush_ok opt s \<Longrightarrow> act2 a s = Some s' \<Longrightarrow> flush_ok opt s'"
  using act2_keeps[of a s s'] by (auto simp: flush_ok_def)

lemma flush_ok_act3:
  assumes ok: "flush_ok opt s" "stop_ok opt s" "control_ok opt s" and act: "act3 opt a s = Some s'"
  shows "flush_ok opt s'"
proof (cases a)
  case (Receive_from i)
  from act3_receive[OF act[unfolded Receive_from]] obtain k where "st3 s = S3_Select"
    and s': "s' = s\<lparr>recv := recv s + 1, returns := returns s @ [(k, i)], st3 := S3_Received,
      workers := (workers s)[i := W_Idle]\<rparr>" by blast
  then show ?thesis using ok(1) by (auto simp: flush_ok_def)
next
  case Compare_want
  then have "st3 s = S3_Received" and s': "s' = s\<lparr>st3 := (if want s \<le> recv s then S3_Enough else S3_Select)\<rparr>"
    using act by (simp_all split: if_split_asm)
  moreover have "want s = Want opt \<or> want s = 0" "0 \<le> recv s" using ok(2) by (auto simp: stop_ok_def)
  ultimately show ?thesis using ok(1) by (auto simp: flush_ok_def)
qed (use ok(1,3) act in \<open>auto simp: flush_ok_def control_ok_def split: if_split_asm\<close>)

lemma flush_ok_reachable: "reachable opt n s \<Longrightarrow> 0 < Want opt \<Longrightarrow> flush_ok opt s"
proof (induction rule: reachable.induct)
  case at_launch
  then show ?case by (simp add: flush_ok_def launch_def)
next
  case (by_action s a s')
  then show ?case
    using act_stages[OF by_action.hyps(2)] reachable_ok[OF by_action.hyps(1)]
      stop_ok_reachable[OF by_action.hyps(1) by_action.prems] flush_ok_act1[of opt s n a s']
      flush_ok_act2[of opt s a s'] flush_ok_act3[of opt s a s'] by blast
qed

subsection \<open>What a run returns\<close>

lemma run_reachable: "reachable opt n s \<Longrightarrow> run opt n as s = Some s' \<Longrightarrow> reachable opt n s'"
proof (induction "as" arbitrary: s)
  case (Cons a as)
  from Cons.prems(2) obtain t where t: "act opt n a s = Some t" "run opt n as t = Some s'"
    by (auto simp del: act.simps)
  show ?case by (rule Cons.IH[OF by_action[OF Cons.prems(1) t(1)] t(2)])
qed simp

lemmas launch_run = run_reachable[OF at_launch]

text \<open>A run from the launch that ends in a state with the property.\<close>

definition leads_to :: "options \<Rightarrow> nat \<Rightarrow> action list \<Rightarrow> (pipe \<Rightarrow> bool) \<Rightarrow> bool" where
  "leads_to opt n as P \<longleftrightarrow> (case run opt n as (launch opt n) of Some s \<Rightarrow> P s | None \<Rightarrow> False)"

lemma leads_toE:
  assumes "leads_to opt n as P"
  obtains s where "reachable opt n s" "P s"
proof (cases "run opt n as (launch opt n)")
  case (Some s)
  with assms launch_run[OF Some] that[of s] show ?thesis by (simp add: leads_to_def)
qed (use assms in \<open>simp add: leads_to_def\<close>)

lemma returned_range: "tasks_ok n s \<Longrightarrow> fst ` set (returns s) \<subseteq> {0..<int n}"
  by (intro subsetI) (simp add: tasks_ok_returns(2))

lemma returned_all:
  assumes "tasks_ok n s" "length (returns s) = n"
  shows "fst ` set (returns s) = {0..<int n}"
proof (rule card_subset_eq)
  show "fst ` set (returns s) \<subseteq> {0..<int n}" using assms(1) by (rule returned_range)
  have "card (fst ` set (returns s)) = card (set (map fst (returns s)))" by simp
  also have "\<dots> = n" using distinct_card[OF tasks_ok_returns(1)[OF assms(1)]] assms(2) by simp
  finally show "card (fst ` set (returns s)) = card {0..<int n}" by simp
qed simp

text \<open>C29: Whatever the scheduling and the timeouts: the packets returned are distinct jobs, none is
  still in flight, their number is the received counter, the flush channel is closed only behind the loop of
  stage 3 and never twice (the program does not panic).
\<close>

theorem distrib_safe:
  assumes "reachable opt n s"
  shows "distinct (map fst (returns s)) \<and> fst ` set (returns s) \<subseteq> {0..<int n} \<and>
    (\<forall>k\<in>fst ` set (returns s). k \<notin># flight (workers s)) \<and> recv s = int (length (returns s)) \<and>
    st3 s \<noteq> S3_Panic \<and> (fin s \<longrightarrow> st3 s = S3_Left \<or> st3 s = S3_Returned)"
proof -
  have ok: "counts_ok s" "control_ok opt s" "tasks_ok n s" using reachable_ok[OF assms] by simp_all
  show ?thesis using ok(1,2) tasks_ok_returns(1,3)[OF ok(3)] returned_range[OF ok(3)]
    by (simp add: counts_ok_def control_ok_def)
qed

definition collecting :: options where
  "collecting = \<lparr>NumWorkers = 2, Want = 1, CollectRemainder = True\<rparr>"

lemma distrib_safe_run:
  "leads_to collecting 3 [Read_lcnt, Send_to 1, Complete 1, Receive_from 1] (\<lambda>s. returns s = [(0, 1)])"
  by code_simp

lemma distrib_safe_witness:
  "\<exists>s. reachable collecting 3 s \<and> returns s = [(0, 1)] \<and> recv s = 1 \<and> 0 \<notin># flight (workers s)"
proof -
  obtain s where s: "reachable collecting 3 s" "returns s = [(0, 1)]" using distrib_safe_run by (rule leads_toE)
  with distrib_safe[OF s(1)] show ?thesis by auto
qed

text \<open>When the loop of stage 3 ends in the collecting mode, at most one packet is left behind; and when the jobs were
  exhausted, none is: every job is returned but those of the workers that timed out, and all of them when none did.
\<close>

theorem collected_remainder:
  assumes "reachable opt n s" "0 < Want opt" "CollectRemainder opt" "st3 s = S3_Left"
  shows "size (flight (workers s)) \<le> 1 \<and>
    (want s = 0 \<longrightarrow> flight (workers s) = {#} \<and> length (returns s) + gone (workers s) = n \<and>
       (gone (workers s) = 0 \<longrightarrow> fst ` set (returns s) = {0..<int n}))"
proof -
  have ok: "counts_ok s" "control_ok opt s" "tasks_ok n s" using reachable_ok[OF assms(1)] by simp_all
  have stop: "stop_ok opt s" and exh: "done_ok opt s"
    using assms(1,2) by (rule stop_ok_reachable, rule done_ok_reachable)
  have fin: "\<not> fin s" using ok(2) assms(3,4) by (simp add: control_ok_def)
  then have gone: "gone_ok n s" using gone_ok_reachable[OF assms(1,2)] by simp
  have "length (returns s) + gone (workers s) = n \<and> flight (workers s) = {#}" if "want s = 0"
  proof -
    have "flight (workers s) = {#}" "st1 s = S1_Done"
      using exh stop assms(2-4) that by (simp_all add: done_ok_def stop_ok_def)
    moreover have "sent s + int (gone (workers s)) = int n" using gone that by (simp add: gone_ok_def)
    ultimately show ?thesis using ok(1) fin by (simp add: counts_ok_def uncounted_def)
  qed
  moreover have "size (flight (workers s)) \<le> 1" using stop assms(3,4) by (simp add: stop_ok_def)
  moreover have "fst ` set (returns s) = {0..<int n}" if "length (returns s) + gone (workers s) = n" "gone (workers s) = 0"
    using that by (intro returned_all[OF ok(3)]) simp
  ultimately show ?thesis by blast
qed

text \<open>The abandoning mode returns exactly the wanted number of packets, unless the jobs were exhausted
  first: then it returns no more.
\<close>

theorem abandoned_remainder:
  assumes "reachable opt n s" "0 < Want opt" "\<not> CollectRemainder opt" "st3 s = S3_Returned"
  shows "int (length (returns s)) = Want opt \<or> want s = 0 \<and> int (length (returns s)) \<le> Want opt"
proof -
  have "recv s = int (length (returns s))" using reachable_ok[OF assms(1)] by (simp add: counts_ok_def)
  then show ?thesis using flush_ok_reachable[OF assms(1,2)] assms(3,4) by (auto simp: flush_ok_def)
qed

text \<open>The only packet may be left behind.\<close>

definition exhausting :: options where
  "exhausting = \<lparr>NumWorkers = 1, Want = 2, CollectRemainder = True\<rparr>"

definition flushing :: options where
  "flushing = \<lparr>NumWorkers = 1, Want = 1, CollectRemainder = False\<rparr>"

lemma one_left_behind:
  "leads_to collecting 3 [Read_lcnt, Send_to 0, Add_lcnt, Add_sent, Read_lcnt, Complete 0, Receive_from 0,
      Compare_want, Stop_loading, Tick, Send_to 1, Compare_sent]
    (\<lambda>s. st3 s = S3_Left \<and> flight (workers s) = {#1#} \<and> returns s = [(0, 0)])"
  by code_simp

lemma exhausted_run:
  "leads_to exhausting 1 [Read_lcnt, Send_to 0, Add_lcnt, Add_sent, Read_lcnt, Complete 0, Receive_from 0,
      Zero_want, Compare_want, Stop_loading, Tick, Compare_sent]
    (\<lambda>s. st3 s = S3_Left \<and> want s = 0 \<and> gone (workers s) = 0)"
  by code_simp

lemma collected_remainder_witness:
  "\<exists>s. reachable exhausting 1 s \<and> st3 s = S3_Left \<and> fst ` set (returns s) = {0..<1}"
proof -
  obtain s where r: "reachable exhausting 1 s" and s: "st3 s = S3_Left \<and> want s = 0 \<and> gone (workers s) = 0"
    using exhausted_run by (rule leads_toE)
  have "0 < Want exhausting" "CollectRemainder exhausting" by (simp_all add: exhausting_def)
  from collected_remainder[OF r this] s have "fst ` set (returns s) = {0..<1}" by simp
  with r s show ?thesis by blast
qed

lemma flushed_run:
  "leads_to flushing 3 [Read_lcnt, Send_to 0, Add_lcnt, Add_sent, Read_lcnt, Complete 0, Receive_from 0,
      Compare_want, Stop_loading, Send_to 0, Close_fin, Cleanup]
    (\<lambda>s. st3 s = S3_Returned \<and> want s = 1)"
  by code_simp

lemma abandoned_remainder_witness:
  "\<exists>s. reachable flushing 3 s \<and> st3 s = S3_Returned \<and> length (returns s) = 1"
proof -
  obtain s where r: "reachable flushing 3 s" and s: "st3 s = S3_Returned \<and> want s = 1"
    using flushed_run by (rule leads_toE)
  have "0 < Want flushing" "\<not> CollectRemainder flushing" "Want flushing = 1" by (simp_all add: flushing_def)
  with abandoned_remainder[OF r] s have "length (returns s) = 1" by simp
  with r s show ?thesis by blast
qed

subsection \<open>Runs that never end\<close>

text \<open>Nobody is left to move: stage 1 has ended or offers a packet that no worker will take, the workers wait or have
  left, and stage 3 waits for a packet that will not come.\<close>

definition hung :: "options \<Rightarrow> pipe \<Rightarrow> bool" where
  "hung opt s \<longleftrightarrow> \<not> fin s \<and> st3 s = S3_Select \<and> (CollectRemainder opt \<longrightarrow> recv s < want s) \<and>
     (\<forall>w\<in>set (workers s). w = W_Gone \<or> w = W_Idle \<and> st1 s = S1_Done) \<and>
     (case st1 s of S1_Done \<Rightarrow> True | S1_Select k \<Rightarrow> True | _ \<Rightarrow> False)"

lemma hung_stages: "hung opt s \<Longrightarrow> \<not> fin s \<and> st3 s = S3_Select \<and> (CollectRemainder opt \<longrightarrow> recv s < want s) \<and>
    (st1 s = S1_Done \<or> (\<exists>k. st1 s = S1_Select k)) \<and>
    (\<forall>i<length (workers s). workers s ! i = W_Gone \<or> workers s ! i = W_Idle \<and> st1 s = S1_Done)"
  by (cases "st1 s") (auto simp: hung_def)

lemma hung_act1: "hung opt s \<Longrightarrow> act1 n a s = None"
  by (drule hung_stages, cases a) (auto simp: worker_is_def)

lemma hung_act2: "hung opt s \<Longrightarrow> act2 a s = None"
  by (drule hung_stages, cases a) (auto split: worker.split)

lemma hung_act3: "hung opt s \<Longrightarrow> act3 opt a s = Some s' \<Longrightarrow> s' = s"
  by (drule hung_stages, cases a) (auto split: worker.split_asm if_split_asm)

lemma hung_forever: "hung opt s \<Longrightarrow> run opt n as s = Some s' \<Longrightarrow> s' = s"
proof (induction "as")
  case (Cons a as)
  then have "act3 opt a s = None \<or> act3 opt a s = Some s"
    using hung_act3[OF Cons.prems(1)] by (cases "act3 opt a s") auto
  with Cons show ?case by (auto simp: hung_act1 hung_act2)
qed simp

text \<open>C30: Once every worker has timed out before enough packets came back in the collecting mode, or the last packet
  was received in the abandoning mode before stage 1 saw the end of the jobs, no goroutine changes the state any
  more, whatever is scheduled: Distrib does not return.
\<close>

theorem never_returns:
  assumes "hung opt s" "run opt n as s = Some s'"
  shows "st3 s' \<noteq> S3_Returned \<and> hung opt s'"
  using hung_forever[OF assms] assms(1) by (simp add: hung_def)

definition flush_two :: options where
  "flush_two = \<lparr>NumWorkers = 1, Want = 2, CollectRemainder = False\<rparr>"

lemma timeouts_hang:
  "leads_to exhausting 2 [Read_lcnt, Send_to 0, Add_lcnt, Add_sent, Timeout 0, Read_lcnt]
    (\<lambda>s. hung exhausting s)"
  by code_simp

lemma late_exhaustion_hangs:
  "leads_to flush_two 1 [Read_lcnt, Send_to 0, Add_lcnt, Add_sent, Complete 0, Receive_from 0, Compare_want,
      Read_lcnt, Zero_want]
    (\<lambda>s. hung flush_two s)"
  by code_simp

lemma never_returns_witness:
  "\<exists>s. reachable exhausting 2 s \<and> (\<forall>as. case run exhausting 2 as s of Some s' \<Rightarrow> st3 s' \<noteq> S3_Returned | None \<Rightarrow> True)"
proof -
  obtain s where r: "reachable exhausting 2 s" and s: "hung exhausting s"
    using timeouts_hang by (rule leads_toE)
  have "case run exhausting 2 as s of Some s' \<Rightarrow> st3 s' \<noteq> S3_Returned | None \<Rightarrow> True" for "as"
    using never_returns[OF s] by (simp split: option.split)
  with r show ?thesis by blast
qed

end
