(* ===== verification/DirDigest.thy ===== *)
theory DirDigest
  imports FsPath "HOL-Library.AList"
begin

section \<open>The digest of a site's links (net/http/repo)\<close>

text \<open>
  A crawl keeps the links of a site as a tree of directories, the digest. \<^verbatim>\<open>path2DirTree\<close> adds
  links, \<^verbatim>\<open>DiveToDeepestMatch\<close> finds the subtree of a path, \<^verbatim>\<open>LevelWiseDeeper\<close> lists the
  end points below it, \<^verbatim>\<open>FetchUsingRSS\<close> and \<^verbatim>\<open>FetchSimilar\<close> climb the tree with the two.

  \<^item> A \<^verbatim>\<open>DirTree\<close> is the datatype \<open>dtree\<close>. Its map of subdirectories is an association list in
    no particular order; \<^verbatim>\<open>None\<close> is the nil map, which reads as empty and panics on a write.
    The code copies \<^verbatim>\<open>DirTree\<close> values around, the copies share the maps: a change of a map is seen
    everywhere, a change of another field only in the copy. The model writes out which is which.
  \<^item> A time is its distance from the zero time in nanoseconds; the readings of the clock are a
    parameter, and so are \<^verbatim>\<open>url.Parse\<close> (the path it finds, \<^verbatim>\<open>None\<close> for an error) and the crawl
    of a page. The result \<^verbatim>\<open>None\<close> is a panic or the end of the process.
\<close>

subsection \<open>osutilpb/dir_util.go\<close>

definition TrimPrefix :: "string \<Rightarrow> string \<Rightarrow> string" where
  "TrimPrefix s p = (if HasPrefix s p then drop (length p) s else s)"

definition PathDirReverse :: "string \<Rightarrow> string \<times> string \<times> string list" where
  "PathDirReverse filepath =
     (let p = Join1 (unbackslash filepath) in
      if p = ''/'' \<or> p = [] \<or> p = ''.'' then (''/'', [], [])
      else let dirs = split_on (CHR ''/'') (TrimPrefix p ''/'') in
        if length dirs = 1 then (CHR ''/'' # hd dirs, [], [])
        else (CHR ''/'' # hd dirs, CHR ''/'' # join_slash (tl dirs), tl dirs))"

subsection \<open>1_types.go and helpers.go\<close>

datatype dtree = DirTree (Name: string) (LastFound: int) (SrcRSS: bool) (EndPoint: bool)
  (Dirs: "(string \<times> dtree) list option")

record article =
  Url :: string
  ModTime :: int

record deeper_options =
  Rump :: string
  ExcludeDir :: string
  MinDepthDiff :: int
  MaxDepthDiff :: int
  CondenseTrailingDirs :: int
  MaxNumber :: int

text \<open>\<^verbatim>\<open>path.Dir\<close> and \<^verbatim>\<open>strings.Count(s, "/")\<close>.\<close>

definition path_Dir :: "string \<Rightarrow> string" where
  "path_Dir p = Clean (fst (path_Split p))"

definition slashes :: "string \<Rightarrow> int" where
  "slashes s = int (length (filter (\<lambda>c. c = CHR ''/'') s))"

definition condenseTrailingDir :: "string \<Rightarrow> int \<Rightarrow> string option" where
  "condenseTrailingDir uri n =
     (if n = 0 \<or> n = 1 then Some uri
      else if n = 2 then
        (let base1 = Base uri; rdir1 = path_Dir uri; base2 = Base rdir1; rdir2 = path_Dir rdir1
         in Some (Join2 rdir2 (base2 @ ''-'' @ base1)))
      else None)"

fun matching_loop :: "(string \<rightharpoonup> string) \<Rightarrow> nat \<Rightarrow> string \<Rightarrow> string" where
  "matching_loop rss rounds sp =
     (case rss sp of
        Some uri \<Rightarrow> uri
      | None \<Rightarrow>
          (let sp' = path_Dir sp in
           if sp = ''.'' \<and> sp' = ''.'' \<or> sp = ''/'' \<and> sp' = ''/'' \<or> sp = [] \<and> sp' = ''.'' then []
           else (case rounds of 0 \<Rightarrow> [] | Suc r \<Rightarrow> matching_loop rss r sp')))"

definition matchingRSSURI :: "(string \<rightharpoonup> string) \<Rightarrow> string \<Rightarrow> string" where
  "matchingRSSURI rss searchPrefix = matching_loop rss 20 searchPrefix"

subsection \<open>6_dir_digest_1.go\<close>

definition minute :: int where "minute = 60000000000"

definition Truncate :: "int \<Rightarrow> int" where
  "Truncate t = t - go_mod t minute"

lemma clean_step_weight:
  "(\<Sum>c\<leftarrow>clean_step rooted st w. length c + 1) \<le> (\<Sum>c\<leftarrow>st. length c + 1) + (if w = [] then 0 else length w + 1)"
  by (cases st) auto

lemma clean_steps_weight:
  "(\<Sum>c\<leftarrow>foldl (clean_step rooted) st ws. length c + 1) \<le>
   (\<Sum>c\<leftarrow>st. length c + 1) + (\<Sum>w\<leftarrow>ws. if w = [] then 0 else length w + 1)"
proof (induction ws arbitrary: st)
  case (Cons w ws)
  show ?case using Cons.IH[of "clean_step rooted st w"] clean_step_weight[of rooted st w]
    by (simp del: clean_step.simps)
qed simp

lemma split_on_weight: "(\<Sum>w\<leftarrow>split_on c s. length w + 1) = length s + 1"
proof (induction s)
  case (Cons x s)
  then show ?case by (cases "split_on c s") auto
qed simp

lemma join_slash_weight: "length (join_slash ws) = (\<Sum>w\<leftarrow>ws. length w + 1) - 1"
  by (induction ws rule: join_slash.induct) auto

lemma Clean_length: "p \<noteq> [] \<Longrightarrow> length (Clean p) \<le> length p"
proof -
  assume ne: "p \<noteq> []"
  let ?r = "hd p = CHR ''/''"
  let ?st = "foldl (clean_step ?r) [] (split_on (CHR ''/'') p)"
  have len: "length (join_slash (rev ?st)) = (\<Sum>w\<leftarrow>?st. length w + 1) - 1"
    by (simp only: join_slash_weight rev_map[symmetric] sum_list_rev)
  have le: "(\<Sum>w\<leftarrow>?st. length w + 1) \<le> (\<Sum>w\<leftarrow>split_on (CHR ''/'') p. if w = [] then 0 else length w + 1)"
    using clean_steps_weight[of ?r "[]" "split_on (CHR ''/'') p"] by simp
  have sum: "(\<Sum>w\<leftarrow>ws. if w = [] then 0 else length w + 1) \<le> (\<Sum>w\<leftarrow>ws. length w + 1)" for ws :: "string list"
    by (induction ws) auto
  show ?thesis
  proof (cases ?r)
    case True
    with ne obtain q where p: "p = CHR ''/'' # q" by (cases p) auto
    have "(\<Sum>w\<leftarrow>?st. length w + 1) \<le> length q + 1"
      using le sum[of "split_on (CHR ''/'') q"] split_on_weight[of "CHR ''/''" q] p by simp
    with len ne True p show ?thesis by (simp add: Clean_def Let_def)
  next
    case False
    have "(\<Sum>w\<leftarrow>?st. length w + 1) \<le> length p + 1"
      using le sum[of "split_on (CHR ''/'') p"] split_on_weight[of "CHR ''/''" p] by simp
    with len have "length (join_slash (rev ?st)) \<le> length p" by linarith
    with ne False show ?thesis by (cases p) (auto simp: Clean_def Let_def)
  qed
qed

lemma PathDirReverse_shorter:
  assumes "PathDirReverse p = (dir, r, ds)" "r \<noteq> []"
  shows "length r < length p"
proof -
  define p' where "p' = Join1 (unbackslash p)"
  define q where "q = TrimPrefix p' ''/''"
  have p': "p' \<noteq> []" "p' \<noteq> ''/''" "p' \<noteq> ''.''"
    using assms by (auto simp: PathDirReverse_def p'_def Let_def split: if_split_asm)
  then have "unbackslash p \<noteq> []" by (auto simp: p'_def Join1_def)
  then have len: "length p' \<le> length p"
    using Clean_length[of "unbackslash p"] by (simp add: p'_def Join1_def unbackslash_def)
  obtain w ws where split: "split_on (CHR ''/'') q = w # ws" by (cases "split_on (CHR ''/'') q") auto
  have r: "ws \<noteq> []" "r = CHR ''/'' # join_slash ws"
    using assms p' split unfolding PathDirReverse_def p'_def[symmetric] Let_def q_def[symmetric]
    by (auto split: if_split_asm)
  have weight: "length w + 1 + (\<Sum>w\<leftarrow>ws. length w + 1) = length q + 1"
    using split_on_weight[of "CHR ''/''" q] split by simp
  have "0 < (\<Sum>w\<leftarrow>ws. length w + 1)" using r(1) by (cases ws) auto
  then have r_len: "length r = (\<Sum>w\<leftarrow>ws. length w + 1)" by (simp add: r join_slash_weight)
  have "length q < length p' \<or> w \<noteq> [] \<and> length q = length p'"
  proof (cases "hd p' = CHR ''/''")
    case True
    then have "q = tl p'" using p'(1) by (cases p') (auto simp: q_def TrimPrefix_def HasPrefix_def)
    then show ?thesis using p'(1) by (cases p') auto
  next
    case False
    then have q: "q = p'" using p'(1) by (cases p') (auto simp: q_def TrimPrefix_def HasPrefix_def)
    then have "w \<noteq> []" using split_on_first[OF p'(1), of "CHR ''/''"] False split by auto
    then show ?thesis by (simp add: q)
  qed
  then show ?thesis using weight r_len len by (cases w) auto
qed

text \<open>The loop over the components of a link. The map is shared, so the entry written and what is below it stay; the
  name and the time set on the copy of the entry do not.\<close>

function insert_dirs :: "bool \<Rightarrow> int \<Rightarrow> string \<Rightarrow> (string \<times> dtree) list option \<Rightarrow>
    (string \<times> dtree) list option option" where
  "insert_dirs isRSS found rest m =
     (let (dir, remainder, remDirs) = PathDirReverse rest in
      if dir = ''/'' \<and> remainder = [] then Some m
      else do {
        dirs \<leftarrow> m;
        let d = (case map_of dirs dir of Some d \<Rightarrow> d | None \<Rightarrow> DirTree dir 0 isRSS False (Some []));
        let ep = (EndPoint d \<or> length remDirs < 1 \<or> dir = ''/2015'' \<or> dir = ''/08'' \<or> dir = ''/09'');
        below \<leftarrow> (if remainder = [] then Some (Dirs d) else insert_dirs isRSS found remainder (Dirs d));
        Some (Some (AList.update dir (DirTree (Name d) found (SrcRSS d) ep below) dirs))
      })"
  by pat_completeness auto
termination insert_dirs
  by (relation "measure (\<lambda>(isRSS, found, rest, m). length rest)") (auto dest: PathDirReverse_shorter[OF sym])

declare insert_dirs.simps [simp del]

text \<open>A link without the scheme and the domain of the site.\<close>

definition href_of :: "string \<Rightarrow> article \<Rightarrow> string" where
  "href_of domain art = TrimPrefix (TrimPrefix (Url art) (''http://'' @ domain)) (''https://'' @ domain)"

definition add_article :: "(string \<Rightarrow> string option) \<Rightarrow> string \<Rightarrow> bool \<Rightarrow> int \<Rightarrow> article \<Rightarrow> dtree \<Rightarrow> dtree option" where
  "add_article parse domain isRSS now art t =
     (let md = (if ModTime art = 0 then now else ModTime art); href = href_of domain art
      in if HasPrefix href ''/'' then do {
           path \<leftarrow> parse href;
           let (dir, remainder, remDirs) = PathDirReverse path;
           if dir = ''/'' \<and> remainder = [] then Some t
           else do {
             m \<leftarrow> insert_dirs isRSS (Truncate md) path (Dirs t);
             Some (DirTree (Name t) (Truncate md) (SrcRSS t) (EndPoint t) m)
           }
         }
         else Some t)"

fun path2DirTree :: "(string \<Rightarrow> string option) \<Rightarrow> string \<Rightarrow> bool \<Rightarrow> (article \<times> int) list \<Rightarrow> dtree \<Rightarrow> dtree option" where
  "path2DirTree parse domain isRSS [] t = Some t"
| "path2DirTree parse domain isRSS ((art, now) # arts) t = do {
     t' \<leftarrow> add_article parse domain isRSS now art t;
     path2DirTree parse domain isRSS arts t'
   }"

text \<open>The links of a page are given as the parser finds them.\<close>

definition addAnchors :: "(string \<Rightarrow> string option) \<Rightarrow> int \<Rightarrow> string \<Rightarrow> string list option \<Rightarrow> dtree \<Rightarrow> dtree option" where
  "addAnchors parse now host doc t =
     (case doc of
        None \<Rightarrow> Some t
      | Some hrefs \<Rightarrow> do {
          t' \<leftarrow> path2DirTree parse host False (map (\<lambda>h. (\<lparr>Url = h, ModTime = now\<rparr>, now)) hrefs) t;
          Some (DirTree (Name t') now (SrcRSS t') (EndPoint t') (Dirs t'))
        })"

subsection \<open>6_dir_digest_2.go\<close>

definition subdirs :: "dtree \<Rightarrow> (string \<times> dtree) list" where
  "subdirs t = (case Dirs t of None \<Rightarrow> [] | Some m \<Rightarrow> m)"

function dive :: "string \<Rightarrow> string \<Rightarrow> dtree \<Rightarrow> dtree option \<times> string" where
  "dive rest head t =
     (let (dir, remainder, remDirs) = PathDirReverse rest in
      case map_of (subdirs t) dir of
        None \<Rightarrow> (None, head @ dir)
      | Some d \<Rightarrow> if remainder = [] then (Some d, head @ dir) else dive remainder (head @ dir) d)"
  by pat_completeness auto
termination dive
  by (relation "measure (\<lambda>(rest, head, t). length rest)") (auto dest: PathDirReverse_shorter[OF sym])

declare dive.simps [simp del]

definition DiveToDeepestMatch :: "dtree \<Rightarrow> string \<Rightarrow> dtree option \<times> string" where
  "DiveToDeepestMatch dirTree uriPrefixIncl =
     (if uriPrefixIncl = ''/'' \<or> uriPrefixIncl = [] \<or> uriPrefixIncl = ''.'' then (Some dirTree, [])
      else dive uriPrefixIncl [] dirTree)"

text \<open>The first loop of the recursive function: true when it returns because there are enough.\<close>

definition wanted :: "deeper_options \<Rightarrow> int \<Rightarrow> string \<Rightarrow> dtree \<Rightarrow> bool option" where
  "wanted opt depthRump rmp2 dr2 =
     (if \<not> EndPoint dr2 then Some False
      else do {
        semanticUri \<leftarrow> condenseTrailingDir rmp2 (CondenseTrailingDirs opt);
        let diff = slashes semanticUri - depthRump;
        Some (diff \<le> MaxDepthDiff opt \<and> diff \<ge> MinDepthDiff opt \<and> ExcludeDir opt \<noteq> rmp2)
      })"

definition as_article :: "string \<Rightarrow> dtree \<Rightarrow> article" where
  "as_article rmp2 dr2 = \<lparr>Url = rmp2, ModTime = (if SrcRSS dr2 then LastFound dr2 else 0)\<rparr>"

fun candidates :: "deeper_options \<Rightarrow> int \<Rightarrow> string \<Rightarrow> dtree list \<Rightarrow> article list \<Rightarrow> (bool \<times> article list) option" where
  "candidates opt depthRump rmp1 [] arts = Some (False, arts)"
| "candidates opt depthRump rmp1 (dr2 # drs) arts =
     (if int (length arts) > MaxNumber opt - 1 then Some (True, arts)
      else do {
        w \<leftarrow> wanted opt depthRump (rmp1 @ Name dr2) dr2;
        candidates opt depthRump rmp1 drs (if w then arts @ [as_article (rmp1 @ Name dr2) dr2] else arts)
      })"

lemma map_of_size: "map_of m k = Some d \<Longrightarrow> size d < size_list (size_prod (\<lambda>_. 0) size) m"
  by (induction m) (auto split: if_splits)

lemma subdirs_size: "size_list (size_prod (\<lambda>_. 0) size) (subdirs t) < size t"
  by (cases t) (auto simp: subdirs_def split: option.split)

function deeper :: "deeper_options \<Rightarrow> int \<Rightarrow> string \<Rightarrow> dtree \<Rightarrow> article list \<Rightarrow> article list option"
  and deeper_all :: "deeper_options \<Rightarrow> int \<Rightarrow> string \<Rightarrow> (string \<times> dtree) list \<Rightarrow> string list \<Rightarrow>
    article list \<Rightarrow> article list option" where
  "deeper opt depthRump rmp1 dr1 arts =
     (let dirs = subdirs dr1; keys = sort (map fst dirs) in do {
        (enough, arts1) \<leftarrow> candidates opt depthRump rmp1 (map (\<lambda>k. the (map_of dirs k)) keys) arts;
        if enough then Some arts1 else deeper_all opt depthRump rmp1 dirs keys arts1
      })"
| "deeper_all opt depthRump rmp1 dirs [] arts = Some arts"
| "deeper_all opt depthRump rmp1 dirs (k # ks) arts =
     (case map_of dirs k of
        None \<Rightarrow> deeper_all opt depthRump rmp1 dirs ks arts
      | Some dr2 \<Rightarrow>
          if subdirs dr2 = [] then deeper_all opt depthRump rmp1 dirs ks arts
          else do {
            arts' \<leftarrow> deeper opt depthRump (rmp1 @ Name dr2) dr2 arts;
            deeper_all opt depthRump rmp1 dirs ks arts'
          })"
  by pat_completeness auto
termination deeper
  by (relation "measures [\<lambda>x. case x of Inl (opt, dr, rmp, t, arts) \<Rightarrow> size t
      | Inr (opt, dr, rmp, dirs, ks, arts) \<Rightarrow> size_list (size_prod (\<lambda>_. 0) size) dirs,
      \<lambda>x. case x of Inl _ \<Rightarrow> 0 | Inr (opt, dr, rmp, dirs, ks, arts) \<Rightarrow> length ks]")
    (auto simp: subdirs_size dest: map_of_size)

declare deeper.simps [simp del]

definition LevelWiseDeeper :: "dtree \<Rightarrow> deeper_options \<Rightarrow> article list option" where
  "LevelWiseDeeper dtree opt = deeper opt (slashes (Rump opt)) (Rump opt) dtree []"

subsection \<open>2_config.go, helpers.go and 4_fetch.go: climbing from a prefix\<close>

record fetch_command =
  Host :: string
  SearchPrefix :: string
  RssXMLURI :: "(string \<times> string) list"
  DesiredNumber :: int
  fc_CondenseTrailingDirs :: int
  DepthTolerance :: int

definition ConfigDefaults :: "string \<rightharpoonup> fetch_command" where
  "ConfigDefaults =
     [''unspecified'' \<mapsto> \<lparr>Host = [], SearchPrefix = [], RssXMLURI = [], DesiredNumber = 5,
        fc_CondenseTrailingDirs = 0, DepthTolerance = 1\<rparr>,
      ''www.economist.com'' \<mapsto> \<lparr>Host = [], SearchPrefix = [], RssXMLURI =
        [(''/news/europe'', ''/sections/europe/rss.xml''),
         (''/news/business-and-finance'', ''/sections/business-finance/rss.xml'')], DesiredNumber = 5,
        fc_CondenseTrailingDirs = 0, DepthTolerance = 2\<rparr>,
      ''test.economist.com'' \<mapsto> \<lparr>Host = [], SearchPrefix = [], RssXMLURI =
        [(''/news/business-and-finance'', ''/sections/business-finance/rss.xml'')], DesiredNumber = 5,
        fc_CondenseTrailingDirs = 0, DepthTolerance = 2\<rparr>,
      ''www.welt.de'' \<mapsto> \<lparr>Host = [], SearchPrefix = [], RssXMLURI =
        [(''/wirtschaft/deutschland'', ''/wirtschaft/?service=Rss''),
         (''/wirtschaft/international'', ''/wirtschaft/?service=Rss'')], DesiredNumber = 5,
        fc_CondenseTrailingDirs = 0, DepthTolerance = 1\<rparr>]"

definition addDefaults :: "fetch_command \<Rightarrow> fetch_command" where
  "addDefaults c =
     (let preset = (case ConfigDefaults (Host c) of Some p \<Rightarrow> p
                    | None \<Rightarrow> the (ConfigDefaults ''unspecified''))
      in c\<lparr>DepthTolerance := DepthTolerance preset,
           fc_CondenseTrailingDirs := fc_CondenseTrailingDirs preset,
           DesiredNumber := (if DesiredNumber c = 0 then DesiredNumber preset else DesiredNumber c),
           RssXMLURI := (if RssXMLURI c = [] then RssXMLURI preset else RssXMLURI c)\<rparr>)"

text \<open>The articles sent to the workers; the channel is open as long as the collector does not time out.\<close>

definition stuffStage1 :: "fetch_command \<Rightarrow> dtree \<Rightarrow> string \<Rightarrow> string \<Rightarrow> int \<Rightarrow> article list option" where
  "stuffStage1 config dirTree uriPrefixExcl uriPrefixIncl nWant =
     (case DiveToDeepestMatch dirTree uriPrefixIncl of
        (None, head) \<Rightarrow> Some []
      | (Some subtree, head) \<Rightarrow> do {
          articles \<leftarrow> LevelWiseDeeper subtree \<lparr>Rump = head, ExcludeDir = uriPrefixExcl, MinDepthDiff = 0,
            MaxDepthDiff = DepthTolerance config, CondenseTrailingDirs = fc_CondenseTrailingDirs config,
            MaxNumber = nWant\<rparr>;
          Some (map (\<lambda>a. a\<lparr>Url := Host config @ Url a\<rparr>) (take (nat (max 1 nWant)) articles))
        })"

fun stuff_loop :: "fetch_command \<Rightarrow> dtree \<Rightarrow> nat \<Rightarrow> string \<Rightarrow> string \<Rightarrow> int \<Rightarrow> article list option" where
  "stuff_loop config dirTree 0 uriPrefixExcl uriPrefix found = Some []"
| "stuff_loop config dirTree (Suc rounds) uriPrefixExcl uriPrefix found = do {
     arts \<leftarrow> stuffStage1 config dirTree uriPrefixExcl uriPrefix (DesiredNumber config - found);
     let found' = found + int (length arts);
     if found' \<ge> DesiredNumber config \<or> uriPrefix = ''/'' \<or> uriPrefix = ''.'' then Some arts
     else do {
       more \<leftarrow> stuff_loop config dirTree rounds uriPrefix (path_Dir uriPrefix) found';
       Some (arts @ more)
     }
   }"

definition load_stage1 :: "fetch_command \<Rightarrow> dtree \<Rightarrow> article list option" where
  "load_stage1 config dirTree = stuff_loop config dirTree 15 ''impossible'' (SearchPrefix config) 0"

subsection \<open>8_fetch_similar.go: the search for similar links\<close>

text \<open>\<open>fetch\<close> stands for \<^verbatim>\<open>fetchSave\<close>: \<^verbatim>\<open>None\<close> is its error, otherwise it tells whether a stored
  page was used, and the links of the page. The subtree found before the crawl shares its maps with the tree, so it
  has the links that the crawl adds.\<close>

record search =
  s_tree :: dtree
  treePath :: string
  alreadyCrawled :: "string list"
  links :: "article list"

definition similar_options :: "fetch_command \<Rightarrow> string \<Rightarrow> int \<Rightarrow> deeper_options" where
  "similar_options cmd rump d = \<lparr>Rump = rump, ExcludeDir = ''/something-impossible'', MinDepthDiff = d,
     MaxDepthDiff = d, CondenseTrailingDirs = fc_CondenseTrailingDirs cmd, MaxNumber = DesiredNumber cmd + 40\<rparr>"

fun search_inner :: "(string \<Rightarrow> string option) \<Rightarrow> (string \<Rightarrow> (bool \<times> string list option) option) \<Rightarrow> int \<Rightarrow>
    fetch_command \<Rightarrow> int \<Rightarrow> int list \<Rightarrow> search \<Rightarrow> (bool \<times> search) option" where
  "search_inner parse fetch now cmd j [] s = Some (False, s)"
| "search_inner parse fetch now cmd j (i # is) s =
     (case DiveToDeepestMatch (s_tree s) (treePath s) of
        (subtree, path) \<Rightarrow>
          if path \<in> set (alreadyCrawled s) then search_inner parse fetch now cmd j is (s\<lparr>treePath := path\<rparr>)
          else do {
            (usedExisting, doc) \<leftarrow> fetch (Join2 (Host cmd) path);
            tree' \<leftarrow> (if usedExisting then Some (s_tree s) else addAnchors parse now (Host cmd) doc (s_tree s));
            let s' = s\<lparr>s_tree := tree', treePath := path, alreadyCrawled := path # alreadyCrawled s\<rparr>;
            (case (subtree, fst (DiveToDeepestMatch tree' (treePath s))) of
               (Some before, Some sub) \<Rightarrow> do {
                 lvlLinks \<leftarrow> LevelWiseDeeper sub (similar_options cmd path (i - j));
                 let s'' = s'\<lparr>links := links s' @ lvlLinks\<rparr>;
                 if int (length (links s'')) \<ge> DesiredNumber cmd + 40 then Some (True, s'')
                 else (let path' = path_Dir path in
                   if path = ''.'' \<and> path' = ''.'' \<or> path = ''/'' \<and> path' = ''/'' \<or> path = [] \<and> path' = ''.''
                   then Some (False, s''\<lparr>treePath := path'\<rparr>)
                   else search_inner parse fetch now cmd j is (s''\<lparr>treePath := path'\<rparr>))
               }
             | _ \<Rightarrow> search_inner parse fetch now cmd j is s')
          })"

fun search_outer :: "(string \<Rightarrow> string option) \<Rightarrow> (string \<Rightarrow> (bool \<times> string list option) option) \<Rightarrow> int \<Rightarrow>
    fetch_command \<Rightarrow> int \<Rightarrow> int list \<Rightarrow> search \<Rightarrow> search option" where
  "search_outer parse fetch now cmd srcDepth [] s = Some s"
| "search_outer parse fetch now cmd srcDepth (j # js) s = do {
     (stop, s') \<leftarrow> search_inner parse fetch now cmd j [1..srcDepth + 4]
                    (s\<lparr>treePath := path_Dir (SearchPrefix cmd)\<rparr>);
     if stop then Some s' else search_outer parse fetch now cmd srcDepth js s'
   }"

definition similar_links :: "(string \<Rightarrow> string option) \<Rightarrow> (string \<Rightarrow> (bool \<times> string list option) option) \<Rightarrow> int \<Rightarrow>
    fetch_command \<Rightarrow> dtree \<Rightarrow> search option" where
  "similar_links parse fetch now cmd t = do {
     (usedExisting, doc) \<leftarrow> fetch (Join2 (Host cmd) (SearchPrefix cmd));
     t' \<leftarrow> (if usedExisting then Some t else addAnchors parse now (Host cmd) doc t);
     let srcDepth = slashes (SearchPrefix cmd);
     search_outer parse fetch now cmd srcDepth [0..srcDepth - 1]
       \<lparr>s_tree = t', treePath = path_Dir (SearchPrefix cmd), alreadyCrawled = [], links = []\<rparr>
   }"

subsection \<open>Paths below the root\<close>

text \<open>A component that the normalisation keeps, and the path of a list of components.\<close>

definition proper :: "string \<Rightarrow> bool" where
  "proper w \<longleftrightarrow> w \<noteq> [] \<and> w \<noteq> ''.'' \<and> w \<noteq> ''..'' \<and> CHR ''/'' \<notin> set w \<and> CHR 0x5C \<notin> set w"

fun rooted :: "string list \<Rightarrow> string" where
  "rooted [] = []"
| "rooted (w # ws) = (CHR ''/'' # w) @ rooted ws"

lemma rooted_join: "ws \<noteq> [] \<Longrightarrow> rooted ws = CHR ''/'' # join_slash ws"
  by (induction ws rule: join_slash.induct) auto

lemma rooted_append [simp]: "rooted (us @ ws) = rooted us @ rooted ws"
  by (induction us) auto

lemma rooted_Nil [simp]: "rooted ws = [] \<longleftrightarrow> ws = []"
  by (cases ws) auto

lemma properD: "proper w \<Longrightarrow> w \<noteq> [] \<and> w \<noteq> ''.'' \<and> w \<noteq> ''..'' \<and> CHR ''/'' \<notin> set w \<and> CHR 0x5C \<notin> set w"
  by (simp add: proper_def)

lemma clean_proper: "\<forall>w\<in>set ws. proper w \<Longrightarrow> foldl (clean_step True) st ws = rev ws @ st"
  by (induction ws arbitrary: st) (auto dest: properD)

lemma unbackslash_rooted: "\<forall>w\<in>set ws. proper w \<Longrightarrow> unbackslash (rooted ws) = rooted ws"
proof (induction ws)
  case (Cons w ws)
  then have "map (\<lambda>c. if c = CHR 0x5C then CHR ''/'' else c) w = w"
    by (intro map_idI) (auto dest: properD)
  with Cons show ?case by (simp add: unbackslash_def)
qed (simp add: unbackslash_def)

lemma split_rooted:
  assumes "\<forall>w\<in>set ws. proper w" "ws \<noteq> []"
  shows "split_on (CHR ''/'') (join_slash ws) = ws"
  by (rule split_on_join) (use assms in \<open>auto dest: properD\<close>)

lemma Clean_rooted:
  assumes "\<forall>w\<in>set ws. proper w" "ws \<noteq> []"
  shows "Clean (rooted ws) = rooted ws"
  using assms clean_proper[OF assms(1), of "[]"] split_rooted[OF assms]
  by (simp add: Clean_def rooted_join)

lemma PathDirReverse_rooted:
  assumes "\<forall>w\<in>set (w # ws). proper w"
  shows "PathDirReverse (rooted (w # ws)) = (CHR ''/'' # w, rooted ws, ws)"
proof -
  have clean: "Join1 (unbackslash (rooted (w # ws))) = rooted (w # ws)"
    using Clean_rooted[OF assms] unbackslash_rooted[OF assms] by (simp add: Join1_def)
  have "w \<noteq> []" using assms by (auto dest: properD)
  then have ne: "rooted (w # ws) \<noteq> ''/''" "rooted (w # ws) \<noteq> ''.''" by (simp_all add: rooted_join)
  have "TrimPrefix (rooted (w # ws)) ''/'' = join_slash (w # ws)"
    by (simp add: rooted_join TrimPrefix_def HasPrefix_def del: rooted.simps)
  then show ?thesis using clean ne split_rooted[OF assms]
    by (cases ws) (simp_all add: PathDirReverse_def rooted_join del: rooted.simps, simp_all)
qed

text \<open>The directory of a list of components below a list of subdirectories.\<close>

fun look :: "(string \<times> dtree) list \<Rightarrow> string list \<Rightarrow> dtree option" where
  "look m [] = None"
| "look m (w # ws) =
     (case map_of m (CHR ''/'' # w) of None \<Rightarrow> None
      | Some d \<Rightarrow> if ws = [] then Some d else look (subdirs d) ws)"

text \<open>The components down to the first that is missing.\<close>

fun reach :: "(string \<times> dtree) list \<Rightarrow> string list \<Rightarrow> string list" where
  "reach m [] = []"
| "reach m (w # ws) =
     w # (case map_of m (CHR ''/'' # w) of None \<Rightarrow> [] | Some d \<Rightarrow> reach (subdirs d) ws)"

lemma reach_found: "look m ws \<noteq> None \<Longrightarrow> reach m ws = ws"
  by (induction ws arbitrary: m) (auto split: option.splits if_splits)

lemma reach_prefix: "\<exists>us. ws = reach m ws @ us"
  by (induction ws arbitrary: m) (auto split: option.split)

lemma reach_ne: "ws \<noteq> [] \<Longrightarrow> reach m ws \<noteq> []"
  by (cases ws) auto

lemma reach_again: "reach m (reach m ws) = reach m ws"
  by (induction ws arbitrary: m) (auto split: option.split)

lemma dive_rooted:
  assumes "\<forall>w\<in>set ws. proper w" "ws \<noteq> []"
  shows "dive (rooted ws) head t = (look (subdirs t) ws, head @ rooted (reach (subdirs t) ws))"
  using assms
proof (induction ws arbitrary: head t)
  case (Cons w ws)
  have d: "dive (rooted (w # ws)) head t =
      (case map_of (subdirs t) (CHR ''/'' # w) of None \<Rightarrow> (None, head @ CHR ''/'' # w)
       | Some s \<Rightarrow> if ws = [] then (Some s, head @ CHR ''/'' # w) else dive (rooted ws) (head @ CHR ''/'' # w) s)"
    by (subst dive.simps) (simp only: PathDirReverse_rooted[OF Cons.prems(1)] Let_def prod.case rooted_Nil)
  show ?case unfolding d using Cons.IH Cons.prems(1)
    by (cases "map_of (subdirs t) (CHR ''/'' # w)") auto
qed simp

lemma rooted_not_root: "\<forall>w\<in>set ws. proper w \<Longrightarrow> ws \<noteq> [] \<Longrightarrow> rooted ws \<noteq> ''/'' \<and> rooted ws \<noteq> ''.''"
  by (cases ws) (auto dest: properD)

lemma Dive_rooted:
  assumes "\<forall>w\<in>set ws. proper w" "ws \<noteq> []"
  shows "DiveToDeepestMatch t (rooted ws) = (look (subdirs t) ws, rooted (reach (subdirs t) ws))"
  using dive_rooted[OF assms, of "[]" t] rooted_not_root[OF assms] assms(2)
  by (simp add: DiveToDeepestMatch_def)

subsection \<open>Adding a link\<close>

text \<open>What the code relies on: no nil maps, and an entry is named as its key.\<close>

fun tree_ok :: "dtree \<Rightarrow> bool" where
  "tree_ok (DirTree nm lf src ep None) = False"
| "tree_ok (DirTree nm lf src ep (Some m)) \<longleftrightarrow> distinct (map fst m) \<and>
     (\<forall>x\<in>set m. Name (snd x) = fst x \<and> (\<exists>w. proper w \<and> fst x = CHR ''/'' # w) \<and> tree_ok (snd x))"

definition subs_ok :: "(string \<times> dtree) list \<Rightarrow> bool" where
  "subs_ok m \<longleftrightarrow> distinct (map fst m) \<and>
     (\<forall>x\<in>set m. Name (snd x) = fst x \<and> (\<exists>w. proper w \<and> fst x = CHR ''/'' # w) \<and> tree_ok (snd x))"

lemma tree_ok_iff: "tree_ok t \<longleftrightarrow> Dirs t = Some (subdirs t) \<and> subs_ok (subdirs t)"
  by (cases t rule: tree_ok.cases) (auto simp: subdirs_def subs_ok_def)

lemma subs_ok_Nil [simp]: "subs_ok []"
  by (simp add: subs_ok_def)

lemma subs_okD: "subs_ok m \<Longrightarrow> map_of m k = Some d \<Longrightarrow> Name d = k \<and> tree_ok d"
  by (auto simp: subs_ok_def dest: map_of_SomeD)

lemma subs_ok_update:
  assumes "subs_ok m" "tree_ok d" "Name d = CHR ''/'' # w" "proper w"
  shows "subs_ok (AList.update (CHR ''/'' # w) d m)"
proof -
  have "distinct (map fst (AList.update (CHR ''/'' # w) d m))"
    using assms(1) by (simp add: subs_ok_def distinct_update)
  moreover have "Name (snd x) = fst x \<and> (\<exists>w. proper w \<and> fst x = CHR ''/'' # w) \<and> tree_ok (snd x)"
    if "x \<in> set (AList.update (CHR ''/'' # w) d m)" for x
  proof -
    from that have "map_of (AList.update (CHR ''/'' # w) d m) (fst x) = Some (snd x)"
      using calculation by (simp add: map_of_eq_Some_iff)
    then have "((map_of m)(CHR ''/'' # w \<mapsto> d)) (fst x) = Some (snd x)" by (simp only: update_conv')
    then consider "fst x = CHR ''/'' # w" "snd x = d" | "map_of m (fst x) = Some (snd x)"
      by (cases "fst x = CHR ''/'' # w") simp_all
    then show ?thesis
    proof cases
      case 1
      then show ?thesis using assms(2-4) by simp
    next
      case 2
      then have "(fst x, snd x) \<in> set m" by (rule map_of_SomeD)
      then show ?thesis using assms(1) by (simp add: subs_ok_def)
    qed
  qed
  ultimately show ?thesis by (simp add: subs_ok_def)
qed

definition dated :: "string \<Rightarrow> bool" where
  "dated w \<longleftrightarrow> w = ''2015'' \<or> w = ''08'' \<or> w = ''09''"

definition entry :: "bool \<Rightarrow> (string \<times> dtree) list \<Rightarrow> string \<Rightarrow> dtree" where
  "entry isRSS m k = (case map_of m k of Some d \<Rightarrow> d | None \<Rightarrow> DirTree k 0 isRSS False (Some []))"

lemma insert_dirs_rooted:
  assumes "\<forall>w\<in>set (w # ws). proper w"
  shows "insert_dirs isRSS found (rooted (w # ws)) (Some m) =
     (let d = entry isRSS m (CHR ''/'' # w) in do {
        below \<leftarrow> (if ws = [] then Some (Dirs d) else insert_dirs isRSS found (rooted ws) (Dirs d));
        Some (Some (AList.update (CHR ''/'' # w)
          (DirTree (Name d) found (SrcRSS d) (EndPoint d \<or> ws = [] \<or> dated w) below) m))
      })"
proof -
  have "w \<noteq> []" using assms by (auto dest: properD)
  then show ?thesis
    by (subst insert_dirs.simps)
      (simp add: PathDirReverse_rooted[OF assms] entry_def dated_def Let_def del: rooted.simps)
qed

definition known :: "(string \<times> dtree) list \<Rightarrow> string list set" where
  "known m = {vs. look m vs \<noteq> None}"

definition endpoints :: "(string \<times> dtree) list \<Rightarrow> string list set" where
  "endpoints m = {vs. \<exists>d. look m vs = Some d \<and> EndPoint d}"

text \<open>The directories on the way to a link, and those of them that become end points.\<close>

definition on_the_way :: "string list \<Rightarrow> string list set" where
  "on_the_way ws = {vs. vs \<noteq> [] \<and> (\<exists>us. ws = vs @ us)}"

definition marked :: "string list \<Rightarrow> string list set" where
  "marked ws = {vs \<in> on_the_way ws. vs = ws \<or> dated (last vs)}"

lemma on_the_way_Cons: "v # vs \<in> on_the_way (w # ws) \<longleftrightarrow> v = w \<and> (vs = [] \<or> vs \<in> on_the_way ws)"
  by (auto simp: on_the_way_def)

lemma marked_Cons:
  "v # vs \<in> marked (w # ws) \<longleftrightarrow> v = w \<and> (if vs = [] then ws = [] \<or> dated w else vs \<in> marked ws)"
  by (auto simp: marked_def on_the_way_Cons)

lemma look_update: "look (AList.update (CHR ''/'' # w) d m) (v # vs) =
    (if v = w then (if vs = [] then Some d else look (subdirs d) vs) else look m (v # vs))"
  by (simp add: update_conv')

lemma look_entry: "look (subdirs (entry isRSS m (CHR ''/'' # w))) vs = (if vs = [] then None else look m (w # vs))"
  by (cases vs) (auto simp: entry_def subdirs_def split: option.split)

lemma look_single: "map_of m (CHR ''/'' # w) = None \<Longrightarrow> look m (w # vs) = None"
  by simp

text \<open>A link makes exactly the directories on its way known, and marks its own and the dated ones as end points.\<close>

definition extends :: "(string \<times> dtree) list \<Rightarrow> (string \<times> dtree) list \<Rightarrow> string list \<Rightarrow> bool" where
  "extends m m' ws \<longleftrightarrow> known m' = known m \<union> on_the_way ws \<and> endpoints m' = endpoints m \<union> marked ws"

lemma extends_iff: "extends m m' ws \<longleftrightarrow> (\<forall>v vs.
    (look m' (v # vs) \<noteq> None \<longleftrightarrow> look m (v # vs) \<noteq> None \<or> v # vs \<in> on_the_way ws) \<and>
    ((\<exists>d. look m' (v # vs) = Some d \<and> EndPoint d) \<longleftrightarrow>
     (\<exists>d. look m (v # vs) = Some d \<and> EndPoint d) \<or> v # vs \<in> marked ws))"
proof -
  have ne: "[] \<notin> known m" "[] \<notin> known m'" "[] \<notin> on_the_way ws" "[] \<notin> endpoints m" "[] \<notin> endpoints m'"
    "[] \<notin> marked ws" for m m' ws by (simp_all add: known_def on_the_way_def endpoints_def marked_def)
  have split: "A = B \<longleftrightarrow> (\<forall>v vs. v # vs \<in> A \<longleftrightarrow> v # vs \<in> B)" if "[] \<notin> A" "[] \<notin> B" for A B :: "string list set"
    using that by (metis list.exhaust subsetI subset_antisym)
  show ?thesis unfolding extends_def
    by (subst (1 2) split) (use ne in \<open>simp_all add: known_def endpoints_def all_conj_distrib\<close>)
qed

lemma insert_extends:
  assumes "\<forall>w\<in>set ws. proper w" "ws \<noteq> []" "subs_ok m"
  shows "\<exists>m'. insert_dirs isRSS found (rooted ws) (Some m) = Some (Some m') \<and> subs_ok m' \<and> extends m m' ws"
  using assms
proof (induction ws arbitrary: m)
  case (Cons w ws)
  let ?k = "CHR ''/'' # w"
  let ?d = "entry isRSS m ?k"
  let ?new = "\<lambda>below. DirTree (Name ?d) found (SrcRSS ?d) (EndPoint ?d \<or> ws = [] \<or> dated w) (Some below)"
  have w: "proper w" "\<forall>w\<in>set ws. proper w" using Cons.prems(1) by simp_all
  have d: "Name ?d = ?k" "tree_ok ?d"
    using subs_okD[OF Cons.prems(3), of ?k] by (auto simp: entry_def split: option.split)
  then have dirs: "Dirs ?d = Some (subdirs ?d)" "subs_ok (subdirs ?d)" by (simp_all add: tree_ok_iff)
  have ex: "\<exists>below. (if ws = [] then Some (Dirs ?d) else insert_dirs isRSS found (rooted ws) (Dirs ?d)) = Some (Some below) \<and>
      subs_ok below \<and> (if ws = [] then below = subdirs ?d else extends (subdirs ?d) below ws)"
    using Cons.IH[OF w(2) _ dirs(2)] dirs by auto
  then obtain below where below: "(if ws = [] then Some (Dirs ?d) else insert_dirs isRSS found (rooted ws) (Dirs ?d)) =
      Some (Some below)" "subs_ok below" "if ws = [] then below = subdirs ?d else extends (subdirs ?d) below ws" by blast
  let ?m' = "AList.update ?k (?new below) m"
  have "insert_dirs isRSS found (rooted (w # ws)) (Some m) = Some (Some ?m')"
    unfolding insert_dirs_rooted[OF Cons.prems(1)] Let_def below(1) by simp
  moreover have "subs_ok ?m'"
    by (rule subs_ok_update[OF Cons.prems(3) _ _ w(1)]) (use below(2) d(1) in \<open>simp_all add: subs_ok_def\<close>)
  moreover have "extends m ?m' (w # ws)"
    unfolding extends_iff
  proof (intro allI)
    fix v vs
    have le: "look below vs = look (subdirs ?d) vs" if "ws = []" using below(3) that by simp
    have ext: "extends (subdirs ?d) below ws" if "ws \<noteq> []" using below(3) that by simp
    have ep: "EndPoint ?d \<longleftrightarrow> (\<exists>d. look m [w] = Some d \<and> EndPoint d)"
      by (auto simp: entry_def split: option.split)
    have way: "on_the_way [] = {}" "marked [] = {}" by (auto simp: on_the_way_def marked_def)
    show "(look ?m' (v # vs) \<noteq> None \<longleftrightarrow> look m (v # vs) \<noteq> None \<or> v # vs \<in> on_the_way (w # ws)) \<and>
      ((\<exists>d. look ?m' (v # vs) = Some d \<and> EndPoint d) \<longleftrightarrow>
       (\<exists>d. look m (v # vs) = Some d \<and> EndPoint d) \<or> v # vs \<in> marked (w # ws))"
    proof (cases "v = w")
      case False
      then show ?thesis by (simp only: look_update on_the_way_Cons marked_Cons if_False simp_thms)
    next
      case v: True
      show ?thesis
      proof (cases vs)
        case Nil
        then show ?thesis unfolding v look_update on_the_way_Cons marked_Cons using ep by simp
      next
        case (Cons u us)
        then have "look m (w # vs) = look (subdirs ?d) vs" "look ?m' (w # vs) = look below vs"
          by (simp_all only: look_entry look_update if_True list.distinct if_False) (simp add: subdirs_def)
        then show ?thesis unfolding v on_the_way_Cons marked_Cons using le ext[unfolded extends_iff] way Cons
          by (cases "ws = []") simp_all
      qed
    qed
  qed
  ultimately show ?case by blast
qed simp

lemma rooted_inj:
  assumes "rooted us = rooted ws" "\<forall>w\<in>set us. proper w" "\<forall>w\<in>set ws. proper w"
  shows "us = ws"
proof (cases "us = [] \<or> ws = []")
  case False
  then have "join_slash us = join_slash ws" using assms(1) by (simp add: rooted_join)
  then show ?thesis using split_rooted[OF assms(2)] split_rooted[OF assms(3)] False by metis
qed (use assms(1) rooted_Nil in metis)

text \<open>The components of a local link.\<close>

definition local_paths :: "(string \<Rightarrow> string option) \<Rightarrow> string \<Rightarrow> article \<Rightarrow> string list set" where
  "local_paths parse domain art = {ws. HasPrefix (href_of domain art) ''/'' \<and>
     parse (href_of domain art) = Some (rooted ws) \<and> (\<forall>w\<in>set ws. proper w)}"

definition parsed_ok :: "(string \<Rightarrow> string option) \<Rightarrow> string \<Rightarrow> article \<Rightarrow> bool" where
  "parsed_ok parse domain art \<longleftrightarrow> HasPrefix (href_of domain art) ''/'' \<longrightarrow>
     (\<exists>ws. parse (href_of domain art) = Some (rooted ws) \<and> (\<forall>w\<in>set ws. proper w))"

lemma extends_Nil: "extends m m []"
  by (simp add: extends_def on_the_way_def marked_def)

lemma local_paths_single:
  "ws \<in> local_paths parse domain art \<Longrightarrow> local_paths parse domain art = {ws}"
  by (auto simp: local_paths_def intro: rooted_inj)

lemma add_article_extends:
  assumes "tree_ok t" "parsed_ok parse domain art"
  shows "\<exists>t'. add_article parse domain isRSS now art t = Some t' \<and> tree_ok t' \<and>
    known (subdirs t') = known (subdirs t) \<union> (\<Union>ws\<in>local_paths parse domain art. on_the_way ws) \<and>
    endpoints (subdirs t') = endpoints (subdirs t) \<union> (\<Union>ws\<in>local_paths parse domain art. marked ws)"
proof (cases "HasPrefix (href_of domain art) ''/''")
  case False
  then show ?thesis using assms(1) by (auto simp: add_article_def Let_def local_paths_def)
next
  case True
  then obtain ws where ws: "parse (href_of domain art) = Some (rooted ws)" "\<forall>w\<in>set ws. proper w"
    using assms(2) by (auto simp: parsed_ok_def)
  then have single: "local_paths parse domain art = {ws}"
    using True by (intro local_paths_single) (simp add: local_paths_def)
  show ?thesis
  proof (cases ws)
    case Nil
    have "PathDirReverse [] = (''/'', [], [])" by (simp add: PathDirReverse_def unbackslash_def Join1_def)
    with True ws Nil have "add_article parse domain isRSS now art t = Some t"
      by (simp add: add_article_def Let_def)
    then show ?thesis using assms(1) extends_Nil[of "subdirs t"] by (simp add: single Nil extends_def)
  next
    case (Cons w vs)
    let ?f = "Truncate (if ModTime art = 0 then now else ModTime art)"
    have sub: "Dirs t = Some (subdirs t)" "subs_ok (subdirs t)" using assms(1) by (simp_all add: tree_ok_iff)
    obtain m' where m': "insert_dirs isRSS ?f (rooted ws) (Some (subdirs t)) = Some (Some m')" "subs_ok m'"
      "extends (subdirs t) m' ws"
      using insert_extends[OF ws(2) _ sub(2)] Cons by blast
    have "w \<noteq> []" using ws(2) Cons by (auto dest: properD)
    then have "add_article parse domain isRSS now art t = Some (DirTree (Name t) ?f (SrcRSS t) (EndPoint t) (Some m'))"
      using True ws(1) m'(1) PathDirReverse_rooted[of w vs] ws(2)
      by (simp add: add_article_def Let_def sub(1) Cons del: rooted.simps)
    then show ?thesis using m'(2,3) by (simp add: single extends_def tree_ok_iff subdirs_def)
  qed
qed

lemma path2DirTree_extends:
  "tree_ok t \<Longrightarrow> \<forall>x\<in>set arts. parsed_ok parse domain (fst x) \<Longrightarrow>
    \<exists>t'. path2DirTree parse domain isRSS arts t = Some t' \<and> tree_ok t' \<and>
    known (subdirs t') = known (subdirs t) \<union> (\<Union>x\<in>set arts. \<Union>ws\<in>local_paths parse domain (fst x). on_the_way ws) \<and>
    endpoints (subdirs t') = endpoints (subdirs t) \<union> (\<Union>x\<in>set arts. \<Union>ws\<in>local_paths parse domain (fst x). marked ws)"
proof (induction arts arbitrary: t)
  case (Cons x arts)
  obtain art now where x: "x = (art, now)" by (cases x) auto
  obtain t1 where t1: "add_article parse domain isRSS now art t = Some t1" "tree_ok t1"
    "known (subdirs t1) = known (subdirs t) \<union> (\<Union>ws\<in>local_paths parse domain art. on_the_way ws)"
    "endpoints (subdirs t1) = endpoints (subdirs t) \<union> (\<Union>ws\<in>local_paths parse domain art. marked ws)"
    using add_article_extends[OF Cons.prems(1), of parse domain art isRSS now] Cons.prems(2) x by auto
  from Cons.IH[OF t1(2)] Cons.prems(2) obtain t' where t': "path2DirTree parse domain isRSS arts t1 = Some t'" "tree_ok t'"
    "known (subdirs t') = known (subdirs t1) \<union> (\<Union>x\<in>set arts. \<Union>ws\<in>local_paths parse domain (fst x). on_the_way ws)"
    "endpoints (subdirs t') = endpoints (subdirs t1) \<union> (\<Union>x\<in>set arts. \<Union>ws\<in>local_paths parse domain (fst x). marked ws)"
    by auto
  show ?case by (rule exI[of _ t']) (simp add: x t1 t' Un_assoc)
qed simp

subsection \<open>Listing the end points\<close>

text \<open>The listing without its limit: the end points of a directory in the order of their names, then those below
  each of its subdirectories.\<close>

definition entries :: "dtree \<Rightarrow> dtree list" where
  "entries t = map (\<lambda>k. the (map_of (subdirs t) k)) (sort (map fst (subdirs t)))"

lemma entries_size: "d \<in> set (entries t) \<Longrightarrow> size d < size t"
  using map_of_size subdirs_size[of t]
  by (fastforce simp: entries_def weak_map_of_SomeI image_iff dest: weak_map_of_SomeI)

lemma entries_empty: "subdirs t = [] \<Longrightarrow> entries t = []"
  by (simp add: entries_def)

definition eligible :: "deeper_options \<Rightarrow> int \<Rightarrow> string \<Rightarrow> dtree \<Rightarrow> bool" where
  "eligible opt depthRump rmp2 d \<longleftrightarrow> EndPoint d \<and> slashes rmp2 - depthRump \<le> MaxDepthDiff opt \<and>
     MinDepthDiff opt \<le> slashes rmp2 - depthRump \<and> ExcludeDir opt \<noteq> rmp2"

definition selection :: "deeper_options \<Rightarrow> int \<Rightarrow> string \<Rightarrow> dtree list \<Rightarrow> article list" where
  "selection opt dr rmp ds = map (\<lambda>d. as_article (rmp @ Name d) d) (filter (\<lambda>d. eligible opt dr (rmp @ Name d) d) ds)"

function listing :: "deeper_options \<Rightarrow> int \<Rightarrow> string \<Rightarrow> dtree \<Rightarrow> article list" where
  "listing opt dr rmp t =
     selection opt dr rmp (entries t) @ concat (map (\<lambda>d. listing opt dr (rmp @ Name d) d) (entries t))"
  by pat_completeness auto
termination listing
  by (relation "measure (\<lambda>(opt, dr, rmp, t). size t)") (auto simp: entries_size)

declare listing.simps [simp del]

definition plain_options :: "deeper_options \<Rightarrow> bool" where
  "plain_options opt \<longleftrightarrow> CondenseTrailingDirs opt = 0 \<or> CondenseTrailingDirs opt = 1"

lemma wanted_plain: "plain_options opt \<Longrightarrow> wanted opt dr rmp2 d = Some (eligible opt dr rmp2 d)"
  by (auto simp: wanted_def plain_options_def condenseTrailingDir_def eligible_def Let_def)

definition room :: "deeper_options \<Rightarrow> article list \<Rightarrow> nat" where
  "room opt arts = nat (MaxNumber opt - int (length arts))"

lemma room_take: "room opt (arts @ take (room opt arts) xs) = room opt arts - length xs"
  by (auto simp: room_def min_def)

lemma candidates_plain:
  assumes "plain_options opt"
  shows "\<exists>stop. candidates opt dr rmp ds arts = Some (stop, arts @ take (room opt arts) (selection opt dr rmp ds)) \<and>
    (if stop then room opt arts \<le> length (selection opt dr rmp ds)
     else length (selection opt dr rmp ds) \<le> room opt arts)"
proof (induction ds arbitrary: arts)
  case (Cons d ds)
  show ?case
  proof (cases "int (length arts) > MaxNumber opt - 1")
    case True
    then show ?thesis by (intro exI[of _ True]) (simp add: room_def)
  next
    case False
    let ?arts = "if eligible opt dr (rmp @ Name d) d then arts @ [as_article (rmp @ Name d) d] else arts"
    from False have eq: "candidates opt dr rmp (d # ds) arts = candidates opt dr rmp ds ?arts"
      by (simp add: wanted_plain[OF assms])
    obtain stop where s: "candidates opt dr rmp ds ?arts = Some (stop, ?arts @ take (room opt ?arts) (selection opt dr rmp ds))"
      "if stop then room opt ?arts \<le> length (selection opt dr rmp ds) else length (selection opt dr rmp ds) \<le> room opt ?arts"
      using Cons.IH[of ?arts] by blast
    from False have r: "room opt arts = Suc (room opt (arts @ [x]))" for x by (simp add: room_def)
    show ?thesis unfolding eq s(1) using s(2) r[of "as_article (rmp @ Name d) d"]
      by (intro exI[of _ stop]) (cases "eligible opt dr (rmp @ Name d) d"; cases stop; simp add: selection_def)
  qed
qed (intro exI[of _ False], simp add: selection_def)

lemma take_append_more: "take n xs @ take (n - length xs) ys = take n (xs @ ys)"
  by simp

lemma deeper_plain:
  "plain_options opt \<Longrightarrow> deeper opt dr rmp t arts = Some (arts @ take (room opt arts) (listing opt dr rmp t))"
  "plain_options opt \<Longrightarrow> deeper_all opt dr rmp dirs ks arts =
     Some (arts @ take (room opt arts) (concat (map (\<lambda>k. case map_of dirs k of None \<Rightarrow> []
       | Some d \<Rightarrow> listing opt dr (rmp @ Name d) d) ks)))"
proof (induction opt dr rmp t arts and opt dr rmp dirs ks arts rule: deeper_deeper_all.induct)
  case (1 opt dr rmp t arts)
  let ?sel = "selection opt dr rmp (entries t)"
  let ?keys = "sort (map fst (subdirs t))"
  have below: "concat (map (\<lambda>k. case map_of (subdirs t) k of None \<Rightarrow> [] | Some d \<Rightarrow> listing opt dr (rmp @ Name d) d) ?keys) =
      concat (map (\<lambda>d. listing opt dr (rmp @ Name d) d) (entries t))"
    unfolding entries_def map_map
    by (intro arg_cong[of _ _ concat] map_cong) (auto dest: weak_map_of_SomeI split: option.split)
  obtain stop where c: "candidates opt dr rmp (entries t) arts = Some (stop, arts @ take (room opt arts) ?sel)"
    "if stop then room opt arts \<le> length ?sel else length ?sel \<le> room opt arts"
    using candidates_plain[OF "1.prems"] by blast
  show ?case
  proof (cases stop)
    case True
    then show ?thesis using c
      by (simp add: deeper.simps entries_def[symmetric] Let_def listing.simps[of opt dr rmp t])
  next
    case False
    have "deeper_all opt dr rmp (subdirs t) ?keys (arts @ take (room opt arts) ?sel) =
        Some ((arts @ take (room opt arts) ?sel) @ take (room opt (arts @ take (room opt arts) ?sel))
          (concat (map (\<lambda>d. listing opt dr (rmp @ Name d) d) (entries t))))"
      using "1.IH"[OF refl refl c(1)[unfolded entries_def] refl] False "1.prems"
      unfolding entries_def[symmetric] below by simp
    then show ?thesis using c(1) False
      by (simp add: deeper.simps entries_def[symmetric] Let_def listing.simps[of opt dr rmp t] room_take)
  qed
next
  case (2 opt dr rmp dirs arts)
  then show ?case by simp
next
  case (3 opt dr rmp dirs k ks arts)
  show ?case
  proof (cases "map_of dirs k")
    case None
    then show ?thesis using 3 by simp
  next
    case (Some d)
    show ?thesis
    proof (cases "subdirs d = []")
      case True
      then have "listing opt dr (rmp @ Name d) d = []"
        by (simp add: listing.simps[of opt dr "rmp @ Name d" d] entries_empty selection_def)
      then show ?thesis using 3 Some True by simp
    next
      case False
      then show ?thesis using 3 Some by (simp add: room_take)
    qed
  qed
qed

text \<open>The listing by components: a name at a time.\<close>

lemma entries_ok:
  assumes "tree_ok t"
  shows "distinct (map Name (entries t))" "d \<in> set (entries t) \<longleftrightarrow> map_of (subdirs t) (Name d) = Some d"
    "d \<in> set (entries t) \<Longrightarrow> tree_ok d \<and> (\<exists>w. proper w \<and> Name d = CHR ''/'' # w)"
proof -
  have sub: "subs_ok (subdirs t)" using assms by (simp add: tree_ok_iff)
  have the: "map_of (subdirs t) k = Some (the (map_of (subdirs t) k)) \<and> Name (the (map_of (subdirs t) k)) = k"
    if "k \<in> set (map fst (subdirs t))" for k
    using that subs_okD[OF sub, of k] by (auto dest: weak_map_of_SomeI)
  have "map Name (entries t) = sort (map fst (subdirs t))"
    unfolding entries_def map_map by (intro map_idI) (simp add: the[THEN conjunct2])
  then show "distinct (map Name (entries t))" using sub by (simp add: subs_ok_def)
  show iff: "d \<in> set (entries t) \<longleftrightarrow> map_of (subdirs t) (Name d) = Some d" for d
  proof
    assume "d \<in> set (entries t)"
    then obtain k where "k \<in> set (map fst (subdirs t))" "d = the (map_of (subdirs t) k)" by (auto simp: entries_def)
    with the[of k] show "map_of (subdirs t) (Name d) = Some d" by simp
  next
    assume m: "map_of (subdirs t) (Name d) = Some d"
    then have "Name d \<in> set (map fst (subdirs t))" by (force dest: map_of_SomeD)
    with m show "d \<in> set (entries t)" by (force simp: entries_def)
  qed
  assume "d \<in> set (entries t)"
  then have "(Name d, d) \<in> set (subdirs t)" unfolding iff by (rule map_of_SomeD)
  then show "tree_ok d \<and> (\<exists>w. proper w \<and> Name d = CHR ''/'' # w)" using sub by (force simp: subs_ok_def)
qed

lemma look_entries:
  assumes "tree_ok t"
  shows "look (subdirs t) (w # ws) = Some d \<longleftrightarrow> (\<exists>s\<in>set (entries t). Name s = CHR ''/'' # w \<and>
    (if ws = [] then d = s else look (subdirs s) ws = Some d))"
proof -
  have "Name s = CHR ''/'' # w" if "map_of (subdirs t) (CHR ''/'' # w) = Some s" for s
    using subs_okD that assms by (auto simp: tree_ok_iff)
  then show ?thesis
    by (auto simp: entries_ok(2)[OF assms] split: option.split)
qed

lemma slashes_simps [simp]: "slashes [] = 0" "slashes (s @ t) = slashes s + slashes t"
    "slashes (c # s) = (if c = CHR ''/'' then 1 else 0) + slashes s"
  by (auto simp: slashes_def)

lemma slashes_rooted: "\<forall>w\<in>set ws. proper w \<Longrightarrow> slashes (rooted ws) = int (length ws)"
proof (induction ws)
  case (Cons w ws)
  have "slashes w = 0" using Cons.prems by (auto simp: slashes_def filter_empty_conv dest: properD)
  with Cons show ?case by simp
qed simp

text \<open>The end points below a directory that the options admit.\<close>

definition admitted :: "deeper_options \<Rightarrow> int \<Rightarrow> string \<Rightarrow> dtree \<Rightarrow> string list set" where
  "admitted opt dr rmp t = {vs. vs \<in> endpoints (subdirs t) \<and> slashes rmp + int (length vs) - dr \<le> MaxDepthDiff opt \<and>
     MinDepthDiff opt \<le> slashes rmp + int (length vs) - dr \<and> ExcludeDir opt \<noteq> rmp @ rooted vs}"

lemma endpoints_Nil [simp]: "[] \<notin> endpoints m"
  by (simp add: endpoints_def)

lemma endpoints_Cons:
  assumes "tree_ok t"
  shows "w # ws \<in> endpoints (subdirs t) \<longleftrightarrow> (\<exists>d\<in>set (entries t). Name d = CHR ''/'' # w \<and>
    (if ws = [] then EndPoint d else ws \<in> endpoints (subdirs d)))"
  unfolding endpoints_def mem_Collect_eq look_entries[OF assms] by (cases "ws = []") auto

lemma endpoints_proper: "tree_ok t \<Longrightarrow> vs \<in> endpoints (subdirs t) \<Longrightarrow> \<forall>v\<in>set vs. proper v"
proof (induction vs arbitrary: t)
  case (Cons v vs)
  from Cons.prems(2) obtain d where d: "d \<in> set (entries t)" "Name d = CHR ''/'' # v"
    "if vs = [] then EndPoint d else vs \<in> endpoints (subdirs d)"
    unfolding endpoints_Cons[OF Cons.prems(1)] by blast
  have "tree_ok d" "proper v" using entries_ok(3)[OF Cons.prems(1) d(1)] d(2) by auto
  with d(3) Cons.IH[of d] show ?case by (cases "vs = []") auto
qed simp

lemma admitted_Cons:
  assumes "tree_ok t"
  shows "w # ws \<in> admitted opt dr rmp t \<longleftrightarrow> (\<exists>d\<in>set (entries t). Name d = CHR ''/'' # w \<and>
    (if ws = [] then eligible opt dr (rmp @ Name d) d else ws \<in> admitted opt dr (rmp @ Name d) d))"
proof -
  have "slashes (rmp @ Name d) = slashes rmp + 1" if "d \<in> set (entries t)" for d
    using entries_ok(3)[OF assms that] slashes_rooted[of "[w]" for w] by fastforce
  then show ?thesis
    unfolding admitted_def mem_Collect_eq endpoints_Cons[OF assms]
    by (cases "ws = []") (auto simp: eligible_def algebra_simps)
qed

lemma selection_urls:
  assumes "tree_ok t"
  shows "set (map Url (selection opt dr rmp (entries t))) = {rmp @ rooted vs |vs. vs \<in> admitted opt dr rmp t \<and> length vs = 1}"
proof (intro subset_antisym subsetI)
  fix u assume "u \<in> set (map Url (selection opt dr rmp (entries t)))"
  then obtain d where d: "d \<in> set (entries t)" "eligible opt dr (rmp @ Name d) d" "u = rmp @ Name d"
    by (auto simp: selection_def as_article_def)
  from entries_ok(3)[OF assms d(1)] obtain w where w: "Name d = CHR ''/'' # w" by blast
  have "[w] \<in> admitted opt dr rmp t" unfolding admitted_Cons[OF assms] using d(1,2) w by auto
  then show "u \<in> {rmp @ rooted vs |vs. vs \<in> admitted opt dr rmp t \<and> length vs = 1}"
    using d(3) w by (auto intro!: exI[of _ "[w]"])
next
  fix u assume "u \<in> {rmp @ rooted vs |vs. vs \<in> admitted opt dr rmp t \<and> length vs = 1}"
  then obtain w where w: "u = rmp @ rooted [w]" "[w] \<in> admitted opt dr rmp t" by (auto simp: length_Suc_conv)
  then obtain d where "d \<in> set (entries t)" "Name d = CHR ''/'' # w" "eligible opt dr (rmp @ Name d) d"
    unfolding admitted_Cons[OF assms] by auto
  then show "u \<in> set (map Url (selection opt dr rmp (entries t)))"
    using w(1) by (force simp: selection_def as_article_def)
qed

lemma admitted_length: "vs \<in> admitted opt dr rmp t \<Longrightarrow> 0 < length vs"
  by (cases vs) (auto simp: admitted_def)

lemma listing_urls:
  "tree_ok t \<Longrightarrow> set (map Url (listing opt dr rmp t)) = {rmp @ rooted vs |vs. vs \<in> admitted opt dr rmp t}"
proof (induction opt dr rmp t rule: listing.induct)
  case (1 opt dr rmp t)
  have below: "(\<Union>d\<in>set (entries t). set (map Url (listing opt dr (rmp @ Name d) d))) =
      {rmp @ rooted vs |vs. vs \<in> admitted opt dr rmp t \<and> length vs \<noteq> 1}" (is "?L = ?R")
  proof (intro subset_antisym subsetI)
    fix u assume "u \<in> ?L"
    then obtain d where d: "d \<in> set (entries t)" "u \<in> set (map Url (listing opt dr (rmp @ Name d) d))" by blast
    from entries_ok(3)[OF 1(2) d(1)] obtain w where w: "tree_ok d" "Name d = CHR ''/'' # w" by blast
    from 1(1)[OF d(1) w(1)] d(2) obtain vs where vs: "u = (rmp @ Name d) @ rooted vs"
      "vs \<in> admitted opt dr (rmp @ Name d) d" by auto
    then have "w # vs \<in> admitted opt dr rmp t" "vs \<noteq> []"
      unfolding admitted_Cons[OF 1(2)] using d(1) w(2) admitted_length[OF vs(2)] by auto
    then show "u \<in> ?R" using vs(1) w(2) by (auto intro!: exI[of _ "w # vs"])
  next
    fix u assume "u \<in> ?R"
    then obtain vs where vs: "u = rmp @ rooted vs" "vs \<in> admitted opt dr rmp t" "length vs \<noteq> 1" by blast
    then obtain w ws where ws: "vs = w # ws" "ws \<noteq> []" using admitted_length[OF vs(2)] by (cases vs) auto
    with vs(2) obtain d where d: "d \<in> set (entries t)" "Name d = CHR ''/'' # w"
      "ws \<in> admitted opt dr (rmp @ Name d) d"
      unfolding ws(1) admitted_Cons[OF 1(2)] by auto
    have "tree_ok d" using entries_ok(3)[OF 1(2) d(1)] by blast
    from 1(1)[OF d(1) this] d(3) have "(rmp @ Name d) @ rooted ws \<in> set (map Url (listing opt dr (rmp @ Name d) d))"
      by blast
    moreover have "u = (rmp @ Name d) @ rooted ws" using d(2) vs(1) ws(1) by simp
    ultimately show "u \<in> ?L" using d(1) by (intro UN_I[OF d(1)]) (simp only:)
  qed
  have "set (map Url (listing opt dr rmp t)) = set (map Url (selection opt dr rmp (entries t))) \<union> ?L"
    unfolding listing.simps[of opt dr rmp t] by auto
  also have "\<dots> = {rmp @ rooted vs |vs. vs \<in> admitted opt dr rmp t}"
    unfolding below selection_urls[OF 1(2)] by blast
  finally show ?case .
qed

lemma listing_distinct: "tree_ok t \<Longrightarrow> distinct (map Url (listing opt dr rmp t))"
proof (induction opt dr rmp t rule: listing.induct)
  case (1 opt dr rmp t)
  let ?below = "\<lambda>d. map Url (listing opt dr (rmp @ Name d) d)"
  have ok: "tree_ok d" if "d \<in> set (entries t)" for d using entries_ok(3)[OF 1(2) that] by blast
  have urls: "\<exists>w vs. Name d = CHR ''/'' # w \<and> u = rmp @ rooted (w # vs) \<and> vs \<noteq> [] \<and> (\<forall>v\<in>set (w # vs). proper v)"
    if "d \<in> set (entries t)" "u \<in> set (?below d)" for d u
  proof -
    from entries_ok(3)[OF 1(2) that(1)] obtain w where w: "Name d = CHR ''/'' # w" "proper w" by blast
    from that(2) listing_urls[OF ok[OF that(1)]] obtain vs where vs: "u = (rmp @ Name d) @ rooted vs"
      "vs \<in> admitted opt dr (rmp @ Name d) d" by auto
    then have "\<forall>v\<in>set vs. proper v" "vs \<noteq> []"
      using endpoints_proper[OF ok[OF that(1)], of vs] admitted_length[OF vs(2)] by (auto simp: admitted_def)
    with vs(1) w show ?thesis by auto
  qed
  have disj: "set (?below d) \<inter> set (?below e) = {}" if "d \<in> set (entries t)" "e \<in> set (entries t)" "Name d \<noteq> Name e" for d e
  proof (rule ccontr)
    assume "set (?below d) \<inter> set (?below e) \<noteq> {}"
    then obtain u where u: "u \<in> set (?below d)" "u \<in> set (?below e)" by blast
    from urls[OF that(1) u(1)] obtain w vs where p: "Name d = CHR ''/'' # w" "u = rmp @ rooted (w # vs)"
      "\<forall>v\<in>set (w # vs). proper v" by blast
    from urls[OF that(2) u(2)] obtain w' vs' where q: "Name e = CHR ''/'' # w'" "u = rmp @ rooted (w' # vs')"
      "\<forall>v\<in>set (w' # vs'). proper v" by blast
    have "rooted (w # vs) = rooted (w' # vs')" using p(2) q(2) by simp
    from rooted_inj[OF this p(3) q(3)] p(1) q(1) that(3) show False by simp
  qed
  have first: "distinct (map Url (selection opt dr rmp (entries t)))"
  proof -
    have "distinct (map Name (filter (\<lambda>d. eligible opt dr (rmp @ Name d) d) (entries t)))"
      by (rule distinct_map_filter[OF entries_ok(1)[OF 1(2)]])
    then have "distinct (map ((@) rmp) (map Name (filter (\<lambda>d. eligible opt dr (rmp @ Name d) d) (entries t))))"
      by (subst distinct_map) (simp add: inj_on_def)
    then show ?thesis by (simp add: selection_def as_article_def o_def)
  qed
  have rest: "distinct (concat (map ?below ds))" if "set ds \<subseteq> set (entries t)" "distinct (map Name ds)" for ds
    using that
  proof (induction ds)
    case (Cons d ds)
    have "set (?below d) \<inter> set (?below e) = {}" if "e \<in> set ds" for e
      by (rule disj) (use Cons.prems that in auto)
    moreover have "distinct (?below d)" using 1(1)[of d] ok[of d] Cons.prems by simp
    ultimately show ?case using Cons by auto
  qed simp
  have apart: "set (map Url (selection opt dr rmp (entries t))) \<inter> set (concat (map ?below (entries t))) = {}"
  proof (rule ccontr)
    assume "set (map Url (selection opt dr rmp (entries t))) \<inter> set (concat (map ?below (entries t))) \<noteq> {}"
    then obtain u d where u: "u \<in> set (map Url (selection opt dr rmp (entries t)))" "d \<in> set (entries t)" "u \<in> set (?below d)"
      by auto
    from urls[OF u(2,3)] obtain w vs where p: "u = rmp @ rooted (w # vs)" "vs \<noteq> []" "\<forall>v\<in>set (w # vs). proper v" by blast
    from u(1) selection_urls[OF 1(2)] obtain us where us: "u = rmp @ rooted us" "us \<in> admitted opt dr rmp t" "length us = 1"
      by auto
    have "\<forall>v\<in>set us. proper v" using us(2) endpoints_proper[OF 1(2), of us] by (auto simp: admitted_def)
    with rooted_inj[of us "w # vs"] us p show False by auto
  qed
  have "map Url (listing opt dr rmp t) = map Url (selection opt dr rmp (entries t)) @ concat (map ?below (entries t))"
    by (simp add: listing.simps[of opt dr rmp t] map_concat o_def)
  then show ?case using first rest[OF _ entries_ok(1)[OF 1(2)]] apart by (simp only: distinct_append)
qed

text \<open>C31: The digest refines the set of the links of a site: adding articles to a well-formed tree does not panic when
  their local links parse to rooted paths, keeps the tree well-formed, makes exactly the directories on the way to a link
  known, makes exactly the links and the dated directories end points, and every link is then found by DiveToDeepestMatch.\<close>

theorem digest_refines_links:
  assumes "tree_ok t" "\<forall>x\<in>set arts. parsed_ok parse domain (fst x)"
  shows "\<exists>t'. path2DirTree parse domain isRSS arts t = Some t' \<and> tree_ok t' \<and>
    known (subdirs t') = known (subdirs t) \<union> (\<Union>x\<in>set arts. \<Union>ws\<in>local_paths parse domain (fst x). on_the_way ws) \<and>
    endpoints (subdirs t') = endpoints (subdirs t) \<union> (\<Union>x\<in>set arts. \<Union>ws\<in>local_paths parse domain (fst x). marked ws) \<and>
    (\<forall>x\<in>set arts. \<forall>ws\<in>local_paths parse domain (fst x). ws \<noteq> [] \<longrightarrow>
       (\<exists>d. DiveToDeepestMatch t' (rooted ws) = (Some d, rooted ws) \<and> EndPoint d))"
proof -
  from path2DirTree_extends[OF assms, of isRSS] obtain t' where t': "path2DirTree parse domain isRSS arts t = Some t'"
    "tree_ok t'"
    "known (subdirs t') = known (subdirs t) \<union> (\<Union>x\<in>set arts. \<Union>ws\<in>local_paths parse domain (fst x). on_the_way ws)"
    "endpoints (subdirs t') = endpoints (subdirs t) \<union> (\<Union>x\<in>set arts. \<Union>ws\<in>local_paths parse domain (fst x). marked ws)"
    by blast
  have "\<exists>d. DiveToDeepestMatch t' (rooted ws) = (Some d, rooted ws) \<and> EndPoint d"
    if x: "x \<in> set arts" and ws: "ws \<in> local_paths parse domain (fst x)" "ws \<noteq> []" for x ws
  proof -
    have "ws \<in> marked ws" using ws(2) by (simp add: marked_def on_the_way_def)
    then have "ws \<in> (\<Union>x\<in>set arts. \<Union>ws\<in>local_paths parse domain (fst x). marked ws)"
      by (intro UN_I[OF x] UN_I[OF ws(1)])
    then have "ws \<in> endpoints (subdirs t')" unfolding t'(4) by (rule UnI2)
    then obtain d where d: "look (subdirs t') ws = Some d" "EndPoint d" by (auto simp: endpoints_def)
    have "\<forall>w\<in>set ws. proper w" using ws(1) by (simp add: local_paths_def)
    from Dive_rooted[OF this ws(2), of t'] d show ?thesis by (simp add: reach_found)
  qed
  then have "\<forall>x\<in>set arts. \<forall>ws\<in>local_paths parse domain (fst x). ws \<noteq> [] \<longrightarrow>
      (\<exists>d. DiveToDeepestMatch t' (rooted ws) = (Some d, rooted ws) \<and> EndPoint d)"
    by (intro ballI impI)
  then show ?thesis using t' by (intro exI[of _ t'] conjI)
qed

definition two_articles :: "(article \<times> int) list" where
  "two_articles = [(\<lparr>Url = ''http://h.com/a/b'', ModTime = 0\<rparr>, minute), (\<lparr>Url = ''http://x.com/c'', ModTime = 0\<rparr>, minute)]"

definition root_tree :: dtree where
  "root_tree = DirTree ''/'' 0 False True (Some [])"

lemma two_articles_local:
  "local_paths Some ''h.com'' \<lparr>Url = ''http://h.com/a/b'', ModTime = 0\<rparr> = {[''a'', ''b'']}"
  "parsed_ok Some ''h.com'' \<lparr>Url = ''http://h.com/a/b'', ModTime = 0\<rparr>"
  "parsed_ok Some ''h.com'' \<lparr>Url = ''http://x.com/c'', ModTime = 0\<rparr>"
proof -
  let ?a = "\<lparr>Url = ''http://h.com/a/b'', ModTime = 0\<rparr>"
  have a: "href_of ''h.com'' ?a = rooted [''a'', ''b'']" "HasPrefix (rooted [''a'', ''b'']) ''/''" by code_simp+
  have p: "\<forall>w\<in>set [''a'', ''b'']. proper w" by (simp add: proper_def)
  have x: "\<not> HasPrefix (href_of ''h.com'' \<lparr>Url = ''http://x.com/c'', ModTime = 0\<rparr>) ''/''" by code_simp
  show "local_paths Some ''h.com'' ?a = {[''a'', ''b'']}"
    unfolding local_paths_def by (rule local_paths_single[unfolded local_paths_def], intro CollectI conjI p)
      (simp_all only: a)
  show "parsed_ok Some ''h.com'' ?a" using a(1) p unfolding parsed_ok_def by (metis option.sel)
  show "parsed_ok Some ''h.com'' \<lparr>Url = ''http://x.com/c'', ModTime = 0\<rparr>" using x by (simp only: parsed_ok_def simp_thms)
qed

lemma digest_refines_links_witness:
  "\<exists>t'. path2DirTree Some ''h.com'' False two_articles root_tree = Some t' \<and> tree_ok t' \<and>
    (\<exists>d. DiveToDeepestMatch t' (rooted [''a'', ''b'']) = (Some d, ''/a/b'') \<and> EndPoint d)"
proof -
  have "tree_ok root_tree" by (simp add: root_tree_def)
  moreover have "\<forall>x\<in>set two_articles. parsed_ok Some ''h.com'' (fst x)"
    unfolding two_articles_def using two_articles_local(2,3) by (simp only: list.set ball_simps fst_conv simp_thms)
  note digest_refines_links[OF calculation this, of False]
  then obtain t' where t': "path2DirTree Some ''h.com'' False two_articles root_tree = Some t'" "tree_ok t'"
    "\<forall>x\<in>set two_articles. \<forall>ws\<in>local_paths Some ''h.com'' (fst x). ws \<noteq> [] \<longrightarrow>
       (\<exists>d. DiveToDeepestMatch t' (rooted ws) = (Some d, rooted ws) \<and> EndPoint d)"
    by (elim exE conjE)
  then have "\<exists>d. DiveToDeepestMatch t' (rooted [''a'', ''b'']) = (Some d, rooted [''a'', ''b'']) \<and> EndPoint d"
    unfolding two_articles_def using two_articles_local(1) by (simp only: list.set ball_simps fst_conv) blast
  moreover have "rooted [''a'', ''b''] = ''/a/b''" by simp
  ultimately show ?thesis using t'(1,2) by metis
qed

text \<open>LevelWiseDeeper never fails with the package's settings; it returns the first MaxNumber elements of a
  listing that has every end point below the tree, of a depth between the two bounds, exactly once, save the excluded one.\<close>

theorem level_wise_deeper:
  assumes "tree_ok t" "plain_options opt"
  shows "\<exists>L. LevelWiseDeeper t opt = Some (take (nat (MaxNumber opt)) L) \<and> distinct (map Url L) \<and>
    set (map Url L) = {Rump opt @ rooted vs |vs. vs \<in> endpoints (subdirs t) \<and> MinDepthDiff opt \<le> int (length vs) \<and>
      int (length vs) \<le> MaxDepthDiff opt \<and> Rump opt @ rooted vs \<noteq> ExcludeDir opt}"
proof (intro exI conjI)
  let ?L = "listing opt (slashes (Rump opt)) (Rump opt) t"
  show "LevelWiseDeeper t opt = Some (take (nat (MaxNumber opt)) ?L)"
    by (simp add: LevelWiseDeeper_def deeper_plain(1)[OF assms(2)] room_def)
  show "distinct (map Url ?L)" by (rule listing_distinct[OF assms(1)])
  show "set (map Url ?L) = {Rump opt @ rooted vs |vs. vs \<in> endpoints (subdirs t) \<and> MinDepthDiff opt \<le> int (length vs) \<and>
      int (length vs) \<le> MaxDepthDiff opt \<and> Rump opt @ rooted vs \<noteq> ExcludeDir opt}"
    unfolding listing_urls[OF assms(1)] admitted_def by auto
qed

text \<open>A site with three end points.\<close>

definition leaf :: "string \<Rightarrow> dtree" where
  "leaf n = DirTree n 0 False True (Some [])"

definition three_links :: dtree where
  "three_links = DirTree ''/'' 0 False True (Some [(''/a'', DirTree ''/a'' 0 False False (Some
     [(''/y'', leaf ''/y''), (''/b'', DirTree ''/b'' 0 False False (Some [(''/d'', leaf ''/d''), (''/c'', leaf ''/c'')]))]))])"

definition below_a :: deeper_options where
  "below_a = \<lparr>Rump = [], ExcludeDir = ''/a/b/d'', MinDepthDiff = 0, MaxDepthDiff = 3, CondenseTrailingDirs = 0,
     MaxNumber = 9\<rparr>"

lemma level_wise_deeper_witness:
  "LevelWiseDeeper three_links below_a = Some [\<lparr>Url = ''/a/y'', ModTime = 0\<rparr>, \<lparr>Url = ''/a/b/c'', ModTime = 0\<rparr>] \<and>
   ''/a/b/c'' \<in> {Rump below_a @ rooted vs |vs. vs \<in> endpoints (subdirs three_links) \<and>
      MinDepthDiff below_a \<le> int (length vs) \<and> int (length vs) \<le> MaxDepthDiff below_a \<and>
      Rump below_a @ rooted vs \<noteq> ExcludeDir below_a}"
proof -
  have eq: "LevelWiseDeeper three_links below_a = Some [\<lparr>Url = ''/a/y'', ModTime = 0\<rparr>, \<lparr>Url = ''/a/b/c'', ModTime = 0\<rparr>]"
    by code_simp
  have p: "proper [c]" if "c \<in> {CHR ''a'', CHR ''b'', CHR ''c'', CHR ''d'', CHR ''y''}" for c
    using that by (auto simp: proper_def)
  have ok: "tree_ok three_links" "plain_options below_a"
    using p by (auto simp: three_links_def leaf_def below_a_def plain_options_def)
  from level_wise_deeper[OF ok] obtain L where L:
    "LevelWiseDeeper three_links below_a = Some (take (nat (MaxNumber below_a)) L)"
    "set (map Url L) = {Rump below_a @ rooted vs |vs. vs \<in> endpoints (subdirs three_links) \<and>
      MinDepthDiff below_a \<le> int (length vs) \<and> int (length vs) \<le> MaxDepthDiff below_a \<and>
      Rump below_a @ rooted vs \<noteq> ExcludeDir below_a}" by (elim exE conjE)
  have "take (nat (MaxNumber below_a)) L = [\<lparr>Url = ''/a/y'', ModTime = 0\<rparr>, \<lparr>Url = ''/a/b/c'', ModTime = 0\<rparr>]"
    using L(1) unfolding eq by (simp only: option.inject)
  then have "\<lparr>Url = ''/a/b/c'', ModTime = 0\<rparr> \<in> set (take (nat (MaxNumber below_a)) L)" by (simp only: list.set insert_iff simp_thms)
  then have "\<lparr>Url = ''/a/b/c'', ModTime = 0\<rparr> \<in> set L" by (rule in_set_takeD)
  then have "''/a/b/c'' \<in> set (map Url L)" by force
  then show ?thesis unfolding L(2) using eq by simp
qed

subsection \<open>Climbing\<close>

text \<open>A prefix and the one above it list the same end points twice when the tolerance allows two levels.\<close>

lemma climbing_lists_twice:
  "map_option (map Url) (load_stage1 \<lparr>Host = ''h'', SearchPrefix = ''/a/b'', RssXMLURI = [], DesiredNumber = 4,
     fc_CondenseTrailingDirs = 0, DepthTolerance = 2\<rparr> three_links) =
   Some [''h/a/b/c'', ''h/a/b/d'', ''h/a/y'', ''h/a/b/c'']"
  by code_simp

text \<open>Once the search for similar links meets a path that has been crawled, it stays there: nothing more is
  searched until the inner loop ends.\<close>

lemma search_stuck:
  assumes "\<forall>w\<in>set ws. proper w" "ws \<noteq> []" "treePath s = rooted ws"
    and "rooted (reach (subdirs (s_tree s)) ws) \<in> set (alreadyCrawled s)" "is \<noteq> []"
  shows "search_inner parse fetch now cmd j is s =
    Some (False, s\<lparr>treePath := rooted (reach (subdirs (s_tree s)) ws)\<rparr>)"
  using assms
proof (induction "is" arbitrary: s ws)
  case (Cons i "is")
  let ?vs = "reach (subdirs (s_tree s)) ws"
  have dive: "DiveToDeepestMatch (s_tree s) (treePath s) = (look (subdirs (s_tree s)) ws, rooted ?vs)"
    using Dive_rooted[OF Cons.prems(1,2)] Cons.prems(3) by simp
  have step: "search_inner parse fetch now cmd j (i # is) s =
      search_inner parse fetch now cmd j is (s\<lparr>treePath := rooted ?vs\<rparr>)"
    using dive Cons.prems(4) by simp
  show ?case
  proof (cases "is = []")
    case True
    then show ?thesis unfolding step by simp
  next
    case False
    obtain us where "ws = ?vs @ us" using reach_prefix by blast
    then have "set ?vs \<subseteq> set ws" by (metis set_append Un_upper1)
    then have p: "\<forall>w\<in>set ?vs. proper w" using Cons.prems(1) by blast
    have ne: "?vs \<noteq> []" using Cons.prems(2) by (rule reach_ne)
    have "search_inner parse fetch now cmd j is (s\<lparr>treePath := rooted ?vs\<rparr>) =
      Some (False, (s\<lparr>treePath := rooted ?vs\<rparr>)\<lparr>treePath := rooted (reach (subdirs (s_tree (s\<lparr>treePath := rooted ?vs\<rparr>))) ?vs)\<rparr>)"
      by (rule Cons.IH[OF p ne _ _ False]) (use Cons.prems(4) in \<open>simp_all add: reach_again\<close>)
    then show ?thesis unfolding step by (simp add: reach_again)
  qed
qed simp

text \<open>So the second round, which is to accept links higher up, finds nothing: the page /a/y is not among the links
  similar to /a/b/c, and those on its level are found once per level climbed.\<close>

lemma similar_links_repeat:
  "map_option (map Url \<circ> links) (similar_links Some (\<lambda>_. Some (True, None)) 0 \<lparr>Host = ''h'', SearchPrefix = ''/a/b/c'',
     RssXMLURI = [], DesiredNumber = 5, fc_CondenseTrailingDirs = 0, DepthTolerance = 1\<rparr> three_links) =
   Some [''/a/b/c'', ''/a/b/d'', ''/a/b/c'', ''/a/b/d'', ''/a/b/c'', ''/a/b/d'']"
  by code_simp

end
