(* ===== verification/Lines.thy ===== *)
theory Lines
  imports Prelude
begin

section \<open>Anti-aliased lines (charting/draw_line.go)\<close>

text \<open>
  \<^verbatim>\<open>FuncDrawLiner\<close> returns a function that joins the points it is called with by lines.

  \<^item> Its state is the last point. A call gives the list of the pixels set, in order: the address in the
    pixel array, the side of the line (0 on it, -1 and 1 next to it) and the numerator of the distance.
  \<^item> The distance \<^verbatim>\<open>invD2du\<close> plus, or minus, the numerator times \<^verbatim>\<open>invD\<close> and the blending of the
    colours are floating-point numbers and left out, as is logging; \<open>in_image\<close> is the check that
    \<^verbatim>\<open>funcSetPixler\<close> makes of an address.
\<close>

type_synonym point = "int \<times> int"

record pix =
  addr :: int
  side :: int
  twovdu :: int

text \<open>The direction of the larger change comes first: \<^verbatim>\<open>du\<close>, \<^verbatim>\<open>dv\<close>, \<^verbatim>\<open>u\<close>, \<^verbatim>\<open>v\<close>,
  \<^verbatim>\<open>uincr\<close> and \<^verbatim>\<open>vincr\<close>.\<close>

record octant =
  du :: int
  dv :: int
  u0 :: int
  v0 :: int
  uincr :: int
  vincr :: int

definition bpp :: int where "bpp = 4"

definition octant_of :: "int \<Rightarrow> point \<Rightarrow> point \<Rightarrow> octant" where
  "octant_of imgWidth P0 P1 =
     (let (x0, y0) = P0; (x1, y1) = P1; dx = x1 - x0; dy = y1 - y0 in
      if \<bar>dx\<bar> > \<bar>dy\<bar>
      then \<lparr>du = \<bar>dx\<bar>, dv = \<bar>dy\<bar>, u0 = x1, v0 = y1,
            uincr = (if dx < 0 then - bpp else bpp),
            vincr = (if dy < 0 then - (imgWidth * bpp) else imgWidth * bpp)\<rparr>
      else \<lparr>du = \<bar>dy\<bar>, dv = \<bar>dx\<bar>, u0 = y1, v0 = x1,
            uincr = (if dy < 0 then - (imgWidth * bpp) else imgWidth * bpp),
            vincr = (if dx < 0 then - bpp else bpp)\<rparr>)"

function line_loop :: "octant \<Rightarrow> int \<Rightarrow> int \<Rightarrow> int \<Rightarrow> int \<Rightarrow> int \<Rightarrow> pix list" where
  "line_loop q uend u d t a =
     (let here = [\<lparr>addr = a - vincr q, side = -1, twovdu = t\<rparr>, \<lparr>addr = a, side = 0, twovdu = t\<rparr>,
                  \<lparr>addr = a + vincr q, side = 1, twovdu = t\<rparr>];
          incrS = dv q; incrD = dv q - du q;
          (t', d', a') = (if d < 0 then (d + du q, d + incrS, a) else (d - du q, d + incrD, a + vincr q));
          u' = u + 1; a'' = a' + uincr q
      in if u' > uend then here else here @ line_loop q uend u' d' t' a'')"
  by pat_completeness auto
termination line_loop
  by (relation "measure (\<lambda>(q, uend, u, d, t, a). nat (uend - u))") auto

declare line_loop.simps [simp del]

definition draw_line :: "int \<Rightarrow> point \<Rightarrow> point \<Rightarrow> pix list" where
  "draw_line imgWidth P0 P1 =
     (let q = octant_of imgWidth P0 P1; (x0, y0) = P0
      in line_loop q (u0 q + du q) (u0 q) (dv q - du q) 0 ((y0 * imgWidth + x0) * bpp))"

definition first_point :: point where
  "first_point = (-1111, -1111)"

definition DrawLiner :: "int \<Rightarrow> point \<Rightarrow> point \<Rightarrow> pix list \<times> point" where
  "DrawLiner imgWidth P_last P_next =
     (if P_last = first_point then ([], P_next) else (draw_line imgWidth P_last P_next, P_next))"

definition in_image :: "int \<Rightarrow> int \<Rightarrow> int \<Rightarrow> bool" where
  "in_image width height a \<longleftrightarrow> \<not> (a > width * height * 4 - 4 \<or> a < 0)"

subsection \<open>The pixels on the line\<close>

definition on_line :: "pix list \<Rightarrow> int list" where
  "on_line ps = map addr (filter (\<lambda>p. side p = 0) ps)"

lemma on_line_append [simp]: "on_line (ps @ qs) = on_line ps @ on_line qs"
  by (simp add: on_line_def)

text \<open>After k steps the line has moved by the rounded down share of the smaller change.\<close>

lemma div_step:
  assumes "0 \<le> dv'" "dv' \<le> du'" "0 < (du'::int)" "0 \<le> (k::int)"
  shows "(k + 1) * dv' div du' = k * dv' div du' + (if (k + 1) * dv' - (k * dv' div du' + 1) * du' < 0 then 0 else 1)"
proof -
  define m r where "m = k * dv' div du'" and "r = k * dv' mod du'"
  have kd: "k * dv' = m * du' + r" by (simp add: m_def r_def)
  have r: "0 \<le> r" "r < du'" using assms(3) by (simp_all add: r_def)
  have step: "(k + 1) * dv' = m * du' + (r + dv')" using kd by (simp add: algebra_simps)
  have sum: "0 \<le> r + dv'" "r + dv' < 2 * du'" using r assms by linarith+
  have "(r + dv') div du' = (if r + dv' < du' then 0 else 1)"
  proof (cases "r + dv' < du'")
    case False
    then have "(r + dv') div du' = (r + dv' - du') div du' + 1"
      using assms(3) by (simp add: div_pos_geq)
    also have "(r + dv' - du') div du' = 0" using sum False by (simp add: div_pos_pos_trivial)
    finally show ?thesis using False by simp
  qed (use sum in \<open>simp add: div_pos_pos_trivial\<close>)
  moreover have "(k + 1) * dv' div du' = m + (r + dv') div du'" unfolding step using assms(3) by simp
  moreover have "(k + 1) * dv' - (m + 1) * du' < 0 \<longleftrightarrow> r + dv' < du'" unfolding step by (simp add: algebra_simps)
  ultimately show ?thesis unfolding m_def[symmetric] by simp
qed

definition offset :: "octant \<Rightarrow> int \<Rightarrow> int" where
  "offset q k = k * uincr q + (k * dv q div du q) * vincr q"

lemma on_line_loop:
  assumes "0 \<le> dv q" "dv q \<le> du q" "0 < du q"
  shows "0 \<le> k \<Longrightarrow> k \<le> du q \<Longrightarrow>
    on_line (line_loop q (base + du q) (base + k) ((k + 1) * dv q - (k * dv q div du q + 1) * du q) t (a0 + offset q k)) =
    map (\<lambda>i. a0 + offset q i) [k..du q]"
proof (induction "nat (du q - k)" arbitrary: k t)
  case 0
  then have "k = du q" by simp
  then show ?case by (subst line_loop.simps) (simp add: on_line_def Let_def)
next
  case (Suc n)
  then have k: "k < du q" "0 \<le> k" by simp_all
  then have n: "n = nat (du q - (k + 1))" and k': "0 \<le> k + 1" "k + 1 \<le> du q" using Suc.hyps(2) by simp_all
  let ?m = "k * dv q div du q"
  let ?d = "(k + 1) * dv q - (?m + 1) * du q"
  define t' where "t' = (if ?d < 0 then ?d + du q else ?d - du q)"
  note div_step[OF assms k(2)]
  then have m: "(k + 1) * dv q div du q = ?m + (if ?d < 0 then 0 else 1)" by simp
  have d': "(if ?d < 0 then ?d + dv q else ?d + (dv q - du q)) = (k + 1 + 1) * dv q - ((k + 1) * dv q div du q + 1) * du q"
    unfolding m by (simp add: algebra_simps)
  have a': "a0 + offset q k + (if ?d < 0 then 0 else vincr q) + uincr q = a0 + offset q (k + 1)"
    unfolding offset_def m by (simp add: algebra_simps)
  have "line_loop q (base + du q) (base + k) ?d t (a0 + offset q k) =
      [\<lparr>addr = a0 + offset q k - vincr q, side = -1, twovdu = t\<rparr>, \<lparr>addr = a0 + offset q k, side = 0, twovdu = t\<rparr>,
       \<lparr>addr = a0 + offset q k + vincr q, side = 1, twovdu = t\<rparr>] @
      line_loop q (base + du q) (base + k + 1) (if ?d < 0 then ?d + dv q else ?d + (dv q - du q)) t'
        (a0 + offset q k + (if ?d < 0 then 0 else vincr q) + uincr q)"
    using k by (subst line_loop.simps) (simp add: Let_def t'_def)
  note step = this[unfolded d' a']
  have "on_line (line_loop q (base + du q) (base + k) ?d t (a0 + offset q k)) =
      (a0 + offset q k) # map (\<lambda>i. a0 + offset q i) [k + 1..du q]"
    unfolding step on_line_append Suc.hyps(1)[of "k + 1" t', unfolded add.assoc[of base k 1, symmetric], OF n k'(1) k'(2)]
    by (simp add: on_line_def)
  also have "\<dots> = map (\<lambda>i. a0 + offset q i) [k..du q]" using k by (simp add: upto.simps[of k "du q"])
  finally show ?case .
qed

lemma on_line_nowhere: "du q = 0 \<Longrightarrow> on_line (line_loop q (u0 q + du q) (u0 q) d t a) = [a]"
  by (subst line_loop.simps) (simp add: on_line_def Let_def)

lemma octant_bounds: "0 \<le> dv (octant_of w P0 P1)" "dv (octant_of w P0 P1) \<le> du (octant_of w P0 P1)"
  "0 \<le> du (octant_of w P0 P1)"
  by (auto simp: octant_of_def Let_def split: prod.split)

text \<open>The address of a pixel and the k-th point of a line.\<close>

definition pixel :: "int \<Rightarrow> point \<Rightarrow> int" where
  "pixel imgWidth p = (snd p * imgWidth + fst p) * bpp"

definition line_point :: "point \<Rightarrow> point \<Rightarrow> int \<Rightarrow> point" where
  "line_point P0 P1 k =
     (let dx = fst P1 - fst P0; dy = snd P1 - snd P0 in
      if \<bar>dx\<bar> > \<bar>dy\<bar> then (fst P0 + sgn dx * k, snd P0 + sgn dy * (k * \<bar>dy\<bar> div \<bar>dx\<bar>))
      else (fst P0 + sgn dx * (k * \<bar>dx\<bar> div \<bar>dy\<bar>), snd P0 + sgn dy * k))"

definition line_length :: "point \<Rightarrow> point \<Rightarrow> int" where
  "line_length P0 P1 = max \<bar>fst P1 - fst P0\<bar> \<bar>snd P1 - snd P0\<bar>"

lemma line_length_du: "line_length P0 P1 = du (octant_of w P0 P1)"
  by (cases P0; cases P1) (auto simp: line_length_def octant_of_def Let_def)

lemma pixel_offset:
  assumes "0 < du (octant_of w P0 P1)"
  shows "pixel w P0 + offset (octant_of w P0 P1) k = pixel w (line_point P0 P1 k)"
proof -
  obtain x0 y0 x1 y1 where p: "P0 = (x0, y0)" "P1 = (x1, y1)" by (cases P0; cases P1) auto
  consider "\<bar>x1 - x0\<bar> > \<bar>y1 - y0\<bar>" | "\<bar>x1 - x0\<bar> \<le> \<bar>y1 - y0\<bar>" by linarith
  then show ?thesis
  proof cases
    case 1
    then show ?thesis
      by (cases "y1 = y0") (auto simp: p pixel_def offset_def octant_of_def line_point_def Let_def sgn_if algebra_simps)
  next
    case 2
    then have "y1 \<noteq> y0" using assms by (auto simp: p octant_of_def Let_def)
    with 2 show ?thesis
      by (cases "x1 = x0") (auto simp: p pixel_def offset_def octant_of_def line_point_def Let_def sgn_if algebra_simps)
  qed
qed

lemma draw_line_points:
  "on_line (draw_line w P0 P1) = map (\<lambda>k. pixel w (line_point P0 P1 k)) [0..line_length P0 P1]"
proof -
  let ?q = "octant_of w P0 P1"
  have a: "pixel w P0 = (snd P0 * w + fst P0) * bpp" by (simp add: pixel_def)
  have dl: "draw_line w P0 P1 = line_loop ?q (u0 ?q + du ?q) (u0 ?q) (dv ?q - du ?q) 0 (pixel w P0)"
    by (simp add: draw_line_def Let_def a split: prod.split)
  show ?thesis
  proof (cases "du ?q = 0")
    case True
    then have "line_length P0 P1 = 0" by (simp only: line_length_du[of P0 P1 w])
    then show ?thesis unfolding dl on_line_nowhere[OF True] by (simp add: line_point_def Let_def)
  next
    case False
    then have pos: "0 < du ?q" using octant_bounds(3)[of w P0 P1] by simp
    have "on_line (draw_line w P0 P1) = map (\<lambda>i. pixel w P0 + offset ?q i) [0..du ?q]"
      using on_line_loop[OF octant_bounds(1,2) pos, of 0 "u0 ?q" 0 "pixel w P0"] pos by (simp add: dl offset_def)
    then show ?thesis using pixel_offset[OF pos] by (simp add: line_length_du[of P0 P1 w])
  qed
qed

text \<open>The points of a line: it starts at the first point, ends at the last one, stays in their rectangle, and each point is
  a neighbour of the one before.\<close>

lemma share_bounds: "0 \<le> b \<Longrightarrow> b \<le> a \<Longrightarrow> 0 \<le> k \<Longrightarrow> k \<le> (a::int) \<Longrightarrow> 0 \<le> k * b div a \<and> k * b div a \<le> b"
proof (cases "a = 0")
  case False
  assume "0 \<le> b" "b \<le> a" "0 \<le> k" "k \<le> a"
  moreover from this False have "0 < a" by simp
  ultimately have "k * b \<le> b * a" by (metis mult.commute mult_left_mono)
  with \<open>0 < a\<close> have "k * b div a \<le> b" by (metis nonzero_mult_div_cancel_right order_less_le zdiv_mono1)
  then show ?thesis using \<open>0 \<le> b\<close> \<open>0 \<le> k\<close> \<open>0 < a\<close> by (simp add: div_int_pos_iff)
qed simp

definition between :: "int \<Rightarrow> int \<Rightarrow> int \<Rightarrow> bool" where
  "between a b x \<longleftrightarrow> min a b \<le> x \<and> x \<le> max a b"

lemma sgn_between: "0 \<le> n \<Longrightarrow> n \<le> \<bar>b - a\<bar> \<Longrightarrow> between a b (a + sgn (b - a) * n)"
  by (auto simp: between_def sgn_if)

lemma line_point_bounds:
  assumes "0 \<le> k" "k \<le> line_length P0 P1"
  shows "between (fst P0) (fst P1) (fst (line_point P0 P1 k)) \<and> between (snd P0) (snd P1) (snd (line_point P0 P1 k))"
proof (cases "\<bar>fst P1 - fst P0\<bar> > \<bar>snd P1 - snd P0\<bar>")
  case True
  then have "k \<le> \<bar>fst P1 - fst P0\<bar>" using assms(2) by (simp add: line_length_def)
  with True assms(1) share_bounds[of "\<bar>snd P1 - snd P0\<bar>" "\<bar>fst P1 - fst P0\<bar>" k] show ?thesis
    by (simp add: line_point_def Let_def sgn_between)
next
  case False
  then have "k \<le> \<bar>snd P1 - snd P0\<bar>" using assms(2) by (simp add: line_length_def)
  with False assms(1) share_bounds[of "\<bar>fst P1 - fst P0\<bar>" "\<bar>snd P1 - snd P0\<bar>" k] show ?thesis
    by (simp add: line_point_def Let_def sgn_between)
qed

lemma line_point_first: "line_point P0 P1 0 = P0"
  by (simp add: line_point_def Let_def)

lemma line_point_last: "line_point P0 P1 (line_length P0 P1) = P1"
proof -
  have s: "a + sgn (b - a) * \<bar>b - a\<bar> = b" for a b :: int by (simp add: sgn_if)
  have d: "\<bar>x\<bar> * \<bar>y\<bar> div \<bar>x\<bar> = \<bar>y\<bar>" if "\<bar>y\<bar> \<le> \<bar>x\<bar>" for x y :: int
    using that by (cases "x = 0") simp_all
  show ?thesis
    by (cases "\<bar>fst P1 - fst P0\<bar> > \<bar>snd P1 - snd P0\<bar>")
      (simp_all add: line_point_def line_length_def Let_def s d prod_eq_iff)
qed

lemma share_step: "0 \<le> b \<Longrightarrow> b \<le> a \<Longrightarrow> 0 < a \<Longrightarrow> 0 \<le> (k::int) \<Longrightarrow>
    (k + 1) * b div a - k * b div a = 0 \<or> (k + 1) * b div a - k * b div a = 1"
  using div_step[of b a k] by simp

definition neighbours :: "point \<Rightarrow> point \<Rightarrow> bool" where
  "neighbours p q \<longleftrightarrow> \<bar>fst p - fst q\<bar> \<le> 1 \<and> \<bar>snd p - snd q\<bar> \<le> 1"

lemma sgn_step: "y - x = 0 \<or> y - x = 1 \<Longrightarrow> \<bar>(c + sgn d * x) - (c + sgn d * (y::int))\<bar> \<le> 1"
  by (auto simp: sgn_if)

lemma line_point_step:
  assumes "0 \<le> k" "k < line_length P0 P1"
  shows "neighbours (line_point P0 P1 k) (line_point P0 P1 (k + 1))"
proof (cases "\<bar>fst P1 - fst P0\<bar> > \<bar>snd P1 - snd P0\<bar>")
  case True
  then show ?thesis
    using share_step[of "\<bar>snd P1 - snd P0\<bar>" "\<bar>fst P1 - fst P0\<bar>" k] assms(1)
    unfolding neighbours_def line_point_def Let_def by (simp only: if_True fst_conv snd_conv) (intro conjI sgn_step; simp)
next
  case False
  then have "0 < \<bar>snd P1 - snd P0\<bar>" using assms by (simp add: line_length_def)
  then show ?thesis
    using share_step[of "\<bar>fst P1 - fst P0\<bar>" "\<bar>snd P1 - snd P0\<bar>" k] assms(1) False
    unfolding neighbours_def line_point_def Let_def by (simp only: if_False fst_conv snd_conv) (intro conjI sgn_step; simp)
qed

text \<open>The line drawn between two points sets, in order, the pixels of points that start at the first and end
  at the last, stay in the rectangle of the two and are neighbours one after the other; there is one for every step of the
  larger change.\<close>

theorem draw_line_connects:
  "\<exists>ps. on_line (draw_line w P0 P1) = map (pixel w) ps \<and> hd ps = P0 \<and> last ps = P1 \<and>
     int (length ps) = max \<bar>fst P1 - fst P0\<bar> \<bar>snd P1 - snd P0\<bar> + 1 \<and>
     (\<forall>p\<in>set ps. between (fst P0) (fst P1) (fst p) \<and> between (snd P0) (snd P1) (snd p)) \<and>
     (\<forall>i. Suc i < length ps \<longrightarrow> neighbours (ps ! i) (ps ! Suc i))"
proof (intro exI conjI)
  let ?n = "line_length P0 P1"
  let ?ps = "map (line_point P0 P1) [0..?n]"
  have n: "0 \<le> ?n" by (simp add: line_length_def)
  show "on_line (draw_line w P0 P1) = map (pixel w) ?ps" by (simp add: draw_line_points)
  have up: "[0..?n] = 0 # [1..?n]" using n by (simp add: upto_rec1)
  have down: "[0..?n] = [0..?n - 1] @ [?n]" using n by (rule upto_rec2)
  show "hd ?ps = P0" unfolding up by (simp add: line_point_first)
  show "last ?ps = P1" unfolding down by (simp add: line_point_last)
  show "int (length ?ps) = max \<bar>fst P1 - fst P0\<bar> \<bar>snd P1 - snd P0\<bar> + 1" using n by (simp add: line_length_def)
  show "\<forall>p\<in>set ?ps. between (fst P0) (fst P1) (fst p) \<and> between (snd P0) (snd P1) (snd p)"
    using line_point_bounds by auto
  show "\<forall>i. Suc i < length ?ps \<longrightarrow> neighbours (?ps ! i) (?ps ! Suc i)"
  proof (intro allI impI)
    fix i assume i: "Suc i < length ?ps"
    then have "?ps ! i = line_point P0 P1 (int i)" "?ps ! Suc i = line_point P0 P1 (int i + 1)"
      by (simp_all add: nth_upto add.commute)
    then show "neighbours (?ps ! i) (?ps ! Suc i)" using line_point_step[of "int i" P0 P1] i by simp
  qed
qed

lemma draw_line_connects_witness:
  "\<exists>ps. on_line (draw_line 10 (1, 1) (4, 3)) = map (pixel 10) ps \<and> hd ps = (1, 1) \<and> last ps = (4, 3) \<and>
     length ps = 4 \<and> neighbours (ps ! 0) (ps ! Suc 0)"
proof -
  obtain ps where ps: "on_line (draw_line 10 (1, 1) (4, 3)) = map (pixel 10) ps" "hd ps = (1, 1)" "last ps = (4, 3)"
    "int (length ps) = max \<bar>fst (4::int, 3::int) - fst (1::int, 1::int)\<bar> \<bar>snd (4::int, 3::int) - snd (1::int, 1::int)\<bar> + 1"
    "\<forall>i. Suc i < length ps \<longrightarrow> neighbours (ps ! i) (ps ! Suc i)"
    using draw_line_connects[of 10 "(1, 1)" "(4, 3)"] by blast
  then have "length ps = 4" by simp
  with ps(1-3,5) show ?thesis by auto
qed

lemma line_example:
  "on_line (draw_line 10 (1, 1) (4, 3)) = map (pixel 10) [(1, 1), (2, 1), (3, 2), (4, 3)]"
  by code_simp

text \<open>The points are rounded down towards the first one: the second point of this line is on height 1, the line itself
  passes at 1 and two thirds. After a diagonal step the numerator is below zero by a whole pixel.\<close>

lemma line_rounds_down:
  "map twovdu (filter (\<lambda>p. side p = 0) (draw_line 10 (1, 1) (4, 3))) = [0, 2, -2, -3]"
  by code_simp

end
