(* ===== verification/Dedup.thy ===== *)
theory Dedup
  imports Levenshtein Strings FsPath "HOL-Library.AList"
begin

section \<open>Finding duplicated texts (net/http/dedup)\<close>

text \<open>
  Several documents of one site are compared to weed out what they share. Every element of a document becomes a
  \<^verbatim>\<open>TextifiedTree\<close>: its words, counted, sorted and joined again (\<^verbatim>\<open>sortCompact\<close>).
  \<^verbatim>\<open>similarTextifiedTrees\<close> compares each of one level with those of the other documents, first by
  cheap criteria, then by the Levenshtein distance of theory \<open>Levenshtein\<close>; \<^verbatim>\<open>Dedup\<close> does so from
  the outermost level inwards and skips what is inside a duplicate.

  \<^item> A histogram is an association list with distinct keys. The documents are an association list from
    file keys to trees, in the order in which \<^verbatim>\<open>range\<close> visits the map.
  \<^item> Quotients of sizes are exact rationals: a \<^verbatim>\<open>float64\<close> quotient of integers below 2^40
    compares in the same way with the constants of the code. The sum of the relative distances is exact, too.
  \<^item> The texts are ASCII; the text of an HTML node is extracted by code outside the model. Printing is left out, but the
    slice expression that only the printing uses is not, it can panic. \<^verbatim>\<open>None\<close> is a panic.
\<close>

subsection \<open>12_funcs_textify.go: sortCompact\<close>

fun remove_all :: "string \<Rightarrow> nat \<Rightarrow> string \<Rightarrow> string" where
  "remove_all p skip [] = []"
| "remove_all p (Suc skip) (c # s) = remove_all p skip s"
| "remove_all p 0 (c # s) = (if HasPrefix (c # s) p then remove_all p (length p - 1) s else c # remove_all p 0 s)"

definition compact_char :: "char \<Rightarrow> char" where
  "compact_char c = (if c \<in> set ''.-:/0123456789'' then CHR '' '' else c)"

definition count_word :: "nat \<Rightarrow> (string \<times> int) list \<Rightarrow> string \<Rightarrow> (string \<times> int) list" where
  "count_word n histo word =
     (let sword = ToLower (TrimSpace word);
          inc = AList.update sword (case map_of histo sword of Some i \<Rightarrow> i + 1 | None \<Rightarrow> 1) histo
      in if n > 3 then (if length sword > 3 then inc else histo) else inc)"

definition join_keys :: "string list \<Rightarrow> string" where
  "join_keys keys = TrimSpace (CHR '' '' # concat (map (\<lambda>k. if length k > 1 then k @ '' '' else []) keys))"

definition sortCompact :: "string \<Rightarrow> string \<times> (string \<times> int) list \<times> int" where
  "sortCompact text =
     (let words = Fields (map compact_char (remove_all ''[img] '' 0 text));
          histo = foldl (count_word (length words)) [] words;
          keys = sort (map fst histo)
      in (join_keys keys, histo, int (length histo)))"

subsection \<open>5_similar_texts_types.go and 5_similar_texts_sort.go\<close>

record similar =
  sim_SourceID :: string
  sim_Lvl :: int
  sim_Outline :: string
  sim_Text :: string
  AbsLevenshtein :: int
  RelLevenshtein :: rat

record ttree =
  SourceID :: string
  Lvl :: int
  Outline :: string
  NumTokens :: int
  Histo :: "(string \<times> int) list"
  Text :: string
  Similars :: "similar list"
  SumAbsLevenshtein :: int
  SumRelLevenshtein :: rat

text \<open>\<^verbatim>\<open>util.Stoi\<close> panics on what is no 64-bit decimal number.\<close>

definition digit :: "char \<Rightarrow> bool" where
  "digit c \<longleftrightarrow> c \<in> set ''0123456789''"

definition number :: "string \<Rightarrow> int" where
  "number s = foldl (\<lambda>n c. 10 * n + (of_char c - 48)) 0 s"

definition Atoi :: "string \<Rightarrow> int option" where
  "Atoi s =
     (let neg = HasPrefix s ''-''; ds = (if neg \<or> HasPrefix s ''+'' then tl s else s);
          n = (if neg then - number ds else number ds)
      in if ds \<noteq> [] \<and> list_all digit ds \<and> - (2 ^ 63) \<le> n \<and> n < 2 ^ 63 then Some n else None)"

definition Stoi :: "string \<Rightarrow> int option" where
  "Stoi s = Atoi (TrimSpace s)"

fun outline_less :: "string list \<Rightarrow> string list \<Rightarrow> bool option" where
  "outline_less [] st2 = Some True"
| "outline_less (v1 # st1) [] = Some False"
| "outline_less (v1 # st1) (v2 # st2) = do {
     i1 \<leftarrow> Stoi v1;
     i2 \<leftarrow> Stoi v2;
     if i1 < i2 then Some True else if i1 > i2 then Some False else outline_less st1 st2
   }"

definition dots :: "string \<Rightarrow> int" where
  "dots s = int (length (filter (\<lambda>c. c = CHR ''.'') s))"

definition Less_outline :: "string \<Rightarrow> string \<Rightarrow> bool option" where
  "Less_outline a b =
     (if dots a < dots b then Some True else if dots a > dots b then Some False
      else outline_less (split_on (CHR ''.'') a) (split_on (CHR ''.'') b))"

subsection \<open>5_similar_texts.go\<close>

definition excerptLen :: int where "excerptLen = 20"

definition levelsTolerance :: int where "levelsTolerance = 0"

definition opt_dedup :: Levenshtein.options where
  "opt_dedup = \<lparr>InsCost = 1, DelCost = 1, SubCost = 1\<rparr>"

definition HistoBasedDistance :: "ttree \<Rightarrow> ttree \<Rightarrow> rat" where
  "HistoBasedDistance src dst =
     (let (largerOuter, inner) = (if NumTokens src < NumTokens dst then (dst, src) else (src, dst)) in
      if NumTokens largerOuter = 0 then 0
      else let same = int (length (filter (\<lambda>k. map_of (Histo inner) k \<noteq> None) (map fst (Histo largerOuter))));
               distinctBySheerSize = NumTokens largerOuter - NumTokens inner;
               distinctInner = NumTokens inner - same
           in of_int (distinctBySheerSize + distinctInner) / of_int (NumTokens largerOuter))"

text \<open>The comparison of two trees: \<^verbatim>\<open>None\<close> inside when a criterion skips the pair.\<close>

definition compare_trees :: "ttree \<Rightarrow> ttree \<Rightarrow> (int \<times> rat) option option" where
  "compare_trees src tt =
     (let relSize = of_int (int (length (Text src))) / (of_int (max 1 (int (length (Text tt)))) :: rat) in
      if NumTokens src < 1 \<or> NumTokens src < 5 \<and> NumTokens tt > 7 \<or> HistoBasedDistance src tt > 51 / 100 \<or>
         relSize < 33 / 100 \<or> relSize > 3
      then Some None
      else if NumTokens tt = NumTokens src \<and> length (Text tt) = length (Text src) \<and> Text tt = Text src
      then Some (Some (0, 0))
      else map_option Some (Distance (New_l Equal_wordb (WrapAsEqualer_wordb (Text src) True)
             (WrapAsEqualer_wordb (Text tt) True) opt_dedup)))"

definition accepted :: "int \<Rightarrow> rat \<Rightarrow> bool" where
  "accepted absDist relDist \<longleftrightarrow> relDist < 26 / 100 \<and> absDist < 10"

definition add_similar :: "ttree \<Rightarrow> string \<Rightarrow> ttree \<Rightarrow> int \<Rightarrow> rat \<Rightarrow> ttree" where
  "add_similar src fnKey tt absDist relDist =
     src\<lparr>Similars := Similars src @ [\<lparr>sim_SourceID = fnKey, sim_Lvl = Lvl tt, sim_Outline = Outline tt,
           sim_Text = Text tt, AbsLevenshtein = absDist, RelLevenshtein = relDist\<rparr>],
         SumAbsLevenshtein := SumAbsLevenshtein src + absDist,
         SumRelLevenshtein := SumRelLevenshtein src + relDist\<rparr>"

fun match_loop :: "string \<Rightarrow> ttree list \<Rightarrow> nat \<Rightarrow> ttree \<Rightarrow> ttree option" where
  "match_loop fnKey [] cntr src = Some src"
| "match_loop fnKey (tt # tts) cntr src =
     (if Lvl tt > Lvl src + levelsTolerance then Some src
      else if \<not> (Lvl tt = Lvl src \<or> Lvl tt > Lvl src \<and> Lvl tt \<le> Lvl src + levelsTolerance)
      then match_loop fnKey tts cntr src
      else do {
        dist \<leftarrow> compare_trees src tt;
        (case dist of
           None \<Rightarrow> match_loop fnKey tts cntr src
         | Some (absDist, relDist) \<Rightarrow>
             if accepted absDist relDist then do {
               excerpt \<leftarrow> slice_sub (Text tt) 0 (min (2 * excerptLen) (int (length (Text tt)) - 1));
               sd \<leftarrow> ToLen excerpt (2 * excerptLen + 1);
               let src' = add_similar src fnKey tt absDist relDist;
               if cntr + 1 > 20 then Some src' else match_loop fnKey tts (cntr + 1) src'
             }
             else match_loop fnKey tts cntr src)
      })"

type_synonym documents = "(string \<times> ttree list) list"

fun similarTextifiedTrees2 :: "ttree \<Rightarrow> documents \<Rightarrow> ttree option" where
  "similarTextifiedTrees2 src [] = Some src"
| "similarTextifiedTrees2 src ((fnKey, tts) # mp) =
     (if fnKey = SourceID src then similarTextifiedTrees2 src mp
      else do {
        src' \<leftarrow> match_loop fnKey tts 0 src;
        similarTextifiedTrees2 src' mp
      })"

fun join_dots :: "string list \<Rightarrow> string" where
  "join_dots [] = []"
| "join_dots (w # ws) = w @ (if ws = [] then [] else CHR ''.'' # join_dots ws)"

definition skipped :: "string set \<Rightarrow> ttree \<Rightarrow> bool" where
  "skipped skipPrefix tt =
     (let outls = split_on (CHR ''.'') (Outline tt)
      in \<exists>i<length outls - 1. join_dots (take (i + 1) outls) @ ''.'' \<in> skipPrefix)"

text \<open>The trees are changed in place: the list is returned with the changes, then the copies of the matching ones.\<close>

fun similar_list :: "documents \<Rightarrow> string set \<Rightarrow> int set \<Rightarrow> ttree list \<Rightarrow> (ttree list \<times> ttree list) option" where
  "similar_list mp skipPrefix levels [] = Some ([], [])"
| "similar_list mp skipPrefix levels (tt # tts) =
     (if Lvl tt \<notin> levels \<or> skipped skipPrefix tt
      then do { (done_tts, frags) \<leftarrow> similar_list mp skipPrefix levels tts; Some (tt # done_tts, frags) }
      else do {
        tt' \<leftarrow> similarTextifiedTrees2 tt mp;
        (done_tts, frags) \<leftarrow> similar_list mp skipPrefix levels tts;
        Some (tt' # done_tts, (if Similars tt' \<noteq> [] then [tt'] else []) @ frags)
      })"

fun similarTextifiedTrees :: "documents \<Rightarrow> string set \<Rightarrow> string set \<Rightarrow> int set \<Rightarrow> documents \<Rightarrow>
    (documents \<times> ttree list) option" where
  "similarTextifiedTrees all skipPrefix onlyKeys levels [] = Some ([], [])"
| "similarTextifiedTrees all skipPrefix onlyKeys levels ((fnKey, tts) # mp) =
     (if fnKey \<notin> onlyKeys
      then do { (mp', frags) \<leftarrow> similarTextifiedTrees all skipPrefix onlyKeys levels mp; Some ((fnKey, tts) # mp', frags) }
      else do {
        (tts', frags1) \<leftarrow> similar_list all skipPrefix levels tts;
        (mp', frags2) \<leftarrow> similarTextifiedTrees all skipPrefix onlyKeys levels mp;
        Some ((fnKey, tts') # mp', frags1 @ frags2)
      })"

subsection \<open>7_pipeline.go: the stages of Dedup\<close>

definition numTotal :: int where "numTotal = 3"

definition stageMax :: nat where "stageMax = 4"

definition duplicated :: "ttree \<Rightarrow> bool" where
  "duplicated frag \<longleftrightarrow> int (length (Similars frag)) \<ge> numTotal - 1 \<and>
     SumRelLevenshtein frag / of_int (numTotal - 1) < 2 / 10"

fun weed_stages :: "string \<Rightarrow> nat list \<Rightarrow> documents \<Rightarrow> string set \<Rightarrow> string set option" where
  "weed_stages fnKey [] mp skipPrefixes = Some skipPrefixes"
| "weed_stages fnKey (stage # stages) mp skipPrefixes = do {
     (mp', frags) \<leftarrow> similarTextifiedTrees mp skipPrefixes {fnKey} {int stage} mp;
     weed_stages fnKey stages mp'
       (skipPrefixes \<union> (\<lambda>frag. Outline frag @ ''.'') ` set (filter duplicated frags))
   }"

definition weed_all :: "string \<Rightarrow> documents \<Rightarrow> string set option" where
  "weed_all fnKey mp = weed_stages fnKey [1..<stageMax + 1] mp {}"

subsection \<open>The order of outlines\<close>

text \<open>An outline of numbers: its components read, the dots counted.\<close>

definition outline_numbers :: "string \<Rightarrow> int list option" where
  "outline_numbers s = those (map Stoi (split_on (CHR ''.'') s))"

lemma dots_split: "dots s = int (length (split_on (CHR ''.'') s)) - 1"
proof (induction s)
  case (Cons c s)
  have "length (split_on (CHR ''.'') s) \<noteq> 0" by simp
  then show ?case using Cons by (cases "split_on (CHR ''.'') s") (auto simp: dots_def)
qed (simp add: dots_def)

lemma those_length: "those xs = Some ys \<Longrightarrow> length ys = length xs"
  by (induction xs arbitrary: ys) (auto split: option.splits)

lemma outline_less_numbers:
  "those (map Stoi us) = Some xs \<Longrightarrow> those (map Stoi vs) = Some ys \<Longrightarrow> length us = length vs \<Longrightarrow>
    outline_less us vs = Some (xs \<le> ys)"
proof (induction us vs arbitrary: xs ys rule: outline_less.induct)
  case (3 v1 st1 v2 st2)
  then obtain x xs' y ys' where "Stoi v1 = Some x" "Stoi v2 = Some y" "those (map Stoi st1) = Some xs'"
    "those (map Stoi st2) = Some ys'" "xs = x # xs'" "ys = y # ys'"
    by (auto split: option.splits)
  then show ?case using 3 by auto
qed auto

lemma Less_outline_numbers:
  assumes "outline_numbers a = Some xs" "outline_numbers b = Some ys"
  shows "Less_outline a b = Some (length xs < length ys \<or> length xs = length ys \<and> xs \<le> ys)"
proof -
  have len: "dots a = int (length xs) - 1" "dots b = int (length ys) - 1"
    using assms by (simp_all add: dots_split outline_numbers_def those_length)
  have "length xs = length ys \<Longrightarrow> length (split_on (CHR ''.'') a) = length (split_on (CHR ''.'') b)"
    using assms by (simp add: outline_numbers_def those_length)
  then show ?thesis using outline_less_numbers[of "split_on (CHR ''.'') a" xs "split_on (CHR ''.'') b" ys] assms
    by (auto simp: Less_outline_def len outline_numbers_def)
qed

subsection \<open>The words of a text\<close>

lemma Fields_from_word: "\<forall>c\<in>set w. \<not> is_space c \<Longrightarrow> Fields_from (w @ s) p = Fields_from s (p @ w)"
  by (induction w arbitrary: p) auto

lemma Fields_from_space: "is_space c \<Longrightarrow> Fields_from (c # s) p = (if p = [] then [] else [p]) @ Fields_from s []"
  by simp

lemma Fields_lead: "\<forall>c\<in>set w. is_space c \<Longrightarrow> Fields_from (w @ s) [] = Fields_from s []"
  by (induction w) auto

lemma Fields_trail: "\<forall>c\<in>set w. is_space c \<Longrightarrow> Fields_from (s @ w) p = Fields_from s p"
proof (induction s arbitrary: p)
  case Nil
  then show ?case using Fields_lead[of w "[]"] by (cases w) auto
qed auto

lemma Fields_TrimSpace: "Fields (TrimSpace s) = Fields s"
proof -
  let ?t = "dropWhile is_space s"
  let ?r = "rev (dropWhile is_space (rev ?t))"
  have sp: "\<forall>c\<in>set (takeWhile is_space u). is_space c" for u by (auto dest: set_takeWhileD)
  have "Fields (takeWhile is_space s @ ?t) = Fields ?t" unfolding Fields_def by (rule Fields_lead[OF sp])
  then have lead: "Fields s = Fields ?t" by simp
  have "Fields (?r @ rev (takeWhile is_space (rev ?t))) = Fields ?r"
    unfolding Fields_def by (rule Fields_trail) (unfold set_rev, rule sp)
  moreover have "?r @ rev (takeWhile is_space (rev ?t)) = ?t"
    unfolding rev_append[symmetric] takeWhile_dropWhile_id by simp
  ultimately show ?thesis unfolding TrimSpace_def lead by simp
qed

definition is_word :: "string \<Rightarrow> bool" where
  "is_word w \<longleftrightarrow> w \<noteq> [] \<and> (\<forall>c\<in>set w. \<not> is_space c)"

lemma Fields_join: "\<forall>w\<in>set ws. is_word w \<Longrightarrow>
    Fields (concat (map (\<lambda>k. if length k > 1 then k @ '' '' else []) ws)) = filter (\<lambda>k. length k > 1) ws"
proof (induction ws)
  case (Cons w ws)
  have sp: "is_space CHR '' ''" by (simp add: is_space_def)
  show ?case
  proof (cases "length w > 1")
    case True
    have "Fields (w @ CHR '' '' # s) = w # Fields s" for s
      using Fields_from_word[of w "CHR '' '' # s" "[]"] Cons.prems sp by (simp add: Fields_def is_word_def)
    with True Cons show ?thesis by simp
  qed (use Cons in simp)
qed (simp add: Fields_def)

lemma Fields_join_keys: "\<forall>w\<in>set ws. is_word w \<Longrightarrow> Fields (join_keys ws) = filter (\<lambda>k. length k > 1) ws"
  using Fields_join[of ws] by (simp only: join_keys_def Fields_TrimSpace) (simp add: Fields_def is_space_def)

lemma Fields_from_words: "\<forall>c\<in>set p. \<not> is_space c \<Longrightarrow> v \<in> set (Fields_from s p) \<Longrightarrow> is_word v"
proof (induction s arbitrary: p)
  case Nil
  then show ?case by (cases "p = []") (auto simp: is_word_def)
next
  case (Cons c s)
  show ?case
  proof (cases "is_space c")
    case True
    with Cons.prems have "v = p \<and> p \<noteq> [] \<or> v \<in> set (Fields_from s [])" by (cases "p = []") auto
    then show ?thesis using Cons.IH[of "[]"] Cons.prems(1) by (auto simp: is_word_def)
  next
    case False
    with Cons.prems have "v \<in> set (Fields_from s (p @ [c]))" "\<forall>x\<in>set (p @ [c]). \<not> is_space x" by auto
    then show ?thesis using Cons.IH by blast
  qed
qed

lemma Fields_words: "v \<in> set (Fields s) \<Longrightarrow> is_word v"
  using Fields_from_words[of "[]" v s] by (simp add: Fields_def)

lemma space_small: "is_space c \<Longrightarrow> of_char c < (65::nat)"
  by (auto simp: is_space_def)

lemma lower_space: "is_space (lower_char c) = is_space c"
proof (cases "CHR ''A'' \<le> c \<and> c \<le> CHR ''Z''")
  case True
  then have c: "65 \<le> (of_char c :: nat)" "of_char c \<le> (90 :: nat)" by (simp_all add: less_eq_char_def)
  then have "of_char (lower_char c) = (of_char c + 32 :: nat)" using True by (simp add: lower_char_def)
  then show ?thesis using c space_small[of c] space_small[of "lower_char c"] by linarith
qed (auto simp: lower_char_def)

lemma word_lower: "is_word w \<Longrightarrow> is_word (ToLower (TrimSpace w))"
proof -
  assume w: "is_word w"
  then have "TrimSpace w = w" by (intro TrimSpace_id) (auto simp: is_word_def)
  with w show ?thesis by (auto simp: is_word_def ToLower_def lower_space)
qed

definition histo_ok :: "(string \<times> int) list \<Rightarrow> bool" where
  "histo_ok histo \<longleftrightarrow> distinct (map fst histo) \<and> (\<forall>k\<in>set (map fst histo). is_word k)"

lemma update_keys: "set (map fst (AList.update k v h)) = insert k (set (map fst h))"
  using dom_map_of_conv_image_fst[of "AList.update k v h"] dom_map_of_conv_image_fst[of h] by (simp add: update_conv')

lemma count_word_ok:
  assumes "histo_ok histo" "is_word w"
  shows "histo_ok (count_word n histo w)"
proof -
  let ?s = "ToLower (TrimSpace w)"
  have "histo_ok (AList.update ?s v histo)" for v
    using assms word_lower[OF assms(2)] unfolding histo_ok_def update_keys by (simp add: distinct_update)
  then show ?thesis using assms(1) by (simp add: count_word_def Let_def)
qed

lemma count_words_ok: "histo_ok histo \<Longrightarrow> \<forall>w\<in>set ws. is_word w \<Longrightarrow> histo_ok (foldl (count_word n) histo ws)"
  by (induction ws arbitrary: histo) (simp_all add: count_word_ok)

text \<open>What sortCompact promises of a tree: the histogram has one entry per token, and the words of the text are the tokens
  of more than one letter.\<close>

definition compacted :: "ttree \<Rightarrow> bool" where
  "compacted tt \<longleftrightarrow> histo_ok (Histo tt) \<and> NumTokens tt = int (length (Histo tt)) \<and>
     set (Fields (Text tt)) = {k \<in> set (map fst (Histo tt)). length k > 1} \<and> Text tt = TrimSpace (Text tt)"

lemma TrimSpace_again: "TrimSpace (TrimSpace s) = TrimSpace s"
proof (rule TrimSpace_id, cases "TrimSpace s = []")
  case False
  let ?t = "dropWhile is_space s"
  have r: "TrimSpace s = rev (dropWhile is_space (rev ?t))" by (simp add: TrimSpace_def)
  then have ne: "dropWhile is_space (rev ?t) \<noteq> []" using False by simp
  have "last (TrimSpace s) = hd (dropWhile is_space (rev ?t))" using ne by (simp add: r last_rev)
  then have l: "\<not> is_space (last (TrimSpace s))" using hd_dropWhile[OF ne] by simp
  have t: "?t \<noteq> []" using ne by (metis dropWhile.simps(1) rev.simps(1))
  have "?t = TrimSpace s @ rev (takeWhile is_space (rev ?t))"
    unfolding r rev_append[symmetric] takeWhile_dropWhile_id by simp
  then have "hd ?t = hd (TrimSpace s)" using False by (metis hd_append2)
  then have "\<not> is_space (hd (TrimSpace s))" using hd_dropWhile[OF t] by simp
  with l show "TrimSpace s = [] \<or> \<not> is_space (hd (TrimSpace s)) \<and> \<not> is_space (last (TrimSpace s))" by simp
qed simp

lemma sortCompact_compacted:
  assumes "sortCompact text = (buf, histo, n)" "Histo tt = histo" "NumTokens tt = n" "Text tt = buf"
  shows "compacted tt"
proof -
  let ?words = "Fields (map compact_char (remove_all ''[img] '' 0 text))"
  have h: "histo = foldl (count_word (length ?words)) [] ?words" "n = int (length histo)"
    "buf = join_keys (sort (map fst histo))" using assms(1) by (auto simp: sortCompact_def Let_def)
  have ok: "histo_ok histo" unfolding h(1) by (rule count_words_ok) (auto simp: histo_ok_def dest: Fields_words)
  then have "Fields buf = filter (\<lambda>k. length k > 1) (sort (map fst histo))"
    unfolding h(3) by (intro Fields_join_keys) (simp add: histo_ok_def)
  then show ?thesis using ok assms(2-4) h(2)
    by (auto simp: compacted_def h(3) join_keys_def TrimSpace_again)
qed

subsection \<open>The cheap distance is a lower bound\<close>

text \<open>An alignment of two lists without repetitions matches at most what they share.\<close>

lemma align_common:
  "align opt_dedup xs ys c \<Longrightarrow> distinct xs \<Longrightarrow> distinct ys \<Longrightarrow>
    int (max (length xs) (length ys)) \<le> c + int (card (set xs \<inter> set ys))"
proof (induction rule: align.induct)
  case (align_del xs ys c x)
  have "card (set xs \<inter> set ys) \<le> card (set (xs @ [x]) \<inter> set ys)" by (intro card_mono) auto
  with align_del show ?case by (simp add: opt_dedup_def)
next
  case (align_ins xs ys c y)
  have "card (set xs \<inter> set ys) \<le> card (set xs \<inter> set (ys @ [y]))" by (intro card_mono) auto
  with align_ins show ?case by (simp add: opt_dedup_def)
next
  case (align_sub xs ys c x y)
  have "card (set xs \<inter> set ys) \<le> card (set (xs @ [x]) \<inter> set (ys @ [y]))" by (intro card_mono) auto
  with align_sub show ?case by (simp add: opt_dedup_def)
next
  case (align_match xs ys c x)
  have "set (xs @ [x]) \<inter> set (ys @ [x]) = insert x (set xs \<inter> set ys)" by auto
  moreover have "x \<notin> set xs \<inter> set ys" using align_match.prems by simp
  ultimately have "card (set (xs @ [x]) \<inter> set (ys @ [x])) = Suc (card (set xs \<inter> set ys))" by simp
  with align_match show ?case by simp
qed (simp add: opt_dedup_def)

abbreviation words_of :: "ttree \<Rightarrow> string list" where
  "words_of tt \<equiv> WrapAsEqualer_wordb (Text tt) True"

text \<open>The Levenshtein distance of two word lists, absolute and relative.\<close>

definition lev :: "string list \<Rightarrow> string list \<Rightarrow> int" where
  "lev xs ys = D Equal_wordb opt_dedup xs ys (length xs) (length ys)"

definition rel :: "string list \<Rightarrow> string list \<Rightarrow> rat" where
  "rel xs ys = of_int (lev xs ys) / of_int (max 1 (max (int (length xs)) (int (length ys))))"

lemma divisor_max: "0 \<le> a \<Longrightarrow> 0 \<le> b \<Longrightarrow>
    (if (if b + 1 > a + 1 then b + 1 else a + 1) - 1 = 0 then 1 else (if b + 1 > a + 1 then b + 1 else a + 1) - 1) = max 1 (max a (b::int))"
  by (auto simp: max_def)

lemma Distance_lev: "Distance (New_l Equal_wordb xs ys opt_dedup) = Some (lev xs ys, rel xs ys)"
proof -
  let ?d = "(if int (length ys) + 1 > int (length xs) + 1 then int (length ys) + 1 else int (length xs) + 1) - 1"
  have div: "(if ?d = 0 then 1 else ?d) = max 1 (max (int (length xs)) (int (length ys)))"
    by (intro divisor_max of_nat_0_le_iff)
  have "Distance (New_l Equal_wordb xs ys opt_dedup) = Some (lev xs ys, of_int (lev xs ys) / of_int (if ?d = 0 then 1 else ?d))"
    using cell_D[of "length xs" xs "length ys" ys Equal_wordb opt_dedup]
    by (cases xs; cases ys; simp add: Distance_def New_l_dims Let_def lev_def del: upt_Suc)
  then show ?thesis unfolding div rel_def .
qed

lemma lev_least: "align opt_dedup xs ys c \<Longrightarrow> lev xs ys \<le> c"
  unfolding lev_def by (rule wordb_tok.D_least) (simp_all add: unit_costs_def opt_dedup_def)

lemma lev_align: "align opt_dedup xs ys (lev xs ys)"
  using wordb_tok.align_D[of opt_dedup "length xs" xs "length ys" ys]
  by (simp add: lev_def unit_costs_def opt_dedup_def)

lemma align_same: "align opt xs xs 0"
  by (induction xs rule: rev_induct) (auto intro: align.intros)

lemma align_pos: "align opt_dedup xs ys c \<Longrightarrow> 0 \<le> c"
  by (induction rule: align.induct) (simp_all add: opt_dedup_def)

lemma lev_same: "lev xs xs = 0"
  using lev_least[OF align_same] align_pos[OF lev_align] by (simp add: order_antisym)

lemma words_of_spec: "distinct (words_of tt)" "set (words_of tt) = set (Fields (Text tt))"
proof -
  have "sorted_wrt (<) (WrapAsEqualer_word (Text tt) True)" using sorted_tokens by blast
  then have "distinct (WrapAsEqualer_word (Text tt) True)" by (simp add: strict_sorted_iff)
  then show "distinct (words_of tt)" using sorted_tokens[of "Text tt"] by (metis distinct_rev)
  show "set (words_of tt) = set (Fields (Text tt))" using sorted_tokens[of "Text tt"] by (metis set_rev)
qed

text \<open>A tree as sortCompact gives it, without tokens of one letter (a text of more than three words has none).\<close>

definition good :: "ttree \<Rightarrow> bool" where
  "good tt \<longleftrightarrow> compacted tt \<and> (\<forall>k\<in>set (map fst (Histo tt)). length k > 1)"

lemma good_words:
  assumes "good tt"
  shows "set (words_of tt) = set (map fst (Histo tt))" "int (length (words_of tt)) = NumTokens tt"
proof -
  show s: "set (words_of tt) = set (map fst (Histo tt))"
    using assms unfolding words_of_spec(2) good_def compacted_def by auto
  have "length (words_of tt) = card (set (map fst (Histo tt)))"
    using distinct_card[OF words_of_spec(1)] s by metis
  also have "\<dots> = length (map fst (Histo tt))"
    using assms by (intro distinct_card) (simp add: good_def compacted_def histo_ok_def)
  finally show "int (length (words_of tt)) = NumTokens tt" using assms by (simp add: good_def compacted_def)
qed

lemma common_count:
  assumes "good a" "good b"
  shows "length (filter (\<lambda>k. map_of (Histo b) k \<noteq> None) (map fst (Histo a))) = card (set (words_of a) \<inter> set (words_of b))"
proof -
  have "distinct (map fst (Histo a))" using assms(1) by (simp add: good_def compacted_def histo_ok_def)
  then have "length (filter (\<lambda>k. map_of (Histo b) k \<noteq> None) (map fst (Histo a))) =
      card (set (filter (\<lambda>k. map_of (Histo b) k \<noteq> None) (map fst (Histo a))))"
    by (intro distinct_card[symmetric] distinct_filter)
  also have "set (filter (\<lambda>k. map_of (Histo b) k \<noteq> None) (map fst (Histo a))) = set (map fst (Histo a)) \<inter> set (map fst (Histo b))"
    by (auto simp: map_of_eq_None_iff)
  finally show ?thesis using good_words(1) assms by simp
qed

lemma HistoBasedDistance_good:
  assumes "good a" "good b"
  shows "HistoBasedDistance a b = (if max (NumTokens a) (NumTokens b) = 0 then 0
    else of_int (max (NumTokens a) (NumTokens b) - int (card (set (words_of a) \<inter> set (words_of b)))) /
         of_int (max (NumTokens a) (NumTokens b)))"
proof (cases "NumTokens a < NumTokens b")
  case True
  then show ?thesis unfolding HistoBasedDistance_def Let_def
    using common_count[OF assms(2,1)] by (simp add: Int_commute max_def)
next
  case False
  then show ?thesis unfolding HistoBasedDistance_def Let_def
    using common_count[OF assms] by (simp add: max_def)
qed

lemma histo_below_rel:
  assumes "good a" "good b"
  shows "HistoBasedDistance a b \<le> rel (words_of a) (words_of b)"
proof -
  let ?N = "max (NumTokens a) (NumTokens b)"
  have N: "int (max (length (words_of a)) (length (words_of b))) = ?N"
    "max (int (length (words_of a))) (int (length (words_of b))) = ?N"
    using good_words(2)[OF assms(1)] good_words(2)[OF assms(2)] by (simp_all add: max_def)
  have lb: "?N - int (card (set (words_of a) \<inter> set (words_of b))) \<le> lev (words_of a) (words_of b)"
    using align_common[OF lev_align words_of_spec(1) words_of_spec(1), of a b] unfolding N(1) by linarith
  have pos: "0 \<le> lev (words_of a) (words_of b)" by (rule align_pos[OF lev_align])
  show ?thesis
  proof (cases "?N = 0")
    case True
    then show ?thesis using pos by (simp add: HistoBasedDistance_good[OF assms] rel_def)
  next
    case False
    then have "0 < ?N" using N(2) by (metis max.cobounded1 of_nat_0_le_iff order_le_less order_trans)
    then have "max 1 ?N = ?N" by simp
    with False lb \<open>0 < ?N\<close> show ?thesis
      unfolding HistoBasedDistance_good[OF assms] rel_def N(2)
      by (simp only: if_False) (intro divide_right_mono, simp_all)
  qed
qed

lemma count_word_keys:
  assumes "3 < n"
  shows "set (map fst (count_word n h w)) \<subseteq> set (map fst h) \<union> {k. 3 < length k}"
  using assms unfolding count_word_def Let_def by (simp only: if_True update_keys split: if_splits) blast

lemma count_words_long:
  assumes "3 < n"
  shows "\<forall>k\<in>set (map fst h). 1 < length k \<Longrightarrow> \<forall>k\<in>set (map fst (foldl (count_word n) h ws)). 1 < length k"
proof (induction ws arbitrary: h)
  case (Cons w ws)
  have "1 < length k" if "k \<in> set (map fst (count_word n h w))" for k
    using subsetD[OF count_word_keys[OF assms] that] Cons.prems by (elim UnE) (blast, simp)
  then show ?case unfolding foldl.simps by (intro Cons.IH ballI)
qed simp

lemma sortCompact_good:
  assumes "sortCompact text = (buf, histo, n)" "Histo tt = histo" "NumTokens tt = n" "Text tt = buf"
    "3 < length (Fields (map compact_char (remove_all ''[img] '' 0 text)))"
  shows "good tt"
proof -
  have "Histo tt = foldl (count_word (length (Fields (map compact_char (remove_all ''[img] '' 0 text))))) []
      (Fields (map compact_char (remove_all ''[img] '' 0 text)))"
    using assms(1,2) unfolding sortCompact_def Let_def by (simp only: prod.inject)
  then have "\<forall>k\<in>set (map fst (Histo tt)). 1 < length k" using count_words_long[OF assms(5), of "[]"] by (simp only:) simp
  then show ?thesis using sortCompact_compacted[OF assms(1-4)] unfolding good_def by blast
qed

subsection \<open>The comparison of two trees\<close>

definition comparable :: "ttree \<Rightarrow> ttree \<Rightarrow> bool" where
  "comparable src tt \<longleftrightarrow> NumTokens src \<ge> 1 \<and> (NumTokens src < 5 \<longrightarrow> NumTokens tt \<le> 7) \<and>
     33 / 100 * of_int (max 1 (int (length (Text tt)))) \<le> (of_int (int (length (Text src))) :: rat) \<and>
     int (length (Text src)) \<le> 3 * max 1 (int (length (Text tt)))"

definition accepted_pair :: "ttree \<Rightarrow> ttree \<Rightarrow> bool" where
  "accepted_pair src tt = (case compare_trees src tt of Some (Some (a, r)) \<Rightarrow> accepted a r | _ \<Rightarrow> False)"

lemma comparable_sizes:
  "comparable src tt \<longleftrightarrow> \<not> (NumTokens src < 1 \<or> NumTokens src < 5 \<and> NumTokens tt > 7 \<or>
     of_int (int (length (Text src))) / (of_int (max 1 (int (length (Text tt)))) :: rat) < 33 / 100 \<or>
     of_int (int (length (Text src))) / (of_int (max 1 (int (length (Text tt)))) :: rat) > 3)"
proof -
  have p: "0 < (of_int (max 1 (int (length (Text tt)))) :: rat)"
    unfolding of_int_0_less_iff less_max_iff_disj by (intro disjI1 zero_less_one)
  have "int (length (Text src)) \<le> 3 * max 1 (int (length (Text tt))) \<longleftrightarrow>
      (of_int (int (length (Text src))) :: rat) \<le> 3 * of_int (max 1 (int (length (Text tt))))"
    using of_int_le_iff[of "int (length (Text src))" "3 * max 1 (int (length (Text tt)))", where ?'a = rat]
    by (simp only: of_int_mult of_int_numeral)
  then have "int (length (Text src)) \<le> 3 * max 1 (int (length (Text tt))) \<longleftrightarrow>
      \<not> of_int (int (length (Text src))) / (of_int (max 1 (int (length (Text tt)))) :: rat) > 3"
    unfolding pos_less_divide_eq[OF p] not_less .
  moreover have "33 / 100 * of_int (max 1 (int (length (Text tt)))) \<le> (of_int (int (length (Text src))) :: rat) \<longleftrightarrow>
      \<not> of_int (int (length (Text src))) / (of_int (max 1 (int (length (Text tt)))) :: rat) < 33 / 100"
    unfolding pos_divide_less_eq[OF p] not_less ..
  ultimately show ?thesis unfolding comparable_def by (auto simp only: not_less not_le)
qed

lemma compare_trees_cases:
  "compare_trees src tt =
     Some (if \<not> comparable src tt \<or> HistoBasedDistance src tt > 51 / 100 then None
           else if Text tt = Text src \<and> NumTokens tt = NumTokens src then Some (0, 0)
           else Some (lev (words_of src) (words_of tt), rel (words_of src) (words_of tt)))"
  unfolding compare_trees_def Let_def Distance_lev comparable_sizes by simp blast

lemma compare_trees_good:
  assumes "good src" "good tt"
  shows "accepted_pair src tt \<longleftrightarrow> comparable src tt \<and> accepted (lev (words_of src) (words_of tt)) (rel (words_of src) (words_of tt))"
proof -
  have "\<not> HistoBasedDistance src tt > 51 / 100" if "accepted (lev (words_of src) (words_of tt)) (rel (words_of src) (words_of tt))"
    using histo_below_rel[OF assms] that by (auto simp: accepted_def)
  moreover have "lev (words_of src) (words_of tt) = 0 \<and> rel (words_of src) (words_of tt) = 0" if "Text tt = Text src"
    using that by (simp add: rel_def lev_same)
  ultimately show ?thesis by (auto simp: accepted_pair_def compare_trees_cases accepted_def)
qed

subsection \<open>The search for similar trees\<close>

lemma Fields_from_some: "p \<noteq> [] \<or> (\<exists>c\<in>set s. \<not> is_space c) \<Longrightarrow> Fields_from s p \<noteq> []"
  by (induction s arbitrary: p) auto

lemma compacted_words:
  assumes "compacted tt" "Text tt \<noteq> []"
  shows "words_of tt \<noteq> []"
proof -
  let ?u = "dropWhile is_space (rev (dropWhile is_space (Text tt)))"
  have t: "Text tt = TrimSpace (Text tt)" using assms(1) unfolding compacted_def by blast
  then have u: "Text tt = rev ?u" unfolding TrimSpace_def .
  then have ne: "?u \<noteq> []" using assms(2) by (metis rev.simps(1))
  have "hd ?u \<in> set (Text tt)" using hd_in_set[OF ne] u by (metis set_rev)
  then have "Fields (Text tt) \<noteq> []" unfolding Fields_def using hd_dropWhile[OF ne] by (intro Fields_from_some) blast
  then show ?thesis using words_of_spec(2)[of tt] by force
qed

lemma words_none: "Text tt = [] \<Longrightarrow> words_of tt = []"
  using words_of_spec(2)[of tt] by (simp add: Fields_def)

text \<open>A tree without text is never accepted, so the excerpt of an accepted one is never cut at -1.\<close>

lemma accepted_text:
  assumes "compacted src" "compare_trees src tt = Some (Some (a, r))" "accepted a r"
  shows "Text tt \<noteq> []"
proof
  assume e: "Text tt = []"
  have c: "comparable src tt" using assms(2) by (simp add: compare_trees_cases split: if_splits)
  then have "Text src \<noteq> []" unfolding comparable_def e by auto
  then have w: "words_of src \<noteq> []" and n: "Text tt \<noteq> Text src" using compacted_words[OF assms(1)] e by auto
  have "r = rel (words_of src) (words_of tt)" using assms(2) n by (simp add: compare_trees_cases split: if_splits)
  moreover have "rel (words_of src) (words_of tt) = 1"
    using w unfolding words_none[OF e] by (cases "words_of src") (simp_all add: rel_def lev_def)
  ultimately show False using assms(3) by (simp add: accepted_def)
qed

definition matches :: "ttree \<Rightarrow> ttree list \<Rightarrow> ttree list" where
  "matches src tts = filter (\<lambda>tt. Lvl tt = Lvl src \<and> accepted_pair src tt) (takeWhile (\<lambda>tt. Lvl tt \<le> Lvl src) tts)"

definition entry :: "string \<Rightarrow> ttree \<Rightarrow> ttree \<Rightarrow> similar" where
  "entry fnKey src tt =
     (let (a, r) = (case compare_trees src tt of Some (Some d) \<Rightarrow> d | _ \<Rightarrow> (0, 0))
      in \<lparr>sim_SourceID = fnKey, sim_Lvl = Lvl tt, sim_Outline = Outline tt, sim_Text = Text tt, AbsLevenshtein = a, RelLevenshtein = r\<rparr>)"

definition with_similars :: "ttree \<Rightarrow> similar list \<Rightarrow> ttree" where
  "with_similars src es = src\<lparr>Similars := Similars src @ es,
     SumAbsLevenshtein := SumAbsLevenshtein src + sum_list (map AbsLevenshtein es),
     SumRelLevenshtein := SumRelLevenshtein src + sum_list (map RelLevenshtein es)\<rparr>"

lemma with_similars_fields [simp]:
  "SourceID (with_similars src es) = SourceID src" "Lvl (with_similars src es) = Lvl src"
  "Outline (with_similars src es) = Outline src" "Text (with_similars src es) = Text src"
  "NumTokens (with_similars src es) = NumTokens src" "Histo (with_similars src es) = Histo src"
  by (simp_all add: with_similars_def)

lemma with_similars_nil [simp]: "with_similars src [] = src"
  by (simp add: with_similars_def)

lemma with_similars_append: "with_similars (with_similars src es) fs = with_similars src (es @ fs)"
  by (simp add: with_similars_def)

lemma compare_with_similars [simp]: "compare_trees (with_similars src es) tt = compare_trees src tt"
  by (simp add: compare_trees_def HistoBasedDistance_def Let_def)

lemma later_search [simp]:
  "compacted (with_similars src es) = compacted src" "accepted_pair (with_similars src es) tt = accepted_pair src tt"
  "entry k (with_similars src es) tt = entry k src tt" "matches (with_similars src es) tts = matches src tts"
  by (simp_all add: compacted_def accepted_pair_def entry_def matches_def)

lemma entry_later [simp]: "entry k (with_similars src es) = entry k src"
  by (rule ext) simp

text \<open>The documents are sorted by level first, so leaving the loop at a deeper level loses nothing.\<close>

lemma matches_sorted:
  "sorted (map Lvl tts) \<Longrightarrow> matches src tts = filter (\<lambda>tt. Lvl tt = Lvl src \<and> accepted_pair src tt) tts"
proof (induction tts)
  case (Cons tt tts)
  show ?case
  proof (cases "Lvl tt \<le> Lvl src")
    case False
    then have "\<forall>u\<in>set (tt # tts). Lvl u \<noteq> Lvl src" using Cons.prems by force
    then show ?thesis using False by (simp add: matches_def)
  qed (use Cons in \<open>simp add: matches_def\<close>)
qed (simp add: matches_def)

lemma add_similar_entry:
  "compare_trees src tt = Some (Some (a, r)) \<Longrightarrow> add_similar src fnKey tt a r = with_similars src [entry fnKey src tt]"
  by (simp add: add_similar_def with_similars_def entry_def)

lemma excerpt_defined:
  assumes "Text tt \<noteq> []"
  shows "\<exists>e sd. slice_sub (Text tt) 0 (min (2 * excerptLen) (int (length (Text tt)) - 1)) = Some e \<and> ToLen e (2 * excerptLen + 1) = Some sd"
proof -
  have "0 \<le> int (length (Text tt)) - 1" using assms by (cases "Text tt") simp_all
  then show ?thesis by (simp add: slice_sub_def ToLen_def excerptLen_def Let_def)
qed

lemma match_loop_matches:
  "compacted src \<Longrightarrow> c \<le> 20 \<Longrightarrow>
    match_loop fnKey tts c src = Some (with_similars src (map (entry fnKey src) (take (21 - c) (matches src tts))))"
proof (induction tts arbitrary: c src)
  case (Cons tt tts)
  obtain x where x: "compare_trees src tt = Some x" by (simp add: compare_trees_cases)
  consider (above) "Lvl tt > Lvl src" | (below) "Lvl tt < Lvl src" | (apart) "Lvl tt = Lvl src" "\<not> accepted_pair src tt"
    | (found) "Lvl tt = Lvl src" "accepted_pair src tt" by linarith
  then show ?case
  proof cases
    case above
    then show ?thesis by (simp add: levelsTolerance_def matches_def)
  next
    case below
    then have "matches src (tt # tts) = matches src tts" by (simp add: matches_def)
    then show ?thesis using Cons.IH[OF Cons.prems] below by (simp add: levelsTolerance_def)
  next
    case apart
    then have m: "matches src (tt # tts) = matches src tts" by (simp add: matches_def)
    show ?thesis
    proof (cases x)
      case None
      then show ?thesis using Cons.IH[OF Cons.prems] apart(1) x m None by (simp add: levelsTolerance_def)
    next
      case (Some d)
      then show ?thesis using Cons.IH[OF Cons.prems] Some apart x m by (cases d) (simp add: levelsTolerance_def accepted_pair_def)
    qed
  next
    case found
    then obtain a r where ar: "compare_trees src tt = Some (Some (a, r))" "accepted a r"
      by (auto simp: accepted_pair_def split: option.splits)
    have m: "matches src (tt # tts) = tt # matches src tts" using found by (simp add: matches_def)
    obtain e sd where "slice_sub (Text tt) 0 (min (2 * excerptLen) (int (length (Text tt)) - 1)) = Some e"
      "ToLen e (2 * excerptLen + 1) = Some sd" using excerpt_defined[OF accepted_text[OF Cons.prems(1) ar]] by blast
    then have step: "match_loop fnKey (tt # tts) c src = (if c + 1 > 20 then Some (with_similars src [entry fnKey src tt])
        else match_loop fnKey tts (c + 1) (with_similars src [entry fnKey src tt]))"
      using found ar by (simp add: levelsTolerance_def add_similar_entry)
    show ?thesis
    proof (cases "c = 20")
      case True
      then show ?thesis unfolding step m by simp
    next
      case False
      have n: "21 - c = Suc (21 - (c + 1))" using Cons.prems(2) by simp
      show ?thesis using Cons.IH[of "with_similars src [entry fnKey src tt]" "c + 1"] Cons.prems False
        unfolding step m n by (simp add: with_similars_append)
    qed
  qed
qed (simp add: matches_def)

definition similars_in :: "ttree \<Rightarrow> documents \<Rightarrow> similar list" where
  "similars_in src mp = concat (map (\<lambda>(k, tts). if k = SourceID src then [] else map (entry k src) (take 21 (matches src tts))) mp)"

lemma similars_in_later [simp]: "similars_in (with_similars src es) mp = similars_in src mp"
  unfolding similars_in_def entry_later later_search with_similars_fields ..

lemma similar_trees_found:
  "compacted src \<Longrightarrow> similarTextifiedTrees2 src mp = Some (with_similars src (similars_in src mp))"
proof (induction mp arbitrary: src)
  case (Cons d mp)
  obtain k tts where d: "d = (k, tts)" by fastforce
  show ?case
  proof (cases "k = SourceID src")
    case True
    then show ?thesis using Cons.IH[OF Cons.prems] by (simp add: d similars_in_def)
  next
    case False
    then have "similars_in src (d # mp) = map (entry k src) (take 21 (matches src tts)) @ similars_in src mp"
      by (simp add: d similars_in_def)
    then show ?thesis using Cons.IH[of "with_similars src (map (entry k src) (take 21 (matches src tts)))"] Cons.prems False
      by (simp add: d match_loop_matches with_similars_append)
  qed
qed (simp add: similars_in_def)

subsection \<open>The stages\<close>

definition processed :: "string set \<Rightarrow> int set \<Rightarrow> ttree \<Rightarrow> bool" where
  "processed S levels tt \<longleftrightarrow> Lvl tt \<in> levels \<and> \<not> skipped S tt"

definition searched :: "documents \<Rightarrow> ttree \<Rightarrow> ttree" where
  "searched mp tt = with_similars tt (similars_in tt mp)"

lemma similar_list_spec:
  "\<forall>tt\<in>set tts. compacted tt \<Longrightarrow> similar_list mp S levels tts =
     Some (map (\<lambda>tt. if processed S levels tt then searched mp tt else tt) tts,
           filter (\<lambda>tt. Similars tt \<noteq> []) (map (searched mp) (filter (processed S levels) tts)))"
  by (induction tts) (auto simp: processed_def searched_def similar_trees_found)

lemma similarTextifiedTrees_spec:
  "\<forall>(k, tts)\<in>set mp. \<forall>tt\<in>set tts. compacted tt \<Longrightarrow> similarTextifiedTrees all S keys levels mp =
     Some (map (\<lambda>(k, tts). (k, if k \<in> keys then map (\<lambda>tt. if processed S levels tt then searched all tt else tt) tts else tts)) mp,
           concat (map (\<lambda>(k, tts). if k \<in> keys
             then filter (\<lambda>tt. Similars tt \<noteq> []) (map (searched all) (filter (processed S levels) tts)) else []) mp))"
  by (induction mp) (auto simp: similar_list_spec)

text \<open>The documents after some stages: only the entries for similar trees differ.\<close>

definition noted :: "(string \<Rightarrow> ttree \<Rightarrow> similar list) \<Rightarrow> documents \<Rightarrow> documents" where
  "noted g mp = map (\<lambda>(k, tts). (k, map (\<lambda>tt. with_similars tt (g k tt)) tts)) mp"

lemma compare_noted [simp]: "compare_trees src (with_similars tt es) = compare_trees src tt"
  by (simp add: compare_trees_def HistoBasedDistance_def Let_def)

lemma entry_noted [simp]: "entry k src (with_similars tt es) = entry k src tt"
  by (simp add: entry_def)

lemma matches_noted: "matches src (map (\<lambda>tt. with_similars tt (g tt)) tts) = map (\<lambda>tt. with_similars tt (g tt)) (matches src tts)"
  by (simp add: matches_def takeWhile_map filter_map o_def accepted_pair_def)

lemma similars_in_noted: "similars_in src (noted g mp) = similars_in src mp"
  by (induction mp) (auto simp: similars_in_def noted_def matches_noted take_map)

lemma searched_noted: "searched (noted g mp) (with_similars tt es) = with_similars tt (es @ similars_in tt mp)"
  by (simp add: searched_def similars_in_noted with_similars_append)

lemma processed_noted [simp]: "processed S levels (with_similars tt es) = processed S levels tt"
  by (simp add: processed_def skipped_def)

lemma skipped_mono: "S \<subseteq> S' \<Longrightarrow> skipped S tt \<Longrightarrow> skipped S' tt"
  unfolding skipped_def Let_def by blast

definition doc_trees :: "string \<Rightarrow> documents \<Rightarrow> ttree set" where
  "doc_trees k mp = \<Union> (set ` snd ` {d \<in> set mp. fst d = k})"

definition step_notes :: "string \<Rightarrow> string set \<Rightarrow> int set \<Rightarrow> documents \<Rightarrow> (string \<Rightarrow> ttree \<Rightarrow> similar list) \<Rightarrow> string \<Rightarrow> ttree \<Rightarrow> similar list" where
  "step_notes fnKey S levels mp g k tt = g k tt @ (if k = fnKey \<and> processed S levels tt then similars_in tt mp else [])"

lemma frags_set:
  "set (concat (map (\<lambda>(k, tts). if k \<in> {fnKey} then filter P (map f (filter Q tts)) else []) (noted g mp))) =
    {u. P u \<and> (\<exists>tt\<in>doc_trees fnKey mp. Q (with_similars tt (g fnKey tt)) \<and> u = f (with_similars tt (g fnKey tt)))}"
proof (induction mp)
  case (Cons d mp)
  have "doc_trees fnKey (d # mp) = (if fst d = fnKey then set (snd d) else {}) \<union> doc_trees fnKey mp" by (auto simp: doc_trees_def)
  moreover have "set (concat (map (\<lambda>(k, tts). if k \<in> {fnKey} then filter P (map f (filter Q tts)) else []) (noted g (d # mp)))) =
      (if fst d = fnKey then set (filter P (map f (filter Q (map (\<lambda>tt. with_similars tt (g fnKey tt)) (snd d))))) else {}) \<union>
      set (concat (map (\<lambda>(k, tts). if k \<in> {fnKey} then filter P (map f (filter Q tts)) else []) (noted g mp)))"
    by (cases d) (simp add: noted_def)
  ultimately show ?case unfolding Cons.IH by (auto split: if_splits)
qed (simp add: noted_def doc_trees_def)

lemma image_filter_cong:
  "(\<And>x. x \<in> A \<Longrightarrow> Q x \<Longrightarrow> f x = g x) \<Longrightarrow> {u. P u \<and> (\<exists>x\<in>A. Q x \<and> u = f x)} = {u \<in> g ` {x \<in> A. Q x}. P u}"
  by auto

lemma stage_step:
  assumes "\<forall>(k, tts)\<in>set mp. \<forall>tt\<in>set tts. compacted tt" "\<forall>tt\<in>doc_trees fnKey mp. Lvl tt = s \<longrightarrow> g fnKey tt = []"
  shows "\<exists>frags. similarTextifiedTrees (noted g mp) S {fnKey} {s} (noted g mp) =
      Some (noted (step_notes fnKey S {s} mp g) mp, frags) \<and>
    set frags = {tt \<in> searched mp ` {tt \<in> doc_trees fnKey mp. processed S {s} tt}. Similars tt \<noteq> []}"
proof -
  have c: "\<forall>(k, tts)\<in>set (noted g mp). \<forall>tt\<in>set tts. compacted tt" using assms(1) by (fastforce simp: noted_def)
  have r: "map (\<lambda>(k, tts). (k, if k \<in> {fnKey} then map (\<lambda>tt. if processed S {s} tt then searched (noted g mp) tt else tt) tts else tts))
      (noted g mp) = noted (step_notes fnKey S {s} mp g) mp"
    unfolding noted_def[of g mp] noted_def[of "step_notes fnKey S {s} mp g"] map_map
    by (intro map_cong refl) (auto simp: searched_noted[unfolded noted_def] step_notes_def)
  have "searched (noted g mp) (with_similars tt (g fnKey tt)) = searched mp tt"
    if "tt \<in> doc_trees fnKey mp" "processed S {s} tt" for tt
    using assms(2) that unfolding searched_noted searched_def[of mp tt] by (simp add: processed_def)
  then have fs: "{u. Similars u \<noteq> [] \<and> (\<exists>tt\<in>doc_trees fnKey mp. processed S {s} (with_similars tt (g fnKey tt)) \<and>
      u = searched (noted g mp) (with_similars tt (g fnKey tt)))} =
    {tt \<in> searched mp ` {tt \<in> doc_trees fnKey mp. processed S {s} tt}. Similars tt \<noteq> []}"
    unfolding processed_noted by (rule image_filter_cong)
  show ?thesis unfolding similarTextifiedTrees_spec[OF c] r fs[symmetric] by (rule exI, rule conjI, rule refl, rule frags_set)
qed

text \<open>An element is a duplicate when its own search finds enough.\<close>

definition dup :: "documents \<Rightarrow> ttree \<Rightarrow> bool" where
  "dup mp tt \<longleftrightarrow> duplicated (searched mp tt)"

lemma searched_Outline: "Outline (searched mp tt) = Outline tt"
  by (simp add: searched_def)

lemma dup_similars: "dup mp tt \<Longrightarrow> Similars (searched mp tt) \<noteq> []"
  by (auto simp: dup_def duplicated_def numTotal_def)

lemma weed_stages_spec:
  assumes "\<forall>(k, tts)\<in>set mp. \<forall>tt\<in>set tts. compacted tt"
  shows "distinct stages \<Longrightarrow> \<forall>tt\<in>doc_trees fnKey mp. Lvl tt \<in> int ` set stages \<longrightarrow> g fnKey tt = [] \<Longrightarrow>
    \<exists>S'. weed_stages fnKey stages (noted g mp) S = Some S' \<and> S \<subseteq> S' \<and>
      (\<forall>tt\<in>doc_trees fnKey mp. Lvl tt \<in> int ` set stages \<longrightarrow> dup mp tt \<longrightarrow> Outline tt @ ''.'' \<in> S' \<or> skipped S' tt) \<and>
      (\<forall>p\<in>S' - S. \<exists>tt\<in>doc_trees fnKey mp. p = Outline tt @ ''.'' \<and> Lvl tt \<in> int ` set stages \<and> dup mp tt)"
proof (induction stages arbitrary: g S)
  case (Cons s stages)
  let ?g = "step_notes fnKey S {int s} mp g"
  have "\<forall>tt\<in>doc_trees fnKey mp. Lvl tt = int s \<longrightarrow> g fnKey tt = []" using Cons.prems(2) by simp
  from stage_step[OF assms, of fnKey "int s" g S, OF this] obtain frags where
    st: "similarTextifiedTrees (noted g mp) S {fnKey} {int s} (noted g mp) = Some (noted ?g mp, frags)" and
    fr: "set frags = {tt \<in> searched mp ` {tt \<in> doc_trees fnKey mp. processed S {int s} tt}. Similars tt \<noteq> []}" by blast
  let ?S = "S \<union> (\<lambda>frag. Outline frag @ ''.'') ` set (filter duplicated frags)"
  have new: "(\<lambda>frag. Outline frag @ ''.'') ` set (filter duplicated frags) =
      (\<lambda>tt. Outline tt @ ''.'') ` {tt \<in> doc_trees fnKey mp. processed S {int s} tt \<and> dup mp tt}"
  proof -
    have "set (filter duplicated frags) = searched mp ` {tt \<in> doc_trees fnKey mp. processed S {int s} tt \<and> dup mp tt}"
      using dup_similars[of mp] by (auto simp: fr dup_def)
    then show ?thesis by (simp only: image_image searched_Outline)
  qed
  have "\<forall>tt\<in>doc_trees fnKey mp. Lvl tt \<in> int ` set stages \<longrightarrow> ?g fnKey tt = []"
    using Cons.prems by (auto simp: step_notes_def processed_def)
  from Cons.IH[of ?g ?S, OF _ this] Cons.prems(1) obtain S' where
    S': "weed_stages fnKey stages (noted ?g mp) ?S = Some S'" "?S \<subseteq> S'"
    "\<forall>tt\<in>doc_trees fnKey mp. Lvl tt \<in> int ` set stages \<longrightarrow> dup mp tt \<longrightarrow> Outline tt @ ''.'' \<in> S' \<or> skipped S' tt"
    "\<forall>p\<in>S' - ?S. \<exists>tt\<in>doc_trees fnKey mp. p = Outline tt @ ''.'' \<and> Lvl tt \<in> int ` set stages \<and> dup mp tt" by auto
  have "Outline tt @ ''.'' \<in> S' \<or> skipped S' tt" if "tt \<in> doc_trees fnKey mp" "Lvl tt = int s" "dup mp tt" for tt
  proof (cases "skipped S tt")
    case False
    then have "Outline tt @ ''.'' \<in> ?S" unfolding new using that by (auto simp: processed_def)
    then show ?thesis using S'(2) by blast
  next
    case True
    then show ?thesis using skipped_mono[of S S' tt] S'(2) by blast
  qed
  moreover have "\<exists>tt\<in>doc_trees fnKey mp. p = Outline tt @ ''.'' \<and> Lvl tt \<in> int ` set (s # stages) \<and> dup mp tt" if "p \<in> S' - S" for p
  proof (cases "p \<in> ?S")
    case True
    then show ?thesis using that unfolding new by (auto simp: processed_def)
  next
    case False
    then have "p \<in> S' - ?S" using that by blast
    from bspec[OF S'(4) this] obtain tt where tt: "tt \<in> doc_trees fnKey mp" "p = Outline tt @ ''.''"
      "Lvl tt \<in> int ` set stages" "dup mp tt" by (elim bexE conjE) (rule that)
    then have "Lvl tt \<in> int ` set (s # stages)" by (metis image_insert insertCI list.simps(15))
    with tt show ?thesis by (intro bexI[OF _ tt(1)] conjI)
  qed
  moreover have "weed_stages fnKey (s # stages) (noted g mp) S = Some S'" using st S'(1) by simp
  ultimately show ?case using S'(2,3) by (intro exI[of _ S'] conjI) auto
qed simp

subsection \<open>Properties\<close>

definition long_text :: "string \<Rightarrow> bool" where
  "long_text text \<longleftrightarrow> 3 < length (Fields (map compact_char (remove_all ''[img] '' 0 text)))"

text \<open>C32: Trees of texts of more than three words: the histogram distance is at most the relative Levenshtein distance, so the cheap
  criterion at 0.51 and the shortcut for equal texts change nothing; a pair of comparable sizes is accepted exactly when its
  Levenshtein distance is below 10 and below 26 percent.\<close>

theorem pruning_exact:
  assumes "sortCompact ta = (Text src, Histo src, NumTokens src)" "long_text ta"
    "sortCompact tb = (Text tt, Histo tt, NumTokens tt)" "long_text tb"
  shows "\<exists>d r. Distance (New_l Equal_wordb (WrapAsEqualer_wordb (Text src) True) (WrapAsEqualer_wordb (Text tt) True) opt_dedup) = Some (d, r) \<and>
    HistoBasedDistance src tt \<le> r \<and> (accepted_pair src tt \<longleftrightarrow> comparable src tt \<and> accepted d r)"
proof -
  have g: "good src" "good tt"
    using sortCompact_good[OF assms(1) refl refl refl] sortCompact_good[OF assms(3) refl refl refl] assms(2,4)
    unfolding long_text_def by blast+
  show ?thesis using Distance_lev histo_below_rel[OF g] compare_trees_good[OF g] by blast
qed

definition tree_of :: "string \<Rightarrow> int \<Rightarrow> string \<Rightarrow> string \<Rightarrow> ttree" where
  "tree_of source level outline text = (case sortCompact text of (buf, histo, n) \<Rightarrow>
     \<lparr>SourceID = source, Lvl = level, Outline = outline, NumTokens = n, Histo = histo, Text = buf,
      Similars = [], SumAbsLevenshtein = 0, SumRelLevenshtein = 0\<rparr>)"

lemma tree_of_sortCompact: "sortCompact text = (Text (tree_of k l ol text), Histo (tree_of k l ol text), NumTokens (tree_of k l ol text))"
  by (simp add: tree_of_def split: prod.split)

lemma pruning_exact_witness:
  "\<exists>d r. Distance (New_l Equal_wordb (WrapAsEqualer_wordb (Text (tree_of ''a'' 1 ''2.1'' ''Some 12 words that differ'')) True)
      (WrapAsEqualer_wordb (Text (tree_of ''b'' 1 ''2.3'' ''some words, these differ'')) True) opt_dedup) = Some (d, r) \<and>
    HistoBasedDistance (tree_of ''a'' 1 ''2.1'' ''Some 12 words that differ'') (tree_of ''b'' 1 ''2.3'' ''some words, these differ'') \<le> r \<and>
    (accepted_pair (tree_of ''a'' 1 ''2.1'' ''Some 12 words that differ'') (tree_of ''b'' 1 ''2.3'' ''some words, these differ'') \<longleftrightarrow>
      comparable (tree_of ''a'' 1 ''2.1'' ''Some 12 words that differ'') (tree_of ''b'' 1 ''2.3'' ''some words, these differ'') \<and> accepted d r)"
proof -
  have l: "long_text ''Some 12 words that differ''" "long_text ''some words, these differ''" by code_simp+
  show ?thesis by (rule pruning_exact[OF tree_of_sortCompact l(1) tree_of_sortCompact l(2)])
qed

text \<open>C33: The search for a tree made by sortCompact never panics, not even on elements without text; it notes, for every other document,
  the first 21 elements of the same level that are accepted, with their distances, and sums the distances up.\<close>

theorem similar_trees_complete:
  assumes "sortCompact text = (Text src, Histo src, NumTokens src)" "\<forall>(k, tts)\<in>set mp. sorted (map Lvl tts)"
  shows "similarTextifiedTrees2 src mp = Some (with_similars src (concat (map (\<lambda>(k, tts).
    if k = SourceID src then []
    else map (entry k src) (take 21 (filter (\<lambda>tt. Lvl tt = Lvl src \<and> accepted_pair src tt) tts))) mp)))"
proof -
  have "similars_in src mp = concat (map (\<lambda>(k, tts).
      if k = SourceID src then []
      else map (entry k src) (take 21 (filter (\<lambda>tt. Lvl tt = Lvl src \<and> accepted_pair src tt) tts))) mp)"
    unfolding similars_in_def using assms(2) by (intro arg_cong[of _ _ concat] map_cong refl) (auto simp: matches_sorted)
  then show ?thesis using similar_trees_found[OF sortCompact_compacted[OF assms(1) refl refl refl], of mp] by (simp only:)
qed

definition sample_docs :: documents where
  "sample_docs = [(''a'', [tree_of ''a'' 1 ''2.1'' ''some of those words'', tree_of ''a'' 2 ''2.1.1'' ''those'']),
     (''b'', [tree_of ''b'' 1 ''2.1'' ''and other words there'', tree_of ''b'' 1 ''2.2'' ''Some words of those'', tree_of ''b'' 1 ''2.7'' ''words those some'']),
     (''c'', [])]"

lemma similar_trees_complete_witness:
  "similarTextifiedTrees2 (tree_of ''a'' 1 ''2.1'' ''some of those words'') sample_docs =
   Some (with_similars (tree_of ''a'' 1 ''2.1'' ''some of those words'') (concat (map (\<lambda>(k, tts).
    if k = SourceID (tree_of ''a'' 1 ''2.1'' ''some of those words'') then []
    else map (entry k (tree_of ''a'' 1 ''2.1'' ''some of those words'')) (take 21 (filter
      (\<lambda>tt. Lvl tt = Lvl (tree_of ''a'' 1 ''2.1'' ''some of those words'') \<and> accepted_pair (tree_of ''a'' 1 ''2.1'' ''some of those words'') tt) tts)))
    sample_docs)))"
proof -
  have "\<forall>(k, tts)\<in>set sample_docs. sorted (map Lvl tts)" by (simp add: sample_docs_def tree_of_def split: prod.split)
  then show ?thesis by (rule similar_trees_complete[OF tree_of_sortCompact])
qed

text \<open>C34: Weeding one document of trees made by sortCompact never panics. Of its elements of the levels 1 to 4, every duplicate is
  weeded, itself or inside a weeded one; and only the outlines of duplicates are weeded.\<close>

theorem weeding_stages:
  assumes "\<forall>(k, tts)\<in>set mp. \<forall>tt\<in>set tts. \<exists>text. sortCompact text = (Text tt, Histo tt, NumTokens tt)"
  shows "\<exists>S. weed_all fnKey mp = Some S \<and>
    (\<forall>tt\<in>doc_trees fnKey mp. 1 \<le> Lvl tt \<and> Lvl tt \<le> 4 \<longrightarrow> dup mp tt \<longrightarrow> Outline tt @ ''.'' \<in> S \<or> skipped S tt) \<and>
    (\<forall>p\<in>S. \<exists>tt\<in>doc_trees fnKey mp. p = Outline tt @ ''.'' \<and> 1 \<le> Lvl tt \<and> Lvl tt \<le> 4 \<and> dup mp tt)"
proof -
  have c: "\<forall>(k, tts)\<in>set mp. \<forall>tt\<in>set tts. compacted tt"
    using assms sortCompact_compacted[OF _ refl refl refl] by fast
  have n: "noted (\<lambda>k tt. []) mp = mp" by (simp add: noted_def)
  have st: "Lvl tt \<in> int ` set [1..<stageMax + 1] \<longleftrightarrow> 1 \<le> Lvl tt \<and> Lvl tt \<le> 4" for tt
    unfolding set_upt image_int_atLeastLessThan by (auto simp: stageMax_def)
  have "\<forall>tt\<in>doc_trees fnKey mp. Lvl tt \<in> int ` set [1..<stageMax + 1] \<longrightarrow> [] = ([] :: similar list)" by simp
  from weed_stages_spec[OF c distinct_upt this, of "{}"] show ?thesis unfolding n st weed_all_def[symmetric] by simp
qed

lemma weeding_stages_witness:
  "\<exists>S. weed_all ''a'' sample_docs = Some S \<and>
    (\<forall>tt\<in>doc_trees ''a'' sample_docs. 1 \<le> Lvl tt \<and> Lvl tt \<le> 4 \<longrightarrow> dup sample_docs tt \<longrightarrow> Outline tt @ ''.'' \<in> S \<or> skipped S tt) \<and>
    (\<forall>p\<in>S. \<exists>tt\<in>doc_trees ''a'' sample_docs. p = Outline tt @ ''.'' \<and> 1 \<le> Lvl tt \<and> Lvl tt \<le> 4 \<and> dup sample_docs tt)"
proof -
  have "\<forall>(k, tts)\<in>set sample_docs. \<forall>tt\<in>set tts. \<exists>text. sortCompact text = (Text tt, Histo tt, NumTokens tt)"
    unfolding sample_docs_def using tree_of_sortCompact by auto
  then show ?thesis by (rule weeding_stages)
qed

text \<open>Two similar elements of one document are enough to weed, the third document need not have any.\<close>

lemma weeded_by_one_document:
  "let tt = tree_of ''a'' 1 ''2.1'' ''some of those words''
   in map sim_SourceID (similars_in tt sample_docs) = [''b'', ''b''] \<and> dup sample_docs tt"
  by code_simp

text \<open>A text of at most three words keeps its one-letter words as tokens, but not in the compacted text: the histogram distance may
  then exceed the Levenshtein distance, and even equal compacted texts are skipped.\<close>

lemma tiny_texts_skipped:
  "let s = tree_of ''a'' 1 ''2.1'' ''a b word''; t = tree_of ''b'' 1 ''2.1'' ''x y word''
   in Text s = Text t \<and> HistoBasedDistance s t = 2 / 3 \<and> rel (words_of s) (words_of t) = 0 \<and> compare_trees s t = Some None"
  by code_simp

text \<open>Less is not the strict order that \<^verbatim>\<open>sort.Interface\<close> asks for: equal outlines are less than each other. Outlines that
  are not numbers panic.\<close>

lemma Less_outline_refl: "outline_numbers a = Some xs \<Longrightarrow> Less_outline a a = Some True"
  by (simp add: Less_outline_numbers)

lemma Less_outline_panics: "Less_outline '''' ''1'' = None"
  by code_simp

end
