(* ===== verification/Dom.thy ===== *)
theory Dom
  imports Dedup Queue "HOL-Library.Sublist"
begin

section \<open>Cleaning a document (net/http/domclean2)\<close>

text \<open>
  \<^verbatim>\<open>DomClean\<close> simplifies the tree of an HTML page step by step: it drops unwanted elements and attributes, comments and
  blank texts, removes empty elements, lifts the children of superfluous \<^verbatim>\<open>div\<close>s and flattens deep subtrees.

  \<^item> The tree is the one of golang.org/x/net/html, seen through its documented public fields: a node has a type, its data (the name
    of an element, the text of a text node), attributes and children. The pointers to parent and siblings, which
    \<^verbatim>\<open>RemoveChild\<close>, \<^verbatim>\<open>InsertBefore\<close> and \<^verbatim>\<open>AppendChild\<close> keep in order, are
    the position in the tree; the name space of an attribute is not read by the code.
  \<^item> A function that changes a node in place returns the changed node; one that may detach its node returns \<open>None\<close> then.
    The loop of \<^verbatim>\<open>removeCommentsAndIntertagWhitespace\<close>, which detaches nodes of a tree it is still walking, keeps the
    tree and a list of the detached nodes, each named by its path.
\<close>

datatype node_type = ErrorNode | TextNode | DocumentNode | ElementNode | CommentNode | DoctypeNode

record attribute =
  Key :: string
  Val :: string

datatype node = Node (nd_type: node_type) (nd_data: string) (nd_attr: "attribute list") (nd_children: "node list")

subsection \<open>dom/mini_go_query.go and funcs_attr.go\<close>

definition Nd_text :: "string \<Rightarrow> node" where
  "Nd_text content = Node TextNode content [] []"

definition Nd_element :: "string \<Rightarrow> node" where
  "Nd_element ntype = Node ElementNode ntype [] []"

fun CloneNodeWithSubtree :: "node \<Rightarrow> node" where
  "CloneNodeWithSubtree (Node t d a cs) = Node t d a (map CloneNodeWithSubtree cs)"

definition CloneNode :: "node \<Rightarrow> node" where
  "CloneNode n = Node (nd_type n) (nd_data n) (nd_attr n) []"

fun attrX :: "attribute list \<Rightarrow> string \<Rightarrow> string" where
  "attrX [] key = []"
| "attrX (a # as') key = (if key = Key a then Val a else attrX as' key)"

fun attrSet :: "attribute list \<Rightarrow> string \<Rightarrow> string \<Rightarrow> attribute list" where
  "attrSet [] key val = [\<lparr>Key = key, Val = val\<rparr>]"
| "attrSet (a # as') key val = (if Key a = key then a\<lparr>Val := val\<rparr> # as' else a # attrSet as' key val)"

definition trim_attr :: "attribute \<Rightarrow> attribute" where
  "trim_attr a = \<lparr>Key = TrimSpace (Key a), Val = NormalizeInnerWhitespace (TrimSpace (Val a))\<rparr>"

fun removeAttr_loop :: "string list \<Rightarrow> attribute list \<Rightarrow> string \<Rightarrow> string \<Rightarrow> attribute list \<times> string \<times> string" where
  "removeAttr_loop removeKeys [] alt title = ([], alt, title)"
| "removeAttr_loop removeKeys (a0 # as') alt title =
     (let a = trim_attr a0 in
      if Key a \<in> set removeKeys \<or> HasPrefix (Key a) ''data'' then removeAttr_loop removeKeys as' alt title
      else let alt' = (if Key a = ''alt'' then Val a else alt);
               title' = (if Key a = ''title'' then Val a else title);
               (ret, alt'', title'') = removeAttr_loop removeKeys as' alt' title'
           in (a # ret, alt'', title''))"

definition removeAttr :: "attribute list \<Rightarrow> string list \<Rightarrow> attribute list" where
  "removeAttr attributes removeKeys =
     (let (ret, alt, title) = removeAttr_loop removeKeys attributes [] [];
          ret1 = (if alt \<noteq> [] \<and> alt = title then filter (\<lambda>a. Key a \<noteq> ''alt'') ret else ret)
      in if alt = [] \<and> alt = title then filter (\<lambda>a. Key a \<noteq> ''alt'' \<and> Key a \<noteq> ''title'') ret1 else ret1)"

subsection \<open>01\_cleanse.go\<close>

definition unwanteds :: "string list" where
  "unwanteds = [''meta'', ''link'', ''style'', ''iframe'', ''script'', ''noscript'', ''canvas'', ''object'', ''wbr'', ''comment'']"

definition exotics :: "(string \<times> string) list" where
  "exotics = [(''header'', ''div''), (''footer'', ''div''), (''nav'', ''div''), (''section'', ''div''), (''article'', ''div''),
     (''aside'', ''div''), (''fieldset'', ''div''), (''dl'', ''ul''), (''dt'', ''li''), (''dd'', ''p''), (''figure'', ''div''),
     (''figcaption'', ''p''), (''i'', ''em''), (''b'', ''strong'')]"

definition unwantedAttrs :: "string list" where
  "unwantedAttrs = [''border'', ''style'', ''class'', ''align'', ''placeholder'', ''target'', ''id'', ''rel'', ''tabindex'',
     ''headline'', ''onload'', ''onclick'', ''onmousedown'', ''onerror'', ''onsubmit'', ''readonly'', ''accept-charset'', ''itemprop'',
     ''itemtype'', ''itemscope'', ''datetime'', ''current-time'', ''fb-iframe-plugin-query'', ''fb-xfbml-state'', ''frameborder'',
     ''async'', ''charset'', ''http-equiv'', ''allowtransparency'', ''allowfullscreen'', ''scrolling'', ''ftghandled'', ''ftgrandomid'',
     ''marginwidth'', ''marginheight'', ''vspace'', ''hspace'', ''seamless'', ''aria-hidden'', ''gapi_processed'', ''property'', ''media'',
     ''content'', ''language'', ''role'', ''sizes'']"

fun maxTreeDepth :: "node \<Rightarrow> int \<Rightarrow> int" where
  "maxTreeDepth (Node t d a cs) lvl = foldl (\<lambda>maxLvl ret. if ret > maxLvl then ret else maxLvl) lvl (map (\<lambda>c. maxTreeDepth c (lvl + 1)) cs)"

definition removeUnwanted :: "node \<Rightarrow> node" where
  "removeUnwanted n = Node (nd_type n) (nd_data n) (nd_attr n) (filter (\<lambda>c. nd_data c \<notin> set unwanteds) (nd_children n))"

definition convertExotic :: "node \<Rightarrow> node" where
  "convertExotic n = (case map_of exotics (nd_data n) of
     Some repl \<Rightarrow> Node (nd_type n) repl (nd_attr n @ [\<lparr>Key = ''cfrm'', Val = nd_data n\<rparr>]) (nd_children n)
   | None \<Rightarrow> n)"

definition normalizeText :: "node \<Rightarrow> node" where
  "normalizeText n = (if nd_type n = TextNode then Node (nd_type n) (NormalizeInnerWhitespace (nd_data n)) (nd_attr n) (nd_children n) else n)"

fun cleanseDom :: "node \<Rightarrow> node" where
  "cleanseDom (Node t d a cs) =
     normalizeText (convertExotic (removeUnwanted (Node t d (removeAttr a unwantedAttrs) (map cleanseDom cs))))"

subsection \<open>02\_remove\_comments\_and\_whitespace.go\<close>

definition isSpacey :: "string \<Rightarrow> bool" where
  "isSpacey sarg \<longleftrightarrow> TrimSpace sarg = []"

type_synonym path = "nat list"

text \<open>An entry of the queue is a node with its path; the level of \<^verbatim>\<open>NdX\<close> is the length of the path.\<close>

fun EnQueueAll :: "'a queue \<Rightarrow> 'a list \<Rightarrow> 'a queue option" where
  "EnQueueAll q [] = Some q"
| "EnQueueAll q (x # xs) = do { q' \<leftarrow> EnQueue q (Some x); EnQueueAll q' xs }"

definition child_paths :: "path \<Rightarrow> node \<Rightarrow> (path \<times> node) list" where
  "child_paths p n = map (\<lambda>(i, c). (p @ [i], c)) (enumerate 0 (nd_children n))"

definition doomed :: "node \<Rightarrow> bool" where
  "doomed n \<longleftrightarrow> nd_type n = CommentNode \<or> nd_type n = TextNode \<and> isSpacey (nd_data n)"

definition RemoveNode :: "path \<Rightarrow> path list \<Rightarrow> path list" where
  "RemoveNode p removed = (if p = [] then removed else p # removed)"

partial_function (option) strip_loop :: "(path \<times> node) option \<Rightarrow> (path \<times> node) queue \<Rightarrow> path list \<Rightarrow> path list option" where
  "strip_loop lp q removed =
     (case lp of
        None \<Rightarrow> Some removed
      | Some pn \<Rightarrow> do {
          q1 \<leftarrow> EnQueueAll q (child_paths (fst pn) (snd pn));
          (lp', q2) \<leftarrow> DeQueue q1;
          strip_loop lp' q2 (if doomed (snd pn) then RemoveNode (fst pn) removed else removed)
        })"

fun prune :: "path list \<Rightarrow> path \<Rightarrow> node \<Rightarrow> node"
  and prune_list :: "path list \<Rightarrow> path \<Rightarrow> nat \<Rightarrow> node list \<Rightarrow> node list" where
  "prune removed p (Node t d a cs) = Node t d a (prune_list removed p 0 cs)"
| "prune_list removed p i [] = []"
| "prune_list removed p i (c # cs) =
     (if p @ [i] \<in> set removed then [] else [prune removed (p @ [i]) c]) @ prune_list removed p (Suc i) cs"

definition removeCommentsAndIntertagWhitespace :: "node \<Rightarrow> node option" where
  "removeCommentsAndIntertagWhitespace n = do {
     removed \<leftarrow> strip_loop (Some ([], n)) (NewQueue 10) [];
     Some (prune removed [] n)
   }"

subsection \<open>03\_condense\_top\_down.go and 03\_top\_down\_v3.go\<close>

definition with_data :: "node \<Rightarrow> node_type \<Rightarrow> string \<Rightarrow> node list \<Rightarrow> node" where
  "with_data n t d cs = Node t d (nd_attr n) cs"

definition empty_leaf :: "node \<Rightarrow> bool" where
  "empty_leaf n \<longleftrightarrow> nd_type n = ElementNode \<and>
     (nd_data n = ''img'' \<and> attrX (nd_attr n) ''src'' = [] \<or>
      nd_children n = [] \<and> nd_data n = ''a'' \<and> (attrX (nd_attr n) ''href'' = ''#'' \<or> attrX (nd_attr n) ''href'' = []) \<or>
      nd_children n = [] \<and> (nd_data n = ''em'' \<or> nd_data n = ''strong'') \<or>
      nd_children n = [] \<and> (nd_data n = ''div'' \<or> nd_data n = ''span'' \<or> nd_data n = ''li'' \<or> nd_data n = ''p''))"

definition flatten_span :: "node \<Rightarrow> node" where
  "flatten_span n = (case nd_children n of
     [c] \<Rightarrow> if nd_type n = ElementNode \<and> nd_data n = ''span'' \<and> nd_type c = TextNode \<and> length (TrimSpace (nd_data c)) < 3
            then with_data n TextNode (nd_data c) [] else n
   | _ \<Rightarrow> n)"

text \<open>\<open>None\<close>: the node has removed itself from its parent; without a parent that is a panic.\<close>

fun removeEmptyNodes :: "node \<Rightarrow> node option" where
  "removeEmptyNodes (Node t d a cs) =
     (let n = Node t d a (concat (map (\<lambda>c. case removeEmptyNodes c of Some c' \<Rightarrow> [c'] | None \<Rightarrow> []) cs))
      in if empty_leaf n then None else Some (flatten_span n))"

definition wrap_lifted :: "node \<Rightarrow> node" where
  "wrap_lifted l3 = (if nd_data l3 \<noteq> ''a'' \<and> nd_data l3 \<noteq> ''span'' then l3
     else Node ElementNode ''p'' [\<lparr>Key = ''cfrm'', Val = ''noth''\<rparr>] [l3])"

definition liftable :: "string list \<Rightarrow> string list \<Rightarrow> node \<Rightarrow> bool" where
  "liftable l2Types l3Types l2 \<longleftrightarrow> nd_type l2 = ElementNode \<and> nd_data l2 \<in> set l2Types \<and>
     list_all (\<lambda>l3. nd_type l3 = ElementNode \<and> nd_data l3 \<in> set l3Types) (nd_children l2)"

definition topDownV3 :: "node \<Rightarrow> string list \<Rightarrow> string list \<Rightarrow> node" where
  "topDownV3 l1 l2Types l3Types =
     (if nd_type l1 \<noteq> ElementNode \<and> nd_type l1 \<noteq> DocumentNode then l1
      else if nd_data l1 = ''span'' \<or> nd_data l1 = ''a'' then l1
      else Node (nd_type l1) (nd_data l1) (nd_attr l1)
        (concat (map (\<lambda>l2. if liftable l2Types l3Types l2 then map wrap_lifted (nd_children l2) else [l2]) (nd_children l1))))"

fun condenseTopDown :: "node \<Rightarrow> node" where
  "condenseTopDown (Node t d a cs) =
     topDownV3 (topDownV3 (Node t d a (map condenseTopDown cs)) [''div''] [''div'', ''ul'', ''form'', ''li'', ''p'', ''a'', ''span''])
       [''li''] [''div'']"

subsection \<open>07\_condense\_bottom\_up\_v3.go\<close>

definition standard :: "string list" where
  "standard = [''title'', ''p'', ''div'', ''ul'', ''ol'', ''li'', ''h1'', ''h2'', ''em'', ''strong'', ''label'', ''input'', ''textarea'',
     ''form'', ''blockquote'']"

text \<open>The children that \<^verbatim>\<open>flattenSubtreeV3Inner\<close> appends to the clone of a node with the children \<open>cs\<close>.\<close>

fun flattenSubtreeV3 :: "node \<Rightarrow> node list" and flatten_children :: "node list \<Rightarrow> node list" and flatten_span_children :: "node list \<Rightarrow> node list" where
  "flattenSubtreeV3 (Node t d a cs) =
     (if t = ElementNode \<and> d \<in> set standard then [Node t d a (flatten_children cs)]
      else if t = ElementNode \<and> d = ''a'' then [Node t d a (flatten_children cs)]
      else if t = ElementNode \<and> d = ''img'' then [Node t d a []]
      else if d = ''span'' then flatten_span_children cs
      else if t = TextNode \<and> d \<noteq> [] then [Node t (TrimSpace d @ '' '') a []]
      else [])"
| "flatten_children [] = []"
| "flatten_children (ch # chs) = flattenSubtreeV3 ch @ flatten_children chs"
| "flatten_span_children [] = []"
| "flatten_span_children (Node t d a cs # cchs) =
     [Node t d a (flatten_children cs), Nd_text '' ''] @ flatten_span_children cchs"

fun condenseBottomUpV3 :: "nat \<Rightarrow> node \<Rightarrow> node" where
  "condenseBottomUpV3 (Suc lvls) (Node t d a cs) = Node t d a (map (condenseBottomUpV3 lvls) cs)"
| "condenseBottomUpV3 0 n = (if nd_type n = ElementNode then Node (nd_type n) (nd_data n) (nd_attr n) (flatten_children (nd_children n)) else n)"

subsection \<open>What a document says\<close>

text \<open>The texts of a tree in document order.\<close>

fun texts :: "node \<Rightarrow> string list" where
  "texts (Node t d a cs) = (if t = TextNode then [d] else []) @ concat (map texts cs)"

fun nodes :: "node \<Rightarrow> node list" where
  "nodes (Node t d a cs) = Node t d a cs # concat (map nodes cs)"

definition below :: "node \<Rightarrow> node set" where
  "below n = (\<Union>c\<in>set (nd_children n). set (nodes c))"

lemma nodes_below: "set (nodes n) = insert n (below n)"
  by (cases n) (auto simp: below_def)

lemma concat_map_concat: "concat (map f (concat xs)) = concat (map (\<lambda>x. concat (map f x)) xs)"
  by (induction xs) simp_all

subsection \<open>Walking level by level\<close>

text \<open>The specification: comments and blank texts are left out.\<close>

fun strip :: "node \<Rightarrow> node" where
  "strip (Node t d a cs) = Node t d a (map strip (filter (\<lambda>c. \<not> doomed c) cs))"

fun doomed_paths :: "path \<Rightarrow> node \<Rightarrow> path set" and doomed_list :: "path \<Rightarrow> nat \<Rightarrow> node list \<Rightarrow> path set" where
  "doomed_paths p (Node t d a cs) = (if doomed (Node t d a cs) \<and> p \<noteq> [] then {p} else {}) \<union> doomed_list p 0 cs"
| "doomed_list p i [] = {}"
| "doomed_list p i (c # cs) = doomed_paths (p @ [i]) c \<union> doomed_list p (Suc i) cs"

lemma doomed_list_enumerate: "doomed_list p i cs = (\<Union>(q, c)\<in>set (map (\<lambda>(i, c). (p @ [i], c)) (enumerate i cs)). doomed_paths q c)"
  by (induction cs arbitrary: i) auto

lemma EnQueueAll_ring:
  "queue_ok q \<Longrightarrow> \<exists>q'. EnQueueAll q xs = Some q' \<and> queue_ok q' \<and> queue_items q' = queue_items q @ map Some xs"
proof (induction xs arbitrary: q)
  case (Cons x xs)
  obtain q1 where q1: "Push q (Some x) = Some q1" "queue_ok q1" "queue_items q1 = queue_items q @ [Some x]"
    using ring.push_spec[OF Cons.prems] by blast
  with Cons.IH[OF q1(2)] show ?case by (auto simp: EnQueue_def)
qed simp

abbreviation weight :: "(path \<times> node) list \<Rightarrow> nat" where
  "weight todo \<equiv> sum_list (map (\<lambda>(p, n). size n) todo)"

lemma weight_children: "weight (child_paths p n) < size n"
proof -
  have "weight (map (\<lambda>(i, c). (p @ [i], c)) (enumerate k cs)) \<le> size_list size cs" for k cs
  proof (induction cs arbitrary: k)
    case (Cons c cs)
    then show ?case using le_SucI[OF Cons.IH[of "Suc k"]] by simp
  qed simp
  from this[of 0 "nd_children n"] show ?thesis by (cases n) (simp add: child_paths_def le_imp_less_Suc)
qed

lemma doomed_paths_children: "doomed_paths p n = (if doomed n \<and> p \<noteq> [] then {p} else {}) \<union> (\<Union>(q, c)\<in>set (child_paths p n). doomed_paths q c)"
  by (cases n) (simp add: child_paths_def doomed_list_enumerate)

lemma strip_loop_spec:
  "queue_ok q \<Longrightarrow> queue_items q = map Some todo \<Longrightarrow>
    \<exists>r. strip_loop (Some pn) q removed = Some r \<and> set r = set removed \<union> (\<Union>(p, n)\<in>set (pn # todo). doomed_paths p n)"
proof (induction "weight (pn # todo)" arbitrary: pn todo q removed rule: less_induct)
  case less
  obtain p n where pn: "pn = (p, n)" by fastforce
  let ?removed = "if doomed n then RemoveNode p removed else removed"
  have rm: "set ?removed \<union> (\<Union>(q, c)\<in>set (child_paths p n). doomed_paths q c) = set removed \<union> doomed_paths p n"
    using doomed_paths_children[of p n] by (auto simp: RemoveNode_def)
  obtain q1 where q1: "EnQueueAll q (child_paths p n) = Some q1" "queue_ok q1" "queue_items q1 = map Some (todo @ child_paths p n)"
    using EnQueueAll_ring[OF less.prems(1)] less.prems(2) by fastforce
  show ?case
  proof (cases "todo @ child_paths p n")
    case Nil
    then have "DeQueue q1 = Some (None, q1)" using ring.pop_nil[OF q1(2)] q1(3) by (simp add: DeQueue_def)
    then have "strip_loop (Some pn) q removed = Some ?removed" using q1(1)
      by (simp add: strip_loop.simps[of "Some (p, n)"] strip_loop.simps[of None] pn)
    then show ?thesis using rm Nil by (simp add: pn)
  next
    case (Cons pm todo')
    then have "queue_items q1 = Some pm # map Some todo'" using q1(3) by simp
    then obtain q2 where q2: "DeQueue q1 = Some (Some pm, q2)" "queue_ok q2" "queue_items q2 = map Some todo'"
      using ring.pop_spec[OF q1(2)] unfolding DeQueue_def by blast
    have "weight (pm # todo') = weight (todo @ child_paths p n)" using Cons by simp
    then have "weight (pm # todo') < weight (pn # todo)" using weight_children[of p n] by (simp add: pn)
    from less.hyps[OF this q2(2,3)] obtain r where
      r: "strip_loop (Some pm) q2 ?removed = Some r" "set r = set ?removed \<union> (\<Union>(p, n)\<in>set (pm # todo'). doomed_paths p n)" by blast
    have "strip_loop (Some pn) q removed = Some r" using q1(1) q2(1) r(1) by (simp add: strip_loop.simps[of "Some (p, n)"] pn split del: if_split cong: if_cong)
    moreover have "set (pm # todo') = set todo \<union> set (child_paths p n)" using Cons by (metis set_append)
    then have "set r = set removed \<union> (\<Union>(p, n)\<in>set (pn # todo). doomed_paths p n)" using rm unfolding r(2) pn by auto
    ultimately show ?thesis by blast
  qed
qed

lemma doomed_prefix: "q \<in> doomed_paths p n \<Longrightarrow> prefix p q"
  "q \<in> doomed_list p i cs \<Longrightarrow> \<exists>j\<ge>i. prefix (p @ [j]) q"
proof (induction p n and p i cs arbitrary: q and q rule: doomed_paths_doomed_list.induct)
  case (1 p t d a cs)
  then show ?case by (auto split: if_splits dest: append_prefixD)
next
  case (3 p i c cs)
  show ?case
  proof (cases "q \<in> doomed_paths (p @ [i]) c")
    case True
    then show ?thesis using 3(1) by (intro exI[of _ i]) simp
  next
    case False
    then obtain j where "Suc i \<le> j" "prefix (p @ [j]) q" using 3(2,3) by auto
    then show ?thesis by (intro exI[of _ j]) simp
  qed
qed simp

lemma prefix_same_place: "prefix (p @ [i]) q \<Longrightarrow> prefix (p @ [j]) q \<Longrightarrow> i = (j :: nat)"
  by (auto simp: prefix_def)

text \<open>The detached nodes below a place are the doomed ones.\<close>

lemma prune_strip:
  "{q \<in> set removed. prefix p q \<and> q \<noteq> p} = doomed_paths p n - {p} \<Longrightarrow> prune removed p n = strip n"
  "{q \<in> set removed. \<exists>j\<ge>i. prefix (p @ [j]) q} = doomed_list p i cs \<Longrightarrow>
     prune_list removed p i cs = map strip (filter (\<lambda>c. \<not> doomed c) cs)"
proof (induction p n and p i cs rule: doomed_paths_doomed_list.induct)
  case (1 p t d a cs)
  have "doomed_list p 0 cs = doomed_paths p (Node t d a cs) - {p}"
    using doomed_prefix(2)[of p p 0 cs] by (auto simp: prefix_def)
  moreover have "{q \<in> set removed. \<exists>j\<ge>0. prefix (p @ [j]) q} = {q \<in> set removed. prefix p q \<and> q \<noteq> p}"
  proof (intro Collect_cong conj_cong refl iffI)
    fix q
    assume "prefix p q \<and> q \<noteq> p"
    then obtain j r where "q = p @ j # r" by (metis append_Nil2 neq_Nil_conv prefixE)
    then show "\<exists>j\<ge>0. prefix (p @ [j]) q" by (intro exI[of _ j]) simp
  qed (auto dest: append_prefixD simp: prefix_def)
  ultimately show ?case using 1 by simp
next
  case (3 p i c cs)
  let ?R = "{q \<in> set removed. \<exists>j\<ge>i. prefix (p @ [j]) q}"
  have here: "{q \<in> set removed. prefix (p @ [i]) q} = doomed_paths (p @ [i]) c"
  proof (intro set_eqI iffI)
    fix q
    assume "q \<in> {q \<in> set removed. prefix (p @ [i]) q}"
    then have "q \<in> doomed_list p i (c # cs)" "prefix (p @ [i]) q" using 3(3) by auto
    moreover have "q \<notin> doomed_list p (Suc i) cs"
    proof
      assume "q \<in> doomed_list p (Suc i) cs"
      then obtain j where "Suc i \<le> j" "prefix (p @ [j]) q" using doomed_prefix(2) by blast
      then show False using prefix_same_place[OF \<open>prefix (p @ [i]) q\<close>, of j] by simp
    qed
    ultimately show "q \<in> doomed_paths (p @ [i]) c" by simp
  next
    fix q
    assume "q \<in> doomed_paths (p @ [i]) c"
    then show "q \<in> {q \<in> set removed. prefix (p @ [i]) q}" using doomed_prefix(1)[of q "p @ [i]" c] 3(3) by auto
  qed
  have rest: "{q \<in> set removed. \<exists>j\<ge>Suc i. prefix (p @ [j]) q} = doomed_list p (Suc i) cs"
  proof (intro set_eqI iffI)
    fix q
    assume q: "q \<in> {q \<in> set removed. \<exists>j\<ge>Suc i. prefix (p @ [j]) q}"
    then have "q \<in> doomed_list p i (c # cs)" using 3(3) Suc_leD by blast
    moreover have "q \<notin> doomed_paths (p @ [i]) c"
    proof
      assume "q \<in> doomed_paths (p @ [i]) c"
      then have "prefix (p @ [i]) q" by (rule doomed_prefix(1))
      moreover obtain j where "Suc i \<le> j" "prefix (p @ [j]) q" using q by blast
      ultimately show False using prefix_same_place[of p i q j] by simp
    qed
    ultimately show "q \<in> doomed_list p (Suc i) cs" by simp
  next
    fix q
    assume "q \<in> doomed_list p (Suc i) cs"
    then show "q \<in> {q \<in> set removed. \<exists>j\<ge>Suc i. prefix (p @ [j]) q}" using doomed_prefix(2)[of q p "Suc i" cs] 3(3) by auto
  qed
  have "p @ [i] \<in> set removed \<longleftrightarrow> doomed c"
  proof -
    have "p @ [i] \<in> set removed \<longleftrightarrow> p @ [i] \<in> doomed_paths (p @ [i]) c" using here by blast
    also have "\<dots> \<longleftrightarrow> doomed c" using doomed_prefix(2)[of "p @ [i]" "p @ [i]" 0 "nd_children c"] by (cases c) (auto simp: prefix_def)
    finally show ?thesis .
  qed
  moreover have "{q \<in> set removed. prefix (p @ [i]) q \<and> q \<noteq> p @ [i]} = doomed_paths (p @ [i]) c - {p @ [i]}" using here by blast
  ultimately show ?case using 3(1) 3(2)[OF rest] by simp
qed simp

lemma strip_correct: "removeCommentsAndIntertagWhitespace n = Some (strip n)"
proof -
  obtain r where r: "strip_loop (Some ([], n)) (NewQueue 10) [] = Some r" "set r = doomed_paths [] n"
    using strip_loop_spec[OF NewQueue_ok(1), of 10 "[]" "([], n)" "[]"] NewQueue_ok(2) by auto
  have "doomed_paths [] n - {[]} = doomed_paths [] n"
    using doomed_prefix(2)[of "[]" "[]" 0 "nd_children n"] by (cases n) (auto simp: prefix_def)
  then have "{q \<in> set r. prefix [] q \<and> q \<noteq> []} = doomed_paths [] n - {[]}" using r(2) by auto
  then show ?thesis using prune_strip(1) r(1) by (simp add: removeCommentsAndIntertagWhitespace_def)
qed

subsection \<open>Attributes\<close>

lemma removeAttr_loop_keys:
  "removeAttr_loop ks as' alt title = (ret, alt', title') \<Longrightarrow> a \<in> set ret \<Longrightarrow> Key a \<notin> set ks \<and> \<not> HasPrefix (Key a) ''data''"
proof (induction as' arbitrary: alt title ret alt' title')
  case (Cons a0 as')
  let ?b = "trim_attr a0"
  show ?case
  proof (cases "Key ?b \<in> set ks \<or> HasPrefix (Key ?b) ''data''")
    case True
    then show ?thesis using Cons by simp
  next
    case False
    obtain ret0 alt0 title0 where r: "removeAttr_loop ks as' (if Key ?b = ''alt'' then Val ?b else alt)
        (if Key ?b = ''title'' then Val ?b else title) = (ret0, alt0, title0)" by (rule prod_cases3)
    then have "ret = ?b # ret0" using Cons.prems(1) False unfolding removeAttr_loop.simps(2) Let_def by (simp only: r if_False prod.case prod.inject)
    then show ?thesis using Cons.IH[OF r] Cons.prems(2) False by auto
  qed
qed simp

lemma removeAttr_keys: "a \<in> set (removeAttr as' ks) \<Longrightarrow> Key a \<notin> set ks \<and> \<not> HasPrefix (Key a) ''data''"
  using removeAttr_loop_keys[of ks as' "[]" "[]"]
  by (cases "removeAttr_loop ks as' [] []") (auto simp: removeAttr_def Let_def split: if_splits)

subsection \<open>cleanseDom\<close>

lemma replNewLines_space: "CHR 0x0D \<in> set s \<or> CHR 0x0A \<in> set s \<Longrightarrow> CHR '' '' \<in> set (replNewLines s)"
proof (induction s)
  case (Cons c s)
  show ?case
  proof (cases "c = CHR 0x0D \<or> c = CHR 0x0A")
    case True
    then have "\<exists>r. replNewLines (c # s) = CHR '' '' # r" by (cases s) (elim disjE; simp)+
    then show ?thesis by auto
  next
    case False
    then have "replNewLines (c # s) = c # replNewLines s" by simp
    then show ?thesis using Cons False by auto
  qed
qed simp

lemma replNewLines_no_space: "CHR '' '' \<notin> set (replNewLines s) \<Longrightarrow> replNewLines s = s"
  using replNewLines_space[of s] by (intro replNewLines_id) blast+

lemma replTabs_no_space: "CHR '' '' \<notin> set (replTabs s) \<Longrightarrow> replTabs s = s"
  unfolding replTabs_def by (intro map_idI) force

lemma squeeze_no_space: "CHR '' '' \<notin> set (squeeze_from (\<lambda>c. c = CHR '' '') '' '' False s) \<Longrightarrow>
    squeeze_from (\<lambda>c. c = CHR '' '') '' '' False s = s"
  by (induction s) (auto split: if_splits)

text \<open>Normalizing leaves a text without blanks as it is, and makes no such text of another one.\<close>

lemma NormalizeInnerWhitespace_no_space: "CHR '' '' \<notin> set (NormalizeInnerWhitespace s) \<Longrightarrow> NormalizeInnerWhitespace s = s"
  unfolding NormalizeInnerWhitespace_def squeeze_def
  using squeeze_no_space[of "replTabs (replNewLines s)"] replTabs_no_space[of "replNewLines s"] replNewLines_no_space[of s] by simp

text \<open>The names that the tables of cleanseDom hold.\<close>

definition tag_names :: "string list" where
  "tag_names = unwanteds @ map fst exotics"

lemma tag_names_no_space: "w \<in> set tag_names \<Longrightarrow> CHR '' '' \<notin> set w"
  by (auto simp: tag_names_def unwanteds_def exotics_def)

lemma NormalizeInnerWhitespace_tag: "s \<in> set tag_names \<Longrightarrow> NormalizeInnerWhitespace s = s"
proof -
  have "list_all (\<lambda>s. NormalizeInnerWhitespace s = s) tag_names" by code_simp
  then show "s \<in> set tag_names \<Longrightarrow> NormalizeInnerWhitespace s = s" by (simp add: list_all_iff)
qed

lemma normalized_tag: "NormalizeInnerWhitespace s \<in> set tag_names \<Longrightarrow> s \<in> set tag_names"
  using tag_names_no_space NormalizeInnerWhitespace_no_space[of s] by metis

lemma exotics_not_unwanted: "map_of exotics d = Some r \<Longrightarrow> r \<notin> set unwanteds \<and> d \<notin> set unwanteds"
  unfolding exotics_def unwanteds_def by (auto split: if_splits)

text \<open>The texts that are kept: those inside an unwanted element go.\<close>

fun kept_texts :: "node \<Rightarrow> string list" where
  "kept_texts (Node t d a cs) = (if t = TextNode then [d] else []) @
     concat (map (\<lambda>c. if nd_data c \<in> set unwanteds then [] else kept_texts c) cs)"

text \<open>What cleanseDom makes of a text: the name of an exotic element is replaced in texts, too; then the white space is normalized.\<close>

definition cleansed_text :: "string \<Rightarrow> string" where
  "cleansed_text s = NormalizeInnerWhitespace (case map_of exotics s of Some repl \<Rightarrow> repl | None \<Rightarrow> s)"

lemma cleansed_text_unwanted: "cleansed_text s \<in> set unwanteds \<longleftrightarrow> s \<in> set unwanteds"
proof (cases "map_of exotics s")
  case None
  have sub: "set unwanteds \<subseteq> set tag_names" by (auto simp: tag_names_def)
  have "NormalizeInnerWhitespace s = s" if "s \<in> set unwanteds \<or> NormalizeInnerWhitespace s \<in> set unwanteds"
    using that sub normalized_tag[of s] NormalizeInnerWhitespace_tag[of s] by blast
  then show ?thesis using None by (auto simp: cleansed_text_def)
next
  case (Some r)
  then have "r \<notin> set unwanteds" "s \<notin> set unwanteds" using exotics_not_unwanted by blast+
  moreover have "NormalizeInnerWhitespace r \<notin> set unwanteds"
  proof
    assume u: "NormalizeInnerWhitespace r \<in> set unwanteds"
    then have "CHR '' '' \<notin> set (NormalizeInnerWhitespace r)" by (intro tag_names_no_space) (auto simp: tag_names_def)
    then show False using NormalizeInnerWhitespace_no_space[of r] u \<open>r \<notin> set unwanteds\<close> by simp
  qed
  ultimately show ?thesis using Some by (simp add: cleansed_text_def)
qed

lemma cleanse_fields: "nd_type (cleanseDom n) = nd_type n" "nd_data (cleanseDom n) \<in> set unwanteds \<longleftrightarrow> nd_data n \<in> set unwanteds"
  "nd_children (cleanseDom n) = filter (\<lambda>c. nd_data c \<notin> set unwanteds) (map cleanseDom (nd_children n))"
  "nd_type n = TextNode \<Longrightarrow> nd_data (cleanseDom n) = cleansed_text (nd_data n)"
proof -
  obtain t d a cs where n: "n = Node t d a cs" by (cases n)
  show "nd_type (cleanseDom n) = nd_type n"
    by (simp add: n normalizeText_def convertExotic_def removeUnwanted_def split: option.splits)
  show "nd_children (cleanseDom n) = filter (\<lambda>c. nd_data c \<notin> set unwanteds) (map cleanseDom (nd_children n))"
    by (simp add: n normalizeText_def convertExotic_def removeUnwanted_def split: option.splits)
  show tx: "nd_data (cleanseDom n) = cleansed_text (nd_data n)" if "nd_type n = TextNode"
    using that by (simp add: n normalizeText_def convertExotic_def removeUnwanted_def cleansed_text_def split: option.splits)
  show "nd_data (cleanseDom n) \<in> set unwanteds \<longleftrightarrow> nd_data n \<in> set unwanteds"
  proof (cases "t = TextNode")
    case True
    then show ?thesis using tx cleansed_text_unwanted by (simp add: n)
  next
    case False
    then show ?thesis using exotics_not_unwanted[of d]
      by (auto simp: n normalizeText_def convertExotic_def removeUnwanted_def split: option.splits)
  qed
qed

lemma cleanse_nodes: "m \<in> set (nodes (cleanseDom n)) \<Longrightarrow>
    (\<forall>c\<in>set (nd_children m). nd_data c \<notin> set unwanteds) \<and>
    (\<forall>a\<in>set (nd_attr m). Key a \<notin> set unwantedAttrs \<and> \<not> HasPrefix (Key a) ''data'')"
proof (induction n arbitrary: m)
  case (Node t d a cs)
  have children: "nd_children (cleanseDom (Node t d a cs)) = filter (\<lambda>c. nd_data c \<notin> set unwanteds) (map cleanseDom cs)"
    using cleanse_fields(3)[of "Node t d a cs"] by simp
  have cfrm: "''cfrm'' \<notin> set unwantedAttrs" "\<not> HasPrefix ''cfrm'' ''data''" by code_simp+
  have attrs: "set (nd_attr (cleanseDom (Node t d a cs))) \<subseteq> set (removeAttr a unwantedAttrs) \<union> {\<lparr>Key = ''cfrm'', Val = d\<rparr>}"
    by (auto simp: normalizeText_def convertExotic_def removeUnwanted_def split: option.splits if_splits)
  consider "m = cleanseDom (Node t d a cs)" | "m \<in> below (cleanseDom (Node t d a cs))"
    using Node.prems nodes_below[of "cleanseDom (Node t d a cs)"] by blast
  then show ?case
  proof cases
    case 1
    have "Key b \<notin> set unwantedAttrs \<and> \<not> HasPrefix (Key b) ''data''" if b: "b \<in> set (nd_attr m)" for b
    proof (cases "b = \<lparr>Key = ''cfrm'', Val = d\<rparr>")
      case True
      then show ?thesis using cfrm by (simp only: attribute.select_convs) simp
    next
      case False
      then have "b \<in> set (removeAttr a unwantedAttrs)" using attrs b unfolding 1 by blast
      then show ?thesis by (rule removeAttr_keys)
    qed
    then show ?thesis unfolding 1 children by simp
  next
    case 2
    then obtain c where "c \<in> set cs" "m \<in> set (nodes (cleanseDom c))" unfolding below_def children by auto
    then show ?thesis by (rule Node.IH)
  qed
qed

lemma texts_fields: "texts n = (if nd_type n = TextNode then [nd_data n] else []) @ concat (map texts (nd_children n))"
  by (cases n) simp

lemma concat_map_filter: "concat (map f (filter P xs)) = concat (map (\<lambda>x. if P x then f x else []) xs)"
  by (induction xs) simp_all

lemma cleanse_texts: "texts (cleanseDom n) = map cleansed_text (kept_texts n)"
proof (induction n)
  case (Node t d a cs)
  let ?n = "Node t d a cs"
  have "concat (map texts (nd_children (cleanseDom ?n))) =
      concat (map (\<lambda>c. if nd_data c \<in> set unwanteds then [] else map cleansed_text (kept_texts c)) cs)"
    unfolding cleanse_fields(3) filter_map map_map concat_map_filter node.sel comp_def
    using Node cleanse_fields(2) by (intro arg_cong[of _ _ concat] map_cong refl) simp
  moreover have "\<dots> = map cleansed_text (concat (map (\<lambda>c. if nd_data c \<in> set unwanteds then [] else kept_texts c) cs))"
    by (simp add: map_concat o_def if_distrib[of "map cleansed_text"] cong: if_cong)
  ultimately show ?case using cleanse_fields(4)[of ?n]
    unfolding texts_fields[of "cleanseDom ?n"] cleanse_fields(1) kept_texts.simps by simp
qed

text \<open>cleanseDom looks at the data of text nodes, too: a text that is the name of an unwanted element is lost, a text that is the name of
  an exotic element is replaced.\<close>

definition paragraph_of :: "string \<Rightarrow> node" where
  "paragraph_of s = Node ElementNode ''p'' [] [Node TextNode s [] []]"

lemma cleanse_text_lost: "texts (cleanseDom (paragraph_of ''link'')) = []" "texts (cleanseDom (paragraph_of ''b'')) = [''strong'']"
  by code_simp+

subsection \<open>removeEmptyNodes\<close>

text \<open>Trees as the parser gives them: texts and comments have no children, and there is no text in an image.\<close>

definition html_tree :: "node \<Rightarrow> bool" where
  "html_tree n \<longleftrightarrow> list_all (\<lambda>m. (nd_type m = TextNode \<or> nd_type m = CommentNode \<longrightarrow> nd_children m = []) \<and>
     (nd_type m = ElementNode \<and> nd_data m = ''img'' \<longrightarrow> texts m = [])) (nodes n)"

lemma html_tree_child: "html_tree (Node t d a cs) \<Longrightarrow> c \<in> set cs \<Longrightarrow> html_tree c"
  by (auto simp: html_tree_def list_all_iff)

definition list_of_option :: "'a option \<Rightarrow> 'a list" where
  "list_of_option x = (case x of Some y \<Rightarrow> [y] | None \<Rightarrow> [])"

lemma removeEmptyNodes_Node: "removeEmptyNodes (Node t d a cs) =
    (let n = Node t d a (concat (map (\<lambda>c. list_of_option (removeEmptyNodes c)) cs))
     in if empty_leaf n then None else Some (flatten_span n))"
  by (simp add: list_of_option_def Let_def)

lemma flatten_span_cases:
  "flatten_span n = n \<or> (\<exists>c. nd_children n = [c] \<and> nd_type n = ElementNode \<and> nd_type c = TextNode \<and>
     flatten_span n = Node TextNode (nd_data c) (nd_attr n) [])"
  unfolding flatten_span_def with_data_def by (auto split: list.split)

lemma empty_leaf_cases: "empty_leaf n \<Longrightarrow> nd_type n = ElementNode \<and> (nd_data n = ''img'' \<or> nd_children n = [])"
  unfolding empty_leaf_def by blast

lemma removeEmptyNodes_texts:
  "html_tree n \<Longrightarrow> concat (map texts (list_of_option (removeEmptyNodes n))) = texts n \<and>
     (\<forall>n'. removeEmptyNodes n = Some n' \<longrightarrow> nd_type n' = TextNode \<longrightarrow> nd_children n' = [])"
proof (induction n)
  case (Node t d a cs)
  let ?n = "Node t d a (concat (map (\<lambda>c. list_of_option (removeEmptyNodes c)) cs))"
  note IH = Node.IH[OF _ html_tree_child[OF Node.prems]]
  have "concat (map texts (nd_children ?n)) = concat (map (\<lambda>c. concat (map texts (list_of_option (removeEmptyNodes c)))) cs)"
    by (simp only: node.sel concat_map_concat map_map comp_def)
  also have "\<dots> = concat (map texts cs)"
    using IH by (intro arg_cong[of _ _ concat] map_cong refl) blast
  finally have t: "texts ?n = texts (Node t d a cs)" by simp
  have leaf: "nd_children c = []" if c: "c \<in> set (nd_children ?n)" "nd_type c = TextNode" for c
  proof -
    obtain c0 where "c0 \<in> set cs" "removeEmptyNodes c0 = Some c"
      using c(1) by (auto simp: list_of_option_def split: option.splits)
    then show ?thesis using IH c(2) by blast
  qed
  have kept: "texts (flatten_span ?n) = texts ?n \<and> (nd_type (flatten_span ?n) = TextNode \<longrightarrow> nd_children (flatten_span ?n) = [])"
    using flatten_span_cases[of ?n]
  proof (elim disjE exE conjE)
    assume e: "flatten_span ?n = ?n"
    have "t = TextNode \<longrightarrow> cs = []" using Node.prems by (simp add: html_tree_def)
    then show ?thesis unfolding e by auto
  next
    fix c
    assume c: "nd_children ?n = [c]" "nd_type ?n = ElementNode" "nd_type c = TextNode"
      and f: "flatten_span ?n = Node TextNode (nd_data c) (nd_attr ?n) []"
    then have "texts c = [nd_data c]" using leaf[of c] texts_fields[of c] by simp
    then show ?thesis unfolding f texts_fields[of ?n] c by (simp add: c(2)[unfolded node.sel])
  qed
  have gone: "texts (Node t d a cs) = []" if e: "empty_leaf ?n"
  proof (cases "d = ''img''")
    case True
    then show ?thesis using Node.prems empty_leaf_cases[OF e] by (simp add: html_tree_def)
  next
    case False
    then have "nd_children ?n = []" "t = ElementNode" using empty_leaf_cases[OF e] by simp_all
    then show ?thesis unfolding t[symmetric] texts_fields[of ?n] by simp
  qed
  show ?case
  proof (cases "empty_leaf ?n")
    case True
    then have "removeEmptyNodes (Node t d a cs) = None" unfolding removeEmptyNodes_Node Let_def by (simp only: if_True)
    then show ?thesis using gone[OF True] by (simp add: list_of_option_def)
  next
    case False
    then have "removeEmptyNodes (Node t d a cs) = Some (flatten_span ?n)" unfolding removeEmptyNodes_Node Let_def by (simp only: if_False)
    then show ?thesis using kept t by (simp add: list_of_option_def)
  qed
qed

lemma removeEmptyNodes_done: "removeEmptyNodes n = Some n' \<Longrightarrow> removeEmptyNodes n' = Some n' \<and> (\<forall>m\<in>set (nodes n'). \<not> empty_leaf m)"
proof (induction n arbitrary: n')
  case (Node t d a cs)
  let ?n = "Node t d a (concat (map (\<lambda>c. list_of_option (removeEmptyNodes c)) cs))"
  have ne: "\<not> empty_leaf ?n" and n': "n' = flatten_span ?n"
    using Node.prems unfolding removeEmptyNodes_Node Let_def by (simp_all only: split: if_splits) simp_all
  have children: "removeEmptyNodes c = Some c \<and> (\<forall>m\<in>set (nodes c). \<not> empty_leaf m)" if c: "c \<in> set (nd_children ?n)" for c
  proof -
    obtain c0 where "c0 \<in> set cs" "removeEmptyNodes c0 = Some c"
      using c by (auto simp: list_of_option_def split: option.splits)
    then show ?thesis by (rule Node.IH)
  qed
  show ?case using flatten_span_cases[of ?n]
  proof (elim disjE exE conjE)
    assume e: "flatten_span ?n = ?n"
    have "concat (map (\<lambda>c. list_of_option (removeEmptyNodes c)) (nd_children ?n)) = concat (map (\<lambda>c. [c]) (nd_children ?n))"
      using children by (intro arg_cong[of _ _ concat] map_cong refl) (simp only: list_of_option_def option.case)
    then have "Node t d a (concat (map (\<lambda>c. list_of_option (removeEmptyNodes c)) (nd_children ?n))) = ?n"
      by (simp only: concat_map_singleton map_ident node.sel)
    then have "removeEmptyNodes (Node t d a (nd_children ?n)) = Some ?n"
      using ne e unfolding removeEmptyNodes_Node[of t d a "nd_children ?n"] Let_def by (simp only: if_False)
    then have "removeEmptyNodes ?n = Some ?n" by (simp only: node.sel)
    then show ?thesis using ne children unfolding n' e nodes_below[of ?n] below_def by blast
  next
    fix c
    assume "flatten_span ?n = Node TextNode (nd_data c) (nd_attr ?n) []"
    then show ?thesis unfolding n' by (simp add: empty_leaf_def flatten_span_def)
  qed
qed

subsection \<open>Condensing\<close>

lemma topDownV3_texts: "texts (topDownV3 l1 l2Types l3Types) = texts l1"
proof -
  have wrap: "texts (wrap_lifted l3) = texts l3" for l3 by (simp add: wrap_lifted_def)
  have lift: "concat (map texts (if liftable l2Types l3Types l2 then map wrap_lifted (nd_children l2) else [l2])) = texts l2" for l2
    using texts_fields[of l2] by (auto simp: liftable_def wrap o_def)
  have "concat (map texts (concat (map (\<lambda>l2. if liftable l2Types l3Types l2 then map wrap_lifted (nd_children l2) else [l2]) (nd_children l1)))) =
      concat (map texts (nd_children l1))"
    unfolding concat_map_concat map_map comp_def lift ..
  then show ?thesis by (simp add: topDownV3_def texts_fields[of l1])
qed

lemma condenseTopDown_texts: "texts (condenseTopDown n) = texts n"
proof (induction n)
  case (Node t d a cs)
  then have "concat (map texts (map condenseTopDown cs)) = concat (map texts cs)"
    unfolding map_map by (intro arg_cong[of _ _ concat] map_cong refl) simp
  then show ?case unfolding condenseTopDown.simps topDownV3_texts by (simp only: texts.simps)
qed

text \<open>The words of a document, and the trees whose words survive the flattening: of the elements it knows, without words in the others,
  in images and below texts, and without a text that is the word span.\<close>

definition page_words :: "node \<Rightarrow> string list" where
  "page_words n = concat (map Fields (texts n))"












text \<open>A text that is the word span is taken for an element span without children.\<close>

lemma span_text_lost:
  "page_words (condenseBottomUpV3 0 (Node ElementNode ''p'' [] [Nd_text ''span'', Nd_text ''wide''])) = [''wide'']"
  by code_simp

text \<open>Any other element is dropped with its words.\<close>

lemma headline_lost:
  "page_words (condenseBottomUpV3 0 (Node ElementNode ''div'' [] [Node ElementNode ''h3'' [] [Nd_text ''Breaking news'']])) = []"
  by code_simp

text \<open>Only blank texts are stripped.\<close>

lemma strip_texts:
  "html_tree n \<Longrightarrow> texts (strip n) = (if nd_type n = TextNode then [nd_data n] else []) @
     filter (\<lambda>s. \<not> isSpacey s) (concat (map texts (nd_children n)))"
proof (induction n)
  case (Node t d a cs)
  have "(if \<not> doomed c then texts (strip c) else []) = filter (\<lambda>s. \<not> isSpacey s) (texts c)" if c: "c \<in> set cs" for c
  proof (cases "doomed c")
    case True
    have "nd_children c = []" using html_tree_child[OF Node.prems c] True by (cases c) (auto simp: html_tree_def doomed_def)
    then show ?thesis using True texts_fields[of c] by (auto simp: doomed_def)
  next
    case False
    then show ?thesis using Node.IH[OF c html_tree_child[OF Node.prems c]] texts_fields[of c] by (auto simp: doomed_def)
  qed
  then have "concat (map texts (map strip (filter (\<lambda>c. \<not> doomed c) cs))) = concat (map (\<lambda>c. filter (\<lambda>s. \<not> isSpacey s) (texts c)) cs)"
    unfolding map_map concat_map_filter comp_def by (intro arg_cong[of _ _ concat] map_cong refl) simp
  then show ?case by (simp add: filter_concat o_def)
qed

lemma strip_nodes: "m \<in> set (nodes (strip n)) \<Longrightarrow> \<forall>c\<in>set (nd_children m). \<not> doomed c"
proof (induction n arbitrary: m)
  case (Node t d a cs)
  have "doomed (strip c) = doomed c" for c by (cases c) (simp add: doomed_def)
  then show ?case using Node by auto
qed

subsection \<open>The first steps of DomClean\<close>

definition DomClean_start :: "node \<Rightarrow> node option" where
  "DomClean_start doc = do {
     let doc = cleanseDom doc;
     doc \<leftarrow> removeCommentsAndIntertagWhitespace doc;
     let doc = condenseTopDown doc;
     removeEmptyNodes doc
   }"

definition html_node :: "node \<Rightarrow> bool" where
  "html_node m \<longleftrightarrow> (nd_type m = TextNode \<or> nd_type m = CommentNode \<longrightarrow> nd_children m = []) \<and>
     (nd_type m = ElementNode \<and> nd_data m = ''img'' \<longrightarrow> texts m = [])"

lemma html_tree_node: "html_tree n \<longleftrightarrow> html_node n \<and> (\<forall>c\<in>set (nd_children n). html_tree c)"
  by (cases n) (auto simp: html_tree_def html_node_def list_all_iff)

lemma html_treeI: "html_node n \<Longrightarrow> (\<And>c. c \<in> set (nd_children n) \<Longrightarrow> html_tree c) \<Longrightarrow> html_tree n"
  using html_tree_node[of n] by blast

lemma html_tree_here: "html_tree n \<Longrightarrow> html_node n"
  using html_tree_node[of n] by blast

lemma html_node_texts:
  "html_node n \<Longrightarrow> nd_type n' = nd_type n \<Longrightarrow> nd_data n' = nd_data n \<or> nd_type n \<noteq> ElementNode \<or> nd_data n' \<noteq> ''img'' \<Longrightarrow>
    (nd_children n = [] \<Longrightarrow> nd_children n' = []) \<Longrightarrow> (texts n = [] \<Longrightarrow> texts n' = []) \<Longrightarrow> html_node n'"
  by (auto simp: html_node_def)

lemma kept_texts_subset: "texts n = [] \<Longrightarrow> kept_texts n = []"
  by (induction n) (auto split: if_splits)

lemma html_tree_cleanse: "html_tree n \<Longrightarrow> html_tree (cleanseDom n)"
proof (induction n)
  case (Node t d a cs)
  let ?n = "Node t d a cs"
  show ?case
  proof (rule html_treeI)
    show "html_node (cleanseDom ?n)"
    proof (rule html_node_texts[OF html_tree_here[OF Node.prems] cleanse_fields(1)])
      have "nd_data (cleanseDom ?n) = ''img'' \<Longrightarrow> t = ElementNode \<Longrightarrow> d = ''img''"
        by (auto simp: normalizeText_def convertExotic_def removeUnwanted_def exotics_def split: option.splits if_splits)
      then show "nd_data (cleanseDom ?n) = nd_data ?n \<or> nd_type ?n \<noteq> ElementNode \<or> nd_data (cleanseDom ?n) \<noteq> ''img''" by auto
      show "texts (cleanseDom ?n) = []" if "texts ?n = []"
        unfolding cleanse_texts kept_texts_subset[OF that] by simp
      show "nd_children (cleanseDom ?n) = []" if "nd_children ?n = []" unfolding cleanse_fields(3) that by simp
    qed
    show "html_tree c" if c: "c \<in> set (nd_children (cleanseDom ?n))" for c
    proof -
      obtain c0 where "c0 \<in> set cs" "c = cleanseDom c0" using c unfolding cleanse_fields(3) by auto
      then show ?thesis using Node.IH html_tree_child[OF Node.prems] by blast
    qed
  qed
qed

lemma html_tree_strip: "html_tree n \<Longrightarrow> html_tree (strip n)"
proof (induction n)
  case (Node t d a cs)
  let ?n = "Node t d a cs"
  show ?case
  proof (rule html_treeI)
    show "html_node (strip ?n)"
    proof (rule html_node_texts[OF html_tree_here[OF Node.prems]])
      show "texts (strip ?n) = []" if "texts ?n = []" using strip_texts[OF Node.prems] that texts_fields[of ?n] by auto
    qed simp_all
    show "html_tree c" if c: "c \<in> set (nd_children (strip ?n))" for c
    proof -
      obtain c0 where "c0 \<in> set cs" "c = strip c0" using c by auto
      then show ?thesis using Node.IH html_tree_child[OF Node.prems] by blast
    qed
  qed
qed

lemma html_tree_wrap: "html_tree c \<Longrightarrow> html_tree (wrap_lifted c)"
  unfolding wrap_lifted_def using html_treeI[of "Node ElementNode ''p'' [\<lparr>Key = ''cfrm'', Val = ''noth''\<rparr>] [c]"]
  by (simp add: html_node_def)

lemma html_tree_topDown:
  assumes "html_tree n"
  shows "html_tree (topDownV3 n l2 l3)"
proof (rule html_treeI)
  have sub: "html_tree c" if "html_tree m" "c \<in> set (nd_children m)" for c m
    using html_tree_node[of m] that by blast
  show "html_node (topDownV3 n l2 l3)"
    by (rule html_node_texts[OF html_tree_here[OF assms]]) (simp_all add: topDownV3_texts, simp_all add: topDownV3_def)
  show "html_tree c" if "c \<in> set (nd_children (topDownV3 n l2 l3))" for c
  proof -
    have "c \<in> set (nd_children n) \<or> (\<exists>m\<in>set (nd_children n). \<exists>k\<in>set (nd_children m). c = wrap_lifted k)"
      using that unfolding topDownV3_def by (auto split: if_splits)
    then show ?thesis using sub[OF assms] sub[of m for m] html_tree_wrap by blast
  qed
qed

lemma html_tree_condense: "html_tree n \<Longrightarrow> html_tree (condenseTopDown n)"
proof (induction n)
  case (Node t d a cs)
  let ?n = "Node t d a (map condenseTopDown cs)"
  have "texts ?n = texts (Node t d a cs)" by (simp add: o_def condenseTopDown_texts)
  then have "html_node ?n" by (intro html_node_texts[OF html_tree_here[OF Node.prems]]) simp_all
  then have "html_tree ?n" by (rule html_treeI) (use Node.IH html_tree_child[OF Node.prems] in auto)
  then show ?case unfolding condenseTopDown.simps by (intro html_tree_topDown)
qed

lemma condense_type: "nd_type (condenseTopDown n) = nd_type n" "nd_type (strip n) = nd_type n"
  by (cases n; simp add: topDownV3_def)+

lemma removeEmptyNodes_None: "removeEmptyNodes n = None \<Longrightarrow> nd_type n = ElementNode"
  using empty_leaf_cases by (cases n) (fastforce simp: Let_def split: if_splits)

subsection \<open>Properties\<close>

text \<open>C36: The walk level by level through the growing ring buffer terminates without a panic, and although it detaches nodes of the tree
  it is walking, exactly the comments and the blank texts below the start are gone.\<close>

theorem strip_level_order:
  "removeCommentsAndIntertagWhitespace n = Some (strip n) \<and>
   (\<forall>m\<in>set (nodes (strip n)). \<forall>c\<in>set (nd_children m). nd_type c \<noteq> CommentNode \<and> \<not> (nd_type c = TextNode \<and> isSpacey (nd_data c)))"
  using strip_correct strip_nodes unfolding doomed_def by blast

definition sample_page :: node where
  "sample_page = Node DocumentNode [] [] [Node ElementNode ''body'' [] [
     Node ElementNode ''script'' [] [Nd_text ''var x''],
     Nd_text '' '',
     Node ElementNode ''section'' [\<lparr>Key = ''class'', Val = ''c''\<rparr>] [
       Node ElementNode ''div'' [] [Node ElementNode ''a'' [\<lparr>Key = ''href'', Val = ''#''\<rparr>] [], Node ElementNode ''p'' [] [Nd_text ''One  story'']],
       Node CommentNode ''end'' [] []],
     Node ElementNode ''span'' [] [Nd_text ''x'']]]"

lemma strip_level_order_witness:
  "removeCommentsAndIntertagWhitespace sample_page = Some (strip sample_page) \<and>
   list_all (\<lambda>m. list_all (\<lambda>c. nd_type c \<noteq> CommentNode \<and> \<not> (nd_type c = TextNode \<and> isSpacey (nd_data c))) (nd_children m))
     (nodes (strip sample_page)) \<and>
   texts (strip sample_page) = [''var x'', ''One  story'', ''x'']"
proof -
  have "texts (strip sample_page) = [''var x'', ''One  story'', ''x'']" by code_simp
  then show ?thesis using strip_level_order[of sample_page] unfolding list_all_iff by blast
qed

text \<open>C37: cleanseDom leaves no unwanted element below the root and no unwanted or data attribute anywhere. Of the texts it keeps those
  that do not stand inside an unwanted element and are not themselves the name of one, in order; each comes out with its white space
  normalized, and a text that is the name of an exotic element as the name that replaces it.\<close>

theorem cleanse_dom:
  "texts (cleanseDom n) = map cleansed_text (kept_texts n) \<and>
    (\<forall>m\<in>set (nodes (cleanseDom n)). (\<forall>c\<in>set (nd_children m). nd_data c \<notin> set unwanteds) \<and>
      (\<forall>a\<in>set (nd_attr m). Key a \<notin> set unwantedAttrs \<and> \<not> HasPrefix (Key a) ''data''))"
  using cleanse_texts cleanse_nodes[of _ n] by blast

lemma cleanse_dom_witness:
  "texts (cleanseDom sample_page) = ['' '', ''One story'', ''x''] \<and>
   list_all (\<lambda>m. list_all (\<lambda>c. nd_data c \<notin> set unwanteds) (nd_children m) \<and>
      list_all (\<lambda>a. Key a \<notin> set unwantedAttrs \<and> \<not> HasPrefix (Key a) ''data'') (nd_attr m)) (nodes (cleanseDom sample_page))"
proof -
  have "map cleansed_text (kept_texts sample_page) = ['' '', ''One story'', ''x'']" by code_simp
  then show ?thesis using cleanse_dom[of sample_page] unfolding list_all_iff by simp
qed

text \<open>removeEmptyNodes loses no text of a page, leaves no empty element, and a second run changes nothing.\<close>

theorem remove_empty_nodes:
  assumes "html_tree n" "removeEmptyNodes n = Some n'"
  shows "texts n' = texts n \<and> (\<forall>m\<in>set (nodes n'). \<not> empty_leaf m) \<and> removeEmptyNodes n' = Some n'"
  using removeEmptyNodes_texts[OF assms(1)] removeEmptyNodes_done[OF assms(2)] assms(2) by (simp add: list_of_option_def)

lemma remove_empty_nodes_witness:
  "\<exists>n'. removeEmptyNodes sample_page = Some n' \<and> texts n' = texts sample_page \<and> (\<forall>m\<in>set (nodes n'). \<not> empty_leaf m) \<and>
     removeEmptyNodes n' = Some n'"
proof -
  have "html_tree sample_page" "removeEmptyNodes sample_page \<noteq> None" by code_simp+
  then show ?thesis using remove_empty_nodes[of sample_page] by blast
qed



text \<open>C35: The first steps of DomClean on a document as the parser gives it (texts and comments have no children, and there is no text
  inside an image) never panic. The texts afterwards are those that neither stand inside an unwanted element nor are the name of one,
  in order, each as cleanseDom makes it - the white space normalized, the name of an exotic element replaced - without the blank
  ones.\<close>

theorem dom_clean_start:
  assumes "nd_type doc = DocumentNode" "html_tree doc"
  shows "\<exists>doc'. DomClean_start doc = Some doc' \<and>
    texts doc' = filter (\<lambda>s. \<not> isSpacey s) (map cleansed_text (kept_texts doc))"
proof -
  let ?c = "cleanseDom doc"
  have c: "html_tree ?c" "nd_type ?c = DocumentNode"
    using html_tree_cleanse[OF assms(2)] cleanse_fields(1) assms(1) by simp_all
  have s: "texts (strip ?c) = filter (\<lambda>s. \<not> isSpacey s) (texts ?c)"
    using strip_texts[OF c(1)] texts_fields[of ?c] c(2) by simp
  let ?d = "condenseTopDown (strip ?c)"
  have d: "html_tree ?d" "nd_type ?d = DocumentNode" "texts ?d = texts (strip ?c)"
    using html_tree_condense[OF html_tree_strip[OF c(1)]] condense_type c(2) condenseTopDown_texts by simp_all
  then have "removeEmptyNodes ?d \<noteq> None" using removeEmptyNodes_None[of ?d] by force
  then obtain doc' where "removeEmptyNodes ?d = Some doc'" by blast
  then have "texts doc' = texts ?d" using removeEmptyNodes_texts[OF d(1)] by (simp add: list_of_option_def)
  then show ?thesis using \<open>removeEmptyNodes ?d = Some doc'\<close> s d(3) cleanse_texts
    by (simp add: DomClean_start_def strip_correct)
qed

definition tag_page :: node where
  "tag_page = Node DocumentNode [] [] [Node ElementNode ''body'' [] [Node ElementNode ''p'' [] [Nd_text ''link''],
     Node ElementNode ''p'' [] [Nd_text ''b''], Node ElementNode ''p'' [] [Nd_text ''daily  news'']]]"

lemma dom_clean_start_witness:
  "\<exists>doc'. DomClean_start tag_page = Some doc' \<and> texts doc' = [''strong'', ''daily news'']"
proof -
  have "nd_type tag_page = DocumentNode" "html_tree tag_page" by code_simp+
  moreover have "filter (\<lambda>s. \<not> isSpacey s) (map cleansed_text (kept_texts tag_page)) = [''strong'', ''daily news'']" by code_simp
  ultimately show ?thesis using dom_clean_start[of tag_page] by simp
qed

end
