(* ===== verification/DomLinks.thy ===== *)
theory DomLinks
  imports Dom
begin

section \<open>Links and images (net/http/domclean2)\<close>

text \<open>
  \<^verbatim>\<open>DomClean\<close> breaks images out of the links around them and, for the proxy, rewrites links, images and forms.

  \<^item> The closure \<^verbatim>\<open>closureDeleter\<close> returns with each node whether it stays, the flag \<^verbatim>\<open>found\<close> and
    whether an image was seen in the subtree: \<^verbatim>\<open>splitPath\<close> holds a node exactly when one was seen below it.
  \<^item> The siblings that a broken-out image adds are walked after it by the code; \<open>breakout_again\<close> shows that this changes nothing.
  \<^item> \<^verbatim>\<open>url.Parse\<close> is the parameter \<open>url_parse\<close>, giving host and path; the host of the remote address and whether the server is
    a local one are parameters.
\<close>

subsection \<open>05\_breakout\_imgs\_from\_a\_trees.go\<close>

fun searchImg :: "node \<Rightarrow> nat \<Rightarrow> (node \<times> nat) option" and searchImgs :: "node list \<Rightarrow> nat \<Rightarrow> (node \<times> nat) option" where
  "searchImg (Node t d a cs) lvl = (if t = ElementNode \<and> d = ''img'' then Some (Node t d a cs, lvl) else searchImgs cs (lvl + 1))"
| "searchImgs [] lvl = None"
| "searchImgs (c # cs) lvl = (case searchImg c lvl of Some fnd \<Rightarrow> Some fnd | None \<Rightarrow> searchImgs cs lvl)"

definition delete_node :: "bool \<Rightarrow> nat \<Rightarrow> string \<Rightarrow> bool \<Rightarrow> bool \<Rightarrow> bool" where
  "delete_node until lvl d found splitPath \<longleftrightarrow> lvl > 0 \<and>
     (d = ''img'' \<or> \<not> until \<and> \<not> found \<and> \<not> splitPath \<or> until \<and> found \<and> \<not> splitPath)"

fun deleter :: "bool \<Rightarrow> node \<Rightarrow> nat \<Rightarrow> bool \<Rightarrow> node list \<times> bool \<times> bool"
  and deleters :: "bool \<Rightarrow> node list \<Rightarrow> nat \<Rightarrow> bool \<Rightarrow> node list \<times> bool \<times> bool" where
  "deleter until (Node t d a cs) lvl found =
     (let (cs', found', seen) = deleters until cs (lvl + 1) (found \<or> d = ''img'')
      in (if delete_node until lvl d found' seen then [] else [Node t d a cs'], found', seen \<or> d = ''img''))"
| "deleters until [] lvl found = ([], found, False)"
| "deleters until (c # cs) lvl found =
     (let (c', found1, seen1) = deleter until c lvl found;
          (cs', found2, seen2) = deleters until cs lvl found1
      in (c' @ cs', found2, seen1 \<or> seen2))"

definition removeNumbers :: "string \<Rightarrow> string" where
  "removeNumbers s = filter (\<lambda>c. \<not> digit c) s"

definition urlBeautify :: "(string \<Rightarrow> (string \<times> string) option) \<Rightarrow> string \<Rightarrow> string" where
  "urlBeautify url_parse surl =
     (let surl = (if \<not> HasPrefix surl ''http://'' \<and> \<not> HasPrefix surl ''https://'' then ''https://'' @ surl else surl)
      in case url_parse surl of
           None \<Rightarrow> surl
         | Some (hst, pth) \<Rightarrow>
             (let parts = split_on (CHR ''.'') hst; lenP = length parts
              in (if lenP - 1 > 1 then parts ! (lenP - 2) @ ''.'' @ parts ! (lenP - 1) else hst) @ removeNumbers pth))"

definition was_img :: "string \<Rightarrow> string" where
  "was_img contnt = (if length contnt < 6 then ''[was img] '' @ contnt else contnt)"

text \<open>The nodes that stand in the place of an \<^verbatim>\<open>a\<close> node afterwards.\<close>

definition break_anchor :: "(string \<Rightarrow> string) \<Rightarrow> node \<Rightarrow> node list" where
  "break_anchor beautify n = (case searchImg n 0 of
     None \<Rightarrow> [n]
   | Some (img, lvl) \<Rightarrow>
       if lvl = 1 \<and> length (nd_children n) = 1
       then [Node (nd_type n) (nd_data n) (nd_attr n) [Nd_text (was_img (beautify (attrX (nd_attr n) ''href'')))], img]
       else fst (deleter True n 0 False) @
            [Node (nd_type img) (nd_data img) (nd_attr img) (fst (deleters True (nd_children img) (lvl + 1) True))] @
            fst (deleter False (CloneNodeWithSubtree n) 0 False))"

fun breakout :: "(string \<Rightarrow> string) \<Rightarrow> node \<Rightarrow> node list" where
  "breakout beautify (Node t d a cs) =
     (let n = Node t d a (concat (map (breakout beautify) cs))
      in if t = ElementNode \<and> d = ''a'' then break_anchor beautify n else [n])"

subsection \<open>08\_proxify.go and the paths of package routes\<close>

definition URLParamKey :: string where "URLParamKey = ''url-x''"

definition ProxifyURI :: string where "ProxifyURI = ''/prox''"

definition FormRedirector :: string where "FormRedirector = ''/blob2/form-redirector''"

definition absolutize :: "string \<Rightarrow> string \<Rightarrow> string \<Rightarrow> string" where
  "absolutize scheme host val =
     (if HasPrefix val ''/'' \<and> \<not> HasPrefix val ''//ssl.'' then scheme @ ''://'' @ host @ val else val)"

definition server :: "bool \<Rightarrow> string \<Rightarrow> string" where
  "server isLocal proxyHostPort = (if isLocal then ''http://'' else ''https://'') @ proxyHostPort"

definition proxify_attr :: "bool \<Rightarrow> string \<Rightarrow> string \<Rightarrow> attribute list \<Rightarrow> attribute \<Rightarrow> attribute" where
  "proxify_attr isLocal proxyHostPort remoteHost attributes attr =
     (let img = attrX attributes ''cfrom'' = ''img'';
          v1 = (if Key attr = ''href'' \<or> Key attr = ''src'' \<or> Key attr = ''action''
                then absolutize (if img then ''http'' else ''https'') remoteHost (Val attr) else Val attr);
          v2 = (if Key attr = ''href'' \<and> \<not> img
                then server isLocal proxyHostPort @ ProxifyURI @ ''?'' @ URLParamKey @ ''='' @ v1 else v1);
          v3 = (if Key attr = ''action'' then server isLocal proxyHostPort @ FormRedirector else v2)
      in \<lparr>Key = Key attr, Val = v3\<rparr>)"

text \<open>The last loop, over the attributes of a \<^verbatim>\<open>redirect-to\<close> field, assigns to its own copy of each attribute: it changes nothing.\<close>

definition attrsAbsoluteAndProxified :: "bool \<Rightarrow> attribute list \<Rightarrow> string \<Rightarrow> string \<Rightarrow> attribute list" where
  "attrsAbsoluteAndProxified isLocal attributes proxyHostPort remoteHost =
     map (proxify_attr isLocal proxyHostPort remoteHost attributes) attributes"

definition redirect_field :: "attribute list \<Rightarrow> node" where
  "redirect_field a = Node ElementNode ''input'' [\<lparr>Key = ''name'', Val = ''redirect-to''\<rparr>, \<lparr>Key = ''value'', Val = attrX a ''action''\<rparr>] []"

definition submit_field :: node where
  "submit_field = Node ElementNode ''input'' [\<lparr>Key = ''type'', Val = ''submit''\<rparr>, \<lparr>Key = ''value'', Val = ''subm''\<rparr>,
     \<lparr>Key = ''accesskey'', Val = ''f''\<rparr>] []"

text \<open>The two fields appended to a form are walked, too, and left as they are.\<close>

fun proxify :: "bool \<Rightarrow> string \<Rightarrow> string \<Rightarrow> node \<Rightarrow> node" where
  "proxify isLocal proxyHostPort remoteHost (Node t d a cs) =
     (let cs' = map (proxify isLocal proxyHostPort remoteHost) cs in
      if t = ElementNode \<and> d = ''form''
      then Node t d (attrsAbsoluteAndProxified isLocal (attrSet (attrSet a ''method'' ''post'') ''was'' ''rewritten'') proxyHostPort remoteHost)
             (cs' @ [redirect_field a, submit_field])
      else if t = ElementNode \<and> (d = ''a'' \<or> d = ''img'')
      then Node t d (attrsAbsoluteAndProxified isLocal a proxyHostPort remoteHost) cs'
      else Node t d a cs')"

subsection \<open>Breaking images out\<close>

text \<open>Trees as the parser gives them: texts and images are leaves.\<close>

definition void_images :: "node \<Rightarrow> bool" where
  "void_images n \<longleftrightarrow> list_all (\<lambda>m. (nd_type m = TextNode \<longrightarrow> nd_children m = []) \<and> (nd_data m = ''img'' \<longrightarrow> nd_children m = [])) (nodes n)"

lemma void_images_child: "void_images (Node t d a cs) \<Longrightarrow> c \<in> set cs \<Longrightarrow> void_images c"
  by (auto simp: void_images_def list_all_iff)

lemma deleter_flags:
  "deleter until n lvl found = (ns, found', seen) \<Longrightarrow> found' = (found \<or> seen) \<and> (seen \<longleftrightarrow> (\<exists>m\<in>set (nodes n). nd_data m = ''img''))"
  "deleters until cs lvl found = (ns, found', seen) \<Longrightarrow> found' = (found \<or> seen) \<and> (seen \<longleftrightarrow> (\<exists>c\<in>set cs. \<exists>m\<in>set (nodes c). nd_data m = ''img''))"
proof (induction until n lvl found and until cs lvl found arbitrary: ns found' seen and ns found' seen rule: deleter_deleters.induct)
  case (1 until t d a cs lvl found)
  obtain cs' f s where r: "deleters until cs (lvl + 1) (found \<or> d = ''img'') = (cs', f, s)" by (rule prod_cases3)
  then have "found' = f" "seen = (s \<or> d = ''img'')" using 1(2) by (auto simp: Let_def)
  then show ?case using 1(1)[OF r] by auto
next
  case (3 until c cs lvl found)
  obtain c' f1 s1 where r1: "deleter until c lvl found = (c', f1, s1)" by (rule prod_cases3)
  obtain cs' f2 s2 where r2: "deleters until cs lvl f1 = (cs', f2, s2)" by (rule prod_cases3)
  have "found' = f2" "seen = (s1 \<or> s2)" using 3(3) r1 r2 by auto
  then show ?case using 3(1)[OF r1] 3(2)[OF refl r1[symmetric] refl r2] by auto
qed simp

abbreviation texts_of :: "node list \<Rightarrow> string list" where
  "texts_of ns \<equiv> concat (map texts ns)"

text \<open>The texts other than the word img, which the closure takes for an image.\<close>

definition said :: "node \<Rightarrow> string list" where
  "said n = filter (\<lambda>s. s \<noteq> ''img'') (texts n)"

abbreviation said_of :: "node list \<Rightarrow> string list" where
  "said_of ns \<equiv> concat (map said ns)"

lemma said_Node: "said (Node t d a cs) = (if t = TextNode \<and> d \<noteq> ''img'' then [d] else []) @ said_of cs"
  by (simp add: said_def[abs_def] filter_concat o_def)

lemma said_of_texts: "said_of ns = filter (\<lambda>s. s \<noteq> ''img'') (texts_of ns)"
  by (simp add: said_def[abs_def] filter_concat o_def)

definition splits :: "bool \<Rightarrow> bool \<Rightarrow> string list \<Rightarrow> string list \<Rightarrow> string list \<Rightarrow> bool" where
  "splits found seen before_img after_img all_texts \<longleftrightarrow>
     (if found then before_img = [] \<and> after_img = all_texts
      else before_img @ after_img = all_texts \<and> (\<not> seen \<longrightarrow> after_img = []))"

lemma splits_append:
  "splits found s1 b1 a1 t1 \<Longrightarrow> splits (found \<or> s1) s2 b2 a2 t2 \<Longrightarrow> splits found (s1 \<or> s2) (b1 @ b2) (a1 @ a2) (t1 @ t2)"
  by (auto simp: splits_def split: if_splits)

lemma splits_keep: "splits found s b a t \<Longrightarrow> splits found s (if found \<and> \<not> s then [] else b) (if \<not> found \<and> \<not> s then [] else a) t"
  by (auto simp: splits_def)

definition split_ok :: "node \<Rightarrow> bool" where
  "split_ok n \<longleftrightarrow> (\<forall>lvl found ns f seen ns' f' seen'. lvl > 0 \<longrightarrow> deleter True n lvl found = (ns, f, seen) \<longrightarrow>
     deleter False n lvl found = (ns', f', seen') \<longrightarrow> splits found seen (said_of ns) (said_of ns') (said n))"

lemma deleters_splits:
  "(\<And>c. c \<in> set cs \<Longrightarrow> split_ok c) \<Longrightarrow> lvl > 0 \<Longrightarrow> deleters True cs lvl found = (ns, f, seen) \<Longrightarrow>
    deleters False cs lvl found = (ns', f', seen') \<Longrightarrow> splits found seen (said_of ns) (said_of ns') (said_of cs)"
proof (induction cs arbitrary: found ns f seen ns' f' seen')
  case (Cons c cs)
  obtain n1 f1 s1 where t1: "deleter True c lvl found = (n1, f1, s1)" by (rule prod_cases3)
  obtain n2 f2 s2 where t2: "deleters True cs lvl f1 = (n2, f2, s2)" by (rule prod_cases3)
  obtain m1 g1 u1 where g1: "deleter False c lvl found = (m1, g1, u1)" by (rule prod_cases3)
  obtain m2 g2 u2 where g2: "deleters False cs lvl g1 = (m2, g2, u2)" by (rule prod_cases3)
  have eq: "g1 = f1" "f1 = (found \<or> s1)" using deleter_flags(1)[OF t1] deleter_flags(1)[OF g1] by auto
  have "splits found s1 (said_of n1) (said_of m1) (said c)"
    using Cons.prems(1)[of c] Cons.prems(2) t1 g1 unfolding split_ok_def by auto
  moreover have "splits (found \<or> s1) s2 (said_of n2) (said_of m2) (said_of cs)"
    using Cons.IH[OF _ Cons.prems(2), of f1 n2 f2 s2 m2 g2 u2] Cons.prems(1) t2 g2 unfolding eq by simp
  moreover have "ns = n1 @ n2" "ns' = m1 @ m2" "seen = (s1 \<or> s2)" using Cons.prems(3,4) t1 t2 g1 g2 by auto
  ultimately show ?case using splits_append by simp
qed (simp add: splits_def)

lemma deleter_splits: "void_images n \<Longrightarrow> split_ok n"
proof (induction n)
  case (Node t d a cs)
  show ?case unfolding split_ok_def
  proof (intro allI impI)
    fix lvl :: nat and found ns f seen ns' f' seen'
    assume lvl: "lvl > 0" and t: "deleter True (Node t d a cs) lvl found = (ns, f, seen)"
      and g: "deleter False (Node t d a cs) lvl found = (ns', f', seen')"
    obtain n1 f1 s1 where t1: "deleters True cs (lvl + 1) (found \<or> d = ''img'') = (n1, f1, s1)" by (rule prod_cases3)
    obtain m1 g1 u1 where g1: "deleters False cs (lvl + 1) (found \<or> d = ''img'') = (m1, g1, u1)" by (rule prod_cases3)
    have eq: "g1 = f1" "u1 = s1" "f1 = ((found \<or> d = ''img'') \<or> s1)" using deleter_flags(2)[OF t1] deleter_flags(2)[OF g1] by auto
    have c: "splits (found \<or> d = ''img'') s1 (said_of n1) (said_of m1) (said_of cs)"
      using Node.IH void_images_child[OF Node.prems] by (intro deleters_splits[OF _ _ t1 g1]) auto
    have ns: "ns = (if delete_node True lvl d f1 s1 then [] else [Node t d a n1])"
      "ns' = (if delete_node False lvl d f1 s1 then [] else [Node t d a m1])" "seen = (s1 \<or> d = ''img'')"
      using t g unfolding deleter.simps t1 g1 eq(1,2) Let_def prod.case prod.inject by blast+
    have leaf: "t = TextNode \<longrightarrow> cs = [] \<and> n1 = [] \<and> m1 = [] \<and> \<not> s1"
      using Node.prems t1 g1 by (auto simp: void_images_def)
    show "splits found seen (said_of ns) (said_of ns') (said (Node t d a cs))"
    proof (cases "d = ''img''")
      case True
      then have "said (Node t d a cs) = []" using Node.prems by (auto simp: void_images_def said_Node)
      then show ?thesis using True lvl by (simp add: ns delete_node_def splits_def)
    next
      case img: False
      show ?thesis
      proof (cases "t = TextNode")
        case True
        then show ?thesis using leaf img lvl eq(3) by (simp add: ns delete_node_def splits_def said_Node)
      next
        case False
        then have tx: "said (Node t d a cs) = said_of cs" "said (Node t d a n1) = said_of n1" "said (Node t d a m1) = said_of m1"
          by (simp_all add: said_Node)
        have "said_of ns = (if found \<and> \<not> s1 then [] else said_of n1)" "said_of ns' = (if \<not> found \<and> \<not> s1 then [] else said_of m1)"
          using img lvl eq(3) tx by (auto simp: ns delete_node_def)
        moreover have "splits found s1 (said_of n1) (said_of m1) (said_of cs)" using c img by simp
        ultimately show ?thesis using splits_keep img unfolding tx ns(3) by simp
      qed
    qed
  qed
qed

lemma searchImg_Some:
  "searchImg n lvl = Some (img, l) \<Longrightarrow> img \<in> set (nodes n) \<and> nd_type img = ElementNode \<and> nd_data img = ''img'' \<and> lvl \<le> l \<and> (l = lvl \<longrightarrow> img = n)"
  "searchImgs cs lvl = Some (img, l) \<Longrightarrow> (\<exists>c\<in>set cs. img \<in> set (nodes c)) \<and> nd_type img = ElementNode \<and> nd_data img = ''img'' \<and> lvl \<le> l \<and>
     (l = lvl \<longrightarrow> img \<in> set cs)"
proof (induction n lvl and cs lvl rule: searchImg_searchImgs.induct)
  case (1 t d a cs lvl)
  then show ?case by (cases "t = ElementNode \<and> d = ''img''") auto
next
  case (3 c cs lvl)
  then show ?case by (cases "searchImg c lvl") auto
qed simp

lemma searchImg_None:
  "searchImg n lvl = None \<longleftrightarrow> (\<forall>m\<in>set (nodes n). \<not> (nd_type m = ElementNode \<and> nd_data m = ''img''))"
  "searchImgs cs lvl = None \<longleftrightarrow> (\<forall>c\<in>set cs. \<forall>m\<in>set (nodes c). \<not> (nd_type m = ElementNode \<and> nd_data m = ''img''))"
proof (induction n lvl and cs lvl rule: searchImg_searchImgs.induct)
  case (3 c cs lvl)
  then show ?case by (cases "searchImg c lvl") auto
qed auto

lemma CloneNodeWithSubtree_same: "CloneNodeWithSubtree n = n"
  by (induction n) (simp add: map_idI)

lemma deleter_root: "d \<noteq> ''img'' \<Longrightarrow> fst (deleter until (Node t d a cs) 0 False) = [Node t d a (fst (deleters until cs 1 False))]"
  by (cases "deleters until cs 1 False") (simp add: delete_node_def)

text \<open>What is left of a tree behind the closure.\<close>

definition leafy :: "node \<Rightarrow> bool" where
  "leafy n \<longleftrightarrow> (\<forall>m\<in>set (nodes n). nd_type m = TextNode \<longrightarrow> nd_children m = [])"

lemma deleter_no_img:
  "lvl > 0 \<Longrightarrow> leafy n \<Longrightarrow> x \<in> set (fst (deleter until n lvl found)) \<Longrightarrow> leafy x \<and> (\<forall>m\<in>set (nodes x). nd_data m \<noteq> ''img'')"
  "lvl > 0 \<Longrightarrow> \<forall>c\<in>set cs. leafy c \<Longrightarrow> x \<in> set (fst (deleters until cs lvl found)) \<Longrightarrow> leafy x \<and> (\<forall>m\<in>set (nodes x). nd_data m \<noteq> ''img'')"
proof (induction until n lvl found and until cs lvl found arbitrary: x and x rule: deleter_deleters.induct)
  case (1 until t d a cs lvl found)
  obtain cs' f s where r: "deleters until cs (lvl + 1) (found \<or> d = ''img'') = (cs', f, s)" by (rule prod_cases3)
  then have x: "x = Node t d a cs'" "d \<noteq> ''img''" using 1(4) 1(2) by (auto simp: delete_node_def split: if_splits)
  have "\<forall>c\<in>set cs. leafy c" using 1(3) by (auto simp: leafy_def)
  then have c: "leafy y \<and> (\<forall>m\<in>set (nodes y). nd_data m \<noteq> ''img'')" if "y \<in> set cs'" for y using 1(1)[of y] r that by simp
  have "t = TextNode \<longrightarrow> cs' = []" using 1(3) r by (auto simp: leafy_def)
  then show ?case using c x by (auto simp: leafy_def)
next
  case (3 until c cs lvl found)
  obtain c' f1 s1 where r1: "deleter until c lvl found = (c', f1, s1)" by (rule prod_cases3)
  obtain cs' f2 s2 where r2: "deleters until cs lvl f1 = (cs', f2, s2)" by (rule prod_cases3)
  have "x \<in> set c' \<or> x \<in> set cs'" using 3(5) r1 r2 by auto
  then show ?case
  proof
    assume "x \<in> set c'"
    then show ?thesis using 3(1)[of x] 3(3,4) r1 by simp
  next
    assume "x \<in> set cs'"
    then show ?thesis using 3(2)[OF refl r1[symmetric] refl, of x] 3(3,4) r2 by simp
  qed
qed simp

definition clean :: "node \<Rightarrow> bool" where
  "clean n \<longleftrightarrow> (\<forall>m\<in>set (nodes n). nd_type m = ElementNode \<and> nd_data m = ''a'' \<longrightarrow> searchImg m 0 = None)"

lemma nodes_trans: "m \<in> set (nodes n) \<Longrightarrow> k \<in> set (nodes m) \<Longrightarrow> k \<in> set (nodes n)"
  by (induction n) auto

lemma no_img_clean: "\<forall>m\<in>set (nodes n). nd_data m \<noteq> ''img'' \<Longrightarrow> clean n"
  unfolding clean_def searchImg_None(1) using nodes_trans by blast

lemma void_images_leafy: "void_images n \<Longrightarrow> leafy n"
  by (auto simp: void_images_def leafy_def list_all_iff)

lemma no_img_void: "leafy n \<Longrightarrow> \<forall>m\<in>set (nodes n). nd_data m \<noteq> ''img'' \<Longrightarrow> void_images n"
  by (auto simp: void_images_def leafy_def list_all_iff)

definition fine :: "node \<Rightarrow> bool" where
  "fine n \<longleftrightarrow> void_images n \<and> clean n"

lemma no_img_fine: "leafy n \<Longrightarrow> \<forall>m\<in>set (nodes n). nd_data m \<noteq> ''img'' \<Longrightarrow> fine n"
  unfolding fine_def using no_img_void no_img_clean by blast

lemma fine_Node: "fine (Node t d a cs) \<longleftrightarrow> (\<forall>c\<in>set cs. fine c) \<and> (t = TextNode \<longrightarrow> cs = []) \<and> (d = ''img'' \<longrightarrow> cs = []) \<and>
    (t = ElementNode \<and> d = ''a'' \<longrightarrow> (\<forall>c\<in>set cs. \<forall>m\<in>set (nodes c). \<not> (nd_type m = ElementNode \<and> nd_data m = ''img'')))"
  unfolding fine_def void_images_def clean_def list_all_iff searchImg_None(1) by auto

lemma fine_below: "fine n \<Longrightarrow> m \<in> set (nodes n) \<Longrightarrow> fine m"
proof (induction n)
  case (Node t d a cs)
  consider "m = Node t d a cs" | c where "c \<in> set cs" "m \<in> set (nodes c)" using Node.prems(2) by auto
  then show ?case
  proof cases
    case 2
    have "fine c" using Node.prems(1) 2(1) fine_Node[of t d a cs] by blast
    then show ?thesis using Node.IH 2 by blast
  next
    case 1
    then show ?thesis using Node.prems(1) by (simp only:)
  qed
qed

lemma fine_leafy: "fine n \<Longrightarrow> leafy n"
  unfolding fine_def using void_images_leafy by blast

lemma was_img_not_img: "was_img s \<noteq> ''img''"
  by (auto simp: was_img_def)

lemma break_anchor_fine:
  assumes "n = Node ElementNode ''a'' a cs" "\<forall>c\<in>set cs. fine c"
  shows "(\<forall>x\<in>set (break_anchor b n). fine x) \<and> subseq (said n) (said_of (break_anchor b n))"
proof (cases "searchImg n 0")
  case None
  then have "fine n" using assms(2) unfolding assms(1) fine_Node searchImg_None(1) by auto
  then show ?thesis using None by (simp add: break_anchor_def)
next
  case (Some r)
  obtain img lvl where r: "r = (img, lvl)" by fastforce
  then have "searchImgs cs 1 = Some (img, lvl)" using Some by (simp add: assms(1))
  from searchImg_Some(2)[OF this]
  have i: "\<exists>c\<in>set cs. img \<in> set (nodes c)" "nd_data img = ''img''" "lvl = 1 \<longrightarrow> img \<in> set cs" by simp_all
  have fi: "fine img" using i(1) assms(2) fine_below by blast
  then have ti: "said img = []" using i(2) fine_Node by (cases img) (simp add: said_Node)
  have lf: "\<forall>c\<in>set cs. leafy c" using assms(2) fine_leafy by blast
  show ?thesis
  proof (cases "lvl = 1 \<and> length (nd_children n) = 1")
    case True
    then have cs: "cs = [img]" using i(3) by (cases cs) (auto simp: assms(1))
    have "fine (Node ElementNode ''a'' a [Nd_text (was_img (b (attrX a ''href'')))])"
      by (intro no_img_fine) (auto simp: leafy_def Nd_text_def was_img_not_img)
    then show ?thesis using Some r True fi ti by (simp add: break_anchor_def assms(1) cs said_Node)
  next
    case False
    let ?n1 = "Node ElementNode ''a'' a (fst (deleters True cs 1 False))"
    let ?a1 = "Node ElementNode ''a'' a (fst (deleters False cs 1 False))"
    let ?img = "Node (nd_type img) (nd_data img) (nd_attr img) (fst (deleters True (nd_children img) (lvl + 1) True))"
    have b: "break_anchor b n = [?n1, ?img, ?a1]" unfolding break_anchor_def Some r using False deleter_root[of "''a''"]
      by (simp add: assms(1) CloneNodeWithSubtree_same)
    have kept: "leafy x \<and> (\<forall>m\<in>set (nodes x). nd_data m \<noteq> ''img'')" if "x \<in> set (fst (deleters u cs 1 False))" for u x
      using deleter_no_img(2)[OF _ lf that] by simp
    have "leafy (Node ElementNode ''a'' a (fst (deleters u cs 1 False))) \<and>
        (\<forall>m\<in>set (nodes (Node ElementNode ''a'' a (fst (deleters u cs 1 False)))). nd_data m \<noteq> ''img'')" for u
      using kept[of _ u] by (auto simp: leafy_def)
    then have f: "fine ?n1" "fine ?a1" by (intro no_img_fine; blast)+
    have "nd_children img = []" using fi i(2) fine_Node by (cases img) simp
    then have im: "?img = img" by (cases img) simp
    obtain ns1 q1 s1 where e1: "deleters True cs (Suc 0) False = (ns1, q1, s1)" by (rule prod_cases3)
    obtain ns2 q2 s2 where e2: "deleters False cs (Suc 0) False = (ns2, q2, s2)" by (rule prod_cases3)
    have "split_ok c" if "c \<in> set cs" for c using assms(2) that deleter_splits unfolding fine_def by blast
    from deleters_splits[OF this _ e1 e2] have "said_of ns1 @ said_of ns2 = said_of cs" by (simp add: splits_def)
    then have "said_of (break_anchor b n) = said n" unfolding b im using ti by (simp add: assms(1) e1 e2 said_Node)
    then show ?thesis using f fi unfolding b im by simp
  qed
qed

lemma subseq_concat: "list_all2 subseq xss yss \<Longrightarrow> subseq (concat xss) (concat yss)"
  by (induction rule: list_all2_induct) (simp_all add: list_emb_append_mono)

lemma breakout_fine: "void_images n \<Longrightarrow> (\<forall>x\<in>set (breakout b n). fine x) \<and> subseq (said n) (said_of (breakout b n))"
proof (induction n)
  case (Node t d a cs)
  note IH = Node.IH[OF _ void_images_child[OF Node.prems]]
  let ?cs = "concat (map (breakout b) cs)"
  have f: "\<forall>c\<in>set ?cs. fine c" using IH by auto
  have "list_all2 subseq (map said cs) (map (said_of \<circ> breakout b) cs)" using IH by (auto simp: list_all2_conv_all_nth)
  then have s: "subseq (said_of cs) (said_of ?cs)" using subseq_concat[of "map said cs"] by (simp add: concat_map_concat comp_def)
  show ?case
  proof (cases "t = ElementNode \<and> d = ''a''")
    case True
    then have "breakout b (Node t d a cs) = break_anchor b (Node ElementNode ''a'' a ?cs)" by simp
    then show ?thesis using break_anchor_fine[where a = a and b = b, OF refl f] s True subseq_order.order_trans[of "said_of cs" "said_of ?cs"] by (simp add: said_Node)
  next
    case False
    then have r: "breakout b (Node t d a cs) = [Node t d a ?cs]" by auto
    have "t = TextNode \<or> d = ''img'' \<longrightarrow> cs = []" using Node.prems by (auto simp: void_images_def)
    then have "fine (Node t d a ?cs)" using f False unfolding fine_Node by auto
    moreover have "subseq (said (Node t d a cs)) (said (Node t d a ?cs))" using s by (simp add: said_Node)
    ultimately show ?thesis unfolding r by simp
  qed
qed

text \<open>Walking the results again changes nothing, so it does not matter that the code walks the nodes it has just inserted.\<close>

lemma breakout_again: "clean n \<Longrightarrow> breakout b n = [n]"
proof (induction n)
  case (Node t d a cs)
  have c: "clean c" if "c \<in> set cs" for c using Node.prems that unfolding clean_def by auto
  have "concat (map (breakout b) cs) = concat (map (\<lambda>c. [c]) cs)"
    by (rule arg_cong[where f = concat], rule map_cong, rule refl, rule Node.IH, assumption, rule c)
  then have cs: "concat (map (breakout b) cs) = cs" by (simp only: concat_map_singleton map_ident)
  have "t = ElementNode \<and> d = ''a'' \<longrightarrow> searchImg (Node t d a cs) 0 = None" using Node.prems by (simp add: clean_def)
  then show ?case by (auto simp: cs Let_def break_anchor_def)
qed

subsection \<open>Rewriting links\<close>

lemma attrX_map: "(\<And>b. Key (f b) = Key b) \<Longrightarrow> (\<And>b. Key b = k \<Longrightarrow> Val (f b) = Val b) \<Longrightarrow> attrX (map f a) k = attrX a k"
  by (induction a) auto

lemma cfrom_kept: "attrX (attrsAbsoluteAndProxified l a p r) ''cfrom'' = attrX a ''cfrom''"
  unfolding attrsAbsoluteAndProxified_def by (rule attrX_map) (simp_all add: proxify_attr_def Let_def)

lemma href_proxied:
  assumes "b \<in> set (attrsAbsoluteAndProxified l a p r)" "Key b = ''href''" "attrX a ''cfrom'' \<noteq> ''img''"
  shows "\<exists>u. Val b = server l p @ ''/prox?url-x='' @ u \<and> (\<exists>b'\<in>set a. Key b' = ''href'' \<and> u = absolutize ''https'' r (Val b'))"
proof -
  obtain b' where b': "b' \<in> set a" "b = proxify_attr l p r a b'" using assms(1) unfolding attrsAbsoluteAndProxified_def by auto
  then have "Key b' = ''href''" using assms(2) by (simp add: proxify_attr_def Let_def)
  then have "Val b = server l p @ ''/prox?url-x='' @ absolutize ''https'' r (Val b')"
    using assms(3) b'(2) by (simp add: proxify_attr_def Let_def ProxifyURI_def URLParamKey_def)
  then show ?thesis using b'(1) \<open>Key b' = ''href''\<close> by blast
qed

lemma action_redirected:
  assumes "b \<in> set (attrsAbsoluteAndProxified l a p r)" "Key b = ''action''"
  shows "Val b = server l p @ ''/blob2/form-redirector''"
proof -
  obtain b' where b': "b' \<in> set a" "b = proxify_attr l p r a b'" using assms(1) unfolding attrsAbsoluteAndProxified_def by auto
  then have "Key b' = ''action''" using assms(2) by (simp add: proxify_attr_def Let_def)
  then show ?thesis using b'(2) by (simp add: proxify_attr_def Let_def FormRedirector_def)
qed

definition link_ok :: "bool \<Rightarrow> string \<Rightarrow> node \<Rightarrow> bool" where
  "link_ok l p m \<longleftrightarrow>
     (nd_type m = ElementNode \<and> nd_data m = ''a'' \<and> attrX (nd_attr m) ''cfrom'' \<noteq> ''img'' \<longrightarrow>
        list_all (\<lambda>b. Key b = ''href'' \<longrightarrow> HasPrefix (Val b) (server l p @ ''/prox?url-x='')) (nd_attr m)) \<and>
     (nd_type m = ElementNode \<and> nd_data m = ''form'' \<longrightarrow>
        list_all (\<lambda>b. Key b = ''action'' \<longrightarrow> Val b = server l p @ ''/blob2/form-redirector'') (nd_attr m))"

lemma nodes_all: "(\<forall>m\<in>set (nodes (Node t d a cs)). P m) \<longleftrightarrow> P (Node t d a cs) \<and> (\<forall>c\<in>set cs. \<forall>m\<in>set (nodes c). P m)"
  by auto

lemma proxify_facts: "texts (proxify l p r n) = texts n \<and> (\<forall>m\<in>set (nodes (proxify l p r n)). link_ok l p m)"
proof (induction n)
  case (Node t d a cs)
  have fields: "texts (redirect_field a) = []" "texts submit_field = []"
    "\<forall>m\<in>set (nodes (redirect_field a)). link_ok l p m" "\<forall>m\<in>set (nodes submit_field). link_ok l p m"
    by (simp_all add: redirect_field_def submit_field_def link_ok_def)
  have tx: "texts_of (map (proxify l p r) cs) = texts_of cs"
    using Node by (simp only: map_map comp_def) (intro arg_cong[of _ _ concat] map_cong refl, blast)
  have ok: "\<forall>c\<in>set (map (proxify l p r) cs). \<forall>m\<in>set (nodes c). link_ok l p m" using Node by simp
  consider (form) "t = ElementNode" "d = ''form''" | (link) "t = ElementNode" "d = ''a''" | (other) "\<not> (t = ElementNode \<and> (d = ''form'' \<or> d = ''a''))" by blast
  then show ?case
  proof cases
    case form
    let ?a = "attrsAbsoluteAndProxified l (attrSet (attrSet a ''method'' ''post'') ''was'' ''rewritten'') p r"
    have "link_ok l p (Node t d ?a cs')" for cs' using form action_redirected by (auto simp: link_ok_def list_all_iff)
    moreover have "proxify l p r (Node t d a cs) = Node t d ?a (map (proxify l p r) cs @ [redirect_field a, submit_field])" using form by simp
    moreover have "\<forall>c\<in>set (map (proxify l p r) cs @ [redirect_field a, submit_field]). \<forall>m\<in>set (nodes c). link_ok l p m"
      using ok fields(3,4) by (simp only: set_append ball_Un) simp
    moreover have "texts_of (map (proxify l p r) cs @ [redirect_field a, submit_field]) = texts_of cs"
      unfolding map_append concat_append tx by (simp add: fields(1,2))
    ultimately show ?thesis by (simp only: nodes_all texts.simps)
  next
    case link
    let ?a = "attrsAbsoluteAndProxified l a p r"
    have "HasPrefix (Val b) (server l p @ ''/prox?url-x='')" if b: "b \<in> set ?a" "Key b = ''href''" "attrX a ''cfrom'' \<noteq> ''img''" for b
    proof -
      obtain u where "Val b = (server l p @ ''/prox?url-x='') @ u" using href_proxied[OF b] by auto
      then show ?thesis by (simp only: HasPrefix_append)
    qed
    then have "link_ok l p (Node t d ?a cs')" for cs' using link cfrom_kept by (auto simp: link_ok_def list_all_iff)
    moreover have "proxify l p r (Node t d a cs) = Node t d ?a (map (proxify l p r) cs)" using link by simp
    ultimately show ?thesis using tx ok by (simp only: nodes_all texts.simps)
  next
    case other
    then have "link_ok l p (Node t d a' cs')" for a' cs' by (auto simp: link_ok_def)
    moreover obtain a' where "proxify l p r (Node t d a cs) = Node t d a' (map (proxify l p r) cs)" using other by (cases "t = ElementNode \<and> d = ''img''") (auto simp: Let_def)
    ultimately show ?thesis using tx ok by (simp only: nodes_all texts.simps)
  qed
qed

subsection \<open>Properties\<close>

text \<open>C39: On a page as the parser gives it, where texts and images are leaves, breaking images out of links keeps every text in order,
  except texts that are the word img (they are taken for images), leaves no image inside a link, and walking the nodes it inserts, as
  the code does, changes nothing.\<close>

theorem breakout_images:
  assumes "void_images n"
  shows "subseq (filter (\<lambda>s. s \<noteq> ''img'') (texts n)) (concat (map texts (breakout beautify n))) \<and>
    (\<forall>x\<in>set (breakout beautify n). breakout beautify x = [x] \<and>
       (\<forall>m\<in>set (nodes x). nd_type m = ElementNode \<and> nd_data m = ''a'' \<longrightarrow> searchImg m 0 = None))"
proof -
  have f: "\<forall>x\<in>set (breakout beautify n). fine x" "subseq (said n) (said_of (breakout beautify n))"
    using breakout_fine[OF assms, of beautify] by blast+
  have "subseq (said_of (breakout beautify n)) (concat (map texts (breakout beautify n)))"
    unfolding said_of_texts by (rule subseq_filter_left)
  then show ?thesis
    using f breakout_again subseq_order.order_trans[OF f(2)] unfolding fine_def clean_def said_def by blast
qed

definition image_page :: node where
  "image_page = Node ElementNode ''p'' [] [Node ElementNode ''a'' [\<lparr>Key = ''href'', Val = ''/x''\<rparr>]
     [Nd_text ''before'', Node ElementNode ''span'' [] [Node ElementNode ''img'' [\<lparr>Key = ''src'', Val = ''/1''\<rparr>] [], Nd_text ''between''],
      Node ElementNode ''img'' [\<lparr>Key = ''src'', Val = ''/2''\<rparr>] [], Nd_text ''after'']]"

lemma breakout_images_witness:
  "subseq (texts image_page) (concat (map texts (breakout (urlBeautify (\<lambda>u. Some (u, []))) image_page))) \<and>
    list_all (\<lambda>x. breakout (urlBeautify (\<lambda>u. Some (u, []))) x = [x] \<and>
       list_all (\<lambda>m. nd_type m = ElementNode \<and> nd_data m = ''a'' \<longrightarrow> searchImg m 0 = None) (nodes x))
     (breakout (urlBeautify (\<lambda>u. Some (u, []))) image_page)"
proof -
  have "void_images image_page" "filter (\<lambda>s. s \<noteq> ''img'') (texts image_page) = texts image_page" by code_simp+
  then show ?thesis unfolding list_all_iff using breakout_images[of image_page "urlBeautify (\<lambda>u. Some (u, []))"] by simp
qed

text \<open>A text that is the word img is deleted from a link with an image.\<close>

lemma img_text_lost:
  "concat (map texts (breakout id (Node ElementNode ''a'' [] [Nd_text ''before'', Nd_text ''img'', Nd_text ''after'',
     Node ElementNode ''img'' [] []]))) = [''before'', ''after'']"
  by code_simp

text \<open>Of several images in one link only the first survives: both halves are rid of every other one.\<close>

lemma second_image_lost:
  "map (\<lambda>m. attrX (nd_attr m) ''src'') (filter (\<lambda>m. nd_data m = ''img'') (concat (map nodes (breakout id image_page)))) = [''/1'']"
  by code_simp

text \<open>Rewriting for the proxy changes no text; afterwards every link that was no image leads through the proxy and every form to its
  redirector.\<close>

theorem proxify_links:
  "texts (proxify isLocal proxyHostPort remoteHost n) = texts n \<and>
   (\<forall>m\<in>set (nodes (proxify isLocal proxyHostPort remoteHost n)). link_ok isLocal proxyHostPort m)"
  by (rule proxify_facts)

definition form_page :: node where
  "form_page = Node ElementNode ''form'' [\<lparr>Key = ''action'', Val = ''/search''\<rparr>]
     [Node ElementNode ''a'' [\<lparr>Key = ''href'', Val = ''/news''\<rparr>] [Nd_text ''News'']]"

lemma proxify_links_witness:
  "texts (proxify False ''p.com'' ''r.com'' form_page) = texts form_page \<and>
   list_all (link_ok False ''p.com'') (nodes (proxify False ''p.com'' ''r.com'' form_page))"
  unfolding list_all_iff by (rule proxify_links)

lemma form_page_link: "map (\<lambda>m. attrX (nd_attr m) ''href'') (nd_children (proxify False ''p.com'' ''r.com'' form_page)) =
    [''https://p.com/prox?url-x=https://r.com/news'', [], []]"
  by code_simp

text \<open>The field that tells the redirector where to go keeps a relative address: the loop that is to make it absolute works on copies,
  and is reached for links, images and forms only.\<close>

lemma redirect_stays_relative:
  "attrX (nd_attr (nd_children (proxify False ''p.com'' ''r.com'' form_page) ! 1)) ''value'' = ''/search''"
  by code_simp

end
