(* ===== verification/DomOutline.thy ===== *)
theory DomOutline
  imports Dom "HOL-Library.Multiset"
begin

section \<open>Numbering a document and reading its texts (net/http/domclean2 and dedup)\<close>

text \<open>
  At its end \<^verbatim>\<open>DomClean\<close> indents the page, numbers its elements like the sections of a book and logs their paths;
  package \<^verbatim>\<open>dedup\<close> collects the text of every numbered element into the trees that theory \<open>Dedup\<close>
  compares, and blanks the duplicates out.

  \<^item> The nodes are those of theory \<open>Dom\<close>; a function that walks the siblings of a node has a twin for the list of them.
    The slice of the outline and the list of trees are passed along and returned, as in the code.
  \<^item> A node that \<^verbatim>\<open>reIndent\<close> inserts before or behind the walked one is not walked itself, the code has already
    taken the next sibling.
  \<^item> Numbers are formatted by \<open>fmt_int\<close> of the prelude. The histogram of the element names is left out.
\<close>

definition cScaffoldLvls :: nat where "cScaffoldLvls = 2"

subsection \<open>09\_outline\_and\_id.go\<close>

definition bump_last :: "int list \<Rightarrow> int list option" where
  "bump_last outline = (if outline = [] then None else Some (butlast outline @ [last outline + 1]))"

definition drop_last :: "int list \<Rightarrow> int list option" where
  "drop_last outline = slice_sub outline 0 (int (length outline) - 1)"

definition outline_string :: "int list \<Rightarrow> string" where
  "outline_string outline =
     (let s = concat (map (\<lambda>v. fmt_int v @ ''.'') outline)
      in if HasSuffix s ''.'' then take (length s - 1) s else s)"

fun addOutlineAttr :: "nat \<Rightarrow> int list \<Rightarrow> node \<Rightarrow> (node \<times> int list) option"
  and addOutlineAttrs :: "nat \<Rightarrow> int list \<Rightarrow> node list \<Rightarrow> (node list \<times> int list) option" where
  "addOutlineAttr lvl outline (Node t d a cs) =
     (if t = ElementNode \<and> lvl > cScaffoldLvls then do {
        outline1 \<leftarrow> bump_last outline;
        (cs', outline2) \<leftarrow> addOutlineAttrs (lvl + 1) (outline1 @ [0]) cs;
        outline3 \<leftarrow> drop_last outline2;
        Some (Node t d (\<lparr>Key = ''ol'', Val = outline_string outline1\<rparr> # a) cs', outline3)
      } else do {
        (cs', outline2) \<leftarrow> addOutlineAttrs (lvl + 1) outline cs;
        Some (Node t d a cs', outline2)
      })"
| "addOutlineAttrs lvl outline [] = Some ([], outline)"
| "addOutlineAttrs lvl outline (c # cs) = do {
     (c', outline1) \<leftarrow> addOutlineAttr lvl outline c;
     (cs', outline2) \<leftarrow> addOutlineAttrs lvl outline1 cs;
     Some (c' # cs', outline2)
   }"

fun addIdAttr :: "nat \<Rightarrow> int \<Rightarrow> node \<Rightarrow> node \<times> int" and addIdAttrs :: "nat \<Rightarrow> int \<Rightarrow> node list \<Rightarrow> node list \<times> int" where
  "addIdAttr lvl num (Node t d a cs) =
     (let a' = (if lvl > cScaffoldLvls \<and> t = ElementNode then \<lparr>Key = ''id'', Val = fmt_int num\<rparr> # a else a);
          (cs', num') = addIdAttrs (lvl + 1) num cs
      in (Node t d a' cs', num'))"
| "addIdAttrs lvl num [] = ([], num)"
| "addIdAttrs lvl num (c # cs) =
     (let (c', num1) = addIdAttr lvl (num + 1) c;
          (cs', num2) = addIdAttrs lvl num1 cs
      in (c' # cs', num2))"

subsection \<open>09\_reformat\_indent.go\<close>

definition indentation :: "nat \<Rightarrow> string" where
  "indentation lvl = replicate (lvl - 2) (CHR 0x09)"

definition reIndent_text :: "string option \<Rightarrow> string \<Rightarrow> string" where
  "reIndent_text parent d =
     (let d1 = TrimSpace d @ '' '';
          d2 = (if \<not> HasPrefix d1 '','' \<and> \<not> HasPrefix d1 ''.'' then '' '' @ d1 else d1)
      in if parent = Some ''a'' then TrimSpace d2 else d2)"

text \<open>The parent is given by its type and data. The result are the nodes that stand in the place of the walked one.\<close>

fun reIndent :: "(node_type \<times> string) option \<Rightarrow> nat \<Rightarrow> node \<Rightarrow> node list" where
  "reIndent parent lvl (Node t d a cs) =
     (if lvl > cScaffoldLvls \<and> parent = None then [Node t d a cs]
      else
        let inner = (t = ElementNode \<and> lvl > cScaffoldLvls \<and> map_option fst parent = Some ElementNode);
            pre = (if inner then [Nd_text (CHR 0x0A # indentation lvl)]
                   else if t = CommentNode \<and> parent \<noteq> None then [Nd_text [CHR 0x0A]] else []);
            d' = (if t = TextNode then reIndent_text (map_option snd parent) d else d);
            cs' = concat (map (reIndent (Some (t, d')) (lvl + 1)) cs);
            post = (if inner \<and> cs' \<noteq> [] then [Nd_text (if d' = ''a'' then [] else CHR 0x0A # indentation lvl)] else [])
        in pre @ [Node t d' a (cs' @ post)])"

subsection \<open>xpath\_and\_node\_histogr.go\<close>

definition xPathSkip :: "string list" where
  "xPathSkip = [''em'', ''b'', ''br'']"

definition xpath_line :: "stack \<Rightarrow> string" where
  "xpath_line xPath = pad_left 2 (fmt_int (Len_s xPath)) @ '': '' @ StringExt xPath False @ [CHR 0x0A]"

definition logged :: "node_type \<Rightarrow> string \<Rightarrow> bool" where
  "logged t d \<longleftrightarrow> t = ElementNode \<and> d \<notin> set xPathSkip"

definition xpath_enter :: "node_type \<Rightarrow> string \<Rightarrow> nat \<Rightarrow> stack \<times> string \<Rightarrow> stack \<times> string" where
  "xpath_enter t d lvl st =
     (let xPathDump = (if lvl = 0 then [] else snd st)
      in if logged t d then let xPath = Push_s (fst st) d in (xPath, xPathDump @ xpath_line xPath) else (fst st, xPathDump))"

definition xpath_leave :: "node_type \<Rightarrow> string \<Rightarrow> stack \<times> string \<Rightarrow> (stack \<times> string) option" where
  "xpath_leave t d st = (if logged t d then do { (top, xPath) \<leftarrow> Pop_s (fst st); Some (xPath, snd st) } else Some st)"

fun computeXPathStack :: "node \<Rightarrow> nat \<Rightarrow> stack \<times> string \<Rightarrow> (stack \<times> string) option"
  and computeXPathStacks :: "node list \<Rightarrow> nat \<Rightarrow> stack \<times> string \<Rightarrow> (stack \<times> string) option" where
  "computeXPathStack (Node t d a cs) lvl st = do {
     st' \<leftarrow> computeXPathStacks cs (lvl + 1) (xpath_enter t d lvl st);
     xpath_leave t d st'
   }"
| "computeXPathStacks [] lvl st = Some st"
| "computeXPathStacks (c # cs) lvl st = do { st' \<leftarrow> computeXPathStack c lvl st; computeXPathStacks cs lvl st' }"

subsection \<open>dedup: 11\_textify\_with\_save.go and 6\_apply\_dedup.go\<close>

definition self_content :: "node_type \<Rightarrow> string \<Rightarrow> attribute list \<Rightarrow> string" where
  "self_content t d a =
     (if t = TextNode then (let cs = TrimSpace d in if cs \<noteq> [] then cs @ '' '' else cs)
      else if t = ElementNode
      then concat (map (\<lambda>v. let val = attrX a v in if val \<noteq> [] then val @ '' '' else []) [''alt'', ''title''])
      else [])"

definition tree_for :: "string \<Rightarrow> nat \<Rightarrow> attribute list \<Rightarrow> string \<Rightarrow> ttree" where
  "tree_for fnKey lvl a csCc =
     (let (compacted, histo, numTokens) = sortCompact csCc
      in \<lparr>SourceID = fnKey, Lvl = int lvl - int cScaffoldLvls, Outline = attrX a ''ol'', NumTokens = numTokens, Histo = histo,
          Text = compacted, Similars = [], SumAbsLevenshtein = 0, SumRelLevenshtein = 0\<rparr>)"

fun textExtract :: "string \<Rightarrow> nat \<Rightarrow> node \<Rightarrow> ttree list \<Rightarrow> string \<times> ttree list"
  and textExtract_children :: "string \<Rightarrow> nat \<Rightarrow> node list \<Rightarrow> string \<Rightarrow> ttree list \<Rightarrow> string \<times> ttree list" where
  "textExtract fnKey lvl (Node t d a cs) mp =
     (let self = self_content t d a;
          (cc, mp1) = textExtract_children fnKey (lvl + 1) cs [] mp;
          mp2 = (if lvl > cScaffoldLvls \<and> (self \<noteq> [] \<or> cc \<noteq> []) \<and> t \<noteq> TextNode
                 then mp1 @ [tree_for fnKey lvl a (self @ cc)] else mp1)
      in (self @ cc, mp2))"
| "textExtract_children fnKey lvl [] cc mp = (cc, mp)"
| "textExtract_children fnKey lvl (c # cs) cc mp =
     (let (cChX, mp1) = textExtract fnKey lvl c mp
      in textExtract_children fnKey lvl cs (if cChX \<noteq> [] then cc @ cChX @ '' '' else cc) mp1)"

definition BubbledUpTextExtraction :: "node \<Rightarrow> string \<Rightarrow> ttree list" where
  "BubbledUpTextExtraction n fnKey = snd (textExtract fnKey 0 n [])"

fun dedupApply :: "string set \<Rightarrow> node \<Rightarrow> node" where
  "dedupApply dedups (Node t d a cs) =
     (let cs' = map (dedupApply dedups) cs
      in if t = ElementNode \<and> attrX a ''ol'' @ ''.'' \<in> dedups then Node CommentNode (d @ '' replaced'') a cs' else Node t d a cs')"

subsection \<open>Numbers written and read\<close>

lemma digit_chars: "digit c \<longleftrightarrow> 48 \<le> (of_char c :: nat) \<and> (of_char c :: nat) \<le> 57"
proof
  assume "48 \<le> (of_char c :: nat) \<and> (of_char c :: nat) \<le> 57"
  moreover have "48 \<le> k \<and> k \<le> 57 \<Longrightarrow> k \<in> {48, 49, 50, 51, 52, 53, 54, 55, 56, 57}" for k :: nat
    unfolding insert_iff empty_iff by arith
  ultimately have "(of_char c :: nat) \<in> {48, 49, 50, 51, 52, 53, 54, 55, 56, 57}" by blast
  then show "digit c" by (simp add: digit_def flip: of_char_eq_iff[where ?'a = nat])
qed (auto simp: digit_def)

lemma char_of_digit: "n < 10 \<Longrightarrow> of_char (char_of (48 + n :: nat)) = (48 + n :: nat)"
  by (simp add: of_char_of)

lemma digits_digit: "list_all digit (digits n) \<and> digits n \<noteq> []"
proof (induction n rule: digits.induct)
  case (1 n)
  have d: "digit (char_of (48 + n mod 10))" using char_of_digit[of "n mod 10"] by (simp add: digit_chars)
  show ?case
  proof (cases "n < 10")
    case True
    then show ?thesis using d by (simp add: digits.simps[of n])
  next
    case False
    then show ?thesis using 1 d by (simp add: digits.simps[of n])
  qed
qed

lemma number_append: "number (s @ [c]) = 10 * number s + (of_char c - 48)"
  by (simp add: number_def)

lemma number_digits: "number (digits n) = int n"
proof (induction n rule: digits.induct)
  case (1 n)
  have c: "(of_char (char_of (48 + n mod 10 :: nat)) :: int) = 48 + int (n mod 10)"
    using arg_cong[OF char_of_digit[of "n mod 10"], of int] by (simp only: of_nat_of_char of_nat_add of_nat_numeral mod_less_divisor zero_less_numeral)
  show ?case
  proof (cases "n < 10")
    case True
    then show ?thesis using c by (simp add: digits.simps[of n] number_def)
  next
    case False
    then have "number (digits n) = 10 * int (n div 10) + int (n mod 10)"
      using 1 c by (simp add: digits.simps[of n] number_append)
    moreover have "int n = int (10 * (n div 10) + n mod 10)" by simp
    ultimately show ?thesis by (simp only: of_nat_add of_nat_mult of_nat_numeral)
  qed
qed

lemma Stoi_fmt_int:
  assumes "0 \<le> i" "i < 2 ^ 63"
  shows "Stoi (fmt_int i) = Some i"
proof -
  let ?s = "digits (nat i)"
  have d: "list_all digit ?s" "?s \<noteq> []" using digits_digit by blast+
  have no: "\<not> is_space c \<and> c \<noteq> CHR ''-'' \<and> c \<noteq> CHR ''+''" if "digit c" for c using that by (auto simp: digit_def is_space_def)
  have "TrimSpace ?s = ?s"
    using d no hd_in_set[OF d(2)] last_in_set[OF d(2)] by (intro TrimSpace_id) (auto simp: list_all_iff)
  moreover have "\<not> HasPrefix ?s ''-''" "\<not> HasPrefix ?s ''+''"
    using d no by (cases ?s; auto simp: HasPrefix_def list_all_iff)+
  ultimately show ?thesis using d assms number_digits[of "nat i"] by (simp add: Stoi_def Atoi_def fmt_int_def Let_def)
qed

lemma outline_string_join: "os \<noteq> [] \<Longrightarrow> outline_string os @ ''.'' = concat (map (\<lambda>v. fmt_int v @ ''.'') os)"
  by (induction os rule: rev_induct) (simp_all add: outline_string_def HasSuffix_def Let_def)

lemma fmt_int_no_dot: "CHR ''.'' \<notin> set (fmt_int i)"
proof -
  have "CHR ''.'' \<notin> set (digits n)" for n
  proof
    assume "CHR ''.'' \<in> set (digits n)"
    then have "digit CHR ''.''" using digits_digit[of n] by (auto simp: list_all_iff)
    then show False by (simp add: digit_def)
  qed
  then show ?thesis by (simp add: fmt_int_def)
qed

lemma outline_string_Cons: "os \<noteq> [] \<Longrightarrow> outline_string (i # os) = fmt_int i @ ''.'' @ outline_string os"
  "outline_string [i] = fmt_int i"
proof -
  show "outline_string [i] = fmt_int i" by (simp add: outline_string_def HasSuffix_def Let_def)
  assume "os \<noteq> []"
  then have "outline_string (i # os) @ ''.'' = (fmt_int i @ ''.'' @ outline_string os) @ ''.''"
    using outline_string_join[of os] outline_string_join[of "i # os"] by simp
  then show "outline_string (i # os) = fmt_int i @ ''.'' @ outline_string os" by (simp only: append_same_eq)
qed

lemma split_outline: "os \<noteq> [] \<Longrightarrow> split_on (CHR ''.'') (outline_string os) = map fmt_int os"
proof (induction os)
  case (Cons i os)
  show ?case
  proof (cases "os = []")
    case True
    then show ?thesis using split_on_no_sep[OF fmt_int_no_dot] by (simp add: outline_string_Cons(2))
  next
    case False
    then show ?thesis using Cons.IH split_on_append[OF fmt_int_no_dot] by (simp add: outline_string_Cons(1))
  qed
qed simp

lemma those_Some: "those (map Some xs) = Some xs"
  by (induction xs) simp_all

lemma outline_numbers_string: "os \<noteq> [] \<Longrightarrow> \<forall>i\<in>set os. 0 \<le> i \<and> i < 2 ^ 63 \<Longrightarrow> outline_numbers (outline_string os) = Some os"
proof -
  assume ne: "os \<noteq> []" and b: "\<forall>i\<in>set os. 0 \<le> i \<and> i < 2 ^ 63"
  have "map (Stoi \<circ> fmt_int) os = map Some os" using b Stoi_fmt_int by (intro map_cong refl) simp
  then show ?thesis unfolding outline_numbers_def split_outline[OF ne] map_map by (simp only: those_Some)
qed

subsection \<open>The outline\<close>

text \<open>The numbered elements of a document with their levels, and the documents in which only elements have children below the
  scaffold.\<close>

fun ol_nodes :: "nat \<Rightarrow> node \<Rightarrow> (nat \<times> node) list" where
  "ol_nodes lvl (Node t d a cs) = (if t = ElementNode \<and> lvl > cScaffoldLvls then [(lvl, Node t d a cs)] else []) @
     concat (map (ol_nodes (lvl + 1)) cs)"

fun page :: "nat \<Rightarrow> node \<Rightarrow> bool" where
  "page lvl (Node t d a cs) \<longleftrightarrow> (lvl > cScaffoldLvls \<and> t \<noteq> ElementNode \<longrightarrow> cs = []) \<and> list_all (page (lvl + 1)) cs"

definition ol_is :: "nat \<times> node \<Rightarrow> int list \<Rightarrow> bool" where
  "ol_is e w \<longleftrightarrow> attrX (nd_attr (snd e)) ''ol'' = outline_string w \<and> int (length w) = int (fst e) - int cScaffoldLvls"

text \<open>The lists of numbers given out from \<open>os @ [k]\<close> on, up to \<open>os @ [k']\<close>.\<close>

definition given_out :: "int list \<Rightarrow> int \<Rightarrow> int \<Rightarrow> nat \<Rightarrow> int list list \<Rightarrow> bool" where
  "given_out os k k' b L \<longleftrightarrow> distinct L \<and>
     (\<forall>w\<in>set L. \<exists>j r. w = os @ j # r \<and> k < j \<and> j \<le> k' \<and> (\<forall>i\<in>set r. 1 \<le> i \<and> i \<le> int b))"

lemma given_out_append:
  assumes "given_out os k k1 b1 L1" "given_out os k1 k2 b2 L2" "k \<le> k1" "k1 \<le> k2" "b1 \<le> b" "b2 \<le> b"
  shows "given_out os k k2 b (L1 @ L2)"
proof -
  have "set L1 \<inter> set L2 = {}"
  proof (intro equals0I)
    fix w
    assume "w \<in> set L1 \<inter> set L2"
    then obtain j r j' r' where "w = os @ j # r" "j \<le> k1" "w = os @ j' # r'" "k1 < j'"
      using assms(1,2) unfolding given_out_def by blast
    then show False by simp
  qed
  moreover have "\<exists>j r. w = os @ j # r \<and> k < j \<and> j \<le> k2 \<and> (\<forall>i\<in>set r. 1 \<le> i \<and> i \<le> int b)" if "w \<in> set (L1 @ L2)" for w
  proof -
    obtain j r where "w = os @ j # r" "k < j" "j \<le> k2" "\<forall>i\<in>set r. 1 \<le> i \<and> i \<le> int b1 \<or> 1 \<le> i \<and> i \<le> int b2"
    proof (cases "w \<in> set L1")
      case True
      then show ?thesis using that assms(1,4) unfolding given_out_def by (metis order_trans)
    next
      case False
      then have "w \<in> set L2" using \<open>w \<in> set (L1 @ L2)\<close> by simp
      then show ?thesis using that assms(2,3) unfolding given_out_def by (metis le_less_trans)
    qed
    then show ?thesis using assms(5,6) by (intro exI[of _ j] exI[of _ r]) force
  qed
  ultimately show ?thesis using assms(1,2) by (simp add: given_out_def)
qed

definition numbers :: "nat \<Rightarrow> node \<Rightarrow> bool" where
  "numbers lvl n \<longleftrightarrow> (\<forall>os k. page lvl n \<longrightarrow> length os = lvl - 3 \<longrightarrow> 0 \<le> k \<longrightarrow>
     (\<exists>n' k' L. addOutlineAttr lvl (os @ [k]) n = Some (n', os @ [k']) \<and> page lvl n' \<and> k \<le> k' \<and> k' \<le> k + int (size n) \<and>
        list_all2 ol_is (ol_nodes lvl n') L \<and> given_out os k k' (size n) L))"

lemma add_outlines:
  "(\<And>c. c \<in> set cs \<Longrightarrow> numbers lvl c) \<Longrightarrow> list_all (page lvl) cs \<Longrightarrow> length os = lvl - 3 \<Longrightarrow> 0 \<le> k \<Longrightarrow>
    \<exists>cs' k' L. addOutlineAttrs lvl (os @ [k]) cs = Some (cs', os @ [k']) \<and> list_all (page lvl) cs' \<and> length cs' = length cs \<and> k \<le> k' \<and>
      k' \<le> k + int (size_list size cs) \<and> list_all2 ol_is (concat (map (ol_nodes lvl) cs')) L \<and> given_out os k k' (size_list size cs) L"
proof (induction cs arbitrary: k)
  case Nil
  then show ?case by (intro exI[of _ "[]"] exI[of _ k]) (simp add: given_out_def)
next
  case (Cons c cs)
  have "numbers lvl c" "page lvl c" using Cons.prems by simp_all
  then obtain n' k1 L1 where 1: "addOutlineAttr lvl (os @ [k]) c = Some (n', os @ [k1])" "page lvl n'" "k \<le> k1" "k1 \<le> k + int (size c)"
    "list_all2 ol_is (ol_nodes lvl n') L1" "given_out os k k1 (size c) L1"
    unfolding numbers_def using Cons.prems(3,4) by blast
  have "0 \<le> k1" using 1(3) Cons.prems(4) by simp
  from Cons.IH[OF _ _ Cons.prems(3) this] Cons.prems(1,2) obtain cs' k2 L2 where
    2: "addOutlineAttrs lvl (os @ [k1]) cs = Some (cs', os @ [k2])" "list_all (page lvl) cs'" "length cs' = length cs" "k1 \<le> k2"
    "k2 \<le> k1 + int (size_list size cs)" "list_all2 ol_is (concat (map (ol_nodes lvl) cs')) L2" "given_out os k1 k2 (size_list size cs) L2"
    by auto
  have "given_out os k k2 (size_list size (c # cs)) (L1 @ L2)" using 1 2 by (intro given_out_append[OF 1(6) 2(7)]) simp_all
  moreover have "list_all2 ol_is (concat (map (ol_nodes lvl) (n' # cs'))) (L1 @ L2)" using 1(5) 2(6) by (simp add: list_all2_appendI)
  ultimately show ?case using 1 2 by (intro exI[of _ "n' # cs'"] exI[of _ k2] exI[of _ "L1 @ L2"]) simp
qed

lemma drop_last_append: "drop_last (xs @ [x]) = Some xs"
  by (simp add: drop_last_def slice_sub_def)

lemma add_outline: "numbers lvl n"
proof (induction n arbitrary: lvl)
  case (Node t d a cs)
  show ?case unfolding numbers_def
  proof (intro allI impI)
    fix os :: "int list" and k :: int
    assume p: "page lvl (Node t d a cs)" and os: "length os = lvl - 3" and k: "0 \<le> k"
    have pc: "list_all (page (lvl + 1)) cs" using p by simp
    show "\<exists>n' k' L. addOutlineAttr lvl (os @ [k]) (Node t d a cs) = Some (n', os @ [k']) \<and> page lvl n' \<and> k \<le> k' \<and>
        k' \<le> k + int (size (Node t d a cs)) \<and> list_all2 ol_is (ol_nodes lvl n') L \<and> given_out os k k' (size (Node t d a cs)) L"
    proof (cases "t = ElementNode \<and> lvl > cScaffoldLvls")
      case True
      let ?os = "os @ [k + 1]"
      have "length ?os = lvl + 1 - 3" using os True unfolding cScaffoldLvls_def length_append by simp linarith
      from add_outlines[OF Node.IH pc this order_refl] obtain cs' k' L where
        c: "addOutlineAttrs (lvl + 1) (?os @ [0]) cs = Some (cs', ?os @ [k'])" "list_all (page (lvl + 1)) cs'"
        "length cs' = length cs" "0 \<le> k'" "k' \<le> int (size_list size cs)" "list_all2 ol_is (concat (map (ol_nodes (lvl + 1)) cs')) L"
        "given_out ?os 0 k' (size_list size cs) L" by auto
      let ?n = "Node t d (\<lparr>Key = ''ol'', Val = outline_string ?os\<rparr> # a) cs'"
      have "bump_last (os @ [k]) = Some ?os" "drop_last (?os @ [k']) = Some ?os"
        by (simp add: bump_last_def, rule drop_last_append)
      then have "addOutlineAttr lvl (os @ [k]) (Node t d a cs) = Some (?n, ?os)" using c(1) True by simp
      moreover have "page lvl ?n" using c(2) True by simp
      moreover have "list_all2 ol_is (ol_nodes lvl ?n) (?os # L)"
        using c(6) True os by (simp add: ol_is_def cScaffoldLvls_def)
      moreover have "given_out os k (k + 1) (size (Node t d a cs)) (?os # L)"
      proof -
        have "\<exists>j r. w = ?os @ j # r \<and> 0 < j \<and> j \<le> k' \<and> (\<forall>i\<in>set r. 1 \<le> i \<and> i \<le> int (size_list size cs))" if "w \<in> set L" for w
          using c(7) that unfolding given_out_def by blast
        then have "\<exists>r. w = os @ (k + 1) # r \<and> r \<noteq> [] \<and> (\<forall>i\<in>set r. 1 \<le> i \<and> i \<le> int (size (Node t d a cs)))" if "w \<in> set L" for w
          using that c(5) by fastforce
        then show ?thesis using c(7) unfolding given_out_def by fastforce
      qed
      ultimately show ?thesis by (intro exI[of _ ?n] exI[of _ "k + 1"] exI[of _ "?os # L"]) simp
    next
      case False
      have "\<exists>cs' k' L. addOutlineAttrs (lvl + 1) (os @ [k]) cs = Some (cs', os @ [k']) \<and> list_all (page (lvl + 1)) cs' \<and> length cs' = length cs \<and> k \<le> k' \<and>
        k' \<le> k + int (size_list size cs) \<and> list_all2 ol_is (concat (map (ol_nodes (lvl + 1)) cs')) L \<and> given_out os k k' (size_list size cs) L"
      proof (cases "cs = []")
        case True
        then show ?thesis by (intro exI[of _ "[]"] exI[of _ k]) (simp add: given_out_def)
      next
        case False
        then have "length os = lvl + 1 - 3" using os p \<open>\<not> (t = ElementNode \<and> lvl > cScaffoldLvls)\<close> by (auto simp: cScaffoldLvls_def)
        from add_outlines[OF Node.IH pc this k] show ?thesis .
      qed
      then obtain cs' k' L where
        c: "addOutlineAttrs (lvl + 1) (os @ [k]) cs = Some (cs', os @ [k'])" "list_all (page (lvl + 1)) cs'"
        "length cs' = length cs" "k \<le> k'" "k' \<le> k + int (size_list size cs)" "list_all2 ol_is (concat (map (ol_nodes (lvl + 1)) cs')) L"
        "given_out os k k' (size_list size cs) L" by blast
      have "addOutlineAttr lvl (os @ [k]) (Node t d a cs) = Some (Node t d a cs', os @ [k'])" using c(1) False by auto
      moreover have "page lvl (Node t d a cs')" using c(2,3) p by auto
      moreover have "list_all2 ol_is (ol_nodes lvl (Node t d a cs')) L" using c(6) False by auto
      moreover have "given_out os k k' (size (Node t d a cs)) L"
        using given_out_append[OF c(7), of k' 0 "[]" "size (Node t d a cs)"] c(4) by (simp add: given_out_def)
      ultimately show ?thesis using c(4,5) by (intro exI[of _ "Node t d a cs'"] exI[of _ k'] exI[of _ L]) simp
    qed
  qed
qed

subsection \<open>The trees of texts\<close>

definition tree_facts :: "string \<Rightarrow> ttree \<Rightarrow> bool" where
  "tree_facts fnKey tt \<longleftrightarrow> SourceID tt = fnKey \<and> Similars tt = [] \<and> (\<exists>text. sortCompact text = (Text tt, Histo tt, NumTokens tt))"

lemma tree_for_facts: "tree_facts fnKey (tree_for fnKey lvl a csCc)"
  "Outline (tree_for fnKey lvl a csCc) = attrX a ''ol''" "Lvl (tree_for fnKey lvl a csCc) = int lvl - int cScaffoldLvls"
  by (auto simp: tree_for_def tree_facts_def split: prod.split)

definition ol_key :: "nat \<times> node \<Rightarrow> string \<times> int" where
  "ol_key e = (attrX (nd_attr (snd e)) ''ol'', int (fst e) - int cScaffoldLvls)"

definition ttree_key :: "ttree \<Rightarrow> string \<times> int" where
  "ttree_key tt = (Outline tt, Lvl tt)"

definition extracts :: "nat \<Rightarrow> node \<Rightarrow> bool" where
  "extracts lvl n \<longleftrightarrow> (\<forall>fnKey mp. page lvl n \<longrightarrow> (\<exists>s M. textExtract fnKey lvl n mp = (s, mp @ M) \<and> list_all (tree_facts fnKey) M \<and>
     image_mset ttree_key (mset M) \<subseteq># image_mset ol_key (mset (ol_nodes lvl n))))"

lemma text_extract_children:
  "(\<And>c. c \<in> set cs \<Longrightarrow> extracts lvl c) \<Longrightarrow> list_all (page lvl) cs \<Longrightarrow>
    \<exists>s M. textExtract_children fnKey lvl cs cc mp = (s, mp @ M) \<and> list_all (tree_facts fnKey) M \<and> (cs = [] \<longrightarrow> s = cc) \<and>
      image_mset ttree_key (mset M) \<subseteq># image_mset ol_key (mset (concat (map (ol_nodes lvl) cs)))"
proof (induction cs arbitrary: cc mp)
  case (Cons c cs)
  have "extracts lvl c" "page lvl c" using Cons.prems by simp_all
  then obtain s M where 1: "textExtract fnKey lvl c mp = (s, mp @ M)" "list_all (tree_facts fnKey) M"
    "image_mset ttree_key (mset M) \<subseteq># image_mset ol_key (mset (ol_nodes lvl c))"
    unfolding extracts_def by blast
  obtain s2 M2 where 2: "textExtract_children fnKey lvl cs (if s \<noteq> [] then cc @ s @ '' '' else cc) (mp @ M) = (s2, (mp @ M) @ M2)"
    "list_all (tree_facts fnKey) M2" "image_mset ttree_key (mset M2) \<subseteq># image_mset ol_key (mset (concat (map (ol_nodes lvl) cs)))"
    using Cons.IH[of "if s \<noteq> [] then cc @ s @ '' '' else cc" "mp @ M"] Cons.prems by auto
  have "textExtract_children fnKey lvl (c # cs) cc mp = (s2, mp @ M @ M2)" using 1(1) 2(1) by simp
  moreover have "image_mset ttree_key (mset (M @ M2)) \<subseteq># image_mset ol_key (mset (concat (map (ol_nodes lvl) (c # cs))))"
    using subset_mset.add_mono[OF 1(3) 2(3)] by simp
  ultimately show ?case using 1(2) 2(2) by (intro exI[of _ s2] exI[of _ "M @ M2"]) simp
qed simp

lemma text_extract: "extracts lvl n"
proof (induction n arbitrary: lvl)
  case (Node t d a cs)
  show ?case unfolding extracts_def
  proof (intro allI impI)
    fix fnKey mp
    assume p: "page lvl (Node t d a cs)"
    obtain cc M where c: "textExtract_children fnKey (lvl + 1) cs [] mp = (cc, mp @ M)" "list_all (tree_facts fnKey) M" "cs = [] \<longrightarrow> cc = []"
      "image_mset ttree_key (mset M) \<subseteq># image_mset ol_key (mset (concat (map (ol_nodes (lvl + 1)) cs)))"
      using text_extract_children[OF Node.IH, of cs "lvl + 1" fnKey "[]" mp] p by auto
    let ?self = "self_content t d a"
    let ?tt = "tree_for fnKey lvl a (?self @ cc)"
    show "\<exists>s M. textExtract fnKey lvl (Node t d a cs) mp = (s, mp @ M) \<and> list_all (tree_facts fnKey) M \<and>
        image_mset ttree_key (mset M) \<subseteq># image_mset ol_key (mset (ol_nodes lvl (Node t d a cs)))"
    proof (cases "lvl > cScaffoldLvls \<and> (?self \<noteq> [] \<or> cc \<noteq> []) \<and> t \<noteq> TextNode")
      case True
      then have e: "t = ElementNode" using p c(3) by (auto simp: self_content_def split: if_splits)
      have "textExtract fnKey lvl (Node t d a cs) mp = (?self @ cc, mp @ M @ [?tt])" using c(1) True by (simp add: Let_def)
      moreover have "ttree_key ?tt = ol_key (lvl, Node t d a cs)" by (simp add: ttree_key_def ol_key_def tree_for_facts)
      then have "image_mset ttree_key (mset (M @ [?tt])) \<subseteq># image_mset ol_key (mset (ol_nodes lvl (Node t d a cs)))"
        using c(4) True e by simp
      ultimately show ?thesis using c(2) tree_for_facts(1) by (intro exI[of _ "?self @ cc"] exI[of _ "M @ [?tt]"]) simp
    next
      case False
      then have "textExtract fnKey lvl (Node t d a cs) mp = (?self @ cc, mp @ M)" using c(1) by (auto simp: Let_def)
      moreover have "image_mset ttree_key (mset M) \<subseteq># image_mset ol_key (mset (ol_nodes lvl (Node t d a cs)))"
        using c(4) by (simp add: subset_mset.add_increasing)
      ultimately show ?thesis using c(2) by blast
    qed
  qed
qed

lemma distinct_below: "mset xs \<subseteq># mset ys \<Longrightarrow> distinct ys \<Longrightarrow> distinct xs"
proof -
  assume s: "mset xs \<subseteq># mset ys" and d: "distinct ys"
  obtain zs where "mset ys = mset xs + mset zs" using s ex_mset by (metis subset_mset.le_iff_add)
  then have "mset (xs @ zs) = mset ys" by simp
  then show "distinct xs" using d mset_eq_imp_distinct_iff distinct_append by blast
qed

lemma ol_is_numbers: "ol_is e w \<Longrightarrow> w \<noteq> [] \<Longrightarrow> \<forall>i\<in>set w. 0 \<le> i \<and> i < 2 ^ 63 \<Longrightarrow>
    outline_numbers (fst (ol_key e)) = Some w \<and> snd (ol_key e) = int (length w)"
  using outline_numbers_string by (simp add: ol_is_def ol_key_def)

lemma numbered_keys:
  "list_all2 ol_is es L \<Longrightarrow> distinct L \<Longrightarrow> \<forall>w\<in>set L. w \<noteq> [] \<and> (\<forall>i\<in>set w. 0 \<le> i \<and> i < 2 ^ 63) \<Longrightarrow>
    distinct (map (fst \<circ> ol_key) es) \<and> (\<forall>e\<in>set es. \<exists>w\<in>set L. outline_numbers (fst (ol_key e)) = Some w \<and> snd (ol_key e) = int (length w))"
proof (induction es L rule: list_all2_induct)
  case (Cons e es w L)
  have e: "outline_numbers (fst (ol_key e)) = Some w \<and> snd (ol_key e) = int (length w)" using Cons by (intro ol_is_numbers) auto
  have "fst (ol_key e) \<noteq> fst (ol_key e')" if "e' \<in> set es" for e'
    using Cons that e by force
  then show ?case using Cons e by auto
qed simp

lemma given_out_bounds:
  "given_out [] 0 k' b L \<Longrightarrow> k' \<le> int b \<Longrightarrow> int b < 2 ^ 63 \<Longrightarrow> \<forall>w\<in>set L. w \<noteq> [] \<and> (\<forall>i\<in>set w. 0 \<le> i \<and> i < 2 ^ 63)"
  unfolding given_out_def by fastforce

text \<open>C40: Numbering a page and collecting its texts: addOutlineAttr never panics, and the trees have outlines of their own, each a list of
  numbers with as many as its level, so that sorting them by outline never panics. Every tree holds what sortCompact makes of its
  text.\<close>

theorem outline_pipeline:
  assumes "page 0 doc" "int (size doc) < 2 ^ 63"
  shows "\<exists>doc' out. addOutlineAttr 0 [0] doc = Some (doc', out) \<and>
    (let mp = BubbledUpTextExtraction doc' fnKey
     in distinct (map Outline mp) \<and> list_all (tree_facts fnKey) mp \<and>
        (\<forall>x\<in>set mp. \<exists>w. outline_numbers (Outline x) = Some w \<and> Lvl x = int (length w)) \<and>
        (\<forall>x\<in>set mp. \<forall>y\<in>set mp. Less_outline (Outline x) (Outline y) \<noteq> None))"
proof -
  obtain doc' k' L where 1: "addOutlineAttr 0 [0] doc = Some (doc', [k'])" "page 0 doc'" "k' \<le> int (size doc)"
    "list_all2 ol_is (ol_nodes 0 doc') L" "given_out [] 0 k' (size doc) L"
    using add_outline[of 0 doc] assms(1) unfolding numbers_def by fastforce
  have L: "\<forall>w\<in>set L. w \<noteq> [] \<and> (\<forall>i\<in>set w. 0 \<le> i \<and> i < 2 ^ 63)" by (rule given_out_bounds[OF 1(5,3) assms(2)])
  have k: "distinct (map (fst \<circ> ol_key) (ol_nodes 0 doc'))"
    "\<forall>e\<in>set (ol_nodes 0 doc'). \<exists>w. outline_numbers (fst (ol_key e)) = Some w \<and> snd (ol_key e) = int (length w)"
    using numbered_keys[OF 1(4) _ L] 1(5) unfolding given_out_def by blast+
  obtain s M where M: "textExtract fnKey 0 doc' [] = (s, M)" "list_all (tree_facts fnKey) M"
    "image_mset ttree_key (mset M) \<subseteq># image_mset ol_key (mset (ol_nodes 0 doc'))"
    using text_extract[of 0 doc'] 1(2) unfolding extracts_def by (metis append_Nil)
  have mp: "BubbledUpTextExtraction doc' fnKey = M" using M(1) by (simp add: BubbledUpTextExtraction_def)
  have "image_mset fst (image_mset ttree_key (mset M)) \<subseteq># image_mset fst (image_mset ol_key (mset (ol_nodes 0 doc')))"
    by (rule image_mset_subseteq_mono[OF M(3)])
  then have "mset (map Outline M) \<subseteq># mset (map (fst \<circ> ol_key) (ol_nodes 0 doc'))"
    by (simp add: ttree_key_def comp_def multiset.map_comp)
  then have d: "distinct (map Outline M)" by (rule distinct_below[OF _ k(1)])
  have nums: "\<exists>w. outline_numbers (Outline x) = Some w \<and> Lvl x = int (length w)" if "x \<in> set M" for x
  proof -
    have "ttree_key x \<in># image_mset ol_key (mset (ol_nodes 0 doc'))" using mset_subset_eqD[OF M(3), of "ttree_key x"] that by simp
    then obtain e where "e \<in> set (ol_nodes 0 doc')" "ttree_key x = ol_key e" by auto
    then show ?thesis using k(2) unfolding ttree_key_def by (metis fst_conv snd_conv)
  qed
  have "Less_outline (Outline x) (Outline y) \<noteq> None" if "x \<in> set M" "y \<in> set M" for x y
    using nums[OF that(1)] nums[OF that(2)] Less_outline_numbers by blast
  then have "(let mp = BubbledUpTextExtraction doc' fnKey
     in distinct (map Outline mp) \<and> list_all (tree_facts fnKey) mp \<and>
        (\<forall>x\<in>set mp. \<exists>w. outline_numbers (Outline x) = Some w \<and> Lvl x = int (length w)) \<and>
        (\<forall>x\<in>set mp. \<forall>y\<in>set mp. Less_outline (Outline x) (Outline y) \<noteq> None))"
    using d M(2) nums unfolding mp Let_def by blast
  with 1(1) show ?thesis by blast
qed

lemma outline_pipeline_witness:
  "\<exists>doc' out. addOutlineAttr 0 [0] sample_page = Some (doc', out) \<and>
    (let mp = BubbledUpTextExtraction doc' ''a''
     in distinct (map Outline mp) \<and> list_all (tree_facts ''a'') mp \<and>
        (\<forall>x\<in>set mp. \<exists>w. outline_numbers (Outline x) = Some w \<and> Lvl x = int (length w)) \<and>
        (\<forall>x\<in>set mp. \<forall>y\<in>set mp. Less_outline (Outline x) (Outline y) \<noteq> None))"
proof -
  have "page 0 sample_page" "size sample_page < 100" by code_simp+
  then show ?thesis by (intro outline_pipeline) simp_all
qed

text \<open>Weeding the documents of numbered pages never panics.\<close>

lemma pages_weeded:
  assumes "\<forall>(k, doc)\<in>set docs. page 0 doc"
  shows "weed_all fnKey (map (\<lambda>(k, doc). (k, BubbledUpTextExtraction doc k)) docs) \<noteq> None"
proof -
  have "compacted tt" if d: "(k, doc) \<in> set docs" and t: "tt \<in> set (BubbledUpTextExtraction doc k)" for k doc tt
  proof -
    obtain s M where "textExtract k 0 doc [] = (s, M)" "list_all (tree_facts k) M"
      using text_extract[of 0 doc] assms d unfolding extracts_def by (metis (no_types, lifting) append_Nil case_prodD)
    then have "tree_facts k tt" using t by (simp add: BubbledUpTextExtraction_def list_all_iff)
    then show ?thesis unfolding tree_facts_def using sortCompact_compacted[OF _ refl refl refl] by blast
  qed
  then have c: "\<forall>(k, tts)\<in>set (map (\<lambda>(k, doc). (k, BubbledUpTextExtraction doc k)) docs). \<forall>tt\<in>set tts. compacted tt" by auto
  have n: "noted (\<lambda>k tt. []) mp = mp" for mp by (simp add: noted_def)
  show ?thesis using weed_stages_spec[where g = "\<lambda>k tt. []" and S = "{}" and fnKey = fnKey and stages = "[1..<stageMax + 1]", OF c distinct_upt] unfolding n weed_all_def by auto
qed

subsection \<open>The log of paths\<close>

text \<open>One line per element that is not skipped, each with the elements above it.\<close>

fun xpath_log :: "stack \<Rightarrow> node \<Rightarrow> string" where
  "xpath_log xPath (Node t d a cs) =
     (let here = (if logged t d then Push_s xPath d else xPath)
      in (if logged t d then xpath_line here else []) @ concat (map (xpath_log here) cs))"

lemma xpath_children:
  "(\<And>c lvl xPath dump. c \<in> set cs \<Longrightarrow> lvl > 0 \<Longrightarrow> computeXPathStack c lvl (xPath, dump) = Some (xPath, dump @ xpath_log xPath c)) \<Longrightarrow>
    lvl > 0 \<Longrightarrow> computeXPathStacks cs lvl (xPath, dump) = Some (xPath, dump @ concat (map (xpath_log xPath) cs))"
  by (induction cs arbitrary: dump) simp_all

lemma Pop_Push: "Pop_s (Push_s xPath d) = Some (d, xPath)"
  by (simp add: Pop_s_def Push_s_def slice_get_def slice_sub_def nth_append)

lemma xpath_correct: "computeXPathStack n lvl (xPath, dump) = Some (xPath, (if lvl = 0 then [] else dump) @ xpath_log xPath n)"
proof (induction n arbitrary: lvl xPath dump)
  case (Node t d a cs)
  have "computeXPathStacks cs (Suc lvl) (x, y) = Some (x, y @ concat (map (xpath_log x) cs))" for x y
    using Node.IH by (intro xpath_children) simp_all
  then show ?case by (auto simp: xpath_enter_def xpath_leave_def Let_def Pop_Push)
qed

subsection \<open>Indentation is undone by stripping\<close>

lemma TrimSpace_lead: "TrimSpace (CHR '' '' # s) = TrimSpace s"
  by (simp add: TrimSpace_def is_space_def)

lemma TrimSpace_trail: "TrimSpace (s @ '' '') = TrimSpace s"
proof (cases "\<forall>c\<in>set s. is_space c")
  case True
  then have "dropWhile is_space s = []" "dropWhile is_space (s @ '' '') = []"
    unfolding dropWhile_eq_Nil_conv by (simp_all add: is_space_def)
  then show ?thesis by (simp only: TrimSpace_def)
next
  case False
  then have "dropWhile is_space (s @ '' '') = dropWhile is_space s @ '' ''" by (auto simp: dropWhile_append)
  then show ?thesis by (simp add: TrimSpace_def is_space_def)
qed

lemma TrimSpace_reIndent_text: "TrimSpace (reIndent_text p d) = TrimSpace d"
proof -
  have "TrimSpace (TrimSpace d @ '' '') = TrimSpace d" using TrimSpace_trail TrimSpace_again by simp
  then show ?thesis using TrimSpace_lead[of "TrimSpace d @ '' ''"] TrimSpace_again by (simp add: reIndent_text_def Let_def)
qed

fun retext :: "string option \<Rightarrow> node \<Rightarrow> node" where
  "retext p (Node t d a cs) =
     (let d' = (if t = TextNode then reIndent_text p d else d) in Node t d' a (map (retext (Some d')) cs))"

lemma strip_strip: "strip (strip n) = strip n"
proof (induction n)
  case (Node t d a cs)
  have "doomed (strip c) = doomed c" for c by (cases c) (simp add: doomed_def)
  then show ?case using Node by (simp add: filter_map o_def)
qed

lemma stripped_children: "strip (Node t d a cs) = Node t d a cs \<Longrightarrow> c \<in> set cs \<Longrightarrow> strip c = c \<and> \<not> doomed c"
proof -
  assume s: "strip (Node t d a cs) = Node t d a cs" and c: "c \<in> set cs"
  have "map strip (filter (\<lambda>c. \<not> doomed c) cs) = cs" using s by simp
  then have "c \<in> set (map strip (filter (\<lambda>c. \<not> doomed c) cs))" using c by simp
  then obtain b where b: "c = strip b" "\<not> doomed b" by auto
  then have "\<not> doomed c" by (cases b) (simp add: doomed_def)
  then show ?thesis using b(1) strip_strip by simp
qed

lemma isSpacey_inserted: "isSpacey (CHR 0x0A # indentation lvl)" "isSpacey [CHR 0x0A]" "isSpacey []"
proof -
  have "\<forall>c\<in>set (CHR 0x0A # indentation lvl). is_space c" by (simp add: indentation_def is_space_def)
  then have "dropWhile is_space (CHR 0x0A # indentation lvl) = []" by (simp only: dropWhile_eq_Nil_conv)
  then show "isSpacey (CHR 0x0A # indentation lvl)" by (simp only: isSpacey_def TrimSpace_def) simp
qed (simp_all add: isSpacey_def TrimSpace_def is_space_def)

definition indents :: "(node_type \<times> string) option \<Rightarrow> nat \<Rightarrow> node \<Rightarrow> bool" where
  "indents parent lvl n \<longleftrightarrow> (\<exists>pre n'. reIndent parent lvl n = pre @ [n'] \<and> list_all doomed pre \<and> (parent = None \<longrightarrow> pre = []) \<and>
     strip n' = retext (map_option snd parent) n \<and> doomed n' = doomed n)"

lemma indented_children:
  "(\<And>c. c \<in> set cs \<Longrightarrow> indents parent lvl c \<and> \<not> doomed c) \<Longrightarrow>
    map strip (filter (\<lambda>c. \<not> doomed c) (concat (map (reIndent parent lvl) cs))) = map (retext (map_option snd parent)) cs"
proof (induction cs)
  case (Cons c cs)
  have "indents parent lvl c" "\<not> doomed c" using Cons.prems by simp_all
  then obtain pre n' where c: "reIndent parent lvl c = pre @ [n']" "list_all doomed pre" "strip n' = retext (map_option snd parent) c" "\<not> doomed n'"
    unfolding indents_def by blast
  then have "filter (\<lambda>c. \<not> doomed c) (reIndent parent lvl c) = [n']" by (simp add: list_all_iff filter_empty_conv)
  then show ?case using Cons c(3) by simp
qed simp

lemma reIndent_strip: "strip n = n \<Longrightarrow> (lvl > cScaffoldLvls \<longrightarrow> parent \<noteq> None) \<Longrightarrow> indents parent lvl n"
proof (induction n arbitrary: lvl parent)
  case (Node t d a cs)
  let ?d = "if t = TextNode then reIndent_text (map_option snd parent) d else d"
  let ?inner = "t = ElementNode \<and> lvl > cScaffoldLvls \<and> map_option fst parent = Some ElementNode"
  let ?pre = "if ?inner then [Nd_text (CHR 0x0A # indentation lvl)] else if t = CommentNode \<and> parent \<noteq> None then [Nd_text [CHR 0x0A]] else []"
  let ?cs = "concat (map (reIndent (Some (t, ?d)) (lvl + 1)) cs)"
  let ?post = "if ?inner \<and> ?cs \<noteq> [] then [Nd_text (if ?d = ''a'' then [] else CHR 0x0A # indentation lvl)] else []"
  have r: "reIndent parent lvl (Node t d a cs) = ?pre @ [Node t ?d a (?cs @ ?post)]"
  proof -
    have "\<not> (lvl > cScaffoldLvls \<and> parent = None)" using Node.prems(2) by blast
    then show ?thesis unfolding reIndent.simps Let_def by (simp only: if_False)
  qed
  have pre: "list_all doomed ?pre \<and> (parent = None \<longrightarrow> ?pre = [])"
    using isSpacey_inserted by (simp add: doomed_def Nd_text_def)
  have post: "filter (\<lambda>c. \<not> doomed c) ?post = []" using isSpacey_inserted by (simp add: doomed_def Nd_text_def)
  have "indents (Some (t, ?d)) (lvl + 1) c \<and> \<not> doomed c" if "c \<in> set cs" for c
    using Node.IH[OF that] stripped_children[OF Node.prems(1) that] by blast
  then have "map strip (filter (\<lambda>c. \<not> doomed c) ?cs) = map (retext (Some ?d)) cs"
    using indented_children[of cs "Some (t, ?d)" "lvl + 1"] by simp
  then have "strip (Node t ?d a (?cs @ ?post)) = Node t ?d a (map (retext (Some ?d)) cs)"
    unfolding strip.simps filter_append post append_Nil2 by (simp only:)
  then have "strip (Node t ?d a (?cs @ ?post)) = retext (map_option snd parent) (Node t d a cs)" unfolding retext.simps Let_def .
  moreover have "doomed (Node t ?d a (?cs @ ?post)) = doomed (Node t d a cs)"
    using TrimSpace_reIndent_text[of "map_option snd parent" d] by (simp add: doomed_def isSpacey_def)
  ultimately show ?case unfolding indents_def r using pre by blast
qed

lemma retext_texts: "map TrimSpace (texts (retext p n)) = map TrimSpace (texts n)"
proof (induction n arbitrary: p)
  case (Node t d a cs)
  have "concat (map (\<lambda>c. map TrimSpace (texts (retext q c))) cs) = concat (map (\<lambda>c. map TrimSpace (texts c)) cs)" for q
    by (rule arg_cong[where f = concat], rule map_cong, rule refl, rule Node)
  then show ?case using TrimSpace_reIndent_text by (simp add: Let_def map_concat o_def)
qed

text \<open>fileDump with a name for the file; the written tree is returned, too.\<close>

definition fileDump :: "node \<Rightarrow> (node \<times> node list) option" where
  "fileDump doc = do {
     doc1 \<leftarrow> removeCommentsAndIntertagWhitespace doc;
     (case reIndent None 0 doc1 of
        [doc2] \<Rightarrow> do { doc3 \<leftarrow> removeCommentsAndIntertagWhitespace doc2; Some (doc3, [doc2]) }
      | _ \<Rightarrow> None)
   }"

text \<open>Dumping a page between two steps of DomClean, which strips it, indents it, writes it and strips it again, leaves the tree
  as it was but for blanks around its texts.\<close>

theorem file_dump:
  "\<exists>doc' written. fileDump doc = Some (doc', written) \<and> doc' = retext None (strip doc) \<and>
     map TrimSpace (texts doc') = map TrimSpace (texts (strip doc))"
proof -
  have "indents None 0 (strip doc)" by (rule reIndent_strip[OF strip_strip]) simp
  then obtain n' where n: "reIndent None 0 (strip doc) = [n']" "strip n' = retext None (strip doc)" unfolding indents_def by auto
  then have "fileDump doc = Some (retext None (strip doc), [n'])" by (simp add: fileDump_def strip_correct)
  then show ?thesis using retext_texts by blast
qed

subsection \<open>Blanking the duplicates out\<close>

text \<open>The texts outside the elements whose outline is weeded.\<close>

fun unique_texts :: "string set \<Rightarrow> node \<Rightarrow> string list" where
  "unique_texts S (Node t d a cs) = (if t = TextNode then [d] else []) @
     concat (map (\<lambda>c. if nd_type c = ElementNode \<and> attrX (nd_attr c) ''ol'' @ ''.'' \<in> S then [] else unique_texts S c) cs)"

lemma dedupApply_texts:
  "html_tree n \<Longrightarrow> texts (strip (dedupApply S n)) = (if nd_type n = TextNode then [nd_data n] else []) @
     filter (\<lambda>s. \<not> isSpacey s) (concat (map (\<lambda>c. if nd_type c = ElementNode \<and> attrX (nd_attr c) ''ol'' @ ''.'' \<in> S then [] else unique_texts S c)
       (nd_children n)))"
proof (induction n)
  case (Node t d a cs)
  let ?marked = "\<lambda>c. nd_type c = ElementNode \<and> attrX (nd_attr c) ''ol'' @ ''.'' \<in> S"
  have "(if \<not> doomed (dedupApply S c) then texts (strip (dedupApply S c)) else []) =
      filter (\<lambda>s. \<not> isSpacey s) (if ?marked c then [] else unique_texts S c)" if c: "c \<in> set cs" for c
  proof -
    obtain t' d' a' cs' where n: "c = Node t' d' a' cs'" by (cases c)
    have h: "t' = TextNode \<or> t' = CommentNode \<longrightarrow> cs' = []" using html_tree_child[OF Node.prems c] by (simp add: n html_tree_def)
    note IH = Node.IH[OF c html_tree_child[OF Node.prems c]]
    show ?thesis
    proof (cases "?marked c")
      case True
      then have "doomed (dedupApply S c)" by (simp add: n doomed_def Let_def)
      then show ?thesis using True by simp
    next
      case F: False
      then have dc: "doomed (dedupApply S c) = doomed c" by (auto simp: n doomed_def Let_def)
      show ?thesis
      proof (cases "doomed c")
        case True
        then have "cs' = []" using h by (auto simp: n doomed_def)
        then show ?thesis using True F dc by (auto simp: n doomed_def)
      next
        case False
        then show ?thesis using F dc IH by (auto simp: n doomed_def)
      qed
    qed
  qed
  then have "concat (map texts (map strip (filter (\<lambda>c. \<not> doomed c) (map (dedupApply S) cs)))) =
      filter (\<lambda>s. \<not> isSpacey s) (concat (map (\<lambda>c. if ?marked c then [] else unique_texts S c) cs))"
    unfolding filter_map map_map concat_map_filter comp_def filter_concat
    by (intro arg_cong[of _ _ concat] map_cong refl) simp
  then show ?case by (auto simp: Let_def)
qed

text \<open>After blanking out and stripping, exactly the texts outside the elements with a weeded outline are left.\<close>

theorem dedup_apply:
  assumes "html_tree doc" "nd_type doc = DocumentNode"
  shows "\<exists>doc'. removeCommentsAndIntertagWhitespace (dedupApply S doc) = Some doc' \<and>
    texts doc' = filter (\<lambda>s. \<not> isSpacey s) (unique_texts S doc)"
  using dedupApply_texts[OF assms(1), of S] assms(2) by (cases doc) (simp add: strip_correct)

definition numbered_page :: node where
  "numbered_page = Node DocumentNode [] [] [Node ElementNode ''div'' [\<lparr>Key = ''ol'', Val = ''1''\<rparr>] [
     Node ElementNode ''p'' [\<lparr>Key = ''ol'', Val = ''1.1''\<rparr>] [Nd_text ''Subscribe now''],
     Node ElementNode ''p'' [\<lparr>Key = ''ol'', Val = ''1.2''\<rparr>] [Nd_text ''One story'']]]"

lemma dedup_apply_witness:
  "(\<exists>doc'. removeCommentsAndIntertagWhitespace (dedupApply {''1.1.''} numbered_page) = Some doc' \<and>
    texts doc' = filter (\<lambda>s. \<not> isSpacey s) (unique_texts {''1.1.''} numbered_page)) \<and>
   unique_texts {''1.1.''} numbered_page = [''One story'']"
proof -
  have "html_tree numbered_page" "nd_type numbered_page = DocumentNode" "unique_texts {''1.1.''} numbered_page = [''One story'']" by code_simp+
  then show ?thesis using dedup_apply by blast
qed

text \<open>Logging the paths of a page never pops an empty stack and leaves the stack as it was; the log has one line per element that is not
  skipped, in document order, with the elements above it.\<close>

theorem xpath_balanced: "computeXPathStack doc 0 (xPath, dump) = Some (xPath, xpath_log xPath doc)"
  using xpath_correct[of doc 0] by simp

lemma xpath_sample: "xpath_log [] numbered_page =
    '' 1: /div'' @ [CHR 0x0A] @ '' 2: /div/p  '' @ [CHR 0x0A] @ '' 2: /div/p  '' @ [CHR 0x0A]"
  by code_simp

end
