(* ===== verification/Spec2Isabelle.thy ===== *)
theory Spec2Isabelle
  imports OMap OSMap OSMaps Queue Util Levenshtein FsPath MemFile MemFs DsFs DsStore DsProps Sorts Strings Heuristics Distrib DirDigest Lines Dedup Dom DomLinks DomOutline
begin

text \<open>
  A verification development for the Go repository \<^verbatim>\<open>pbberlin/tools2\<close>, a collection of libraries and of web
  applications for App Engine. The libraries are modelled; this theory imports them all.

  \<^bold>\<open>The parts and how they interact.\<close>

  \<^item> Containers. \<^verbatim>\<open>omap/omap\<close>, its copy with string keys \<^verbatim>\<open>omap/osmap\<close> and \<^verbatim>\<open>omap/osmaps\<close>, which keeps up to
    twelve entries per node, are ordered maps; \<^verbatim>\<open>util\<close> has a queue on a ring buffer, a stack and helpers for slices and
    numbers; \<^verbatim>\<open>sort/*\<close> sorts slices and maps by their values.
  \<^item> Texts. \<^verbatim>\<open>text/levenshtein\<close> compares sequences of tokens, \<^verbatim>\<open>stringspb\<close> cuts, pads and normalizes strings.
  \<^item> File systems. \<^verbatim>\<open>os/fsi/common\<close> normalizes paths and walks trees for every implementation of the interface
    \<^verbatim>\<open>os/fsi\<close>; \<^verbatim>\<open>os/fsi/memfs\<close> keeps its files in memory and may shadow another file system,
    \<^verbatim>\<open>os/fsi/dsfs\<close> keeps them in the datastore, with copies of its directories in memcache.
  \<^item> Layout. \<^verbatim>\<open>transposablematrix\<close> packs areas (amorphs) onto a plane: the matrix gives the outline of the filled slots,
    neighbouring sections of the outline are fused, heuristics pick an amorph for a fusion and stitch it on.
  \<^item> Pages. \<^verbatim>\<open>net/http/repo\<close> crawls a site and keeps its links as a digest; \<^verbatim>\<open>net/http/domclean2\<close> cleans a page and
    numbers its elements; \<^verbatim>\<open>net/http/dedup\<close> compares the texts of several pages with \<^verbatim>\<open>levenshtein\<close> and blanks out
    what they share. \<^verbatim>\<open>distrib\<close> spreads jobs over goroutines; \<^verbatim>\<open>charting\<close> draws lines.

  \<^bold>\<open>Conventions.\<close> A function that can panic returns an option, \<^verbatim>\<open>None\<close> being the panic; an error the source returns is a
  value of its own. Slices are lists that are read and written through the checked functions of \<^verbatim>\<open>Prelude\<close>. Go's
  \<^verbatim>\<open>int\<close> is \<open>int\<close> where no theorem turns on 64 bits, a word where one does (\<^verbatim>\<open>Util\<close>). Strings are lists of bytes.
  Shared objects of the file system live in a store of addresses; elsewhere pointers form trees and are datatypes. Iteration
  over a Go map is over a list in an arbitrary order. Definitions have the names of the functions they model; their lines are
  in the manifest.

  \<^bold>\<open>The theories.\<close>

  \<^item> \<^verbatim>\<open>Prelude\<close>: slices, the string functions of the standard library, division, the collections of simplification rules.
  \<^item> \<^verbatim>\<open>KeyOrder\<close>: the contract of an order on keys and of an ordered map, as locales; histories of operations against a
    list of entries are proved once for all maps.
  \<^item> \<^verbatim>\<open>OMap\<close>: \<^verbatim>\<open>omap.go\<close>. Insertion and deletion keep the left-leaning red-black tree ordered and balanced and
    act on the entries as on a map; after insertions the loop of \<^verbatim>\<open>Find\<close> ends within 2 log2(n+1) rounds; deletion does not panic on any
    tree in order.
  \<^item> \<^verbatim>\<open>OSMap\<close>: \<^verbatim>\<open>osmap.go\<close> does what \<^verbatim>\<open>omap.go\<close> does on the same keys.
  \<^item> \<^verbatim>\<open>OSMaps\<close>: \<^verbatim>\<open>osmaps.go\<close> and its linked lists; up to twelve entries insertion keeps a list linked, no insertion loses an
    entry, and up to eleven keys the map is exact. What fails after the first split is a finding.
  \<^item> \<^verbatim>\<open>Queue\<close>: the ring buffer refines a list, with growing; the stack.
  \<^item> \<^verbatim>\<open>Util\<close>: slice functions, integer square roots and powers, counters, \<^verbatim>\<open>Sorts\<close>: indices and keys by value, the
    sorted map of \<^verbatim>\<open>sortmapx\<close>, \<^verbatim>\<open>Strings\<close>: \<^verbatim>\<open>stringspb\<close> and \<^verbatim>\<open>IncrementString\<close> of \<^verbatim>\<open>dsfs\<close>.
  \<^item> \<^verbatim>\<open>Levenshtein\<close>: the matrix is the optimal cost of an edit script; the script found has that cost and leads from one
    text to the other, for every kind of token.
  \<^item> \<^verbatim>\<open>FsPath\<close>: \<^verbatim>\<open>UnixPather\<close> maps every spelling of a path to one pair, outside the root only where the first component
    is longer than the name of the root and begins with it (the theorems about file systems exclude such names); \<^verbatim>\<open>Walk\<close> visits a tree in preorder.
  \<^item> \<^verbatim>\<open>MemFile\<close>: reading and writing a file; \<^verbatim>\<open>MemFs\<close>: the operations of the file system on the store, their invariant,
    and that they refine a map from names to contents.
  \<^item> \<^verbatim>\<open>DsFs\<close>: the operations of \<^verbatim>\<open>dsfs\<close> over the services it calls; \<^verbatim>\<open>DsStore\<close>: the laws of the services, where entities
    are and coherence of memcache; \<^verbatim>\<open>DsProps\<close>: directories stay a tree, files refine a map from keys to contents, an error of
    \<^verbatim>\<open>WriteFile\<close> means no change unless the put itself answered with it, open files behave like those of \<^verbatim>\<open>memfs\<close>, listings are complete.
  \<^item> \<^verbatim>\<open>Amorph\<close>: amorphs and the four indexes of the reservoir; \<^verbatim>\<open>Matrix\<close>: slots, limits and perspectives;
    \<^verbatim>\<open>Outline\<close>: the walk, the margins, the sections; \<^verbatim>\<open>Fusion\<close>; \<^verbatim>\<open>Heuristics\<close>: filters, finders and the placing of
    amorphs. Together: the indexes name the articles that are left, the limits are those of the filled slots (and of the slot 0,0, when the
    first filled slot lies on the first row or column), the walk ends,
    an article is never placed twice, and placing it changes its own cells only.
  \<^item> \<^verbatim>\<open>Distrib\<close>: a step relation of the goroutines of \<^verbatim>\<open>distrib.go\<close>. No run panics, closes a channel twice or
    returns a packet twice; some runs never return, and a theorem says which.
  \<^item> \<^verbatim>\<open>DirDigest\<close>: the digest refines the set of links it was given; \<^verbatim>\<open>Lines\<close>: the pixels of a line are
    neighbours and lie in the rectangle of its ends.
  \<^item> \<^verbatim>\<open>Dedup\<close>: words, similarity and weeding; the shortcuts by length do not change the result.
  \<^item> \<^verbatim>\<open>Dom\<close>: the steps of \<^verbatim>\<open>DomClean\<close> on trees of nodes, with the texts each of them keeps and loses, exactly; \<^verbatim>\<open>DomLinks\<close>: images in
    links, links and forms for the proxy; \<^verbatim>\<open>DomOutline\<close>: numbering, indenting and the way from a page to the trees of
    texts and back.

  \<^bold>\<open>Interfaces.\<close> \<open>key_order\<close> and \<open>ordered_map\<close> are interpreted by both tree maps with all the orders the constructors
  make, \<open>fifo\<close> by the ring buffer, \<open>equaler\<close> by the three kinds of tokens, \<open>go_sort\<close> by a stable sort, \<open>filterer\<close> by the
  two filters of the heuristics, \<open>named_store\<close> by the file system in memory; the file
  system on the datastore fulfils it for all services that do not fail (\<open>ds_named_store\<close>).

  \<^bold>\<open>Loops and fuel.\<close> Recursions that are not structural have a measure. A walk over a file system that answers anything may go
  on for ever; it has fuel, and the height of a tree is enough. \<^verbatim>\<open>Open\<close> and \<^verbatim>\<open>Mkdir\<close> of the file system call each other
  once per component of a path; two more than the components are enough. A client that reads until the end of a file needs
  more rounds than the file has bytes. Saving a directory of \<^verbatim>\<open>dsfs\<close> climbs up until it finds
  a directory that exists: a partial function, proved to end at the mount point at the latest. The loop over the queue of nodes in \<^verbatim>\<open>Dom\<close> is a partial function that is proved to
  end on every tree. The goroutines are a relation, without fuel.

  \<^bold>\<open>Parameters.\<close> Datastore, memcache and the clock are a record of operations, with their documented behaviour as the
  hypotheses \<open>service_laws\<close> (a write that answers with an error may or may not have been carried out), \<open>healthy\<close> and
  \<open>fresh_index\<close>; the list-based \<open>reliable\<close> shows that they can hold, \<open>read_only\<close> and \<open>late_store\<close> that writes can fail. A shadowed file system, the order of a call of \<^verbatim>\<open>range\<close>, the parsing of an address by \<^verbatim>\<open>url.Parse\<close>,
  host names and whether the server is a local one are arguments of the definitions that need them. Nodes of pages have the
  public fields of \<^verbatim>\<open>golang.org/x/net/html\<close>.

  \<^bold>\<open>Not modelled.\<close> Handlers, templates and wrappers of the services of the platform (most of \<^verbatim>\<open>appengine\<close>, \<^verbatim>\<open>dsu\<close>,
  \<^verbatim>\<open>net/http/*\<close>), whose effect is that of the services; drawing and scales in floating-point numbers;
  output to terminals and logs; locks, where a mutex makes an operation one step; parsing, rendering and fetching of pages;
  generated and vendored code, tests and demonstrations. Square roots and averages that the source computes in floating point
  and rounds are exact here. Each part that is left out, and why, is in the manifest.
\<close>

end
